(* ===== verification/Vccl_Prelude.thy ===== *)
theory Vccl_Prelude
  imports Main "HOL-Library.Word"
begin

text \<open>
  Shared vocabulary of the development: bytes, addresses and the flat byte memory a rank computes
  in, the C library's number parsers, and the generic lemmas about memories, lists and modular
  arithmetic that the component theories use.

  \<^item> Memory is a function from addresses to bytes. Addresses are natural numbers and address 0 is
    the null pointer. \<open>rd m p n\<close> reads \<open>n\<close> bytes at \<open>p\<close>, \<open>wr m p bs\<close> stores a byte string, and
    \<open>disj\<close> says that two ranges do not meet. All buffers of a rank (user buffers and the
    communicator's scratch area) live in one such memory, so aliasing is visible.
  \<^item> \<open>mem_simps\<close> collects the read-over-write laws, \<open>ring_simps\<close> the facts about indices modulo
    the number of ranks.
\<close>

named_theorems mem_simps \<open>read-over-write laws of the byte memory\<close>
named_theorems ring_simps \<open>indices modulo the number of ranks\<close>

type_synonym byte = "8 word"
type_synonym addr = nat
type_synonym mem = "nat \<Rightarrow> byte"

definition rd :: "mem \<Rightarrow> addr \<Rightarrow> nat \<Rightarrow> byte list" where
  "rd m p n = map m [p..<p + n]"

definition wr :: "mem \<Rightarrow> addr \<Rightarrow> byte list \<Rightarrow> mem" where
  "wr m p bs = (\<lambda>a. if p \<le> a \<and> a < p + length bs then bs ! (a - p) else m a)"

definition disj :: "addr \<Rightarrow> nat \<Rightarrow> addr \<Rightarrow> nat \<Rightarrow> bool" where
  "disj p n q k \<longleftrightarrow> n = 0 \<or> k = 0 \<or> p + n \<le> q \<or> q + k \<le> p"

subsection \<open>Reads and writes\<close>

lemma length_rd [simp]: "length (rd m p n) = n"
  by (simp add: rd_def)

lemma nth_rd [simp]: "i < n \<Longrightarrow> rd m p n ! i = m (p + i)"
  by (simp add: rd_def)

lemma rd_0 [simp]: "rd m p 0 = []"
  by (simp add: rd_def)

lemma rd_eq_iff: "rd m p n = bs \<longleftrightarrow> length bs = n \<and> (\<forall>i<n. m (p + i) = bs ! i)"
  by (auto simp: list_eq_iff_nth_eq)

lemma rd_cong: "(\<And>a. p \<le> a \<Longrightarrow> a < p + n \<Longrightarrow> m a = m' a) \<Longrightarrow> rd m p n = rd m' p n"
  by (simp add: rd_def)

lemma rd_add: "rd m p (n + k) = rd m p n @ rd m (p + n) k"
  using upt_add_eq_append [of p "p + n" k] by (simp add: rd_def add.assoc [symmetric])

lemma take_rd [mem_simps]: "k \<le> n \<Longrightarrow> take k (rd m p n) = rd m p k"
  by (simp add: rd_def take_map)

lemma rd_sub: "i + k \<le> n \<Longrightarrow> take k (drop i (rd m p n)) = rd m (p + i) k"
  by (auto simp: list_eq_iff_nth_eq add.assoc)

lemma wr_nil [simp]: "wr m p [] = m"
  by (rule ext) (auto simp: wr_def)

lemma rd_wr_same [mem_simps]: "length bs = n \<Longrightarrow> rd (wr m p bs) p n = bs"
  by (simp add: rd_eq_iff wr_def)

lemma disj_sym: "disj p n q k \<longleftrightarrow> disj q k p n"
  by (auto simp: disj_def)

lemma disj_sub: "disj p n q k \<Longrightarrow> p \<le> p' \<Longrightarrow> p' + n' \<le> p + n \<Longrightarrow> disj p' n' q k"
  by (auto simp: disj_def)

lemma disj_sub_both:
  "disj p n q k \<Longrightarrow> p \<le> p' \<Longrightarrow> p' + n' \<le> p + n \<Longrightarrow> q \<le> q' \<Longrightarrow> q' + k' \<le> q + k
    \<Longrightarrow> disj p' n' q' k'"
  by (auto simp: disj_def)

lemma rd_wr_disj [mem_simps]: "disj p (length bs) q n \<Longrightarrow> rd (wr m p bs) q n = rd m q n"
  by (auto simp: rd_eq_iff wr_def disj_def)

lemma wr_outside: "a < p \<or> p + length bs \<le> a \<Longrightarrow> wr m p bs a = m a"
  by (auto simp: wr_def)

lemma wr_wr_commute:
  "disj p (length bs) q (length cs) \<Longrightarrow> wr (wr m p bs) q cs = wr (wr m q cs) p bs"
  by (rule ext) (auto simp: wr_def disj_def)

lemma wr_rd_id [simp]: "wr m p (rd m p n) = m"
  by (rule ext) (auto simp: wr_def)

lemma rd_wr_inside:
  "p \<le> q \<Longrightarrow> q + length bs \<le> p + n \<Longrightarrow>
   rd (wr m q bs) p n = take (q - p) (rd m p n) @ bs @ drop (q - p + length bs) (rd m p n)"
proof (rule nth_equalityI)
  assume *: "p \<le> q" "q + length bs \<le> p + n"
  then show "length (rd (wr m q bs) p n) =
      length (take (q - p) (rd m p n) @ bs @ drop (q - p + length bs) (rd m p n))"
    by simp
  fix i assume "i < length (rd (wr m q bs) p n)"
  then have "i < n" by simp
  with * show "rd (wr m q bs) p n ! i =
      (take (q - p) (rd m p n) @ bs @ drop (q - p + length bs) (rd m p n)) ! i"
    by (auto simp: nth_append wr_def add.commute)
qed

lemma rd_wr_part: "o' + k \<le> length bs \<Longrightarrow> rd (wr m p bs) (p + o') k = take k (drop o' bs)"
  by (auto simp: list_eq_iff_nth_eq wr_def)

lemma rd_wr_copy: "o' + k \<le> n \<Longrightarrow> rd (wr m p (rd m' p' n)) (p + o') k = rd m' (p' + o') k"
  by (simp add: rd_wr_part rd_sub)

subsection \<open>Indices around a ring\<close>

lemma ring_add [ring_simps]: "r < n \<Longrightarrow> s \<le> n \<Longrightarrow> (r + s) mod n = (if r + s < n then r + s else r + s - n)"
  for r s n :: nat
  by (simp add: mod_if)

lemma ring_sub [ring_simps]: "r < n \<Longrightarrow> s \<le> n \<Longrightarrow> (r + n - s) mod n = (if s \<le> r then r - s else r + n - s)"
  for r s n :: nat
proof (cases "s \<le> r")
  case True
  assume "r < n" "s \<le> n"
  with True have *: "r + n - s = (r - s) + n" by simp
  have "(r + n - s) mod n = r - s"
    unfolding * mod_add_self2 using \<open>r < n\<close> by simp
  then show ?thesis using True by simp
qed simp

lemma ring_shift [ring_simps]:
  fixes r s n :: nat
  assumes "r < n" "s \<le> n"
  shows "((r + s) mod n + n - s) mod n = r" and "((r + n - s) mod n + s) mod n = r"
proof -
  have "(r + s) mod n < n" "(r + n - s) mod n < n" using assms by simp_all
  note * = ring_sub [OF this(1) assms(2)] ring_add [OF this(2) assms(2)]
  show "((r + s) mod n + n - s) mod n = r"
    unfolding * ring_add [OF assms] using assms by (cases "r + s < n") auto
  show "((r + n - s) mod n + s) mod n = r"
    unfolding * ring_sub [OF assms] using assms by (cases "s \<le> r") auto
qed

text \<open>\<open>behind n a t\<close>: the index \<open>t\<close> places behind \<open>a\<close> on a ring of \<open>n\<close>, for \<open>t \<le> 2 * n\<close>.\<close>

definition behind :: "nat \<Rightarrow> nat \<Rightarrow> nat \<Rightarrow> nat" where
  "behind n a t = (a + 2 * n - t) mod n"

lemma behind_less [simp]: "0 < n \<Longrightarrow> behind n a t < n"
  by (simp add: behind_def)

lemma behind_0 [simp]: "behind n a 0 = a mod n"
  by (simp add: behind_def)

lemma behind_mod: "t \<le> 2 * n \<Longrightarrow> behind n (a mod n) t = behind n a t"
proof -
  assume "t \<le> 2 * n"
  then have *: "x + 2 * n - t = x + (2 * n - t)" for x by simp
  show ?thesis unfolding behind_def * by (rule mod_add_left_eq)
qed

lemma behind_one: "t \<le> n \<Longrightarrow> (a + n - t) mod n = behind n a t"
proof -
  assume "t \<le> n"
  then have "a + 2 * n - t = (a + n - t) + n" by simp
  then show ?thesis by (simp only: behind_def mod_add_self2)
qed

lemma behind_prev:
  assumes "t < 2 * n" "0 < n"
  shows "behind n ((r + n - 1) mod n + sh) t = behind n (r + sh) (Suc t)"
proof -
  have "((r + n - 1) mod n + sh) + 2 * n - t = (r + n - 1) mod n + (sh + 2 * n - t)" using assms by simp
  then have "behind n ((r + n - 1) mod n + sh) t = (r + n - 1 + (sh + 2 * n - t)) mod n"
    by (simp only: behind_def mod_add_left_eq)
  also have "r + n - 1 + (sh + 2 * n - t) = (r + sh + 2 * n - Suc t) + n" using assms by simp
  finally show ?thesis by (simp only: behind_def mod_add_self2)
qed

lemma behind_ahead: "t \<le> 2 * n \<Longrightarrow> (behind n a t + t) mod n = a mod n"
proof -
  assume "t \<le> 2 * n"
  then have "a + 2 * n - t + t = a + 2 * n" by simp
  then show ?thesis by (metis behind_def mod_add_left_eq mod_mult_self1)
qed

lemma behind_inj: "behind n a t = behind n a u \<Longrightarrow> t < n \<Longrightarrow> u < n \<Longrightarrow> t = u"
proof (induction t u rule: linorder_wlog)
  case (le t u)
  then have "n dvd (a + 2 * n - t) - (a + 2 * n - u)"
    by (intro mod_eq_dvd_iff_nat [THEN iffD1]) (auto simp: behind_def)
  moreover have "(a + 2 * n - t) - (a + 2 * n - u) = u - t" using le by simp
  ultimately have "n dvd u - t" by simp
  then show ?case using le dvd_imp_le [of n "u - t"] by (cases "t = u") auto
next
  case (sym t u)
  then show ?case by simp
qed

lemma behind_surj: "j < n \<Longrightarrow> \<exists>t<n. behind n a t = j"
proof -
  assume "j < n"
  have "inj_on (behind n a) {..<n}" by (auto intro: inj_onI dest: behind_inj)
  moreover have "behind n a ` {..<n} \<subseteq> {..<n}" by auto
  ultimately have "behind n a ` {..<n} = {..<n}" by (intro endo_inj_surj) auto
  with \<open>j < n\<close> show ?thesis by (metis imageE lessThan_iff)
qed

subsection \<open>The C library's number parsers\<close>

text \<open>Strings are C strings without the final null character. \<open>atoi\<close> and \<open>strtoull\<close> (base 10,
  no end pointer) skip white space, take a sign and the longest run of digits, and give 0 when there
  is none; \<open>strtoull\<close> saturates at the largest 64-bit value and negates modulo \<open>2 ^ 64\<close>.\<close>

definition isSpaceC :: "char \<Rightarrow> bool" where
  "isSpaceC c \<longleftrightarrow> c = CHR '' '' \<or> (9 \<le> (of_char c :: nat) \<and> (of_char c :: nat) \<le> 13)"

definition isDigitC :: "char \<Rightarrow> bool" where
  "isDigitC c \<longleftrightarrow> 48 \<le> (of_char c :: nat) \<and> (of_char c :: nat) \<le> 57"

definition digitsVal :: "string \<Rightarrow> nat" where
  "digitsVal s = foldl (\<lambda>v c. 10 * v + (of_char c - 48)) 0 (takeWhile isDigitC s)"

definition signedVal :: "string \<Rightarrow> bool \<times> nat" where
  "signedVal s =
     (case dropWhile isSpaceC s of
        c # cs \<Rightarrow> if c = CHR ''-'' then (True, digitsVal cs)
                  else if c = CHR ''+'' then (False, digitsVal cs)
                  else (False, digitsVal (c # cs))
      | [] \<Rightarrow> (False, 0))"

definition atoi :: "string \<Rightarrow> int" where
  "atoi s = (case signedVal s of (neg, v) \<Rightarrow> if neg then - int v else int v)"

definition strtoull :: "string \<Rightarrow> nat" where
  "strtoull s =
     (case signedVal s of (neg, v) \<Rightarrow>
        if v \<ge> 2 ^ 64 then 2 ^ 64 - 1
        else if neg then (2 ^ 64 - v) mod 2 ^ 64 else v)"

end
