(* ===== verification/Vccl_Types.thy ===== *)
theory Vccl_Types
  imports Vccl_Prelude
begin

text \<open>
  The public enumerations of \<^verbatim>\<open>include/vccl.h\<close> and the two functions of
  \<^verbatim>\<open>src/core/types.cc\<close>. The trailing enumerators \<open>vcclNumResults\<close> and \<open>vcclNumTypes\<close> stand
  for every value outside the listed codes: both switches send them to their default.
  A reduction operator is an \<open>int\<close>, as the C enumeration is: codes from \<open>vcclNumOps\<close> on name
  communicator-local operators and negative codes are invalid.
\<close>

datatype vcclResult_t =
  vcclSuccess | vcclUnhandledError | vcclSystemError | vcclInternalError
| vcclInvalidArgument | vcclInvalidUsage | vcclRemoteError | vcclNumResults

datatype vcclDataType_t =
  vcclInt8 | vcclUint8 | vcclInt32 | vcclUint32 | vcclInt64 | vcclUint64
| vcclFloat16 | vcclFloat32 | vcclFloat64 | vcclBfloat16 | vcclNumTypes

type_synonym vcclRedOp_t = int

definition vcclSum :: vcclRedOp_t where "vcclSum = 0"
definition vcclProd :: vcclRedOp_t where "vcclProd = 1"
definition vcclMax :: vcclRedOp_t where "vcclMax = 2"
definition vcclMin :: vcclRedOp_t where "vcclMin = 3"
definition vcclAvg :: vcclRedOp_t where "vcclAvg = 4"
definition vcclNumOps :: vcclRedOp_t where "vcclNumOps = 5"

lemmas redop_defs = vcclSum_def vcclProd_def vcclMax_def vcclMin_def vcclAvg_def vcclNumOps_def

fun vcclGetErrorString :: "vcclResult_t \<Rightarrow> string" where
  "vcclGetErrorString vcclSuccess = ''no error''"
| "vcclGetErrorString vcclUnhandledError = ''unhandled error''"
| "vcclGetErrorString vcclSystemError = ''system error''"
| "vcclGetErrorString vcclInternalError = ''internal error''"
| "vcclGetErrorString vcclInvalidArgument = ''invalid argument''"
| "vcclGetErrorString vcclInvalidUsage = ''invalid usage''"
| "vcclGetErrorString vcclRemoteError = ''remote process error''"
| "vcclGetErrorString vcclNumResults = ''unknown result code''"

fun vcclTypeSize :: "vcclDataType_t \<Rightarrow> nat" where
  "vcclTypeSize vcclInt8 = 1"
| "vcclTypeSize vcclUint8 = 1"
| "vcclTypeSize vcclFloat16 = 2"
| "vcclTypeSize vcclBfloat16 = 2"
| "vcclTypeSize vcclInt32 = 4"
| "vcclTypeSize vcclUint32 = 4"
| "vcclTypeSize vcclFloat32 = 4"
| "vcclTypeSize vcclInt64 = 8"
| "vcclTypeSize vcclUint64 = 8"
| "vcclTypeSize vcclFloat64 = 8"
| "vcclTypeSize vcclNumTypes = 0"

definition isFloatType :: "vcclDataType_t \<Rightarrow> bool" where
  "isFloatType dt \<longleftrightarrow>
     dt = vcclFloat16 \<or> dt = vcclBfloat16 \<or> dt = vcclFloat32 \<or> dt = vcclFloat64"

lemma vcclTypeSize_pos: "vcclTypeSize dt > 0 \<longleftrightarrow> dt \<noteq> vcclNumTypes"
  by (cases dt) auto

lemma vcclTypeSize_dvd_8: "dt \<noteq> vcclNumTypes \<Longrightarrow> vcclTypeSize dt dvd 8"
  by (cases dt) (simp_all add: dvd_def; presburger)+

lemma vcclGetErrorString_inj: "vcclGetErrorString a = vcclGetErrorString b \<longleftrightarrow> a = b"
  by (cases a; cases b) auto

end
