(* ===== verification/Vccl_Transport.thy ===== *)
theory Vccl_Transport
  imports Vccl_Types
begin

text \<open>
  Memory registration of a transport (\<^verbatim>\<open>src/transport/transport.h\<close>, \<^verbatim>\<open>tcp.cc\<close>,
  \<^verbatim>\<open>verbs.cc\<close>). The TCP transport inherits the no-op defaults of the base class; the verbs
  transport keeps a list of regions and hands out the address of a list node as the handle.

  Handles are addresses, 0 is the null pointer and \<open>next_node\<close> is the address the next node gets.
  What the driver answers to a registration is the parameter \<open>ibv_reg_mr\<close> / \<open>ibv_reg_dmabuf_mr\<close> of
  the transport state: the memory region, or null. The staging buffer is the address \<open>malloc\<close> returned. The
  remaining fields of \<open>VerbsTransport\<close> belong to the data path (theory \<open>Vccl_Verbs\<close>).

  The locale \<open>mr_table\<close> is the contract a communicator relies on; it is interpreted on the
  dispatching operations at the end, for both transports at once.
\<close>

type_synonym mr = nat    \<comment> \<open>\<^verbatim>\<open>ibv_mr*\<close>; 0 is null\<close>

record Region =
  rnode :: addr
  rstart :: addr
  rlen :: nat
  rmr :: mr
  rstaging :: addr

record Copyback =
  cbDst :: addr
  cbSrc :: addr
  cbBytes :: nat

record Device =
  devCtx :: nat
  devPd :: nat
  devPort :: "8 word"
  devLid :: "16 word"
  devMtu :: "8 word"
  devGidLen :: int
  devGidIndex :: int
  devGid :: "byte list"
  devRoce :: bool

record VerbsTransport =
  regions :: "Region list"
  next_node :: addr
  ibv_reg_mr :: "addr \<Rightarrow> nat \<Rightarrow> mr"
  ibv_reg_dmabuf_mr :: "int \<Rightarrow> nat \<Rightarrow> nat \<Rightarrow> mr"
  dev :: Device
  cqs :: "nat list"
  qps :: "nat list"
  maxInline :: "nat list"
  prePostedRecv :: "nat list list"
  recvSurplus :: "nat list"
  asyncFatal :: bool
  pendingCopyback :: "Copyback list"
  tempMrs :: "mr list"

datatype transport_impl = TcpTransport | Verbs VerbsTransport

record Transport =
  impl :: transport_impl
  taborted :: bool

definition addRegion :: "Transport \<Rightarrow> VerbsTransport \<Rightarrow> addr \<Rightarrow> nat \<Rightarrow> mr \<Rightarrow> addr \<Rightarrow> Transport" where
  "addRegion t v buf bytes mr stg =
     t\<lparr>impl := Verbs (v\<lparr>regions := regions v @ [\<lparr>rnode = next_node v, rstart = buf, rlen = bytes,
                                                 rmr = mr, rstaging = stg\<rparr>],
                        next_node := Suc (next_node v)\<rparr>)\<rparr>"

text \<open>\<open>regMr\<close> returns the result, the value of \<open>*handle\<close> (callers initialise it with null) and the
  new transport state.\<close>

definition regMr :: "Transport \<Rightarrow> addr \<Rightarrow> nat \<Rightarrow> vcclResult_t \<times> addr \<times> Transport" where
  "regMr t buf bytes =
     (case impl t of
        TcpTransport \<Rightarrow> (vcclSuccess, 0, t)
      | Verbs v \<Rightarrow>
          if ibv_reg_mr v buf bytes = 0 then (vcclSystemError, 0, t)
          else (vcclSuccess, next_node v, addRegion t v buf bytes (ibv_reg_mr v buf bytes) 0))"

definition regDmaBuf ::
  "Transport \<Rightarrow> int \<Rightarrow> nat \<Rightarrow> addr \<Rightarrow> nat \<Rightarrow> addr \<Rightarrow> vcclResult_t \<times> addr \<times> Transport" where
  "regDmaBuf t fd offset ptr bytes stagingBuf =
     (case impl t of
        TcpTransport \<Rightarrow> regMr t ptr bytes
      | Verbs v \<Rightarrow>
          if ibv_reg_dmabuf_mr v fd offset bytes \<noteq> 0
          then (vcclSuccess, next_node v, addRegion t v ptr bytes (ibv_reg_dmabuf_mr v fd offset bytes) 0)
          else if stagingBuf = 0 then (vcclSystemError, 0, t)
          else if ibv_reg_mr v stagingBuf bytes = 0 then (vcclSystemError, 0, t)
          else (vcclSuccess, next_node v, addRegion t v ptr bytes (ibv_reg_mr v stagingBuf bytes) stagingBuf))"

primrec eraseNode :: "addr \<Rightarrow> Region list \<Rightarrow> Region list" where
  "eraseNode h [] = []"
| "eraseNode h (r # rs) = (if rnode r = h then rs else r # eraseNode h rs)"

definition deregMr :: "Transport \<Rightarrow> addr \<Rightarrow> vcclResult_t \<times> Transport" where
  "deregMr t handle =
     (case impl t of
        TcpTransport \<Rightarrow> (vcclSuccess, t)
      | Verbs v \<Rightarrow>
          if handle = 0 then (vcclSuccess, t)
          else if list_ex (\<lambda>r. rnode r = handle) (regions v)
          then (vcclSuccess, t\<lparr>impl := Verbs (v\<lparr>regions := eraseNode handle (regions v)\<rparr>)\<rparr>)
          else (vcclInvalidArgument, t))"

definition covers :: "Transport \<Rightarrow> addr \<Rightarrow> nat \<Rightarrow> bool" where
  "covers t buf bytes =
     (case impl t of
        TcpTransport \<Rightarrow> False
      | Verbs v \<Rightarrow> list_ex (\<lambda>r. rstart r \<le> buf \<and> buf + bytes \<le> rstart r + rlen r) (regions v))"

definition abort :: "Transport \<Rightarrow> Transport" where
  "abort t = t\<lparr>taborted := True\<rparr>"

subsection \<open>The registration contract\<close>

text \<open>The handles a transport holds and its well-formedness: node addresses are distinct, not null
  and below the next address.\<close>

definition liveRegs :: "Transport \<Rightarrow> addr set" where
  "liveRegs t = (case impl t of TcpTransport \<Rightarrow> {} | Verbs v \<Rightarrow> rnode ` set (regions v))"

definition wfTransport :: "Transport \<Rightarrow> bool" where
  "wfTransport t =
     (case impl t of
        TcpTransport \<Rightarrow> True
      | Verbs v \<Rightarrow> 0 < next_node v \<and> distinct (map rnode (regions v)) \<and>
          list_all (\<lambda>r. 0 < rnode r \<and> rnode r < next_node v) (regions v))"

locale mr_table =
  fixes reg :: "'t \<Rightarrow> addr \<Rightarrow> nat \<Rightarrow> vcclResult_t \<times> addr \<times> 't"
    and dereg :: "'t \<Rightarrow> addr \<Rightarrow> vcclResult_t \<times> 't"
    and cov :: "'t \<Rightarrow> addr \<Rightarrow> nat \<Rightarrow> bool"
    and live :: "'t \<Rightarrow> addr set"
    and wf :: "'t \<Rightarrow> bool"
  assumes live_nonnull: "wf t \<Longrightarrow> h \<in> live t \<Longrightarrow> h \<noteq> 0"
    and reg_fail: "reg t p n = (e, h, t') \<Longrightarrow> e \<noteq> vcclSuccess \<Longrightarrow> h = 0 \<and> t' = t"
    and reg_null: "reg t p n = (vcclSuccess, 0, t') \<Longrightarrow> wf t \<Longrightarrow> t' = t"
    and reg_new: "reg t p n = (vcclSuccess, h, t') \<Longrightarrow> wf t \<Longrightarrow> h \<noteq> 0 \<Longrightarrow>
           h \<notin> live t \<and> live t' = insert h (live t) \<and> cov t' p n"
    and reg_wf: "wf t \<Longrightarrow> wf (snd (snd (reg t p n)))"
    and dereg_wf: "wf t \<Longrightarrow> wf (snd (dereg t h))"
    and dereg_live: "wf t \<Longrightarrow> live (snd (dereg t h)) = live t - {h}"
    and dereg_ok: "wf t \<Longrightarrow> h \<in> live t \<Longrightarrow> fst (dereg t h) = vcclSuccess"
begin

definition dereg_all :: "addr list \<Rightarrow> 't \<Rightarrow> 't" where
  "dereg_all hs t = fold (\<lambda>h t. snd (dereg t h)) hs t"

lemma dereg_all_wf: "wf t \<Longrightarrow> wf (dereg_all hs t)"
  unfolding dereg_all_def by (induction hs arbitrary: t) (auto simp: dereg_wf)

lemma dereg_all_live: "wf t \<Longrightarrow> live (dereg_all hs t) = live t - set hs"
  unfolding dereg_all_def by (induction hs arbitrary: t) (auto simp: dereg_wf dereg_live)

lemma reg_live:
  "reg t p n = (e, h, t') \<Longrightarrow> wf t \<Longrightarrow> live t' = live t \<union> (if h = 0 then {} else {h})"
  using reg_fail [of t p n e h t'] reg_null [of t p n t'] reg_new [of t p n h t']
  by (cases "e = vcclSuccess"; cases "h = 0") auto

lemma reg_fresh:
  "reg t p n = (e, h, t') \<Longrightarrow> wf t \<Longrightarrow> h \<notin> live t"
  using reg_fail [of t p n e h t'] reg_new [of t p n h t'] live_nonnull [of t h]
  by (cases "e = vcclSuccess"; cases "h = 0") auto

text \<open>A registration followed by its deregistration leaves the set of live handles as it was.\<close>

lemma reg_dereg:
  "reg t p n = (vcclSuccess, h, t') \<Longrightarrow> wf t \<Longrightarrow> live (snd (dereg t' h)) = live t"
  using reg_live [of t p n _ h t'] reg_fresh [of t p n _ h t'] reg_wf [of t p n] live_nonnull [of t]
  by (force simp: dereg_live)

end

subsection \<open>Both transports implement it\<close>

lemma addRegion_live [simp]: "liveRegs (addRegion t v p n mr s) = insert (next_node v) (rnode ` set (regions v))"
  by (simp add: addRegion_def liveRegs_def)

lemma addRegion_wf [simp]:
  "impl t = Verbs v \<Longrightarrow> wfTransport t \<Longrightarrow> wfTransport (addRegion t v p n mr s)"
  by (auto simp: addRegion_def wfTransport_def list_all_iff)

lemma addRegion_covers [simp]: "covers (addRegion t v p n mr s) p n"
  by (simp add: addRegion_def covers_def)

lemma set_eraseNode: "set (eraseNode h rs) \<subseteq> set rs"
  by (induction rs) auto

lemma eraseNode_nodes: "distinct (map rnode rs) \<Longrightarrow> rnode ` set (eraseNode h rs) = rnode ` set rs - {h}"
proof (induction rs)
  case (Cons r rs)
  have "rnode ` set rs - {rnode r} = rnode ` set rs" using Cons.prems by auto
  with Cons show ?case by (cases "rnode r = h") (simp_all add: insert_Diff_if)
qed simp

lemma eraseNode_distinct: "distinct (map rnode rs) \<Longrightarrow> distinct (map rnode (eraseNode h rs))"
  by (induction rs) (auto dest: set_eraseNode [THEN subsetD])

lemma deregMr_live: "wfTransport t \<Longrightarrow> liveRegs (snd (deregMr t h)) = liveRegs t - {h}"
  by (cases "impl t")
    (auto simp: deregMr_def wfTransport_def liveRegs_def list_all_iff list_ex_iff
      eraseNode_nodes [THEN equalityD1, THEN subsetD] eraseNode_nodes simp del: image_iff)

lemma deregMr_wf: "wfTransport t \<Longrightarrow> wfTransport (snd (deregMr t h))"
  by (auto simp: deregMr_def wfTransport_def list_all_iff eraseNode_distinct
      split: transport_impl.splits dest!: set_eraseNode [THEN subsetD])

interpretation mr: mr_table regMr deregMr covers liveRegs wfTransport
proof unfold_locales
  show "wfTransport t \<Longrightarrow> h \<in> liveRegs t \<Longrightarrow> h \<noteq> 0" for t h
    by (auto simp: wfTransport_def liveRegs_def list_all_iff split: transport_impl.splits)
  show "regMr t p n = (e, h, t') \<Longrightarrow> e \<noteq> vcclSuccess \<Longrightarrow> h = 0 \<and> t' = t" for t p n e h t'
    by (auto simp: regMr_def split: transport_impl.splits if_splits)
  show "regMr t p n = (vcclSuccess, 0, t') \<Longrightarrow> wfTransport t \<Longrightarrow> t' = t" for t p n t'
    by (auto simp: regMr_def wfTransport_def split: transport_impl.splits if_splits)
  show "regMr t p n = (vcclSuccess, h, t') \<Longrightarrow> wfTransport t \<Longrightarrow> h \<noteq> 0 \<Longrightarrow>
      h \<notin> liveRegs t \<and> liveRegs t' = insert h (liveRegs t) \<and> covers t' p n" for t p n h t'
    by (auto simp: regMr_def wfTransport_def liveRegs_def list_all_iff covers_def addRegion_def
        split: transport_impl.splits if_splits)
  show "wfTransport t \<Longrightarrow> wfTransport (snd (snd (regMr t p n)))" for t p n
    by (auto simp: regMr_def split: transport_impl.splits)
  show "wfTransport t \<Longrightarrow> wfTransport (snd (deregMr t h))" for t h
    by (rule deregMr_wf)
  show "wfTransport t \<Longrightarrow> liveRegs (snd (deregMr t h)) = liveRegs t - {h}" for t h
    by (rule deregMr_live)
  show "wfTransport t \<Longrightarrow> h \<in> liveRegs t \<Longrightarrow> fst (deregMr t h) = vcclSuccess" for t h
    by (auto simp: deregMr_def liveRegs_def list_ex_iff split: transport_impl.splits)
qed

end
