(* ===== verification/Vccl_Comm.thy ===== *)
theory Vccl_Comm
  imports Vccl_Transport "HOL-Library.Product_Lexorder"
begin

text \<open>
  The communicator of \<^verbatim>\<open>src/core/comm.h\<close>: its record, the growable scratch buffer, the
  least-recently-used cache of memory registrations, the scoped registrations of one collective,
  custom reduction operators and the error latch.

  Pointers are addresses with 0 as null. \<open>scratchBuf\<close> and \<open>scratchSize\<close> are the data pointer and
  the size of the vector \<^verbatim>\<open>scratch\<close>; growing it moves it to the address the allocator gives for
  the new size, a parameter. The list \<open>scopedRegs\<close> of a communicator is the member \<^verbatim>\<open>handles_\<close> of the
  \<open>ScopedReg\<close> object of the collective that runs on it (at most one, by the one-collective-at-a-time
  contract of \<^verbatim>\<open>vccl.h\<close>). The clock of the cache is unbounded where the code has 64 bits.
\<close>

record MemReg =
  memPtr :: addr                 \<comment> \<open>address of the object, the public handle\<close>
  transportHandle :: addr
  mapped :: addr
  mbytes :: nat

record CustomOp =
  opScalar :: "64 word"
  opActive :: bool

record MrCacheEntry =
  eaddr :: addr
  elen :: nat
  ehandle :: addr
  eseq :: nat

record vcclComm =
  rank :: nat
  nranks :: nat
  transport :: "Transport option"
  registrations :: "MemReg list"
  customOps :: "CustomOp list"
  asyncError :: vcclResult_t
  aborted :: bool
  lastError :: string
  scratchBuf :: addr
  scratchSize :: nat
  scratchRegHandle :: addr
  mrCache :: "MrCacheEntry list"
  mrClock :: nat
  scopedRegs :: "addr list"

type_synonym getenv = "string \<Rightarrow> string option"

definition next_rank :: "vcclComm \<Rightarrow> nat" where
  "next_rank c = (rank c + 1) mod nranks c"

definition prev_rank :: "vcclComm \<Rightarrow> nat" where
  "prev_rank c = (rank c + nranks c - 1) mod nranks c"

subsection \<open>Transport calls on a communicator\<close>

text \<open>\<open>if (transport) transport->deregMr(h)\<close>, its result ignored.\<close>

definition commDereg :: "addr \<Rightarrow> vcclComm \<Rightarrow> vcclComm" where
  "commDereg h c = c\<lparr>transport := map_option (\<lambda>t. snd (deregMr t h)) (transport c)\<rparr>"

definition commReg :: "addr \<Rightarrow> nat \<Rightarrow> vcclComm \<Rightarrow> vcclResult_t \<times> addr \<times> vcclComm" where
  "commReg buf bytes c =
     (case transport c of
        None \<Rightarrow> (vcclSuccess, 0, c)
      | Some t \<Rightarrow> (case regMr t buf bytes of (e, h, t') \<Rightarrow> (e, h, c\<lparr>transport := Some t'\<rparr>)))"

subsection \<open>Scratch space\<close>

text \<open>Growing the vector copies the old contents to the new block and zeroes the rest; a failed
  registration of the new block is ignored and leaves the handle null.\<close>

definition scratchAt ::
  "(nat \<Rightarrow> addr) \<Rightarrow> nat \<Rightarrow> vcclComm \<Rightarrow> mem \<Rightarrow> addr \<times> vcclComm \<times> mem" where
  "scratchAt alloc bytes c m =
     (if scratchSize c < bytes then
        let c1 = (if transport c \<noteq> None \<and> scratchRegHandle c \<noteq> 0
                  then (commDereg (scratchRegHandle c) c)\<lparr>scratchRegHandle := 0\<rparr> else c);
            m' = wr m (alloc bytes)
                   (rd m (scratchBuf c) (scratchSize c) @ replicate (bytes - scratchSize c) 0);
            c2 = c1\<lparr>scratchBuf := alloc bytes, scratchSize := bytes\<rparr>;
            c3 = (if transport c \<noteq> None
                  then (case commReg (alloc bytes) bytes c2 of (e, h, c') \<Rightarrow> c'\<lparr>scratchRegHandle := h\<rparr>)
                  else c2)
        in (scratchBuf c3, c3, m')
      else (scratchBuf c, c, m))"

subsection \<open>The registration cache\<close>

definition mrCacheCap :: "getenv \<Rightarrow> int" where
  "mrCacheCap env =
     (case env ''VCCL_MR_CACHE'' of
        None \<Rightarrow> 16
      | Some e \<Rightarrow> if e = ''0'' then 0 else let v = atoi e in if v > 0 then v else 16)"

fun mrCacheGetL :: "addr \<Rightarrow> nat \<Rightarrow> nat \<Rightarrow> MrCacheEntry list \<Rightarrow> (addr \<times> MrCacheEntry list) option" where
  "mrCacheGetL a n clk [] = None"
| "mrCacheGetL a n clk (e # es) =
     (if eaddr e = a \<and> elen e = n then Some (ehandle e, e\<lparr>eseq := Suc clk\<rparr> # es)
      else map_option (\<lambda>(h, es'). (h, e # es')) (mrCacheGetL a n clk es))"

definition mrCacheGet :: "addr \<Rightarrow> nat \<Rightarrow> vcclComm \<Rightarrow> (addr \<times> vcclComm) option" where
  "mrCacheGet a n c =
     map_option (\<lambda>(h, es). (h, c\<lparr>mrCache := es, mrClock := Suc (mrClock c)\<rparr>))
       (mrCacheGetL a n (mrClock c) (mrCache c))"

text \<open>The victim is the first entry with the smallest stamp.\<close>

definition mrVictim :: "MrCacheEntry list \<Rightarrow> nat" where
  "mrVictim es = fold (\<lambda>i v. if eseq (es ! i) < eseq (es ! v) then i else v) [1..<length es] 0"

definition mrEvict :: "vcclComm \<Rightarrow> vcclComm" where
  "mrEvict c =
     (let v = mrVictim (mrCache c);
          c1 = (if ehandle (mrCache c ! v) \<noteq> 0 then commDereg (ehandle (mrCache c ! v)) c else c)
      in c1\<lparr>mrCache := take v (mrCache c) @ drop (Suc v) (mrCache c)\<rparr>)"

definition mrCachePut :: "getenv \<Rightarrow> addr \<Rightarrow> nat \<Rightarrow> addr \<Rightarrow> vcclComm \<Rightarrow> vcclComm" where
  "mrCachePut env a n h c =
     (let cap = mrCacheCap env in
      if cap \<le> 0 \<or> h = 0 then c
      else let c1 = (if int (length (mrCache c)) \<ge> cap then mrEvict c else c)
           in c1\<lparr>mrCache := mrCache c1 @ [\<lparr>eaddr = a, elen = n, ehandle = h, eseq = Suc (mrClock c1)\<rparr>],
                 mrClock := Suc (mrClock c1)\<rparr>)"

definition flushMrCache :: "vcclComm \<Rightarrow> vcclComm" where
  "flushMrCache c =
     (fold (\<lambda>e c. if ehandle e \<noteq> 0 then commDereg (ehandle e) c else c) (mrCache c) c)\<lparr>mrCache := []\<rparr>"

subsection \<open>Custom operators and errors\<close>

definition premulScalar :: "vcclComm \<Rightarrow> vcclRedOp_t \<Rightarrow> (64 word) option" where
  "premulScalar c op =
     (let idx = nat (op - vcclNumOps) in
      if op < vcclNumOps \<or> idx \<ge> length (customOps c) \<or> \<not> opActive (customOps c ! idx) then None
      else Some (opScalar (customOps c ! idx)))"

definition isFatal :: "vcclResult_t \<Rightarrow> bool" where
  "isFatal res \<longleftrightarrow> res = vcclSystemError \<or> res = vcclRemoteError \<or> res = vcclInternalError \<or>
     res = vcclUnhandledError"

text \<open>\<open>msg\<close> is the failing thread's last-error text.\<close>

definition noteError :: "string \<Rightarrow> vcclResult_t \<Rightarrow> vcclComm \<Rightarrow> vcclComm" where
  "noteError msg res c =
     (if res = vcclSuccess then c
      else let c1 = (if asyncError c = vcclSuccess then c\<lparr>asyncError := res\<rparr> else c);
               c2 = (if isFatal res then c1\<lparr>aborted := True\<rparr> else c1)
           in if msg \<noteq> [] then c2\<lparr>lastError := msg\<rparr> else c2)"

subsection \<open>Scoped registrations\<close>

definition scopedAdd :: "getenv \<Rightarrow> addr \<Rightarrow> nat \<Rightarrow> vcclComm \<Rightarrow> vcclResult_t \<times> vcclComm" where
  "scopedAdd env ptr bytes c =
     (case transport c of
        None \<Rightarrow> (vcclSuccess, c)
      | Some t \<Rightarrow>
          if ptr = 0 \<or> bytes = 0 then (vcclSuccess, c)
          else if covers t ptr bytes then (vcclSuccess, c)
          else if mrCacheCap env > 0 then
            (case mrCacheGet ptr bytes c of
               Some (cached, c') \<Rightarrow> (vcclSuccess, c')
             | None \<Rightarrow>
                 (case commReg ptr bytes c of (res, handle, c1) \<Rightarrow>
                    if res \<noteq> vcclSuccess then (res, c1)
                    else (vcclSuccess, mrCachePut env ptr bytes handle c1)))
          else
            (case commReg ptr bytes c of (res, handle, c1) \<Rightarrow>
               (res, if res = vcclSuccess \<and> handle \<noteq> 0
                     then c1\<lparr>scopedRegs := scopedRegs c1 @ [handle]\<rparr> else c1)))"

text \<open>The constructor starts with no handles, the destructor deregisters them all.\<close>

definition scopedCtor :: "vcclComm \<Rightarrow> vcclComm" where
  "scopedCtor c = c\<lparr>scopedRegs := []\<rparr>"

definition scopedDtor :: "vcclComm \<Rightarrow> vcclComm" where
  "scopedDtor c = (fold commDereg (scopedRegs c) c)\<lparr>scopedRegs := []\<rparr>"

end
