(* ===== verification/Vccl_Reduce.thy ===== *)
theory Vccl_Reduce
  imports Vccl_Types
begin

text \<open>
  The CPU reduction kernels of \<^verbatim>\<open>src/core/reduce.cc\<close>: the half and bfloat16 codecs, the scalar
  loops, the AVX2 / F16C kernels and the four dispatchers \<open>cpuReduce\<close>, \<open>cpuScaledAccumulate\<close>,
  \<open>cpuScaleCopy\<close> and \<open>cpuScale\<close>.

  Elements are machine words stored in memory in little-endian byte order. Integer elements use
  word arithmetic (signed overflow wraps, as the compiled code does). Floating-point arithmetic
  belongs to the processor: the record \<open>fpu\<close> holds the operations the code uses on the bit
  patterns of \<open>float\<close> and \<open>double\<close>, the F16C conversions and the CPUID answers. Every statement
  below holds for any such record unless a hypothesis restricts it.

  The theory \<open>Vccl_Reduce_Spec\<close> specifies each loop over memory as one write of the element-wise
  result, which gives the functional behaviour and the frame at once.
\<close>

unbundle bit_operations_syntax

record fpu =
  f_add :: "32 word \<Rightarrow> 32 word \<Rightarrow> 32 word"
  f_mul :: "32 word \<Rightarrow> 32 word \<Rightarrow> 32 word"
  f_gt :: "32 word \<Rightarrow> 32 word \<Rightarrow> bool"
  f_lt :: "32 word \<Rightarrow> 32 word \<Rightarrow> bool"
  d_add :: "64 word \<Rightarrow> 64 word \<Rightarrow> 64 word"
  d_mul :: "64 word \<Rightarrow> 64 word \<Rightarrow> 64 word"
  d_gt :: "64 word \<Rightarrow> 64 word \<Rightarrow> bool"
  d_lt :: "64 word \<Rightarrow> 64 word \<Rightarrow> bool"
  d_recip :: "nat \<Rightarrow> 64 word"            \<comment> \<open>the double \<open>1.0 / n\<close>\<close>
  d2f :: "64 word \<Rightarrow> 32 word"            \<comment> \<open>conversion double to float\<close>
  cvtph_ps :: "16 word \<Rightarrow> 32 word"       \<comment> \<open>F16C lane conversions\<close>
  cvtps_ph :: "32 word \<Rightarrow> 16 word"
  hasAvx2 :: bool
  hasF16C :: bool
  vcclX86 :: bool                        \<comment> \<open>the compile-time switch \<^verbatim>\<open>VCCL_X86\<close>\<close>

subsection \<open>Half and bfloat16 codecs\<close>

text \<open>The normalisation loop of a subnormal half. Ten rounds are enough for a non-zero 10-bit
  mantissa (\<open>Vccl_Float16.halfNormalize_top\<close>), so \<open>halfToFloat\<close> never runs out of fuel.\<close>

fun halfNormalize :: "nat \<Rightarrow> 32 word \<Rightarrow> nat \<Rightarrow> (32 word \<times> nat) option" where
  "halfNormalize fuel mant shift =
     (if mant AND 0x400 = 0
      then (case fuel of 0 \<Rightarrow> None | Suc fuel' \<Rightarrow> halfNormalize fuel' (push_bit 1 mant) (Suc shift))
      else Some (mant, shift))"

declare halfNormalize.simps [simp del]

definition halfToFloat :: "16 word \<Rightarrow> 32 word" where
  "halfToFloat h =
     (let sign = push_bit 16 (ucast (h AND 0x8000)) :: 32 word;
          ex = ucast (drop_bit 10 h AND 0x1f) :: 32 word;
          mant = ucast (h AND 0x3ff) :: 32 word
      in if ex = 0 then
           (if mant = 0 then sign
            else (case halfNormalize 10 mant 0 of
                    None \<Rightarrow> 0
                  | Some (mant', shift) \<Rightarrow>
                      sign OR push_bit 23 (127 - 15 - of_nat shift + 1)
                           OR push_bit 13 (mant' AND 0x3ff)))
         else if ex = 0x1f then sign OR 0x7f800000 OR push_bit 13 mant
         else sign OR push_bit 23 (ex - 15 + 127) OR push_bit 13 mant)"

definition floatToHalf :: "32 word \<Rightarrow> 16 word" where
  "floatToHalf bits =
     (let sign = ucast (drop_bit 16 bits AND 0x8000) :: 16 word;
          ex = uint (drop_bit 23 bits AND 0xff) - 127 + 15;
          mant = bits AND 0x7fffff
      in if drop_bit 23 bits AND 0xff = 0xff then
           sign OR 0x7c00 OR (if mant \<noteq> 0 then 0x200 else 0)
         else if ex \<ge> 0x1f then sign OR 0x7c00
         else if ex \<le> 0 then
           (if ex < -10 then sign
            else let mant' = mant OR 0x800000;
                     shift = nat (14 - ex);
                     half = drop_bit shift mant';
                     rem = mant' AND (push_bit shift 1 - 1);
                     halfway = push_bit (shift - 1) 1;
                     half' = (if rem > halfway \<or> (rem = halfway \<and> half AND 1 \<noteq> 0)
                              then half + 1 else half)
                 in sign OR ucast half')
         else let half = sign OR push_bit 10 (of_int ex) OR ucast (drop_bit 13 mant);
                  rem = mant AND 0x1fff
              in if rem > 0x1000 \<or> (rem = 0x1000 \<and> half AND 1 \<noteq> 0) then half + 1 else half)"

definition bf16ToFloat :: "16 word \<Rightarrow> 32 word" where
  "bf16ToFloat b = push_bit 16 (ucast b)"

definition floatToBf16 :: "32 word \<Rightarrow> 16 word" where
  "floatToBf16 bits =
     (if bits AND 0x7fffffff > 0x7f800000
      then ucast (drop_bit 16 bits OR 0x40)
      else let rounding = 0x7fff + (drop_bit 16 bits AND 1)
           in ucast (drop_bit 16 (bits + rounding)))"

subsection \<open>Typed loads and stores\<close>

definition bytes_of :: "'a::len word \<Rightarrow> byte list" where
  "bytes_of w = map (\<lambda>i. ucast (drop_bit (8 * i) w)) [0..<LENGTH('a) div 8]"

definition word_of_bytes :: "byte list \<Rightarrow> 'a::len word" where
  "word_of_bytes bs = foldr (\<lambda>b w. ucast b OR push_bit 8 w) bs 0"

definition ldw :: "mem \<Rightarrow> addr \<Rightarrow> nat \<Rightarrow> 'a::len word" where
  "ldw m p i = word_of_bytes (rd m (p + i * (LENGTH('a) div 8)) (LENGTH('a) div 8))"

definition stw :: "mem \<Rightarrow> addr \<Rightarrow> nat \<Rightarrow> 'a::len word \<Rightarrow> mem" where
  "stw m p i w = wr m (p + i * (LENGTH('a) div 8)) (bytes_of w)"

subsection \<open>Scalar kernels\<close>

definition applyOp ::
  "('a \<Rightarrow> 'a \<Rightarrow> 'a) \<Rightarrow> ('a \<Rightarrow> 'a \<Rightarrow> 'a) \<Rightarrow> ('a \<Rightarrow> 'a \<Rightarrow> bool) \<Rightarrow> ('a \<Rightarrow> 'a \<Rightarrow> bool)
    \<Rightarrow> vcclRedOp_t \<Rightarrow> 'a \<Rightarrow> 'a \<Rightarrow> 'a" where
  "applyOp add mul gt lt op a b =
     (if op = vcclProd then mul a b
      else if op = vcclMax then (if gt a b then a else b)
      else if op = vcclMin then (if lt a b then a else b)
      else add a b)"

definition applyOpU :: "vcclRedOp_t \<Rightarrow> 'a::len word \<Rightarrow> 'a word \<Rightarrow> 'a word" where
  "applyOpU = applyOp (+) (*) (\<lambda>a b. a > b) (\<lambda>a b. a < b)"

definition applyOpS :: "vcclRedOp_t \<Rightarrow> 'a::len word \<Rightarrow> 'a word \<Rightarrow> 'a word" where
  "applyOpS = applyOp (+) (*) (\<lambda>a b. sint a > sint b) (\<lambda>a b. sint a < sint b)"

definition applyOpF :: "fpu \<Rightarrow> vcclRedOp_t \<Rightarrow> 32 word \<Rightarrow> 32 word \<Rightarrow> 32 word" where
  "applyOpF fp = applyOp (f_add fp) (f_mul fp) (f_gt fp) (f_lt fp)"

definition applyOpD :: "fpu \<Rightarrow> vcclRedOp_t \<Rightarrow> 64 word \<Rightarrow> 64 word \<Rightarrow> 64 word" where
  "applyOpD fp = applyOp (d_add fp) (d_mul fp) (d_gt fp) (d_lt fp)"

definition reduceNative ::
  "('a::len word \<Rightarrow> 'a word \<Rightarrow> 'a word) \<Rightarrow> addr \<Rightarrow> addr \<Rightarrow> nat \<Rightarrow> mem \<Rightarrow> mem" where
  "reduceNative f dst src count m =
     fold (\<lambda>i m. stw m dst i (f (ldw m dst i) (ldw m src i))) [0..<count] m"

definition reduce16 ::
  "fpu \<Rightarrow> (16 word \<Rightarrow> 32 word) \<Rightarrow> (32 word \<Rightarrow> 16 word) \<Rightarrow> vcclRedOp_t
    \<Rightarrow> addr \<Rightarrow> addr \<Rightarrow> nat \<Rightarrow> mem \<Rightarrow> mem" where
  "reduce16 fp toF fromF op =
     reduceNative (\<lambda>a b. fromF (applyOpF fp op (toF a) (toF b)))"

subsection \<open>SIMD kernels\<close>

text \<open>One 8-lane step loads eight elements of each operand before it stores eight results; the
  vector loop advances by eight while a full vector is left and the scalar loop does the tail.\<close>

definition simd8 ::
  "('a::len word \<Rightarrow> 'a word \<Rightarrow> 'a word) \<Rightarrow> addr \<Rightarrow> addr \<Rightarrow> nat \<Rightarrow> mem \<Rightarrow> mem" where
  "simd8 lane d s i m =
     wr m (d + i * (LENGTH('a) div 8))
       (concat (map (\<lambda>l. bytes_of (lane (ldw m d (i + l)) (ldw m s (i + l)))) [0..<8]))"

function vecLoop :: "nat \<Rightarrow> nat \<Rightarrow> (nat \<Rightarrow> mem \<Rightarrow> mem) \<Rightarrow> mem \<Rightarrow> nat \<times> mem" where
  "vecLoop i n body m = (if i + 8 \<le> n then vecLoop (i + 8) n body (body i m) else (i, m))"
  by pat_completeness auto
termination
  by (relation "measure (\<lambda>(i, n, body, m). n - i)") auto

declare vecLoop.simps [simp del]

definition simdKernel ::
  "('a::len word \<Rightarrow> 'a word \<Rightarrow> 'a word) \<Rightarrow> ('a word \<Rightarrow> 'a word \<Rightarrow> 'a word)
    \<Rightarrow> addr \<Rightarrow> addr \<Rightarrow> nat \<Rightarrow> mem \<Rightarrow> mem" where
  "simdKernel lane scalar d s n m =
     (case vecLoop 0 n (simd8 lane d s) m of
        (i, m') \<Rightarrow> fold (\<lambda>i m. stw m d i (scalar (ldw m d i) (ldw m s i))) [i..<n] m')"

definition f32Sum :: "fpu \<Rightarrow> addr \<Rightarrow> addr \<Rightarrow> nat \<Rightarrow> mem \<Rightarrow> mem" where
  "f32Sum fp = simdKernel (f_add fp) (f_add fp)"

definition f32Mul :: "fpu \<Rightarrow> addr \<Rightarrow> addr \<Rightarrow> nat \<Rightarrow> mem \<Rightarrow> mem" where
  "f32Mul fp = simdKernel (f_mul fp) (f_mul fp)"

text \<open>\<open>vmaxps\<close> and \<open>vminps\<close> return the second operand unless the comparison of the first with
  the second holds, so a lane is the same conditional as the scalar tail.\<close>

definition f32Max :: "fpu \<Rightarrow> addr \<Rightarrow> addr \<Rightarrow> nat \<Rightarrow> mem \<Rightarrow> mem" where
  "f32Max fp = simdKernel (\<lambda>a b. if f_gt fp a b then a else b) (\<lambda>a b. if f_gt fp a b then a else b)"

definition f32Min :: "fpu \<Rightarrow> addr \<Rightarrow> addr \<Rightarrow> nat \<Rightarrow> mem \<Rightarrow> mem" where
  "f32Min fp = simdKernel (\<lambda>a b. if f_lt fp a b then a else b) (\<lambda>a b. if f_lt fp a b then a else b)"

definition f32SimdReduce :: "fpu \<Rightarrow> vcclRedOp_t \<Rightarrow> addr \<Rightarrow> addr \<Rightarrow> nat \<Rightarrow> mem \<Rightarrow> mem option" where
  "f32SimdReduce fp op d s n m =
     (if op = vcclProd then Some (f32Mul fp d s n m)
      else if op = vcclMax then Some (f32Max fp d s n m)
      else if op = vcclMin then Some (f32Min fp d s n m)
      else if op = vcclSum \<or> op = vcclAvg then Some (f32Sum fp d s n m)
      else None)"

definition f16Sum :: "fpu \<Rightarrow> addr \<Rightarrow> addr \<Rightarrow> nat \<Rightarrow> mem \<Rightarrow> mem" where
  "f16Sum fp = simdKernel (\<lambda>a b. cvtps_ph fp (f_add fp (cvtph_ps fp a) (cvtph_ps fp b)))
                          (\<lambda>a b. floatToHalf (f_add fp (halfToFloat a) (halfToFloat b)))"

definition bf16Lane :: "fpu \<Rightarrow> 16 word \<Rightarrow> 16 word \<Rightarrow> 16 word" where
  "bf16Lane fp a b =
     (let db = push_bit 16 (ucast a) :: 32 word;
          sb = push_bit 16 (ucast b) :: 32 word;
          bits = f_add fp db sb;
          lsb = drop_bit 16 bits AND 1;
          rounded = bits + (0x7fff + lsb);
          hi = drop_bit 16 rounded
      in ucast hi)"

definition bf16Sum :: "fpu \<Rightarrow> addr \<Rightarrow> addr \<Rightarrow> nat \<Rightarrow> mem \<Rightarrow> mem" where
  "bf16Sum fp = simdKernel (bf16Lane fp)
                           (\<lambda>a b. floatToBf16 (f_add fp (bf16ToFloat a) (bf16ToFloat b)))"

subsection \<open>Dispatchers\<close>

definition cpuReduce ::
  "fpu \<Rightarrow> vcclDataType_t \<Rightarrow> vcclRedOp_t \<Rightarrow> addr \<Rightarrow> addr \<Rightarrow> nat \<Rightarrow> mem \<Rightarrow> vcclResult_t \<times> mem" where
  "cpuReduce fp dt op dst src count m =
     (if op < 0 \<or> op \<ge> vcclNumOps then (vcclInvalidArgument, m)
      else case dt of
        vcclInt8 \<Rightarrow> (vcclSuccess, reduceNative (applyOpS op :: 8 word \<Rightarrow> _) dst src count m)
      | vcclUint8 \<Rightarrow> (vcclSuccess, reduceNative (applyOpU op :: 8 word \<Rightarrow> _) dst src count m)
      | vcclInt32 \<Rightarrow> (vcclSuccess, reduceNative (applyOpS op :: 32 word \<Rightarrow> _) dst src count m)
      | vcclUint32 \<Rightarrow> (vcclSuccess, reduceNative (applyOpU op :: 32 word \<Rightarrow> _) dst src count m)
      | vcclInt64 \<Rightarrow> (vcclSuccess, reduceNative (applyOpS op :: 64 word \<Rightarrow> _) dst src count m)
      | vcclUint64 \<Rightarrow> (vcclSuccess, reduceNative (applyOpU op :: 64 word \<Rightarrow> _) dst src count m)
      | vcclFloat32 \<Rightarrow>
          (case (if vcclX86 fp \<and> hasAvx2 fp then f32SimdReduce fp op dst src count m else None) of
             Some m' \<Rightarrow> (vcclSuccess, m')
           | None \<Rightarrow> (vcclSuccess, reduceNative (applyOpF fp op) dst src count m))
      | vcclFloat64 \<Rightarrow> (vcclSuccess, reduceNative (applyOpD fp op) dst src count m)
      | vcclFloat16 \<Rightarrow>
          (if vcclX86 fp \<and> op = vcclSum \<and> hasAvx2 fp \<and> hasF16C fp
           then (vcclSuccess, f16Sum fp dst src count m)
           else (vcclSuccess, reduce16 fp halfToFloat floatToHalf op dst src count m))
      | vcclBfloat16 \<Rightarrow>
          (if vcclX86 fp \<and> op = vcclSum \<and> hasAvx2 fp
           then (vcclSuccess, bf16Sum fp dst src count m)
           else (vcclSuccess, reduce16 fp bf16ToFloat floatToBf16 op dst src count m))
      | vcclNumTypes \<Rightarrow> (vcclInvalidArgument, m))"

text \<open>\<open>scaleLoop\<close> is the loop \<open>d[i] = g(s[i])\<close>; with \<open>d = s\<close> it is the in-place scaling.\<close>

definition scaleLoop :: "('a::len word \<Rightarrow> 'a word) \<Rightarrow> addr \<Rightarrow> addr \<Rightarrow> nat \<Rightarrow> mem \<Rightarrow> mem" where
  "scaleLoop g d s count m = fold (\<lambda>i m. stw m d i (g (ldw m s i))) [0..<count] m"

definition cpuScaledAccumulate ::
  "fpu \<Rightarrow> vcclDataType_t \<Rightarrow> addr \<Rightarrow> addr \<Rightarrow> nat \<Rightarrow> 64 word \<Rightarrow> mem \<Rightarrow> vcclResult_t \<times> mem" where
  "cpuScaledAccumulate fp dt dst src count preScale m =
     (let k = d2f fp preScale in
      case dt of
        vcclFloat32 \<Rightarrow>
          (vcclSuccess, reduceNative (\<lambda>d s. f_add fp d (f_mul fp k s)) dst src count m)
      | vcclFloat64 \<Rightarrow>
          (vcclSuccess, reduceNative (\<lambda>d s. d_add fp d (d_mul fp preScale s)) dst src count m)
      | vcclFloat16 \<Rightarrow>
          (vcclSuccess, reduceNative
             (\<lambda>d s. floatToHalf (f_add fp (halfToFloat d) (f_mul fp k (halfToFloat s)))) dst src count m)
      | vcclBfloat16 \<Rightarrow>
          (vcclSuccess, reduceNative
             (\<lambda>d s. floatToBf16 (f_add fp (bf16ToFloat d) (f_mul fp k (bf16ToFloat s)))) dst src count m)
      | _ \<Rightarrow> (vcclInvalidArgument, m))"

definition cpuScaleCopy ::
  "fpu \<Rightarrow> vcclDataType_t \<Rightarrow> addr \<Rightarrow> addr \<Rightarrow> nat \<Rightarrow> 64 word \<Rightarrow> mem \<Rightarrow> vcclResult_t \<times> mem" where
  "cpuScaleCopy fp dt dst src count factor m =
     (let k = d2f fp factor in
      case dt of
        vcclFloat32 \<Rightarrow> (vcclSuccess, scaleLoop (\<lambda>s. f_mul fp k s) dst src count m)
      | vcclFloat64 \<Rightarrow> (vcclSuccess, scaleLoop (\<lambda>s. d_mul fp factor s) dst src count m)
      | vcclFloat16 \<Rightarrow>
          (vcclSuccess, scaleLoop (\<lambda>s. floatToHalf (f_mul fp k (halfToFloat s))) dst src count m)
      | vcclBfloat16 \<Rightarrow>
          (vcclSuccess, scaleLoop (\<lambda>s. floatToBf16 (f_mul fp k (bf16ToFloat s))) dst src count m)
      | _ \<Rightarrow> (vcclInvalidArgument, m))"

definition cpuScale ::
  "fpu \<Rightarrow> vcclDataType_t \<Rightarrow> addr \<Rightarrow> nat \<Rightarrow> 64 word \<Rightarrow> mem \<Rightarrow> vcclResult_t \<times> mem" where
  "cpuScale fp dt dst count factor m =
     (let k = d2f fp factor in
      case dt of
        vcclFloat32 \<Rightarrow> (vcclSuccess, scaleLoop (\<lambda>p. f_mul fp p k) dst dst count m)
      | vcclFloat64 \<Rightarrow> (vcclSuccess, scaleLoop (\<lambda>p. d_mul fp p factor) dst dst count m)
      | vcclFloat16 \<Rightarrow>
          (vcclSuccess, scaleLoop (\<lambda>p. floatToHalf (f_mul fp (halfToFloat p) k)) dst dst count m)
      | vcclBfloat16 \<Rightarrow>
          (vcclSuccess, scaleLoop (\<lambda>p. floatToBf16 (f_mul fp (bf16ToFloat p) k)) dst dst count m)
      | _ \<Rightarrow> (vcclInvalidArgument, m))"

end
