(* ===== verification/Vccl_Proc.thy ===== *)
theory Vccl_Proc
  imports Vccl_Comm Vccl_Reduce
begin

text \<open>
  The program of one rank. A command takes the rank's context and yields a \<open>proc\<close>: it has returned a
  result code, its behaviour is undefined, or it is blocked in a transport call that waits for a set
  of transfers. The context holds the rank's memory, its communicator, the process environment, the
  floating-point unit, the thread's last-error text, the allocator of the scratch vector and the
  receives that \<open>postRecvs\<close> has announced and no call has consumed yet.

  The blocking calls \<open>send\<close>, \<open>recv\<close>, \<open>sendRecv\<close>, \<open>batch\<close> and \<open>postRecvs\<close> are modelled by the contract
  that \<^verbatim>\<open>src/transport/transport.h\<close> states for both transports:
  \<^item> a call returns when all its transfers have; zero-byte transfers are done at once;
  \<^item> several same-direction transfers with one peer complete in issue order;
  \<^item> a receive for which the peer has announced receives consumes the oldest of them, which must name
    the same buffer and size;
  \<^item> an announced buffer belongs to the network until it is consumed. Touching it before, and a
    transfer whose receive buffer overlaps another buffer of the same call, is a data race: \<open>Undef\<close>.
    The one exception is a send to the very peer the buffer is announced for: the eliminated ranks of
    \<^verbatim>\<open>pow2ElimAllReduce\<close> send from such a buffer, and their peer answers only after it has received.
    Undefined as well is \<^verbatim>\<open>memcpy\<close> on overlapping ranges, a transport call on a communicator without a
    transport, and a peer that is not another rank.

  The verbs transport (\<^verbatim>\<open>src/transport/verbs.cc\<close>) falls short of this contract in two calls, and the model follows it:
  \<^item> a \<open>sendRecv\<close> between two different peers drops the completions of receives that are announced for the peer it
    sends to: the receive that waits for one of them ends by the watchdog only. The model takes the loss to happen
    and puts the wait at once (\<open>lostWait\<close>);
  \<^item> a batch is posted in waves, cut at the first operation that does not fit into the queue of its peer and
    direction; the next wave starts when all of the wave before is done.

  Two limits of verbs are not in this model, which describes a transport that is not near them: its receive
  queues hold 128 work requests per peer, which bounds the receives that can be announced at once, and a call that
  ends releases the temporary registrations and staging copies of all announced receives, so buffers are
  taken to be registered and not staged.

  \<open>vseq\<close> is a sequence of statements under the macro \<open>VCCLCHECK\<close>: the first result that is not
  \<open>vcclSuccess\<close> is returned at once.
\<close>

record RecvReq =
  rqPeer :: nat
  rqBuf :: addr
  rqBytes :: nat

record P2pOp =
  isSend :: bool
  peer :: nat
  buf :: addr
  bytes :: nat

record ctx =
  mem :: mem
  comm :: vcclComm
  env :: getenv
  fp :: fpu
  alloc :: "nat \<Rightarrow> addr"
  errText :: string
  posted :: "RecvReq list"

datatype slot =
  SSend nat "byte list" bool
| SRecv nat addr nat "byte list option"

datatype proc =
  Ret vcclResult_t ctx
| Undef
| Xfer "slot list" ctx "vcclResult_t \<Rightarrow> ctx \<Rightarrow> proc"

type_synonym cmd = "ctx \<Rightarrow> proc"

subsection \<open>Control\<close>

primrec bindp :: "proc \<Rightarrow> (vcclResult_t \<Rightarrow> ctx \<Rightarrow> proc) \<Rightarrow> proc" where
  "bindp (Ret r c) f = f r c"
| "bindp Undef f = Undef"
| "bindp (Xfer ss c k) f = Xfer ss c (\<lambda>r c'. bindp (k r c') f)"

definition check :: "cmd \<Rightarrow> cmd \<Rightarrow> cmd" where
  "check p q c = bindp (p c) (\<lambda>r c'. if r = vcclSuccess then q c' else Ret r c')"

definition ok :: cmd where
  "ok c = Ret vcclSuccess c"

definition fail :: "vcclResult_t \<Rightarrow> cmd" where
  "fail r c = Ret r c"

definition vseq :: "cmd list \<Rightarrow> cmd" where
  "vseq ps = foldr check ps ok"

definition cwhen :: "bool \<Rightarrow> cmd \<Rightarrow> cmd" where
  "cwhen b p = (if b then p else ok)"

text \<open>The loop \<open>for (s = 0; s < n; s++) body(s)\<close>.\<close>

definition loop :: "nat \<Rightarrow> (nat \<Rightarrow> cmd) \<Rightarrow> cmd" where
  "loop n body = vseq (map body [0..<n])"

text \<open>Powers of two below a bound: the values of \<open>for (mask = 1; mask < n; mask <<= 1)\<close>.\<close>

function masksFrom :: "nat \<Rightarrow> nat \<Rightarrow> nat list" where
  "masksFrom m n = (if 0 < m \<and> m < n then m # masksFrom (2 * m) n else [])"
  by pat_completeness auto
termination
  by (relation "measure (\<lambda>(m, n). n - m)") auto

declare masksFrom.simps [simp del]

definition masks :: "nat \<Rightarrow> nat list" where
  "masks n = masksFrom 1 n"

subsection \<open>Local actions\<close>

definition busy :: "ctx \<Rightarrow> addr \<Rightarrow> nat \<Rightarrow> bool" where
  "busy c p n = list_ex (\<lambda>q. \<not> disj (rqBuf q) (rqBytes q) p n) (posted c)"

definition memcpy :: "addr \<Rightarrow> addr \<Rightarrow> nat \<Rightarrow> cmd" where
  "memcpy dst src n c =
     (if disj dst n src n \<and> \<not> busy c dst n \<and> \<not> busy c src n
      then Ret vcclSuccess (c\<lparr>mem := wr (mem c) dst (rd (mem c) src n)\<rparr>) else Undef)"

text \<open>A reduction kernel on the ranges \<open>[d, d + n)\<close> and \<open>[s, s + n)\<close>.\<close>

definition kernel :: "addr \<Rightarrow> addr \<Rightarrow> nat \<Rightarrow> (fpu \<Rightarrow> mem \<Rightarrow> vcclResult_t \<times> mem) \<Rightarrow> cmd" where
  "kernel d s n f c =
     (if busy c d n \<or> busy c s n then Undef
      else (case f (fp c) (mem c) of (r, m) \<Rightarrow> Ret r (c\<lparr>mem := m\<rparr>)))"

definition reduceC :: "vcclDataType_t \<Rightarrow> vcclRedOp_t \<Rightarrow> addr \<Rightarrow> addr \<Rightarrow> nat \<Rightarrow> cmd" where
  "reduceC dt op dst src count =
     kernel dst src (count * vcclTypeSize dt) (\<lambda>f. cpuReduce f dt op dst src count)"

definition scaledAccumulateC ::
  "vcclDataType_t \<Rightarrow> addr \<Rightarrow> addr \<Rightarrow> nat \<Rightarrow> 64 word \<Rightarrow> cmd" where
  "scaledAccumulateC dt dst src count k =
     kernel dst src (count * vcclTypeSize dt) (\<lambda>f. cpuScaledAccumulate f dt dst src count k)"

definition scaleCopyC :: "vcclDataType_t \<Rightarrow> addr \<Rightarrow> addr \<Rightarrow> nat \<Rightarrow> 64 word \<Rightarrow> cmd" where
  "scaleCopyC dt dst src count k =
     kernel dst src (count * vcclTypeSize dt) (\<lambda>f. cpuScaleCopy f dt dst src count k)"

definition scaleC :: "vcclDataType_t \<Rightarrow> addr \<Rightarrow> nat \<Rightarrow> (fpu \<Rightarrow> 64 word) \<Rightarrow> cmd" where
  "scaleC dt dst count k =
     kernel dst dst (count * vcclTypeSize dt) (\<lambda>f. cpuScale f dt dst count (k f))"

definition withScratch :: "nat \<Rightarrow> (addr \<Rightarrow> cmd) \<Rightarrow> cmd" where
  "withScratch n body c =
     (case scratchAt (alloc c) n (comm c) (mem c) of
        (p, cm, m) \<Rightarrow> body p (c\<lparr>comm := cm, mem := m\<rparr>))"

definition regAdd :: "addr \<Rightarrow> nat \<Rightarrow> cmd" where
  "regAdd p n c = (case scopedAdd (env c) p n (comm c) of (r, cm) \<Rightarrow> Ret r (c\<lparr>comm := cm\<rparr>))"

text \<open>The lifetime of a \<open>ScopedReg\<close>: constructed before the body, destructed at every return.\<close>

definition scoped :: "cmd \<Rightarrow> cmd" where
  "scoped body c =
     bindp (body (c\<lparr>comm := scopedCtor (comm c)\<rparr>))
       (\<lambda>r c'. Ret r (c'\<lparr>comm := scopedDtor (comm c')\<rparr>))"

subsection \<open>Transport calls\<close>

fun slotDone :: "slot \<Rightarrow> bool" where
  "slotDone (SSend _ _ d) = d"
| "slotDone (SRecv _ _ _ x) = (x \<noteq> None)"

definition commit1 :: "slot \<Rightarrow> mem \<Rightarrow> mem" where
  "commit1 s m = (case s of SRecv _ a _ (Some d) \<Rightarrow> wr m a d | _ \<Rightarrow> m)"

definition commit :: "slot list \<Rightarrow> ctx \<Rightarrow> ctx" where
  "commit ss c = c\<lparr>mem := fold commit1 ss (mem c)\<rparr>"

text \<open>A blocked call whose transfers are all done stores what it received and returns.\<close>

definition advance :: "slot list \<Rightarrow> ctx \<Rightarrow> (vcclResult_t \<Rightarrow> ctx \<Rightarrow> proc) \<Rightarrow> proc" where
  "advance ss c k = (if list_all slotDone ss then k vcclSuccess (commit ss c) else Xfer ss c k)"

definition sendSlot :: "nat \<Rightarrow> byte list \<Rightarrow> slot" where
  "sendSlot p d = SSend p d (d = [])"

definition recvSlot :: "nat \<Rightarrow> addr \<Rightarrow> nat \<Rightarrow> slot" where
  "recvSlot p a n = SRecv p a n (if n = 0 then Some [] else None)"

text \<open>Consuming an announced receive: nothing announced for the peer leaves the list alone, a match
  removes the oldest, a mismatch is an error.\<close>

fun consume :: "nat \<Rightarrow> addr \<Rightarrow> nat \<Rightarrow> RecvReq list \<Rightarrow> RecvReq list option" where
  "consume p a n [] = Some []"
| "consume p a n (q # qs) =
     (if rqPeer q = p then (if rqBuf q = a \<and> rqBytes q = n then Some qs else None)
      else map_option (Cons q) (consume p a n qs))"

fun opsRaceFree :: "P2pOp list \<Rightarrow> bool" where
  "opsRaceFree [] = True"
| "opsRaceFree (o1 # os) =
     (list_all (\<lambda>o2. (isSend o1 \<and> isSend o2) \<or> disj (buf o1) (bytes o1) (buf o2) (bytes o2)) os \<and>
      opsRaceFree os)"

definition postOp :: "P2pOp \<Rightarrow> RecvReq list option \<Rightarrow> RecvReq list option" where
  "postOp o1 qs =
     (if isSend o1 \<or> bytes o1 = 0 then qs
      else (case qs of None \<Rightarrow> None | Some l \<Rightarrow> consume (peer o1) (buf o1) (bytes o1) l))"

definition opSlot :: "ctx \<Rightarrow> P2pOp \<Rightarrow> slot" where
  "opSlot c o1 = (if isSend o1 then sendSlot (peer o1) (rd (mem c) (buf o1) (bytes o1))
                  else recvSlot (peer o1) (buf o1) (bytes o1))"

definition peerOk :: "vcclComm \<Rightarrow> nat \<Rightarrow> bool" where
  "peerOk cm p \<longleftrightarrow> p < nranks cm \<and> p \<noteq> rank cm"

definition opBusy :: "ctx \<Rightarrow> P2pOp \<Rightarrow> bool" where
  "opBusy c o1 =
     list_ex (\<lambda>q. \<not> (isSend o1 \<and> rqPeer q = peer o1) \<and> \<not> disj (rqBuf q) (rqBytes q) (buf o1) (bytes o1))
       (posted c)"

text \<open>All the calls are instances of one: post the transfers and wait for them.\<close>

definition transfers :: "P2pOp list \<Rightarrow> cmd" where
  "transfers ops c =
     (case fold postOp ops (Some (posted c)) of
        None \<Rightarrow> Undef
      | Some qs \<Rightarrow>
          let c' = c\<lparr>posted := qs\<rparr> in
          if transport (comm c) \<noteq> None \<and> opsRaceFree ops \<and>
             list_all (\<lambda>o1. peerOk (comm c) (peer o1) \<and> \<not> opBusy c' o1) ops
          then advance (map (opSlot c) ops) c' Ret else Undef)"

definition tsend :: "nat \<Rightarrow> addr \<Rightarrow> nat \<Rightarrow> cmd" where
  "tsend p b n = transfers [\<lparr>isSend = True, peer = p, buf = b, bytes = n\<rparr>]"

definition trecv :: "nat \<Rightarrow> addr \<Rightarrow> nat \<Rightarrow> cmd" where
  "trecv p b n = transfers [\<lparr>isSend = False, peer = p, buf = b, bytes = n\<rparr>]"

definition verbsImpl :: "Transport \<Rightarrow> bool" where
  "verbsImpl t = (case impl t of TcpTransport \<Rightarrow> False | Verbs _ \<Rightarrow> True)"

definition isVerbs :: "vcclComm \<Rightarrow> bool" where
  "isVerbs cm = (case transport cm of None \<Rightarrow> False | Some t \<Rightarrow> verbsImpl t)"

text \<open>A wait that no message ends: nothing comes from the rank itself.\<close>

definition lostWait :: cmd where
  "lostWait c = Xfer [SRecv (rank (comm c)) 0 1 None] c Ret"

text \<open>The completion loop between two different peers polls the queue of the peer it sends to and counts sends only.\<close>

definition dropsCompletion :: "ctx \<Rightarrow> nat \<Rightarrow> nat \<Rightarrow> nat \<Rightarrow> bool" where
  "dropsCompletion c sp sbytes rp \<longleftrightarrow>
     isVerbs (comm c) \<and> sp \<noteq> rp \<and> sbytes > 0 \<and> list_ex (\<lambda>q. rqPeer q = sp) (posted c)"

definition sendRecv :: "nat \<Rightarrow> addr \<Rightarrow> nat \<Rightarrow> nat \<Rightarrow> addr \<Rightarrow> nat \<Rightarrow> cmd" where
  "sendRecv sp sbuf sbytes rp rbuf rbytes c =
     (if dropsCompletion c sp sbytes rp then lostWait c
      else transfers [\<lparr>isSend = True, peer = sp, buf = sbuf, bytes = sbytes\<rparr>,
                      \<lparr>isSend = False, peer = rp, buf = rbuf, bytes = rbytes\<rparr>] c)"

subsection \<open>Batches\<close>

type_synonym qkey = "nat \<times> bool"    \<comment> \<open>peer, and \<open>True\<close> for the send direction\<close>

definition opKey :: "P2pOp \<Rightarrow> qkey" where
  "opKey x = (peer x, isSend x)"

definition kMaxSegBytes :: nat where "kMaxSegBytes = 2 ^ 30"
definition kQueueDepth :: nat where "kQueueDepth = 128"

text \<open>The number of operations, from the front, that fit into the queues of the verbs transport together.\<close>

definition needed :: "P2pOp \<Rightarrow> nat" where
  "needed x = (bytes x + kMaxSegBytes - 1) div kMaxSegBytes"

fun waveFit :: "(qkey \<Rightarrow> nat) \<Rightarrow> P2pOp list \<Rightarrow> nat" where
  "waveFit c [] = 0"
| "waveFit c (x # xs) =
     (if bytes x = 0 then Suc (waveFit c xs)
      else if c (opKey x) + needed x > kQueueDepth then 0
      else Suc (waveFit (c(opKey x := c (opKey x) + needed x)) xs))"

definition waveEnd :: "P2pOp list \<Rightarrow> nat" where
  "waveEnd ops = (if waveFit (\<lambda>_. 0) ops = 0 then 1 else waveFit (\<lambda>_. 0) ops)"

function batchWaves :: "P2pOp list \<Rightarrow> cmd" where
  "batchWaves ops =
     (if ops = [] then ok
      else check (transfers (take (waveEnd ops) ops)) (batchWaves (drop (waveEnd ops) ops)))"
  by pat_completeness auto
termination
  by (relation "measure length") (auto simp: waveEnd_def)

declare batchWaves.simps [simp del]

definition batch :: "P2pOp list \<Rightarrow> cmd" where
  "batch ops c = (if isVerbs (comm c) then batchWaves ops c else transfers ops c)"

fun reqsDisjoint :: "RecvReq list \<Rightarrow> bool" where
  "reqsDisjoint [] = True"
| "reqsDisjoint (q # qs) =
     (list_all (\<lambda>q'. disj (rqBuf q) (rqBytes q) (rqBuf q') (rqBytes q')) qs \<and> reqsDisjoint qs)"

definition postRecvs :: "RecvReq list \<Rightarrow> cmd" where
  "postRecvs reqs c =
     (let qs = filter (\<lambda>q. rqBytes q \<noteq> 0) reqs in
      if transport (comm c) \<noteq> None \<and> reqsDisjoint qs \<and>
         list_all (\<lambda>q. peerOk (comm c) (rqPeer q) \<and> \<not> busy c (rqBuf q) (rqBytes q)) qs
      then Ret vcclSuccess (c\<lparr>posted := posted c @ qs\<rparr>) else Undef)"

end
