(* ===== verification/Vccl_Collectives.thy ===== *)
theory Vccl_Collectives
  imports Vccl_Proc
begin

text \<open>
  The collective algorithms of \<^verbatim>\<open>src/core/collectives.cc\<close>, one command per function. Index
  arithmetic is on natural numbers with the terms reordered so that no subtraction goes below zero
  (\<open>(r - s - 1 + 2 * n) % n\<close> is \<open>(r + 2 * n - s - 1) mod n\<close>); byte counts are natural numbers.
  The floating-point constant \<open>1.0 / n\<close> is \<open>d_recip\<close> of the floating-point unit.
\<close>

unbundle bit_operations_syntax

definition kPipeBytes :: nat where
  "kPipeBytes = 2 ^ 19"

record Chunk =
  coffset :: nat
  cbytes :: nat

definition makeChunks :: "nat \<Rightarrow> nat \<Rightarrow> nat \<Rightarrow> Chunk list" where
  "makeChunks cnt n esize =
     (let per = (cnt + n - 1) div n in
      map (\<lambda>i. let b = min (per * i) cnt; e = min (per * (i + 1)) cnt
               in \<lparr>coffset = b * esize, cbytes = (e - b) * esize\<rparr>) [0..<n])"

subsection \<open>Ring\<close>

definition ringReduceScatter :: "addr \<Rightarrow> Chunk list \<Rightarrow> vcclDataType_t \<Rightarrow> vcclRedOp_t \<Rightarrow> cmd" where
  "ringReduceScatter data chunks dt op c =
     (let n = nranks (comm c); r = rank (comm c);
          maxChunk = fold (\<lambda>ch m. max m (cbytes ch)) chunks 0
      in withScratch maxChunk (\<lambda>scratch.
           loop (n - 1) (\<lambda>s.
             let sc = chunks ! ((r + n - s) mod n);
                 rc = chunks ! ((r + 2 * n - s - 1) mod n)
             in vseq
                  [sendRecv (next_rank (comm c)) (data + coffset sc) (cbytes sc)
                            (prev_rank (comm c)) scratch (cbytes rc),
                   cwhen (cbytes rc > 0)
                     (reduceC dt op (data + coffset rc) scratch (cbytes rc div vcclTypeSize dt))])) c)"

definition ringAllGather :: "addr \<Rightarrow> Chunk list \<Rightarrow> nat \<Rightarrow> cmd" where
  "ringAllGather data chunks startShift c =
     (let n = nranks (comm c); r = rank (comm c);
          rcv = (\<lambda>s. chunks ! ((r + startShift + 2 * n - s - 1) mod n));
          snd' = (\<lambda>s. chunks ! ((r + startShift + 2 * n - s) mod n))
      in vseq
           [postRecvs (map (\<lambda>s. \<lparr>rqPeer = prev_rank (comm c), rqBuf = data + coffset (rcv s),
                                 rqBytes = cbytes (rcv s)\<rparr>) [0..<n - 1]),
            loop (n - 1) (\<lambda>s.
              sendRecv (next_rank (comm c)) (data + coffset (snd' s)) (cbytes (snd' s))
                       (prev_rank (comm c)) (data + coffset (rcv s)) (cbytes (rcv s)))] c)"

subsection \<open>Logarithmic all-gather\<close>

text \<open>\<open>(x >> i) << i\<close>: the start of the block of \<open>2 ^ i\<close> ranks that \<open>x\<close> lies in.\<close>

definition blockOf :: "nat \<Rightarrow> nat \<Rightarrow> nat" where
  "blockOf i x = push_bit i (drop_bit i x)"

text \<open>The loop \<open>for (mask = 1; mask < n; mask <<= 1, ++i)\<close> with its counter, as a list of pairs.\<close>

definition maskSteps :: "nat \<Rightarrow> (nat \<times> nat) list" where
  "maskSteps n = enumerate 0 (masks n)"

definition recursiveDoublingAllGather :: "addr \<Rightarrow> nat \<Rightarrow> cmd" where
  "recursiveDoublingAllGather data chunkBytes c =
     (let n = nranks (comm c); r = rank (comm c);
          recvOff = (\<lambda>i m. blockOf i (r XOR m) * chunkBytes)
      in vseq
           [postRecvs (map (\<lambda>(i, m). \<lparr>rqPeer = r XOR m, rqBuf = data + recvOff i m,
                                      rqBytes = chunkBytes * 2 ^ i\<rparr>) (maskSteps n)),
            vseq (map (\<lambda>(i, m).
              sendRecv (r XOR m) (data + blockOf i r * chunkBytes) (chunkBytes * 2 ^ i)
                       (r XOR m) (data + recvOff i m) (chunkBytes * 2 ^ i)) (maskSteps n))] c)"

text \<open>The recurrence of \<open>curr\<close> in Bruck's algorithm: step list of \<open>(pof2, curr, xfer)\<close>.\<close>

fun bruckSteps :: "nat \<Rightarrow> nat \<Rightarrow> nat \<Rightarrow> nat list \<Rightarrow> (nat \<times> nat \<times> nat) list" where
  "bruckSteps n chunkBytes cur [] = []"
| "bruckSteps n chunkBytes cur (pof2 # ps) =
     (let xfer = (if pof2 \<le> n - pof2 then cur else (n - pof2) * chunkBytes)
      in (pof2, cur, xfer) # bruckSteps n chunkBytes (cur + xfer) ps)"

definition bruckAllGather :: "addr \<Rightarrow> nat \<Rightarrow> cmd" where
  "bruckAllGather recv chunkBytes c =
     (let n = nranks (comm c); rnk = rank (comm c); steps = bruckSteps n chunkBytes chunkBytes (masks n)
      in vseq
           [cwhen (rnk \<noteq> 0) (memcpy recv (recv + rnk * chunkBytes) chunkBytes),
            postRecvs (map (\<lambda>(pof2, cur, xfer). \<lparr>rqPeer = (rnk + pof2) mod n, rqBuf = recv + cur,
                                                  rqBytes = xfer\<rparr>) steps),
            vseq (map (\<lambda>(pof2, cur, xfer).
              sendRecv ((rnk + n - pof2) mod n) recv xfer ((rnk + pof2) mod n) (recv + cur) xfer) steps),
            cwhen (rnk \<noteq> 0)
              (withScratch (n * chunkBytes) (\<lambda>tmp.
                 vseq
                   [loop n (\<lambda>i. memcpy (tmp + ((rnk + i) mod n) * chunkBytes) (recv + i * chunkBytes)
                                        chunkBytes),
                    memcpy recv tmp (n * chunkBytes)]))] c)"

text \<open>The algorithm switch shared by the two collectives that have one: force variable, threshold
  variable and default threshold.\<close>

definition forceAlgo :: "getenv \<Rightarrow> string \<Rightarrow> string \<Rightarrow> bool" where
  "forceAlgo e var name = (e var = Some name)"

definition rdMaxOf :: "getenv \<Rightarrow> string \<Rightarrow> nat \<Rightarrow> nat" where
  "rdMaxOf e var deflt = (case e var of None \<Rightarrow> deflt | Some v \<Rightarrow> strtoull v)"

definition isPow2 :: "nat \<Rightarrow> bool" where
  "isPow2 n \<longleftrightarrow> n > 1 \<and> n AND (n - 1) = 0"

definition doAllGather :: "addr \<Rightarrow> addr \<Rightarrow> nat \<Rightarrow> vcclDataType_t \<Rightarrow> cmd" where
  "doAllGather sendbuff recvbuff sendcount datatype = scoped (\<lambda>c.
     let esize = vcclTypeSize datatype; chunkBytes = sendcount * esize;
         n = nranks (comm c); r = rank (comm c);
         forceRing = forceAlgo (env c) ''VCCL_ALLGATHER_ALGO'' ''ring'';
         forceRD = forceAlgo (env c) ''VCCL_ALLGATHER_ALGO'' ''recdouble'';
         rdMax = rdMaxOf (env c) ''VCCL_ALLGATHER_RD_MAX'' 65536
     in vseq
          [regAdd recvbuff (n * chunkBytes),
           cwhen (sendbuff \<noteq> recvbuff + r * chunkBytes)
             (memcpy (recvbuff + r * chunkBytes) sendbuff chunkBytes),
           (if n = 1 \<or> sendcount = 0 then ok
            else if \<not> forceRing \<and> (forceRD \<or> chunkBytes \<le> rdMax)
            then (if isPow2 n then recursiveDoublingAllGather recvbuff chunkBytes
                  else bruckAllGather recvbuff chunkBytes)
            else ringAllGather recvbuff
                   (map (\<lambda>i. \<lparr>coffset = i * chunkBytes, cbytes = chunkBytes\<rparr>) [0..<n]) 0)] c)"

subsection \<open>Reduce-scatter\<close>

text \<open>One hop of the travelling partial; the state carried between hops is the address the next hop
  sends from.\<close>

definition rsRecvPtr :: "addr \<Rightarrow> nat \<Rightarrow> nat \<Rightarrow> addr" where
  "rsRecvPtr scratch chunkBytes s = (if s mod 2 = 0 then scratch else scratch + chunkBytes)"

definition doReduceScatter ::
  "addr \<Rightarrow> addr \<Rightarrow> nat \<Rightarrow> vcclDataType_t \<Rightarrow> vcclRedOp_t \<Rightarrow> bool \<Rightarrow> 64 word \<Rightarrow> cmd" where
  "doReduceScatter send recvbuff recvcount dt op premul scalar = scoped (\<lambda>c.
     let chunkBytes = recvcount * vcclTypeSize dt; n = nranks (comm c); r = rank (comm c)
     in vseq
          [regAdd send (n * chunkBytes),
           (if n = 1 \<or> recvcount = 0 then
              vseq
                [cwhen (recvcount > 0 \<and> send \<noteq> recvbuff) (memcpy recvbuff send chunkBytes),
                 cwhen premul (scaleC dt recvbuff recvcount (\<lambda>_. scalar))]
            else withScratch ((if premul then 3 else 2) * chunkBytes) (\<lambda>scratch.
              let raw = send + ((r + n - 1) mod n) * chunkBytes;
                  scaled = scratch + 2 * chunkBytes;
                  sendPtr = (\<lambda>s. if s = 0 then (if premul then scaled else raw)
                                 else rsRecvPtr scratch chunkBytes (s - 1))
              in vseq
                   [cwhen premul (scaleCopyC dt scaled raw recvcount scalar),
                    loop (n - 1) (\<lambda>s.
                      let recvPtr = rsRecvPtr scratch chunkBytes s;
                          local = send + ((r + 2 * n - s - 2) mod n) * chunkBytes
                      in vseq
                           [sendRecv (next_rank (comm c)) (sendPtr s) chunkBytes
                                     (prev_rank (comm c)) recvPtr chunkBytes,
                            (if s = n - 2 then
                               vseq
                                 [(if premul then scaleCopyC dt recvbuff local recvcount scalar
                                   else cwhen (recvbuff \<noteq> local) (memcpy recvbuff local chunkBytes)),
                                  reduceC dt op recvbuff recvPtr recvcount]
                             else if premul then scaledAccumulateC dt recvPtr local recvcount scalar
                             else reduceC dt op recvPtr local recvcount)]),
                    cwhen (op = vcclAvg) (scaleC dt recvbuff recvcount (\<lambda>f. d_recip f n))]))] c)"

subsection \<open>Logarithmic all-reduce\<close>

definition recursiveDoublingAllReduce ::
  "addr \<Rightarrow> nat \<Rightarrow> vcclDataType_t \<Rightarrow> vcclRedOp_t \<Rightarrow> cmd" where
  "recursiveDoublingAllReduce recv cnt dt op c =
     (let n = nranks (comm c); r = rank (comm c); nbytes = cnt * vcclTypeSize dt;
          steps = length (masks n)
      in withScratch (steps * nbytes) (\<lambda>scratch.
           vseq
             [postRecvs (map (\<lambda>(i, m). \<lparr>rqPeer = r XOR m, rqBuf = scratch + i * nbytes,
                                        rqBytes = nbytes\<rparr>) (maskSteps n)),
              vseq (map (\<lambda>(i, m).
                let rgn = scratch + i * nbytes
                in vseq
                     [sendRecv (r XOR m) recv nbytes (r XOR m) rgn nbytes,
                      reduceC dt op recv rgn cnt]) (maskSteps n))]) c)"

function largestPow2 :: "nat \<Rightarrow> nat \<Rightarrow> nat" where
  "largestPow2 p n = (if 0 < p \<and> p * 2 \<le> n then largestPow2 (p * 2) n else p)"
  by pat_completeness auto
termination
  by (relation "measure (\<lambda>(p, n). n - p)") auto

declare largestPow2.simps [simp del]

definition elimNewRank :: "nat \<Rightarrow> nat \<Rightarrow> int" where
  "elimNewRank extra r =
     (if r < 2 * extra then (if odd r then -1 else int (r div 2)) else int (r - extra))"

definition elimPeer :: "nat \<Rightarrow> nat \<Rightarrow> nat" where
  "elimPeer extra newPeer = (if newPeer < extra then newPeer * 2 else newPeer + extra)"

definition pow2ElimAllReduce :: "addr \<Rightarrow> nat \<Rightarrow> vcclDataType_t \<Rightarrow> vcclRedOp_t \<Rightarrow> cmd" where
  "pow2ElimAllReduce recv cnt dt op c =
     (let n = nranks (comm c); r = rank (comm c); nbytes = cnt * vcclTypeSize dt;
          p2 = largestPow2 1 n; extra = n - p2;
          inPre = r < 2 * extra;
          evenSurvivor = inPre \<and> even r;
          oddEliminated = inPre \<and> odd r;
          newRank = elimNewRank extra r;
          coreSteps = length (masks p2)
      in withScratch ((1 + coreSteps) * nbytes) (\<lambda>scratch.
           let preRgn = scratch;
               corePeers = (if newRank \<ge> 0
                            then map (\<lambda>(i, m). (elimPeer extra (nat newRank XOR m),
                                                 scratch + (1 + i) * nbytes)) (maskSteps p2)
                            else [])
           in vseq
                [postRecvs
                   ((if evenSurvivor then [\<lparr>rqPeer = r + 1, rqBuf = preRgn, rqBytes = nbytes\<rparr>] else []) @
                    (if oddEliminated then [\<lparr>rqPeer = r - 1, rqBuf = recv, rqBytes = nbytes\<rparr>] else []) @
                    map (\<lambda>(p, a). \<lparr>rqPeer = p, rqBuf = a, rqBytes = nbytes\<rparr>) corePeers),
                 (if evenSurvivor then
                    vseq [trecv (r + 1) preRgn nbytes, reduceC dt op recv preRgn cnt]
                  else cwhen oddEliminated (tsend (r - 1) recv nbytes)),
                 vseq (map (\<lambda>(p, a).
                   vseq [sendRecv p recv nbytes p a nbytes, reduceC dt op recv a cnt]) corePeers),
                 (if evenSurvivor then tsend (r + 1) recv nbytes
                  else cwhen oddEliminated (trecv (r - 1) recv nbytes))]) c)"

definition doAllReduce ::
  "addr \<Rightarrow> addr \<Rightarrow> nat \<Rightarrow> vcclDataType_t \<Rightarrow> vcclRedOp_t \<Rightarrow> bool \<Rightarrow> 64 word \<Rightarrow> cmd" where
  "doAllReduce sendbuff recv cnt dt op premul scalar = scoped (\<lambda>c.
     let esize = vcclTypeSize dt; nbytes = cnt * esize; n = nranks (comm c); r = rank (comm c);
         forceRing = forceAlgo (env c) ''VCCL_ALLREDUCE_ALGO'' ''ring'';
         forceRD = forceAlgo (env c) ''VCCL_ALLREDUCE_ALGO'' ''recdouble'';
         rdMax = rdMaxOf (env c) ''VCCL_ALLREDUCE_RD_MAX'' 262144
     in vseq
          [regAdd recv nbytes,
           cwhen (sendbuff \<noteq> recv) (memcpy recv sendbuff nbytes),
           cwhen premul (scaleC dt recv cnt (\<lambda>_. scalar)),
           (if n = 1 \<or> cnt = 0 then ok
            else if \<not> forceRing \<and> (forceRD \<or> nbytes \<le> rdMax) then
              vseq
                [(if isPow2 n then recursiveDoublingAllReduce recv cnt dt op
                  else pow2ElimAllReduce recv cnt dt op),
                 cwhen (op = vcclAvg) (scaleC dt recv cnt (\<lambda>f. d_recip f n))]
            else
              let chunks = makeChunks cnt n esize; mine = chunks ! ((r + 1) mod n)
              in vseq
                   [ringReduceScatter recv chunks dt op,
                    cwhen (op = vcclAvg \<and> cbytes mine > 0)
                      (scaleC dt (recv + coffset mine) (cbytes mine div esize) (\<lambda>f. d_recip f n)),
                    ringAllGather recv chunks 1])] c)"

subsection \<open>Rooted collectives\<close>

text \<open>The loop \<open>for (off = 0; off < total; off += kPipeBytes)\<close> as the list of its offsets and piece
  sizes.\<close>

function pieces :: "nat \<Rightarrow> nat \<Rightarrow> (nat \<times> nat) list" where
  "pieces off tot =
     (if off < tot then (off, min kPipeBytes (tot - off)) # pieces (off + kPipeBytes) tot else [])"
  by pat_completeness auto
termination
  by (relation "measure (\<lambda>(off, tot). tot - off)") (auto simp: kPipeBytes_def)

declare pieces.simps [simp del]

definition reducePiece ::
  "addr \<Rightarrow> addr \<Rightarrow> vcclDataType_t \<Rightarrow> vcclRedOp_t \<Rightarrow> bool \<Rightarrow> 64 word \<Rightarrow> nat \<Rightarrow> addr \<Rightarrow> nat \<times> nat \<Rightarrow> cmd" where
  "reducePiece send recv dt op premul scalar root scratch = (\<lambda>(off, piece) c.
     let n = nranks (comm c); r = rank (comm c); pieceCount = piece div vcclTypeSize dt
     in (if r = (root + 1) mod n then
           vseq
             [cwhen premul (scaleCopyC dt scratch (send + off) pieceCount scalar),
              tsend (next_rank (comm c)) (if premul then scratch else send + off) piece]
         else if r = root then
           vseq
             [trecv (prev_rank (comm c)) scratch piece,
              (if premul then scaleCopyC dt (recv + off) (send + off) pieceCount scalar
               else cwhen (recv + off \<noteq> send + off) (memcpy (recv + off) (send + off) piece)),
              reduceC dt op (recv + off) scratch pieceCount,
              cwhen (op = vcclAvg) (scaleC dt (recv + off) pieceCount (\<lambda>f. d_recip f n))]
         else
           vseq
             [trecv (prev_rank (comm c)) scratch piece,
              (if premul then scaledAccumulateC dt scratch (send + off) pieceCount scalar
               else reduceC dt op scratch (send + off) pieceCount),
              tsend (next_rank (comm c)) scratch piece]) c)"

definition doReduce ::
  "addr \<Rightarrow> addr \<Rightarrow> nat \<Rightarrow> vcclDataType_t \<Rightarrow> vcclRedOp_t \<Rightarrow> bool \<Rightarrow> 64 word \<Rightarrow> nat \<Rightarrow> cmd" where
  "doReduce send recv cnt dt op premul scalar root c =
     (let nbytes = cnt * vcclTypeSize dt; n = nranks (comm c); r = rank (comm c);
          isHead = (r = (root + 1) mod n)
      in if n = 1 then
           vseq
             [cwhen (cnt > 0 \<and> send \<noteq> recv) (memcpy recv send nbytes),
              cwhen premul (scaleC dt recv cnt (\<lambda>_. scalar))] c
         else if cnt = 0 then ok c
         else withScratch kPipeBytes (\<lambda>scratch. scoped (
           vseq
             [cwhen (isHead \<and> \<not> premul) (regAdd send nbytes),
              vseq (map (reducePiece send recv dt op premul scalar root scratch) (pieces 0 nbytes))])) c)"

definition broadcastPiece :: "addr \<Rightarrow> nat \<Rightarrow> nat \<times> nat \<Rightarrow> cmd" where
  "broadcastPiece recv root = (\<lambda>(off, piece) c.
     (if rank (comm c) = root then tsend (next_rank (comm c)) (recv + off) piece
      else vseq
             [trecv (prev_rank (comm c)) (recv + off) piece,
              cwhen (next_rank (comm c) \<noteq> root) (tsend (next_rank (comm c)) (recv + off) piece)]) c)"

definition doBroadcast :: "addr \<Rightarrow> addr \<Rightarrow> nat \<Rightarrow> vcclDataType_t \<Rightarrow> nat \<Rightarrow> cmd" where
  "doBroadcast sendbuff recv cnt dt root c =
     (let nbytes = cnt * vcclTypeSize dt
      in vseq
           [cwhen (rank (comm c) = root \<and> sendbuff \<noteq> recv) (memcpy recv sendbuff nbytes),
            (if nranks (comm c) = 1 \<or> cnt = 0 then ok
             else scoped (vseq
               [regAdd recv nbytes,
                vseq (map (broadcastPiece recv root) (pieces 0 nbytes))]))] c)"

definition doGather :: "addr \<Rightarrow> addr \<Rightarrow> nat \<Rightarrow> vcclDataType_t \<Rightarrow> nat \<Rightarrow> cmd" where
  "doGather sendbuff recv sendcount dt root c =
     (let chunkBytes = sendcount * vcclTypeSize dt; n = nranks (comm c)
      in if n = 1 \<or> sendcount = 0 then
           cwhen (sendcount > 0 \<and> sendbuff \<noteq> recv) (memcpy recv sendbuff chunkBytes) c
         else scoped
           (if rank (comm c) \<noteq> root then
              vseq [regAdd sendbuff chunkBytes, tsend root sendbuff chunkBytes]
            else
              vseq
                [regAdd recv (n * chunkBytes),
                 cwhen (sendbuff \<noteq> recv + root * chunkBytes)
                   (memcpy (recv + root * chunkBytes) sendbuff chunkBytes),
                 loop (n - 1) (\<lambda>s. let p = (root + (s + 1)) mod n
                                   in trecv p (recv + p * chunkBytes) chunkBytes)]) c)"

definition doScatter :: "addr \<Rightarrow> addr \<Rightarrow> nat \<Rightarrow> vcclDataType_t \<Rightarrow> nat \<Rightarrow> cmd" where
  "doScatter send recvbuff recvcount dt root c =
     (let chunkBytes = recvcount * vcclTypeSize dt; n = nranks (comm c)
      in if n = 1 \<or> recvcount = 0 then
           cwhen (recvcount > 0 \<and> send \<noteq> recvbuff) (memcpy recvbuff send chunkBytes) c
         else scoped
           (if rank (comm c) \<noteq> root then
              vseq [regAdd recvbuff chunkBytes, trecv root recvbuff chunkBytes]
            else
              vseq
                [regAdd send (n * chunkBytes),
                 cwhen (recvbuff \<noteq> send + root * chunkBytes)
                   (memcpy recvbuff (send + root * chunkBytes) chunkBytes),
                 loop (n - 1) (\<lambda>s. let p = (root + (s + 1)) mod n
                                   in tsend p (send + p * chunkBytes) chunkBytes)]) c)"

subsection \<open>All-to-all\<close>

text \<open>Counts and displacements are lists of length \<open>nranks\<close>, in elements.\<close>

definition a2aEnd :: "nat \<Rightarrow> nat list \<Rightarrow> nat list \<Rightarrow> nat \<Rightarrow> nat" where
  "a2aEnd n displs counts esize = fold (\<lambda>p e. max e ((displs ! p + counts ! p) * esize)) [0..<n] 0"

definition doAllToAllv ::
  "addr \<Rightarrow> nat list \<Rightarrow> nat list \<Rightarrow> addr \<Rightarrow> nat list \<Rightarrow> nat list \<Rightarrow> vcclDataType_t \<Rightarrow> cmd" where
  "doAllToAllv send sendcounts sdispls recv recvcounts rdispls dt = scoped (\<lambda>c.
     let esize = vcclTypeSize dt; n = nranks (comm c); r = rank (comm c)
     in vseq
          [regAdd send (a2aEnd n sdispls sendcounts esize),
           regAdd recv (a2aEnd n rdispls recvcounts esize),
           cwhen (sendcounts ! r > 0 \<and> recv + rdispls ! r * esize \<noteq> send + sdispls ! r * esize)
             (memcpy (recv + rdispls ! r * esize) (send + sdispls ! r * esize) (sendcounts ! r * esize)),
           loop (n - 1) (\<lambda>s.
             let to = (r + (s + 1)) mod n; from = (r + n - (s + 1)) mod n
             in sendRecv to (send + sdispls ! to * esize) (sendcounts ! to * esize)
                         from (recv + rdispls ! from * esize) (recvcounts ! from * esize))] c)"

end
