(* ===== verification/Vccl_Masks.thy ===== *)
theory Vccl_Masks
  imports Vccl_Collectives
begin

text \<open>
  Arithmetic of the logarithmic algorithms: the masks of the doubling loops are the powers of two
  below the number of ranks, \<open>isPow2\<close> recognises powers of two, and the blocks of \<open>2 ^ i\<close> ranks that
  the exchange with \<open>r XOR 2 ^ i\<close> merges.
\<close>

unbundle bit_operations_syntax

subsection \<open>Masks\<close>

definition nsteps :: "nat \<Rightarrow> nat" where
  "nsteps n = length (masks n)"

lemma masksFrom_pow:
  "masksFrom (2 ^ i) n = map (\<lambda>j. 2 ^ j) [i..<i + length (masksFrom (2 ^ i) n)] \<and>
   n \<le> 2 ^ (i + length (masksFrom (2 ^ i) n)) \<and>
   (\<forall>j. i \<le> j \<and> j < i + length (masksFrom (2 ^ i) n) \<longrightarrow> 2 ^ j < n)"
proof (induction "n - 2 ^ i" arbitrary: i rule: less_induct)
  case less
  show ?case
  proof (cases "2 ^ i < n")
    case True
    moreover have "(0::nat) < 2 ^ i" by simp
    ultimately have dec: "n - 2 ^ Suc i < n - 2 ^ i" unfolding power_Suc by linarith
    let ?l = "length (masksFrom (2 ^ Suc i) n)"
    have eq: "masksFrom (2 ^ i) n = 2 ^ i # masksFrom (2 ^ Suc i) n"
      using True by (subst masksFrom.simps) simp
    then have len: "length (masksFrom (2 ^ i) n) = Suc ?l" by simp
    note IH = less [OF dec]
    have upt: "[i..<i + Suc ?l] = i # [Suc i..<Suc i + ?l]" by (simp add: upt_rec)
    have "masksFrom (2 ^ i) n = map (\<lambda>j. 2 ^ j) [i..<i + Suc ?l]"
      unfolding upt eq using IH by simp
    moreover have "2 ^ j < n" if "i \<le> j" "j < i + Suc ?l" for j
      using IH that True by (cases "j = i") (simp_all del: power_Suc)
    ultimately show ?thesis unfolding len using IH by simp
  next
    case False
    then have "masksFrom (2 ^ i) n = []" by (subst masksFrom.simps) simp
    then show ?thesis using False by simp
  qed
qed

lemma masks_eq: "masks n = map (\<lambda>i. 2 ^ i) [0..<nsteps n]"
  and nsteps_ge: "n \<le> 2 ^ nsteps n"
  and nsteps_less: "i < nsteps n \<Longrightarrow> 2 ^ i < n"
  using masksFrom_pow [of 0 n] by (simp_all add: masks_def nsteps_def)

lemma maskSteps_eq: "maskSteps n = map (\<lambda>i. (i, 2 ^ i)) [0..<nsteps n]"
  by (simp add: maskSteps_def masks_eq enumerate_map_upt enumerate_eq_zip zip_map2 zip_same_conv_map)

lemma nsteps_pow2 [simp]: "nsteps (2 ^ k) = k"
proof (rule antisym)
  show "k \<le> nsteps (2 ^ k)" using nsteps_ge [of "2 ^ k"] by simp
  show "nsteps (2 ^ k) \<le> k"
  proof (rule ccontr)
    assume "\<not> nsteps (2 ^ k) \<le> k"
    then have "(2::nat) ^ k < 2 ^ k" by (intro nsteps_less) simp
    then show False by simp
  qed
qed

lemma length_masks [simp]: "length (masks n) = nsteps n"
  by (simp add: nsteps_def)

subsection \<open>Powers of two\<close>

lemma pow2_and_pred: "(2 ^ k :: nat) AND (2 ^ k - 1) = 0"
proof -
  have "(2 ^ k :: nat) - 1 = mask k" by (simp add: mask_eq_exp_minus_1)
  then have "(2 ^ k :: nat) AND (2 ^ k - 1) = take_bit k (2 ^ k)" by (simp add: take_bit_eq_mask)
  then show ?thesis by simp
qed

lemma and_pred_pow2: "0 < n \<Longrightarrow> n AND (n - 1) = 0 \<Longrightarrow> \<exists>k. n = (2 ^ k :: nat)"
proof (induction n rule: less_induct)
  case (less n)
  show ?case
  proof (cases "even n")
    case True
    then obtain m where m: "n = 2 * m" "0 < m" using less.prems by (auto elim: evenE)
    have "(2 * m - Suc 0) div 2 = m - Suc 0" using m(2) by presburger
    then have "drop_bit 1 (n AND (n - 1)) = m AND (m - 1)"
      unfolding drop_bit_and m by (simp add: drop_bit_Suc)
    then have "m AND (m - 1) = 0" unfolding less.prems(2) by simp
    then obtain k where "m = 2 ^ k" using less.IH [of m] m by auto
    then have "n = 2 ^ Suc k" using m by simp
    then show ?thesis by blast
  next
    case False
    then obtain m where m: "n = 2 * m + 1" by (auto elim: oddE)
    have "drop_bit 1 (n AND (n - 1)) = m AND m"
      unfolding drop_bit_and m by (simp add: drop_bit_Suc)
    then have "m = 0" unfolding less.prems(2) by simp
    then show ?thesis using m by (intro exI [of _ 0]) simp
  qed
qed

lemma isPow2_iff: "isPow2 n \<longleftrightarrow> (\<exists>k. 0 < k \<and> n = 2 ^ k)"
proof
  assume "isPow2 n"
  then obtain k where "n = 2 ^ k" "n > 1" using and_pred_pow2 [of n] by (auto simp: isPow2_def)
  then show "\<exists>k. 0 < k \<and> n = 2 ^ k" by (cases k) auto
next
  assume "\<exists>k. 0 < k \<and> n = 2 ^ k"
  then obtain k where "0 < k" "n = 2 ^ k" by blast
  then show "isPow2 n" using pow2_and_pred [of k] one_less_power [of "2::nat" k] by (simp add: isPow2_def)
qed

subsection \<open>Blocks\<close>

lemma blockOf_eq: "blockOf i x = x div 2 ^ i * 2 ^ i"
  by (simp add: blockOf_def push_bit_eq_mult drop_bit_eq_div)

lemma xor_pow2_div: "(r XOR 2 ^ i) div 2 ^ i = (r div 2 ^ i :: nat) XOR 1"
  and xor_pow2_div_Suc: "(r XOR 2 ^ i) div 2 ^ Suc i = (r div 2 ^ Suc i :: nat)"
proof -
  have "drop_bit i (r XOR 2 ^ i) = drop_bit i r XOR 1"
    by (simp add: drop_bit_xor drop_bit_exp_eq)
  then show "(r XOR 2 ^ i) div 2 ^ i = r div 2 ^ i XOR 1" by (simp add: drop_bit_eq_div)
  have "drop_bit (Suc i) (r XOR 2 ^ i) = drop_bit (Suc i) r"
    by (simp only: drop_bit_xor) (simp add: drop_bit_exp_eq)
  then show "(r XOR 2 ^ i) div 2 ^ Suc i = r div 2 ^ Suc i" by (simp only: drop_bit_eq_div)
qed

lemma div_2_cases: "a div 2 = b div 2 \<Longrightarrow> a = b \<or> a = b XOR 1" for a b :: nat
proof -
  assume "a div 2 = b div 2"
  moreover have "b XOR 1 = (if even b then b + 1 else b - 1)" by (simp add: xor_Suc_0_eq)
  ultimately show ?thesis by (cases "even a"; cases "even b") (auto elim!: evenE oddE)
qed

text \<open>The ranks of the next block are those of the own block and those of the partner's.\<close>

lemma block_merge:
  fixes j r i :: nat
  assumes "j div 2 ^ Suc i = r div 2 ^ Suc i"
  shows "j div 2 ^ i = r div 2 ^ i \<or> j div 2 ^ i = (r XOR 2 ^ i) div 2 ^ i"
proof -
  have "(j div 2 ^ i) div 2 = (r div 2 ^ i) div 2"
    using assms by (simp add: div_mult2_eq [symmetric] mult.commute)
  then show ?thesis unfolding xor_pow2_div by (rule div_2_cases)
qed

lemma block_ne: "(r XOR 2 ^ i) div 2 ^ i \<noteq> (r div 2 ^ i :: nat)"
  unfolding xor_pow2_div by (cases "even (r div 2 ^ i)") (auto simp: xor_Suc_0_eq elim: oddE)

lemma block_sub:
  fixes x i j :: nat
  assumes "i \<le> j"
  shows "blockOf j x \<le> blockOf i x" "blockOf i x + 2 ^ i \<le> blockOf j x + 2 ^ j"
proof -
  define a b where "a = x div 2 ^ i" and "b = (2::nat) ^ (j - i)"
  have *: "(2::nat) ^ j = b * 2 ^ i" using assms by (simp add: b_def flip: power_add)
  have "x div 2 ^ j = a div b"
    unfolding * a_def by (metis div_mult2_eq mult.commute)
  then have J: "blockOf j x = (a div b * b) * 2 ^ i" "blockOf i x = a * 2 ^ i"
    unfolding blockOf_eq * by (simp_all add: a_def mult.assoc)
  show "blockOf j x \<le> blockOf i x" unfolding J by (intro mult_le_mono1) simp
  have "a < a div b * b + b" unfolding b_def by (simp add: dividend_less_div_times add.commute)
  then have "Suc a * 2 ^ i \<le> (a div b * b + b) * 2 ^ i" by (intro mult_le_mono1) simp
  then show "blockOf i x + 2 ^ i \<le> blockOf j x + 2 ^ j"
    unfolding J * by (simp add: add_mult_distrib)
qed

lemma block_same: "blockOf i x \<le> j \<Longrightarrow> j < blockOf i x + 2 ^ i \<Longrightarrow> j div 2 ^ i = x div 2 ^ i"
  unfolding blockOf_eq by (metis add.commute div_nat_eqI mult.commute mult_Suc)

lemma block_mem: "blockOf i x \<le> x" "x < blockOf i x + 2 ^ i"
  unfolding blockOf_eq
  by (simp, metis add.commute dividend_less_div_times zero_less_numeral zero_less_power)

text \<open>Two different blocks of one size do not meet, and neither do parts of them.\<close>

lemma block_disj:
  assumes "x div 2 ^ i \<noteq> (y div 2 ^ i :: nat)"
  shows "blockOf i x + 2 ^ i \<le> blockOf i y \<or> blockOf i y + 2 ^ i \<le> blockOf i x"
proof -
  consider "Suc (x div 2 ^ i) \<le> y div 2 ^ i" | "Suc (y div 2 ^ i) \<le> x div 2 ^ i" using assms by linarith
  then show ?thesis
    unfolding blockOf_eq by cases (metis add.commute mult_Suc mult_le_mono1)+
qed

end
