(* ===== verification/Vccl_Algebra.thy ===== *)
theory Vccl_Algebra
  imports Main "HOL-Library.Multiset"
begin

text \<open>
  Two interfaces that the components rely on, stated once with their consequences.

  \<^item> \<open>reduction\<close>, \<open>comm_reduction\<close> and \<open>ac_reduction\<close>: a binary operation that a carrier is closed
    under, without laws, commutative, and commutative and associative. The result of a collective
    reduction is a bracketing of the ranks' contributions; \<open>fold1\<close> is the left-to-right one, and in
    an \<open>ac_reduction\<close> every bracketing and order gives it.
  \<^item> \<open>diamond\<close>: a step relation in which two different steps from one state can be joined by one
    step each. If one run from a state ends, then all its runs end, after the same number of steps
    and in the same state.
\<close>

subsection \<open>Reductions\<close>

fun fold1 :: "('a \<Rightarrow> 'a \<Rightarrow> 'a) \<Rightarrow> 'a list \<Rightarrow> 'a" where
  "fold1 f (x # xs) = foldl f x xs"
| "fold1 f [] = undefined"

locale reduction =
  fixes red :: "'a \<Rightarrow> 'a \<Rightarrow> 'a" and C :: "'a set"
  assumes closed: "x \<in> C \<Longrightarrow> y \<in> C \<Longrightarrow> red x y \<in> C"
begin

lemma foldl_closed: "x \<in> C \<Longrightarrow> set xs \<subseteq> C \<Longrightarrow> foldl red x xs \<in> C"
  by (induction xs arbitrary: x) (auto simp: closed)

lemma fold1_closed: "xs \<noteq> [] \<Longrightarrow> set xs \<subseteq> C \<Longrightarrow> fold1 red xs \<in> C"
  by (cases xs) (auto intro: foldl_closed)

end

locale comm_reduction = reduction +
  assumes comm: "x \<in> C \<Longrightarrow> y \<in> C \<Longrightarrow> red x y = red y x"

locale ac_reduction = comm_reduction +
  assumes assoc: "x \<in> C \<Longrightarrow> y \<in> C \<Longrightarrow> z \<in> C \<Longrightarrow> red (red x y) z = red x (red y z)"
begin

lemma foldl_assoc:
  "x \<in> C \<Longrightarrow> y \<in> C \<Longrightarrow> set zs \<subseteq> C \<Longrightarrow> foldl red (red x y) zs = red x (foldl red y zs)"
  by (induction zs arbitrary: y) (auto simp: closed assoc)

lemma fold1_append:
  assumes "xs \<noteq> []" "ys \<noteq> []" "set xs \<subseteq> C" "set ys \<subseteq> C"
  shows "fold1 red (xs @ ys) = red (fold1 red xs) (fold1 red ys)"
proof -
  obtain x xs' y ys' where "xs = x # xs'" "ys = y # ys'"
    using assms(1,2) by (cases xs; cases ys) auto
  with assms show ?thesis by (simp add: foldl_assoc foldl_closed)
qed

lemma fold1_Cons: "xs \<noteq> [] \<Longrightarrow> x \<in> C \<Longrightarrow> set xs \<subseteq> C \<Longrightarrow> fold1 red (x # xs) = red x (fold1 red xs)"
  using fold1_append [of "[x]" xs] by simp

lemma fold1_rotate:
  assumes "set as \<subseteq> C" "x \<in> C" "set bs \<subseteq> C"
  shows "fold1 red (as @ x # bs) = fold1 red (x # as @ bs)"
proof (cases "as = []")
  case False
  have "fold1 red (as @ [x]) = fold1 red (x # as)"
    using assms False fold1_append [of as "[x]"] fold1_Cons [of as x] fold1_closed [of as]
    by (simp add: comm)
  then show ?thesis
    using assms False fold1_append [of "as @ [x]" bs] fold1_append [of "x # as" bs]
    by (cases "bs = []") auto
qed simp

lemma fold1_perm:
  "mset xs = mset ys \<Longrightarrow> set xs \<subseteq> C \<Longrightarrow> fold1 red xs = fold1 red ys"
proof (induction xs arbitrary: ys)
  case Nil
  then show ?case by simp
next
  case (Cons x xs)
  from Cons.prems(1) have "x \<in> set ys" by (metis list.set_intros(1) set_mset_mset)
  then obtain as bs where ys: "ys = as @ x # bs" by (meson split_list)
  then have m: "mset xs = mset (as @ bs)" using Cons.prems(1) by simp
  have sub: "set as \<subseteq> C" "set bs \<subseteq> C" "x \<in> C" "set xs \<subseteq> C"
    using Cons.prems mset_eq_setD [OF m] by auto
  have "fold1 red ys = fold1 red (x # as @ bs)"
    unfolding ys using sub by (intro fold1_rotate)
  also have "\<dots> = fold1 red (x # xs)"
  proof (cases "xs = []")
    case True
    then show ?thesis using m by simp
  next
    case False
    then have "as @ bs \<noteq> []" using m by auto
    then show ?thesis
      using False sub Cons.IH [OF m] fold1_Cons [of xs x] fold1_Cons [of "as @ bs" x] by auto
  qed
  finally show ?case by simp
qed

end

subsection \<open>Diamonds\<close>

locale diamond =
  fixes step :: "'s \<Rightarrow> 's \<Rightarrow> bool"
  assumes diamond: "step a b \<Longrightarrow> step a c \<Longrightarrow> b \<noteq> c \<Longrightarrow> \<exists>d. step b d \<and> step c d"
begin

lemma strip:
  "(step ^^ k) a t \<Longrightarrow> (\<nexists>u. step t u) \<Longrightarrow> step a b \<Longrightarrow> \<exists>j. k = Suc j \<and> (step ^^ j) b t"
proof (induction k arbitrary: a b)
  case 0
  then show ?case by auto
next
  case (Suc k)
  from Suc.prems(1) obtain c where c: "step a c" "(step ^^ k) c t"
    by (meson relpowp_Suc_D2)
  show ?case
  proof (cases "b = c")
    case True
    with c show ?thesis by auto
  next
    case False
    with diamond [OF Suc.prems(3) c(1)] obtain d where d: "step b d" "step c d" by auto
    from Suc.IH [OF c(2) Suc.prems(2) d(2)] obtain j where j: "k = Suc j" "(step ^^ j) d t" by auto
    then have "(step ^^ k) b t" using d(1) by (simp only: relpowp_Suc_I2)
    then show ?thesis by simp
  qed
qed

lemma all_runs_end:
  assumes "(step ^^ k) a t" "\<nexists>u. step t u" "(step ^^ m) a b"
  shows "m \<le> k \<and> (step ^^ (k - m)) b t"
  using assms(1,3)
proof (induction m arbitrary: a k)
  case 0
  then show ?case by simp
next
  case (Suc m)
  from Suc.prems(2) obtain c where c: "step a c" "(step ^^ m) c b"
    by (meson relpowp_Suc_D2)
  from strip [OF Suc.prems(1) assms(2) c(1)] obtain j where "k = Suc j" "(step ^^ j) c t" by auto
  with Suc.IH [of j c] c(2) show ?case by auto
qed

lemma maximal_run_unique:
  assumes "step\<^sup>*\<^sup>* a t" "\<nexists>u. step t u" "step\<^sup>*\<^sup>* a b"
  shows "step\<^sup>*\<^sup>* b t" and "(\<nexists>u. step b u) \<Longrightarrow> b = t"
proof -
  obtain k m where "(step ^^ k) a t" "(step ^^ m) a b"
    using assms(1,3) by (meson rtranclp_imp_relpowp)
  with all_runs_end [OF _ assms(2)] have "(step ^^ (k - m)) b t" by blast
  then show "step\<^sup>*\<^sup>* b t" by (rule relpowp_imp_rtranclp)
  then show "b = t" if "\<nexists>u. step b u" using that by (metis converse_rtranclpE)
qed

end

end
