(* ===== verification/Vccl_Net.thy ===== *)
theory Vccl_Net
  imports Vccl_Proc Vccl_Algebra
begin

text \<open>
  The ranks of a communicator running against each other. A configuration gives each rank its
  program. A step moves one message: rank \<open>i\<close> has a pending send to \<open>j\<close>, rank \<open>j\<close> a receive from
  \<open>i\<close> that is not filled yet, the first of each, and the sizes agree. This is the transport with
  no buffering at all, the least permissive one: a send blocks until its receive is posted.

  Different steps commute, so the relation is a \<open>diamond\<close>. Hence, if one schedule brings every rank
  to a return then all schedules do, after the same number of steps and with the same result:
  \<open>finishes\<close> states this as one predicate and \<open>finishesI\<close> reduces it to one run.
\<close>

type_synonym config = "nat \<Rightarrow> proc"

fun takeSend :: "nat \<Rightarrow> slot list \<Rightarrow> (byte list \<times> slot list) option" where
  "takeSend j [] = None"
| "takeSend j (SSend p d b # ss) =
     (if p = j \<and> \<not> b then Some (d, SSend p d True # ss)
      else map_option (\<lambda>(d', ss'). (d', SSend p d b # ss')) (takeSend j ss))"
| "takeSend j (SRecv p a n x # ss) =
     map_option (\<lambda>(d', ss'). (d', SRecv p a n x # ss')) (takeSend j ss)"

fun fillRecv :: "nat \<Rightarrow> byte list \<Rightarrow> slot list \<Rightarrow> slot list option" where
  "fillRecv i d [] = None"
| "fillRecv i d (SRecv p a n x # ss) =
     (if p = i \<and> x = None then (if length d = n then Some (SRecv p a n (Some d) # ss) else None)
      else map_option (Cons (SRecv p a n x)) (fillRecv i d ss))"
| "fillRecv i d (SSend p d' b # ss) = map_option (Cons (SSend p d' b)) (fillRecv i d ss)"

text \<open>What a message does to one of the two ranks it concerns.\<close>

datatype act = ASend nat "byte list" | ARecv nat "byte list"

fun lstep :: "act option \<Rightarrow> proc \<Rightarrow> proc option" where
  "lstep None p = Some p"
| "lstep (Some (ASend j d)) (Xfer ss c k) =
     (case takeSend j ss of
        Some (d', ss') \<Rightarrow> if d' = d then Some (advance ss' c k) else None
      | None \<Rightarrow> None)"
| "lstep (Some (ARecv i d)) (Xfer ss c k) = map_option (\<lambda>ss'. advance ss' c k) (fillRecv i d ss)"
| "lstep (Some a) _ = None"

definition actAt :: "nat \<Rightarrow> nat \<Rightarrow> byte list \<Rightarrow> nat \<Rightarrow> act option" where
  "actAt i j d k = (if k = i then Some (ASend j d) else if k = j then Some (ARecv i d) else None)"

inductive net_step :: "config \<Rightarrow> config \<Rightarrow> bool" where
  message: "i \<noteq> j \<Longrightarrow> (\<And>k. lstep (actAt i j d k) (cfg k) = Some (cfg' k)) \<Longrightarrow> net_step cfg cfg'"

inductive_cases net_stepE: "net_step cfg cfg'"

subsection \<open>Two moves of one rank commute\<close>

lemma takeSend_not_done: "takeSend j ss = Some x \<Longrightarrow> \<not> list_all slotDone ss"
  by (induction j ss arbitrary: x rule: takeSend.induct) (auto split: if_splits)

lemma fillRecv_not_done: "fillRecv i d ss = Some x \<Longrightarrow> \<not> list_all slotDone ss"
  by (induction i d ss arbitrary: x rule: fillRecv.induct) (auto split: if_splits)

lemma takeSend_takeSend:
  "takeSend j ss = Some (d, s1) \<Longrightarrow> takeSend j' ss = Some (d', s2) \<Longrightarrow> j \<noteq> j' \<Longrightarrow>
   \<exists>s12. takeSend j' s1 = Some (d', s12) \<and> takeSend j s2 = Some (d, s12)"
  by (induction j ss arbitrary: d s1 d' s2 rule: takeSend.induct) (fastforce split: if_splits)+

lemma takeSend_fillRecv:
  "takeSend j ss = Some (d, s1) \<Longrightarrow> fillRecv i d' ss = Some s2 \<Longrightarrow>
   \<exists>s12. fillRecv i d' s1 = Some s12 \<and> takeSend j s2 = Some (d, s12)"
  by (induction j ss arbitrary: d s1 s2 rule: takeSend.induct) (fastforce split: if_splits)+

lemma fillRecv_fillRecv:
  "fillRecv i d ss = Some s1 \<Longrightarrow> fillRecv i' d' ss = Some s2 \<Longrightarrow> i \<noteq> i' \<Longrightarrow>
   \<exists>s12. fillRecv i' d' s1 = Some s12 \<and> fillRecv i d s2 = Some s12"
  by (induction i d ss arbitrary: s1 s2 rule: fillRecv.induct) (fastforce split: if_splits)+

fun conflict :: "act option \<Rightarrow> act option \<Rightarrow> bool" where
  "conflict (Some (ASend j _)) (Some (ASend j' _)) = (j = j')"
| "conflict (Some (ARecv i _)) (Some (ARecv i' _)) = (i = i')"
| "conflict _ _ = False"

lemma advance_pending: "takeSend j ss = Some x \<Longrightarrow> advance ss c k = Xfer ss c k"
  "fillRecv i d ss = Some y \<Longrightarrow> advance ss c k = Xfer ss c k"
  by (simp_all add: advance_def takeSend_not_done fillRecv_not_done)

lemma lstep_commute:
  assumes "lstep a p = Some p1" "lstep b p = Some p2" "\<not> conflict a b"
  shows "\<exists>q. lstep b p1 = Some q \<and> lstep a p2 = Some q"
proof (cases "a = None \<or> b = None")
  case True
  then show ?thesis using assms by auto
next
  case False
  then obtain a' b' ss c k where *: "a = Some a'" "b = Some b'" "p = Xfer ss c k"
    using assms(1) by (cases p) auto
  show ?thesis
  proof (cases a'; cases b')
    fix j d j' d' assume ab: "a' = ASend j d" "b' = ASend j' d'"
    then obtain s1 s2 where "takeSend j ss = Some (d, s1)" "takeSend j' ss = Some (d', s2)" "j \<noteq> j'"
        "p1 = advance s1 c k" "p2 = advance s2 c k"
      using assms * by (auto split: option.splits if_splits)
    with takeSend_takeSend [of j ss d s1 j' d' s2] show ?thesis
      using * ab by (auto simp: advance_pending)
  next
    fix j d i d' assume ab: "a' = ASend j d" "b' = ARecv i d'"
    then obtain s1 s2 where "takeSend j ss = Some (d, s1)" "fillRecv i d' ss = Some s2"
        "p1 = advance s1 c k" "p2 = advance s2 c k"
      using assms * by (auto split: option.splits if_splits)
    with takeSend_fillRecv [of j ss d s1 i d' s2] show ?thesis
      using * ab by (auto simp: advance_pending)
  next
    fix i d j d' assume ab: "a' = ARecv i d" "b' = ASend j d'"
    then obtain s1 s2 where "fillRecv i d ss = Some s1" "takeSend j ss = Some (d', s2)"
        "p1 = advance s1 c k" "p2 = advance s2 c k"
      using assms * by (auto split: option.splits if_splits)
    with takeSend_fillRecv [of j ss d' s2 i d s1] show ?thesis
      using * ab by (auto simp: advance_pending)
  next
    fix i d i' d' assume ab: "a' = ARecv i d" "b' = ARecv i' d'"
    then obtain s1 s2 where "fillRecv i d ss = Some s1" "fillRecv i' d' ss = Some s2" "i \<noteq> i'"
        "p1 = advance s1 c k" "p2 = advance s2 c k"
      using assms * by (auto split: option.splits if_splits)
    with fillRecv_fillRecv [of i d ss s1 i' d' s2] show ?thesis
      using * ab by (auto simp: advance_pending)
  qed
qed

lemma lstep_send_data:
  "lstep (Some (ASend j d)) p = Some p1 \<Longrightarrow> lstep (Some (ASend j d')) p = Some p2 \<Longrightarrow> d = d'"
  by (cases p) (auto split: option.splits if_splits)

interpretation net: diamond net_step
proof
  fix a b c assume "net_step a b" "net_step a c" "b \<noteq> c"
  from \<open>net_step a b\<close> obtain i j d
    where 1: "i \<noteq> j" "\<And>k. lstep (actAt i j d k) (a k) = Some (b k)" by (rule net_stepE) blast
  from \<open>net_step a c\<close> obtain i' j' d'
    where 2: "i' \<noteq> j'" "\<And>k. lstep (actAt i' j' d' k) (a k) = Some (c k)" by (rule net_stepE) blast
  have ne: "(i, j) \<noteq> (i', j')"
  proof
    assume eq: "(i, j) = (i', j')"
    then have "d = d'"
      using 1(2) [of i] 2(2) [of i] lstep_send_data [of j d "a i"] by (auto simp: actAt_def)
    then have "b = c" using eq 1(2) 2(2) by (intro ext) (metis option.inject prod.inject)
    then show False using \<open>b \<noteq> c\<close> by simp
  qed
  have "\<not> conflict (actAt i j d k) (actAt i' j' d' k)" for k
    using ne 1(1) 2(1) by (auto simp: actAt_def)
  then have "\<forall>k. \<exists>q. lstep (actAt i' j' d' k) (b k) = Some q \<and> lstep (actAt i j d k) (c k) = Some q"
    using lstep_commute 1(2) 2(2) by blast
  then obtain e where "\<And>k. lstep (actAt i' j' d' k) (b k) = Some (e k)"
      "\<And>k. lstep (actAt i j d k) (c k) = Some (e k)" by metis
  then have "net_step b e" "net_step c e" using 1(1) 2(1) by (auto intro: net_step.intros)
  then show "\<exists>d. net_step b d \<and> net_step c d" by auto
qed

subsection \<open>Total correctness of a configuration\<close>

text \<open>Every rank below \<open>n\<close> has returned success in a state that satisfies \<open>Q\<close>.\<close>

definition allOk :: "nat \<Rightarrow> (nat \<Rightarrow> ctx \<Rightarrow> bool) \<Rightarrow> config \<Rightarrow> bool" where
  "allOk n Q cfg \<longleftrightarrow> (\<forall>r<n. \<exists>c. cfg r = Ret vcclSuccess c \<and> Q r c)"

text \<open>The network of \<open>n\<close> programs, the rest idle.\<close>

definition network :: "nat \<Rightarrow> (nat \<Rightarrow> proc) \<Rightarrow> config" where
  "network n ps = (\<lambda>r. if r < n then ps r else Undef)"

text \<open>Whatever the schedule: runs are bounded, none gets stuck before the end, and the end is one
  configuration in which all ranks have succeeded with \<open>Q\<close>.\<close>

definition finishes :: "nat \<Rightarrow> (nat \<Rightarrow> proc) \<Rightarrow> (nat \<Rightarrow> ctx \<Rightarrow> bool) \<Rightarrow> bool" where
  "finishes n ps Q \<longleftrightarrow>
     (\<exists>t bound. allOk n Q t \<and>
        (\<forall>k cfg. (net_step ^^ k) (network n ps) cfg \<longrightarrow>
           k \<le> bound \<and> net_step\<^sup>*\<^sup>* cfg t \<and> ((\<nexists>u. net_step cfg u) \<longrightarrow> cfg = t)))"

lemma idle_stuck: "(\<And>r. \<exists>e c. cfg r = Ret e c \<or> cfg r = Undef) \<Longrightarrow> \<not> net_step cfg u"
proof
  assume idle: "\<And>r. \<exists>e c. cfg r = Ret e c \<or> cfg r = Undef" and "net_step cfg u"
  then obtain i j d where *: "lstep (actAt i j d i) (cfg i) = Some (u i)"
    by (meson net_stepE)
  show False using idle [of i] * by (auto simp: actAt_def)
qed

lemma finishesI:
  assumes "net_step\<^sup>*\<^sup>* (network n ps) (network n t)" "\<And>r. r < n \<Longrightarrow> \<exists>c. t r = Ret vcclSuccess c \<and> Q r c"
  shows "finishes n ps Q"
proof -
  have stuck: "\<nexists>u. net_step (network n t) u"
  proof (intro notI, elim exE)
    fix u assume "net_step (network n t) u"
    moreover have "\<exists>e c. network n t r = Ret e c \<or> network n t r = Undef" for r
      using assms(2) [of r] by (auto simp: network_def)
    ultimately show False using idle_stuck by blast
  qed
  obtain b where b: "(net_step ^^ b) (network n ps) (network n t)"
    using assms(1) by (meson rtranclp_imp_relpowp)
  have "allOk n Q (network n t)" using assms(2) by (auto simp: allOk_def network_def)
  moreover have "k \<le> b \<and> net_step\<^sup>*\<^sup>* cfg (network n t) \<and> ((\<nexists>u. net_step cfg u) \<longrightarrow> cfg = network n t)"
    if "(net_step ^^ k) (network n ps) cfg" for k cfg
  proof -
    have "net_step\<^sup>*\<^sup>* (network n ps) cfg" using that by (rule relpowp_imp_rtranclp)
    from net.maximal_run_unique [OF assms(1) stuck this] net.all_runs_end [OF b stuck that]
    show ?thesis by blast
  qed
  ultimately show ?thesis unfolding finishes_def by blast
qed

lemma finishes_mono:
  "finishes n ps Q \<Longrightarrow> (\<And>r c. r < n \<Longrightarrow> Q r c \<Longrightarrow> Q' r c) \<Longrightarrow> finishes n ps Q'"
  unfolding finishes_def allOk_def by meson

lemma finishes_cong: "(\<And>r. r < n \<Longrightarrow> ps r = qs r) \<Longrightarrow> finishes n ps Q \<longleftrightarrow> finishes n qs Q"
  by (simp add: finishes_def network_def cong: if_cong)

end
