(* ===== verification/Vccl_Par.thy ===== *)
theory Vccl_Par
  imports Vccl_Net
begin

text \<open>
  A calculus for ranks that run the same phase together. \<open>par A P c c'\<close> says that the ranks of \<open>A\<close>,
  each about to run its command \<open>P r\<close> in context \<open>c r\<close>, can reach the end of it with success and
  contexts \<open>c' r\<close>, whatever they do next and whatever the other ranks are. Phases compose
  (\<open>par_check\<close>, \<open>par_vseq\<close>, \<open>par_loop\<close>); local actions, scoped registrations and scratch
  allocation lift; \<open>par_sendRecv\<close> is a round in which every rank sends along a permutation, and
  \<open>pair_run\<close> one blocking send that meets its receive. \<open>par_finishes\<close> turns the result into total
  correctness under every schedule.
\<close>

unbundle bit_operations_syntax

named_theorems par_intros \<open>composition rules for phases\<close>

lemma bindp_bindp [simp]: "bindp (bindp p f) g = bindp p (\<lambda>r c. bindp (f r c) g)"
  by (induction p) (auto intro!: ext)

lemma bindp_Ret [simp]: "bindp p Ret = p"
  by (induction p) (auto intro!: ext)

lemma bindp_advance [simp]: "bindp (advance ss c k) f = advance ss c (\<lambda>r c'. bindp (k r c') f)"
  by (simp add: advance_def)

lemma bindp_check [simp]:
  "bindp (check p q c) f = bindp (p c) (\<lambda>r c'. if r = vcclSuccess then bindp (q c') f else f r c')"
  unfolding check_def by (simp add: if_distrib [of "\<lambda>p. bindp p f"] cong: if_cong)

lemma check_assoc: "check (check p q) s = check p (check q s)"
proof
  fix c
  show "check (check p q) s c = check p (check q s) c"
    unfolding check_def bindp_bindp
    by (rule arg_cong [where f = "bindp (p c)"]) (auto simp: fun_eq_iff)
qed

lemma check_ok [simp]: "check p ok = p" "check ok p = p"
proof -
  have *: "(\<lambda>r c'. if r = vcclSuccess then ok c' else Ret r c') = Ret" by (auto simp: ok_def fun_eq_iff)
  show "check p ok = p" unfolding check_def * by (rule ext) simp
qed (simp add: check_def ok_def fun_eq_iff)

lemma vseq_Nil [simp]: "vseq [] = ok"
  by (simp add: vseq_def)

lemma vseq_Cons [simp]: "vseq (p # ps) = check p (vseq ps)"
  by (simp add: vseq_def)

definition par :: "nat set \<Rightarrow> (nat \<Rightarrow> cmd) \<Rightarrow> (nat \<Rightarrow> ctx) \<Rightarrow> (nat \<Rightarrow> ctx) \<Rightarrow> bool" where
  "par A P c c' \<longleftrightarrow>
     (\<forall>cfg K. (\<forall>r\<in>A. cfg r = bindp (P r (c r)) (K r)) \<longrightarrow>
        net_step\<^sup>*\<^sup>* cfg (\<lambda>r. if r \<in> A then K r vcclSuccess (c' r) else cfg r))"

lemma parD:
  "par A P c c' \<Longrightarrow> (\<And>r. r \<in> A \<Longrightarrow> cfg r = bindp (P r (c r)) (K r)) \<Longrightarrow>
   net_step\<^sup>*\<^sup>* cfg (\<lambda>r. if r \<in> A then K r vcclSuccess (c' r) else cfg r)"
  by (simp add: par_def)

lemma parI:
  "(\<And>cfg K. (\<And>r. r \<in> A \<Longrightarrow> cfg r = bindp (P r (c r)) (K r)) \<Longrightarrow>
     net_step\<^sup>*\<^sup>* cfg (\<lambda>r. if r \<in> A then K r vcclSuccess (c' r) else cfg r)) \<Longrightarrow> par A P c c'"
  by (simp add: par_def)

lemma par_cong:
  assumes "\<And>r. r \<in> A \<Longrightarrow> P r (c r) = Q r (c r)" "\<And>r. r \<in> A \<Longrightarrow> c' r = d' r"
  shows "par A P c c' \<longleftrightarrow> par A Q c d'"
  using assms by (simp add: par_def cong: if_cong)

lemma par_ctx:
  assumes "par A P c c'" "\<And>r. r \<in> A \<Longrightarrow> c r = d r" "\<And>r. r \<in> A \<Longrightarrow> c' r = d' r"
  shows "par A P d d'"
  using assms by (simp add: par_def cong: if_cong)

subsection \<open>Composition\<close>

lemma par_local [par_intros]: "(\<And>r. r \<in> A \<Longrightarrow> P r (c r) = Ret vcclSuccess (c' r)) \<Longrightarrow> par A P c c'"
proof (rule parI)
  fix cfg K
  assume "\<And>r. r \<in> A \<Longrightarrow> P r (c r) = Ret vcclSuccess (c' r)"
    and "\<And>r. r \<in> A \<Longrightarrow> cfg r = bindp (P r (c r)) (K r)"
  then have "(\<lambda>r. if r \<in> A then K r vcclSuccess (c' r) else cfg r) = cfg" by (intro ext) auto
  then show "net_step\<^sup>*\<^sup>* cfg (\<lambda>r. if r \<in> A then K r vcclSuccess (c' r) else cfg r)" by simp
qed

lemma par_ok: "par A (\<lambda>r. ok) c c"
  by (rule par_local) (simp add: ok_def)

lemma par_check [par_intros]:
  assumes "par A P c c1" "par A Q c1 c2"
  shows "par A (\<lambda>r. check (P r) (Q r)) c c2"
proof (rule parI)
  fix cfg K
  assume cfg: "\<And>r. r \<in> A \<Longrightarrow> cfg r = bindp (check (P r) (Q r) (c r)) (K r)"
  let ?K = "\<lambda>r e c'. if e = vcclSuccess then bindp (Q r c') (K r) else K r e c'"
  let ?m = "\<lambda>r. if r \<in> A then ?K r vcclSuccess (c1 r) else cfg r"
  let ?e = "\<lambda>r. if r \<in> A then K r vcclSuccess (c2 r) else ?m r"
  have 1: "net_step\<^sup>*\<^sup>* cfg ?m" using assms(1) cfg by (intro parD) simp_all
  have 2: "net_step\<^sup>*\<^sup>* ?m ?e"
    using assms(2) by (intro parD) simp_all
  have "?e = (\<lambda>r. if r \<in> A then K r vcclSuccess (c2 r) else cfg r)" by auto
  with rtranclp_trans [OF 1 2]
  show "net_step\<^sup>*\<^sup>* cfg (\<lambda>r. if r \<in> A then K r vcclSuccess (c2 r) else cfg r)" by simp
qed

lemma par_vseq_map:
  assumes "\<And>i. i < length xs \<Longrightarrow> par A (\<lambda>r. f r (xs ! i)) (C i) (C (Suc i))"
  shows "par A (\<lambda>r. vseq (map (f r) xs)) (C 0) (C (length xs))"
  using assms
proof (induction xs arbitrary: C)
  case Nil
  then show ?case by (simp add: par_ok)
next
  case (Cons x xs)
  have "par A (\<lambda>r. f r x) (C 0) (C 1)" using Cons.prems [of 0] by simp
  moreover have "par A (\<lambda>r. vseq (map (f r) xs)) (C 1) (C (Suc (length xs)))"
    using Cons.IH [of "\<lambda>i. C (Suc i)"] Cons.prems [of "Suc _"] by simp
  ultimately show ?case by (simp add: par_check)
qed

lemma par_loop:
  assumes "\<And>s. s < n \<Longrightarrow> par A (\<lambda>r. body r s) (C s) (C (Suc s))"
  shows "par A (\<lambda>r. loop n (body r)) (C 0) (C n)"
  using par_vseq_map [of "[0..<n]" A body C] assms by (simp add: loop_def)

lemma par_union:
  assumes "par A P c c1" "par B P c c2" "A \<inter> B = {}"
  shows "par (A \<union> B) P c (\<lambda>r. if r \<in> A then c1 r else c2 r)"
proof (rule parI)
  fix cfg K
  assume cfg: "\<And>r. r \<in> A \<union> B \<Longrightarrow> cfg r = bindp (P r (c r)) (K r)"
  let ?m = "\<lambda>r. if r \<in> A then K r vcclSuccess (c1 r) else cfg r"
  let ?e = "\<lambda>r. if r \<in> B then K r vcclSuccess (c2 r) else ?m r"
  have 1: "net_step\<^sup>*\<^sup>* cfg ?m" using assms(1) cfg by (intro parD) simp_all
  have 2: "net_step\<^sup>*\<^sup>* ?m ?e"
    using assms(2,3) cfg by (intro parD) auto
  have "?e = (\<lambda>r. if r \<in> A \<union> B then K r vcclSuccess (if r \<in> A then c1 r else c2 r) else cfg r)"
    using assms(3) by (intro ext) auto
  with rtranclp_trans [OF 1 2] show "net_step\<^sup>*\<^sup>* cfg
      (\<lambda>r. if r \<in> A \<union> B then K r vcclSuccess (if r \<in> A then c1 r else c2 r) else cfg r)" by simp
qed

lemma par_scoped:
  assumes "par A P (\<lambda>r. (c r)\<lparr>comm := scopedCtor (comm (c r))\<rparr>) c'"
  shows "par A (\<lambda>r. scoped (P r)) c (\<lambda>r. (c' r)\<lparr>comm := scopedDtor (comm (c' r))\<rparr>)"
proof (rule parI)
  fix cfg K
  assume "\<And>r. r \<in> A \<Longrightarrow> cfg r = bindp (scoped (P r) (c r)) (K r)"
  then show "net_step\<^sup>*\<^sup>* cfg (\<lambda>r. if r \<in> A
      then K r vcclSuccess ((c' r)\<lparr>comm := scopedDtor (comm (c' r))\<rparr>) else cfg r)"
    using parD [OF assms, of cfg "\<lambda>r e c'. K r e (c'\<lparr>comm := scopedDtor (comm c')\<rparr>)"]
    by (simp add: scoped_def)
qed

lemma par_finishes:
  assumes "par {..<n} P c c'" "\<And>r. r < n \<Longrightarrow> Q r (c' r)"
  shows "finishes n (\<lambda>r. P r (c r)) Q"
proof (rule finishesI)
  let ?i = "network n (\<lambda>r. P r (c r))"
  let ?e = "\<lambda>r. if r \<in> {..<n} then Ret vcclSuccess (c' r) else ?i r"
  have 1: "net_step\<^sup>*\<^sup>* ?i ?e"
    by (rule parD [OF assms(1), where K = "\<lambda>_. Ret"]) (simp add: network_def)
  have 2: "?e = network n (\<lambda>r. Ret vcclSuccess (c' r))" by (intro ext) (simp add: network_def)
  show "net_step\<^sup>*\<^sup>* ?i (network n (\<lambda>r. Ret vcclSuccess (c' r)))" using 1 unfolding 2 .
qed (use assms(2) in auto)

subsection \<open>Posting a transfer\<close>

text \<open>\<open>canPost c sp sb sn rp rb rn qs\<close>: a \<open>sendRecv\<close> with these arguments is defined in \<open>c\<close> and
  leaves the announced receives \<open>qs\<close>.\<close>

definition freeOf :: "RecvReq list \<Rightarrow> addr \<Rightarrow> nat \<Rightarrow> bool" where
  "freeOf qs p n = list_all (\<lambda>q. disj (rqBuf q) (rqBytes q) p n) qs"

definition consumes :: "ctx \<Rightarrow> nat \<Rightarrow> addr \<Rightarrow> nat \<Rightarrow> RecvReq list \<Rightarrow> bool" where
  "consumes c p a n qs \<longleftrightarrow> (if n = 0 then qs = posted c else consume p a n (posted c) = Some qs)"

definition canPost ::
  "ctx \<Rightarrow> nat \<Rightarrow> addr \<Rightarrow> nat \<Rightarrow> nat \<Rightarrow> addr \<Rightarrow> nat \<Rightarrow> RecvReq list \<Rightarrow> bool" where
  "canPost c sp sb sn rp rb rn qs \<longleftrightarrow>
     transport (comm c) \<noteq> None \<and> \<not> dropsCompletion c sp sn rp \<and> peerOk (comm c) sp \<and> peerOk (comm c) rp \<and>
     disj sb sn rb rn \<and> consumes c rp rb rn qs \<and> freeOf qs sb sn \<and> freeOf qs rb rn"

lemma busy_freeOf: "busy (c\<lparr>posted := qs\<rparr>) p n \<longleftrightarrow> \<not> freeOf qs p n" "busy c p n \<longleftrightarrow> \<not> freeOf (posted c) p n"
  by (simp_all add: busy_def freeOf_def list_ex_iff list_all_iff)

lemma opBusy_freeOf:
  "opBusy (c\<lparr>posted := qs\<rparr>) \<lparr>isSend = True, peer = p, buf = b, bytes = n\<rparr> \<longleftrightarrow>
     \<not> freeOf (filter (\<lambda>q. rqPeer q \<noteq> p) qs) b n"
  "opBusy c \<lparr>isSend = True, peer = p, buf = b, bytes = n\<rparr> \<longleftrightarrow>
     \<not> freeOf (filter (\<lambda>q. rqPeer q \<noteq> p) (posted c)) b n"
  "opBusy (c\<lparr>posted := qs\<rparr>) \<lparr>isSend = False, peer = p, buf = b, bytes = n\<rparr> \<longleftrightarrow> \<not> freeOf qs b n"
  by (auto simp: opBusy_def freeOf_def list_ex_iff list_all_iff)

lemma freeOf_filter: "freeOf qs p n \<Longrightarrow> freeOf (filter P qs) p n"
  by (auto simp: freeOf_def list_all_iff)

lemma freeOf_Nil [simp]: "freeOf [] p n"
  by (simp add: freeOf_def)

lemma rd_nil_iff [simp]: "rd m p n = [] \<longleftrightarrow> n = 0"
  by (metis length_0_conv length_rd)

text \<open>No completion is dropped when one peer is on both sides, or none of the announced receives is from the peer sent to.\<close>

lemma dropsCompletion_same [simp]: "\<not> dropsCompletion c p n p"
  by (simp add: dropsCompletion_def)

lemma dropsCompletion_none: "(\<And>q. q \<in> set (posted c) \<Longrightarrow> rqPeer q \<noteq> sp) \<Longrightarrow> \<not> dropsCompletion c sp n rp"
  by (auto simp: dropsCompletion_def list_ex_iff)

lemma dropsCompletion_peer: "(\<And>q. q \<in> set (posted c) \<Longrightarrow> rqPeer q = rp) \<Longrightarrow> \<not> dropsCompletion c sp n rp"
  by (auto simp: dropsCompletion_def list_ex_iff)

lemma dropsCompletion_Nil [simp]: "posted c = [] \<Longrightarrow> \<not> dropsCompletion c sp n rp"
  by (simp add: dropsCompletion_def)

lemma sendRecv_posts:
  assumes "canPost c sp sb sn rp rb rn qs"
  shows "sendRecv sp sb sn rp rb rn c =
    advance [sendSlot sp (rd (mem c) sb sn), recvSlot rp rb rn] (c\<lparr>posted := qs\<rparr>) Ret"
proof -
  have "fold postOp [\<lparr>isSend = True, peer = sp, buf = sb, bytes = sn\<rparr>,
      \<lparr>isSend = False, peer = rp, buf = rb, bytes = rn\<rparr>] (Some (posted c)) = Some qs"
    using assms by (auto simp: canPost_def consumes_def postOp_def split: if_splits)
  then show ?thesis
    using assms
    by (simp add: sendRecv_def transfers_def canPost_def opBusy_freeOf freeOf_filter opSlot_def Let_def)
qed

subsection \<open>A blocking send that meets its receive\<close>

definition sendOk :: "ctx \<Rightarrow> nat \<Rightarrow> addr \<Rightarrow> nat \<Rightarrow> bool" where
  "sendOk c p b n \<longleftrightarrow> transport (comm c) \<noteq> None \<and> peerOk (comm c) p \<and>
     freeOf (filter (\<lambda>q. rqPeer q \<noteq> p) (posted c)) b n"

definition recvOk :: "ctx \<Rightarrow> nat \<Rightarrow> addr \<Rightarrow> nat \<Rightarrow> RecvReq list \<Rightarrow> bool" where
  "recvOk c p b n qs \<longleftrightarrow> transport (comm c) \<noteq> None \<and> peerOk (comm c) p \<and> consumes c p b n qs \<and> freeOf qs b n"

lemma tsend_posts: "sendOk c p b n \<Longrightarrow> tsend p b n c = advance [sendSlot p (rd (mem c) b n)] c Ret"
  by (simp add: tsend_def transfers_def sendOk_def postOp_def opSlot_def opBusy_freeOf)

lemma trecv_posts:
  "recvOk c p b n qs \<Longrightarrow> trecv p b n c = advance [recvSlot p b n] (c\<lparr>posted := qs\<rparr>) Ret"
proof -
  assume ok: "recvOk c p b n qs"
  then have "fold postOp [\<lparr>isSend = False, peer = p, buf = b, bytes = n\<rparr>] (Some (posted c)) = Some qs"
    by (auto simp: recvOk_def consumes_def postOp_def split: if_splits)
  then show ?thesis using ok by (simp add: trecv_def transfers_def recvOk_def opSlot_def opBusy_freeOf Let_def)
qed

lemma pair_run:
  assumes "i \<noteq> j" "cfg i = bindp (tsend j sb n ci) Ki" "cfg j = bindp (trecv i rb n cj) Kj"
    and "sendOk ci j sb n" "recvOk cj i rb n qs"
  shows "net_step\<^sup>*\<^sup>* cfg (cfg(i := Ki vcclSuccess ci,
    j := Kj vcclSuccess (cj\<lparr>posted := qs, mem := wr (mem cj) rb (rd (mem ci) sb n)\<rparr>)))"
    (is "net_step\<^sup>*\<^sup>* cfg ?cfg'")
proof -
  have s: "cfg i = advance [sendSlot j (rd (mem ci) sb n)] ci Ki"
    and r: "cfg j = advance [recvSlot i rb n] (cj\<lparr>posted := qs\<rparr>) Kj"
    using assms(2-5) by (simp_all add: tsend_posts trecv_posts)
  show ?thesis
  proof (cases "n = 0")
    case True
    then have "?cfg' = cfg"
      using s r assms(1)
      by (auto simp: fun_eq_iff advance_def sendSlot_def recvSlot_def commit_def commit1_def)
    then show ?thesis by simp
  next
    case False
    have "net_step cfg ?cfg'"
    proof (rule net_step.message [of i j "rd (mem ci) sb n"])
      fix k show "lstep (actAt i j (rd (mem ci) sb n) k) (cfg k) = Some (?cfg' k)"
        using s r assms(1) False
        by (auto simp: actAt_def advance_def sendSlot_def recvSlot_def commit_def commit1_def)
    qed (use assms(1) in simp)
    then show ?thesis by blast
  qed
qed

lemma par_pair:
  assumes "i \<noteq> j" "P i = tsend j sb n" "P j = trecv i rb n"
    and "sendOk (c i) j sb n" "recvOk (c j) i rb n qs" "c' i = c i"
    and "c' j = (c j)\<lparr>posted := qs, mem := wr (mem (c j)) rb (rd (mem (c i)) sb n)\<rparr>"
  shows "par {i, j} P c c'"
proof (rule parI)
  fix cfg K
  assume cfg: "\<And>r. r \<in> {i, j} \<Longrightarrow> cfg r = bindp (P r (c r)) (K r)"
  have "net_step\<^sup>*\<^sup>* cfg (cfg(i := K i vcclSuccess (c i), j := K j vcclSuccess (c' j)))"
    unfolding assms(7) by (rule pair_run) (use assms cfg in auto)
  moreover have "cfg(i := K i vcclSuccess (c i), j := K j vcclSuccess (c' j)) =
      (\<lambda>r. if r \<in> {i, j} then K r vcclSuccess (c' r) else cfg r)"
    using assms(1,6) by auto
  ultimately show "net_step\<^sup>*\<^sup>* cfg (\<lambda>r. if r \<in> {i, j} then K r vcclSuccess (c' r) else cfg r)" by simp
qed

lemma par_UNION:
  assumes "finite I" "\<And>i. i \<in> I \<Longrightarrow> par (A i) P c c'"
    and "\<And>i j. i \<in> I \<Longrightarrow> j \<in> I \<Longrightarrow> i \<noteq> j \<Longrightarrow> A i \<inter> A j = {}"
  shows "par (\<Union>i\<in>I. A i) P c c'"
  using assms
proof (induction I rule: finite_induct)
  case empty
  then show ?case by (auto intro: par_local)
next
  case (insert x I)
  have "A x \<inter> (\<Union>i\<in>I. A i) = {}" using insert.hyps insert.prems(2) by blast
  from par_union [OF _ _ this, of P c c' c'] insert show ?case by simp
qed

subsection \<open>Rounds\<close>

text \<open>Every rank sends to \<open>to r\<close> and receives from \<open>fr r\<close>, a permutation of \<open>A\<close> without fixed
  points; \<open>d r\<close> is what it sends, \<open>a r\<close> where it receives, \<open>c1 r\<close> its context. \<open>T\<close> is the set of
  ranks whose message has moved.\<close>

locale routing =
  fixes A :: "nat set" and to fr :: "nat \<Rightarrow> nat"
  assumes fin: "finite A"
    and to_A: "r \<in> A \<Longrightarrow> to r \<in> A" and to_ne: "r \<in> A \<Longrightarrow> to r \<noteq> r"
    and fr_A: "r \<in> A \<Longrightarrow> fr r \<in> A"
    and fr_to: "r \<in> A \<Longrightarrow> fr (to r) = r" and to_fr: "r \<in> A \<Longrightarrow> to (fr r) = r"
begin

definition slots :: "(nat \<Rightarrow> byte list) \<Rightarrow> (nat \<Rightarrow> addr) \<Rightarrow> nat set \<Rightarrow> nat \<Rightarrow> slot list" where
  "slots d a T r =
     [SSend (to r) (d r) (r \<in> T \<or> d r = []),
      SRecv (fr r) (a r) (length (d (fr r)))
        (if fr r \<in> T \<or> d (fr r) = [] then Some (d (fr r)) else None)]"

definition at ::
  "(nat \<Rightarrow> byte list) \<Rightarrow> (nat \<Rightarrow> addr) \<Rightarrow> (nat \<Rightarrow> ctx) \<Rightarrow> nat set
    \<Rightarrow> (nat \<Rightarrow> vcclResult_t \<Rightarrow> ctx \<Rightarrow> proc) \<Rightarrow> config \<Rightarrow> config" where
  "at d a c1 T K cfg = (\<lambda>r. if r \<in> A then advance (slots d a T r) (c1 r) (K r) else cfg r)"

lemma fr_ne: "r \<in> A \<Longrightarrow> fr r \<noteq> r"
  using to_ne to_fr by metis

lemma at_step:
  assumes x: "x \<in> A" "x \<notin> T" and d: "d x \<noteq> []"
  shows "net_step (at d a c1 T K cfg) (at d a c1 (insert x T) K cfg)"
proof (rule net_step.message [of x "to x" "d x"])
  show "x \<noteq> to x" using x to_ne by metis
  fix k
  consider "k = x" | "k = to x" "k \<noteq> x" | "k \<noteq> x" "k \<noteq> to x" by blast
  then show "lstep (actAt x (to x) (d x) k) (at d a c1 T K cfg k) = Some (at d a c1 (insert x T) K cfg k)"
  proof cases
    case 1
    have "fr x \<noteq> x" using x fr_ne by blast
    then show ?thesis
      using 1 x d by (simp add: actAt_def at_def slots_def) (simp add: advance_def)
  next
    case 2
    then show ?thesis
      using x d to_A fr_to by (simp add: actAt_def at_def slots_def) (simp add: advance_def)
  next
    case 3
    have "k \<in> A \<Longrightarrow> fr k \<noteq> x" using 3 to_fr by metis
    with 3 show ?thesis by (simp add: actAt_def at_def slots_def)
  qed
qed

lemma at_insert:
  assumes "x \<in> A" "x \<notin> T"
  shows "net_step\<^sup>*\<^sup>* (at d a c1 T K cfg) (at d a c1 (insert x T) K cfg)"
proof (cases "d x = []")
  case True
  then have "slots d a (insert x T) r = slots d a T r" for r by (auto simp: slots_def)
  then show ?thesis by (simp add: at_def cong: if_cong)
next
  case False
  then show ?thesis using at_step assms by blast
qed

lemma at_subset:
  "finite T \<Longrightarrow> T \<subseteq> A \<Longrightarrow> net_step\<^sup>*\<^sup>* (at d a c1 {} K cfg) (at d a c1 T K cfg)"
proof (induction T rule: finite_induct)
  case (insert x T)
  then show ?case using at_insert [of x T d a c1 K cfg] by (meson insert_subset rtranclp_trans)
qed simp

lemma round_run:
  assumes "\<And>r. r \<in> A \<Longrightarrow>
    P r (c r) = advance [sendSlot (to r) (d r), recvSlot (fr r) (a r) (length (d (fr r)))] (c1 r) Ret"
  shows "par A P c (\<lambda>r. (c1 r)\<lparr>mem := wr (mem (c1 r)) (a r) (d (fr r))\<rparr>)"
proof (rule parI)
  fix cfg K
  assume cfg: "\<And>r. r \<in> A \<Longrightarrow> cfg r = bindp (P r (c r)) (K r)"
  have "slots d a {} r = [sendSlot (to r) (d r), recvSlot (fr r) (a r) (length (d (fr r)))]" for r
    by (auto simp: slots_def sendSlot_def recvSlot_def)
  then have 1: "at d a c1 {} K cfg = cfg"
    using cfg assms by (intro ext) (simp add: at_def)
  have 2: "at d a c1 A K cfg = (\<lambda>r. if r \<in> A
      then K r vcclSuccess ((c1 r)\<lparr>mem := wr (mem (c1 r)) (a r) (d (fr r))\<rparr>) else cfg r)"
    using fr_A by (intro ext) (simp add: at_def slots_def advance_def commit_def commit1_def)
  show "net_step\<^sup>*\<^sup>* cfg (\<lambda>r. if r \<in> A
      then K r vcclSuccess ((c1 r)\<lparr>mem := wr (mem (c1 r)) (a r) (d (fr r))\<rparr>) else cfg r)"
    using at_subset [of A d a c1 K cfg] fin unfolding 1 2 by simp
qed

text \<open>In terms of the call: \<open>c\<close> before, \<open>qs r\<close> the announced receives that are left after it.\<close>

lemma round_sendRecv:
  assumes ok: "\<And>r. r \<in> A \<Longrightarrow> canPost (c r) (to r) (sb r) (sn r) (fr r) (rb r) (rn r) (qs r)"
    and sz: "\<And>r. r \<in> A \<Longrightarrow> rn r = sn (fr r)"
  shows "par A (\<lambda>r. sendRecv (to r) (sb r) (sn r) (fr r) (rb r) (rn r)) c
    (\<lambda>r. (c r)\<lparr>posted := qs r, mem := wr (mem (c r)) (rb r) (rd (mem (c (fr r))) (sb (fr r)) (sn (fr r)))\<rparr>)"
proof -
  have "sendRecv (to r) (sb r) (sn r) (fr r) (rb r) (rn r) (c r) =
      advance [sendSlot (to r) (rd (mem (c r)) (sb r) (sn r)),
               recvSlot (fr r) (rb r) (length (rd (mem (c (fr r))) (sb (fr r)) (sn (fr r))))]
        ((c r)\<lparr>posted := qs r\<rparr>) Ret" if "r \<in> A" for r
    using sendRecv_posts [OF ok [OF that]] sz [OF that] by simp
  from par_ctx [OF round_run [where P = "\<lambda>r. sendRecv (to r) (sb r) (sn r) (fr r) (rb r) (rn r)"
      and c = c, OF this] refl] show ?thesis by simp
qed

end

subsection \<open>The two routings of the collectives\<close>

text \<open>A shift by \<open>s\<close> around the ring, and the exchange with \<open>r XOR m\<close> for a power of two \<open>m\<close>.\<close>

interpretation shift: routing "if 0 < s \<and> s < n then {..<n} else {}" "\<lambda>r. (r + s) mod n"
  "\<lambda>r. (r + n - s) mod n" for s n :: nat
proof
  fix r assume "r \<in> (if 0 < s \<and> s < n then {..<n} else {})"
  then have r: "r < n" "0 < s" "s < n" by (auto split: if_splits)
  then show "(r + s) mod n \<noteq> r" by (auto simp: ring_simps)
  show "((r + s) mod n + n - s) mod n = r" "((r + n - s) mod n + s) mod n = r"
    using r by (simp_all add: ring_shift)
qed (auto split: if_splits)

lemma xor_pow2_less:
  fixes r :: nat
  assumes "r < 2 ^ k" "i < k"
  shows "r XOR 2 ^ i < 2 ^ k"
proof -
  have "take_bit k (r XOR 2 ^ i) = r XOR 2 ^ i"
    using assms by (simp add: take_bit_nat_eq_self)
  then show ?thesis by (metis take_bit_nat_less_exp)
qed

interpretation pairs: routing "if i < k then {..<2 ^ k} else {}" "\<lambda>r. r XOR 2 ^ i" "\<lambda>r. r XOR 2 ^ i"
  for i k :: nat
proof
  fix r :: nat assume r: "r \<in> (if i < k then {..<2 ^ k} else {})"
  then show "r XOR 2 ^ i \<in> (if i < k then {..<2 ^ k} else {})" by (auto simp: xor_pow2_less split: if_splits)
  have "bit (r XOR 2 ^ i) i \<noteq> bit r i" by (simp add: bit_simps)
  then show "r XOR 2 ^ i \<noteq> r" by auto
  show "(r XOR 2 ^ i) XOR 2 ^ i = r" by (simp add: xor.assoc)
qed auto

end
