(* ===== verification/Vccl_Reduce_Spec.thy ===== *)
theory Vccl_Reduce_Spec
  imports Vccl_Reduce Vccl_Algebra
begin

text \<open>
  Specification and correctness of the reduction kernels. Every kernel is one write of an
  element-wise result (\<open>zipN\<close> for two operands, \<open>mapN\<close> for one), which gives its functional
  behaviour and its frame at once. The SIMD kernels apply the vector lane to the elements of the
  full vectors and the scalar code to the tail. \<open>vred\<close> is the byte-string function that
  \<open>cpuReduce\<close> computes, for every data type and operator; the collectives are specified with it.
\<close>

unbundle bit_operations_syntax

subsection \<open>Element-wise specifications\<close>

definition zipN ::
  "nat \<Rightarrow> (nat \<Rightarrow> byte list \<Rightarrow> byte list \<Rightarrow> byte list) \<Rightarrow> nat \<Rightarrow> byte list \<Rightarrow> byte list \<Rightarrow> byte list" where
  "zipN es F n xs ys =
     concat (map (\<lambda>i. F i (take es (drop (i * es) xs)) (take es (drop (i * es) ys))) [0..<n])"

definition mapN :: "nat \<Rightarrow> (byte list \<Rightarrow> byte list) \<Rightarrow> nat \<Rightarrow> byte list \<Rightarrow> byte list" where
  "mapN es G n xs = concat (map (\<lambda>i. G (take es (drop (i * es) xs))) [0..<n])"

definition lift2 :: "('a::len word \<Rightarrow> 'a word \<Rightarrow> 'a word) \<Rightarrow> byte list \<Rightarrow> byte list \<Rightarrow> byte list" where
  "lift2 f x y = bytes_of (f (word_of_bytes x) (word_of_bytes y))"

definition lift1 :: "('a::len word \<Rightarrow> 'a word) \<Rightarrow> byte list \<Rightarrow> byte list" where
  "lift1 g x = bytes_of (g (word_of_bytes x))"

text \<open>The element loop with an operation that may depend on the element's index.\<close>

definition reduceIdx ::
  "(nat \<Rightarrow> 'a::len word \<Rightarrow> 'a word \<Rightarrow> 'a word) \<Rightarrow> addr \<Rightarrow> addr \<Rightarrow> nat \<Rightarrow> mem \<Rightarrow> mem" where
  "reduceIdx g dst src n m =
     fold (\<lambda>i m. stw m dst i (g i (ldw m dst i) (ldw m src i))) [0..<n] m"

text \<open>The operation an element of a SIMD kernel undergoes.\<close>

definition vecOr :: "'b \<Rightarrow> 'b \<Rightarrow> nat \<Rightarrow> nat \<Rightarrow> 'b" where
  "vecOr lane scalar n i = (if i < 8 * (n div 8) then lane else scalar)"

definition elemFn ::
  "fpu \<Rightarrow> vcclDataType_t \<Rightarrow> vcclRedOp_t \<Rightarrow> nat \<Rightarrow> nat \<Rightarrow> byte list \<Rightarrow> byte list \<Rightarrow> byte list" where
  "elemFn fp dt op n i =
     (case dt of
        vcclInt8 \<Rightarrow> lift2 (applyOpS op :: 8 word \<Rightarrow> _)
      | vcclUint8 \<Rightarrow> lift2 (applyOpU op :: 8 word \<Rightarrow> _)
      | vcclInt32 \<Rightarrow> lift2 (applyOpS op :: 32 word \<Rightarrow> _)
      | vcclUint32 \<Rightarrow> lift2 (applyOpU op :: 32 word \<Rightarrow> _)
      | vcclInt64 \<Rightarrow> lift2 (applyOpS op :: 64 word \<Rightarrow> _)
      | vcclUint64 \<Rightarrow> lift2 (applyOpU op :: 64 word \<Rightarrow> _)
      | vcclFloat32 \<Rightarrow> lift2 (applyOpF fp op)
      | vcclFloat64 \<Rightarrow> lift2 (applyOpD fp op)
      | vcclFloat16 \<Rightarrow>
          (if vcclX86 fp \<and> op = vcclSum \<and> hasAvx2 fp \<and> hasF16C fp
           then lift2 (vecOr (\<lambda>a b. cvtps_ph fp (f_add fp (cvtph_ps fp a) (cvtph_ps fp b)))
                  (\<lambda>a b. floatToHalf (f_add fp (halfToFloat a) (halfToFloat b))) n i)
           else lift2 (\<lambda>a b. floatToHalf (applyOpF fp op (halfToFloat a) (halfToFloat b))))
      | vcclBfloat16 \<Rightarrow>
          (if vcclX86 fp \<and> op = vcclSum \<and> hasAvx2 fp
           then lift2 (vecOr (bf16Lane fp)
                  (\<lambda>a b. floatToBf16 (f_add fp (bf16ToFloat a) (bf16ToFloat b))) n i)
           else lift2 (\<lambda>a b. floatToBf16 (applyOpF fp op (bf16ToFloat a) (bf16ToFloat b))))
      | vcclNumTypes \<Rightarrow> (\<lambda>x y. []))"

definition vred ::
  "fpu \<Rightarrow> vcclDataType_t \<Rightarrow> vcclRedOp_t \<Rightarrow> nat \<Rightarrow> byte list \<Rightarrow> byte list \<Rightarrow> byte list" where
  "vred fp dt op n = zipN (vcclTypeSize dt) (elemFn fp dt op n) n"

text \<open>The scaling kernels: \<open>cpuScale\<close> multiplies the element by the factor, \<open>cpuScaleCopy\<close> the
  factor by the element, \<open>cpuScaledAccumulate\<close> adds the scaled source to the destination.\<close>

definition scaleFn :: "fpu \<Rightarrow> vcclDataType_t \<Rightarrow> 64 word \<Rightarrow> byte list \<Rightarrow> byte list" where
  "scaleFn fp dt factor =
     (case dt of
        vcclFloat32 \<Rightarrow> lift1 (\<lambda>p. f_mul fp p (d2f fp factor))
      | vcclFloat64 \<Rightarrow> lift1 (\<lambda>p. d_mul fp p factor)
      | vcclFloat16 \<Rightarrow> lift1 (\<lambda>p. floatToHalf (f_mul fp (halfToFloat p) (d2f fp factor)))
      | vcclBfloat16 \<Rightarrow> lift1 (\<lambda>p. floatToBf16 (f_mul fp (bf16ToFloat p) (d2f fp factor)))
      | _ \<Rightarrow> (\<lambda>x. []))"

definition scaleCopyFn :: "fpu \<Rightarrow> vcclDataType_t \<Rightarrow> 64 word \<Rightarrow> byte list \<Rightarrow> byte list" where
  "scaleCopyFn fp dt factor =
     (case dt of
        vcclFloat32 \<Rightarrow> lift1 (\<lambda>s. f_mul fp (d2f fp factor) s)
      | vcclFloat64 \<Rightarrow> lift1 (\<lambda>s. d_mul fp factor s)
      | vcclFloat16 \<Rightarrow> lift1 (\<lambda>s. floatToHalf (f_mul fp (d2f fp factor) (halfToFloat s)))
      | vcclBfloat16 \<Rightarrow> lift1 (\<lambda>s. floatToBf16 (f_mul fp (d2f fp factor) (bf16ToFloat s)))
      | _ \<Rightarrow> (\<lambda>x. []))"

definition accFn ::
  "fpu \<Rightarrow> vcclDataType_t \<Rightarrow> 64 word \<Rightarrow> byte list \<Rightarrow> byte list \<Rightarrow> byte list" where
  "accFn fp dt k =
     (case dt of
        vcclFloat32 \<Rightarrow> lift2 (\<lambda>d s. f_add fp d (f_mul fp (d2f fp k) s))
      | vcclFloat64 \<Rightarrow> lift2 (\<lambda>d s. d_add fp d (d_mul fp k s))
      | vcclFloat16 \<Rightarrow>
          lift2 (\<lambda>d s. floatToHalf (f_add fp (halfToFloat d) (f_mul fp (d2f fp k) (halfToFloat s))))
      | vcclBfloat16 \<Rightarrow>
          lift2 (\<lambda>d s. floatToBf16 (f_add fp (bf16ToFloat d) (f_mul fp (d2f fp k) (bf16ToFloat s))))
      | _ \<Rightarrow> (\<lambda>x y. []))"

definition vscale :: "fpu \<Rightarrow> vcclDataType_t \<Rightarrow> 64 word \<Rightarrow> nat \<Rightarrow> byte list \<Rightarrow> byte list" where
  "vscale fp dt k n = mapN (vcclTypeSize dt) (scaleFn fp dt k) n"

definition vscaleCopy :: "fpu \<Rightarrow> vcclDataType_t \<Rightarrow> 64 word \<Rightarrow> nat \<Rightarrow> byte list \<Rightarrow> byte list" where
  "vscaleCopy fp dt k n = mapN (vcclTypeSize dt) (scaleCopyFn fp dt k) n"

definition vacc ::
  "fpu \<Rightarrow> vcclDataType_t \<Rightarrow> 64 word \<Rightarrow> nat \<Rightarrow> byte list \<Rightarrow> byte list \<Rightarrow> byte list" where
  "vacc fp dt k n = zipN (vcclTypeSize dt) (\<lambda>_. accFn fp dt k) n"

subsection \<open>Generic facts\<close>

lemma length_bytes_of [simp]: "length (bytes_of (w :: 'a::len word)) = LENGTH('a) div 8"
  by (simp add: bytes_of_def)

lemma length_lift2 [simp]:
  "length (lift2 (f :: 'a::len word \<Rightarrow> 'a word \<Rightarrow> 'a word) x y) = LENGTH('a) div 8"
  by (simp add: lift2_def)

lemma length_lift1 [simp]: "length (lift1 (g :: 'a::len word \<Rightarrow> 'a word) x) = LENGTH('a) div 8"
  by (simp add: lift1_def)

lemma length_concat_const: "(\<And>i. length (f i) = c) \<Longrightarrow> length (concat (map f [0..<n])) = n * c"
  by (induction n) auto

lemma length_zipN [simp]: "(\<And>i x y. length (F i x y) = es) \<Longrightarrow> length (zipN es F n xs ys) = n * es"
  by (simp add: zipN_def length_concat_const)

lemma length_mapN [simp]: "(\<And>x. length (G x) = es) \<Longrightarrow> length (mapN es G n xs) = n * es"
  by (simp add: mapN_def length_concat_const)

lemma elem_le: "i < n \<Longrightarrow> i * es + es \<le> n * (es::nat)"
  by (metis Suc_leI add.commute mult_Suc mult_le_mono1)

lemma rd_elem: "i < k \<Longrightarrow> take es (drop (i * es) (rd m p (k * es))) = rd m (p + i * es) es"
  by (rule rd_sub) (rule elem_le)

lemma zipN_rd:
  "zipN es F n (rd m p (n * es)) (rd m q (n * es)) =
     concat (map (\<lambda>i. F i (rd m (p + i * es) es) (rd m (q + i * es) es)) [0..<n])"
  unfolding zipN_def by (rule arg_cong [where f = concat], rule map_cong) (simp_all add: rd_elem)

lemma mapN_rd:
  "mapN es G n (rd m p (n * es)) = concat (map (\<lambda>i. G (rd m (p + i * es) es)) [0..<n])"
  unfolding mapN_def by (rule arg_cong [where f = concat], rule map_cong) (simp_all add: rd_elem)

lemma wr_append: "wr (wr m p xs) (p + length xs) ys = wr m p (xs @ ys)"
  by (rule ext) (auto simp: wr_def nth_append)

subsection \<open>The element loops are one write\<close>

lemma stw_ldw_lift2:
  "stw m dst i (f (ldw m dst i) (ldw m src i) :: 'a::len word) =
     wr m (dst + i * (LENGTH('a) div 8))
       (lift2 f (rd m (dst + i * (LENGTH('a) div 8)) (LENGTH('a) div 8))
                (rd m (src + i * (LENGTH('a) div 8)) (LENGTH('a) div 8)))"
  by (simp add: stw_def ldw_def lift2_def)

lemma stw_ldw_lift1:
  "stw m dst i (g (ldw m src i) :: 'a::len word) =
     wr m (dst + i * (LENGTH('a) div 8))
       (lift1 g (rd m (src + i * (LENGTH('a) div 8)) (LENGTH('a) div 8)))"
  by (simp add: stw_def ldw_def lift1_def)

lemma reduceIdx_wr:
  fixes g :: "nat \<Rightarrow> 'a::len word \<Rightarrow> 'a word \<Rightarrow> 'a word"
  assumes "disj dst (n * (LENGTH('a) div 8)) src (n * (LENGTH('a) div 8))"
  shows "reduceIdx g dst src n m =
     wr m dst (zipN (LENGTH('a) div 8) (\<lambda>i. lift2 (g i)) n
       (rd m dst (n * (LENGTH('a) div 8))) (rd m src (n * (LENGTH('a) div 8))))"
  using assms
proof (induction n)
  case 0
  then show ?case by (simp add: reduceIdx_def zipN_def)
next
  case (Suc k)
  let ?es = "LENGTH('a) div 8"
  let ?Z = "concat (map (\<lambda>i. lift2 (g i) (rd m (dst + i * ?es) ?es) (rd m (src + i * ?es) ?es)) [0..<k])"
  let ?m = "wr m dst ?Z"
  have "disj dst (k * ?es) src (k * ?es)"
    using disj_sub_both [OF Suc.prems, of dst "k * ?es" src "k * ?es"] by simp
  then have m: "reduceIdx g dst src k m = ?m"
    using Suc.IH by (simp add: zipN_rd)
  have lZ: "length ?Z = k * ?es" by (rule length_concat_const) simp
  have rdD: "rd ?m (dst + k * ?es) ?es = rd m (dst + k * ?es) ?es"
    by (rule rd_wr_disj) (simp add: lZ disj_def)
  have rdS: "rd ?m (src + k * ?es) ?es = rd m (src + k * ?es) ?es"
    by (rule rd_wr_disj) (use disj_sub_both [OF Suc.prems, of dst "k * ?es" "src + k * ?es" ?es] in
      \<open>simp add: lZ\<close>)
  have "reduceIdx g dst src (Suc k) m = stw ?m dst k (g k (ldw ?m dst k) (ldw ?m src k))"
    using m by (simp add: reduceIdx_def)
  also have "\<dots> = wr ?m (dst + length ?Z)
      (lift2 (g k) (rd m (dst + k * ?es) ?es) (rd m (src + k * ?es) ?es))"
    by (simp only: stw_ldw_lift2 rdD rdS lZ)
  finally show ?case
    by (simp add: wr_append zipN_rd del: mult_Suc)
qed

lemma reduceNative_idx: "reduceNative f = reduceIdx (\<lambda>_. f)"
  by (simp add: reduceNative_def reduceIdx_def fun_eq_iff)

lemma scaleLoop_wr:
  fixes g :: "'a::len word \<Rightarrow> 'a word"
  assumes "dst = src \<or> disj dst (n * (LENGTH('a) div 8)) src (n * (LENGTH('a) div 8))"
  shows "scaleLoop g dst src n m =
     wr m dst (mapN (LENGTH('a) div 8) (lift1 g) n (rd m src (n * (LENGTH('a) div 8))))"
  using assms
proof (induction n)
  case 0
  then show ?case by (simp add: scaleLoop_def mapN_def)
next
  case (Suc k)
  let ?es = "LENGTH('a) div 8"
  let ?Z = "concat (map (\<lambda>i. lift1 g (rd m (src + i * ?es) ?es)) [0..<k])"
  let ?m = "wr m dst ?Z"
  have "dst = src \<or> disj dst (k * ?es) src (k * ?es)"
    using Suc.prems disj_sub_both [of dst "Suc k * ?es" src "Suc k * ?es" dst "k * ?es" src "k * ?es"]
    by auto
  then have m: "scaleLoop g dst src k m = ?m"
    using Suc.IH by (simp add: mapN_rd)
  have lZ: "length ?Z = k * ?es" by (rule length_concat_const) simp
  have rdS: "rd ?m (src + k * ?es) ?es = rd m (src + k * ?es) ?es"
  proof (rule rd_wr_disj)
    show "disj dst (length ?Z) (src + k * ?es) ?es"
      using Suc.prems disj_sub_both [of dst "Suc k * ?es" src "Suc k * ?es" dst "k * ?es" "src + k * ?es" ?es]
      by (auto simp: lZ disj_def)
  qed
  have "scaleLoop g dst src (Suc k) m = stw ?m dst k (g (ldw ?m src k))"
    using m by (simp add: scaleLoop_def)
  also have "\<dots> = wr ?m (dst + length ?Z) (lift1 g (rd m (src + k * ?es) ?es))"
    by (simp only: stw_ldw_lift1 rdS lZ)
  finally show ?case
    by (simp add: wr_append mapN_rd del: mult_Suc)
qed

subsection \<open>The SIMD kernels\<close>

lemma stw_shift: "stw m d (i + l) (w :: 'a::len word) = stw m (d + i * (LENGTH('a) div 8)) l w"
  by (simp add: stw_def algebra_simps)

lemma ldw_shift: "(ldw m d (i + l) :: 'a::len word) = ldw m (d + i * (LENGTH('a) div 8)) l"
  by (simp add: ldw_def algebra_simps)

lemma fold_elems_shift:
  fixes g :: "nat \<Rightarrow> 'a::len word \<Rightarrow> 'a word \<Rightarrow> 'a word"
  shows "fold (\<lambda>i m. stw m d i (g i (ldw m d i) (ldw m s i))) [i..<i + k] m =
     reduceIdx (\<lambda>l. g (i + l)) (d + i * (LENGTH('a) div 8)) (s + i * (LENGTH('a) div 8)) k m"
proof -
  have "[i..<i + k] = map ((+) i) [0..<k]"
    by (simp add: list_eq_iff_nth_eq)
  then show ?thesis
    by (simp add: reduceIdx_def fold_map comp_def stw_shift ldw_shift del: upt_Suc)
qed

lemma reduceIdx_split:
  fixes g :: "nat \<Rightarrow> 'a::len word \<Rightarrow> 'a word \<Rightarrow> 'a word"
  shows "reduceIdx g d s (i + k) m =
     reduceIdx (\<lambda>l. g (i + l)) (d + i * (LENGTH('a) div 8)) (s + i * (LENGTH('a) div 8)) k
       (reduceIdx g d s i m)"
  unfolding fold_elems_shift [symmetric]
  by (simp add: reduceIdx_def upt_add_eq_append [of 0 i k, simplified])

lemma simd8_block:
  fixes g :: "nat \<Rightarrow> 'a::len word \<Rightarrow> 'a word \<Rightarrow> 'a word"
  assumes "disj (d + i * (LENGTH('a) div 8)) (8 * (LENGTH('a) div 8))
             (s + i * (LENGTH('a) div 8)) (8 * (LENGTH('a) div 8))"
    and "\<And>l. l < 8 \<Longrightarrow> g (i + l) = lane"
  shows "simd8 lane d s i m =
    reduceIdx (\<lambda>l. g (i + l)) (d + i * (LENGTH('a) div 8)) (s + i * (LENGTH('a) div 8)) 8 m"
  unfolding reduceIdx_wr [OF assms(1)] zipN_rd simd8_def
proof (rule arg_cong [where f = "\<lambda>xs. wr m (d + i * (LENGTH('a) div 8)) (concat xs)"], rule map_cong)
  fix l assume "l \<in> set [0..<8::nat]"
  then have "g (i + l) = lane" using assms(2) by simp
  then show "bytes_of (lane (ldw m d (i + l)) (ldw m s (i + l))) =
      lift2 (g (i + l)) (rd m (d + i * (LENGTH('a) div 8) + l * (LENGTH('a) div 8)) (LENGTH('a) div 8))
        (rd m (s + i * (LENGTH('a) div 8) + l * (LENGTH('a) div 8)) (LENGTH('a) div 8))"
    by (simp add: lift2_def ldw_shift) (simp add: ldw_def)
qed simp

lemma vecLoop_reduce:
  fixes lane :: "'a::len word \<Rightarrow> 'a word \<Rightarrow> 'a word"
  assumes dis: "disj d (n * (LENGTH('a) div 8)) s (n * (LENGTH('a) div 8))"
    and "8 * b \<le> n"
  shows "vecLoop (8 * b) n (simd8 lane d s) (reduceIdx (vecOr lane scalar n) d s (8 * b) m) =
    (8 * (n div 8), reduceIdx (vecOr lane scalar n) d s (8 * (n div 8)) m)"
  using assms(2)
proof (induction "n - 8 * b" arbitrary: b rule: less_induct)
  case less
  let ?es = "LENGTH('a) div 8" and ?g = "vecOr lane scalar n"
  show ?case
  proof (cases "8 * b + 8 \<le> n")
    case True
    then have "(8 * b + 8) * ?es \<le> n * ?es" by (rule mult_le_mono1)
    then have le: "8 * b * ?es + 8 * ?es \<le> n * ?es" by (simp only: add_mult_distrib)
    have d8: "disj (d + 8 * b * ?es) (8 * ?es) (s + 8 * b * ?es) (8 * ?es)"
      by (rule disj_sub_both [OF dis]) (use le in linarith)+
    have "?g (8 * b + l) = lane" if "l < 8" for l
    proof -
      have "Suc b \<le> n div 8" using True by (simp add: less_eq_div_iff_mult_less_eq)
      then have "8 * b + l < 8 * (n div 8)" using that by linarith
      then show ?thesis by (simp add: vecOr_def)
    qed
    then have "simd8 lane d s (8 * b) (reduceIdx ?g d s (8 * b) m) = reduceIdx ?g d s (8 * b + 8) m"
      by (simp only: simd8_block [OF d8, where g = ?g] reduceIdx_split)
    moreover have "vecLoop (8 * Suc b) n (simd8 lane d s) (reduceIdx ?g d s (8 * Suc b) m) =
        (8 * (n div 8), reduceIdx ?g d s (8 * (n div 8)) m)"
      by (rule less.hyps) (use True in auto)
    ultimately show ?thesis using True
      by (simp add: vecLoop.simps [of "8 * b" n] add.commute)
  next
    case False
    with less.prems have "b = n div 8" by linarith
    with False show ?thesis by (subst vecLoop.simps) simp
  qed
qed

lemma simdKernel_idx:
  fixes lane scalar :: "'a::len word \<Rightarrow> 'a word \<Rightarrow> 'a word"
  assumes dis: "disj d (n * (LENGTH('a) div 8)) s (n * (LENGTH('a) div 8))"
  shows "simdKernel lane scalar d s n m = reduceIdx (vecOr lane scalar n) d s n m"
proof -
  let ?g = "vecOr lane scalar n" and ?i = "8 * (n div 8)"
  have vl: "vecLoop 0 n (simd8 lane d s) m = (?i, reduceIdx ?g d s ?i m)"
    using vecLoop_reduce [OF dis, of 0 lane scalar m] by (simp add: reduceIdx_def)
  have "?g j = scalar" if "j \<in> set [?i..<n]" for j
    using that by (simp add: vecOr_def)
  then have "simdKernel lane scalar d s n m =
      fold (\<lambda>i m. stw m d i (?g i (ldw m d i) (ldw m s i))) [?i..<n] (reduceIdx ?g d s ?i m)"
    unfolding simdKernel_def vl prod.case by (intro fold_cong) simp_all
  also have "\<dots> = reduceIdx ?g d s (?i + (n - ?i)) m"
    unfolding reduceIdx_split fold_elems_shift [symmetric] by simp
  finally show ?thesis by simp
qed

lemma vecOr_same [simp]: "vecOr f f n = (\<lambda>_. f)"
  by (simp add: vecOr_def fun_eq_iff)

subsection \<open>The dispatchers\<close>

lemma elemFn_half:
  "elemFn fp vcclFloat16 op n =
     (if vcclX86 fp \<and> op = vcclSum \<and> hasAvx2 fp \<and> hasF16C fp
      then (\<lambda>i. lift2 (vecOr (\<lambda>a b. cvtps_ph fp (f_add fp (cvtph_ps fp a) (cvtph_ps fp b)))
             (\<lambda>a b. floatToHalf (f_add fp (halfToFloat a) (halfToFloat b))) n i))
      else (\<lambda>i. lift2 (\<lambda>a b. floatToHalf (applyOpF fp op (halfToFloat a) (halfToFloat b)))))"
  by (rule ext) (auto simp: elemFn_def)

lemma elemFn_bf16:
  "elemFn fp vcclBfloat16 op n =
     (if vcclX86 fp \<and> op = vcclSum \<and> hasAvx2 fp
      then (\<lambda>i. lift2 (vecOr (bf16Lane fp)
             (\<lambda>a b. floatToBf16 (f_add fp (bf16ToFloat a) (bf16ToFloat b))) n i))
      else (\<lambda>i. lift2 (\<lambda>a b. floatToBf16 (applyOpF fp op (bf16ToFloat a) (bf16ToFloat b)))))"
  by (rule ext) (auto simp: elemFn_def)

lemma length_elemFn: "dt \<noteq> vcclNumTypes \<Longrightarrow> length (elemFn fp dt op n i x y) = vcclTypeSize dt"
  by (cases dt) (simp_all add: elemFn_def)

lemma length_vred [simp]: "dt \<noteq> vcclNumTypes \<Longrightarrow> length (vred fp dt op n x y) = n * vcclTypeSize dt"
  by (simp add: vred_def length_elemFn)

lemmas kernel_defs = f32Sum_def f32Mul_def f32Max_def f32Min_def f16Sum_def bf16Sum_def reduce16_def

lemma f32SimdReduce_idx:
  assumes "disj dst (n * 4) src (n * 4)" "0 \<le> op" "op < vcclNumOps"
  shows "f32SimdReduce fp op dst src n m = Some (reduceIdx (\<lambda>_. applyOpF fp op) dst src n m)"
proof -
  have "op \<in> {vcclSum, vcclProd, vcclMax, vcclMin, vcclAvg}"
    using assms(2,3) by (auto simp: redop_defs)
  then show ?thesis
    using simdKernel_idx [where 'a = 32, of dst n src] assms(1)
    by (auto simp: f32SimdReduce_def kernel_defs applyOpF_def applyOp_def [abs_def] redop_defs)
qed

theorem cpuReduce_wr:
  assumes "dt \<noteq> vcclNumTypes" "0 \<le> op" "op < vcclNumOps"
    and dis: "disj dst (n * vcclTypeSize dt) src (n * vcclTypeSize dt)"
  shows "cpuReduce fp dt op dst src n m = (vcclSuccess,
     wr m dst (vred fp dt op n (rd m dst (n * vcclTypeSize dt)) (rd m src (n * vcclTypeSize dt))))"
proof (cases dt)
  case vcclFloat32
  then have "disj dst (n * 4) src (n * 4)" using dis by simp
  then show ?thesis
    using assms(2,3) vcclFloat32 f32SimdReduce_idx [of dst n src op fp m]
    by (simp add: cpuReduce_def reduceNative_idx reduceIdx_wr vred_def elemFn_def [abs_def])
next
  case vcclFloat16
  then have "disj dst (n * 2) src (n * 2)" using dis by simp
  then show ?thesis
    using assms(2,3) vcclFloat16
    by (simp add: cpuReduce_def kernel_defs simdKernel_idx reduceNative_idx reduceIdx_wr vred_def
        elemFn_half)
next
  case vcclBfloat16
  then have "disj dst (n * 2) src (n * 2)" using dis by simp
  then show ?thesis
    using assms(2,3) vcclBfloat16
    by (simp add: cpuReduce_def kernel_defs simdKernel_idx reduceNative_idx reduceIdx_wr vred_def
        elemFn_bf16)
qed (use assms in \<open>simp_all add: cpuReduce_def reduceNative_idx reduceIdx_wr vred_def elemFn_def [abs_def]\<close>)

lemma isFloatType_cases:
  "isFloatType dt \<Longrightarrow> (dt = vcclFloat16 \<Longrightarrow> P) \<Longrightarrow> (dt = vcclBfloat16 \<Longrightarrow> P) \<Longrightarrow> (dt = vcclFloat32 \<Longrightarrow> P)
    \<Longrightarrow> (dt = vcclFloat64 \<Longrightarrow> P) \<Longrightarrow> P"
  by (auto simp: isFloatType_def)

lemma length_vscale [simp]: "isFloatType dt \<Longrightarrow> length (vscale fp dt k n x) = n * vcclTypeSize dt"
  by (erule isFloatType_cases) (simp_all add: vscale_def scaleFn_def)

lemma length_vscaleCopy [simp]:
  "isFloatType dt \<Longrightarrow> length (vscaleCopy fp dt k n x) = n * vcclTypeSize dt"
  by (erule isFloatType_cases) (simp_all add: vscaleCopy_def scaleCopyFn_def)

lemma length_vacc [simp]: "isFloatType dt \<Longrightarrow> length (vacc fp dt k n x y) = n * vcclTypeSize dt"
  by (erule isFloatType_cases) (simp_all add: vacc_def accFn_def)

theorem cpuScale_wr:
  assumes "isFloatType dt"
  shows "cpuScale fp dt dst n k m =
     (vcclSuccess, wr m dst (vscale fp dt k n (rd m dst (n * vcclTypeSize dt))))"
  using assms
  by (rule isFloatType_cases)
    (simp_all add: cpuScale_def Let_def scaleLoop_wr vscale_def scaleFn_def)

theorem cpuScaleCopy_wr:
  assumes "isFloatType dt"
    and "dst = src \<or> disj dst (n * vcclTypeSize dt) src (n * vcclTypeSize dt)"
  shows "cpuScaleCopy fp dt dst src n k m =
     (vcclSuccess, wr m dst (vscaleCopy fp dt k n (rd m src (n * vcclTypeSize dt))))"
  using assms(1)
  by (rule isFloatType_cases)
    (use assms(2) in \<open>simp_all add: cpuScaleCopy_def Let_def scaleLoop_wr vscaleCopy_def scaleCopyFn_def\<close>)

theorem cpuScaledAccumulate_wr:
  assumes "isFloatType dt" "disj dst (n * vcclTypeSize dt) src (n * vcclTypeSize dt)"
  shows "cpuScaledAccumulate fp dt dst src n k m =
     (vcclSuccess, wr m dst (vacc fp dt k n (rd m dst (n * vcclTypeSize dt))
        (rd m src (n * vcclTypeSize dt))))"
  using assms(1)
  by (rule isFloatType_cases)
    (use assms(2) in \<open>simp_all add: cpuScaledAccumulate_def Let_def reduceNative_idx reduceIdx_wr
      vacc_def accFn_def\<close>)

text \<open>Errors: an operator outside the built-in codes, or a type a kernel does not support, leaves
  memory unchanged.\<close>

lemma cpuReduce_error:
  "op < 0 \<or> op \<ge> vcclNumOps \<or> dt = vcclNumTypes \<Longrightarrow>
   cpuReduce fp dt op dst src n m = (vcclInvalidArgument, m)"
  by (auto simp: cpuReduce_def)

lemma scale_error:
  assumes "\<not> isFloatType dt"
  shows "cpuScale fp dt dst n k m = (vcclInvalidArgument, m)"
    and "cpuScaleCopy fp dt dst src n k m = (vcclInvalidArgument, m)"
    and "cpuScaledAccumulate fp dt dst src n k m = (vcclInvalidArgument, m)"
  using assms
  by (cases dt; simp add: isFloatType_def cpuScale_def cpuScaleCopy_def cpuScaledAccumulate_def)+

end
