(* ===== verification/Vccl_Phase.thy ===== *)
theory Vccl_Phase
  imports Vccl_Par Vccl_Reduce_Spec
begin

text \<open>
  Assertions over the memories of all ranks. Between the calls that change the communicator, the
  state of the ranks is given by their memories \<open>M\<close> and announced receives \<open>q\<close>; the contexts are
  \<open>upd c0 M q\<close>. \<open>phase A c0 q P q' J J'\<close> is a total-correctness triple: from every \<open>M\<close> with \<open>J M\<close>
  the ranks of \<open>A\<close> can complete \<open>P\<close> and reach memories with \<open>J'\<close>, and the announced receives
  become \<open>q'\<close>. The rules below reduce each collective to statements about memories.
\<close>

unbundle bit_operations_syntax

definition upd :: "(nat \<Rightarrow> ctx) \<Rightarrow> (nat \<Rightarrow> mem) \<Rightarrow> (nat \<Rightarrow> RecvReq list) \<Rightarrow> nat \<Rightarrow> ctx" where
  "upd c0 M q = (\<lambda>r. (c0 r)\<lparr>mem := M r, posted := q r\<rparr>)"

definition phase ::
  "nat set \<Rightarrow> (nat \<Rightarrow> ctx) \<Rightarrow> (nat \<Rightarrow> RecvReq list) \<Rightarrow> (nat \<Rightarrow> cmd) \<Rightarrow> (nat \<Rightarrow> RecvReq list)
    \<Rightarrow> ((nat \<Rightarrow> mem) \<Rightarrow> bool) \<Rightarrow> ((nat \<Rightarrow> mem) \<Rightarrow> bool) \<Rightarrow> bool" where
  "phase A c0 q P q' J J' \<longleftrightarrow> (\<forall>M. J M \<longrightarrow> (\<exists>M'. par A P (upd c0 M q) (upd c0 M' q') \<and> J' M'))"

definition world :: "nat \<Rightarrow> (nat \<Rightarrow> ctx) \<Rightarrow> bool" where
  "world n c0 \<longleftrightarrow> (\<forall>r<n. rank (comm (c0 r)) = r \<and> nranks (comm (c0 r)) = n \<and>
     transport (comm (c0 r)) \<noteq> None)"

lemma upd_sel [simp]:
  "mem (upd c0 M q r) = M r" "posted (upd c0 M q r) = q r" "comm (upd c0 M q r) = comm (c0 r)"
  "env (upd c0 M q r) = env (c0 r)" "fp (upd c0 M q r) = fp (c0 r)" "alloc (upd c0 M q r) = alloc (c0 r)"
  by (simp_all add: upd_def)

lemma upd_mem [simp]: "(upd c0 M q r)\<lparr>mem := m\<rparr> = upd c0 (M(r := m)) q r"
  by (simp add: upd_def)

lemma phaseI:
  "(\<And>M. J M \<Longrightarrow> \<exists>M'. par A P (upd c0 M q) (upd c0 M' q') \<and> J' M') \<Longrightarrow> phase A c0 q P q' J J'"
  by (simp add: phase_def)

lemma phaseD: "phase A c0 q P q' J J' \<Longrightarrow> J M \<Longrightarrow> \<exists>M'. par A P (upd c0 M q) (upd c0 M' q') \<and> J' M'"
  by (simp add: phase_def)

subsection \<open>Composition\<close>

lemma phase_conseq:
  "phase A c0 q P q' J J' \<Longrightarrow> (\<And>M. I M \<Longrightarrow> J M) \<Longrightarrow> (\<And>M. J' M \<Longrightarrow> I' M) \<Longrightarrow> phase A c0 q P q' I I'"
  unfolding phase_def by blast

lemma phase_cong:
  assumes "\<And>r M. r \<in> A \<Longrightarrow> P r (upd c0 M q r) = P' r (upd c0 M q r)"
  shows "phase A c0 q P q' J J' \<longleftrightarrow> phase A c0 q P' q' J J'"
proof -
  have "par A P (upd c0 M q) c' \<longleftrightarrow> par A P' (upd c0 M q) c'" for M c'
    using assms by (intro par_cong) auto
  then show ?thesis by (simp add: phase_def)
qed

lemma phase_ok: "phase A c0 q (\<lambda>r. ok) q J J"
  unfolding phase_def using par_ok by blast

lemma phase_check:
  "phase A c0 q P q1 J J1 \<Longrightarrow> phase A c0 q1 Q q2 J1 J2 \<Longrightarrow>
   phase A c0 q (\<lambda>r. check (P r) (Q r)) q2 J J2"
  unfolding phase_def using par_check by meson

lemma phase_last: "phase A c0 q P q' J J' \<Longrightarrow> phase A c0 q (\<lambda>r. check (P r) ok) q' J J'"
  using phase_check phase_ok by blast

lemma phase_vseq_map:
  assumes "\<And>i. i < length xs \<Longrightarrow> phase A c0 (q i) (\<lambda>r. f r (xs ! i)) (q (Suc i)) (J i) (J (Suc i))"
  shows "phase A c0 (q 0) (\<lambda>r. vseq (map (f r) xs)) (q (length xs)) (J 0) (J (length xs))"
  using assms
proof (induction xs arbitrary: q J)
  case Nil
  then show ?case by (simp add: phase_ok)
next
  case (Cons x xs)
  have "phase A c0 (q 0) (\<lambda>r. f r x) (q 1) (J 0) (J 1)" using Cons.prems [of 0] by simp
  moreover have "phase A c0 (q 1) (\<lambda>r. vseq (map (f r) xs)) (q (Suc (length xs))) (J 1) (J (Suc (length xs)))"
    using Cons.IH [of "\<lambda>i. q (Suc i)" "\<lambda>i. J (Suc i)"] Cons.prems [of "Suc _"] by simp
  ultimately show ?case by (simp add: phase_check)
qed

lemma phase_loop:
  assumes "\<And>s. s < n \<Longrightarrow> phase A c0 (q s) (\<lambda>r. body r s) (q (Suc s)) (J s) (J (Suc s))"
  shows "phase A c0 (q 0) (\<lambda>r. loop n (body r)) (q n) (J 0) (J n)"
  using phase_vseq_map [of "[0..<n]" A c0 q body J] assms by (simp add: loop_def)

lemma phase_local:
  assumes "\<And>M r. J M \<Longrightarrow> r \<in> A \<Longrightarrow> P r (upd c0 M q r) = Ret vcclSuccess (upd c0 (F M) q' r)"
    and "\<And>M. J M \<Longrightarrow> J' (F M)"
  shows "phase A c0 q P q' J J'"
  using assms par_local unfolding phase_def by blast

text \<open>Ranks of \<open>B\<close> that have nothing to do in a phase of \<open>A\<close>.\<close>

lemma phase_extend:
  assumes "phase A c0 q P q' J J'" "A \<inter> B = {}"
    and "\<And>M r. r \<in> B \<Longrightarrow> P r (upd c0 M q r) = Ret vcclSuccess (upd c0 M q' r)"
    and J': "\<And>M M'. (\<And>r. r \<in> A \<Longrightarrow> M r = M' r) \<Longrightarrow> J' M \<Longrightarrow> J' M'"
    and JB: "\<And>M M'. (\<And>r. r \<in> B \<Longrightarrow> M r = M' r) \<Longrightarrow> JB M \<Longrightarrow> JB M'"
  shows "phase (A \<union> B) c0 q P q' (\<lambda>M. J M \<and> JB M) (\<lambda>M. J' M \<and> JB M)"
proof (rule phaseI)
  fix M assume J: "J M \<and> JB M"
  then obtain M' where M': "par A P (upd c0 M q) (upd c0 M' q')" "J' M'" using phaseD [OF assms(1)] by blast
  have "par B P (upd c0 M q) (upd c0 M q')" using assms(3) by (rule par_local)
  from par_union [OF M'(1) this assms(2)]
  have "par (A \<union> B) P (upd c0 M q) (upd c0 (\<lambda>r. if r \<in> A then M' r else M r) q')"
    by (rule par_ctx) (auto simp: upd_def)
  moreover have "J' (\<lambda>r. if r \<in> A then M' r else M r)" by (rule J' [OF _ M'(2)]) simp
  moreover have "JB (\<lambda>r. if r \<in> A then M' r else M r)"
    by (rule JB [of M]) (use assms(2) J in auto)
  ultimately show "\<exists>M'. par (A \<union> B) P (upd c0 M q) (upd c0 M' q') \<and> J' M' \<and> JB M'" by blast
qed

subsection \<open>Announcing receives\<close>

text \<open>The announced receives that are left when the first \<open>i\<close> of \<open>reqs\<close> have been consumed.\<close>

definition postedFrom :: "RecvReq list \<Rightarrow> nat \<Rightarrow> RecvReq list" where
  "postedFrom reqs i = filter (\<lambda>q. rqBytes q \<noteq> 0) (drop i reqs)"

lemma postedFrom_end [simp]: "length reqs \<le> i \<Longrightarrow> postedFrom reqs i = []"
  by (simp add: postedFrom_def)

lemma freeOf_postedFrom:
  "(\<And>j. i \<le> j \<Longrightarrow> j < length reqs \<Longrightarrow> disj (rqBuf (reqs ! j)) (rqBytes (reqs ! j)) p n) \<Longrightarrow>
   freeOf (postedFrom reqs i) p n"
proof -
  assume *: "\<And>j. i \<le> j \<Longrightarrow> j < length reqs \<Longrightarrow> disj (rqBuf (reqs ! j)) (rqBytes (reqs ! j)) p n"
  have "disj (rqBuf x) (rqBytes x) p n" if "x \<in> set (drop i reqs)" for x
  proof -
    obtain k where "k < length (drop i reqs)" "x = drop i reqs ! k"
      using \<open>x \<in> set (drop i reqs)\<close> by (metis in_set_conv_nth)
    then show ?thesis using * [of "i + k"] by simp
  qed
  then show ?thesis by (simp add: freeOf_def postedFrom_def list_all_iff)
qed

lemma consume_postedFrom:
  assumes "i < length reqs" "reqs ! i = \<lparr>rqPeer = p, rqBuf = a, rqBytes = n\<rparr>"
  shows "if n = 0 then postedFrom reqs (Suc i) = postedFrom reqs i
         else consume p a n (postedFrom reqs i) = Some (postedFrom reqs (Suc i))"
  using assms by (simp add: postedFrom_def flip: Cons_nth_drop_Suc)

lemma reqsDisjointI:
  "(\<And>i j. i < j \<Longrightarrow> j < length qs \<Longrightarrow>
     disj (rqBuf (qs ! i)) (rqBytes (qs ! i)) (rqBuf (qs ! j)) (rqBytes (qs ! j))) \<Longrightarrow> reqsDisjoint qs"
proof (induction qs)
  case (Cons q qs)
  have "disj (rqBuf q) (rqBytes q) (rqBuf x) (rqBytes x)" if "x \<in> set qs" for x
  proof -
    obtain k where "k < length qs" "x = qs ! k" using \<open>x \<in> set qs\<close> by (metis in_set_conv_nth)
    then show ?thesis using Cons.prems [of 0 "Suc k"] by simp
  qed
  moreover have "reqsDisjoint qs" using Cons.IH Cons.prems [of "Suc _" "Suc _"] by simp
  ultimately show ?case by (simp add: list_all_iff)
qed simp

lemma reqsDisjoint_filter: "reqsDisjoint qs \<Longrightarrow> reqsDisjoint (filter P qs)"
  by (induction qs) (auto simp: list_all_iff)

lemma phase_postRecvs_list:
  assumes "\<And>r. r \<in> A \<Longrightarrow> transport (comm (c0 r)) \<noteq> None \<and> reqsDisjoint (reqs r) \<and>
    list_all (\<lambda>q. peerOk (comm (c0 r)) (rqPeer q)) (reqs r)"
  shows "phase A c0 (\<lambda>_. []) (\<lambda>r. postRecvs (reqs r)) (\<lambda>r. postedFrom (reqs r) 0) J J"
proof (rule phase_local [where F = "\<lambda>M. M"])
  fix M r assume r: "r \<in> A"
  then have "reqsDisjoint (filter (\<lambda>q. rqBytes q \<noteq> 0) (reqs r))" using assms by (intro reqsDisjoint_filter) simp
  then show "postRecvs (reqs r) (upd c0 M (\<lambda>_. []) r) =
      Ret vcclSuccess (upd c0 M (\<lambda>r. postedFrom (reqs r) 0) r)"
    using assms [OF r]
    by (auto simp: postRecvs_def Let_def postedFrom_def busy_freeOf list_all_iff)
      (simp add: upd_def)
qed simp

lemma phase_postRecvs:
  assumes "\<And>r. r \<in> A \<Longrightarrow> transport (comm (c0 r)) \<noteq> None"
    and "\<And>r i. r \<in> A \<Longrightarrow> i < length (reqs r) \<Longrightarrow> peerOk (comm (c0 r)) (rqPeer (reqs r ! i))"
    and "\<And>r i j. r \<in> A \<Longrightarrow> i < j \<Longrightarrow> j < length (reqs r) \<Longrightarrow>
      disj (rqBuf (reqs r ! i)) (rqBytes (reqs r ! i)) (rqBuf (reqs r ! j)) (rqBytes (reqs r ! j))"
  shows "phase A c0 (\<lambda>_. []) (\<lambda>r. postRecvs (reqs r)) (\<lambda>r. postedFrom (reqs r) 0) J J"
  using assms by (intro phase_postRecvs_list conjI reqsDisjointI) (auto simp: list_all_length)

subsection \<open>Rounds\<close>

text \<open>The side conditions of a round that do not depend on memory.\<close>

definition roundOk ::
  "nat set \<Rightarrow> (nat \<Rightarrow> ctx) \<Rightarrow> (nat \<Rightarrow> nat) \<Rightarrow> (nat \<Rightarrow> nat) \<Rightarrow> (nat \<Rightarrow> addr) \<Rightarrow> (nat \<Rightarrow> nat) \<Rightarrow>
   (nat \<Rightarrow> addr) \<Rightarrow> (nat \<Rightarrow> nat) \<Rightarrow> (nat \<Rightarrow> RecvReq list) \<Rightarrow> (nat \<Rightarrow> RecvReq list) \<Rightarrow> bool" where
  "roundOk A c0 to fr sb sn rb rn q q' \<longleftrightarrow>
     (\<forall>r\<in>A. transport (comm (c0 r)) \<noteq> None \<and> \<not> dropsCompletion ((c0 r)\<lparr>posted := q r\<rparr>) (to r) (sn r) (fr r) \<and>
        peerOk (comm (c0 r)) (to r) \<and> peerOk (comm (c0 r)) (fr r) \<and>
        rn r = sn (fr r) \<and> disj (sb r) (sn r) (rb r) (rn r) \<and>
        (if rn r = 0 then q' r = q r else consume (fr r) (rb r) (rn r) (q r) = Some (q' r)) \<and>
        freeOf (q' r) (sb r) (sn r) \<and> freeOf (q' r) (rb r) (rn r))"

definition roundMem ::
  "(nat \<Rightarrow> nat) \<Rightarrow> (nat \<Rightarrow> addr) \<Rightarrow> (nat \<Rightarrow> nat) \<Rightarrow> (nat \<Rightarrow> addr) \<Rightarrow> (nat \<Rightarrow> mem) \<Rightarrow> nat \<Rightarrow> mem" where
  "roundMem fr sb sn rb M = (\<lambda>r. wr (M r) (rb r) (rd (M (fr r)) (sb (fr r)) (sn (fr r))))"

context routing
begin

lemma round_phase:
  assumes "roundOk A c0 to fr sb sn rb rn q q'"
    and "\<And>M. J M \<Longrightarrow> J' (roundMem fr sb sn rb M)"
  shows "phase A c0 q (\<lambda>r. sendRecv (to r) (sb r) (sn r) (fr r) (rb r) (rn r)) q' J J'"
proof (rule phaseI)
  fix M assume J: "J M"
  have "par A (\<lambda>r. sendRecv (to r) (sb r) (sn r) (fr r) (rb r) (rn r)) (upd c0 M q)
      (upd c0 (roundMem fr sb sn rb M) q')"
    by (rule par_ctx [OF round_sendRecv [of "upd c0 M q" sb sn rb rn q']])
      (use assms(1) in \<open>auto simp: roundOk_def canPost_def consumes_def upd_def roundMem_def dropsCompletion_def\<close>)
  with assms(2) [OF J] show "\<exists>M'. par A (\<lambda>r. sendRecv (to r) (sb r) (sn r) (fr r) (rb r) (rn r))
      (upd c0 M q) (upd c0 M' q') \<and> J' M'" by blast
qed

end

lemma phase_shift:
  assumes "roundOk {..<n} c0 (\<lambda>r. (r + s) mod n) (\<lambda>r. (r + n - s) mod n) sb sn rb rn q q'"
    and "0 < s" "s < n"
    and "\<And>M. J M \<Longrightarrow> J' (roundMem (\<lambda>r. (r + n - s) mod n) sb sn rb M)"
  shows "phase {..<n} c0 q
    (\<lambda>r. sendRecv ((r + s) mod n) (sb r) (sn r) ((r + n - s) mod n) (rb r) (rn r)) q' J J'"
  using shift.round_phase [of s n c0 sb sn rb rn q q' J J'] assms by simp

lemma phase_pairs:
  assumes "roundOk {..<2 ^ k} c0 (\<lambda>r. r XOR 2 ^ i) (\<lambda>r. r XOR 2 ^ i) sb sn rb rn q q'"
    and "i < k"
    and "\<And>M. J M \<Longrightarrow> J' (roundMem (\<lambda>r. r XOR 2 ^ i) sb sn rb M)"
  shows "phase {..<2 ^ k} c0 q
    (\<lambda>r. sendRecv (r XOR 2 ^ i) (sb r) (sn r) (r XOR 2 ^ i) (rb r) (rn r)) q' J J'"
  using pairs.round_phase [of i k c0 sb sn rb rn q q' J J'] assms by simp

text \<open>Each rank of \<open>S\<close> sends \<open>n\<close> bytes to its own receiver.\<close>

definition onewayMem ::
  "nat set \<Rightarrow> (nat \<Rightarrow> nat) \<Rightarrow> (nat \<Rightarrow> nat) \<Rightarrow> (nat \<Rightarrow> addr) \<Rightarrow> (nat \<Rightarrow> addr) \<Rightarrow> nat \<Rightarrow> (nat \<Rightarrow> mem) \<Rightarrow> nat \<Rightarrow> mem" where
  "onewayMem S to fr sb rb n M =
     (\<lambda>r. if r \<in> to ` S then wr (M r) (rb r) (rd (M (fr r)) (sb (fr r)) n) else M r)"

lemma phase_oneway:
  assumes "finite S" "\<And>s. s \<in> S \<Longrightarrow> to s \<notin> S" "\<And>s. s \<in> S \<Longrightarrow> fr (to s) = s"
    and P: "\<And>s. s \<in> S \<Longrightarrow> P s = tsend (to s) (sb s) n" "\<And>s. s \<in> S \<Longrightarrow> P (to s) = trecv s (rb (to s)) n"
    and ok: "\<And>s M. s \<in> S \<Longrightarrow> sendOk (upd c0 M q s) (to s) (sb s) n"
      "\<And>s M. s \<in> S \<Longrightarrow> recvOk (upd c0 M q (to s)) s (rb (to s)) n (q' (to s))"
      "\<And>s. s \<in> S \<Longrightarrow> q' s = q s"
    and J: "\<And>M. J M \<Longrightarrow> J' (onewayMem S to fr sb rb n M)"
  shows "phase (\<Union>s\<in>S. {s, to s}) c0 q P q' J J'"
proof (rule phaseI)
  fix M assume "J M"
  have "par (\<Union>s\<in>S. {s, to s}) P (upd c0 M q) (upd c0 (onewayMem S to fr sb rb n M) q')"
  proof (rule par_UNION)
    fix s assume s: "s \<in> S"
    then have ns: "s \<noteq> to s" "s \<notin> to ` S" using assms(2) [of s] assms(2) by (metis, blast)
    show "par {s, to s} P (upd c0 M q) (upd c0 (onewayMem S to fr sb rb n M) q')"
      by (rule par_pair [OF ns(1) P(1) [OF s] P(2) [OF s] ok(1) [OF s] ok(2) [OF s]])
        (use s ns ok(3) assms(3) in \<open>auto simp: upd_def onewayMem_def\<close>)
    fix s' assume "s' \<in> S" "s \<noteq> s'"
    then show "{s, to s} \<inter> {s', to s'} = {}" using s assms(2,3) by (metis disjoint_insert(1) inf_bot_right
        insertE singletonD disjoint_iff)
  qed (rule assms(1))
  with J [OF \<open>J M\<close>] show "\<exists>M'. par (\<Union>s\<in>S. {s, to s}) P (upd c0 M q) (upd c0 M' q') \<and> J' M'" by blast
qed

lemma world_peers:
  assumes "world n c0" "r < n" "0 < s" "s < n"
  shows "peerOk (comm (c0 r)) ((r + s) mod n)" "peerOk (comm (c0 r)) ((r + n - s) mod n)"
    "transport (comm (c0 r)) \<noteq> None"
  using assms shift.to_ne [of r s n] shift.fr_ne [of r s n] by (auto simp: world_def peerOk_def)

subsection \<open>Local actions\<close>

lemma memcpy_Ret:
  "disj dst n src n \<Longrightarrow> freeOf (q r) dst n \<Longrightarrow> freeOf (q r) src n \<Longrightarrow>
   memcpy dst src n (upd c0 M q r) = Ret vcclSuccess (upd c0 (M(r := wr (M r) dst (rd (M r) src n))) q r)"
  by (simp add: memcpy_def busy_freeOf)

lemma reduceC_Ret:
  assumes "dt \<noteq> vcclNumTypes" "0 \<le> op" "op < vcclNumOps"
    and "disj dst (n * vcclTypeSize dt) src (n * vcclTypeSize dt)"
    and "freeOf (q r) dst (n * vcclTypeSize dt)" "freeOf (q r) src (n * vcclTypeSize dt)"
  shows "reduceC dt op dst src n (upd c0 M q r) = Ret vcclSuccess (upd c0 (M(r := wr (M r) dst
    (vred (fp (c0 r)) dt op n (rd (M r) dst (n * vcclTypeSize dt)) (rd (M r) src (n * vcclTypeSize dt))))) q r)"
  using assms by (simp add: reduceC_def kernel_def busy_freeOf cpuReduce_wr)

lemma scaleC_Ret:
  assumes "isFloatType dt" "freeOf (q r) dst (n * vcclTypeSize dt)"
  shows "scaleC dt dst n k (upd c0 M q r) = Ret vcclSuccess (upd c0 (M(r := wr (M r) dst
    (vscale (fp (c0 r)) dt (k (fp (c0 r))) n (rd (M r) dst (n * vcclTypeSize dt))))) q r)"
  using assms by (simp add: scaleC_def kernel_def busy_freeOf cpuScale_wr)

lemma scaleCopyC_Ret:
  assumes "isFloatType dt" "dst = src \<or> disj dst (n * vcclTypeSize dt) src (n * vcclTypeSize dt)"
    and "freeOf (q r) dst (n * vcclTypeSize dt)" "freeOf (q r) src (n * vcclTypeSize dt)"
  shows "scaleCopyC dt dst src n k (upd c0 M q r) = Ret vcclSuccess (upd c0 (M(r := wr (M r) dst
    (vscaleCopy (fp (c0 r)) dt k n (rd (M r) src (n * vcclTypeSize dt))))) q r)"
  using assms by (simp add: scaleCopyC_def kernel_def busy_freeOf cpuScaleCopy_wr)

lemma scaledAccumulateC_Ret:
  assumes "isFloatType dt" "disj dst (n * vcclTypeSize dt) src (n * vcclTypeSize dt)"
    and "freeOf (q r) dst (n * vcclTypeSize dt)" "freeOf (q r) src (n * vcclTypeSize dt)"
  shows "scaledAccumulateC dt dst src n k (upd c0 M q r) = Ret vcclSuccess (upd c0 (M(r := wr (M r) dst
    (vacc (fp (c0 r)) dt k n (rd (M r) dst (n * vcclTypeSize dt)) (rd (M r) src (n * vcclTypeSize dt))))) q r)"
  using assms by (simp add: scaledAccumulateC_def kernel_def busy_freeOf cpuScaledAccumulate_wr)

end
