(* ===== verification/Vccl_Ring.thy ===== *)
theory Vccl_Ring
  imports Vccl_Phase Vccl_Collectives
begin

text \<open>
  The ring algorithms of \<^verbatim>\<open>collectives.cc\<close>: all-gather with announced receives and in-place
  reduce-scatter over a chunk table. \<open>behind n (r + shift) t\<close> is the chunk that rank \<open>r\<close> holds
  after \<open>t\<close> steps.
\<close>

subsection \<open>Chunk tables\<close>

text \<open>Distinct chunks do not overlap and all lie within \<open>tot\<close> bytes.\<close>

definition chunkTable :: "nat \<Rightarrow> nat \<Rightarrow> Chunk list \<Rightarrow> bool" where
  "chunkTable n tot chunks \<longleftrightarrow> length chunks = n \<and>
     (\<forall>i<n. coffset (chunks ! i) + cbytes (chunks ! i) \<le> tot) \<and>
     (\<forall>i<n. \<forall>j<n. i \<noteq> j \<longrightarrow>
        disj (coffset (chunks ! i)) (cbytes (chunks ! i)) (coffset (chunks ! j)) (cbytes (chunks ! j)))"

abbreviation chunkAt :: "addr \<Rightarrow> Chunk list \<Rightarrow> nat \<Rightarrow> addr" where
  "chunkAt data chunks i \<equiv> data + coffset (chunks ! i)"

abbreviation chunkLen :: "Chunk list \<Rightarrow> nat \<Rightarrow> nat" where
  "chunkLen chunks i \<equiv> cbytes (chunks ! i)"

lemma disj_shift [simp]: "disj (p + a) n (p + b) k \<longleftrightarrow> disj a n b k"
  by (auto simp: disj_def)

lemma chunkTable_disj:
  "chunkTable n tot chunks \<Longrightarrow> i < n \<Longrightarrow> j < n \<Longrightarrow> i \<noteq> j \<Longrightarrow>
   disj (chunkAt p chunks i) (chunkLen chunks i) (chunkAt p chunks j) (chunkLen chunks j)"
  by (simp add: chunkTable_def)

lemmas chunkTable_disj0 = chunkTable_disj [unfolded disj_shift]

lemma chunkTable_end: "chunkTable n tot chunks \<Longrightarrow> i < n \<Longrightarrow> coffset (chunks ! i) + chunkLen chunks i \<le> tot"
  by (simp add: chunkTable_def)

text \<open>Memory outside the \<open>tot\<close> bytes at \<open>data r\<close> is that of \<open>M0\<close>.\<close>

definition frame :: "nat set \<Rightarrow> (nat \<Rightarrow> addr) \<Rightarrow> nat \<Rightarrow> (nat \<Rightarrow> mem) \<Rightarrow> (nat \<Rightarrow> mem) \<Rightarrow> bool" where
  "frame A data tot M0 M \<longleftrightarrow> (\<forall>r\<in>A. \<forall>x. x < data r \<or> data r + tot \<le> x \<longrightarrow> M r x = M0 r x)"

lemma frame_refl [simp]: "frame A data tot M M"
  by (simp add: frame_def)

lemma frame_wr:
  "frame A data tot M0 M \<Longrightarrow> (\<And>r. r \<in> A \<Longrightarrow> data r \<le> p r \<and> p r + length (bs r) \<le> data r + tot) \<Longrightarrow>
   frame A data tot M0 (\<lambda>r. wr (M r) (p r) (bs r))"
  by (fastforce simp: frame_def wr_outside)

subsection \<open>All-gather\<close>

definition gatherReqs :: "nat \<Rightarrow> addr \<Rightarrow> Chunk list \<Rightarrow> nat \<Rightarrow> nat \<Rightarrow> RecvReq list" where
  "gatherReqs n data chunks shift r =
     map (\<lambda>s. \<lparr>rqPeer = (r + n - 1) mod n, rqBuf = chunkAt data chunks (behind n (r + shift) (Suc s)),
               rqBytes = chunkLen chunks (behind n (r + shift) (Suc s))\<rparr>) [0..<n - 1]"

definition gathered ::
  "nat \<Rightarrow> (nat \<Rightarrow> addr) \<Rightarrow> Chunk list \<Rightarrow> nat \<Rightarrow> (nat \<Rightarrow> byte list) \<Rightarrow> nat \<Rightarrow> (nat \<Rightarrow> mem) \<Rightarrow> bool" where
  "gathered n data chunks shift X s M \<longleftrightarrow>
     (\<forall>r<n. \<forall>t \<le> s. let j = behind n (r + shift) t
        in rd (M r) (chunkAt (data r) chunks j) (chunkLen chunks j) = X j)"

lemma ringAllGather_eq:
  assumes "world n c0" "r < n"
  shows "ringAllGather data chunks shift (upd c0 M q r) =
    vseq [postRecvs (gatherReqs n data chunks shift r),
          loop (n - 1) (\<lambda>s. sendRecv ((r + 1) mod n) (chunkAt data chunks (behind n (r + shift) s))
             (chunkLen chunks (behind n (r + shift) s)) ((r + n - 1) mod n)
             (chunkAt data chunks (behind n (r + shift) (Suc s)))
             (chunkLen chunks (behind n (r + shift) (Suc s))))] (upd c0 M q r)"
  using assms
  by (simp add: ringAllGather_def Let_def world_def gatherReqs_def next_rank_def prev_rank_def behind_def)

lemma gather_roundOk:
  assumes "world n c0" "2 \<le> n" "chunkTable n tot chunks" "s < n - 1"
  shows "roundOk {..<n} c0 (\<lambda>r. (r + 1) mod n) (\<lambda>r. (r + n - 1) mod n)
    (\<lambda>r. chunkAt (data r) chunks (behind n (r + shift) s)) (\<lambda>r. chunkLen chunks (behind n (r + shift) s))
    (\<lambda>r. chunkAt (data r) chunks (behind n (r + shift) (Suc s)))
    (\<lambda>r. chunkLen chunks (behind n (r + shift) (Suc s)))
    (\<lambda>r. postedFrom (gatherReqs n (data r) chunks shift r) s)
    (\<lambda>r. postedFrom (gatherReqs n (data r) chunks shift r) (Suc s))"
  unfolding roundOk_def
proof (intro ballI conjI)
  fix r assume "r \<in> {..<n}"
  then have r: "r < n" by simp
  note peers = world_peers [OF assms(1) r, of 1]
  show "transport (comm (c0 r)) \<noteq> None" "peerOk (comm (c0 r)) ((r + 1) mod n)"
    "peerOk (comm (c0 r)) ((r + n - 1) mod n)" using peers assms(2) by simp_all
  show "\<not> dropsCompletion ((c0 r)\<lparr>posted := postedFrom (gatherReqs n (data r) chunks shift r) s\<rparr>) ((r + 1) mod n)
      (chunkLen chunks (behind n (r + shift) s)) ((r + n - 1) mod n)"
    by (rule dropsCompletion_peer) (auto simp: postedFrom_def gatherReqs_def dest!: in_set_dropD)
  show "chunkLen chunks (behind n (r + shift) (Suc s)) =
      chunkLen chunks (behind n ((r + n - 1) mod n + shift) s)"
    using behind_prev [of s n r shift] assms(2,4) by simp
  have D: "disj (chunkAt (data r) chunks (behind n (r + shift) t)) (chunkLen chunks (behind n (r + shift) t))
      (chunkAt (data r) chunks (behind n (r + shift) u)) (chunkLen chunks (behind n (r + shift) u))"
    if "t < n" "u < n" "t \<noteq> u" for t u
    using that assms(2) by (intro chunkTable_disj [OF assms(3)]) (auto dest: behind_inj)
  show "disj (chunkAt (data r) chunks (behind n (r + shift) s)) (chunkLen chunks (behind n (r + shift) s))
      (chunkAt (data r) chunks (behind n (r + shift) (Suc s))) (chunkLen chunks (behind n (r + shift) (Suc s)))"
    using D assms(4) by simp
  show "if chunkLen chunks (behind n (r + shift) (Suc s)) = 0
      then postedFrom (gatherReqs n (data r) chunks shift r) (Suc s) =
           postedFrom (gatherReqs n (data r) chunks shift r) s
      else consume ((r + n - 1) mod n) (chunkAt (data r) chunks (behind n (r + shift) (Suc s)))
             (chunkLen chunks (behind n (r + shift) (Suc s)))
             (postedFrom (gatherReqs n (data r) chunks shift r) s) =
           Some (postedFrom (gatherReqs n (data r) chunks shift r) (Suc s))"
    by (rule consume_postedFrom) (use assms(4) in \<open>simp_all add: gatherReqs_def\<close>)
  show "freeOf (postedFrom (gatherReqs n (data r) chunks shift r) (Suc s))
      (chunkAt (data r) chunks (behind n (r + shift) s)) (chunkLen chunks (behind n (r + shift) s))"
    "freeOf (postedFrom (gatherReqs n (data r) chunks shift r) (Suc s))
      (chunkAt (data r) chunks (behind n (r + shift) (Suc s))) (chunkLen chunks (behind n (r + shift) (Suc s)))"
    by (rule freeOf_postedFrom; use D assms(4) in \<open>simp add: gatherReqs_def\<close>)+
qed

lemma gather_step:
  assumes "2 \<le> n" "chunkTable n tot chunks" "s < n - 1"
    and "gathered n data chunks shift X s M" "frame {..<n} data tot M0 M"
  defines "M' \<equiv> roundMem (\<lambda>r. (r + n - 1) mod n)
    (\<lambda>r. chunkAt (data r) chunks (behind n (r + shift) s)) (\<lambda>r. chunkLen chunks (behind n (r + shift) s))
    (\<lambda>r. chunkAt (data r) chunks (behind n (r + shift) (Suc s))) M"
  shows "gathered n data chunks shift X (Suc s) M' \<and> frame {..<n} data tot M0 M'"
proof -
  have in': "rd (M ((r + n - 1) mod n)) (chunkAt (data ((r + n - 1) mod n)) chunks
        (behind n ((r + n - 1) mod n + shift) s)) (chunkLen chunks (behind n ((r + n - 1) mod n + shift) s))
      = X (behind n (r + shift) (Suc s))" (is "?in r = _") for r
  proof -
    have "?in r = X (behind n ((r + n - 1) mod n + shift) s)"
      using assms(1,4) by (auto simp: gathered_def Let_def)
    then show ?thesis using behind_prev [of s n r shift] assms(1,3) by simp
  qed
  have M': "M' r = wr (M r) (chunkAt (data r) chunks (behind n (r + shift) (Suc s)))
      (X (behind n (r + shift) (Suc s)))" for r
    by (simp only: M'_def roundMem_def in')
  have len: "length (X (behind n (r + shift) (Suc s))) = chunkLen chunks (behind n (r + shift) (Suc s))" for r
    using in' [of r, symmetric] behind_prev [of s n r shift] assms(1,3) by simp
  have "rd (M' r) (chunkAt (data r) chunks (behind n (r + shift) t)) (chunkLen chunks (behind n (r + shift) t))
      = X (behind n (r + shift) t)" if "r < n" "t \<le> Suc s" for r t
  proof (cases "t = Suc s")
    case True
    then show ?thesis by (simp add: M' len rd_wr_same)
  next
    case False
    then have "behind n (r + shift) (Suc s) \<noteq> behind n (r + shift) t"
      using that assms(3) by (auto dest: behind_inj)
    then show ?thesis
      using assms(1,4) that False
      by (simp add: M' rd_wr_disj len chunkTable_disj0 [OF assms(2)] gathered_def Let_def)
  qed
  moreover have "frame {..<n} data tot M0 M'"
    unfolding M'_def roundMem_def in'
    using assms(1) chunkTable_end [OF assms(2)]
    by (intro frame_wr assms(5)) (simp add: len add.assoc)
  ultimately show ?thesis by (simp add: gathered_def Let_def)
qed

lemma gathered_all:
  assumes "gathered n data chunks shift X (n - 1) M" "r < n" "j < n"
  shows "rd (M r) (chunkAt (data r) chunks j) (chunkLen chunks j) = X j"
proof -
  obtain t where "t < n" "behind n (r + shift) t = j" using behind_surj [OF assms(3)] by blast
  then show ?thesis using assms(1,2) by (auto simp: gathered_def Let_def)
qed

lemma ringAllGather_phase:
  assumes "world n c0" "2 \<le> n" "chunkTable n tot chunks"
  shows "phase {..<n} c0 (\<lambda>_. []) (\<lambda>r. ringAllGather (data r) chunks shift) (\<lambda>_. [])
    (\<lambda>M. gathered n data chunks shift X 0 M \<and> frame {..<n} data tot M0 M)
    (\<lambda>M. (\<forall>r<n. \<forall>j<n. rd (M r) (chunkAt (data r) chunks j) (chunkLen chunks j) = X j) \<and>
         frame {..<n} data tot M0 M)"
proof -
  let ?q = "\<lambda>s r. postedFrom (gatherReqs n (data r) chunks shift r) s"
  let ?J = "\<lambda>s M. gathered n data chunks shift X s M \<and> frame {..<n} data tot M0 M"
  have post: "phase {..<n} c0 (\<lambda>_. []) (\<lambda>r. postRecvs (gatherReqs n (data r) chunks shift r)) (?q 0) (?J 0) (?J 0)"
  proof (rule phase_postRecvs)
    fix r i j assume r: "r \<in> {..<n}"
    show "transport (comm (c0 r)) \<noteq> None" using world_peers [OF assms(1), of r 1] r assms(2) by simp
    show "i < length (gatherReqs n (data r) chunks shift r) \<Longrightarrow>
        peerOk (comm (c0 r)) (rqPeer (gatherReqs n (data r) chunks shift r ! i))"
      using world_peers [OF assms(1), of r 1] r assms(2) by (simp add: gatherReqs_def)
    assume "i < j" "j < length (gatherReqs n (data r) chunks shift r)"
    moreover from this have "behind n (r + shift) (Suc i) \<noteq> behind n (r + shift) (Suc j)"
      using behind_inj [of n "r + shift" "Suc i" "Suc j"] by (fastforce simp: gatherReqs_def less_diff_conv)
    ultimately show "disj (rqBuf (gatherReqs n (data r) chunks shift r ! i))
        (rqBytes (gatherReqs n (data r) chunks shift r ! i))
        (rqBuf (gatherReqs n (data r) chunks shift r ! j))
        (rqBytes (gatherReqs n (data r) chunks shift r ! j))"
      using assms(2) by (simp add: gatherReqs_def chunkTable_disj0 [OF assms(3)])
  qed
  have "phase {..<n} c0 (?q 0) (\<lambda>r. loop (n - 1) (\<lambda>s. sendRecv ((r + 1) mod n)
             (chunkAt (data r) chunks (behind n (r + shift) s))
             (chunkLen chunks (behind n (r + shift) s)) ((r + n - 1) mod n)
             (chunkAt (data r) chunks (behind n (r + shift) (Suc s)))
             (chunkLen chunks (behind n (r + shift) (Suc s))))) (?q (n - 1)) (?J 0) (?J (n - 1))"
    by (rule phase_loop, rule phase_shift [where s = 1, OF gather_roundOk])
      (use assms gather_step [OF assms(2,3)] in \<open>auto simp del: One_nat_def\<close>)
  moreover have "?q (n - 1) = (\<lambda>_. [])" by (simp add: gatherReqs_def)
  ultimately have "phase {..<n} c0 (\<lambda>_. []) (\<lambda>r. ringAllGather (data r) chunks shift) (\<lambda>_. []) (?J 0) (?J (n - 1))"
    by (subst phase_cong, subst ringAllGather_eq [OF assms(1)])
      (auto intro!: refl phase_check [OF post] phase_last)
  then show ?thesis by (rule phase_conseq) (auto intro: gathered_all)
qed

subsection \<open>Reduce-scatter\<close>

text \<open>The partial result of chunk \<open>j\<close> after \<open>s\<close> hops: it starts at rank \<open>j\<close> and each rank on its way
  puts its own contribution on the left. \<open>red r\<close> is the reduction as rank \<open>r\<close> computes it, \<open>y r\<close> the
  contribution of rank \<open>r\<close>.\<close>

primrec ringPartial ::
  "(nat \<Rightarrow> byte list \<Rightarrow> byte list \<Rightarrow> byte list) \<Rightarrow> (nat \<Rightarrow> byte list) \<Rightarrow> nat \<Rightarrow> nat \<Rightarrow> nat \<Rightarrow> byte list" where
  "ringPartial red y n j 0 = y j"
| "ringPartial red y n j (Suc s) =
     red ((j + Suc s) mod n) (y ((j + Suc s) mod n)) (ringPartial red y n j s)"

text \<open>\<open>F r\<close> is the floating-point unit of rank \<open>r\<close>, \<open>Y r j\<close> its contribution to chunk \<open>j\<close>.\<close>

definition chunkPartial ::
  "(nat \<Rightarrow> fpu) \<Rightarrow> vcclDataType_t \<Rightarrow> vcclRedOp_t \<Rightarrow> Chunk list \<Rightarrow> (nat \<Rightarrow> nat \<Rightarrow> byte list) \<Rightarrow> nat
    \<Rightarrow> nat \<Rightarrow> nat \<Rightarrow> byte list" where
  "chunkPartial F dt op chunks Y n j s =
     ringPartial (\<lambda>r. vred (F r) dt op (chunkLen chunks j div vcclTypeSize dt)) (\<lambda>r. Y r j) n j s"

definition scattered ::
  "(nat \<Rightarrow> fpu) \<Rightarrow> vcclDataType_t \<Rightarrow> vcclRedOp_t \<Rightarrow> nat \<Rightarrow> (nat \<Rightarrow> addr) \<Rightarrow> Chunk list
    \<Rightarrow> (nat \<Rightarrow> nat \<Rightarrow> byte list) \<Rightarrow> nat \<Rightarrow> (nat \<Rightarrow> mem) \<Rightarrow> bool" where
  "scattered F dt op n data chunks Y s M \<longleftrightarrow>
     (\<forall>r<n. let j = behind n r s in
        rd (M r) (chunkAt (data r) chunks j) (chunkLen chunks j) = chunkPartial F dt op chunks Y n j s \<and>
        (\<forall>t. s < t \<longrightarrow> t < n \<longrightarrow> (let j = behind n r t in
           rd (M r) (chunkAt (data r) chunks j) (chunkLen chunks j) = Y r j)))"

text \<open>Memory outside two areas is that of \<open>M0\<close>.\<close>

definition frame2 ::
  "nat set \<Rightarrow> (nat \<Rightarrow> addr) \<Rightarrow> nat \<Rightarrow> (nat \<Rightarrow> addr) \<Rightarrow> nat \<Rightarrow> (nat \<Rightarrow> mem) \<Rightarrow> (nat \<Rightarrow> mem) \<Rightarrow> bool" where
  "frame2 A data tot scr ssz M0 M \<longleftrightarrow>
     (\<forall>r\<in>A. \<forall>x. (x < data r \<or> data r + tot \<le> x) \<and> (x < scr r \<or> scr r + ssz \<le> x) \<longrightarrow> M r x = M0 r x)"

lemma frame2_refl [simp]: "frame2 A data tot scr ssz M M"
  by (simp add: frame2_def)

lemma frame2_wr:
  assumes "frame2 A data tot scr ssz M0 M"
    and "\<And>r. r \<in> A \<Longrightarrow> data r \<le> p r \<and> p r + length (bs r) \<le> data r + tot \<or>
       scr r \<le> p r \<and> p r + length (bs r) \<le> scr r + ssz"
  shows "frame2 A data tot scr ssz M0 (\<lambda>r. wr (M r) (p r) (bs r))"
  unfolding frame2_def
proof (intro ballI allI impI)
  fix r x assume r: "r \<in> A" and x: "(x < data r \<or> data r + tot \<le> x) \<and> (x < scr r \<or> scr r + ssz \<le> x)"
  then have "wr (M r) (p r) (bs r) x = M r x" using assms(2) [OF r] by (intro wr_outside) auto
  then show "wr (M r) (p r) (bs r) x = M0 r x" using assms(1) r x by (simp add: frame2_def)
qed

lemma maxChunk_ge: "c \<in> set chunks \<Longrightarrow> cbytes c \<le> fold (\<lambda>ch m. max m (cbytes ch)) chunks k"
proof -
  have mono: "m \<le> fold (\<lambda>ch m. max m (cbytes ch)) cs m" for cs m
    by (induction cs arbitrary: m) (auto intro: order_trans [OF max.cobounded1])
  show "c \<in> set chunks \<Longrightarrow> cbytes c \<le> fold (\<lambda>ch m. max m (cbytes ch)) chunks k"
    by (induction chunks arbitrary: k) (auto intro: order_trans [OF max.cobounded2 mono])
qed

text \<open>What the ring reduction needs of its buffers: the chunk table fits the data area, chunks are
  whole elements, the scratch area holds the largest chunk and does not meet the data.\<close>

definition ringBufs ::
  "nat \<Rightarrow> nat \<Rightarrow> vcclDataType_t \<Rightarrow> Chunk list \<Rightarrow> (nat \<Rightarrow> addr) \<Rightarrow> (nat \<Rightarrow> addr) \<Rightarrow> nat \<Rightarrow> bool" where
  "ringBufs n tot dt chunks data scr ssz \<longleftrightarrow> 2 \<le> n \<and> chunkTable n tot chunks \<and> dt \<noteq> vcclNumTypes \<and>
     (\<forall>i<n. vcclTypeSize dt dvd chunkLen chunks i \<and> chunkLen chunks i \<le> ssz) \<and>
     (\<forall>r<n. disj (data r) tot (scr r) ssz)"

lemma ringBufs_scr:
  assumes "ringBufs n tot dt chunks data scr ssz" "r < n" "i < n" "k \<le> ssz"
  shows "disj (scr r) k (chunkAt (data r) chunks i) (chunkLen chunks i)"
proof -
  have "disj (data r) tot (scr r) ssz" "coffset (chunks ! i) + chunkLen chunks i \<le> tot"
    using assms by (auto simp: ringBufs_def chunkTable_def)
  then show ?thesis using assms(4) by (auto simp: disj_def)
qed

lemma vred_0 [simp]: "vred f dt op 0 x y = []"
  by (simp add: vred_def zipN_def)

lemma scatter_recv:
  assumes B: "ringBufs n tot dt chunks data scr ssz" and s: "s < n - 1"
    and inv: "scattered F dt op n data chunks Y s M" "frame2 {..<n} data tot scr ssz M0 M"
  defines "M' \<equiv> roundMem (\<lambda>r. (r + n - 1) mod n)
    (\<lambda>r. chunkAt (data r) chunks (behind n r s)) (\<lambda>r. chunkLen chunks (behind n r s)) scr M"
  shows "scattered F dt op n data chunks Y s M'" and "frame2 {..<n} data tot scr ssz M0 M'"
    and "r < n \<Longrightarrow> rd (M' r) (scr r) (chunkLen chunks (behind n r (Suc s))) =
      chunkPartial F dt op chunks Y n (behind n r (Suc s)) s"
proof -
  have n: "2 \<le> n" using B by (simp add: ringBufs_def)
  let ?v = "\<lambda>r. chunkPartial F dt op chunks Y n (behind n r (Suc s)) s"
  have prev: "behind n ((r + n - 1) mod n) s = behind n r (Suc s)" for r
    using behind_prev [of s n r 0] s n by simp
  have in': "rd (M ((r + n - 1) mod n)) (chunkAt (data ((r + n - 1) mod n)) chunks
      (behind n ((r + n - 1) mod n) s)) (chunkLen chunks (behind n ((r + n - 1) mod n) s)) = ?v r" for r
    using inv(1) n by (simp add: scattered_def Let_def prev [symmetric])
  have M': "M' r = wr (M r) (scr r) (?v r)" for r
    by (simp only: M'_def roundMem_def in')
  have len: "length (?v r) = chunkLen chunks (behind n r (Suc s))" for r
    using in' [of r, symmetric] by (simp add: prev [simplified])
  have le: "chunkLen chunks (behind n r (Suc s)) \<le> ssz" for r
    using B n by (simp add: ringBufs_def)
  have keep: "rd (M' r) (chunkAt (data r) chunks i) (chunkLen chunks i) =
      rd (M r) (chunkAt (data r) chunks i) (chunkLen chunks i)" if "r < n" "i < n" for r i
    unfolding M' using ringBufs_scr [OF B that le] by (simp add: rd_wr_disj len)
  show "scattered F dt op n data chunks Y s M'"
    using inv(1) keep n by (simp add: scattered_def Let_def)
  show "frame2 {..<n} data tot scr ssz M0 M'"
    unfolding M'_def roundMem_def in' by (intro frame2_wr inv(2)) (simp add: len le)
  show "rd (M' r) (scr r) (chunkLen chunks (behind n r (Suc s))) = ?v r"
    by (simp add: M' rd_wr_same len)
qed

lemma scatter_reduce:
  assumes B: "ringBufs n tot dt chunks data scr ssz" and s: "s < n - 1"
    and inv: "scattered F dt op n data chunks Y s M" "frame2 {..<n} data tot scr ssz M0 M"
    and scr: "\<And>r. r < n \<Longrightarrow> rd (M r) (scr r) (chunkLen chunks (behind n r (Suc s))) =
      chunkPartial F dt op chunks Y n (behind n r (Suc s)) s"
  defines "M' \<equiv> (\<lambda>r. let j = behind n r (Suc s); l = chunkLen chunks j in
      wr (M r) (chunkAt (data r) chunks j) (vred (F r) dt op (l div vcclTypeSize dt)
        (rd (M r) (chunkAt (data r) chunks j) l) (rd (M r) (scr r) l)))"
  shows "scattered F dt op n data chunks Y (Suc s) M'" and "frame2 {..<n} data tot scr ssz M0 M'"
proof -
  have n: "2 \<le> n" "chunkTable n tot chunks" and dt: "dt \<noteq> vcclNumTypes" using B by (auto simp: ringBufs_def)
  let ?j = "\<lambda>r. behind n r (Suc s)"
  let ?v = "\<lambda>r. chunkPartial F dt op chunks Y n (?j r) (Suc s)"
  have v: "vred (F r) dt op (chunkLen chunks (?j r) div vcclTypeSize dt)
      (rd (M r) (chunkAt (data r) chunks (?j r)) (chunkLen chunks (?j r)))
      (rd (M r) (scr r) (chunkLen chunks (?j r))) = ?v r" if r: "r < n" for r
  proof -
    have "(?j r + Suc s) mod n = r" using behind_ahead [of "Suc s" n r] s r by simp
    moreover have "rd (M r) (chunkAt (data r) chunks (?j r)) (chunkLen chunks (?j r)) = Y r (?j r)"
      using inv(1) r s by (simp add: scattered_def Let_def)
    ultimately show ?thesis using scr [OF r] by (simp add: chunkPartial_def)
  qed
  have M': "M' r = wr (M r) (chunkAt (data r) chunks (?j r)) (?v r)" if "r < n" for r
    using v [OF that] by (simp add: M'_def Let_def)
  have len: "length (?v r) = chunkLen chunks (?j r)" if "r < n" for r
    using v [OF that, symmetric] dt B n by (simp add: ringBufs_def)
  have "rd (M' r) (chunkAt (data r) chunks (behind n r t)) (chunkLen chunks (behind n r t)) = Y r (behind n r t)"
    if "r < n" "Suc s < t" "t < n" for r t
  proof -
    have "?j r \<noteq> behind n r t" using that by (auto dest: behind_inj)
    then show ?thesis
      using that inv(1) n
      by (simp add: M' rd_wr_disj len chunkTable_disj0 [OF n(2)] scattered_def Let_def)
  qed
  then show "scattered F dt op n data chunks Y (Suc s) M'"
    by (simp add: scattered_def Let_def M' rd_wr_same len)
  have "frame2 {..<n} data tot scr ssz M0 (\<lambda>r. if r < n then M' r else M r)"
    unfolding frame2_def
    using frame2_wr [OF inv(2), of "\<lambda>r. chunkAt (data r) chunks (?j r)" ?v] chunkTable_end [OF n(2)] n(1)
    by (simp add: M' len frame2_def add.assoc)
  then show "frame2 {..<n} data tot scr ssz M0 M'" by (simp add: frame2_def)
qed

definition rsBody ::
  "nat \<Rightarrow> nat \<Rightarrow> addr \<Rightarrow> Chunk list \<Rightarrow> vcclDataType_t \<Rightarrow> vcclRedOp_t \<Rightarrow> addr \<Rightarrow> nat \<Rightarrow> cmd" where
  "rsBody n r data chunks dt op scr s =
     vseq [sendRecv ((r + 1) mod n) (chunkAt data chunks (behind n r s)) (chunkLen chunks (behind n r s))
             ((r + n - 1) mod n) scr (chunkLen chunks (behind n r (Suc s))),
           cwhen (chunkLen chunks (behind n r (Suc s)) > 0)
             (reduceC dt op (chunkAt data chunks (behind n r (Suc s))) scr
                (chunkLen chunks (behind n r (Suc s)) div vcclTypeSize dt))]"

lemma loop_cong: "(\<And>s. s < n \<Longrightarrow> f s = g s) \<Longrightarrow> loop n f = loop n g"
  unfolding loop_def by (metis (mono_tags, lifting) atLeastLessThan_iff map_cong set_upt)

lemma ringReduceScatter_eq:
  assumes "world n c0" "r < n"
  shows "ringReduceScatter data chunks dt op (upd c0 M q r) =
    withScratch (fold (\<lambda>ch m. max m (cbytes ch)) chunks 0)
      (\<lambda>scr. loop (n - 1) (rsBody n r data chunks dt op scr)) (upd c0 M q r)"
proof -
  have "(r + n - s) mod n = behind n r s" if "s < n - 1" for s
    using that by (intro behind_one) simp
  then show ?thesis
    using assms
    by (simp add: ringReduceScatter_def Let_def world_def next_rank_def prev_rank_def rsBody_def
        behind_def [of n r "Suc _"] cong: loop_cong)
qed

lemma reduce_phase:
  assumes "ringBufs n tot dt chunks data scr ssz" "0 \<le> op" "op < vcclNumOps" "s < n - 1"
  shows "phase {..<n} c0 (\<lambda>_. [])
    (\<lambda>r. cwhen (chunkLen chunks (behind n r (Suc s)) > 0)
       (reduceC dt op (chunkAt (data r) chunks (behind n r (Suc s))) (scr r)
          (chunkLen chunks (behind n r (Suc s)) div vcclTypeSize dt))) (\<lambda>_. [])
    (\<lambda>M. scattered (\<lambda>r. fp (c0 r)) dt op n data chunks Y s M \<and> frame2 {..<n} data tot scr ssz M0 M \<and>
       (\<forall>r<n. rd (M r) (scr r) (chunkLen chunks (behind n r (Suc s))) =
          chunkPartial (\<lambda>r. fp (c0 r)) dt op chunks Y n (behind n r (Suc s)) s))
    (\<lambda>M. scattered (\<lambda>r. fp (c0 r)) dt op n data chunks Y (Suc s) M \<and> frame2 {..<n} data tot scr ssz M0 M)"
proof (rule phase_local [where F = "\<lambda>M r. let j = behind n r (Suc s); l = chunkLen chunks j in
      wr (M r) (chunkAt (data r) chunks j) (vred (fp (c0 r)) dt op (l div vcclTypeSize dt)
        (rd (M r) (chunkAt (data r) chunks j) l) (rd (M r) (scr r) l))"], goal_cases)
  case (1 M r)
  have n: "2 \<le> n" "dt \<noteq> vcclNumTypes" using assms(1) by (auto simp: ringBufs_def)
  let ?j = "behind n r (Suc s)"
  have l: "chunkLen chunks ?j div vcclTypeSize dt * vcclTypeSize dt = chunkLen chunks ?j"
      "chunkLen chunks ?j \<le> ssz"
    using assms(1) n by (auto simp: ringBufs_def)
  have "disj (chunkAt (data r) chunks ?j) (chunkLen chunks ?j) (scr r) (chunkLen chunks ?j)"
    using ringBufs_scr [OF assms(1), of r ?j] 1 n l by (simp add: disj_sym)
  then show ?case
    using n assms(2,3) l
    by (cases "chunkLen chunks ?j = 0")
      (simp_all add: cwhen_def ok_def reduceC_Ret Let_def, simp_all add: upd_def Let_def)
next
  case (2 M)
  then show ?case using scatter_reduce [OF assms(1,4), of "\<lambda>r. fp (c0 r)" op Y M M0] by auto
qed

lemma rsLoop_phase:
  assumes "world n c0" "ringBufs n tot dt chunks data scr ssz" "0 \<le> op" "op < vcclNumOps"
  shows "phase {..<n} c0 (\<lambda>_. []) (\<lambda>r. loop (n - 1) (rsBody n r (data r) chunks dt op (scr r))) (\<lambda>_. [])
    (\<lambda>M. scattered (\<lambda>r. fp (c0 r)) dt op n data chunks Y 0 M \<and> frame2 {..<n} data tot scr ssz M0 M)
    (\<lambda>M. scattered (\<lambda>r. fp (c0 r)) dt op n data chunks Y (n - 1) M \<and> frame2 {..<n} data tot scr ssz M0 M)"
proof (rule phase_loop [where q = "\<lambda>_ _. []"])
  fix s assume s: "s < n - 1"
  have n: "2 \<le> n" using assms(2) by (simp add: ringBufs_def)
  have le: "chunkLen chunks (behind n r t) \<le> ssz" for r t
    using assms(2) n by (simp add: ringBufs_def)
  have "roundOk {..<n} c0 (\<lambda>r. (r + 1) mod n) (\<lambda>r. (r + n - 1) mod n)
      (\<lambda>r. chunkAt (data r) chunks (behind n r s)) (\<lambda>r. chunkLen chunks (behind n r s)) scr
      (\<lambda>r. chunkLen chunks (behind n r (Suc s))) (\<lambda>_. []) (\<lambda>_. [])"
    using world_peers [OF assms(1), of _ 1] n behind_prev [of s n _ 0] s
      ringBufs_scr [OF assms(2) _ _ le, THEN disj_sym [THEN iffD1]]
    by (simp add: roundOk_def)
  then have "phase {..<n} c0 (\<lambda>_. []) (\<lambda>r. sendRecv ((r + 1) mod n) (chunkAt (data r) chunks (behind n r s))
      (chunkLen chunks (behind n r s)) ((r + n - 1) mod n) (scr r) (chunkLen chunks (behind n r (Suc s)))) (\<lambda>_. [])
    (\<lambda>M. scattered (\<lambda>r. fp (c0 r)) dt op n data chunks Y s M \<and> frame2 {..<n} data tot scr ssz M0 M)
    (\<lambda>M. scattered (\<lambda>r. fp (c0 r)) dt op n data chunks Y s M \<and> frame2 {..<n} data tot scr ssz M0 M \<and>
       (\<forall>r<n. rd (M r) (scr r) (chunkLen chunks (behind n r (Suc s))) =
          chunkPartial (\<lambda>r. fp (c0 r)) dt op chunks Y n (behind n r (Suc s)) s))"
    by (rule phase_shift [where s = 1]) (use n scatter_recv [OF assms(2) s] in auto)
  from phase_check [OF this phase_last [OF reduce_phase [OF assms(2-4) s]]]
  show "phase {..<n} c0 (\<lambda>_. []) (\<lambda>r. rsBody n r (data r) chunks dt op (scr r) s) (\<lambda>_. [])
    (\<lambda>M. scattered (\<lambda>r. fp (c0 r)) dt op n data chunks Y s M \<and> frame2 {..<n} data tot scr ssz M0 M)
    (\<lambda>M. scattered (\<lambda>r. fp (c0 r)) dt op n data chunks Y (Suc s) M \<and> frame2 {..<n} data tot scr ssz M0 M)"
    by (simp add: rsBody_def)
qed

end
