(* ===== verification/Vccl_Doubling.thy ===== *)
theory Vccl_Doubling
  imports Vccl_Masks Vccl_Ring
begin

text \<open>
  Recursive doubling on \<open>2 ^ k\<close> ranks: at step \<open>i\<close> rank \<open>r\<close> exchanges with \<open>r XOR 2 ^ i\<close>. All-gather
  merges blocks of ranks, all-reduce merges partial results. The announced receives name disjoint
  buffers and no step touches one before it is consumed.
\<close>

unbundle bit_operations_syntax

subsection \<open>Byte ranges of blocks\<close>

lemma disj_scale:
  assumes "a + x \<le> b \<or> b + y \<le> a"
  shows "disj (p + a * cb) (cb * x) (p + b * cb) (cb * y)"
proof -
  have "(a + x) * cb \<le> b * cb \<or> (b + y) * cb \<le> a * cb"
    using assms mult_le_mono1 by blast
  then show ?thesis unfolding disj_def by (metis add.assoc add_mult_distrib mult.commute nat_add_left_cancel_le)
qed

lemma block_range_disj:
  assumes "i \<le> j" "x div 2 ^ j \<noteq> (y div 2 ^ j :: nat)"
  shows "disj (p + blockOf i x * cb) (cb * 2 ^ i) (p + blockOf j y * cb) (cb * 2 ^ j)"
  using block_sub [OF assms(1), of x] block_disj [OF assms(2)] by (intro disj_scale) linarith

lemma partner_div: "Suc i \<le> j \<Longrightarrow> (r XOR 2 ^ i) div 2 ^ j = (r div 2 ^ j :: nat)"
proof -
  assume "Suc i \<le> j"
  then have "(2::nat) ^ j = 2 ^ Suc i * 2 ^ (j - Suc i)" by (simp flip: power_add power_Suc)
  then show ?thesis using xor_pow2_div_Suc [of r i] by (simp add: div_mult2_eq)
qed

lemma block_range_end: "x < 2 ^ k \<Longrightarrow> i \<le> k \<Longrightarrow> (blockOf i x + 2 ^ i) * cb \<le> 2 ^ k * cb"
  using block_sub(2) [of i k x] by (intro mult_le_mono1) (simp add: blockOf_eq)

subsection \<open>All-gather\<close>

definition rdReqs :: "addr \<Rightarrow> nat \<Rightarrow> nat \<Rightarrow> nat \<Rightarrow> RecvReq list" where
  "rdReqs data cb k r =
     map (\<lambda>i. \<lparr>rqPeer = r XOR 2 ^ i, rqBuf = data + blockOf i (r XOR 2 ^ i) * cb, rqBytes = cb * 2 ^ i\<rparr>)
       [0..<k]"

definition blockGathered ::
  "nat \<Rightarrow> (nat \<Rightarrow> addr) \<Rightarrow> nat \<Rightarrow> (nat \<Rightarrow> byte list) \<Rightarrow> nat \<Rightarrow> (nat \<Rightarrow> mem) \<Rightarrow> bool" where
  "blockGathered n data cb X i M \<longleftrightarrow>
     (\<forall>r<n. \<forall>j<n. j div 2 ^ i = r div 2 ^ i \<longrightarrow> rd (M r) (data r + j * cb) cb = X j)"

lemma recursiveDoublingAllGather_eq:
  assumes "world (2 ^ k) c0" "r < 2 ^ k"
  shows "recursiveDoublingAllGather data cb (upd c0 M q r) =
    vseq [postRecvs (rdReqs data cb k r),
          loop k (\<lambda>i. sendRecv (r XOR 2 ^ i) (data + blockOf i r * cb) (cb * 2 ^ i)
            (r XOR 2 ^ i) (data + blockOf i (r XOR 2 ^ i) * cb) (cb * 2 ^ i))] (upd c0 M q r)"
  using assms
  by (simp add: recursiveDoublingAllGather_def Let_def world_def maskSteps_eq rdReqs_def loop_def comp_def)

lemma world_pairs:
  assumes "world (2 ^ k) c0" "r < 2 ^ k" "i < k"
  shows "transport (comm (c0 r)) \<noteq> None" "peerOk (comm (c0 r)) (r XOR 2 ^ i)"
  using assms pairs.to_A [of r i k] pairs.to_ne [of r i k] by (auto simp: world_def peerOk_def)

lemma rd_roundOk:
  assumes "world (2 ^ k) c0" "i < k"
  shows "roundOk {..<2 ^ k} c0 (\<lambda>r. r XOR 2 ^ i) (\<lambda>r. r XOR 2 ^ i)
    (\<lambda>r. data r + blockOf i r * cb) (\<lambda>r. cb * 2 ^ i)
    (\<lambda>r. data r + blockOf i (r XOR 2 ^ i) * cb) (\<lambda>r. cb * 2 ^ i)
    (\<lambda>r. postedFrom (rdReqs (data r) cb k r) i) (\<lambda>r. postedFrom (rdReqs (data r) cb k r) (Suc i))"
  unfolding roundOk_def
proof (intro ballI conjI)
  fix r :: nat assume "r \<in> {..<2 ^ k}"
  then have r: "r < 2 ^ k" by simp
  show "transport (comm (c0 r)) \<noteq> None" "peerOk (comm (c0 r)) (r XOR 2 ^ i)"
    "peerOk (comm (c0 r)) (r XOR 2 ^ i)"
    using world_pairs [OF assms(1) r assms(2)] by simp_all
  show "disj (data r + blockOf i r * cb) (cb * 2 ^ i) (data r + blockOf i (r XOR 2 ^ i) * cb) (cb * 2 ^ i)"
    using block_ne [of r i] by (intro block_range_disj) auto
  show "if cb * 2 ^ i = 0
      then postedFrom (rdReqs (data r) cb k r) (Suc i) = postedFrom (rdReqs (data r) cb k r) i
      else consume (r XOR 2 ^ i) (data r + blockOf i (r XOR 2 ^ i) * cb) (cb * 2 ^ i)
             (postedFrom (rdReqs (data r) cb k r) i) = Some (postedFrom (rdReqs (data r) cb k r) (Suc i))"
    by (rule consume_postedFrom) (use assms(2) in \<open>simp_all add: rdReqs_def\<close>)
  show "freeOf (postedFrom (rdReqs (data r) cb k r) (Suc i)) (data r + blockOf i r * cb) (cb * 2 ^ i)"
  proof (rule freeOf_postedFrom)
    fix j assume j: "Suc i \<le> j" "j < length (rdReqs (data r) cb k r)"
    then show "disj (rqBuf (rdReqs (data r) cb k r ! j)) (rqBytes (rdReqs (data r) cb k r ! j))
        (data r + blockOf i r * cb) (cb * 2 ^ i)"
      using block_range_disj [of i j r "r XOR 2 ^ j" "data r" cb] block_ne [of r j, symmetric]
      by (simp add: rdReqs_def disj_sym)
  qed
  show "freeOf (postedFrom (rdReqs (data r) cb k r) (Suc i)) (data r + blockOf i (r XOR 2 ^ i) * cb) (cb * 2 ^ i)"
  proof (rule freeOf_postedFrom)
    fix j assume j: "Suc i \<le> j" "j < length (rdReqs (data r) cb k r)"
    then have "(r XOR 2 ^ i) div 2 ^ j \<noteq> (r XOR 2 ^ j) div 2 ^ j"
      using partner_div [of i j r] block_ne [of r j] by metis
    then show "disj (rqBuf (rdReqs (data r) cb k r ! j)) (rqBytes (rdReqs (data r) cb k r ! j))
        (data r + blockOf i (r XOR 2 ^ i) * cb) (cb * 2 ^ i)"
      using j block_range_disj [of i j "r XOR 2 ^ i" "r XOR 2 ^ j" "data r" cb]
      by (simp add: rdReqs_def disj_sym)
  qed
qed simp_all

lemma rd_step:
  assumes "i < k" and inv: "blockGathered (2 ^ k) data cb X i M" "frame {..<2 ^ k} data (2 ^ k * cb) M0 M"
  defines "M' \<equiv> roundMem (\<lambda>r. r XOR 2 ^ i) (\<lambda>r. data r + blockOf i r * cb) (\<lambda>r. cb * 2 ^ i)
    (\<lambda>r. data r + blockOf i (r XOR 2 ^ i) * cb) M"
  shows "blockGathered (2 ^ k) data cb X (Suc i) M' \<and> frame {..<2 ^ k} data (2 ^ k * cb) M0 M'"
proof
  show "blockGathered (2 ^ k) data cb X (Suc i) M'"
    unfolding blockGathered_def
  proof (intro allI impI)
    fix r j :: nat assume r: "r < 2 ^ k" and j: "j < 2 ^ k" "j div 2 ^ Suc i = r div 2 ^ Suc i"
    let ?p = "r XOR 2 ^ i"
    have p: "?p < 2 ^ k" using r assms(1) by (rule xor_pow2_less)
    have bm: "blockOf i j \<le> j" "j < blockOf i j + 2 ^ i" by (rule block_mem)+
    show "rd (M' r) (data r + j * cb) cb = X j"
    proof (cases "j div 2 ^ i = ?p div 2 ^ i")
      case True
      then have b: "blockOf i ?p = blockOf i j" by (simp add: blockOf_eq)
      let ?o = "(j - blockOf i j) * cb"
      have o: "blockOf i j * cb + ?o = j * cb"
        using bm(1) by (simp flip: add_mult_distrib)
      have "(j - blockOf i j + 1) * cb \<le> 2 ^ i * cb" using bm by (intro mult_le_mono1) linarith
      then have "?o + cb \<le> cb * 2 ^ i" by (simp add: mult.commute)
      then have "rd (M' r) (data r + blockOf i j * cb + ?o) cb = rd (M ?p) (data ?p + blockOf i j * cb + ?o) cb"
        unfolding M'_def roundMem_def b by (rule rd_wr_copy)
      then have "rd (M' r) (data r + j * cb) cb = rd (M ?p) (data ?p + j * cb) cb"
        by (simp only: add.assoc o)
      then show ?thesis using inv(1) p j True by (simp add: blockGathered_def)
    next
      case False
      then have jr: "j div 2 ^ i = r div 2 ^ i" using block_merge [OF j(2)] by blast
      have "blockOf i ?p + 2 ^ i \<le> j \<or> j + 1 \<le> blockOf i ?p"
        using block_disj [OF False] bm by linarith
      then have "disj (data r + blockOf i ?p * cb) (cb * 2 ^ i) (data r + j * cb) (cb * 1)"
        by (rule disj_scale)
      then have "rd (M' r) (data r + j * cb) cb = rd (M r) (data r + j * cb) cb"
        unfolding M'_def roundMem_def by (intro rd_wr_disj) (simp del: disj_shift)
      then show ?thesis using inv(1) r j jr by (simp add: blockGathered_def)
    qed
  qed
  have "blockOf i (r XOR 2 ^ i) * cb + cb * 2 ^ i \<le> 2 ^ k * cb" if "r < 2 ^ k" for r
    using block_range_end [OF xor_pow2_less [OF that assms(1)], of i cb] assms(1)
    by (simp only: less_imp_le add_mult_distrib mult.commute [of cb])
  then show "frame {..<2 ^ k} data (2 ^ k * cb) M0 M'"
    unfolding M'_def roundMem_def by (intro frame_wr inv(2)) (simp add: add.assoc)
qed

lemma rdReqs_ok:
  assumes "world (2 ^ k) c0"
  shows "phase {..<2 ^ k} c0 (\<lambda>_. []) (\<lambda>r. postRecvs (rdReqs (data r) cb k r))
    (\<lambda>r. postedFrom (rdReqs (data r) cb k r) 0) J J"
proof (rule phase_postRecvs)
  fix r i j :: nat assume r: "r \<in> {..<2 ^ k}"
  show "transport (comm (c0 r)) \<noteq> None" using assms r by (simp add: world_def)
  show "i < length (rdReqs (data r) cb k r) \<Longrightarrow> peerOk (comm (c0 r)) (rqPeer (rdReqs (data r) cb k r ! i))"
    using world_pairs [OF assms] r by (simp add: rdReqs_def)
  assume j: "i < j" "j < length (rdReqs (data r) cb k r)"
  then have "(r XOR 2 ^ i) div 2 ^ j \<noteq> (r XOR 2 ^ j) div 2 ^ j"
    using partner_div [of i j r] block_ne [of r j] by (metis Suc_leI)
  then show "disj (rqBuf (rdReqs (data r) cb k r ! i)) (rqBytes (rdReqs (data r) cb k r ! i))
      (rqBuf (rdReqs (data r) cb k r ! j)) (rqBytes (rdReqs (data r) cb k r ! j))"
    using j block_range_disj [of i j "r XOR 2 ^ i" "r XOR 2 ^ j" "data r" cb] by (simp add: rdReqs_def)
qed

lemma recursiveDoublingAllGather_phase:
  assumes "world (2 ^ k) c0"
  shows "phase {..<2 ^ k} c0 (\<lambda>_. []) (\<lambda>r. recursiveDoublingAllGather (data r) cb) (\<lambda>_. [])
    (\<lambda>M. blockGathered (2 ^ k) data cb X 0 M \<and> frame {..<2 ^ k} data (2 ^ k * cb) M0 M)
    (\<lambda>M. (\<forall>r<2 ^ k. \<forall>j<2 ^ k. rd (M r) (data r + j * cb) cb = X j) \<and>
         frame {..<2 ^ k} data (2 ^ k * cb) M0 M)"
proof -
  let ?q = "\<lambda>i r. postedFrom (rdReqs (data r) cb k r) i"
  let ?J = "\<lambda>i M. blockGathered (2 ^ k) data cb X i M \<and> frame {..<2 ^ k} data (2 ^ k * cb) M0 M"
  have "phase {..<2 ^ k} c0 (?q 0) (\<lambda>r. loop k (\<lambda>i. sendRecv (r XOR 2 ^ i) (data r + blockOf i r * cb)
      (cb * 2 ^ i) (r XOR 2 ^ i) (data r + blockOf i (r XOR 2 ^ i) * cb) (cb * 2 ^ i))) (?q k) (?J 0) (?J k)"
    by (rule phase_loop, rule phase_pairs [OF rd_roundOk [OF assms]]) (use rd_step in auto)
  moreover have "?q k = (\<lambda>_. [])" by (simp add: rdReqs_def)
  ultimately have "phase {..<2 ^ k} c0 (\<lambda>_. []) (\<lambda>r. recursiveDoublingAllGather (data r) cb) (\<lambda>_. []) (?J 0) (?J k)"
    by (subst phase_cong, subst recursiveDoublingAllGather_eq [OF assms])
      (auto intro!: refl phase_check [OF rdReqs_ok [OF assms]] phase_last)
  then show ?thesis by (rule phase_conseq) (auto simp: blockGathered_def)
qed

subsection \<open>All-reduce core\<close>

text \<open>The \<open>2 ^ k\<close> active ranks are numbered by \<open>elimPeer e\<close> (\<open>e = 0\<close> is the identity) with inverse
  \<open>elimInv e\<close>; active ranks \<open>u\<close> and \<open>u XOR 2 ^ i\<close> exchange at step \<open>i\<close>.\<close>

definition elimInv :: "nat \<Rightarrow> nat \<Rightarrow> nat" where
  "elimInv e r = (if r < 2 * e then r div 2 else r - e)"

lemma elimInv_elimPeer [simp]: "elimInv e (elimPeer e u) = u"
  by (simp add: elimInv_def elimPeer_def)

lemma elimPeer_inj: "elimPeer e u = elimPeer e v \<longleftrightarrow> u = v"
  by (metis elimInv_elimPeer)

lemma elimPeer_0 [simp]: "elimPeer 0 u = u" "elimInv 0 r = r"
  by (simp_all add: elimPeer_def elimInv_def)

definition active :: "nat \<Rightarrow> nat \<Rightarrow> nat set" where
  "active e k = elimPeer e ` {..<2 ^ k}"

definition partner :: "nat \<Rightarrow> nat \<Rightarrow> nat \<Rightarrow> nat" where
  "partner e i r = elimPeer e (elimInv e r XOR 2 ^ i)"

interpretation elim: routing "if i < k then active e k else {}" "partner e i" "partner e i" for i k e :: nat
proof
  fix r assume "r \<in> (if i < k then active e k else {})"
  then obtain u where u: "i < k" "u < 2 ^ k" "r = elimPeer e u" by (auto simp: active_def split: if_splits)
  then show "partner e i r \<in> (if i < k then active e k else {})"
    by (auto simp: active_def partner_def xor_pow2_less)
  show "partner e i r \<noteq> r" using u pairs.to_ne [of u i k] by (simp add: partner_def elimPeer_inj)
  show "partner e i (partner e i r) = r" by (simp add: partner_def xor.assoc u)
qed (simp add: active_def)

lemma phase_partner:
  assumes "roundOk (active e k) c0 (partner e i) (partner e i) sb sn rb rn q q'" "i < k"
    and "\<And>M. J M \<Longrightarrow> J' (roundMem (partner e i) sb sn rb M)"
  shows "phase (active e k) c0 q
    (\<lambda>r. sendRecv (partner e i r) (sb r) (sn r) (partner e i r) (rb r) (rn r)) q' J J'"
  using elim.round_phase [of i k e c0 sb sn rb rn q q' J J'] assms by simp

primrec rdPartial ::
  "(nat \<Rightarrow> byte list \<Rightarrow> byte list \<Rightarrow> byte list) \<Rightarrow> (nat \<Rightarrow> byte list) \<Rightarrow> nat \<Rightarrow> nat \<Rightarrow> byte list" where
  "rdPartial red y 0 u = y u"
| "rdPartial red y (Suc i) u = red u (rdPartial red y i u) (rdPartial red y i (u XOR 2 ^ i))"

definition coreBody :: "addr \<Rightarrow> nat \<Rightarrow> vcclDataType_t \<Rightarrow> vcclRedOp_t \<Rightarrow> nat \<Rightarrow> addr \<Rightarrow> cmd" where
  "coreBody recv cnt dt op p rgn =
     vseq [sendRecv p recv (cnt * vcclTypeSize dt) p rgn (cnt * vcclTypeSize dt),
           reduceC dt op recv rgn cnt]"

definition coreReqs :: "nat \<Rightarrow> addr \<Rightarrow> nat \<Rightarrow> nat \<Rightarrow> nat \<Rightarrow> RecvReq list" where
  "coreReqs e rg nb k r = map (\<lambda>i. \<lparr>rqPeer = partner e i r, rqBuf = rg + i * nb, rqBytes = nb\<rparr>) [0..<k]"

definition coreOk ::
  "nat \<Rightarrow> nat \<Rightarrow> (nat \<Rightarrow> ctx) \<Rightarrow> vcclDataType_t \<Rightarrow> vcclRedOp_t \<Rightarrow> nat \<Rightarrow> (nat \<Rightarrow> addr) \<Rightarrow> (nat \<Rightarrow> addr) \<Rightarrow> bool" where
  "coreOk e k c0 dt op nb recv rg \<longleftrightarrow> dt \<noteq> vcclNumTypes \<and> 0 \<le> op \<and> op < vcclNumOps \<and>
     (\<forall>r\<in>active e k. transport (comm (c0 r)) \<noteq> None \<and>
        (\<forall>i<k. peerOk (comm (c0 r)) (partner e i r)) \<and> disj (recv r) nb (rg r) (k * nb))"

definition reducedCore ::
  "nat \<Rightarrow> nat \<Rightarrow> (nat \<Rightarrow> addr) \<Rightarrow> nat \<Rightarrow> (nat \<Rightarrow> byte list) \<Rightarrow> (nat \<Rightarrow> mem) \<Rightarrow> bool" where
  "reducedCore e k recv nb V M \<longleftrightarrow> (\<forall>u<2 ^ k. rd (M (elimPeer e u)) (recv (elimPeer e u)) nb = V u)"

lemma region_disj: "i \<noteq> j \<Longrightarrow> disj (p + i * nb) nb (p + j * nb) nb"
proof -
  assume "i \<noteq> j"
  then have "i + 1 \<le> j \<or> j + 1 \<le> i" by linarith
  from disj_scale [OF this, of p nb] show ?thesis by (simp del: disj_shift)
qed

lemma coreOk_region:
  assumes "coreOk e k c0 dt op nb recv rg" "r \<in> active e k" "i < k"
  shows "disj (recv r) nb (rg r + i * nb) nb" "rg r + i * nb + nb \<le> rg r + k * nb"
proof -
  have "(i + 1) * nb \<le> k * nb" using assms(3) by (intro mult_le_mono1) simp
  then show "rg r + i * nb + nb \<le> rg r + k * nb" by simp
  moreover have "disj (recv r) nb (rg r) (k * nb)" using assms by (simp add: coreOk_def)
  ultimately show "disj (recv r) nb (rg r + i * nb) nb" by (auto simp: disj_def)
qed

lemma core_roundOk:
  assumes "coreOk e k c0 dt op nb recv rg" "i < k"
  shows "roundOk (active e k) c0 (partner e i) (partner e i) recv (\<lambda>_. nb) (\<lambda>r. rg r + i * nb) (\<lambda>_. nb)
    (\<lambda>r. postedFrom (coreReqs e (rg r) nb k r) i) (\<lambda>r. postedFrom (coreReqs e (rg r) nb k r) (Suc i))"
  unfolding roundOk_def
proof (intro ballI conjI)
  fix r assume r: "r \<in> active e k"
  note reg = coreOk_region [OF assms(1) r]
  show "transport (comm (c0 r)) \<noteq> None" "peerOk (comm (c0 r)) (partner e i r)"
    "peerOk (comm (c0 r)) (partner e i r)" using assms r by (auto simp: coreOk_def)
  show "disj (recv r) nb (rg r + i * nb) nb" using reg assms(2) by blast
  show "if nb = 0 then postedFrom (coreReqs e (rg r) nb k r) (Suc i) = postedFrom (coreReqs e (rg r) nb k r) i
      else consume (partner e i r) (rg r + i * nb) nb (postedFrom (coreReqs e (rg r) nb k r) i) =
        Some (postedFrom (coreReqs e (rg r) nb k r) (Suc i))"
    by (rule consume_postedFrom) (use assms(2) in \<open>simp_all add: coreReqs_def\<close>)
  show "freeOf (postedFrom (coreReqs e (rg r) nb k r) (Suc i)) (recv r) nb"
    using reg(1) by (intro freeOf_postedFrom) (simp add: coreReqs_def disj_sym)
  show "freeOf (postedFrom (coreReqs e (rg r) nb k r) (Suc i)) (rg r + i * nb) nb"
    by (intro freeOf_postedFrom) (simp add: coreReqs_def region_disj del: disj_shift)
qed simp_all

lemma core_recv:
  assumes ok: "coreOk e k c0 dt op nb recv rg" and i: "i < k"
    and inv: "reducedCore e k recv nb V M" "frame2 (active e k) recv nb rg (k * nb) M0 M"
  defines "M' \<equiv> roundMem (partner e i) recv (\<lambda>_. nb) (\<lambda>r. rg r + i * nb) M"
  shows "reducedCore e k recv nb V M'" and "frame2 (active e k) recv nb rg (k * nb) M0 M'"
    and "u < 2 ^ k \<Longrightarrow> rd (M' (elimPeer e u)) (rg (elimPeer e u) + i * nb) nb = V (u XOR 2 ^ i)"
proof -
  have M': "M' (elimPeer e u) = wr (M (elimPeer e u)) (rg (elimPeer e u) + i * nb) (V (u XOR 2 ^ i))"
    if "u < 2 ^ k" for u
    using inv(1) xor_pow2_less [OF that i] by (simp add: M'_def roundMem_def partner_def reducedCore_def)
  have len: "length (V u) = nb" if "u < 2 ^ k" for u
    using inv(1) that length_rd unfolding reducedCore_def by metis
  have act: "elimPeer e u \<in> active e k" if "u < 2 ^ k" for u using that by (simp add: active_def)
  note reg = coreOk_region [OF ok act i]
  show "reducedCore e k recv nb V M'"
    unfolding reducedCore_def
  proof (intro allI impI)
    fix u :: nat assume u: "u < 2 ^ k"
    have "disj (rg (elimPeer e u) + i * nb) (length (V (u XOR 2 ^ i))) (recv (elimPeer e u)) nb"
      using reg(1) [OF u] len [OF xor_pow2_less [OF u i]] by (simp add: disj_sym)
    then show "rd (M' (elimPeer e u)) (recv (elimPeer e u)) nb = V u"
      using M' [OF u] rd_wr_disj inv(1) u by (simp add: reducedCore_def)
  qed
  show "u < 2 ^ k \<Longrightarrow> rd (M' (elimPeer e u)) (rg (elimPeer e u) + i * nb) nb = V (u XOR 2 ^ i)"
    using M' len xor_pow2_less [OF _ i] by (simp add: rd_wr_same)
  show "frame2 (active e k) recv nb rg (k * nb) M0 M'"
    unfolding M'_def roundMem_def using coreOk_region(2) [OF ok _ i]
    by (intro frame2_wr inv(2)) simp
qed

lemma core_reduce:
  fixes F :: "nat \<Rightarrow> fpu"
  assumes ok: "coreOk e k c0 dt op nb recv rg" and i: "i < k" and nb: "nb = cnt * vcclTypeSize dt"
    and inv: "reducedCore e k recv nb V M" "frame2 (active e k) recv nb rg (k * nb) M0 M"
    and rgn: "\<And>u. u < 2 ^ k \<Longrightarrow> rd (M (elimPeer e u)) (rg (elimPeer e u) + i * nb) nb = V (u XOR 2 ^ i)"
  defines "M' \<equiv> \<lambda>r. wr (M r) (recv r)
    (vred (F r) dt op cnt (rd (M r) (recv r) nb) (rd (M r) (rg r + i * nb) nb))"
  shows "reducedCore e k recv nb (\<lambda>u. vred (F (elimPeer e u)) dt op cnt (V u) (V (u XOR 2 ^ i))) M'"
    and "frame2 (active e k) recv nb rg (k * nb) M0 M'"
proof -
  have dt: "dt \<noteq> vcclNumTypes" using ok by (simp add: coreOk_def)
  have "rd (M (elimPeer e u)) (recv (elimPeer e u)) nb = V u" if "u < 2 ^ k" for u
    using inv(1) that by (simp add: reducedCore_def)
  then show "reducedCore e k recv nb (\<lambda>u. vred (F (elimPeer e u)) dt op cnt (V u) (V (u XOR 2 ^ i))) M'"
    using rgn by (simp add: reducedCore_def M'_def rd_wr_same nb dt)
  show "frame2 (active e k) recv nb rg (k * nb) M0 M'"
    unfolding M'_def by (intro frame2_wr inv(2)) (simp add: nb dt)
qed

lemma core_step:
  fixes y :: "nat \<Rightarrow> byte list"
  assumes ok: "coreOk e k c0 dt op nb recv rg" and i: "i < k" and nb: "nb = cnt * vcclTypeSize dt"
  defines "V \<equiv> rdPartial (\<lambda>u. vred (fp (c0 (elimPeer e u))) dt op cnt) y"
  shows "phase (active e k) c0 (\<lambda>r. postedFrom (coreReqs e (rg r) nb k r) i)
    (\<lambda>r. coreBody (recv r) cnt dt op (partner e i r) (rg r + i * nb))
    (\<lambda>r. postedFrom (coreReqs e (rg r) nb k r) (Suc i))
    (\<lambda>M. reducedCore e k recv nb (V i) M \<and> frame2 (active e k) recv nb rg (k * nb) M0 M)
    (\<lambda>M. reducedCore e k recv nb (V (Suc i)) M \<and> frame2 (active e k) recv nb rg (k * nb) M0 M)"
proof -
  let ?q = "\<lambda>r. postedFrom (coreReqs e (rg r) nb k r) (Suc i)"
  let ?R = "\<lambda>M. \<forall>u<2 ^ k. rd (M (elimPeer e u)) (rg (elimPeer e u) + i * nb) nb = V i (u XOR 2 ^ i)"
  have free: "freeOf (?q r) (recv r) nb" "freeOf (?q r) (rg r + i * nb) nb" if "r \<in> active e k" for r
    using core_roundOk [OF ok i] that by (auto simp: roundOk_def)
  have red: "phase (active e k) c0 ?q (\<lambda>r. reduceC dt op (recv r) (rg r + i * nb) cnt) ?q
    (\<lambda>M. reducedCore e k recv nb (V i) M \<and> frame2 (active e k) recv nb rg (k * nb) M0 M \<and> ?R M)
    (\<lambda>M. reducedCore e k recv nb (V (Suc i)) M \<and> frame2 (active e k) recv nb rg (k * nb) M0 M)"
  proof (rule phase_local [where F = "\<lambda>M r. wr (M r) (recv r)
      (vred (fp (c0 r)) dt op cnt (rd (M r) (recv r) nb) (rd (M r) (rg r + i * nb) nb))"], goal_cases)
    case (1 M r)
    have "reduceC dt op (recv r) (rg r + i * nb) cnt (upd c0 M ?q r) =
      Ret vcclSuccess (upd c0 (M(r := wr (M r) (recv r) (vred (fp (c0 r)) dt op cnt
        (rd (M r) (recv r) nb) (rd (M r) (rg r + i * nb) nb)))) ?q r)"
      unfolding nb using ok free [OF 1(2)] coreOk_region [OF ok 1(2) i]
      by (intro reduceC_Ret) (auto simp: coreOk_def nb)
    then show ?case by (simp add: upd_def)
  next
    case (2 M)
    then show ?case
      using core_reduce [OF ok i nb, of "V i" M M0 "\<lambda>r. fp (c0 r)"]
      by (simp add: V_def reducedCore_def)
  qed
  have "phase (active e k) c0 (\<lambda>r. postedFrom (coreReqs e (rg r) nb k r) i)
    (\<lambda>r. sendRecv (partner e i r) (recv r) nb (partner e i r) (rg r + i * nb) nb) ?q
    (\<lambda>M. reducedCore e k recv nb (V i) M \<and> frame2 (active e k) recv nb rg (k * nb) M0 M)
    (\<lambda>M. reducedCore e k recv nb (V i) M \<and> frame2 (active e k) recv nb rg (k * nb) M0 M \<and> ?R M)"
    by (rule phase_partner [OF core_roundOk [OF ok i] i]) (use core_recv [OF ok i] in blast)
  from phase_check [OF this phase_last [OF red]] show ?thesis
    by (simp add: coreBody_def nb [symmetric])
qed

lemma core_phase:
  fixes y :: "nat \<Rightarrow> byte list"
  assumes "coreOk e k c0 dt op nb recv rg" "nb = cnt * vcclTypeSize dt"
  defines "V \<equiv> rdPartial (\<lambda>u. vred (fp (c0 (elimPeer e u))) dt op cnt) y"
  shows "phase (active e k) c0 (\<lambda>r. postedFrom (coreReqs e (rg r) nb k r) 0)
    (\<lambda>r. loop k (\<lambda>i. coreBody (recv r) cnt dt op (partner e i r) (rg r + i * nb))) (\<lambda>_. [])
    (\<lambda>M. reducedCore e k recv nb y M \<and> frame2 (active e k) recv nb rg (k * nb) M0 M)
    (\<lambda>M. reducedCore e k recv nb (V k) M \<and> frame2 (active e k) recv nb rg (k * nb) M0 M)"
proof -
  have "phase (active e k) c0 (\<lambda>r. postedFrom (coreReqs e (rg r) nb k r) 0)
    (\<lambda>r. loop k (\<lambda>i. coreBody (recv r) cnt dt op (partner e i r) (rg r + i * nb)))
    (\<lambda>r. postedFrom (coreReqs e (rg r) nb k r) k)
    (\<lambda>M. reducedCore e k recv nb (V 0) M \<and> frame2 (active e k) recv nb rg (k * nb) M0 M)
    (\<lambda>M. reducedCore e k recv nb (V k) M \<and> frame2 (active e k) recv nb rg (k * nb) M0 M)"
    unfolding V_def by (rule phase_loop) (rule core_step [OF assms(1) _ assms(2)])
  moreover have "V 0 = y" by (auto simp: V_def)
  moreover have "(\<lambda>r. postedFrom (coreReqs e (rg r) nb k r) k) = (\<lambda>_. [])" by (simp add: coreReqs_def)
  ultimately show ?thesis by simp
qed

subsection \<open>Recursive-doubling all-reduce\<close>

lemma coreReqs_ok:
  assumes "coreOk e k c0 dt op nb recv rg" "r \<in> active e k"
  shows "reqsDisjoint (coreReqs e (rg r) nb k r)"
    and "list_all (\<lambda>q. peerOk (comm (c0 r)) (rqPeer q)) (coreReqs e (rg r) nb k r)"
proof -
  show "reqsDisjoint (coreReqs e (rg r) nb k r)"
    by (rule reqsDisjointI) (simp add: coreReqs_def region_disj del: disj_shift)
  show "list_all (\<lambda>q. peerOk (comm (c0 r)) (rqPeer q)) (coreReqs e (rg r) nb k r)"
    using assms by (simp add: coreReqs_def list_all_iff coreOk_def)
qed

definition rdCmd :: "nat \<Rightarrow> nat \<Rightarrow> addr \<Rightarrow> nat \<Rightarrow> vcclDataType_t \<Rightarrow> vcclRedOp_t \<Rightarrow> addr \<Rightarrow> cmd" where
  "rdCmd k r recv cnt dt op scr =
     vseq [postRecvs (coreReqs 0 scr (cnt * vcclTypeSize dt) k r),
           loop k (\<lambda>i. coreBody recv cnt dt op (partner 0 i r) (scr + i * (cnt * vcclTypeSize dt)))]"

lemma recursiveDoublingAllReduce_eq:
  assumes "world (2 ^ k) c0" "r < 2 ^ k"
  shows "recursiveDoublingAllReduce recv cnt dt op (upd c0 M q r) =
    withScratch (k * (cnt * vcclTypeSize dt)) (rdCmd k r recv cnt dt op) (upd c0 M q r)"
  using assms
  by (simp add: recursiveDoublingAllReduce_def Let_def world_def maskSteps_eq rdCmd_def [abs_def] coreReqs_def
      coreBody_def loop_def comp_def partner_def)

lemma rdCmd_phase:
  fixes y :: "nat \<Rightarrow> byte list"
  assumes "world (2 ^ k) c0" "dt \<noteq> vcclNumTypes" "0 \<le> op" "op < vcclNumOps" "nb = cnt * vcclTypeSize dt"
    and "\<And>r. r < 2 ^ k \<Longrightarrow> disj (recv r) nb (scr r) (k * nb)"
  defines "V \<equiv> rdPartial (\<lambda>u. vred (fp (c0 u)) dt op cnt) y"
  shows "phase {..<2 ^ k} c0 (\<lambda>_. []) (\<lambda>r. rdCmd k r (recv r) cnt dt op (scr r)) (\<lambda>_. [])
    (\<lambda>M. (\<forall>r<2 ^ k. rd (M r) (recv r) nb = y r) \<and> frame2 {..<2 ^ k} recv nb scr (k * nb) M0 M)
    (\<lambda>M. (\<forall>r<2 ^ k. rd (M r) (recv r) nb = V k r) \<and> frame2 {..<2 ^ k} recv nb scr (k * nb) M0 M)"
proof -
  have act: "active 0 k = {..<2 ^ k}" by (simp add: active_def)
  have ok: "coreOk 0 k c0 dt op nb recv scr"
    using assms(2-4,6) world_pairs [OF assms(1)] assms(1)
    by (auto simp: coreOk_def act partner_def world_def)
  have "phase {..<2 ^ k} c0 (\<lambda>_. []) (\<lambda>r. postRecvs (coreReqs 0 (scr r) nb k r))
      (\<lambda>r. postedFrom (coreReqs 0 (scr r) nb k r) 0) J J" for J
    using coreReqs_ok [OF ok] assms(1) by (intro phase_postRecvs_list) (simp add: act world_def)
  from phase_check [OF this core_phase [OF ok assms(5), of y M0, unfolded act]]
  show ?thesis by (simp add: rdCmd_def V_def reducedCore_def assms(5))
qed

end
