(* ===== verification/Vccl_Elim.thy ===== *)
theory Vccl_Elim
  imports Vccl_Doubling
begin

text \<open>
  All-reduce by power-of-two elimination for \<open>n = 2 ^ k + e\<close> ranks, \<open>0 < e < 2 ^ k\<close>: the odd ranks
  below \<open>2 * e\<close> fold their data into their left neighbour, the \<open>2 ^ k\<close> active ranks run the core and
  the odd ranks get the result back.
\<close>

unbundle bit_operations_syntax

subsection \<open>The largest power of two\<close>

lemma largestPow2_pow: "2 ^ i \<le> n \<Longrightarrow> \<exists>k. largestPow2 (2 ^ i) n = 2 ^ k \<and> 2 ^ k \<le> n \<and> n < 2 ^ Suc k"
proof (induction "n - 2 ^ i" arbitrary: i rule: less_induct)
  case less
  show ?case
  proof (cases "2 ^ i * 2 \<le> n")
    case True
    then have le: "2 ^ Suc i \<le> n" by simp
    moreover have "(0::nat) < 2 ^ i" by simp
    ultimately have "n - 2 ^ Suc i < n - 2 ^ i" unfolding power_Suc by linarith
    from less.hyps [OF this le] have "\<exists>k. largestPow2 (2 ^ Suc i) n = 2 ^ k \<and> 2 ^ k \<le> n \<and> n < 2 ^ Suc k" .
    then show ?thesis using True by (subst largestPow2.simps) (simp add: mult.commute)
  next
    case False
    then have "largestPow2 (2 ^ i) n = 2 ^ i" by (subst largestPow2.simps) simp
    then show ?thesis using False less.prems by (intro exI [of _ i]) simp
  qed
qed

lemma largestPow2_split:
  assumes "0 < n"
  obtains k e where "n = 2 ^ k + e" "e < 2 ^ k" "largestPow2 1 n = 2 ^ k"
proof -
  obtain k where k: "largestPow2 1 n = 2 ^ k" "2 ^ k \<le> n" "n < 2 ^ Suc k"
    using largestPow2_pow [of 0 n] assms by auto
  then show ?thesis using that [of k "n - 2 ^ k"] by simp
qed

subsection \<open>Roles\<close>

definition evenS :: "nat \<Rightarrow> nat set" where "evenS e = {r. r < 2 * e \<and> even r}"
definition oddE :: "nat \<Rightarrow> nat set" where "oddE e = {r. r < 2 * e \<and> odd r}"

lemma active_iff: "e \<le> 2 ^ k \<Longrightarrow> r \<in> active e k \<longleftrightarrow> r < 2 ^ k + e \<and> r \<notin> oddE e"
proof
  assume e: "e \<le> 2 ^ k" and "r \<in> active e k"
  then show "r < 2 ^ k + e \<and> r \<notin> oddE e"
    by (auto simp: active_def oddE_def elimPeer_def split: if_splits)
next
  assume e: "e \<le> 2 ^ k" and r: "r < 2 ^ k + e \<and> r \<notin> oddE e"
  have "elimPeer e (elimInv e r) = r" using r by (auto simp: elimInv_def elimPeer_def oddE_def)
  moreover have "elimInv e r < 2 ^ k" using r e by (auto simp: elimInv_def)
  ultimately show "r \<in> active e k" unfolding active_def by (metis imageI lessThan_iff)
qed

lemma active_union: "e \<le> 2 ^ k \<Longrightarrow> active e k \<union> oddE e = {..<2 ^ k + e}" "e \<le> 2 ^ k \<Longrightarrow> active e k \<inter> oddE e = {}"
  by (auto simp: active_iff oddE_def)

lemma newRank_nonneg: "e \<le> 2 ^ k \<Longrightarrow> r < 2 ^ k + e \<Longrightarrow> elimNewRank e r \<ge> 0 \<longleftrightarrow> r \<notin> oddE e"
  by (auto simp: elimNewRank_def oddE_def)

lemma newRank_elimInv: "r \<notin> oddE e \<Longrightarrow> nat (elimNewRank e r) = elimInv e r"
  by (auto simp: elimNewRank_def oddE_def elimInv_def)

lemma pairs_union: "(\<Union>s\<in>oddE e. {s, s - 1}) = {..<2 * e}" "(\<Union>s\<in>evenS e. {s, s + 1}) = {..<2 * e}"
proof -
  have up: "r + 1 \<in> oddE e" if "r \<in> evenS e" for r
    using that unfolding oddE_def evenS_def by (auto elim!: evenE)
  have down: "r - 1 \<in> evenS e \<and> r - 1 + 1 = r" if "r \<in> oddE e" for r
    using that unfolding oddE_def evenS_def by (auto elim!: oddE)
  have either: "r \<in> evenS e \<or> r \<in> oddE e" if "r < 2 * e" for r
    using that by (auto simp: oddE_def evenS_def)
  have lt: "s \<in> oddE e \<Longrightarrow> s < 2 * e" "s \<in> evenS e \<Longrightarrow> s < 2 * e" for s
    by (simp_all add: oddE_def evenS_def)
  show "(\<Union>s\<in>oddE e. {s, s - 1}) = {..<2 * e}"
  proof (intro equalityI subsetI)
    fix r assume "r \<in> {..<2 * e}"
    then show "r \<in> (\<Union>s\<in>oddE e. {s, s - 1})"
      using either [of r] up [of r] UN_I [of "r + 1" "oddE e" r "\<lambda>s. {s, s - 1}"] by auto
  qed (use lt in fastforce)
  show "(\<Union>s\<in>evenS e. {s, s + 1}) = {..<2 * e}"
  proof (intro equalityI subsetI)
    fix r assume "r \<in> {..<2 * e}"
    then show "r \<in> (\<Union>s\<in>evenS e. {s, s + 1})"
      using either [of r] down [of r] UN_I [of "r - 1" "evenS e" r "\<lambda>s. {s, s + 1}"] by auto
  qed (use lt up in fastforce)
qed

lemma finite_roles [simp]: "finite (evenS e)" "finite (oddE e)"
  by (simp_all add: evenS_def oddE_def)

subsection \<open>The program after the scratch allocation\<close>

definition elimReqs :: "nat \<Rightarrow> nat \<Rightarrow> addr \<Rightarrow> addr \<Rightarrow> nat \<Rightarrow> nat \<Rightarrow> RecvReq list" where
  "elimReqs e k recv scr nb r =
     (if r \<in> evenS e then [\<lparr>rqPeer = r + 1, rqBuf = scr, rqBytes = nb\<rparr>] else []) @
     (if r \<in> oddE e then [\<lparr>rqPeer = r - 1, rqBuf = recv, rqBytes = nb\<rparr>]
      else coreReqs e (scr + nb) nb k r)"

definition elimCmd ::
  "nat \<Rightarrow> nat \<Rightarrow> nat \<Rightarrow> addr \<Rightarrow> nat \<Rightarrow> vcclDataType_t \<Rightarrow> vcclRedOp_t \<Rightarrow> addr \<Rightarrow> cmd" where
  "elimCmd e k r recv cnt dt op scr =
     (let nb = cnt * vcclTypeSize dt in
      vseq
        [postRecvs (elimReqs e k recv scr nb r),
         (if r \<in> evenS e then trecv (r + 1) scr nb else if r \<in> oddE e then tsend (r - 1) recv nb else ok),
         (if r \<in> evenS e then reduceC dt op recv scr cnt else ok),
         (if r \<in> oddE e then ok
          else loop k (\<lambda>i. coreBody recv cnt dt op (partner e i r) (scr + nb + i * nb))),
         (if r \<in> evenS e then tsend (r + 1) recv nb else if r \<in> oddE e then trecv (r - 1) recv nb else ok)])"

lemma pow2ElimAllReduce_eq:
  assumes "world n c0" "r < n" "n = 2 ^ k + e" "e < 2 ^ k" "largestPow2 1 n = 2 ^ k"
  shows "pow2ElimAllReduce recv cnt dt op (upd c0 M q r) =
    withScratch ((1 + k) * (cnt * vcclTypeSize dt)) (elimCmd e k r recv cnt dt op) (upd c0 M q r)"
proof -
  have e: "n - 2 ^ k = e" "e \<le> 2 ^ k" and roles: "(r < 2 * e \<and> even r) = (r \<in> evenS e)"
      "(r < 2 * e \<and> odd r) = (r \<in> oddE e)"
    using assms by (auto simp: evenS_def oddE_def)
  have nr: "(0 \<le> elimNewRank e r) = (r \<notin> oddE e)" using newRank_nonneg [OF e(2)] assms by simp
  have dis: "r \<in> evenS e \<Longrightarrow> r \<notin> oddE e" by (simp add: evenS_def oddE_def)
  show ?thesis
    using assms(1,2,5) dis
    by (simp add: pow2ElimAllReduce_def Let_def world_def roles e nr maskSteps_eq newRank_elimInv
        elimCmd_def [abs_def] elimReqs_def coreReqs_def coreBody_def partner_def loop_def comp_def
        cwhen_def add.assoc check_assoc)
qed

subsection \<open>Its phases\<close>

definition elimOk ::
  "nat \<Rightarrow> nat \<Rightarrow> nat \<Rightarrow> (nat \<Rightarrow> ctx) \<Rightarrow> vcclDataType_t \<Rightarrow> vcclRedOp_t \<Rightarrow> nat \<Rightarrow> (nat \<Rightarrow> addr) \<Rightarrow> (nat \<Rightarrow> addr) \<Rightarrow> bool" where
  "elimOk n k e c0 dt op nb recv scr \<longleftrightarrow> world n c0 \<and> n = 2 ^ k + e \<and> e < 2 ^ k \<and>
     dt \<noteq> vcclNumTypes \<and> 0 \<le> op \<and> op < vcclNumOps \<and> (\<forall>r<n. disj (recv r) nb (scr r) ((1 + k) * nb))"

definition holds :: "nat set \<Rightarrow> (nat \<Rightarrow> addr) \<Rightarrow> nat \<Rightarrow> (nat \<Rightarrow> byte list) \<Rightarrow> (nat \<Rightarrow> mem) \<Rightarrow> bool" where
  "holds A p nb y M \<longleftrightarrow> (\<forall>r\<in>A. rd (M r) (p r) nb = y r)"

lemma holds_Un: "holds (A \<union> B) p nb y M \<longleftrightarrow> holds A p nb y M \<and> holds B p nb y M"
  by (auto simp: holds_def)

lemma frame2_Un: "frame2 (A \<union> B) d t s z M0 M \<longleftrightarrow> frame2 A d t s z M0 M \<and> frame2 B d t s z M0 M"
  by (auto simp: frame2_def)

lemma holds_local: "(\<And>r. r \<in> A \<Longrightarrow> M r = M' r) \<Longrightarrow> holds A p nb y M \<Longrightarrow> holds A p nb y M'"
  by (simp add: holds_def)

lemma frame2_local: "(\<And>r. r \<in> A \<Longrightarrow> M r = M' r) \<Longrightarrow> frame2 A d t s z M0 M \<Longrightarrow> frame2 A d t s z M0 M'"
  by (simp add: frame2_def)

lemma elimOk_scr:
  assumes "elimOk n k e c0 dt op nb recv scr" "r < n"
  shows "disj (recv r) nb (scr r) nb" "disj (recv r) nb (scr r + nb) (k * nb)"
    "transport (comm (c0 r)) \<noteq> None" "rank (comm (c0 r)) = r" "nranks (comm (c0 r)) = n"
proof -
  have "disj (recv r) nb (scr r) (nb + k * nb)" using assms by (simp add: elimOk_def)
  then show "disj (recv r) nb (scr r) nb" "disj (recv r) nb (scr r + nb) (k * nb)"
    by (auto simp: disj_def)
qed (use assms in \<open>auto simp: elimOk_def world_def\<close>)

lemma elimOk_core:
  assumes "elimOk n k e c0 dt op nb recv scr"
  shows "coreOk e k c0 dt op nb recv (\<lambda>r. scr r + nb)"
proof -
  have e: "e \<le> 2 ^ k" "n = 2 ^ k + e" using assms by (auto simp: elimOk_def)
  have "peerOk (comm (c0 r)) (partner e i r)" if "r \<in> active e k" "i < k" for r i
    using that elim.to_A [of r i k e] elim.to_ne [of r i k e] elimOk_scr(4,5) [OF assms] e
    by (simp add: peerOk_def active_iff)
  then show ?thesis
    using assms elimOk_scr [OF assms] e by (simp add: coreOk_def elimOk_def active_iff)
qed

definition elimPosted :: "nat \<Rightarrow> nat \<Rightarrow> (nat \<Rightarrow> addr) \<Rightarrow> (nat \<Rightarrow> addr) \<Rightarrow> nat \<Rightarrow> nat \<Rightarrow> RecvReq list" where
  "elimPosted e k recv scr nb r =
     (if r \<in> oddE e then postedFrom [\<lparr>rqPeer = r - 1, rqBuf = recv r, rqBytes = nb\<rparr>] 0
      else postedFrom (coreReqs e (scr r + nb) nb k r) 0)"

lemma elim_post_phase:
  assumes "elimOk n k e c0 dt op nb recv scr"
  shows "phase {..<n} c0 (\<lambda>_. []) (\<lambda>r. postRecvs (elimReqs e k (recv r) (scr r) nb r))
    (\<lambda>r. postedFrom (elimReqs e k (recv r) (scr r) nb r) 0) J J"
proof (rule phase_postRecvs_list)
  fix r assume "r \<in> {..<n}"
  then have r: "r < n" by simp
  have e: "e \<le> 2 ^ k" "n = 2 ^ k + e" using assms by (auto simp: elimOk_def)
  note c = elimOk_scr [OF assms r]
  have pre: "disj (scr r) nb (scr r + nb + i * nb) nb" for i by (simp add: disj_def)
  have even: "r \<in> evenS e \<Longrightarrow> r + 1 < n \<and> r \<notin> oddE e" and odd: "r \<in> oddE e \<Longrightarrow> r - 1 < n \<and> r - 1 \<noteq> r"
    using e r by (auto simp: evenS_def oddE_def elim!: evenE dest: odd_pos)
  have act: "r \<notin> oddE e \<Longrightarrow> r \<in> active e k" using e r by (simp add: active_iff)
  show "transport (comm (c0 r)) \<noteq> None \<and> reqsDisjoint (elimReqs e k (recv r) (scr r) nb r) \<and>
      list_all (\<lambda>q. peerOk (comm (c0 r)) (rqPeer q)) (elimReqs e k (recv r) (scr r) nb r)"
    using c even odd coreReqs_ok [OF elimOk_core [OF assms] act] pre
    by (auto simp: elimReqs_def peerOk_def list_all_iff coreReqs_def)
qed

lemma elim_fold_phase:
  assumes ok: "elimOk n k e c0 dt op nb recv scr"
  shows "phase {..<n} c0 (\<lambda>r. postedFrom (elimReqs e k (recv r) (scr r) nb r) 0)
    (\<lambda>r. if r \<in> evenS e then trecv (r + 1) (scr r) nb else if r \<in> oddE e then tsend (r - 1) (recv r) nb else ok)
    (elimPosted e k recv scr nb)
    (\<lambda>M. holds {..<n} recv nb y M \<and> frame2 {..<n} recv nb scr ((1 + k) * nb) M0 M)
    (\<lambda>M. holds {..<n} recv nb y M \<and> frame2 {..<n} recv nb scr ((1 + k) * nb) M0 M \<and>
       holds (evenS e) scr nb (\<lambda>r. y (r + 1)) M)"
proof -
  let ?q = "\<lambda>r. postedFrom (elimReqs e k (recv r) (scr r) nb r) 0" and ?q' = "elimPosted e k recv scr nb"
  let ?P = "\<lambda>r. if r \<in> evenS e then trecv (r + 1) (scr r) nb
    else if r \<in> oddE e then tsend (r - 1) (recv r) nb else ok"
  let ?A = "\<Union>s\<in>oddE e. {s, s - 1}" and ?B = "{2 * e..<n}"
  have e: "2 * e \<le> n" "e \<le> 2 ^ k" "n = 2 ^ k + e" using ok by (auto simp: elimOk_def)
  have A: "?A = {..<2 * e}" by (rule pairs_union)
  have AB: "?A \<union> ?B = {..<n}" "?A \<inter> ?B = {}" unfolding A using e by auto
  have dis: "s \<in> oddE e \<Longrightarrow> s - 1 \<in> evenS e \<and> s - 1 \<notin> oddE e \<and> s - 1 + 1 = s \<and> s < n \<and> s - 1 < n \<and> s \<notin> evenS e" for s
    using e by (auto simp: evenS_def oddE_def elim!: oddE)
  note c = elimOk_scr [OF ok]
  define J where "J = (\<lambda>M. holds {..<2 * e} recv nb y M \<and> frame2 {..<2 * e} recv nb scr ((1 + k) * nb) M0 M)"
  define J' where "J' = (\<lambda>M. J M \<and> holds (evenS e) scr nb (\<lambda>r. y (r + 1)) M)"
  define JB where "JB = (\<lambda>M. holds ?B recv nb y M \<and> frame2 ?B recv nb scr ((1 + k) * nb) M0 M)"
  have "phase ?A c0 ?q ?P ?q' J J'"
  proof (rule phase_oneway [where fr = "\<lambda>r. r + 1" and sb = recv and rb = scr and n = nb])
    fix s M assume s: "s \<in> oddE e"
    note d = dis [OF s]
    show "s - 1 \<notin> oddE e" "s - 1 + 1 = s" "?P s = tsend (s - 1) (recv s) nb" "?P (s - 1) = trecv s (scr (s - 1)) nb"
      using d s by auto
    show "sendOk (upd c0 M ?q s) (s - 1) (recv s) nb"
      using d s c by (auto simp: sendOk_def peerOk_def elimReqs_def postedFrom_def)
    show "recvOk (upd c0 M ?q (s - 1)) s (scr (s - 1)) nb (?q' (s - 1))"
      using d c [of "s - 1"]
      by (auto simp: recvOk_def peerOk_def elimReqs_def elimPosted_def postedFrom_def consumes_def
          freeOf_def list_all_iff coreReqs_def disj_def)
    show "?q' s = ?q s" using s d by (simp add: elimPosted_def elimReqs_def)
  next
    fix M assume J: "J M"
    let ?M = "onewayMem (oddE e) (\<lambda>s. s - 1) (\<lambda>r. r + 1) recv scr nb M"
    have img: "(\<lambda>s. s - 1) ` oddE e = evenS e"
    proof (intro equalityI subsetI)
      fix r assume "r \<in> evenS e"
      then have "r + 1 \<in> oddE e" by (auto simp: evenS_def oddE_def elim!: evenE)
      then show "r \<in> (\<lambda>s. s - 1) ` oddE e" by force
    qed (use dis in auto)
    have in': "rd (M (r + 1)) (recv (r + 1)) nb = y (r + 1)" if "r \<in> evenS e" for r
      using J that by (auto simp: J_def holds_def evenS_def elim!: evenE)
    have M [simplified]: "?M r = (if r \<in> evenS e then wr (M r) (scr r) (y (r + 1)) else M r)" for r
      unfolding onewayMem_def img using in' by simp
    have len: "r \<in> evenS e \<Longrightarrow> length (y (r + 1)) = nb" for r using in' length_rd by metis
    have ev: "r \<in> evenS e \<Longrightarrow> r < n" for r using e by (simp add: evenS_def)
    have "holds {..<2 * e} recv nb y ?M"
      using J c(1) [OF ev] len
      by (auto simp: holds_def J_def M rd_wr_disj disj_sym)
    moreover have "frame2 {..<2 * e} recv nb scr ((1 + k) * nb) M0 ?M"
      using J len by (auto simp: frame2_def J_def M wr_outside)
    moreover have "holds (evenS e) scr nb (\<lambda>r. y (r + 1)) ?M"
      using len by (simp add: holds_def M rd_wr_same)
    ultimately show "J' ?M" by (simp add: J'_def J_def)
  qed simp
  then have "phase (?A \<union> ?B) c0 ?q ?P ?q' (\<lambda>M. J M \<and> JB M) (\<lambda>M. J' M \<and> JB M)"
  proof (rule phase_extend [OF _ AB(2)])
    fix M r assume r: "r \<in> ?B"
    then have "r \<notin> evenS e" "r \<notin> oddE e" by (auto simp: evenS_def oddE_def)
    then show "?P r (upd c0 M ?q r) = Ret vcclSuccess (upd c0 M ?q' r)"
      by (simp add: ok_def upd_def elimReqs_def elimPosted_def)
  next
    fix M M' assume eq: "\<And>r. r \<in> ?A \<Longrightarrow> M r = M' r" and "J' M"
    then show "J' M'"
      unfolding A J'_def J_def
      by (auto simp: holds_def frame2_def evenS_def)
  next
    fix M M' assume "\<And>r. r \<in> ?B \<Longrightarrow> M r = M' r" and "JB M"
    then show "JB M'" by (auto simp: JB_def holds_def frame2_def)
  qed
  moreover have "{..<n} = {..<2 * e} \<union> ?B" using e by auto
  ultimately show ?thesis
    unfolding AB(1) by (elim phase_conseq) (auto simp: J'_def J_def JB_def holds_Un frame2_Un)
qed

text \<open>The contribution of an active rank after the fold, and the common result.\<close>

definition elimFold :: "(nat \<Rightarrow> byte list \<Rightarrow> byte list \<Rightarrow> byte list) \<Rightarrow> nat \<Rightarrow> (nat \<Rightarrow> byte list) \<Rightarrow> nat \<Rightarrow> byte list" where
  "elimFold red e y r = (if r \<in> evenS e then red r (y r) (y (r + 1)) else y r)"

definition elimResult ::
  "(nat \<Rightarrow> byte list \<Rightarrow> byte list \<Rightarrow> byte list) \<Rightarrow> nat \<Rightarrow> nat \<Rightarrow> (nat \<Rightarrow> byte list) \<Rightarrow> nat \<Rightarrow> byte list" where
  "elimResult red e k y r =
     rdPartial (\<lambda>u. red (elimPeer e u)) (\<lambda>u. elimFold red e y (elimPeer e u)) k (elimInv e r)"

lemma elim_reduce_phase:
  assumes ok: "elimOk n k e c0 dt op nb recv scr" and nb: "nb = cnt * vcclTypeSize dt"
  defines "red \<equiv> \<lambda>r. vred (fp (c0 r)) dt op cnt"
  shows "phase {..<n} c0 (elimPosted e k recv scr nb)
    (\<lambda>r. if r \<in> evenS e then reduceC dt op (recv r) (scr r) cnt else ok) (elimPosted e k recv scr nb)
    (\<lambda>M. holds {..<n} recv nb y M \<and> frame2 {..<n} recv nb scr ((1 + k) * nb) M0 M \<and>
       holds (evenS e) scr nb (\<lambda>r. y (r + 1)) M)
    (\<lambda>M. holds {..<n} recv nb (elimFold red e y) M \<and> frame2 {..<n} recv nb scr ((1 + k) * nb) M0 M)"
proof (rule phase_local [where F = "\<lambda>M r. if r \<in> evenS e
      then wr (M r) (recv r) (red r (rd (M r) (recv r) nb) (rd (M r) (scr r) nb)) else M r"], goal_cases)
  case (1 M r)
  have c: "r < n" "dt \<noteq> vcclNumTypes" "0 \<le> op" "op < vcclNumOps" using 1 ok by (auto simp: elimOk_def)
  note s = elimOk_scr [OF ok c(1)]
  have free: "freeOf (elimPosted e k recv scr nb r) (recv r) nb" "freeOf (elimPosted e k recv scr nb r) (scr r) nb"
    if "r \<in> evenS e"
  proof -
    have act: "r \<in> active e k" "r \<notin> oddE e" using that 1 ok by (auto simp: active_iff elimOk_def evenS_def oddE_def)
    then have p: "elimPosted e k recv scr nb r = postedFrom (coreReqs e (scr r + nb) nb k r) 0"
      by (simp add: elimPosted_def)
    have "disj (scr r + nb + i * nb) nb (recv r) nb" if "i < k" for i
      using coreOk_region(1) [OF elimOk_core [OF ok] act(1) that] by (simp add: disj_sym)
    then show "freeOf (elimPosted e k recv scr nb r) (recv r) nb"
      unfolding p by (intro freeOf_postedFrom) (simp add: coreReqs_def)
    show "freeOf (elimPosted e k recv scr nb r) (scr r) nb"
      unfolding p by (intro freeOf_postedFrom) (simp add: coreReqs_def disj_def)
  qed
  show ?case
  proof (cases "r \<in> evenS e")
    case True
    have "reduceC dt op (recv r) (scr r) cnt (upd c0 M (elimPosted e k recv scr nb) r) =
      Ret vcclSuccess (upd c0 (M(r := wr (M r) (recv r) (vred (fp (c0 r)) dt op cnt
        (rd (M r) (recv r) nb) (rd (M r) (scr r) nb)))) (elimPosted e k recv scr nb) r)"
      unfolding nb using c free [OF True] s(1) by (intro reduceC_Ret) (auto simp: nb)
    then show ?thesis using True by (simp add: upd_def red_def)
  qed (simp add: ok_def upd_def)
next
  case (2 M)
  have dt: "dt \<noteq> vcclNumTypes" and e: "2 * e \<le> n" using ok by (auto simp: elimOk_def)
  have v: "rd (M r) (recv r) nb = y r" "rd (M r) (scr r) nb = y (r + 1)" if "r \<in> evenS e" for r
    using 2 that e by (auto simp: holds_def evenS_def)
  have len: "length (red r a b) = nb" for r a b using dt by (simp add: red_def nb)
  show ?case
    using 2 v len
    by (auto simp: holds_def elimFold_def frame2_def rd_wr_same wr_outside)
qed

lemma elim_core_phase:
  assumes ok: "elimOk n k e c0 dt op nb recv scr" and nb: "nb = cnt * vcclTypeSize dt"
  defines "red \<equiv> \<lambda>r. vred (fp (c0 r)) dt op cnt"
  defines "q' \<equiv> \<lambda>r. if r \<in> oddE e then elimPosted e k recv scr nb r else []"
  shows "phase {..<n} c0 (elimPosted e k recv scr nb)
    (\<lambda>r. if r \<in> oddE e then ok
      else loop k (\<lambda>i. coreBody (recv r) cnt dt op (partner e i r) (scr r + nb + i * nb))) q'
    (\<lambda>M. holds {..<n} recv nb (elimFold red e y) M \<and> frame2 {..<n} recv nb scr ((1 + k) * nb) M0 M)
    (\<lambda>M. holds (active e k) recv nb (elimResult red e k y) M \<and>
       frame2 {..<n} recv nb scr ((1 + k) * nb) M0 M)"
    (is "phase _ _ ?q ?P _ _ _")
proof -
  have e: "e \<le> 2 ^ k" "n = 2 ^ k + e" using ok by (auto simp: elimOk_def)
  let ?A = "active e k" and ?B = "oddE e"
  have AB: "?A \<union> ?B = {..<n}" "?A \<inter> ?B = {}" using active_union [OF e(1)] e(2) by simp_all
  define J where "J = (\<lambda>M. holds ?A recv nb (elimFold red e y) M \<and> frame2 ?A recv nb scr ((1 + k) * nb) M0 M)"
  define J' where "J' = (\<lambda>M. holds ?A recv nb (elimResult red e k y) M \<and> frame2 ?A recv nb scr ((1 + k) * nb) M0 M)"
  define JB where "JB = frame2 ?B recv nb scr ((1 + k) * nb) M0"
  let ?V = "rdPartial (\<lambda>u. vred (fp (c0 (elimPeer e u))) dt op cnt) (\<lambda>u. elimFold red e y (elimPeer e u))"
  have core: "phase ?A c0 ?q ?P q' J J'"
  proof (rule phaseI)
    fix M assume J: "J M"
    have pre: "reducedCore e k recv nb (\<lambda>u. elimFold red e y (elimPeer e u)) M"
      using J by (auto simp: J_def reducedCore_def holds_def active_def)
    have "\<exists>M'. par ?A (\<lambda>r. loop k (\<lambda>i. coreBody (recv r) cnt dt op (partner e i r) (scr r + nb + i * nb)))
        (upd c0 M (\<lambda>r. postedFrom (coreReqs e (scr r + nb) nb k r) 0)) (upd c0 M' (\<lambda>_. [])) \<and>
        reducedCore e k recv nb (?V k) M' \<and> frame2 ?A recv nb (\<lambda>r. scr r + nb) (k * nb) M M'"
      by (rule phaseD [OF core_phase [OF elimOk_core [OF ok] nb]]) (use pre in simp)
    then obtain M' where M': "par ?A (\<lambda>r. loop k (\<lambda>i. coreBody (recv r) cnt dt op (partner e i r) (scr r + nb + i * nb)))
        (upd c0 M (\<lambda>r. postedFrom (coreReqs e (scr r + nb) nb k r) 0)) (upd c0 M' (\<lambda>_. []))"
        "reducedCore e k recv nb (?V k) M'" "frame2 ?A recv nb (\<lambda>r. scr r + nb) (k * nb) M M'" by blast
    have nodd: "r \<in> ?A \<Longrightarrow> r \<notin> ?B" for r using AB(2) by blast
    have "par ?A ?P (upd c0 M ?q) (upd c0 M' q')"
      using par_ctx [OF M'(1), of "upd c0 M ?q" "upd c0 M' q'"] nodd
      by (subst par_cong [where Q = "\<lambda>r. loop k (\<lambda>i. coreBody (recv r) cnt dt op (partner e i r) (scr r + nb + i * nb))"
            and d' = "upd c0 M' q'"]) (auto simp: upd_def elimPosted_def q'_def)
    moreover have "J' M'"
      using M'(2,3) J by (auto simp: J'_def J_def holds_def reducedCore_def active_def elimResult_def
          frame2_def red_def)
    ultimately show "\<exists>M'. par ?A ?P (upd c0 M ?q) (upd c0 M' q') \<and> J' M'" by blast
  qed
  have "phase (?A \<union> ?B) c0 ?q ?P q' (\<lambda>M. J M \<and> JB M) (\<lambda>M. J' M \<and> JB M)"
  proof (rule phase_extend [OF core AB(2)])
    show "r \<in> ?B \<Longrightarrow> ?P r (upd c0 M ?q r) = Ret vcclSuccess (upd c0 M q' r)" for M r
      by (simp add: ok_def upd_def q'_def)
    show "J' M'" if "\<And>r. r \<in> ?A \<Longrightarrow> M r = M' r" "J' M" for M M'
      using that by (auto simp: J'_def holds_def frame2_def)
    show "JB M'" if "\<And>r. r \<in> ?B \<Longrightarrow> M r = M' r" "JB M" for M M'
      using that by (auto simp: JB_def frame2_def)
  qed
  then show ?thesis
    unfolding AB(1) [symmetric]
    by (rule phase_conseq) (auto simp: J_def J'_def JB_def holds_Un frame2_Un)
qed

lemma elimResult_odd: "r \<in> evenS e \<Longrightarrow> elimResult red e k y (r + 1) = elimResult red e k y r"
  by (auto simp: elimResult_def elimInv_def evenS_def elim!: evenE)

lemma elim_post_result_phase:
  assumes ok: "elimOk n k e c0 dt op nb recv scr"
  defines "q \<equiv> \<lambda>r. if r \<in> oddE e then elimPosted e k recv scr nb r else []"
  shows "phase {..<n} c0 q
    (\<lambda>r. if r \<in> evenS e then tsend (r + 1) (recv r) nb else if r \<in> oddE e then trecv (r - 1) (recv r) nb else ok)
    (\<lambda>_. [])
    (\<lambda>M. holds (active e k) recv nb (elimResult red e k y) M \<and> frame2 {..<n} recv nb scr ((1 + k) * nb) M0 M)
    (\<lambda>M. holds {..<n} recv nb (elimResult red e k y) M \<and> frame2 {..<n} recv nb scr ((1 + k) * nb) M0 M)"
    (is "phase _ _ _ ?P _ _ _")
proof -
  let ?A = "\<Union>s\<in>evenS e. {s, s + 1}" and ?B = "{2 * e..<n}" and ?w = "elimResult red e k y"
  let ?f = "\<lambda>A. frame2 A recv nb scr ((1 + k) * nb) M0"
  have e: "2 * e \<le> n" "e \<le> 2 ^ k" "n = 2 ^ k + e" using ok by (auto simp: elimOk_def)
  have A: "?A = {..<2 * e}" by (rule pairs_union)
  have AB: "?A \<union> ?B = {..<n}" "?A \<inter> ?B = {}" unfolding A using e by auto
  have dis: "s \<in> evenS e \<Longrightarrow> s + 1 \<in> oddE e \<and> s + 1 \<notin> evenS e \<and> s \<notin> oddE e \<and> s + 1 < n \<and> s < n" for s
    using e by (auto simp: evenS_def oddE_def elim!: evenE)
  note c = elimOk_scr [OF ok]
  define J where "J = (\<lambda>M. holds (evenS e) recv nb ?w M \<and> ?f {..<2 * e} M)"
  define J' where "J' = (\<lambda>M. holds {..<2 * e} recv nb ?w M \<and> ?f {..<2 * e} M)"
  define JB where "JB = (\<lambda>M. holds ?B recv nb ?w M \<and> ?f ?B M)"
  have "phase ?A c0 q ?P (\<lambda>_. []) J J'"
  proof (rule phase_oneway [where fr = "\<lambda>r. r - 1" and sb = recv and rb = recv and n = nb])
    fix s M assume s: "s \<in> evenS e"
    note d = dis [OF s]
    show "s + 1 \<notin> evenS e" "s + 1 - 1 = s" "?P s = tsend (s + 1) (recv s) nb" "?P (s + 1) = trecv s (recv (s + 1)) nb"
      using d s by auto
    show "sendOk (upd c0 M q s) (s + 1) (recv s) nb"
      using d s c by (auto simp: sendOk_def peerOk_def q_def)
    show "recvOk (upd c0 M q (s + 1)) s (recv (s + 1)) nb []"
      using d c [of "s + 1"] by (auto simp: recvOk_def peerOk_def q_def elimPosted_def postedFrom_def consumes_def)
    show "[] = q s" using d by (simp add: q_def)
  next
    fix M assume J: "J M"
    let ?M = "onewayMem (evenS e) (\<lambda>s. s + 1) (\<lambda>r. r - 1) recv recv nb M"
    have M [simplified]: "?M r = (if r \<in> (\<lambda>s. s + 1) ` evenS e then wr (M r) (recv r) (?w r) else M r)" for r
      using J elimResult_odd by (auto simp: onewayMem_def J_def holds_def)
    have len: "r \<in> (\<lambda>s. s + 1) ` evenS e \<Longrightarrow> length (?w r) = nb" for r
      using J elimResult_odd by (auto simp: J_def holds_def dest!: bspec) (metis length_rd)+
    have "r \<in> evenS e \<or> r \<in> (\<lambda>s. s + 1) ` evenS e" if "r < 2 * e" for r
      using that A by auto
    then have "holds {..<2 * e} recv nb ?w ?M"
      using J len by (auto simp: holds_def J_def M rd_wr_same)
    moreover have "?f {..<2 * e} ?M"
      using J len by (auto simp: frame2_def J_def M wr_outside)
    ultimately show "J' ?M" by (simp add: J'_def)
  qed simp
  then have "phase (?A \<union> ?B) c0 q ?P (\<lambda>_. []) (\<lambda>M. J M \<and> JB M) (\<lambda>M. J' M \<and> JB M)"
  proof (rule phase_extend [OF _ AB(2)])
    fix M r assume r: "r \<in> ?B"
    then have "r \<notin> evenS e" "r \<notin> oddE e" by (auto simp: evenS_def oddE_def)
    then show "?P r (upd c0 M q r) = Ret vcclSuccess (upd c0 M (\<lambda>_. []) r)"
      by (simp add: ok_def upd_def q_def)
  next
    fix M M' assume "\<And>r. r \<in> ?A \<Longrightarrow> M r = M' r" and "J' M"
    then show "J' M'" unfolding A J'_def by (auto simp: holds_def frame2_def)
  next
    fix M M' assume "\<And>r. r \<in> ?B \<Longrightarrow> M r = M' r" and "JB M"
    then show "JB M'" by (auto simp: JB_def holds_def frame2_def)
  qed
  moreover have "active e k = evenS e \<union> ?B" using e by (auto simp: active_iff evenS_def oddE_def)
  moreover have "{..<n} = {..<2 * e} \<union> ?B" using e by auto
  ultimately show ?thesis
    unfolding AB(1) by (elim phase_conseq) (auto simp: J'_def J_def JB_def holds_Un frame2_Un)
qed

lemma elimCmd_phase:
  assumes ok: "elimOk n k e c0 dt op nb recv scr" and nb: "nb = cnt * vcclTypeSize dt"
  shows "phase {..<n} c0 (\<lambda>_. []) (\<lambda>r. elimCmd e k r (recv r) cnt dt op (scr r)) (\<lambda>_. [])
    (\<lambda>M. holds {..<n} recv nb y M \<and> frame2 {..<n} recv nb scr ((1 + k) * nb) M0 M)
    (\<lambda>M. holds {..<n} recv nb (elimResult (\<lambda>r. vred (fp (c0 r)) dt op cnt) e k y) M \<and>
       frame2 {..<n} recv nb scr ((1 + k) * nb) M0 M)"
  unfolding elimCmd_def Let_def vseq_Cons vseq_Nil nb [symmetric]
  by (intro phase_check [OF elim_post_phase [OF ok]] phase_check [OF elim_fold_phase [OF ok]]
      phase_check [OF elim_reduce_phase [OF ok nb]] phase_check [OF elim_core_phase [OF ok nb]]
      phase_last elim_post_result_phase [OF ok])

end
