(* ===== verification/Vccl_Runs.thy ===== *)
theory Vccl_Runs
  imports Vccl_Elim
begin

text \<open>
  Whole collectives: phases joined by the calls that change the communicator. \<open>ctxFrame c c'\<close> says
  that \<open>c'\<close> differs from \<open>c\<close> at most in memory, announced receives, scratch vector and registrations
  of the transport; \<open>runs A P c Q\<close> is total correctness of a phase from the contexts \<open>c\<close> with this
  frame, no announced receive left over and \<open>Q\<close> for the final memories.

  Hypotheses on the environment that appear in the results:
  \<^item> \<open>regAccepts\<close>: the transport's driver accepts registrations;
  \<^item> \<open>scratchSafe c p n\<close>: the scratch vector, and any block its allocator may return, does not
    overlap the user's buffer \<open>[p, p + n)\<close>.
\<close>

definition implAccepts :: "Transport \<Rightarrow> bool" where
  "implAccepts t = (case impl t of TcpTransport \<Rightarrow> True | Verbs v \<Rightarrow> \<forall>p n. ibv_reg_mr v p n \<noteq> 0)"

definition regAccepts :: "vcclComm \<Rightarrow> bool" where
  "regAccepts cm = (case transport cm of None \<Rightarrow> True | Some t \<Rightarrow> implAccepts t)"

definition commFrame :: "vcclComm \<Rightarrow> vcclComm \<Rightarrow> bool" where
  "commFrame a b \<longleftrightarrow> rank b = rank a \<and> nranks b = nranks a \<and> (transport b = None \<longleftrightarrow> transport a = None) \<and>
     registrations b = registrations a \<and> customOps b = customOps a \<and> asyncError b = asyncError a \<and>
     aborted b = aborted a \<and> lastError b = lastError a \<and> isVerbs b = isVerbs a \<and> (regAccepts a \<longrightarrow> regAccepts b)"

definition scratchSafe :: "ctx \<Rightarrow> addr \<Rightarrow> nat \<Rightarrow> bool" where
  "scratchSafe c p n \<longleftrightarrow> disj (scratchBuf (comm c)) (scratchSize (comm c)) p n \<and>
     (\<forall>sz. disj (alloc c sz) sz p n)"

definition ctxFrame :: "ctx \<Rightarrow> ctx \<Rightarrow> bool" where
  "ctxFrame a b \<longleftrightarrow> env b = env a \<and> fp b = fp a \<and> alloc b = alloc a \<and> errText b = errText a \<and>
     commFrame (comm a) (comm b) \<and> (\<forall>p n. scratchSafe a p n \<longrightarrow> scratchSafe b p n)"

lemma commFrame_refl [simp]: "commFrame a a"
  by (simp add: commFrame_def)

lemma commFrame_trans: "commFrame a b \<Longrightarrow> commFrame b c \<Longrightarrow> commFrame a c"
  by (simp add: commFrame_def)

lemma ctxFrame_refl [simp]: "ctxFrame a a"
  by (simp add: ctxFrame_def)

lemma ctxFrame_trans: "ctxFrame a b \<Longrightarrow> ctxFrame b c \<Longrightarrow> ctxFrame a c"
  by (auto simp: ctxFrame_def intro: commFrame_trans)

lemma ctxFrame_upd [simp]: "ctxFrame a (a\<lparr>mem := m, posted := qs\<rparr>)" "ctxFrame (c r) (upd c M q r)"
  by (simp_all add: ctxFrame_def upd_def scratchSafe_def)

lemma ctxFrame_mem [simp]: "ctxFrame a (a\<lparr>mem := m\<rparr>)"
  by (simp add: ctxFrame_def scratchSafe_def)

subsection \<open>Communicator operations keep the frame\<close>

lemma regMr_impl:
  assumes "regMr t p n = (e, h, t')" "implAccepts t"
  shows "e = vcclSuccess \<and> implAccepts t'"
proof (cases "impl t")
  case (Verbs v)
  with assms(2) have ok: "\<forall>p n. ibv_reg_mr v p n \<noteq> 0" by (simp add: implAccepts_def)
  then have "ibv_reg_mr v p n \<noteq> 0" by blast
  with assms(1) Verbs ok show ?thesis by (auto simp: regMr_def addRegion_def implAccepts_def simp del: neq0_conv)
qed (use assms in \<open>simp add: regMr_def\<close>)

lemma deregMr_impl: "implAccepts t \<Longrightarrow> implAccepts (snd (deregMr t h))"
  by (cases "impl t") (simp_all add: implAccepts_def deregMr_def)

lemma regMr_verbs: "regMr t p n = (e, h, t') \<Longrightarrow> verbsImpl t' = verbsImpl t"
  by (auto simp: regMr_def addRegion_def verbsImpl_def split: transport_impl.splits if_splits)

lemma deregMr_verbs: "verbsImpl (snd (deregMr t h)) = verbsImpl t"
  by (cases "impl t") (simp_all add: verbsImpl_def deregMr_def)

lemma commDereg_frame: "commFrame a (commDereg h a)"
proof (cases "transport a")
  case (Some t)
  then show ?thesis using deregMr_impl [of t h] deregMr_verbs [of t h]
    by (simp add: commFrame_def commDereg_def regAccepts_def isVerbs_def)
qed (simp add: commFrame_def commDereg_def regAccepts_def isVerbs_def)

lemma commReg_frame:
  assumes "commReg p n a = (e, h, b)"
  shows "commFrame a b" and "regAccepts a \<Longrightarrow> e = vcclSuccess"
proof -
  have "(case transport a of None \<Rightarrow> b = a \<and> e = vcclSuccess
      | Some t \<Rightarrow> \<exists>t'. regMr t p n = (e, h, t') \<and> b = a\<lparr>transport := Some t'\<rparr>)"
    using assms by (auto simp: commReg_def split: option.splits prod.splits)
  then consider "transport a = None" "b = a" "e = vcclSuccess"
    | t t' where "transport a = Some t" "regMr t p n = (e, h, t')" "b = a\<lparr>transport := Some t'\<rparr>"
    by (auto split: option.splits)
  then show "commFrame a b" "regAccepts a \<Longrightarrow> e = vcclSuccess"
    by (cases; use regMr_impl [of _ p n e h] regMr_verbs [of _ p n e h] in \<open>simp add: commFrame_def regAccepts_def isVerbs_def\<close>)+
qed

text \<open>Fields that none of the operations below depends on for the frame.\<close>

lemma commFrame_upd [simp]:
  "commFrame a (b\<lparr>scratchBuf := x\<rparr>) = commFrame a b" "commFrame a (b\<lparr>scratchSize := y\<rparr>) = commFrame a b"
  "commFrame a (b\<lparr>scratchRegHandle := z\<rparr>) = commFrame a b" "commFrame a (b\<lparr>mrCache := es\<rparr>) = commFrame a b"
  "commFrame a (b\<lparr>mrClock := k\<rparr>) = commFrame a b" "commFrame a (b\<lparr>scopedRegs := hs\<rparr>) = commFrame a b"
  by (simp_all add: commFrame_def regAccepts_def isVerbs_def)

lemma scratch_fields [simp]:
  "scratchBuf (commDereg h a) = scratchBuf a" "scratchSize (commDereg h a) = scratchSize a"
  by (simp_all add: commDereg_def)

lemma commReg_scratch:
  "commReg p n a = (e, h, b) \<Longrightarrow> scratchBuf b = scratchBuf a \<and> scratchSize b = scratchSize a"
  by (auto simp: commReg_def split: option.splits prod.splits)

lemma mrEvict_frame:
  "commFrame a (mrEvict a)" "scratchBuf (mrEvict a) = scratchBuf a" "scratchSize (mrEvict a) = scratchSize a"
  by (simp_all add: mrEvict_def Let_def commDereg_frame)

lemma mrCachePut_frame:
  "commFrame a (mrCachePut ev p n h a)" "scratchBuf (mrCachePut ev p n h a) = scratchBuf a"
  "scratchSize (mrCachePut ev p n h a) = scratchSize a"
  by (simp_all add: mrCachePut_def Let_def mrEvict_frame)

lemma mrCacheGet_frame:
  "mrCacheGet p n a = Some (h, b) \<Longrightarrow> commFrame a b \<and> scratchBuf b = scratchBuf a \<and> scratchSize b = scratchSize a"
  by (auto simp: mrCacheGet_def)

lemma scopedAdd_frame:
  assumes "scopedAdd e p n a = (res, b)"
  shows "commFrame a b \<and> scratchBuf b = scratchBuf a \<and> scratchSize b = scratchSize a \<and>
    (regAccepts a \<longrightarrow> res = vcclSuccess)"
proof -
  obtain e1 h c1 where reg: "commReg p n a = (e1, h, c1)" by (metis prod_cases3)
  note f = commReg_frame [OF reg] commReg_scratch [OF reg]
  note put = mrCachePut_frame [where a = c1] commFrame_trans [OF f(1) mrCachePut_frame(1)]
  show ?thesis
    using assms f put
    by (auto simp: scopedAdd_def reg mrCacheGet_frame split: option.splits if_splits)
qed

lemma fold_commDereg_frame:
  "commFrame a (fold commDereg hs a) \<and> scratchBuf (fold commDereg hs a) = scratchBuf a \<and>
   scratchSize (fold commDereg hs a) = scratchSize a"
proof (induction hs arbitrary: a)
  case (Cons h hs)
  then show ?case using commFrame_trans [OF commDereg_frame] by (metis fold_simps(2) scratch_fields)
qed simp

lemma scoped_frame:
  "ctxFrame c (c\<lparr>comm := scopedCtor (comm c)\<rparr>)" "ctxFrame c (c\<lparr>comm := scopedDtor (comm c)\<rparr>)"
  using fold_commDereg_frame [of "comm c" "scopedRegs (comm c)"]
  by (simp_all add: ctxFrame_def scopedCtor_def scopedDtor_def scratchSafe_def)

subsection \<open>Scratch allocation\<close>

definition scrAddr :: "nat \<Rightarrow> ctx \<Rightarrow> addr" where
  "scrAddr n c = fst (scratchAt (alloc c) n (comm c) (mem c))"

definition scrCtx :: "nat \<Rightarrow> ctx \<Rightarrow> ctx" where
  "scrCtx n c = (case scratchAt (alloc c) n (comm c) (mem c) of (p, cm, m) \<Rightarrow> c\<lparr>comm := cm, mem := m\<rparr>)"

lemma withScratch_eq: "withScratch n body c = body (scrAddr n c) (scrCtx n c)"
  by (simp add: withScratch_def scrAddr_def scrCtx_def split: prod.splits)

lemma scratchAt_grow:
  assumes "scratchSize cm < n"
  obtains cm' where "scratchAt al n cm m = (al n, cm',
      wr m (al n) (rd m (scratchBuf cm) (scratchSize cm) @ replicate (n - scratchSize cm) 0))"
    "commFrame cm cm'" "scratchBuf cm' = al n" "scratchSize cm' = n"
proof -
  define c1 where "c1 = (if transport cm \<noteq> None \<and> scratchRegHandle cm \<noteq> 0
    then (commDereg (scratchRegHandle cm) cm)\<lparr>scratchRegHandle := 0\<rparr> else cm)"
  define c2 where "c2 = c1\<lparr>scratchBuf := al n, scratchSize := n\<rparr>"
  obtain e h c' where reg: "commReg (al n) n c2 = (e, h, c')" by (metis prod_cases3)
  have "commFrame cm c1" by (simp add: c1_def commDereg_frame)
  then have f2: "commFrame cm c2" by (simp add: c2_def)
  have f3: "commFrame cm c'" using commFrame_trans [OF f2 commReg_frame(1) [OF reg]] .
  have s: "scratchBuf c' = al n" "scratchSize c' = n" using commReg_scratch [OF reg] by (simp_all add: c2_def)
  define cm' where "cm' = (if transport cm \<noteq> None then c'\<lparr>scratchRegHandle := h\<rparr> else c2)"
  have "scratchAt al n cm m = (al n, cm',
      wr m (al n) (rd m (scratchBuf cm) (scratchSize cm) @ replicate (n - scratchSize cm) 0))"
    unfolding scratchAt_def Let_def c1_def [symmetric] c2_def [symmetric] reg
    using assms s by (simp add: cm'_def) (simp add: c2_def)
  moreover have "commFrame cm cm'" "scratchBuf cm' = al n" "scratchSize cm' = n"
    using f2 f3 s by (simp_all add: cm'_def c2_def)
  ultimately show ?thesis by (rule that)
qed

lemma scrCtx_facts:
  shows "ctxFrame c (scrCtx n c)" and "posted (scrCtx n c) = posted c"
    and "x < scrAddr n c \<or> scrAddr n c + n \<le> x \<Longrightarrow> mem (scrCtx n c) x = mem c x"
    and "scratchSafe c p k \<Longrightarrow> disj (scrAddr n c) n p k"
proof -
  have "ctxFrame c (scrCtx n c) \<and> posted (scrCtx n c) = posted c \<and>
     (x < scrAddr n c \<or> scrAddr n c + n \<le> x \<longrightarrow> mem (scrCtx n c) x = mem c x) \<and>
     (scratchSafe c p k \<longrightarrow> disj (scrAddr n c) n p k)"
  proof (cases "scratchSize (comm c) < n")
    case True
    then obtain cm' where 1: "scratchAt (alloc c) n (comm c) (mem c) = (alloc c n, cm',
        wr (mem c) (alloc c n) (rd (mem c) (scratchBuf (comm c)) (scratchSize (comm c)) @
          replicate (n - scratchSize (comm c)) 0))"
      and 2: "commFrame (comm c) cm'" "scratchBuf cm' = alloc c n" "scratchSize cm' = n"
      by (rule scratchAt_grow)
    then show ?thesis
      using True by (auto simp: scrCtx_def scrAddr_def ctxFrame_def scratchSafe_def wr_outside)
  next
    case False
    then have "scratchAt (alloc c) n (comm c) (mem c) = (scratchBuf (comm c), comm c, mem c)"
      by (simp add: scratchAt_def)
    then show ?thesis
      using False by (auto simp: scrCtx_def scrAddr_def scratchSafe_def disj_def)
  qed
  then show "ctxFrame c (scrCtx n c)" "posted (scrCtx n c) = posted c"
    "x < scrAddr n c \<or> scrAddr n c + n \<le> x \<Longrightarrow> mem (scrCtx n c) x = mem c x"
    "scratchSafe c p k \<Longrightarrow> disj (scrAddr n c) n p k" by blast+
qed

lemma scratchSafe_sub: "scratchSafe c p n \<Longrightarrow> p \<le> q \<Longrightarrow> q + k \<le> p + n \<Longrightarrow> scratchSafe c q k"
  unfolding scratchSafe_def by (blast intro: disj_sub_both [OF _ order_refl order_refl])

lemma scrCtx_rd: "scratchSafe c p k \<Longrightarrow> rd (mem (scrCtx n c)) p k = rd (mem c) p k"
proof (rule rd_cong)
  fix a assume "scratchSafe c p k" "p \<le> a" "a < p + k"
  then have "a < scrAddr n c \<or> scrAddr n c + n \<le> a"
    using scrCtx_facts(4) [of c p k n] by (auto simp: disj_def)
  then show "mem (scrCtx n c) a = mem c a" by (rule scrCtx_facts(3))
qed

subsection \<open>Runs\<close>

text \<open>\<open>keeps c m p n\<close>: compared with \<open>c\<close>, memory \<open>m\<close> has changed only in \<open>[p, p + n)\<close> and in scratch
  space.\<close>

definition keeps :: "ctx \<Rightarrow> mem \<Rightarrow> addr \<Rightarrow> nat \<Rightarrow> bool" where
  "keeps c m p n \<longleftrightarrow> (\<forall>q k. scratchSafe c q k \<longrightarrow> disj p n q k \<longrightarrow> rd m q k = rd (mem c) q k)"

definition runs ::
  "nat set \<Rightarrow> (nat \<Rightarrow> cmd) \<Rightarrow> (nat \<Rightarrow> ctx) \<Rightarrow> ((nat \<Rightarrow> mem) \<Rightarrow> bool) \<Rightarrow> bool" where
  "runs A P c Q \<longleftrightarrow> (\<exists>c'. par A P c c' \<and> (\<forall>r\<in>A. ctxFrame (c r) (c' r) \<and> posted (c' r) = []) \<and>
     Q (\<lambda>r. mem (c' r)))"

lemma runsI:
  "par A P c c' \<Longrightarrow> (\<And>r. r \<in> A \<Longrightarrow> ctxFrame (c r) (c' r) \<and> posted (c' r) = []) \<Longrightarrow> Q (\<lambda>r. mem (c' r)) \<Longrightarrow>
   runs A P c Q"
  unfolding runs_def by blast

lemma runs_conseq: "runs A P c Q \<Longrightarrow> (\<And>M. Q M \<Longrightarrow> Q' M) \<Longrightarrow> runs A P c Q'"
  unfolding runs_def by blast

lemma runs_check:
  assumes "runs A P c Q"
    and "\<And>c1. (\<And>r. r \<in> A \<Longrightarrow> ctxFrame (c r) (c1 r) \<and> posted (c1 r) = []) \<Longrightarrow> Q (\<lambda>r. mem (c1 r)) \<Longrightarrow> runs A P' c1 Q'"
  shows "runs A (\<lambda>r. check (P r) (P' r)) c Q'"
proof -
  obtain c1 where 1: "par A P c c1" "\<And>r. r \<in> A \<Longrightarrow> ctxFrame (c r) (c1 r) \<and> posted (c1 r) = []" "Q (\<lambda>r. mem (c1 r))"
    using assms(1) unfolding runs_def by blast
  obtain c2 where 2: "par A P' c1 c2" "\<And>r. r \<in> A \<Longrightarrow> ctxFrame (c1 r) (c2 r) \<and> posted (c2 r) = []" "Q' (\<lambda>r. mem (c2 r))"
    using assms(2) [OF 1(2,3)] unfolding runs_def by blast
  show ?thesis
    by (rule runsI [OF par_check [OF 1(1) 2(1)]]) (use 1(2) 2(2,3) ctxFrame_trans in blast)+
qed

lemma runs_cong: "(\<And>r. r \<in> A \<Longrightarrow> P r (c r) = P' r (c r)) \<Longrightarrow> runs A P c Q \<longleftrightarrow> runs A P' c Q"
  unfolding runs_def using par_cong [of A P c P'] by metis

lemma runs_local:
  assumes "\<And>r. r \<in> A \<Longrightarrow> P r (c r) = Ret vcclSuccess (c' r) \<and> ctxFrame (c r) (c' r) \<and> posted (c' r) = []"
    and "Q (\<lambda>r. mem (c' r))"
  shows "runs A P c Q"
  using assms by (intro runsI [OF par_local]) auto

lemma runs_phase:
  assumes "phase A c (\<lambda>_. []) P (\<lambda>_. []) J J'" "\<And>r. r \<in> A \<Longrightarrow> posted (c r) = []" "J (\<lambda>r. mem (c r))"
  shows "runs A P c J'"
proof -
  obtain M' where M': "par A P (upd c (\<lambda>r. mem (c r)) (\<lambda>_. [])) (upd c M' (\<lambda>_. []))" "J' M'"
    using phaseD [OF assms(1,3)] by blast
  have "par A P c (upd c M' (\<lambda>_. []))"
    by (rule par_ctx [OF M'(1)]) (use assms(2) in \<open>auto simp: upd_def\<close>)
  then show ?thesis by (rule runsI) (use M'(2) in auto)
qed

lemma runs_scoped:
  assumes "runs A P (\<lambda>r. (c r)\<lparr>comm := scopedCtor (comm (c r))\<rparr>) Q"
  shows "runs A (\<lambda>r. scoped (P r)) c Q"
proof -
  obtain c' where c': "par A P (\<lambda>r. (c r)\<lparr>comm := scopedCtor (comm (c r))\<rparr>) c'"
      "\<And>r. r \<in> A \<Longrightarrow> ctxFrame ((c r)\<lparr>comm := scopedCtor (comm (c r))\<rparr>) (c' r) \<and> posted (c' r) = []"
      "Q (\<lambda>r. mem (c' r))"
    using assms unfolding runs_def by blast
  show ?thesis
    by (rule runsI [OF par_scoped [OF c'(1)]])
      (use c'(2,3) scoped_frame ctxFrame_trans in \<open>auto intro: ctxFrame_trans\<close>, blast intro: ctxFrame_trans scoped_frame)
qed

lemma runs_scratch:
  assumes "runs A (\<lambda>r. body r (scrAddr (sz r) (c r))) (\<lambda>r. scrCtx (sz r) (c r)) Q"
  shows "runs A (\<lambda>r. withScratch (sz r) (body r)) c Q"
proof -
  obtain c' where c': "par A (\<lambda>r. body r (scrAddr (sz r) (c r))) (\<lambda>r. scrCtx (sz r) (c r)) c'"
      "\<And>r. r \<in> A \<Longrightarrow> ctxFrame (scrCtx (sz r) (c r)) (c' r) \<and> posted (c' r) = []" "Q (\<lambda>r. mem (c' r))"
    using assms unfolding runs_def by blast
  have "par A (\<lambda>r. withScratch (sz r) (body r)) c c'"
    using c'(1) by (simp add: par_def withScratch_eq)
  then show ?thesis
    by (rule runsI) (use c'(2,3) ctxFrame_trans [OF scrCtx_facts(1)] in auto)
qed

lemma runs_regAdd:
  assumes "\<And>r. r \<in> A \<Longrightarrow> regAccepts (comm (c r)) \<and> posted (c r) = []" "Q (\<lambda>r. mem (c r))"
  shows "runs A (\<lambda>r. regAdd (p r) (n r)) c Q"
proof (rule runs_local [where c' = "\<lambda>r. (c r)\<lparr>comm := snd (scopedAdd (env (c r)) (p r) (n r) (comm (c r)))\<rparr>"])
  fix r assume r: "r \<in> A"
  obtain e b where eb: "scopedAdd (env (c r)) (p r) (n r) (comm (c r)) = (e, b)" by fastforce
  then show "regAdd (p r) (n r) (c r) =
      Ret vcclSuccess ((c r)\<lparr>comm := snd (scopedAdd (env (c r)) (p r) (n r) (comm (c r)))\<rparr>) \<and>
    ctxFrame (c r) ((c r)\<lparr>comm := snd (scopedAdd (env (c r)) (p r) (n r) (comm (c r)))\<rparr>) \<and>
    posted ((c r)\<lparr>comm := snd (scopedAdd (env (c r)) (p r) (n r) (comm (c r)))\<rparr>) = []"
    using scopedAdd_frame [OF eb] assms(1) [OF r]
    by (simp add: regAdd_def ctxFrame_def scratchSafe_def)
qed (use assms(2) in simp)

lemma runs_each:
  assumes "\<And>r. r \<in> A \<Longrightarrow> \<exists>c'. P r (c r) = Ret vcclSuccess c' \<and> ctxFrame (c r) c' \<and> posted c' = [] \<and> Q r (mem c')"
  shows "runs A P c (\<lambda>M. \<forall>r\<in>A. Q r (M r))"
proof -
  obtain c' where "\<And>r. r \<in> A \<Longrightarrow> P r (c r) = Ret vcclSuccess (c' r) \<and> ctxFrame (c r) (c' r) \<and>
      posted (c' r) = [] \<and> Q r (mem (c' r))"
    using assms by metis
  then show ?thesis by (intro runs_local) blast+
qed

lemma regAdd_step:
  assumes "regAccepts (comm c)"
  shows "\<exists>c'. regAdd p n c = Ret vcclSuccess c' \<and> ctxFrame c c' \<and> posted c' = posted c \<and> mem c' = mem c"
proof -
  obtain e b where eb: "scopedAdd (env c) p n (comm c) = (e, b)" by fastforce
  then show ?thesis
    using scopedAdd_frame [OF eb] assms by (simp add: regAdd_def ctxFrame_def scratchSafe_def)
qed

lemma runs_regAdd_if:
  assumes "\<And>r. r \<in> A \<Longrightarrow> regAccepts (comm (c r)) \<and> posted (c r) = []"
  shows "runs A (\<lambda>r. cwhen (b r) (regAdd (p r) (n r))) c (\<lambda>M. \<forall>r\<in>A. M r = mem (c r))"
proof (rule runs_each)
  fix r assume "r \<in> A"
  then show "\<exists>c'. cwhen (b r) (regAdd (p r) (n r)) (c r) = Ret vcclSuccess c' \<and> ctxFrame (c r) c' \<and> posted c' = [] \<and> mem c' = mem (c r)"
    using assms regAdd_step [of "c r" "p r" "n r"] by (cases "b r") (auto simp: cwhen_def ok_def)
qed

subsection \<open>What a run leaves alone\<close>

lemma keeps_refl [simp]: "keeps c (mem c) p n"
  by (simp add: keeps_def)

lemma keeps_trans:
  "ctxFrame c c1 \<Longrightarrow> keeps c (mem c1) p n \<Longrightarrow> keeps c1 m p n \<Longrightarrow> keeps c m p n"
  by (simp add: keeps_def ctxFrame_def)

lemma keepsI:
  assumes "\<And>x. x < p \<or> p + n \<le> x \<Longrightarrow> x < s \<or> s + k \<le> x \<Longrightarrow> m x = mem c x"
    and "\<And>q l. scratchSafe c q l \<Longrightarrow> disj s k q l"
  shows "keeps c m p n"
  unfolding keeps_def
proof (intro allI impI rd_cong)
  fix q l x assume "scratchSafe c q l" "disj p n q l" "q \<le> x" "x < q + l"
  then show "m x = mem c x" using assms(2) [of q l] by (intro assms(1)) (auto simp: disj_def)
qed

lemma keeps_outside: "(\<And>x. x < p \<or> p + n \<le> x \<Longrightarrow> m x = mem c x) \<Longrightarrow> keeps c m p n"
  by (rule keepsI [of p n 0 0]) (auto simp: disj_def)

lemma keeps_frame: "frame A data tot (\<lambda>r. mem (c r)) M \<Longrightarrow> r \<in> A \<Longrightarrow> keeps (c r) (M r) (data r) tot"
  by (rule keeps_outside) (auto simp: frame_def)

text \<open>A program that works in its buffer and in \<open>k\<close> bytes of scratch space obtained from \<open>c\<close>.\<close>

lemma keeps_scratch:
  assumes "\<And>x. x < p \<or> p + n \<le> x \<Longrightarrow> x < scrAddr k c \<or> scrAddr k c + k \<le> x \<Longrightarrow> m x = mem (scrCtx k c) x"
  shows "keeps c m p n"
  by (rule keepsI [of p n "scrAddr k c" k]) (use assms scrCtx_facts(3,4) in auto)

lemma keeps_frame2:
  "frame2 A data tot (\<lambda>r. scrAddr k (c r)) k (\<lambda>r. mem (scrCtx k (c r))) M \<Longrightarrow> r \<in> A \<Longrightarrow>
   keeps (c r) (M r) (data r) tot"
  by (rule keeps_scratch [of _ _ k]) (auto simp: frame2_def)

lemma runs_finishes:
  assumes "runs {..<n} P c Q"
  shows "\<exists>M. Q M \<and> finishes n (\<lambda>r. P r (c r))
    (\<lambda>r c'. ctxFrame (c r) c' \<and> posted c' = [] \<and> mem c' = M r)"
proof -
  obtain c' where "par {..<n} P c c'" "\<forall>r\<in>{..<n}. ctxFrame (c r) (c' r) \<and> posted (c' r) = []" "Q (\<lambda>r. mem (c' r))"
    using assms unfolding runs_def by blast
  then show ?thesis by (intro exI [of _ "\<lambda>r. mem (c' r)"] conjI par_finishes) auto
qed

end
