(* ===== verification/Vccl_Bruck.thy ===== *)
theory Vccl_Bruck
  imports Vccl_Runs
begin

text \<open>
  Bruck's all-gather: after step \<open>i\<close> slot \<open>j < min (2 ^ i) n\<close> of rank \<open>r\<close> holds the block of rank
  \<open>(r + j) mod n\<close>; the final rotation through scratch space puts the blocks in rank order.
\<close>

lemma bruckSteps_eq:
  "bruckSteps n cb cb (masks n) = map (\<lambda>i. (2 ^ i, 2 ^ i * cb, min (2 ^ i) (n - 2 ^ i) * cb)) [0..<nsteps n]"
proof -
  have "bruckSteps n cb (2 ^ i * cb) (map (\<lambda>i. 2 ^ i) [i..<nsteps n]) =
      map (\<lambda>i. (2 ^ i, 2 ^ i * cb, min (2 ^ i) (n - 2 ^ i) * cb)) [i..<nsteps n]" if "i \<le> nsteps n" for i
    using that
  proof (induction rule: inc_induct)
    case (step m)
    have x: "(if (2::nat) ^ m \<le> n - 2 ^ m then 2 ^ m * cb else (n - 2 ^ m) * cb) = min (2 ^ m) (n - 2 ^ m) * cb"
      by (simp add: min_def)
    have c: "2 ^ m * cb + min (2 ^ m) (n - 2 ^ m) * cb = 2 ^ Suc m * cb" if "Suc m < nsteps n"
    proof -
      have "2 ^ Suc m < n" using that by (rule nsteps_less)
      then have "min (2 ^ m) (n - 2 ^ m) = 2 ^ m" by (simp add: min_def)
      then show ?thesis by simp
    qed
    show ?case
    proof (cases "Suc m < nsteps n")
      case True
      then show ?thesis
        using step by (simp add: upt_rec [of m] x c del: power_Suc)
    next
      case False
      then have "[m..<nsteps n] = [m]" using step by (simp add: upt_rec)
      then show ?thesis by (simp add: x)
    qed
  qed simp
  from this [of 0] show ?thesis by (simp add: masks_eq)
qed

definition bruckReqs :: "nat \<Rightarrow> addr \<Rightarrow> nat \<Rightarrow> nat \<Rightarrow> RecvReq list" where
  "bruckReqs n recv cb r =
     map (\<lambda>i. \<lparr>rqPeer = (r + 2 ^ i) mod n, rqBuf = recv + 2 ^ i * cb, rqBytes = min (2 ^ i) (n - 2 ^ i) * cb\<rparr>)
       [0..<nsteps n]"

definition bruckLoop :: "nat \<Rightarrow> nat \<Rightarrow> addr \<Rightarrow> nat \<Rightarrow> cmd" where
  "bruckLoop n r recv cb =
     loop (nsteps n) (\<lambda>i. sendRecv ((r + n - 2 ^ i) mod n) recv (min (2 ^ i) (n - 2 ^ i) * cb)
       ((r + 2 ^ i) mod n) (recv + 2 ^ i * cb) (min (2 ^ i) (n - 2 ^ i) * cb))"

definition rotated :: "nat \<Rightarrow> (nat \<Rightarrow> addr) \<Rightarrow> nat \<Rightarrow> (nat \<Rightarrow> byte list) \<Rightarrow> nat \<Rightarrow> (nat \<Rightarrow> mem) \<Rightarrow> bool" where
  "rotated n recv cb X k M \<longleftrightarrow> (\<forall>r<n. \<forall>j<k. rd (M r) (recv r + j * cb) cb = X ((r + j) mod n))"

text \<open>With \<open>n\<close> the sum of two of the step distances, a rank announces a receive from a peer and, in an earlier step,
  sends to that peer while it receives from another one.\<close>

definition bruckLossy :: "nat \<Rightarrow> bool" where
  "bruckLossy n = list_ex (\<lambda>a. list_ex (\<lambda>b. a < b \<and> a + b = n) (masks n)) (masks n)"

lemma bruckLossyI: "i < j \<Longrightarrow> j < nsteps n \<Longrightarrow> 2 ^ i + 2 ^ j = n \<Longrightarrow> bruckLossy n"
  unfolding bruckLossy_def masks_eq list_ex_iff
  by (rule bexI [of _ "2 ^ i"], rule bexI [of _ "2 ^ j"]) (auto simp: power_strict_increasing)

lemma ring_meet:
  fixes a b r n :: nat
  assumes "0 < a" "a < n" "0 < b" "b < n" "r < n" "(r + n - a) mod n = (r + b) mod n"
  shows "a + b = n"
  using assms by (auto simp: ring_simps split: if_splits)

lemma bruck_keeps_completions:
  assumes "i < nsteps n" "r < n" and loss: "isVerbs (comm c) \<Longrightarrow> \<not> bruckLossy n"
  shows "\<not> dropsCompletion (c\<lparr>posted := postedFrom (bruckReqs n recv cb r) i\<rparr>) ((r + n - 2 ^ i) mod n) k ((r + 2 ^ i) mod n)"
proof
  assume "dropsCompletion (c\<lparr>posted := postedFrom (bruckReqs n recv cb r) i\<rparr>) ((r + n - 2 ^ i) mod n) k ((r + 2 ^ i) mod n)"
  then obtain x where v: "isVerbs (comm c)" and ne: "(r + n - 2 ^ i) mod n \<noteq> (r + 2 ^ i) mod n"
    and x: "x \<in> set (drop i (bruckReqs n recv cb r))" "rqPeer x = (r + n - 2 ^ i) mod n"
    by (auto simp: dropsCompletion_def list_ex_iff postedFrom_def)
  obtain j where j: "i \<le> j" "j < nsteps n" "rqPeer x = (r + 2 ^ j) mod n"
    using x(1) by (auto simp: bruckReqs_def drop_map)
  have "i < j" using j ne x(2) by (cases "i = j") auto
  moreover have "2 ^ i < n" "2 ^ j < n" using assms(1) j(2) by (simp_all add: nsteps_less)
  then have "2 ^ i + 2 ^ j = n"
    using ring_meet [of "2 ^ i" n "2 ^ j" r] x(2) j(3) assms(2) by simp
  ultimately show False using loss [OF v] bruckLossyI j(2) by blast
qed

lemma bruck_roundOk:
  assumes "world n c0" "i < nsteps n" and loss: "\<And>r. r < n \<Longrightarrow> isVerbs (comm (c0 r)) \<Longrightarrow> \<not> bruckLossy n"
  shows "roundOk {..<n} c0 (\<lambda>r. (r + n - 2 ^ i) mod n) (\<lambda>r. (r + 2 ^ i) mod n)
    recv (\<lambda>_. min (2 ^ i) (n - 2 ^ i) * cb) (\<lambda>r. recv r + 2 ^ i * cb) (\<lambda>_. min (2 ^ i) (n - 2 ^ i) * cb)
    (\<lambda>r. postedFrom (bruckReqs n (recv r) cb r) i) (\<lambda>r. postedFrom (bruckReqs n (recv r) cb r) (Suc i))"
  unfolding roundOk_def
proof (intro ballI conjI)
  fix r assume "r \<in> {..<n}"
  then have r: "r < n" by simp
  have i: "2 ^ i < n" using assms(2) by (rule nsteps_less)
  note peers = world_peers [OF assms(1) r, of "2 ^ i"]
  show "transport (comm (c0 r)) \<noteq> None" "peerOk (comm (c0 r)) ((r + n - 2 ^ i) mod n)"
    "peerOk (comm (c0 r)) ((r + 2 ^ i) mod n)" using peers i by simp_all
  show "\<not> dropsCompletion ((c0 r)\<lparr>posted := postedFrom (bruckReqs n (recv r) cb r) i\<rparr>) ((r + n - 2 ^ i) mod n)
      (min (2 ^ i) (n - 2 ^ i) * cb) ((r + 2 ^ i) mod n)"
    using assms(2) r loss [OF r] by (rule bruck_keeps_completions)
  have le: "min (2 ^ i) (n - 2 ^ i) * cb \<le> 2 ^ i * cb" by simp
  show "disj (recv r) (min (2 ^ i) (n - 2 ^ i) * cb) (recv r + 2 ^ i * cb) (min (2 ^ i) (n - 2 ^ i) * cb)"
    using le by (simp add: disj_def)
  show "if min (2 ^ i) (n - 2 ^ i) * cb = 0
      then postedFrom (bruckReqs n (recv r) cb r) (Suc i) = postedFrom (bruckReqs n (recv r) cb r) i
      else consume ((r + 2 ^ i) mod n) (recv r + 2 ^ i * cb) (min (2 ^ i) (n - 2 ^ i) * cb)
        (postedFrom (bruckReqs n (recv r) cb r) i) = Some (postedFrom (bruckReqs n (recv r) cb r) (Suc i))"
    by (rule consume_postedFrom) (use assms(2) in \<open>simp_all add: bruckReqs_def\<close>)
  have after: "2 ^ i * cb + 2 ^ i * cb \<le> 2 ^ j * cb" if "Suc i \<le> j" for j
  proof -
    have "(2::nat) ^ Suc i \<le> 2 ^ j" using that by (rule power_increasing) simp
    then have "(2 ^ i + 2 ^ i) * cb \<le> 2 ^ j * cb" by (intro mult_le_mono1) simp
    then show ?thesis by (simp add: add_mult_distrib)
  qed
  show "freeOf (postedFrom (bruckReqs n (recv r) cb r) (Suc i)) (recv r) (min (2 ^ i) (n - 2 ^ i) * cb)"
  proof (rule freeOf_postedFrom)
    fix j assume "Suc i \<le> j" "j < length (bruckReqs n (recv r) cb r)"
    then show "disj (rqBuf (bruckReqs n (recv r) cb r ! j)) (rqBytes (bruckReqs n (recv r) cb r ! j))
        (recv r) (min (2 ^ i) (n - 2 ^ i) * cb)"
      using power_increasing [of i j "2::nat"] by (simp add: bruckReqs_def disj_def min.coboundedI1)
  qed
  show "freeOf (postedFrom (bruckReqs n (recv r) cb r) (Suc i)) (recv r + 2 ^ i * cb) (min (2 ^ i) (n - 2 ^ i) * cb)"
  proof (rule freeOf_postedFrom)
    fix j assume "Suc i \<le> j" "j < length (bruckReqs n (recv r) cb r)"
    then show "disj (rqBuf (bruckReqs n (recv r) cb r ! j)) (rqBytes (bruckReqs n (recv r) cb r ! j))
        (recv r + 2 ^ i * cb) (min (2 ^ i) (n - 2 ^ i) * cb)"
      using order_trans [OF add_left_mono [OF le] after, of j] by (simp add: bruckReqs_def disj_def)
  qed
qed simp

lemma bruck_step:
  assumes "i < nsteps n" "rotated n recv cb X (min (2 ^ i) n) M" "frame {..<n} recv (n * cb) M0 M"
  defines "M' \<equiv> roundMem (\<lambda>r. (r + 2 ^ i) mod n) recv (\<lambda>_. min (2 ^ i) (n - 2 ^ i) * cb) (\<lambda>r. recv r + 2 ^ i * cb) M"
  shows "rotated n recv cb X (min (2 ^ Suc i) n) M' \<and> frame {..<n} recv (n * cb) M0 M'"
proof
  have i: "2 ^ i < n" using assms(1) by (rule nsteps_less)
  let ?m = "min (2 ^ i) (n - 2 ^ i)"
  show "rotated n recv cb X (min (2 ^ Suc i) n) M'"
    unfolding rotated_def
  proof (intro allI impI)
    fix r j assume r: "r < n" and j: "j < min (2 ^ Suc i) n"
    let ?p = "(r + 2 ^ i) mod n"
    have p: "?p < n" using r by simp
    show "rd (M' r) (recv r + j * cb) cb = X ((r + j) mod n)"
    proof (cases "j < 2 ^ i")
      case True
      have "(j + 1) * cb \<le> 2 ^ i * cb" using True by (intro mult_le_mono1) simp
      then have "rd (M' r) (recv r + j * cb) cb = rd (M r) (recv r + j * cb) cb"
        unfolding M'_def roundMem_def by (intro rd_wr_disj) (simp add: disj_def)
      then show ?thesis using assms(2) r True i by (simp add: rotated_def)
    next
      case False
      define o' where "o' = j - 2 ^ i"
      have o: "j = 2 ^ i + o'" "o' < ?m" using False j by (auto simp: o'_def min_def split: if_splits)
      have "(o' + 1) * cb \<le> ?m * cb" using o(2) by (intro mult_le_mono1) simp
      then have le: "o' * cb + cb \<le> ?m * cb" by simp
      have "rd (M' r) (recv r + 2 ^ i * cb + o' * cb) cb = rd (M ?p) (recv ?p + o' * cb) cb"
        unfolding M'_def roundMem_def using le by (rule rd_wr_copy)
      also have "\<dots> = X ((?p + o') mod n)" using assms(2) p o(2) i by (simp add: rotated_def)
      also have "(?p + o') mod n = (r + j) mod n" by (simp add: o mod_add_left_eq add.assoc)
      finally show ?thesis by (simp add: o add_mult_distrib add.assoc)
    qed
  qed
  have "(2 ^ i + ?m) * cb \<le> n * cb" using i by (intro mult_le_mono1) linarith
  then show "frame {..<n} recv (n * cb) M0 M'"
    unfolding M'_def roundMem_def by (intro frame_wr assms(3)) (simp add: add_mult_distrib add.assoc)
qed

lemma bruckReqs_ok:
  assumes "world n c0"
  shows "phase {..<n} c0 (\<lambda>_. []) (\<lambda>r. postRecvs (bruckReqs n (recv r) cb r))
    (\<lambda>r. postedFrom (bruckReqs n (recv r) cb r) 0) J J"
proof (rule phase_postRecvs)
  fix r i j assume r: "r \<in> {..<n}"
  show "transport (comm (c0 r)) \<noteq> None" using assms r by (simp add: world_def)
  show "i < length (bruckReqs n (recv r) cb r) \<Longrightarrow> peerOk (comm (c0 r)) (rqPeer (bruckReqs n (recv r) cb r ! i))"
    using world_peers [OF assms, of r "2 ^ i"] r nsteps_less [of i n] by (simp add: bruckReqs_def)
  assume j: "i < j" "j < length (bruckReqs n (recv r) cb r)"
  have "(2::nat) ^ Suc i \<le> 2 ^ j" using j by (intro power_increasing) auto
  then have "(2 ^ i + min (2 ^ i) (n - 2 ^ i)) * cb \<le> 2 ^ j * cb" by (intro mult_le_mono1) simp
  then show "disj (rqBuf (bruckReqs n (recv r) cb r ! i)) (rqBytes (bruckReqs n (recv r) cb r ! i))
      (rqBuf (bruckReqs n (recv r) cb r ! j)) (rqBytes (bruckReqs n (recv r) cb r ! j))"
    using j by (simp add: bruckReqs_def disj_def add_mult_distrib)
qed

lemma phase_shift_back:
  assumes "roundOk {..<n} c0 (\<lambda>r. (r + n - s) mod n) (\<lambda>r. (r + s) mod n) sb sn rb rn q q'" "0 < s" "s < n"
    and "\<And>M. J M \<Longrightarrow> J' (roundMem (\<lambda>r. (r + s) mod n) sb sn rb M)"
  shows "phase {..<n} c0 q
    (\<lambda>r. sendRecv ((r + n - s) mod n) (sb r) (sn r) ((r + s) mod n) (rb r) (rn r)) q' J J'"
proof -
  have eq: "r + (n - s) = r + n - s" "r + n - (n - s) = r + s" for r using assms(3) by auto
  show ?thesis using phase_shift [of n c0 "n - s" sb sn rb rn q q' J J'] assms by (simp add: eq)
qed

lemma bruckLoop_phase:
  assumes "world n c0" "0 < n" and loss: "\<And>r. r < n \<Longrightarrow> isVerbs (comm (c0 r)) \<Longrightarrow> \<not> bruckLossy n"
  shows "phase {..<n} c0 (\<lambda>_. [])
    (\<lambda>r. check (postRecvs (bruckReqs n (recv r) cb r)) (bruckLoop n r (recv r) cb)) (\<lambda>_. [])
    (\<lambda>M. (\<forall>r<n. rd (M r) (recv r) cb = X r) \<and> frame {..<n} recv (n * cb) M0 M)
    (\<lambda>M. rotated n recv cb X n M \<and> frame {..<n} recv (n * cb) M0 M)"
proof -
  let ?q = "\<lambda>i r. postedFrom (bruckReqs n (recv r) cb r) i"
  let ?J = "\<lambda>i M. rotated n recv cb X (min (2 ^ i) n) M \<and> frame {..<n} recv (n * cb) M0 M"
  have "phase {..<n} c0 (?q 0) (\<lambda>r. bruckLoop n r (recv r) cb) (?q (nsteps n)) (?J 0) (?J (nsteps n))"
    unfolding bruckLoop_def
    by (rule phase_loop, rule phase_shift_back [OF bruck_roundOk [OF assms(1) _ loss]])
      (use bruck_step nsteps_less in auto)
  from phase_check [OF bruckReqs_ok [OF assms(1)] this]
  have "phase {..<n} c0 (\<lambda>_. [])
    (\<lambda>r. check (postRecvs (bruckReqs n (recv r) cb r)) (bruckLoop n r (recv r) cb)) (?q (nsteps n)) (?J 0) (?J (nsteps n))" .
  moreover have "?q (nsteps n) = (\<lambda>_. [])" by (simp add: bruckReqs_def)
  moreover have "min (2 ^ nsteps n) n = n" using nsteps_ge [of n] by simp
  ultimately show ?thesis
    using assms(2) by (auto simp: rotated_def elim!: phase_conseq)
qed

subsection \<open>The final rotation\<close>

lemma local_loop:
  assumes "\<And>i c. i < n \<Longrightarrow> I i c \<Longrightarrow> \<exists>c'. body i c = Ret vcclSuccess c' \<and> I (Suc i) c'" "I 0 c"
  shows "\<exists>c'. loop n body c = Ret vcclSuccess c' \<and> I n c'"
proof -
  have "\<exists>c'. vseq (map body [i..<n]) c = Ret vcclSuccess c' \<and> I n c'" if "i \<le> n" "I i c" for i c
    using that
  proof (induction arbitrary: c rule: inc_induct)
    case base
    then show ?case by (simp add: ok_def)
  next
    case (step m)
    then obtain c1 where c1: "body m c = Ret vcclSuccess c1" "I (Suc m) c1" using assms(1) [of m c] by auto
    from step.IH [OF c1(2)] step.hyps show ?case
      by (auto simp: upt_rec [of m] check_def c1(1))
  qed
  from this [of 0 c] show ?thesis using assms(2) by (simp add: loop_def)
qed

definition rotateCmd :: "nat \<Rightarrow> nat \<Rightarrow> addr \<Rightarrow> nat \<Rightarrow> addr \<Rightarrow> cmd" where
  "rotateCmd n r recv cb tmp =
     vseq [loop n (\<lambda>i. memcpy (tmp + ((r + i) mod n) * cb) (recv + i * cb) cb), memcpy recv tmp (n * cb)]"

lemma slot_le: "j < n \<Longrightarrow> j * cb + cb \<le> n * cb" for j n cb :: nat
  using mult_le_mono1 [of "j + 1" n cb] by simp

lemma slot_disj: "disj tmp (n * cb) recv (n * cb) \<Longrightarrow> i < n \<Longrightarrow> j < n \<Longrightarrow> disj (tmp + i * cb) cb (recv + j * cb) cb"
  using slot_le [of i n cb] slot_le [of j n cb] by (auto simp: disj_def)

lemma rd_whole:
  assumes "\<And>j. j < n \<Longrightarrow> rd m (p + j * cb) cb = rd m' (p' + j * cb) cb"
  shows "rd m p (n * cb) = rd m' p' (n * cb)"
  using assms by (induction n) (simp_all add: add.commute [of cb] rd_add)

lemma rotateCmd_Ret:
  assumes "r < n" "posted c = []" and dis: "disj tmp (n * cb) recv (n * cb)"
    and slots: "\<And>j. j < n \<Longrightarrow> rd (mem c) (recv + j * cb) cb = X ((r + j) mod n)"
  shows "\<exists>m. rotateCmd n r recv cb tmp c = Ret vcclSuccess (c\<lparr>mem := m\<rparr>) \<and>
    (\<forall>j<n. rd m (recv + j * cb) cb = X j) \<and>
    (\<forall>x. (x < recv \<or> recv + n * cb \<le> x) \<and> (x < tmp \<or> tmp + n * cb \<le> x) \<longrightarrow> m x = mem c x)"
proof -
  define I where "I = (\<lambda>i c'. \<exists>m. c' = c\<lparr>mem := m\<rparr> \<and>
    (\<forall>j<i. rd m (tmp + ((r + j) mod n) * cb) cb = X ((r + j) mod n)) \<and>
    (\<forall>x. x < tmp \<or> tmp + n * cb \<le> x \<longrightarrow> m x = mem c x))"
  have step: "\<exists>c''. memcpy (tmp + ((r + i) mod n) * cb) (recv + i * cb) cb c' = Ret vcclSuccess c'' \<and> I (Suc i) c''"
    if i: "i < n" and "I i c'" for i c'
  proof -
    obtain m where m: "c' = c\<lparr>mem := m\<rparr>" "\<And>j. j < i \<Longrightarrow> rd m (tmp + ((r + j) mod n) * cb) cb = X ((r + j) mod n)"
        "\<And>x. x < tmp \<or> tmp + n * cb \<le> x \<Longrightarrow> m x = mem c x" using \<open>I i c'\<close> by (auto simp: I_def)
    let ?s = "(r + i) mod n" and ?m = "wr m (tmp + ((r + i) mod n) * cb) (rd m (recv + i * cb) cb)"
    have s: "?s < n" using i by simp
    have src: "rd m (recv + i * cb) cb = X ?s"
    proof -
      have "rd m (recv + i * cb) cb = rd (mem c) (recv + i * cb) cb"
        using dis slot_le [OF i, of cb] by (intro rd_cong m(3)) (auto simp: disj_def)
      then show ?thesis using slots [OF i] by simp
    qed
    have "memcpy (tmp + ?s * cb) (recv + i * cb) cb c' = Ret vcclSuccess (c\<lparr>mem := ?m\<rparr>)"
      using slot_disj [OF dis s i] assms(2) m(1) by (simp add: memcpy_def busy_freeOf)
    moreover have "rd ?m (tmp + ((r + j) mod n) * cb) cb = X ((r + j) mod n)" if "j < Suc i" for j
    proof (cases "j = i")
      case True
      show ?thesis unfolding True using rd_wr_same [OF length_rd] src by metis
    next
      case False
      then have "(r + j) mod n \<noteq> ?s" using that i assms(1) by (auto simp: ring_simps split: if_splits)
      then show ?thesis
        using m(2) [of j] that False by (simp add: rd_wr_disj region_disj [of ?s, simplified])
    qed
    moreover have "?m x = mem c x" if "x < tmp \<or> tmp + n * cb \<le> x" for x
      using that slot_le [OF s, of cb] m(3) [OF that] by (subst wr_outside) auto
    ultimately show ?thesis by (auto simp: I_def)
  qed
  have I0: "I 0 c" by (auto simp: I_def intro!: exI [of _ "mem c"])
  obtain c1 where c1: "loop n (\<lambda>i. memcpy (tmp + ((r + i) mod n) * cb) (recv + i * cb) cb) c = Ret vcclSuccess c1" "I n c1"
    using local_loop [of n I "\<lambda>i. memcpy (tmp + ((r + i) mod n) * cb) (recv + i * cb) cb" c, OF step I0] by blast
  then obtain m where m: "c1 = c\<lparr>mem := m\<rparr>" "\<And>j. j < n \<Longrightarrow> rd m (tmp + ((r + j) mod n) * cb) cb = X ((r + j) mod n)"
      "\<And>x. x < tmp \<or> tmp + n * cb \<le> x \<Longrightarrow> m x = mem c x" by (auto simp: I_def)
  have tmp: "rd m (tmp + j * cb) cb = X j" if "j < n" for j
    using m(2) [of "(j + n - r) mod n"] that assms(1) ring_shift(2) [of j n r] by (simp add: add.commute)
  let ?m = "wr m recv (rd m tmp (n * cb))"
  have "rotateCmd n r recv cb tmp c = Ret vcclSuccess (c\<lparr>mem := ?m\<rparr>)"
    using c1(1) m(1) dis assms(2)
    by (simp add: rotateCmd_def check_def memcpy_def busy_freeOf ok_def disj_sym)
  moreover have "rd ?m (recv + j * cb) cb = X j" if "j < n" for j
    using slot_le [OF that, of cb] tmp [OF that] by (simp add: rd_wr_copy)
  moreover have "?m x = mem c x" if "(x < recv \<or> recv + n * cb \<le> x) \<and> (x < tmp \<or> tmp + n * cb \<le> x)" for x
    using that m(3) [of x] by (subst wr_outside) auto
  ultimately show ?thesis by blast
qed

end
