(* ===== verification/Vccl_Group.thy ===== *)
theory Vccl_Group
  imports Vccl_Proc
begin

text \<open>
  Group semantics (\<^verbatim>\<open>src/core/group.cc\<close>). The thread-local variables are the record \<open>tls\<close>: nesting
  depth and queued operations. A queued operation is a closure over the context or a point-to-point
  descriptor, tagged with the communicator pointer it was issued on (a non-zero address).
  \<open>vcclGroupEnd\<close> yields the new thread-local state and what the outermost call does: return at once,
  or run the queue of each communicator (one thread each when there are several) and return the first
  failure in order of first issue.
\<close>

datatype QueuedOp =
  QFn addr cmd
| QP2p addr P2pOp

primrec qcomm :: "QueuedOp \<Rightarrow> addr" where
  "qcomm (QFn c _) = c"
| "qcomm (QP2p c _) = c"

primrec isP2p :: "QueuedOp \<Rightarrow> bool" where
  "isP2p (QFn _ _) = False"
| "isP2p (QP2p _ _) = True"

fun p2pOf :: "QueuedOp \<Rightarrow> P2pOp" where
  "p2pOf (QP2p _ op) = op"
| "p2pOf (QFn _ _) = \<lparr>isSend = False, peer = 0, buf = 0, bytes = 0\<rparr>"

fun runFn :: "QueuedOp \<Rightarrow> cmd" where
  "runFn (QFn _ f) = f"
| "runFn (QP2p _ _) = (\<lambda>c. Undef)"

record tls =
  t_groupDepth :: nat
  t_groupOps :: "QueuedOp list"

definition noteErrorC :: "vcclResult_t \<Rightarrow> ctx \<Rightarrow> ctx" where
  "noteErrorC res c = c\<lparr>comm := noteError (errText c) res (comm c)\<rparr>"

text \<open>\<open>if (res != vcclSuccess) { comm->noteError(res); return res; }\<close> after a queued operation.\<close>

definition checkNote :: "cmd \<Rightarrow> cmd \<Rightarrow> cmd" where
  "checkNote p q c =
     bindp (p c) (\<lambda>r c'. if r \<noteq> vcclSuccess then Ret r (noteErrorC r c') else q c')"

function runCommOps :: "QueuedOp list \<Rightarrow> cmd" where
  "runCommOps [] = ok"
| "runCommOps (q # qs) =
     (if isP2p q then
        (let run = map p2pOf (takeWhile isP2p (q # qs)); rest = dropWhile isP2p (q # qs)
         in (\<lambda>c. if transport (comm c) = None then Ret vcclInvalidUsage c
                 else checkNote (batch run) (runCommOps rest) c))
      else checkNote (runFn q) (runCommOps qs))"
  by pat_completeness auto
termination
  by (relation "measure length") (auto simp: le_imp_less_Suc length_dropWhile_le)

definition inGroup :: "tls \<Rightarrow> bool" where
  "inGroup t \<longleftrightarrow> t_groupDepth t > 0"

definition enqueueOrRun :: "addr \<Rightarrow> cmd \<Rightarrow> tls \<Rightarrow> ctx \<Rightarrow> tls \<times> proc" where
  "enqueueOrRun cp fn t c =
     (if \<not> inGroup t then (t, fn c)
      else (t\<lparr>t_groupOps := t_groupOps t @ [QFn cp fn]\<rparr>, Ret vcclSuccess c))"

definition enqueueOrRunP2p :: "addr \<Rightarrow> P2pOp \<Rightarrow> tls \<Rightarrow> ctx \<Rightarrow> tls \<times> proc" where
  "enqueueOrRunP2p cp p2p t c =
     (if \<not> inGroup t then
        (t, if transport (comm c) = None then Ret vcclInvalidUsage c
            else if isSend p2p then tsend (peer p2p) (buf p2p) (bytes p2p) c
            else trecv (peer p2p) (buf p2p) (bytes p2p) c)
      else (t\<lparr>t_groupOps := t_groupOps t @ [QP2p cp p2p]\<rparr>, Ret vcclSuccess c))"

definition vcclGroupStart :: "tls \<Rightarrow> vcclResult_t \<times> tls" where
  "vcclGroupStart t = (vcclSuccess, t\<lparr>t_groupDepth := Suc (t_groupDepth t)\<rparr>)"

text \<open>The partition: communicators in order of first issue, each with its operations in order.\<close>

definition addByComm ::
  "QueuedOp \<Rightarrow> addr list \<times> (addr \<Rightarrow> QueuedOp list) \<Rightarrow> addr list \<times> (addr \<Rightarrow> QueuedOp list)" where
  "addByComm op st =
     (case st of (order, byComm) \<Rightarrow>
        (if byComm (qcomm op) = [] then order @ [qcomm op] else order,
         byComm(qcomm op := byComm (qcomm op) @ [op])))"

definition partitionOps :: "QueuedOp list \<Rightarrow> addr list \<times> (addr \<Rightarrow> QueuedOp list)" where
  "partitionOps ops = fold addByComm ops ([], \<lambda>_. [])"

datatype groupAction =
  Return vcclResult_t
| RunHere addr cmd
| RunThreads "(addr \<times> cmd) list"

definition vcclGroupEnd :: "tls \<Rightarrow> groupAction \<times> tls" where
  "vcclGroupEnd t =
     (if t_groupDepth t = 0 then (Return vcclInvalidUsage, t)
      else let t1 = t\<lparr>t_groupDepth := t_groupDepth t - 1\<rparr> in
           if t_groupDepth t1 > 0 then (Return vcclSuccess, t1)
           else (case partitionOps (t_groupOps t) of (order, byComm) \<Rightarrow>
                   let t2 = t1\<lparr>t_groupOps := []\<rparr> in
                   (case order of
                      [] \<Rightarrow> (Return vcclSuccess, t2)
                    | [cp] \<Rightarrow> (RunHere cp (runCommOps (byComm cp)), t2)
                    | _ \<Rightarrow> (RunThreads (map (\<lambda>cp. (cp, runCommOps (byComm cp))) order), t2))))"

text \<open>What \<open>vcclGroupEnd\<close> returns once all threads have joined.\<close>

fun joinResults :: "vcclResult_t list \<Rightarrow> vcclResult_t" where
  "joinResults [] = vcclSuccess"
| "joinResults (r # rs) = (if r \<noteq> vcclSuccess then r else joinResults rs)"

end
