(* ===== verification/Vccl_Api.thy ===== *)
theory Vccl_Api
  imports Vccl_Collectives Vccl_Group
begin

text \<open>
  The public entry points of \<^verbatim>\<open>src/core/collectives.cc\<close>. The communicator argument is a pointer
  \<open>cp\<close> (0 is null); when it is not null the context holds the communicator it points to. An entry
  point validates its arguments and then runs or queues its collective; it yields the thread-local
  state and the program of the calling thread.
\<close>

definition checkComm :: "addr \<Rightarrow> ctx \<Rightarrow> vcclResult_t" where
  "checkComm cp c =
     (if cp = 0 then vcclInvalidArgument
      else if aborted (comm c) then vcclInvalidUsage else vcclSuccess)"

definition checkArgs :: "addr \<Rightarrow> addr \<Rightarrow> vcclDataType_t \<Rightarrow> addr \<Rightarrow> ctx \<Rightarrow> vcclResult_t" where
  "checkArgs sendbuff recvbuff dt cp c =
     (if checkComm cp c \<noteq> vcclSuccess then checkComm cp c
      else if sendbuff = 0 \<or> recvbuff = 0 then vcclInvalidArgument
      else if vcclTypeSize dt = 0 then vcclInvalidArgument
      else vcclSuccess)"

text \<open>The double \<open>1.0\<close> that \<open>scalar\<close> starts as.\<close>

definition double_one :: "64 word" where
  "double_one = 0x3ff0000000000000"

definition resolveOp ::
  "vcclComm \<Rightarrow> vcclDataType_t \<Rightarrow> vcclRedOp_t \<Rightarrow> vcclResult_t + (vcclRedOp_t \<times> bool \<times> 64 word)" where
  "resolveOp cm dt op =
     (if op < 0 then Inl vcclInvalidArgument
      else if op \<ge> vcclNumOps then
        (case premulScalar cm op of
           None \<Rightarrow> Inl vcclInvalidArgument
         | Some scalar \<Rightarrow> if \<not> isFloatType dt then Inl vcclInvalidArgument
                          else Inr (vcclSum, True, scalar))
      else if op = vcclAvg \<and> \<not> isFloatType dt then Inl vcclInvalidArgument
      else Inr (op, False, double_one))"

definition runOp :: "addr \<Rightarrow> cmd \<Rightarrow> tls \<Rightarrow> ctx \<Rightarrow> tls \<times> proc" where
  "runOp cp fn = enqueueOrRun cp (\<lambda>c. bindp (fn c) (\<lambda>res c'. Ret res (noteErrorC res c')))"

type_synonym api = "tls \<Rightarrow> ctx \<Rightarrow> tls \<times> proc"

definition vcclAllGather :: "addr \<Rightarrow> addr \<Rightarrow> nat \<Rightarrow> vcclDataType_t \<Rightarrow> addr \<Rightarrow> api" where
  "vcclAllGather sendbuff recvbuff sendcount dt cp t c =
     (let e = checkArgs sendbuff recvbuff dt cp c in
      if e \<noteq> vcclSuccess then (t, Ret e c)
      else runOp cp (doAllGather sendbuff recvbuff sendcount dt) t c)"

definition vcclReduceScatter ::
  "addr \<Rightarrow> addr \<Rightarrow> nat \<Rightarrow> vcclDataType_t \<Rightarrow> vcclRedOp_t \<Rightarrow> addr \<Rightarrow> api" where
  "vcclReduceScatter sendbuff recvbuff recvcount dt op cp t c =
     (let e = checkArgs sendbuff recvbuff dt cp c in
      if e \<noteq> vcclSuccess then (t, Ret e c)
      else (case resolveOp (comm c) dt op of
              Inl e \<Rightarrow> (t, Ret e c)
            | Inr (op', premul, scalar) \<Rightarrow>
                runOp cp (doReduceScatter sendbuff recvbuff recvcount dt op' premul scalar) t c))"

definition vcclAllReduce ::
  "addr \<Rightarrow> addr \<Rightarrow> nat \<Rightarrow> vcclDataType_t \<Rightarrow> vcclRedOp_t \<Rightarrow> addr \<Rightarrow> api" where
  "vcclAllReduce sendbuff recvbuff cnt dt op cp t c =
     (let e = checkArgs sendbuff recvbuff dt cp c in
      if e \<noteq> vcclSuccess then (t, Ret e c)
      else (case resolveOp (comm c) dt op of
              Inl e \<Rightarrow> (t, Ret e c)
            | Inr (op', premul, scalar) \<Rightarrow>
                runOp cp (doAllReduce sendbuff recvbuff cnt dt op' premul scalar) t c))"

text \<open>The argument check of the rooted collectives: \<open>always\<close> is the buffer every rank needs,
  \<open>atRoot\<close> the one only the root needs.\<close>

definition checkRooted :: "addr \<Rightarrow> addr \<Rightarrow> vcclDataType_t \<Rightarrow> int \<Rightarrow> addr \<Rightarrow> ctx \<Rightarrow> vcclResult_t" where
  "checkRooted always atRoot dt root cp c =
     (if checkComm cp c \<noteq> vcclSuccess then checkComm cp c
      else if always = 0 \<or> vcclTypeSize dt = 0 \<or> root < 0 \<or> root \<ge> int (nranks (comm c))
      then vcclInvalidArgument
      else if int (rank (comm c)) = root \<and> atRoot = 0 then vcclInvalidArgument
      else vcclSuccess)"

definition vcclReduce ::
  "addr \<Rightarrow> addr \<Rightarrow> nat \<Rightarrow> vcclDataType_t \<Rightarrow> vcclRedOp_t \<Rightarrow> int \<Rightarrow> addr \<Rightarrow> api" where
  "vcclReduce sendbuff recvbuff cnt dt op root cp t c =
     (let e = checkRooted sendbuff recvbuff dt root cp c in
      if e \<noteq> vcclSuccess then (t, Ret e c)
      else (case resolveOp (comm c) dt op of
              Inl e \<Rightarrow> (t, Ret e c)
            | Inr (op', premul, scalar) \<Rightarrow>
                runOp cp (doReduce sendbuff recvbuff cnt dt op' premul scalar (nat root)) t c))"

definition vcclBroadcast ::
  "addr \<Rightarrow> addr \<Rightarrow> nat \<Rightarrow> vcclDataType_t \<Rightarrow> int \<Rightarrow> addr \<Rightarrow> api" where
  "vcclBroadcast sendbuff recvbuff cnt dt root cp t c =
     (let e = checkRooted recvbuff sendbuff dt root cp c in
      if e \<noteq> vcclSuccess then (t, Ret e c)
      else runOp cp (doBroadcast sendbuff recvbuff cnt dt (nat root)) t c)"

definition vcclBcast :: "addr \<Rightarrow> nat \<Rightarrow> vcclDataType_t \<Rightarrow> int \<Rightarrow> addr \<Rightarrow> api" where
  "vcclBcast buff cnt dt root cp = vcclBroadcast buff buff cnt dt root cp"

definition vcclGather ::
  "addr \<Rightarrow> addr \<Rightarrow> nat \<Rightarrow> vcclDataType_t \<Rightarrow> int \<Rightarrow> addr \<Rightarrow> api" where
  "vcclGather sendbuff recvbuff sendcount dt root cp t c =
     (let e = checkRooted sendbuff recvbuff dt root cp c in
      if e \<noteq> vcclSuccess then (t, Ret e c)
      else runOp cp (doGather sendbuff recvbuff sendcount dt (nat root)) t c)"

definition vcclScatter ::
  "addr \<Rightarrow> addr \<Rightarrow> nat \<Rightarrow> vcclDataType_t \<Rightarrow> int \<Rightarrow> addr \<Rightarrow> api" where
  "vcclScatter sendbuff recvbuff recvcount dt root cp t c =
     (let e = checkRooted recvbuff sendbuff dt root cp c in
      if e \<noteq> vcclSuccess then (t, Ret e c)
      else runOp cp (doScatter sendbuff recvbuff recvcount dt (nat root)) t c)"

definition vcclAllToAll :: "addr \<Rightarrow> addr \<Rightarrow> nat \<Rightarrow> vcclDataType_t \<Rightarrow> addr \<Rightarrow> api" where
  "vcclAllToAll sendbuff recvbuff cnt dt cp t c =
     (let e = checkArgs sendbuff recvbuff dt cp c; n = nranks (comm c) in
      if e \<noteq> vcclSuccess then (t, Ret e c)
      else runOp cp (let counts = replicate n cnt; displs = map (\<lambda>i. i * cnt) [0..<n]
                     in doAllToAllv sendbuff counts displs recvbuff counts displs dt) t c)"

text \<open>A null table is \<open>None\<close>; the tables are copied at the call, their first \<open>nranks\<close> entries.\<close>

definition vcclAllToAllv ::
  "addr \<Rightarrow> nat list option \<Rightarrow> nat list option \<Rightarrow> addr \<Rightarrow> nat list option \<Rightarrow> nat list option
    \<Rightarrow> vcclDataType_t \<Rightarrow> addr \<Rightarrow> api" where
  "vcclAllToAllv sendbuff sendcounts sdispls recvbuff recvcounts rdispls dt cp t c =
     (let e = checkArgs sendbuff recvbuff dt cp c; n = nranks (comm c) in
      if e \<noteq> vcclSuccess then (t, Ret e c)
      else (case (sendcounts, sdispls, recvcounts, rdispls) of
              (Some sc, Some sd, Some rc, Some rd') \<Rightarrow>
                runOp cp (doAllToAllv sendbuff (take n sc) (take n sd) recvbuff (take n rc) (take n rd')
                            dt) t c
            | _ \<Rightarrow> (t, Ret vcclInvalidArgument c)))"

definition checkP2p :: "addr \<Rightarrow> vcclDataType_t \<Rightarrow> int \<Rightarrow> addr \<Rightarrow> ctx \<Rightarrow> vcclResult_t" where
  "checkP2p buff dt p cp c =
     (if checkComm cp c \<noteq> vcclSuccess then checkComm cp c
      else if buff = 0 \<or> vcclTypeSize dt = 0 \<or> p < 0 \<or> p \<ge> int (nranks (comm c)) \<or>
              p = int (rank (comm c))
      then vcclInvalidArgument else vcclSuccess)"

definition vcclSend :: "addr \<Rightarrow> nat \<Rightarrow> vcclDataType_t \<Rightarrow> int \<Rightarrow> addr \<Rightarrow> api" where
  "vcclSend sendbuff cnt dt p cp t c =
     (let e = checkP2p sendbuff dt p cp c in
      if e \<noteq> vcclSuccess then (t, Ret e c)
      else enqueueOrRunP2p cp
             \<lparr>isSend = True, peer = nat p, buf = sendbuff, bytes = cnt * vcclTypeSize dt\<rparr> t c)"

definition vcclRecv :: "addr \<Rightarrow> nat \<Rightarrow> vcclDataType_t \<Rightarrow> int \<Rightarrow> addr \<Rightarrow> api" where
  "vcclRecv recvbuff cnt dt p cp t c =
     (let e = checkP2p recvbuff dt p cp c in
      if e \<noteq> vcclSuccess then (t, Ret e c)
      else enqueueOrRunP2p cp
             \<lparr>isSend = False, peer = nat p, buf = recvbuff, bytes = cnt * vcclTypeSize dt\<rparr> t c)"

end
