(* ===== verification/Vccl_Entry.thy ===== *)
theory Vccl_Entry
  imports Vccl_Runs Vccl_Api
begin

text \<open>
  From a collective's program to its entry point: what a call needs (\<open>callable\<close>) and that validation,
  group bookkeeping and error recording let a successful run through unchanged.
\<close>

text \<open>The communicator is usable on all \<open>n\<close> ranks and no receive is outstanding.\<close>

definition ready :: "nat \<Rightarrow> (nat \<Rightarrow> ctx) \<Rightarrow> bool" where
  "ready n c \<longleftrightarrow> world n c \<and> 0 < n \<and> (\<forall>r<n. posted (c r) = [] \<and> regAccepts (comm (c r)))"

lemma ready_frame:
  assumes "ready n c" "\<And>r. r < n \<Longrightarrow> ctxFrame (c r) (c1 r) \<and> posted (c1 r) = []"
  shows "ready n c1"
proof -
  have "commFrame (comm (c r)) (comm (c1 r))" if "r < n" for r using assms(2) [OF that] by (simp add: ctxFrame_def)
  then show ?thesis using assms by (simp add: ready_def world_def commFrame_def)
qed

lemma ready_rank: "ready n c \<Longrightarrow> r < n \<Longrightarrow> rank (comm (c r)) = r \<and> nranks (comm (c r)) = n"
  by (simp add: ready_def world_def)

lemma scoped_cong:
  "(\<And>c'. rank (comm c') = rank (comm c) \<Longrightarrow> nranks (comm c') = nranks (comm c) \<Longrightarrow> env c' = env c \<Longrightarrow> P c' = P' c') \<Longrightarrow>
   scoped P c = scoped P' c"
  by (simp add: scoped_def scopedCtor_def)

subsection \<open>Working on a buffer\<close>

text \<open>\<open>laterOn n c c1 p k\<close>: the ranks have got from \<open>c\<close> to \<open>c1\<close> changing at most the \<open>k r\<close> bytes at \<open>p r\<close>
  and scratch space. \<open>worksOn n c P p k Q\<close>: the commands \<open>P\<close> run to the end that way and establish \<open>Q\<close>.
  \<open>later\<close> and \<open>works\<close> are the case of buffers of one size.\<close>

definition laterOn :: "nat \<Rightarrow> (nat \<Rightarrow> ctx) \<Rightarrow> (nat \<Rightarrow> ctx) \<Rightarrow> (nat \<Rightarrow> addr) \<Rightarrow> (nat \<Rightarrow> nat) \<Rightarrow> bool" where
  "laterOn n c c1 p k \<longleftrightarrow> ready n c1 \<and> (\<forall>r<n. ctxFrame (c r) (c1 r) \<and> keeps (c r) (mem (c1 r)) (p r) (k r))"

definition worksOn ::
  "nat \<Rightarrow> (nat \<Rightarrow> ctx) \<Rightarrow> (nat \<Rightarrow> cmd) \<Rightarrow> (nat \<Rightarrow> addr) \<Rightarrow> (nat \<Rightarrow> nat) \<Rightarrow> ((nat \<Rightarrow> mem) \<Rightarrow> bool) \<Rightarrow> bool" where
  "worksOn n c P p k Q \<longleftrightarrow> runs {..<n} P c (\<lambda>M. (\<forall>r<n. keeps (c r) (M r) (p r) (k r)) \<and> Q M)"

abbreviation later :: "nat \<Rightarrow> (nat \<Rightarrow> ctx) \<Rightarrow> (nat \<Rightarrow> ctx) \<Rightarrow> (nat \<Rightarrow> addr) \<Rightarrow> nat \<Rightarrow> bool" where
  "later n c c1 p k \<equiv> laterOn n c c1 p (\<lambda>_. k)"

abbreviation works ::
  "nat \<Rightarrow> (nat \<Rightarrow> ctx) \<Rightarrow> (nat \<Rightarrow> cmd) \<Rightarrow> (nat \<Rightarrow> addr) \<Rightarrow> nat \<Rightarrow> ((nat \<Rightarrow> mem) \<Rightarrow> bool) \<Rightarrow> bool" where
  "works n c P p k Q \<equiv> worksOn n c P p (\<lambda>_. k) Q"

lemma laterD:
  assumes "laterOn n c c1 p k"
  shows "ready n c1" "world n c1" "0 < n" and "r < n \<Longrightarrow> ctxFrame (c r) (c1 r)"
    "r < n \<Longrightarrow> env (c1 r) = env (c r)" "r < n \<Longrightarrow> fp (c1 r) = fp (c r)" "r < n \<Longrightarrow> posted (c1 r) = []"
    "r < n \<Longrightarrow> scratchSafe (c r) q l \<Longrightarrow> scratchSafe (c1 r) q l"
    "r < n \<Longrightarrow> isVerbs (comm (c1 r)) = isVerbs (comm (c r))"
  using assms by (auto simp: laterOn_def ready_def ctxFrame_def commFrame_def)

lemma worksI:
  "runs {..<n} P c Q' \<Longrightarrow> (\<And>M r. Q' M \<Longrightarrow> r < n \<Longrightarrow> keeps (c r) (M r) (p r) (k r)) \<Longrightarrow> (\<And>M. Q' M \<Longrightarrow> Q M) \<Longrightarrow> worksOn n c P p k Q"
  unfolding worksOn_def by (erule runs_conseq) blast

lemma works_conseq: "worksOn n c P p k Q \<Longrightarrow> (\<And>M. Q M \<Longrightarrow> Q' M) \<Longrightarrow> worksOn n c P p k Q'"
  unfolding worksOn_def by (erule runs_conseq) blast

lemma works_runs: "worksOn n c P p k Q \<Longrightarrow> runs {..<n} P c (\<lambda>M. (\<forall>r<n. keeps (c r) (M r) (p r) (k r)) \<and> Q M)"
  by (simp add: worksOn_def)

lemma works_cong: "(\<And>r. r < n \<Longrightarrow> P r (c r) = P' r (c r)) \<Longrightarrow> worksOn n c P p k Q \<longleftrightarrow> worksOn n c P' p k Q"
  unfolding worksOn_def by (rule runs_cong) auto

lemma works_ok: "ready n c \<Longrightarrow> Q (\<lambda>r. mem (c r)) \<Longrightarrow> worksOn n c (\<lambda>r. ok) p k Q"
  unfolding worksOn_def by (rule runs_local [where c' = c]) (auto simp: ok_def ready_def)

lemma works_check:
  assumes "ready n c" "worksOn n c P p k Q"
    and "\<And>c1. laterOn n c c1 p k \<Longrightarrow> Q (\<lambda>r. mem (c1 r)) \<Longrightarrow> worksOn n c1 P' p k Q'"
  shows "worksOn n c (\<lambda>r. check (P r) (P' r)) p k Q'"
  unfolding worksOn_def
proof (rule runs_check [OF assms(2) [unfolded worksOn_def]])
  fix c1 assume f: "\<And>r. r \<in> {..<n} \<Longrightarrow> ctxFrame (c r) (c1 r) \<and> posted (c1 r) = []"
    and Q: "(\<forall>r<n. keeps (c r) (mem (c1 r)) (p r) (k r)) \<and> Q (\<lambda>r. mem (c1 r))"
  have "ready n c1" by (rule ready_frame [OF assms(1)]) (use f in auto)
  then have "laterOn n c c1 p k" using f Q by (auto simp: laterOn_def)
  from assms(3) [OF this] Q have "worksOn n c1 P' p k Q'" by blast
  then show "runs {..<n} P' c1 (\<lambda>M. (\<forall>r<n. keeps (c r) (M r) (p r) (k r)) \<and> Q' M)"
    unfolding worksOn_def
  proof (rule runs_conseq)
    fix M assume M: "(\<forall>r<n. keeps (c1 r) (M r) (p r) (k r)) \<and> Q' M"
    have "keeps (c r) (M r) (p r) (k r)" if "r < n" for r
      using keeps_trans [of "c r" "c1 r" "p r" "k r" "M r"] f [of r] Q M that by simp
    with M show "(\<forall>r<n. keeps (c r) (M r) (p r) (k r)) \<and> Q' M" by blast
  qed
qed

lemma works_each:
  assumes "\<And>r. r < n \<Longrightarrow> \<exists>c'. P r (c r) = Ret vcclSuccess c' \<and> ctxFrame (c r) c' \<and> posted c' = [] \<and>
      keeps (c r) (mem c') (p r) (k r) \<and> Q r (mem c')"
  shows "worksOn n c P p k (\<lambda>M. \<forall>r<n. Q r (M r))"
proof -
  have "runs {..<n} P c (\<lambda>M. \<forall>r\<in>{..<n}. keeps (c r) (M r) (p r) (k r) \<and> Q r (M r))"
    by (rule runs_each) (use assms in auto)
  then show ?thesis unfolding worksOn_def by (rule runs_conseq) auto
qed

text \<open>The usual local step: it changes memory only, inside the buffer.\<close>

lemma works_mem:
  assumes "ready n c" "\<And>r. r < n \<Longrightarrow> P r (c r) = Ret vcclSuccess ((c r)\<lparr>mem := F r\<rparr>)"
    and "\<And>r x. r < n \<Longrightarrow> x < p r \<or> p r + k r \<le> x \<Longrightarrow> F r x = mem (c r) x"
    and "\<And>r. r < n \<Longrightarrow> Q r (F r)"
  shows "worksOn n c P p k (\<lambda>M. \<forall>r<n. Q r (M r))"
proof (rule works_each, goal_cases)
  case (1 r)
  have "keeps (c r) (F r) (p r) (k r)" using assms(3) [OF 1] by (rule keeps_outside)
  then show ?case using assms(1,2,4) 1 by (auto simp: ready_def)
qed

lemma worksOn_phase:
  assumes "phase {..<n} c (\<lambda>_. []) P (\<lambda>_. []) J J'" "ready n c" "J (\<lambda>r. mem (c r))"
    and "\<And>M. J' M \<Longrightarrow> Q M" "\<And>M r x. J' M \<Longrightarrow> r < n \<Longrightarrow> x < p r \<or> p r + k r \<le> x \<Longrightarrow> M r x = mem (c r) x"
  shows "worksOn n c P p k Q"
proof (rule worksI [OF runs_phase [OF assms(1)]])
  show "keeps (c r) (M r) (p r) (k r)" if "J' M" "r < n" for M r
    using assms(5) [OF that] by (rule keeps_outside)
qed (use assms in \<open>auto simp: ready_def\<close>)

lemma works_phase:
  assumes "phase {..<n} c (\<lambda>_. []) P (\<lambda>_. []) J J'" "ready n c" "J (\<lambda>r. mem (c r))"
    and "\<And>M. J' M \<Longrightarrow> Q M \<and> frame {..<n} p k (\<lambda>r. mem (c r)) M"
  shows "works n c P p k Q"
  using assms by (intro worksOn_phase [OF assms(1-3)]) (auto simp: frame_def)

lemma works_scoped:
  assumes "ready n c"
    and "\<And>c1. laterOn n c c1 p k \<Longrightarrow> (\<And>r. r < n \<Longrightarrow> mem (c1 r) = mem (c r)) \<Longrightarrow> worksOn n c1 P p k Q"
  shows "worksOn n c (\<lambda>r. scoped (P r)) p k Q"
  unfolding worksOn_def
proof (rule runs_scoped)
  let ?c1 = "\<lambda>r. (c r)\<lparr>comm := scopedCtor (comm (c r))\<rparr>"
  have "ready n ?c1"
    by (rule ready_frame [OF assms(1)]) (use assms(1) scoped_frame(1) in \<open>simp add: ready_def\<close>)
  then have "laterOn n c ?c1 p k" using keeps_refl by (simp add: laterOn_def scoped_frame(1))
  from assms(2) [OF this]
  show "runs {..<n} P ?c1 (\<lambda>M. (\<forall>r<n. keeps (c r) (M r) (p r) (k r)) \<and> Q M)"
    unfolding worksOn_def by (auto elim!: runs_conseq simp: keeps_def scratchSafe_def scopedCtor_def)
qed

lemma works_regAdd:
  assumes "ready n c" "Q (\<lambda>r. mem (c r))"
  shows "worksOn n c (\<lambda>r. regAdd (a r) (l r)) p k Q"
  unfolding worksOn_def by (rule runs_regAdd) (use assms in \<open>auto simp: ready_def\<close>)

text \<open>A source that is the destination already, or apart from it so that it can be copied.\<close>

definition slotOk :: "addr \<Rightarrow> addr \<Rightarrow> nat \<Rightarrow> bool" where
  "slotOk dst src l \<longleftrightarrow> src = dst \<or> disj dst l src l"

lemma works_copy_if:
  assumes "ready n c" "\<And>r. r < n \<Longrightarrow> b r \<Longrightarrow> slotOk (d r) (s r) (l r) \<and> p r \<le> d r \<and> d r + l r \<le> p r + k r"
  shows "worksOn n c (\<lambda>r. cwhen (b r \<and> s r \<noteq> d r) (memcpy (d r) (s r) (l r))) p k
    (\<lambda>M. \<forall>r<n. M r = (if b r \<and> s r \<noteq> d r then wr (mem (c r)) (d r) (rd (mem (c r)) (s r) (l r)) else mem (c r)))"
proof (rule works_mem [OF assms(1), where F = "\<lambda>r. if b r \<and> s r \<noteq> d r
    then wr (mem (c r)) (d r) (rd (mem (c r)) (s r) (l r)) else mem (c r)"])
  fix r assume r: "r < n"
  show "cwhen (b r \<and> s r \<noteq> d r) (memcpy (d r) (s r) (l r)) (c r) = Ret vcclSuccess
      ((c r)\<lparr>mem := if b r \<and> s r \<noteq> d r then wr (mem (c r)) (d r) (rd (mem (c r)) (s r) (l r)) else mem (c r)\<rparr>)"
    using assms(1) assms(2) [OF r] r
    by (auto simp: cwhen_def ok_def slotOk_def memcpy_def busy_def ready_def)
  fix x assume "x < p r \<or> p r + k r \<le> x"
  then show "(if b r \<and> s r \<noteq> d r then wr (mem (c r)) (d r) (rd (mem (c r)) (s r) (l r)) else mem (c r)) x = mem (c r) x"
    using assms(2) [OF r] by (auto intro!: wr_outside)
qed simp

lemma works_copy:
  assumes "ready n c" "\<And>r. r < n \<Longrightarrow> slotOk (d r) (s r) l \<and> p r \<le> d r \<and> d r + l \<le> p r + k r"
  shows "worksOn n c (\<lambda>r. cwhen (s r \<noteq> d r) (memcpy (d r) (s r) l)) p k
    (\<lambda>M. \<forall>r<n. rd (M r) (d r) l = rd (mem (c r)) (s r) l)"
  using works_copy_if [OF assms(1), of "\<lambda>_. True" d s "\<lambda>_. l" p k] assms(2)
  by (auto elim!: works_conseq simp: rd_wr_same)

subsection \<open>Entry points\<close>

text \<open>In addition the calls are made outside a group on a communicator that is not aborted.\<close>

definition callable :: "nat \<Rightarrow> (nat \<Rightarrow> ctx) \<Rightarrow> (nat \<Rightarrow> addr) \<Rightarrow> (nat \<Rightarrow> tls) \<Rightarrow> bool" where
  "callable n c cp t \<longleftrightarrow> ready n c \<and>
     (\<forall>r<n. cp r \<noteq> 0 \<and> \<not> aborted (comm (c r)) \<and> t_groupDepth (t r) = 0)"

lemma callable_checks:
  "callable n c cp t \<Longrightarrow> r < n \<Longrightarrow> checkComm (cp r) (c r) = vcclSuccess \<and> \<not> inGroup (t r)"
  by (simp add: callable_def checkComm_def inGroup_def)

lemma callable_args:
  "callable n c cp t \<Longrightarrow> r < n \<Longrightarrow> s \<noteq> 0 \<Longrightarrow> d \<noteq> 0 \<Longrightarrow> dt \<noteq> vcclNumTypes \<Longrightarrow>
   checkArgs s d dt (cp r) (c r) = vcclSuccess"
  using vcclTypeSize_pos [of dt] by (simp add: checkArgs_def callable_checks)

text \<open>Outside a group an operation runs at once and its result is recorded.\<close>

definition recorded :: "cmd \<Rightarrow> cmd" where
  "recorded p c = bindp (p c) (\<lambda>res c'. Ret res (noteErrorC res c'))"

lemma runOp_outside: "\<not> inGroup t \<Longrightarrow> runOp cp fn t c = (t, recorded fn c)"
  by (simp add: runOp_def enqueueOrRun_def recorded_def)

lemma noteErrorC_success [simp]: "noteErrorC vcclSuccess c = c"
  by (simp add: noteErrorC_def noteError_def)

lemma par_recorded: "par A P c c' \<Longrightarrow> par A (\<lambda>r. recorded (P r)) c c'"
proof (rule parI)
  fix cfg K assume "par A P c c'" "\<And>r. r \<in> A \<Longrightarrow> cfg r = bindp (recorded (P r) (c r)) (K r)"
  then show "net_step\<^sup>*\<^sup>* cfg (\<lambda>r. if r \<in> A then K r vcclSuccess (c' r) else cfg r)"
    using parD [of A P c c' cfg "\<lambda>r e c'. K r e (noteErrorC e c')"] by (simp add: recorded_def cong: if_cong)
qed

lemma runs_recorded: "runs A P c Q \<Longrightarrow> runs A (\<lambda>r. recorded (P r)) c Q"
  unfolding runs_def using par_recorded by blast

text \<open>Total correctness of an entry point from a run of its collective.\<close>

lemma entry_finishes:
  assumes "runs {..<n} P c Q"
    and "\<And>r. r < n \<Longrightarrow> snd (call r (c r)) = recorded (P r) (c r)"
    and "\<And>M r c'. Q M \<Longrightarrow> r < n \<Longrightarrow> ctxFrame (c r) c' \<Longrightarrow> posted c' = [] \<Longrightarrow> mem c' = M r \<Longrightarrow> Q' r c'"
  shows "finishes n (\<lambda>r. snd (call r (c r))) Q'"
proof -
  have "runs {..<n} (\<lambda>r c. snd (call r c)) c Q"
    using runs_recorded [OF assms(1)] by (subst runs_cong [where P' = "\<lambda>r. recorded (P r)"]) (auto simp: assms(2))
  then obtain c' where "par {..<n} (\<lambda>r c. snd (call r c)) c c'"
      "\<And>r. r < n \<Longrightarrow> ctxFrame (c r) (c' r) \<and> posted (c' r) = []" "Q (\<lambda>r. mem (c' r))"
    unfolding runs_def by auto
  then show ?thesis by (intro par_finishes) (use assms(3) in auto)
qed

text \<open>Operators that pass \<open>resolveOp\<close> are ones the kernels accept.\<close>

definition opOk :: "vcclDataType_t \<Rightarrow> vcclRedOp_t \<Rightarrow> bool" where
  "opOk dt op \<longleftrightarrow> dt \<noteq> vcclNumTypes \<and> 0 \<le> op \<and> op < vcclNumOps \<and> (op = vcclAvg \<longrightarrow> isFloatType dt)"

lemma resolveOp_ok:
  "resolveOp cm dt op = Inr (op', premul, scalar) \<Longrightarrow> dt \<noteq> vcclNumTypes \<Longrightarrow> opOk dt op' \<and> (premul \<longrightarrow> isFloatType dt)"
  by (auto simp: resolveOp_def opOk_def redop_defs split: if_splits option.splits)

lemma resolveOp_int:
  "0 \<le> op \<Longrightarrow> op < vcclNumOps \<Longrightarrow> op \<noteq> vcclAvg \<Longrightarrow> resolveOp cm dt op = Inr (op, False, double_one)"
  by (simp add: resolveOp_def)

end
