(* ===== verification/Vccl_AllGather.thy ===== *)
theory Vccl_AllGather
  imports Vccl_Bruck Vccl_Entry
begin

text \<open>
  All-gather as a whole: the three algorithms, the switch between them and the entry point. The
  specification \<open>allGathered\<close> says that every rank ends with the contributions of all ranks in rank
  order and nothing else of its memory changed but scratch space.
\<close>

definition allGathered :: "nat \<Rightarrow> (nat \<Rightarrow> addr) \<Rightarrow> nat \<Rightarrow> (nat \<Rightarrow> byte list) \<Rightarrow> (nat \<Rightarrow> mem) \<Rightarrow> bool" where
  "allGathered n recv cb X M \<longleftrightarrow> (\<forall>r<n. \<forall>j<n. rd (M r) (recv r + j * cb) cb = X j)"

subsection \<open>Bruck\<close>

lemma bruckAllGather_eq:
  assumes "rank (comm c) = r" "nranks (comm c) = n"
  shows "bruckAllGather recv cb c =
    check (cwhen (r \<noteq> 0) (memcpy recv (recv + r * cb) cb))
      (check (check (postRecvs (bruckReqs n recv cb r)) (bruckLoop n r recv cb))
        (cwhen (r \<noteq> 0) (withScratch (n * cb) (rotateCmd n r recv cb)))) c"
  using assms
  by (simp add: bruckAllGather_def Let_def bruckSteps_eq bruckReqs_def bruckLoop_def loop_def comp_def
      rotateCmd_def [abs_def] check_assoc)

lemma bruck_first_phase:
  shows "phase {..<n} c (\<lambda>_. []) (\<lambda>r. cwhen (r \<noteq> 0) (memcpy (recv r) (recv r + r * cb) cb)) (\<lambda>_. [])
    (\<lambda>M. M = (\<lambda>r. mem (c r)) \<and> (\<forall>r<n. rd (M r) (recv r + r * cb) cb = X r))
    (\<lambda>M. (\<forall>r<n. rd (M r) (recv r) cb = X r) \<and> frame {..<n} recv (n * cb) (\<lambda>r. mem (c r)) M)"
proof (rule phase_local [where F = "\<lambda>M r. if r = 0 then M r else wr (M r) (recv r) (rd (M r) (recv r + r * cb) cb)"],
    goal_cases)
  case (1 M r)
  have "r \<noteq> 0 \<Longrightarrow> disj (recv r) cb (recv r + r * cb) cb" by (simp add: disj_def)
  then show ?case by (auto simp: cwhen_def ok_def memcpy_Ret upd_def memcpy_def busy_def)
next
  case (2 M)
  have le: "r < n \<Longrightarrow> cb \<le> n * cb" for r by simp
  have "wr (M r) (recv r) (rd (M r) (recv r + r * cb) cb) x = M r x" if "r < n" "recv r + n * cb \<le> x" for r x
    using that(2) le [OF that(1)] by (intro wr_outside) (simp only: length_rd, linarith)
  with 2 show ?case by (auto simp: frame_def wr_outside rd_wr_same)
qed

lemma bruck_rotate:
  assumes "ready n c" "\<And>r. r < n \<Longrightarrow> scratchSafe (c r) (recv r) (n * cb)" "rotated n recv cb X n (\<lambda>r. mem (c r))"
  shows "works n c (\<lambda>r. cwhen (r \<noteq> 0) (withScratch (n * cb) (rotateCmd n r (recv r) cb))) recv (n * cb)
    (allGathered n recv cb X)"
  unfolding allGathered_def
proof (rule works_each, goal_cases)
  case (1 r)
  have slots: "rd (mem (c r)) (recv r + j * cb) cb = X ((r + j) mod n)" if "j < n" for j
    using assms(3) that 1 by (simp add: rotated_def)
  have posted: "posted (c r) = []" using assms(1) 1 by (simp add: ready_def)
  show ?case
  proof (cases "r = 0")
    case True
    then show ?thesis using slots posted by (intro exI [of _ "c r"]) (simp add: cwhen_def ok_def)
  next
    case False
    let ?s = "scrCtx (n * cb) (c r)" and ?t = "scrAddr (n * cb) (c r)"
    have dis: "disj ?t (n * cb) (recv r) (n * cb)" using scrCtx_facts(4) [OF assms(2) [OF 1]] .
    have "rd (mem ?s) (recv r + j * cb) cb = X ((r + j) mod n)" if "j < n" for j
      using scrCtx_facts(3) [of _ "n * cb" "c r"] dis slot_le [OF that, of cb] slots [OF that]
      by (subst rd_cong [of _ _ _ "mem (c r)"]) (auto simp: disj_def)
    then obtain m where m: "rotateCmd n r (recv r) cb ?t ?s = Ret vcclSuccess (?s\<lparr>mem := m\<rparr>)"
        "\<forall>j<n. rd m (recv r + j * cb) cb = X j"
        "\<forall>x. (x < recv r \<or> recv r + n * cb \<le> x) \<and> (x < ?t \<or> ?t + n * cb \<le> x) \<longrightarrow> m x = mem ?s x"
      using rotateCmd_Ret [OF _ _ dis, of r ?s X] 1 posted by (auto simp: scrCtx_facts(2))
    have "keeps (c r) m (recv r) (n * cb)" using m(3) by (intro keeps_scratch [of _ _ "n * cb"]) blast
    moreover have "ctxFrame (c r) (?s\<lparr>mem := m\<rparr>)" by (rule ctxFrame_trans [OF scrCtx_facts(1) ctxFrame_mem])
    ultimately show ?thesis
      using m(1,2) False posted by (simp add: cwhen_def withScratch_eq scrCtx_facts(2))
  qed
qed

lemma bruckAllGather_works:
  assumes c: "ready n c" and b: "\<And>r. r < n \<Longrightarrow> scratchSafe (c r) (recv r) (n * cb) \<and>
      rd (mem (c r)) (recv r + r * cb) cb = X r \<and> (isVerbs (comm (c r)) \<longrightarrow> \<not> bruckLossy n)"
  shows "works n c (\<lambda>r. bruckAllGather (recv r) cb) recv (n * cb) (allGathered n recv cb X)"
proof -
  let ?first = "\<lambda>r. cwhen (r \<noteq> 0) (memcpy (recv r) (recv r + r * cb) cb)"
  let ?loop = "\<lambda>r. check (postRecvs (bruckReqs n (recv r) cb r)) (bruckLoop n r (recv r) cb)"
  let ?rest = "\<lambda>r. cwhen (r \<noteq> 0) (withScratch (n * cb) (rotateCmd n r (recv r) cb))"
  have w: "world n c" "0 < n" using c by (auto simp: ready_def)
  have loss: "r < n \<Longrightarrow> isVerbs (comm (c r)) \<Longrightarrow> \<not> bruckLossy n" for r using b by blast
  have "works n c (\<lambda>r. check (?first r) (?loop r)) recv (n * cb) (rotated n recv cb X n)"
    by (rule works_phase [OF phase_check [OF bruck_first_phase bruckLoop_phase [OF w loss]] c]) (use b in auto)
  then have "works n c (\<lambda>r. check (check (?first r) (?loop r)) (?rest r)) recv (n * cb) (allGathered n recv cb X)"
    by (rule works_check [OF c], intro bruck_rotate) (use b in \<open>blast intro: laterD\<close>)+
  then show ?thesis
    using w by (subst works_cong) (auto simp: bruckAllGather_eq world_def check_assoc)
qed

subsection \<open>Recursive doubling and ring\<close>

lemma recursiveDoublingAllGather_works:
  assumes c: "ready (2 ^ k) c" and b: "\<And>r. r < 2 ^ k \<Longrightarrow> rd (mem (c r)) (recv r + r * cb) cb = X r"
  shows "works (2 ^ k) c (\<lambda>r. recursiveDoublingAllGather (recv r) cb) recv (2 ^ k * cb) (allGathered (2 ^ k) recv cb X)"
proof -
  have w: "world (2 ^ k) c" using c by (simp add: ready_def)
  show ?thesis
    by (rule works_phase [OF recursiveDoublingAllGather_phase [OF w, where X = X] c])
      (use b in \<open>auto simp: allGathered_def blockGathered_def\<close>)
qed

definition blockChunks :: "nat \<Rightarrow> nat \<Rightarrow> Chunk list" where
  "blockChunks n cb = map (\<lambda>i. \<lparr>coffset = i * cb, cbytes = cb\<rparr>) [0..<n]"

lemma blockChunks_table: "chunkTable n (n * cb) (blockChunks n cb)"
  using slot_le [of _ n cb] region_disj [of _ _ 0 cb] by (auto simp: chunkTable_def blockChunks_def)

lemma ringAllGather_works:
  assumes c: "ready n c" "2 \<le> n" and b: "\<And>r. r < n \<Longrightarrow> rd (mem (c r)) (recv r + r * cb) cb = X r"
  shows "works n c (\<lambda>r. ringAllGather (recv r) (blockChunks n cb) 0) recv (n * cb) (allGathered n recv cb X)"
proof -
  have w: "world n c" using c by (simp add: ready_def)
  show ?thesis
    by (rule works_phase [OF ringAllGather_phase [OF w c(2) blockChunks_table, where X = X] c(1)])
      (use b in \<open>auto simp: allGathered_def gathered_def blockChunks_def\<close>)
qed

subsection \<open>The collective\<close>

text \<open>The algorithm that the environment and the sizes select; it is the same on every rank when the
  environment is.\<close>

definition agCmd :: "getenv \<Rightarrow> nat \<Rightarrow> nat \<Rightarrow> nat \<Rightarrow> addr \<Rightarrow> cmd" where
  "agCmd e n cnt cb recv =
     (if n = 1 \<or> cnt = 0 then ok
      else if \<not> forceAlgo e ''VCCL_ALLGATHER_ALGO'' ''ring'' \<and>
         (forceAlgo e ''VCCL_ALLGATHER_ALGO'' ''recdouble'' \<or> cb \<le> rdMaxOf e ''VCCL_ALLGATHER_RD_MAX'' 65536)
      then (if isPow2 n then recursiveDoublingAllGather recv cb else bruckAllGather recv cb)
      else ringAllGather recv (blockChunks n cb) 0)"

text \<open>Whether Bruck's algorithm runs with a number of ranks for which the verbs transport drops completions.\<close>

definition agLossy :: "getenv \<Rightarrow> nat \<Rightarrow> nat \<Rightarrow> bool" where
  "agLossy e n cb \<longleftrightarrow>
     \<not> forceAlgo e ''VCCL_ALLGATHER_ALGO'' ''ring'' \<and>
     (forceAlgo e ''VCCL_ALLGATHER_ALGO'' ''recdouble'' \<or> cb \<le> rdMaxOf e ''VCCL_ALLGATHER_RD_MAX'' 65536) \<and>
     \<not> isPow2 n \<and> bruckLossy n"

lemma agCmd_works:
  assumes c: "ready n c" and cb: "cb = cnt * vcclTypeSize dt"
    and b: "\<And>r. r < n \<Longrightarrow> scratchSafe (c r) (recv r) (n * cb) \<and> rd (mem (c r)) (recv r + r * cb) cb = X r \<and>
      (isVerbs (comm (c r)) \<longrightarrow> \<not> agLossy e n cb)"
  shows "works n c (\<lambda>r. agCmd e n cnt cb (recv r)) recv (n * cb) (allGathered n recv cb X)"
proof (cases "n = 1 \<or> cnt = 0")
  case True
  have "rd (mem (c r)) (recv r + j * cb) cb = X j" if "r < n" "j < n" for r j
    using True cb b [OF that(1)] b [OF that(2)] that by (cases "cnt = 0") (auto simp: rd_def)
  then show ?thesis using True works_ok [OF c] by (simp add: agCmd_def allGathered_def)
next
  case False
  then have n: "2 \<le> n" using c by (auto simp: ready_def)
  define log where "log \<longleftrightarrow> \<not> forceAlgo e ''VCCL_ALLGATHER_ALGO'' ''ring'' \<and>
    (forceAlgo e ''VCCL_ALLGATHER_ALGO'' ''recdouble'' \<or> cb \<le> rdMaxOf e ''VCCL_ALLGATHER_RD_MAX'' 65536)"
  have cmd: "agCmd e n cnt cb p = (if log then if isPow2 n then recursiveDoublingAllGather p cb
      else bruckAllGather p cb else ringAllGather p (blockChunks n cb) 0)" for p
    using False by (auto simp: agCmd_def log_def)
  consider "\<not> log" | "log" "isPow2 n" | "log" "\<not> isPow2 n" by blast
  then show ?thesis
  proof cases
    case 1
    then show ?thesis using ringAllGather_works [OF c n, of recv cb X] b by (simp add: cmd)
  next
    case 2
    then obtain k where "n = 2 ^ k" by (auto simp: isPow2_iff)
    moreover have "(\<lambda>r. agCmd e n cnt cb (recv r)) = (\<lambda>r. recursiveDoublingAllGather (recv r) cb)"
      using 2 by (simp add: cmd)
    ultimately show ?thesis using recursiveDoublingAllGather_works [of k c recv cb X] c b by simp
  next
    case 3
    then have "agLossy e n cb \<longleftrightarrow> bruckLossy n" by (auto simp: agLossy_def log_def)
    then show ?thesis using 3 bruckAllGather_works [OF c, of recv cb X] b by (simp add: cmd)
  qed
qed

lemma doAllGather_eq:
  assumes "rank (comm c) = r" "nranks (comm c) = n" "env c = e" and cb: "cb = cnt * vcclTypeSize dt"
  shows "doAllGather send recv cnt dt c = scoped (check (regAdd recv (n * cb))
    (check (cwhen (send \<noteq> recv + r * cb) (memcpy (recv + r * cb) send cb)) (agCmd e n cnt cb recv))) c"
  unfolding doAllGather_def
proof (rule scoped_cong, goal_cases)
  case (1 c')
  show ?case unfolding Let_def vseq_Cons vseq_Nil check_ok agCmd_def blockChunks_def 1 assms by (rule refl)
qed

lemma doAllGather_works:
  assumes c: "ready n c" and cb: "cb = cnt * vcclTypeSize dt"
    and b: "\<And>r. r < n \<Longrightarrow> env (c r) = e \<and> scratchSafe (c r) (recv r) (n * cb) \<and> slotOk (recv r + r * cb) (send r) cb \<and>
      (isVerbs (comm (c r)) \<longrightarrow> \<not> agLossy e n cb)"
  shows "works n c (\<lambda>r. doAllGather (send r) (recv r) cnt dt) recv (n * cb)
    (allGathered n recv cb (\<lambda>r. rd (mem (c r)) (send r) cb))" (is "works _ _ _ _ _ ?Q")
proof -
  let ?copy = "\<lambda>r. cwhen (send r \<noteq> recv r + r * cb) (memcpy (recv r + r * cb) (send r) cb)"
  let ?X = "\<lambda>r. rd (mem (c r)) (send r) cb"
  have "works n c (\<lambda>r. scoped (check (regAdd (recv r) (n * cb)) (check (?copy r) (agCmd e n cnt cb (recv r))))) recv (n * cb) ?Q"
  proof (rule works_scoped [OF c], rule works_check [OF laterD(1)], assumption)
    fix c1 assume 1: "later n c c1 recv (n * cb)" and m1: "\<And>r. r < n \<Longrightarrow> mem (c1 r) = mem (c r)"
    show "works n c1 (\<lambda>r. regAdd (recv r) (n * cb)) recv (n * cb) (\<lambda>M. \<forall>r<n. M r = mem (c r))"
      using 1 m1 by (intro works_regAdd) (auto simp: laterD)
    fix c2 assume 2: "later n c1 c2 recv (n * cb)" and m2: "\<forall>r<n. mem (c2 r) = mem (c r)"
    have "works n c2 ?copy recv (n * cb) (\<lambda>M. \<forall>r<n. rd (M r) (recv r + r * cb) cb = rd (mem (c2 r)) (send r) cb)"
      using b slot_le [of _ n cb] by (intro works_copy laterD [OF 2]) (auto simp: add.assoc)
    then show "works n c2 (\<lambda>r. check (?copy r) (agCmd e n cnt cb (recv r))) recv (n * cb) ?Q"
    proof (rule works_check [OF laterD(1) [OF 2]])
      fix c3 assume 3: "later n c2 c3 recv (n * cb)" "\<forall>r<n. rd (mem (c3 r)) (recv r + r * cb) cb = rd (mem (c2 r)) (send r) cb"
      show "works n c3 (\<lambda>r. agCmd e n cnt cb (recv r)) recv (n * cb) ?Q"
        using b m2 3(2) laterD(8,9) [OF 1] laterD(8,9) [OF 2] laterD(8,9) [OF 3(1)]
        by (intro agCmd_works [OF laterD(1) [OF 3(1)] cb]) auto
    qed
  qed
  moreover have "doAllGather (send r) (recv r) cnt dt (c r) =
      scoped (check (regAdd (recv r) (n * cb)) (check (?copy r) (agCmd e n cnt cb (recv r)))) (c r)" if "r < n" for r
    using ready_rank [OF c that] b [OF that] by (intro doAllGather_eq cb) simp_all
  ultimately show ?thesis by (subst works_cong)
qed

end
