(* ===== verification/Vccl_Chain.thy ===== *)
theory Vccl_Chain
  imports Vccl_Entry
begin

text \<open>
  Chains around the ring, the pattern of broadcast and reduce. The data starts at rank \<open>h\<close>, each further
  rank receives it from the rank before, works on it and passes it on, and the chain ends at the rank
  before \<open>h\<close>. A long buffer goes down the chain in pieces.
\<close>

subsection \<open>One piece\<close>

definition chainCmd :: "nat \<Rightarrow> nat \<Rightarrow> nat \<Rightarrow> addr \<Rightarrow> addr \<Rightarrow> nat \<Rightarrow> cmd \<Rightarrow> cmd" where
  "chainCmd h n r rb sb len work =
     check (cwhen (r \<noteq> h) (trecv ((r + n - 1) mod n) rb len))
       (check work (cwhen ((r + 1) mod n \<noteq> h) (tsend ((r + 1) mod n) sb len)))"

text \<open>Position \<open>i\<close> of the chain is rank \<open>(h + i) mod n\<close>; \<open>d i\<close> is its context once it has received, \<open>e i\<close>
  when it has done its work.\<close>

lemma posted_id: "posted c = [] \<Longrightarrow> c\<lparr>posted := [], mem := m\<rparr> = c\<lparr>mem := m\<rparr>"
  by (cases c) simp

lemma par_chain:
  fixes n h :: nat
  assumes n: "2 \<le> n" "h < n" and pos: "\<And>i. p i = (h + i) mod n"
    and P: "\<And>r. r < n \<Longrightarrow> P r = chainCmd h n r (rb r) (sb r) len (work r)"
    and d: "d 0 = c (p 0)" "\<And>i. Suc i < n \<Longrightarrow> d (Suc i) =
      (c (p (Suc i)))\<lparr>mem := wr (mem (c (p (Suc i)))) (rb (p (Suc i))) (rd (mem (e i)) (sb (p i)) len)\<rparr>"
    and work: "\<And>i. i < n \<Longrightarrow> work (p i) (d i) = Ret vcclSuccess (e i)"
    and ok: "\<And>i. Suc i < n \<Longrightarrow> sendOk (e i) (p (Suc i)) (sb (p i)) len"
      "\<And>i. Suc i < n \<Longrightarrow> recvOk (c (p (Suc i))) (p i) (rb (p (Suc i))) len [] \<and> posted (c (p (Suc i))) = []"
    and c': "\<And>i. i < n \<Longrightarrow> c' (p i) = e i"
  shows "par {..<n} P c c'"
proof (rule parI)
  define tail where "tail r = check (work r) (cwhen ((r + 1) mod n \<noteq> h) (tsend ((r + 1) mod n) (sb r) len))" for r
  have P': "P r = check (if r \<noteq> h then trecv ((r + n - 1) mod n) (rb r) len else ok) (tail r)" if "r < n" for r
    by (simp add: P [OF that] chainCmd_def cwhen_def tail_def)
  fix cfg K assume cfg: "\<And>r. r \<in> {..<n} \<Longrightarrow> cfg r = bindp (P r (c r)) (K r)"
  define at where "at k = (\<lambda>r. if r < n then
      (let i = (r + n - h) mod n in
       if i < k then K r vcclSuccess (e i)
       else if i = k then bindp (tail r (d i)) (K r)
       else cfg r) else cfg r)" for k
  have idx: "(p i + n - h) mod n = i" "p i < n" if "i < n" for i
    using that n ring_shift(1) [of i n h] by (simp_all add: pos add.commute [of h i])
  have rank: "p ((r + n - h) mod n) = r" "(r + n - h) mod n < n" if "r < n" for r
    using that n ring_shift(2) [of r n h] by (simp_all add: pos add.commute [of h])
  have nxt: "(p i + 1) mod n = p (Suc i)" for i by (simp add: pos mod_Suc_eq)
  have prv: "(p (Suc i) + n - 1) mod n = p i" for i
    using ring_shift(1) [of "p i" n 1] n nxt [of i] by (simp add: pos)
  have first: "p i = h \<longleftrightarrow> i = 0" if "i < n" for i using idx [OF that] idx [of 0] n by (auto simp: pos)
  have last: "p (Suc i) = h \<longleftrightarrow> Suc i = n" if "i < n" for i
  proof (cases "Suc i = n")
    case True
    then show ?thesis using n by (simp add: pos)
  next
    case False
    then show ?thesis using first [of "Suc i"] that by simp
  qed
  have start: "at 0 = cfg"
  proof
    fix r show "at 0 r = cfg r"
    proof (cases "r < n \<and> (r + n - h) mod n = 0")
      case True
      then have "r = p 0" using rank(1) [of r] by simp
      then show ?thesis using True n cfg [of r] P' [of r] d(1) by (simp add: at_def pos)
    qed (auto simp: at_def Let_def)
  qed
  have hop: "net_step\<^sup>*\<^sup>* (at k) (at (Suc k))" if k: "Suc k < n" for k
  proof -
    let ?i = "p k" and ?j = "p (Suc k)"
    have ij: "?i \<noteq> ?j" using idx [of k] idx [of "Suc k"] k by auto
    have i: "at k ?i = bindp (tsend ?j (sb ?i) len (e k)) (K ?i)"
      using idx [of k] k work [of k] last [of k] nxt [of k] by (simp add: at_def tail_def cwhen_def)
    have j: "at k ?j = bindp (trecv ?i (rb ?j) len (c ?j)) (\<lambda>r c'. if r = vcclSuccess
        then bindp (tail ?j c') (K ?j) else K ?j r c')"
      using idx [of "Suc k"] k cfg [of ?j] P' [of ?j] first [of "Suc k"] prv [of k] by (simp add: at_def)
    have "net_step\<^sup>*\<^sup>* (at k) ((at k)(?i := K ?i vcclSuccess (e k),
        ?j := bindp (tail ?j (d (Suc k))) (K ?j)))"
      using pair_run [OF ij i j ok(1) [OF k] conjunct1 [OF ok(2) [OF k]]] ok(2) [OF k] d(2) [OF k] by (simp add: posted_id)
    moreover have "(at k)(?i := K ?i vcclSuccess (e k),
        ?j := bindp (tail ?j (d (Suc k))) (K ?j)) = at (Suc k)"
    proof
      fix r
      show "((at k)(?i := K ?i vcclSuccess (e k), ?j := bindp (tail ?j (d (Suc k))) (K ?j))) r = at (Suc k) r"
        using idx [of k] idx [of "Suc k"] k rank [of r] ij by (auto simp: at_def Let_def less_Suc_eq)
    qed
    ultimately show ?thesis by simp
  qed
  have "net_step\<^sup>*\<^sup>* cfg (at k)" if "k < n" for k
    using that
  proof (induction k)
    case (Suc k)
    then show ?case using hop [of k] by (meson Suc_lessD rtranclp_trans)
  qed (simp add: start)
  then have "net_step\<^sup>*\<^sup>* cfg (at (n - 1))" using n by simp
  moreover have "at (n - 1) = (\<lambda>r. if r \<in> {..<n} then K r vcclSuccess (c' r) else cfg r)"
  proof (rule ext, goal_cases)
    case (1 r)
    show ?case
  proof (cases "r < n")
    case True
    define i where "i = (r + n - h) mod n"
    have i: "i < n" "p i = r" using rank [OF True] by (auto simp: i_def)
    then show ?thesis
      using True c' [of i] work [of i] last [of i] nxt [of i] n
      by (cases "i = n - 1") (auto simp: at_def tail_def cwhen_def ok_def simp flip: i_def)
  qed (simp add: at_def)
  qed
  ultimately show "net_step\<^sup>*\<^sup>* cfg (\<lambda>r. if r \<in> {..<n} then K r vcclSuccess (c' r) else cfg r)" by simp
qed

text \<open>The same for memories: \<open>G r\<close> is what the work of rank \<open>r\<close> does to its memory.\<close>

primrec chainMem ::
  "nat \<Rightarrow> nat \<Rightarrow> (nat \<Rightarrow> addr) \<Rightarrow> (nat \<Rightarrow> addr) \<Rightarrow> nat \<Rightarrow> (nat \<Rightarrow> mem \<Rightarrow> mem) \<Rightarrow> (nat \<Rightarrow> mem) \<Rightarrow> nat \<Rightarrow> mem" where
  "chainMem h n rb sb len G M 0 = G (h mod n) (M (h mod n))"
| "chainMem h n rb sb len G M (Suc i) =
     (let r = (h + Suc i) mod n
      in G r (wr (M r) (rb r) (rd (chainMem h n rb sb len G M i) (sb ((h + i) mod n)) len)))"

lemma phase_chain:
  assumes w: "world n c0" and n: "2 \<le> n" "h < n"
    and P: "\<And>r. r < n \<Longrightarrow> P r = chainCmd h n r (rb r) (sb r) len (work r)"
    and work: "\<And>r M. r < n \<Longrightarrow> work r (upd c0 M (\<lambda>_. []) r) = Ret vcclSuccess (upd c0 (M(r := G r (M r))) (\<lambda>_. []) r)"
    and J: "\<And>M. J M \<Longrightarrow> J' (\<lambda>r. chainMem h n rb sb len G M ((r + n - h) mod n))"
  shows "phase {..<n} c0 (\<lambda>_. []) P (\<lambda>_. []) J J'"
proof (rule phaseI)
  fix M assume "J M"
  let ?p = "\<lambda>i. (h + i) mod n" and ?C = "chainMem h n rb sb len G M"
  let ?M = "\<lambda>r. ?C ((r + n - h) mod n)"
  let ?e = "\<lambda>i. upd c0 (\<lambda>_. ?C i) (\<lambda>_. []) (?p i)"
  define d where "d i = upd c0 (\<lambda>r. if i = 0 then M r else wr (M r) (rb r) (rd (?C (i - 1)) (sb (?p (i - 1))) len)) (\<lambda>_. []) (?p i)" for i
  have idx: "(?p i + n - h) mod n = i" if "i < n" for i
    using that n ring_shift(1) [of i n h] by (simp add: add.commute [of h i])
  have peer: "peerOk (comm (c0 (?p i))) (?p (Suc i))" "peerOk (comm (c0 (?p (Suc i)))) (?p i)"
      "transport (comm (c0 (?p i))) \<noteq> None" if "Suc i < n" for i
  proof -
    have "?p i \<noteq> ?p (Suc i)" using idx [of i] idx [of "Suc i"] that by auto
    moreover have "rank (comm (c0 (j mod n))) = j mod n" "nranks (comm (c0 (j mod n))) = n" "transport (comm (c0 (j mod n))) \<noteq> None" for j
      using w n by (simp_all add: world_def)
    ultimately show "peerOk (comm (c0 (?p i))) (?p (Suc i))" "peerOk (comm (c0 (?p (Suc i)))) (?p i)"
      "transport (comm (c0 (?p i))) \<noteq> None" using n by (auto simp: peerOk_def)
  qed
  have "par {..<n} P (upd c0 M (\<lambda>_. [])) (upd c0 ?M (\<lambda>_. []))"
  proof (rule par_chain [OF n refl P, where d = d and e = ?e])
    fix i assume i: "i < n"
    show "work (?p i) (d i) = Ret vcclSuccess (?e i)"
      unfolding d_def using n by (subst work) (simp_all add: upd_def, cases i, simp_all add: Let_def)
    show "upd c0 ?M (\<lambda>_. []) (?p i) = ?e i" using idx [OF i] by (simp add: upd_def)
  next
    fix i assume i: "Suc i < n"
    show "sendOk (?e i) (?p (Suc i)) (sb (?p i)) len" using peer [OF i] by (simp add: sendOk_def)
    show "recvOk (upd c0 M (\<lambda>_. []) (?p (Suc i))) (?p i) (rb (?p (Suc i))) len [] \<and> posted (upd c0 M (\<lambda>_. []) (?p (Suc i))) = []"
      using peer(2) [OF i] w n by (simp add: recvOk_def consumes_def world_def)
  qed (auto simp: d_def upd_def)
  then show "\<exists>M'. par {..<n} P (upd c0 M (\<lambda>_. [])) (upd c0 M' (\<lambda>_. [])) \<and> J' M'" using J [OF \<open>J M\<close>] by blast
qed

subsection \<open>All pieces\<close>

lemma phase_pieces:
  assumes "\<And>off. off < tot \<Longrightarrow> kPipeBytes dvd off \<Longrightarrow>
      phase A c0 q (\<lambda>r. f r (off, min kPipeBytes (tot - off))) q (J off) (J (min tot (off + kPipeBytes)))"
    and "kPipeBytes dvd off"
  shows "phase A c0 q (\<lambda>r. vseq (map (f r) (pieces off tot))) q (J (min tot off)) (J tot)"
  using assms
proof (induction off tot rule: pieces.induct)
  case (1 off tot)
  show ?case
  proof (cases "off < tot")
    case True
    have "phase A c0 q (\<lambda>r. vseq (map (f r) (pieces (off + kPipeBytes) tot))) q (J (min tot (off + kPipeBytes))) (J tot)"
      by (rule "1.IH" [OF True]) (use 1 in auto)
    then show ?thesis
      using phase_check [OF "1.prems"(1) [OF True "1.prems"(2)]] True by (subst pieces.simps) (simp add: min_def)
  next
    case False
    then show ?thesis by (subst pieces.simps) (simp add: phase_ok)
  qed
qed

end
