(* ===== verification/Vccl_Broadcast.thy ===== *)
theory Vccl_Broadcast
  imports Vccl_Chain
begin

text \<open>Broadcast: the root's buffer goes down the chain piece by piece.\<close>

lemma broadcastPiece_chain:
  assumes "rank (comm c) = r" "nranks (comm c) = n" "2 \<le> n" "r < n" "root < n"
  shows "broadcastPiece recv root (off, len) c = chainCmd root n r (recv + off) (recv + off) len ok c"
proof -
  have "(root + 1) mod n \<noteq> root" using assms(3,5) by (auto simp: mod_if)
  then show ?thesis
    unfolding broadcastPiece_def chainCmd_def next_rank_def prev_rank_def using assms
    by (simp add: cwhen_def)
qed

lemma chainMem_copy:
  assumes "h < n"
  shows "i < n \<Longrightarrow> chainMem h n rb rb len (\<lambda>_ m. m) M i =
    wr (M ((h + i) mod n)) (rb ((h + i) mod n)) (rd (M h) (rb h) len)"
proof (induction i)
  case 0
  then show ?case using assms by simp
next
  case (Suc i)
  then show ?case by (simp add: Let_def rd_wr_same)
qed

text \<open>The first \<open>off\<close> bytes of the root's data \<open>d\<close> have arrived everywhere.\<close>

definition bcastTo :: "nat \<Rightarrow> (nat \<Rightarrow> addr) \<Rightarrow> byte list \<Rightarrow> (nat \<Rightarrow> mem) \<Rightarrow> nat \<Rightarrow> (nat \<Rightarrow> mem) \<Rightarrow> bool" where
  "bcastTo n recv d M0 off M \<longleftrightarrow> (\<forall>r<n. M r = wr (M0 r) (recv r) (take off d))"

lemma broadcast_phase:
  assumes w: "world n c0" and n: "2 \<le> n" "root < n" and d: "d = rd (M0 root) (recv root) nb"
  shows "phase {..<n} c0 (\<lambda>_. []) (\<lambda>r. vseq (map (broadcastPiece (recv r) root) (pieces 0 nb))) (\<lambda>_. [])
    (bcastTo n recv d M0 0) (bcastTo n recv d M0 nb)"
proof -
  have piece: "phase {..<n} c0 (\<lambda>_. []) (\<lambda>r. broadcastPiece (recv r) root (off, min kPipeBytes (nb - off))) (\<lambda>_. [])
      (bcastTo n recv d M0 off) (bcastTo n recv d M0 (min nb (off + kPipeBytes)))" if off: "off < nb" for off
  proof -
    let ?len = "min kPipeBytes (nb - off)"
    have "phase {..<n} c0 (\<lambda>_. []) (\<lambda>r. chainCmd root n r (recv r + off) (recv r + off) ?len ok) (\<lambda>_. [])
      (bcastTo n recv d M0 off) (bcastTo n recv d M0 (min nb (off + kPipeBytes)))"
    proof (rule phase_chain [OF w n, where rb = "\<lambda>r. recv r + off" and sb = "\<lambda>r. recv r + off" and len = ?len and work = "\<lambda>_. ok"
          and G = "\<lambda>_ m. m"])
      fix M assume M: "bcastTo n recv d M0 off M"
      have root: "rd (M root) (recv root + off) ?len = take ?len (drop off d)"
      proof -
        have "M root = M0 root" using M n by (simp add: bcastTo_def d take_rd off less_imp_le)
        moreover have "off + ?len \<le> nb" using off by simp
        ultimately show ?thesis by (simp add: d rd_sub del: min_less_iff_conj)
      qed
      have "take off d @ take ?len (drop off d) = take (off + ?len) d" by (simp add: take_add)
      moreover have "off + ?len = min nb (off + kPipeBytes)" using off by linarith
      moreover have "length (take off d) = off" using off by (simp add: d)
      moreover have "((root + (r + n - root) mod n) mod n) = r" if "r < n" for r
        using ring_shift(2) [of r n root] that n by (simp add: add.commute [of root])
      ultimately show "bcastTo n recv d M0 (min nb (off + kPipeBytes))
          (\<lambda>r. chainMem root n (\<lambda>r. recv r + off) (\<lambda>r. recv r + off) ?len (\<lambda>_ m. m) M ((r + n - root) mod n))"
        using M n root wr_append [of _ _ "take off d"] by (simp add: bcastTo_def chainMem_copy)
    qed (auto simp: ok_def upd_def)
    moreover have "broadcastPiece (recv r) root (off, ?len) (upd c0 M (\<lambda>_. []) r) =
        chainCmd root n r (recv r + off) (recv r + off) ?len ok (upd c0 M (\<lambda>_. []) r)" if "r < n" for r M
      using w n that by (intro broadcastPiece_chain) (auto simp: world_def)
    ultimately show ?thesis by (subst phase_cong) auto
  qed
  from phase_pieces [where J = "bcastTo n recv d M0" and off = 0 and tot = nb, OF this] show ?thesis by simp
qed

lemma doBroadcast_works:
  assumes c: "ready n c" and root: "root < n" and nb: "nb = cnt * vcclTypeSize dt" and b: "slotOk (recv root) (send root) nb"
  shows "works n c (\<lambda>r. doBroadcast (send r) (recv r) cnt dt root) recv nb
    (\<lambda>M. \<forall>r<n. rd (M r) (recv r) nb = rd (mem (c root)) (send root) nb)" (is "works _ _ _ _ _ ?Q")
proof -
  let ?copy = "\<lambda>r. cwhen (r = root \<and> send r \<noteq> recv r) (memcpy (recv r) (send r) nb)"
  let ?bc = "\<lambda>r. vseq (map (broadcastPiece (recv r) root) (pieces 0 nb))"
  have "works n c ?copy recv nb (\<lambda>M. rd (M root) (recv root) nb = rd (mem (c root)) (send root) nb)"
    by (rule works_conseq [OF works_copy_if [OF c, where b = "\<lambda>r. r = root" and l = "\<lambda>_. nb"]])
      (use b root in \<open>auto simp: rd_wr_same\<close>)
  then have "works n c (\<lambda>r. check (?copy r) (if n = 1 \<or> cnt = 0 then ok else scoped (check (regAdd (recv r) nb) (?bc r)))) recv nb ?Q"
  proof (rule works_check [OF c])
    fix c1 assume 1: "later n c c1 recv nb" and m1: "rd (mem (c1 root)) (recv root) nb = rd (mem (c root)) (send root) nb"
    show "works n c1 (\<lambda>r. if n = 1 \<or> cnt = 0 then ok else scoped (check (regAdd (recv r) nb) (?bc r))) recv nb ?Q"
    proof (cases "n = 1 \<or> cnt = 0")
      case True
      then show ?thesis using m1 root nb laterD(1) [OF 1] by (auto intro!: works_ok)
    next
      case False
      then have n: "2 \<le> n" using root by auto
      have "works n c1 (\<lambda>r. scoped (check (regAdd (recv r) nb) (?bc r))) recv nb ?Q"
      proof (rule works_scoped [OF laterD(1) [OF 1]], rule works_check [OF laterD(1)], assumption)
        fix c2 assume 2: "later n c1 c2 recv nb" and m2: "\<And>r. r < n \<Longrightarrow> mem (c2 r) = mem (c1 r)"
        show "works n c2 (\<lambda>r. regAdd (recv r) nb) recv nb (\<lambda>M. \<forall>r<n. M r = mem (c1 r))"
          using 2 m2 by (intro works_regAdd) (auto simp: laterD)
        fix c3 assume 3: "later n c2 c3 recv nb" and m3: "\<forall>r<n. mem (c3 r) = mem (c1 r)"
        show "works n c3 ?bc recv nb ?Q"
          by (rule works_phase [OF broadcast_phase [OF laterD(2) [OF 3] n root refl, where ?M0.0 = "\<lambda>r. mem (c3 r)"] laterD(1) [OF 3]])
            (use m1 m3 root in \<open>auto simp: bcastTo_def rd_wr_same frame_def wr_outside\<close>)
      qed
      with False show ?thesis by simp
    qed
  qed
  moreover have "doBroadcast (send r) (recv r) cnt dt root (c r) =
      check (?copy r) (if n = 1 \<or> cnt = 0 then ok else scoped (check (regAdd (recv r) nb) (?bc r))) (c r)" if "r < n" for r
    using ready_rank [OF c that] by (simp add: doBroadcast_def Let_def nb cong: if_cong)
  ultimately show ?thesis by (subst works_cong)
qed

lemma callable_rooted:
  "callable n c cp t \<Longrightarrow> r < n \<Longrightarrow> a \<noteq> 0 \<Longrightarrow> (r = root \<Longrightarrow> b \<noteq> 0) \<Longrightarrow> dt \<noteq> vcclNumTypes \<Longrightarrow> root < n \<Longrightarrow>
   checkRooted a b dt (int root) (cp r) (c r) = vcclSuccess"
  using vcclTypeSize_pos [of dt] ready_rank [of n c r] callable_checks [of n c cp t r] by (auto simp: checkRooted_def callable_def)

end
