(* ===== verification/Vccl_Chunks.thy ===== *)
theory Vccl_Chunks
  imports Vccl_Ring
begin

text \<open>
  The chunk table of the ring all-reduce: \<open>makeChunks\<close> cuts a buffer into consecutive pieces of whole
  elements that cover it exactly.
\<close>

definition chunkBegin :: "nat \<Rightarrow> nat \<Rightarrow> nat \<Rightarrow> nat" where
  "chunkBegin cnt n i = min ((cnt + n - 1) div n * i) cnt"

lemma makeChunks_length [simp]: "length (makeChunks cnt n es) = n"
  by (simp add: makeChunks_def Let_def)

lemma makeChunks_nth:
  "i < n \<Longrightarrow> makeChunks cnt n es ! i =
     \<lparr>coffset = chunkBegin cnt n i * es, cbytes = (chunkBegin cnt n (Suc i) - chunkBegin cnt n i) * es\<rparr>"
  by (simp add: makeChunks_def Let_def chunkBegin_def)

lemma chunkBegin_0 [simp]: "chunkBegin cnt n 0 = 0"
  by (simp add: chunkBegin_def)

lemma chunkBegin_n: "0 < n \<Longrightarrow> chunkBegin cnt n n = cnt"
proof -
  assume "0 < n"
  have "cnt + n - 1 < ((cnt + n - 1) div n + 1) * n"
    using \<open>0 < n\<close> dividend_less_div_times [of n "cnt + n - 1"] by simp
  then have "cnt \<le> (cnt + n - 1) div n * n" using \<open>0 < n\<close> by simp
  then show ?thesis by (simp add: chunkBegin_def)
qed

lemma chunkBegin_mono: "i \<le> j \<Longrightarrow> chunkBegin cnt n i \<le> chunkBegin cnt n j"
  unfolding chunkBegin_def by (intro min.mono mult_le_mono2) auto

lemma chunkBegin_le: "chunkBegin cnt n i \<le> cnt"
  by (simp add: chunkBegin_def)

lemma makeChunks_end:
  "i < n \<Longrightarrow> coffset (makeChunks cnt n es ! i) + cbytes (makeChunks cnt n es ! i) = chunkBegin cnt n (Suc i) * es"
  using chunkBegin_mono [of i "Suc i" cnt n] by (simp add: makeChunks_nth flip: add_mult_distrib)

lemma makeChunks_count:
  "i < n \<Longrightarrow> 0 < es \<Longrightarrow> cbytes (makeChunks cnt n es ! i) div es = chunkBegin cnt n (Suc i) - chunkBegin cnt n i"
  by (simp add: makeChunks_nth)

lemma makeChunks_table: "chunkTable n (cnt * es) (makeChunks cnt n es)"
  unfolding chunkTable_def
proof (intro conjI allI impI)
  fix i j assume ij: "i < n" "j < n" "i \<noteq> j"
  have "chunkBegin cnt n (Suc a) * es \<le> chunkBegin cnt n b * es" if "a < b" for a b
    using chunkBegin_mono [of "Suc a" b cnt n] that by simp
  then show "disj (coffset (makeChunks cnt n es ! i)) (cbytes (makeChunks cnt n es ! i))
      (coffset (makeChunks cnt n es ! j)) (cbytes (makeChunks cnt n es ! j))"
    using ij makeChunks_end [of i n cnt es] makeChunks_end [of j n cnt es]
    by (cases "i < j") (auto simp: disj_def makeChunks_nth)
qed (simp_all add: makeChunks_end chunkBegin_le)

text \<open>Reading the buffer is reading its chunks one after the other.\<close>

lemma rd_chunks:
  assumes "0 < n"
  shows "rd m p (cnt * es) = concat (map (\<lambda>j. rd m (chunkAt p (makeChunks cnt n es) j) (chunkLen (makeChunks cnt n es) j)) [0..<n])"
proof -
  have "rd m p (chunkBegin cnt n k * es) =
      concat (map (\<lambda>j. rd m (chunkAt p (makeChunks cnt n es) j) (chunkLen (makeChunks cnt n es) j)) [0..<k])"
    if "k \<le> n" for k
    using that
  proof (induction k)
    case (Suc k)
    then have "chunkBegin cnt n (Suc k) * es = chunkBegin cnt n k * es + chunkLen (makeChunks cnt n es) k"
      using makeChunks_end [of k n cnt es] by (simp add: makeChunks_nth)
    with Suc show ?case by (simp add: rd_add makeChunks_nth)
  qed (simp add: rd_def)
  from this [of n] show ?thesis using assms by (simp add: chunkBegin_n)
qed

end
