(* ===== verification/Vccl_AllReduce.thy ===== *)
theory Vccl_AllReduce
  imports Vccl_Entry Vccl_Chunks
begin

text \<open>
  All-reduce as a whole. \<open>arValue\<close> is the byte string that a rank ends with, as a function of the
  contributions of all ranks, the algorithm selected and the ranks' floating-point units; the
  algebra of reductions says in \<open>Vccl_Reduced\<close> when it is the fold of all contributions.
\<close>

unbundle bit_operations_syntax

text \<open>Working in scratch space: a phase over the contexts after the allocation.\<close>

lemma works_scratch_phase:
  assumes "ready n c"
    and "phase {..<n} (\<lambda>r. scrCtx k (c r)) (\<lambda>_. []) (\<lambda>r. body r (scrAddr k (c r))) (\<lambda>_. []) J J'"
    and "J (\<lambda>r. mem (scrCtx k (c r)))"
    and "\<And>M. J' M \<Longrightarrow> Q M \<and> frame2 {..<n} p l (\<lambda>r. scrAddr k (c r)) k (\<lambda>r. mem (scrCtx k (c r))) M"
  shows "works n c (\<lambda>r. withScratch k (body r)) p l Q"
proof (rule worksI [where Q' = J', OF runs_scratch [where sz = "\<lambda>_. k"]])
  show "runs {..<n} (\<lambda>r. body r (scrAddr k (c r))) (\<lambda>r. scrCtx k (c r)) J'"
    by (rule runs_phase [OF assms(2)]) (use assms in \<open>auto simp: ready_def scrCtx_facts(2)\<close>)
  show "keeps (c r) (M r) (p r) l" if "J' M" "r < n" for M r
    using keeps_frame2 [of "{..<n}" p l k c M r] assms(4) [OF that(1)] that(2) by simp
qed (use assms(4) in blast)

lemma ready_scrCtx: "ready n c \<Longrightarrow> world n (\<lambda>r. scrCtx k (c r))"
  using ready_frame [of n c "\<lambda>r. scrCtx k (c r)"] scrCtx_facts(1,2) by (auto simp: ready_def)

lemma fp_scrCtx [simp]: "fp (scrCtx k c) = fp c"
  using scrCtx_facts(1) [of c k] by (simp add: ctxFrame_def)

subsection \<open>Recursive doubling\<close>

definition holdsAll :: "nat \<Rightarrow> (nat \<Rightarrow> addr) \<Rightarrow> nat \<Rightarrow> (nat \<Rightarrow> byte list) \<Rightarrow> (nat \<Rightarrow> mem) \<Rightarrow> bool" where
  "holdsAll n p k y M \<longleftrightarrow> (\<forall>r<n. rd (M r) (p r) k = y r)"

lemma recursiveDoublingAllReduce_works:
  assumes c: "ready (2 ^ k) c" and op: "opOk dt op" and nb: "nb = cnt * vcclTypeSize dt"
    and b: "\<And>r. r < 2 ^ k \<Longrightarrow> scratchSafe (c r) (recv r) nb" "holdsAll (2 ^ k) recv nb y (\<lambda>r. mem (c r))"
  shows "works (2 ^ k) c (\<lambda>r. recursiveDoublingAllReduce (recv r) cnt dt op) recv nb
    (holdsAll (2 ^ k) recv nb (rdPartial (\<lambda>u. vred (fp (c u)) dt op cnt) y k))"
proof -
  have w: "world (2 ^ k) c" using c by (simp add: ready_def)
  have dis: "disj (recv r) nb (scrAddr (k * nb) (c r)) (k * nb)" if "r < 2 ^ k" for r
    using scrCtx_facts(4) [OF b(1) [OF that]] by (simp add: disj_sym)
  have "works (2 ^ k) c (\<lambda>r. withScratch (k * nb) (rdCmd k r (recv r) cnt dt op)) recv nb
    (holdsAll (2 ^ k) recv nb (rdPartial (\<lambda>u. vred (fp (c u)) dt op cnt) y k))"
    by (rule works_scratch_phase [where body = "\<lambda>r. rdCmd k r (recv r) cnt dt op", OF c
          rdCmd_phase [OF ready_scrCtx [OF c] _ _ _ nb, where y = y and recv = recv]])
      (use op b scrCtx_rd dis in \<open>auto simp: opOk_def holdsAll_def\<close>)
  moreover have "recursiveDoublingAllReduce (recv r) cnt dt op (c r) = withScratch (k * nb) (rdCmd k r (recv r) cnt dt op) (c r)"
    if "r < 2 ^ k" for r
    using recursiveDoublingAllReduce_eq [OF w that, of "recv r" cnt dt op "\<lambda>r. mem (c r)" "\<lambda>r. posted (c r)"]
    by (simp add: upd_def nb)
  ultimately show ?thesis by (subst works_cong)
qed

lemma pow2ElimAllReduce_works:
  assumes c: "ready n c" and op: "opOk dt op" and nb: "nb = cnt * vcclTypeSize dt"
    and n: "n = 2 ^ k + e" "e < 2 ^ k" "largestPow2 1 n = 2 ^ k"
    and b: "\<And>r. r < n \<Longrightarrow> scratchSafe (c r) (recv r) nb" "holdsAll n recv nb y (\<lambda>r. mem (c r))"
  shows "works n c (\<lambda>r. pow2ElimAllReduce (recv r) cnt dt op) recv nb
    (holdsAll n recv nb (elimResult (\<lambda>r. vred (fp (c r)) dt op cnt) e k y))"
proof -
  have w: "world n c" using c by (simp add: ready_def)
  have dis: "disj (recv r) nb (scrAddr ((1 + k) * nb) (c r)) ((1 + k) * nb)" if "r < n" for r
    using scrCtx_facts(4) [OF b(1) [OF that]] by (simp add: disj_sym)
  have ok: "elimOk n k e (\<lambda>r. scrCtx ((1 + k) * nb) (c r)) dt op nb recv (\<lambda>r. scrAddr ((1 + k) * nb) (c r))"
    using ready_scrCtx [OF c] dis n op by (simp add: elimOk_def opOk_def)
  have "works n c (\<lambda>r. withScratch ((1 + k) * nb) (elimCmd e k r (recv r) cnt dt op)) recv nb
    (holdsAll n recv nb (elimResult (\<lambda>r. vred (fp (c r)) dt op cnt) e k y))"
    by (rule works_scratch_phase [where body = "\<lambda>r. elimCmd e k r (recv r) cnt dt op", OF c elimCmd_phase [OF ok nb, where y = y]])
      (use b scrCtx_rd in \<open>auto simp: holds_def holdsAll_def\<close>)
  moreover have "pow2ElimAllReduce (recv r) cnt dt op (c r) = withScratch ((1 + k) * nb) (elimCmd e k r (recv r) cnt dt op) (c r)"
    if "r < n" for r
    using pow2ElimAllReduce_eq [OF w that n, of "recv r" cnt dt op "\<lambda>r. mem (c r)" "\<lambda>r. posted (c r)"]
    by (simp add: upd_def nb)
  ultimately show ?thesis by (subst works_cong)
qed

subsection \<open>Ring\<close>

definition chunkOf :: "Chunk list \<Rightarrow> nat \<Rightarrow> byte list \<Rightarrow> byte list" where
  "chunkOf chunks j x = take (chunkLen chunks j) (drop (coffset (chunks ! j)) x)"

lemma rd_chunkOf:
  "chunkTable n tot chunks \<Longrightarrow> j < n \<Longrightarrow> rd m (chunkAt p chunks j) (chunkLen chunks j) = chunkOf chunks j (rd m p tot)"
  by (simp add: chunkOf_def rd_sub chunkTable_end)

lemma ringReduceScatter_works:
  assumes c: "ready n c" "2 \<le> n" and op: "opOk dt op" and nb: "nb = cnt * vcclTypeSize dt"
    and b: "\<And>r. r < n \<Longrightarrow> scratchSafe (c r) (recv r) nb" "holdsAll n recv nb y (\<lambda>r. mem (c r))"
  defines "chunks \<equiv> makeChunks cnt n (vcclTypeSize dt)"
  shows "works n c (\<lambda>r. ringReduceScatter (recv r) chunks dt op) recv nb
    (\<lambda>M. \<forall>r<n. rd (M r) (chunkAt (recv r) chunks ((r + 1) mod n)) (chunkLen chunks ((r + 1) mod n)) =
       chunkPartial (\<lambda>r. fp (c r)) dt op chunks (\<lambda>r j. chunkOf chunks j (y r)) n ((r + 1) mod n) (n - 1))"
proof -
  let ?k = "fold (\<lambda>ch m. max m (cbytes ch)) chunks 0"
  have w: "world n c" using c by (simp add: ready_def)
  have tab: "chunkTable n nb chunks" unfolding chunks_def nb by (rule makeChunks_table)
  have "chunkLen chunks i \<le> ?k" "vcclTypeSize dt dvd chunkLen chunks i" if "i < n" for i
    using maxChunk_ge [of "chunks ! i" chunks 0] nth_mem [of i chunks] that by (simp_all add: chunks_def makeChunks_nth)
  then have bufs: "ringBufs n nb dt chunks recv (\<lambda>r. scrAddr ?k (c r)) ?k"
    using c(2) tab op scrCtx_facts(4) [OF b(1)] by (simp add: ringBufs_def opOk_def disj_sym)
  have last: "behind n r (n - 1) = (r + 1) mod n" if "r < n" for r
  proof -
    have "r + 2 * n - (n - 1) = (r + 1) + n" using c(2) by simp
    then show ?thesis unfolding behind_def by (simp only: mod_add_self2)
  qed
  have init: "scattered (\<lambda>r. fp (c r)) dt op n recv chunks (\<lambda>r j. chunkOf chunks j (y r)) 0 (\<lambda>r. mem (scrCtx ?k (c r)))"
  proof -
    have "rd (mem (scrCtx ?k (c r))) (chunkAt (recv r) chunks j) (chunkLen chunks j) = chunkOf chunks j (y r)"
      if "r < n" "j < n" for r j
      using b that scrCtx_rd [OF b(1), of r ?k] by (simp add: rd_chunkOf [OF tab] holdsAll_def)
    then show ?thesis using c(2) by (simp add: scattered_def Let_def chunkPartial_def)
  qed
  have "works n c (\<lambda>r. withScratch ?k (\<lambda>scr. loop (n - 1) (rsBody n r (recv r) chunks dt op scr))) recv nb
    (\<lambda>M. \<forall>r<n. rd (M r) (chunkAt (recv r) chunks ((r + 1) mod n)) (chunkLen chunks ((r + 1) mod n)) =
       chunkPartial (\<lambda>r. fp (c r)) dt op chunks (\<lambda>r j. chunkOf chunks j (y r)) n ((r + 1) mod n) (n - 1))"
    by (rule works_scratch_phase [where body = "\<lambda>r scr. loop (n - 1) (rsBody n r (recv r) chunks dt op scr)", OF c(1)
          rsLoop_phase [OF ready_scrCtx [OF c(1)] bufs, where Y = "\<lambda>r j. chunkOf chunks j (y r)"]])
      (use op init last in \<open>auto simp: opOk_def scattered_def Let_def\<close>)
  moreover have "ringReduceScatter (recv r) chunks dt op (c r) =
      withScratch ?k (\<lambda>scr. loop (n - 1) (rsBody n r (recv r) chunks dt op scr)) (c r)" if "r < n" for r
    using ringReduceScatter_eq [OF w that, of "recv r" chunks dt op "\<lambda>r. mem (c r)" "\<lambda>r. posted (c r)"]
    by (simp add: upd_def)
  ultimately show ?thesis by (subst works_cong)
qed

text \<open>The average: every rank scales its reduced chunk by the reciprocal of the number of ranks.\<close>

definition avgScale :: "fpu \<Rightarrow> vcclDataType_t \<Rightarrow> vcclRedOp_t \<Rightarrow> nat \<Rightarrow> nat \<Rightarrow> byte list \<Rightarrow> byte list" where
  "avgScale f dt op n cnt x = (if op = vcclAvg then vscale f dt (d_recip f n) cnt x else x)"

lemma works_scale:
  assumes "ready n c" "\<And>r. r < n \<Longrightarrow> b r \<Longrightarrow> isFloatType dt"
    and "\<And>r. r < n \<Longrightarrow> p r \<le> d r \<and> d r + m r * vcclTypeSize dt \<le> p r + k"
  shows "works n c (\<lambda>r. cwhen (b r) (scaleC dt (d r) (m r) (f r))) p k
    (\<lambda>M. \<forall>r<n. rd (M r) (d r) (m r * vcclTypeSize dt) = (let x = rd (mem (c r)) (d r) (m r * vcclTypeSize dt) in
       if b r then vscale (fp (c r)) dt (f r (fp (c r))) (m r) x else x))"
proof (rule works_mem [OF assms(1), where F = "\<lambda>r. if b r then wr (mem (c r)) (d r)
    (vscale (fp (c r)) dt (f r (fp (c r))) (m r) (rd (mem (c r)) (d r) (m r * vcclTypeSize dt))) else mem (c r)"], goal_cases)
  case (1 r)
  have "posted (c r) = []" using assms(1) 1 by (simp add: ready_def)
  then show ?case
    using assms(2) [OF 1] by (auto simp: cwhen_def ok_def scaleC_def kernel_def busy_def cpuScale_wr)
next
  case (2 r x)
  then show ?case using assms(2) [OF 2(1)] assms(3) [OF 2(1)] by (auto intro!: wr_outside)
next
  case (3 r)
  then show ?case using assms(2) [OF 3] by (simp add: Let_def rd_wr_same)
qed

definition ringChunk ::
  "(nat \<Rightarrow> fpu) \<Rightarrow> vcclDataType_t \<Rightarrow> vcclRedOp_t \<Rightarrow> nat \<Rightarrow> nat \<Rightarrow> (nat \<Rightarrow> byte list) \<Rightarrow> nat \<Rightarrow> byte list" where
  "ringChunk F dt op n cnt y j =
     (let chunks = makeChunks cnt n (vcclTypeSize dt) in
      avgScale (F ((j + n - 1) mod n)) dt op n (chunkLen chunks j div vcclTypeSize dt)
        (chunkPartial F dt op chunks (\<lambda>r j. chunkOf chunks j (y r)) n j (n - 1)))"

definition ringValue ::
  "(nat \<Rightarrow> fpu) \<Rightarrow> vcclDataType_t \<Rightarrow> vcclRedOp_t \<Rightarrow> nat \<Rightarrow> nat \<Rightarrow> (nat \<Rightarrow> byte list) \<Rightarrow> byte list" where
  "ringValue F dt op n cnt y = concat (map (ringChunk F dt op n cnt y) [0..<n])"

definition ringCmd :: "nat \<Rightarrow> nat \<Rightarrow> addr \<Rightarrow> nat \<Rightarrow> vcclDataType_t \<Rightarrow> vcclRedOp_t \<Rightarrow> cmd" where
  "ringCmd n r recv cnt dt op =
     (let chunks = makeChunks cnt n (vcclTypeSize dt); mine = chunks ! ((r + 1) mod n) in
      check (ringReduceScatter recv chunks dt op)
        (check (cwhen (op = vcclAvg \<and> cbytes mine > 0)
                 (scaleC dt (recv + coffset mine) (cbytes mine div vcclTypeSize dt) (\<lambda>f. d_recip f n)))
           (ringAllGather recv chunks 1)))"

lemma vscale_nil [simp]: "vscale f dt k 0 x = []"
  by (simp add: vscale_def mapN_def)

lemma ringCmd_works:
  assumes c: "ready n c" "2 \<le> n" and op: "opOk dt op" and nb: "nb = cnt * vcclTypeSize dt"
    and b: "\<And>r. r < n \<Longrightarrow> scratchSafe (c r) (recv r) nb" "holdsAll n recv nb y (\<lambda>r. mem (c r))"
  shows "works n c (\<lambda>r. ringCmd n r (recv r) cnt dt op) recv nb
    (holdsAll n recv nb (\<lambda>_. ringValue (\<lambda>r. fp (c r)) dt op n cnt y))"
proof -
  define chunks where "chunks = makeChunks cnt n (vcclTypeSize dt)"
  define F where "F = (\<lambda>r. fp (c r))"
  let ?j = "\<lambda>r. (r + 1) mod n"
  let ?part = "\<lambda>j. chunkPartial F dt op chunks (\<lambda>r j. chunkOf chunks j (y r)) n j (n - 1)"
  let ?scale = "\<lambda>r. cwhen (op = vcclAvg \<and> chunkLen chunks (?j r) > 0)
    (scaleC dt (chunkAt (recv r) chunks (?j r)) (chunkLen chunks (?j r) div vcclTypeSize dt) (\<lambda>f. d_recip f n))"
  have tab: "chunkTable n nb chunks" unfolding chunks_def nb by (rule makeChunks_table)
  have len: "chunkLen chunks j div vcclTypeSize dt * vcclTypeSize dt = chunkLen chunks j" if "j < n" for j
    using that op by (simp add: chunks_def makeChunks_nth opOk_def)
  have jn: "?j r < n" for r using c(2) by simp
  have X: "ringChunk F dt op n cnt y j = avgScale (F ((j + n - 1) mod n)) dt op n (chunkLen chunks j div vcclTypeSize dt) (?part j)" for j
    by (simp add: ringChunk_def Let_def chunks_def)
  have prev: "(?j r + n - 1) mod n = r" if "r < n" for r using ring_shift(1) [of r n 1] that c(2) by simp
  have "works n c (\<lambda>r. check (ringReduceScatter (recv r) chunks dt op) (check (?scale r) (ringAllGather (recv r) chunks 1))) recv nb
    (\<lambda>M. \<forall>r<n. \<forall>j<n. rd (M r) (chunkAt (recv r) chunks j) (chunkLen chunks j) = ringChunk F dt op n cnt y j)"
  proof (rule works_check [OF c(1) ringReduceScatter_works [OF c op nb b, folded chunks_def F_def]])
    fix c1 assume 1: "later n c c1 recv nb" and m1: "\<forall>r<n. rd (mem (c1 r)) (chunkAt (recv r) chunks (?j r)) (chunkLen chunks (?j r)) = ?part (?j r)"
    note l1 = laterD [OF 1]
    have "works n c1 ?scale recv nb (\<lambda>M. \<forall>r<n. rd (M r) (chunkAt (recv r) chunks (?j r)) (chunkLen chunks (?j r)) = ringChunk F dt op n cnt y (?j r))"
    proof (rule works_conseq [OF works_scale [OF l1(1)]])
      fix M assume M: "\<forall>r<n. rd (M r) (chunkAt (recv r) chunks (?j r)) (chunkLen chunks (?j r) div vcclTypeSize dt * vcclTypeSize dt) =
        (let x = rd (mem (c1 r)) (chunkAt (recv r) chunks (?j r)) (chunkLen chunks (?j r) div vcclTypeSize dt * vcclTypeSize dt) in
         if op = vcclAvg \<and> chunkLen chunks (?j r) > 0
         then vscale (fp (c1 r)) dt (d_recip (fp (c1 r)) n) (chunkLen chunks (?j r) div vcclTypeSize dt) x else x)"
      show "\<forall>r<n. rd (M r) (chunkAt (recv r) chunks (?j r)) (chunkLen chunks (?j r)) = ringChunk F dt op n cnt y (?j r)"
      proof (intro allI impI)
        fix r assume r: "r < n"
        have m: "rd (mem (c1 r)) (chunkAt (recv r) chunks (?j r)) (chunkLen chunks (?j r)) = ?part (?j r)" using m1 r by blast
        have f: "fp (c1 r) = F r" using l1(6) [OF r] by (simp add: F_def)
        show "rd (M r) (chunkAt (recv r) chunks (?j r)) (chunkLen chunks (?j r)) = ringChunk F dt op n cnt y (?j r)"
          using M [rule_format, OF r] m
          unfolding X prev [OF r] len [OF jn] f
          by (cases "chunkLen chunks (?j r) = 0") (auto simp: Let_def avgScale_def)
      qed
    next
      show "recv r \<le> chunkAt (recv r) chunks (?j r) \<and>
          chunkAt (recv r) chunks (?j r) + chunkLen chunks (?j r) div vcclTypeSize dt * vcclTypeSize dt \<le> recv r + nb" for r
        using chunkTable_end [OF tab jn] len [OF jn] by simp
    qed (use op in \<open>auto simp: opOk_def\<close>)
    then show "works n c1 (\<lambda>r. check (?scale r) (ringAllGather (recv r) chunks 1)) recv nb
      (\<lambda>M. \<forall>r<n. \<forall>j<n. rd (M r) (chunkAt (recv r) chunks j) (chunkLen chunks j) = ringChunk F dt op n cnt y j)"
    proof (rule works_check [OF l1(1)])
      fix c2 assume 2: "later n c1 c2 recv nb"
        and m2: "\<forall>r<n. rd (mem (c2 r)) (chunkAt (recv r) chunks (?j r)) (chunkLen chunks (?j r)) = ringChunk F dt op n cnt y (?j r)"
      show "works n c2 (\<lambda>r. ringAllGather (recv r) chunks 1) recv nb
        (\<lambda>M. \<forall>r<n. \<forall>j<n. rd (M r) (chunkAt (recv r) chunks j) (chunkLen chunks j) = ringChunk F dt op n cnt y j)"
        by (rule works_phase [OF ringAllGather_phase [OF laterD(2) [OF 2] c(2) tab] laterD(1) [OF 2]])
          (use m2 in \<open>auto simp: gathered_def Let_def\<close>)
    qed
  qed
  then show ?thesis
    unfolding ringCmd_def Let_def chunks_def [symmetric]
    by (rule works_conseq)
      (use c(2) in \<open>auto simp: holdsAll_def nb ringValue_def F_def [symmetric] chunks_def [symmetric]
        rd_chunks [of n, folded chunks_def] intro!: arg_cong [where f = concat]\<close>)
qed

subsection \<open>The collective\<close>

definition arLog :: "getenv \<Rightarrow> nat \<Rightarrow> bool" where
  "arLog e nb \<longleftrightarrow> \<not> forceAlgo e ''VCCL_ALLREDUCE_ALGO'' ''ring'' \<and>
     (forceAlgo e ''VCCL_ALLREDUCE_ALGO'' ''recdouble'' \<or> nb \<le> rdMaxOf e ''VCCL_ALLREDUCE_RD_MAX'' 262144)"

definition arCmd :: "getenv \<Rightarrow> nat \<Rightarrow> nat \<Rightarrow> addr \<Rightarrow> nat \<Rightarrow> vcclDataType_t \<Rightarrow> vcclRedOp_t \<Rightarrow> cmd" where
  "arCmd e n r recv cnt dt op =
     (if n = 1 \<or> cnt = 0 then ok
      else if arLog e (cnt * vcclTypeSize dt) then
        check (if isPow2 n then recursiveDoublingAllReduce recv cnt dt op else pow2ElimAllReduce recv cnt dt op)
          (cwhen (op = vcclAvg) (scaleC dt recv cnt (\<lambda>f. d_recip f n)))
      else ringCmd n r recv cnt dt op)"

text \<open>The value of the logarithmic algorithms before the average is taken, and the final value.\<close>

definition logValue ::
  "(nat \<Rightarrow> fpu) \<Rightarrow> vcclDataType_t \<Rightarrow> vcclRedOp_t \<Rightarrow> nat \<Rightarrow> nat \<Rightarrow> (nat \<Rightarrow> byte list) \<Rightarrow> nat \<Rightarrow> byte list" where
  "logValue F dt op n cnt y r =
     (let red = (\<lambda>r. vred (F r) dt op cnt) in
      if isPow2 n then rdPartial red y (nsteps n) r
      else elimResult red (n - largestPow2 1 n) (nsteps (largestPow2 1 n)) y r)"

definition arValue ::
  "getenv \<Rightarrow> (nat \<Rightarrow> fpu) \<Rightarrow> vcclDataType_t \<Rightarrow> vcclRedOp_t \<Rightarrow> nat \<Rightarrow> nat \<Rightarrow> (nat \<Rightarrow> byte list) \<Rightarrow> nat \<Rightarrow> byte list" where
  "arValue e F dt op n cnt y r =
     (if n = 1 \<or> cnt = 0 then y r
      else if arLog e (cnt * vcclTypeSize dt) then avgScale (F r) dt op n cnt (logValue F dt op n cnt y r)
      else ringValue F dt op n cnt y)"

lemma logCmd_works:
  assumes c: "ready n c" "2 \<le> n" and op: "opOk dt op" and nb: "nb = cnt * vcclTypeSize dt"
    and b: "\<And>r. r < n \<Longrightarrow> scratchSafe (c r) (recv r) nb" "holdsAll n recv nb y (\<lambda>r. mem (c r))"
  shows "works n c (\<lambda>r. if isPow2 n then recursiveDoublingAllReduce (recv r) cnt dt op
      else pow2ElimAllReduce (recv r) cnt dt op) recv nb
    (holdsAll n recv nb (logValue (\<lambda>r. fp (c r)) dt op n cnt y))"
proof (cases "isPow2 n")
  case True
  then obtain k where k: "n = 2 ^ k" by (auto simp: isPow2_iff)
  then have "logValue (\<lambda>r. fp (c r)) dt op n cnt y = rdPartial (\<lambda>u. vred (fp (c u)) dt op cnt) y k"
    using True by (simp add: logValue_def fun_eq_iff)
  then show ?thesis using recursiveDoublingAllReduce_works [of k c dt op nb cnt recv y] True k c op nb b by simp
next
  case False
  obtain k e where k: "n = 2 ^ k + e" "e < 2 ^ k" "largestPow2 1 n = 2 ^ k"
    using largestPow2_split [of n] c by (auto simp: ready_def)
  have "logValue (\<lambda>r. fp (c r)) dt op n cnt y = elimResult (\<lambda>r. vred (fp (c r)) dt op cnt) e k y"
    using False k by (simp add: logValue_def fun_eq_iff)
  then show ?thesis using pow2ElimAllReduce_works [OF c(1) op nb k b] False by simp
qed

lemma arCmd_works:
  assumes c: "ready n c" and op: "opOk dt op" and nb: "nb = cnt * vcclTypeSize dt"
    and b: "\<And>r. r < n \<Longrightarrow> scratchSafe (c r) (recv r) nb" "holdsAll n recv nb y (\<lambda>r. mem (c r))"
  shows "works n c (\<lambda>r. arCmd e n r (recv r) cnt dt op) recv nb
    (holdsAll n recv nb (arValue e (\<lambda>r. fp (c r)) dt op n cnt y))"
proof (cases "n = 1 \<or> cnt = 0")
  case True
  then show ?thesis using works_ok [OF c] b(2) by (simp add: arCmd_def arValue_def holdsAll_def)
next
  case False
  then have n: "2 \<le> n" using c by (auto simp: ready_def)
  show ?thesis
  proof (cases "arLog e nb")
    case log: True
    let ?log = "\<lambda>r. if isPow2 n then recursiveDoublingAllReduce (recv r) cnt dt op else pow2ElimAllReduce (recv r) cnt dt op"
    let ?avg = "\<lambda>r. cwhen (op = vcclAvg) (scaleC dt (recv r) cnt (\<lambda>f. d_recip f n))"
    have "works n c (\<lambda>r. check (?log r) (?avg r)) recv nb (holdsAll n recv nb (arValue e (\<lambda>r. fp (c r)) dt op n cnt y))"
    proof (rule works_check [OF c logCmd_works [OF c n op nb b]])
      fix c1 assume 1: "later n c c1 recv nb" and m1: "holdsAll n recv nb (logValue (\<lambda>r. fp (c r)) dt op n cnt y) (\<lambda>r. mem (c1 r))"
      show "works n c1 ?avg recv nb (holdsAll n recv nb (arValue e (\<lambda>r. fp (c r)) dt op n cnt y))"
        by (rule works_conseq [OF works_scale [OF laterD(1) [OF 1]]])
          (use op m1 laterD(6) [OF 1] False log in \<open>auto simp: opOk_def holdsAll_def Let_def nb arValue_def avgScale_def\<close>)
    qed
    then show ?thesis using False log by (simp add: arCmd_def nb)
  next
    case ring: False
    then have "arValue e F dt op n cnt y = (\<lambda>_. ringValue F dt op n cnt y)" for F
      using False by (simp add: arValue_def nb fun_eq_iff)
    then show ?thesis using False ring ringCmd_works [OF c n op nb b] by (simp add: arCmd_def nb)
  qed
qed

lemma doAllReduce_eq:
  assumes "rank (comm c) = r" "nranks (comm c) = n" "env c = e"
  shows "doAllReduce send recv cnt dt op premul scalar c = scoped (check (regAdd recv (cnt * vcclTypeSize dt))
    (check (cwhen (send \<noteq> recv) (memcpy recv send (cnt * vcclTypeSize dt)))
      (check (cwhen premul (scaleC dt recv cnt (\<lambda>_. scalar))) (arCmd e n r recv cnt dt op)))) c"
  unfolding doAllReduce_def
proof (rule scoped_cong, goal_cases)
  case (1 c')
  show ?case
    unfolding Let_def vseq_Cons vseq_Nil check_ok arCmd_def ringCmd_def arLog_def 1 assms by (rule refl)
qed

definition contrib :: "fpu \<Rightarrow> vcclDataType_t \<Rightarrow> bool \<Rightarrow> 64 word \<Rightarrow> nat \<Rightarrow> byte list \<Rightarrow> byte list" where
  "contrib f dt premul scalar cnt x = (if premul then vscale f dt scalar cnt x else x)"

subsection \<open>The value depends on the \<open>n\<close> ranks only\<close>

lemma rdPartial_cong:
  "(\<And>u. u < 2 ^ k \<Longrightarrow> red u = red' u \<and> y u = y' u) \<Longrightarrow> i \<le> k \<Longrightarrow> u < 2 ^ k \<Longrightarrow>
   rdPartial red y i u = rdPartial red' y' i u"
  by (induction i arbitrary: u) (simp_all add: xor_pow2_less)

lemma elimPeer_less: "u < 2 ^ k \<Longrightarrow> e \<le> 2 ^ k \<Longrightarrow> elimPeer e u < 2 ^ k + e"
  by (simp add: elimPeer_def)

lemma elimInv_less: "r < 2 ^ k + e \<Longrightarrow> e \<le> 2 ^ k \<Longrightarrow> elimInv e r < 2 ^ k"
  by (auto simp: elimInv_def)

lemma elimFold_cong:
  assumes "\<And>r. r < 2 ^ k + e \<Longrightarrow> red r = red' r" "e \<le> 2 ^ k" "r < 2 ^ k + e"
  shows "elimFold red e y r = elimFold red' e y r"
  using assms by (simp add: elimFold_def)

lemma elimResult_cong:
  assumes "\<And>r. r < 2 ^ k + e \<Longrightarrow> red r = red' r" "e \<le> 2 ^ k" "r < 2 ^ k + e"
  shows "elimResult red e k y r = elimResult red' e k y r"
  unfolding elimResult_def
  by (rule rdPartial_cong [where k = k])
    (use assms elimPeer_less elimInv_less elimFold_cong [OF assms(1,2)] in auto)

lemma ringPartial_cong:
  "(\<And>r. r < n \<Longrightarrow> red r = red' r \<and> y r = y' r) \<Longrightarrow> j < n \<Longrightarrow> ringPartial red y n j s = ringPartial red' y' n j s"
  by (induction s) auto

lemma arValue_cong:
  assumes F: "\<And>r. r < n \<Longrightarrow> F r = F' r" and r: "r < n"
  shows "arValue e F dt op n cnt y r = arValue e F' dt op n cnt y r"
proof -
  obtain k d where k: "n = 2 ^ k + d" "d < 2 ^ k" "largestPow2 1 n = 2 ^ k"
    using largestPow2_split [of n] r by auto
  have "logValue F dt op n cnt y r = logValue F' dt op n cnt y r"
  proof (cases "isPow2 n")
    case True
    then obtain i where "n = 2 ^ i" by (auto simp: isPow2_iff)
    then show ?thesis
      using True F r rdPartial_cong [of i "\<lambda>r. vred (F r) dt op cnt" "\<lambda>r. vred (F' r) dt op cnt" y y i r]
      by (simp add: logValue_def)
  next
    case False
    then show ?thesis
      using F r k elimResult_cong [of k d "\<lambda>r. vred (F r) dt op cnt" "\<lambda>r. vred (F' r) dt op cnt" r y]
      by (simp add: logValue_def)
  qed
  moreover have "ringChunk F dt op n cnt y j = ringChunk F' dt op n cnt y j" if "j < n" for j
  proof -
    have "F ((j + n - 1) mod n) = F' ((j + n - 1) mod n)" using F r by simp
    moreover have "chunkPartial F dt op ch Y n j (n - 1) = chunkPartial F' dt op ch Y n j (n - 1)" for ch Y
      unfolding chunkPartial_def by (rule ringPartial_cong) (use F that in auto)
    ultimately show ?thesis by (simp add: ringChunk_def Let_def)
  qed
  then have "ringValue F dt op n cnt y = ringValue F' dt op n cnt y"
    unfolding ringValue_def by (intro arg_cong [where f = concat] map_cong) auto
  ultimately show ?thesis using F [OF r] by (simp add: arValue_def)
qed

lemma doAllReduce_works:
  fixes scalar :: "64 word"
  assumes c: "ready n c" and op: "opOk dt op" "premul \<longrightarrow> isFloatType dt" and nb: "nb = cnt * vcclTypeSize dt"
    and b: "\<And>r. r < n \<Longrightarrow> env (c r) = e \<and> scratchSafe (c r) (recv r) nb \<and> slotOk (recv r) (send r) nb"
  defines "y \<equiv> \<lambda>r. contrib (fp (c r)) dt premul scalar cnt (rd (mem (c r)) (send r) nb)"
  shows "works n c (\<lambda>r. doAllReduce (send r) (recv r) cnt dt op premul scalar) recv nb
    (holdsAll n recv nb (arValue e (\<lambda>r. fp (c r)) dt op n cnt y))" (is "works _ _ _ _ _ ?Q")
proof -
  let ?copy = "\<lambda>r. cwhen (send r \<noteq> recv r) (memcpy (recv r) (send r) nb)"
  let ?pre = "\<lambda>r. cwhen premul (scaleC dt (recv r) cnt (\<lambda>_. scalar))"
  let ?ar = "\<lambda>r. arCmd e n r (recv r) cnt dt op"
  have "works n c (\<lambda>r. scoped (check (regAdd (recv r) nb) (check (?copy r) (check (?pre r) (?ar r))))) recv nb ?Q"
  proof (rule works_scoped [OF c], rule works_check [OF laterD(1)], assumption)
    fix c1 assume 1: "later n c c1 recv nb" and m1: "\<And>r. r < n \<Longrightarrow> mem (c1 r) = mem (c r)"
    show "works n c1 (\<lambda>r. regAdd (recv r) nb) recv nb (\<lambda>M. \<forall>r<n. M r = mem (c r))"
      using 1 m1 by (intro works_regAdd) (auto simp: laterD)
    fix c2 assume 2: "later n c1 c2 recv nb" and m2: "\<forall>r<n. mem (c2 r) = mem (c r)"
    have "works n c2 ?copy recv nb (\<lambda>M. \<forall>r<n. rd (M r) (recv r) nb = rd (mem (c2 r)) (send r) nb)"
      using b by (intro works_copy laterD [OF 2]) auto
    then show "works n c2 (\<lambda>r. check (?copy r) (check (?pre r) (?ar r))) recv nb ?Q"
    proof (rule works_check [OF laterD(1) [OF 2]])
      fix c3 assume 3: "later n c2 c3 recv nb" and m3: "\<forall>r<n. rd (mem (c3 r)) (recv r) nb = rd (mem (c2 r)) (send r) nb"
      have f3: "fp (c3 r) = fp (c r)" if "r < n" for r
        using laterD(6) [OF 1 that] laterD(6) [OF 2 that] laterD(6) [OF 3 that] by simp
      have "works n c3 ?pre recv nb (holdsAll n recv nb y)"
        by (rule works_conseq [OF works_scale [OF laterD(1) [OF 3]]])
          (use op m2 m3 f3 in \<open>auto simp: holdsAll_def Let_def nb y_def contrib_def\<close>)
      then show "works n c3 (\<lambda>r. check (?pre r) (?ar r)) recv nb ?Q"
      proof (rule works_check [OF laterD(1) [OF 3]])
        fix c4 assume 4: "later n c3 c4 recv nb" and m4: "holdsAll n recv nb y (\<lambda>r. mem (c4 r))"
        have "fp (c4 r) = fp (c r)" if "r < n" for r using laterD(6) [OF 4 that] f3 [OF that] by simp
        moreover have "scratchSafe (c4 r) (recv r) nb" if "r < n" for r
          using b [OF that] laterD(8) [OF 1 that] laterD(8) [OF 2 that] laterD(8) [OF 3 that] laterD(8) [OF 4 that] by blast
        moreover have "arValue e (\<lambda>r. fp (c4 r)) dt op n cnt y r = arValue e (\<lambda>r. fp (c r)) dt op n cnt y r" if "r < n" for r
          by (rule arValue_cong [OF _ that]) fact
        ultimately show "works n c4 ?ar recv nb ?Q"
          using arCmd_works [OF laterD(1) [OF 4] op(1) nb _ m4, of e] by (auto elim!: works_conseq simp: holdsAll_def)
      qed
    qed
  qed
  moreover have "doAllReduce (send r) (recv r) cnt dt op premul scalar (c r) =
      scoped (check (regAdd (recv r) nb) (check (?copy r) (check (?pre r) (?ar r)))) (c r)" if "r < n" for r
    using ready_rank [OF c that] b [OF that] unfolding nb by (intro doAllReduce_eq) simp_all
  ultimately show ?thesis by (subst works_cong)
qed

subsection \<open>The entry point\<close>

lemma vcclAllReduce_finishes:
  fixes scalar :: "64 word"
  assumes c: "callable n c cp t" and dt: "dt \<noteq> vcclNumTypes" and nb: "nb = cnt * vcclTypeSize dt"
    and op: "\<And>r. r < n \<Longrightarrow> resolveOp (comm (c r)) dt op = Inr (op', premul, scalar)"
    and b: "\<And>r. r < n \<Longrightarrow> send r \<noteq> 0 \<and> recv r \<noteq> 0 \<and> env (c r) = e \<and> scratchSafe (c r) (recv r) nb \<and>
      slotOk (recv r) (send r) nb"
  defines "y \<equiv> \<lambda>r. contrib (fp (c r)) dt premul scalar cnt (rd (mem (c r)) (send r) nb)"
  shows "finishes n (\<lambda>r. snd (vcclAllReduce (send r) (recv r) cnt dt op (cp r) (t r) (c r)))
    (\<lambda>r c'. rd (mem c') (recv r) nb = arValue e (\<lambda>r. fp (c r)) dt op' n cnt y r \<and>
       keeps (c r) (mem c') (recv r) nb \<and> ctxFrame (c r) c' \<and> posted c' = [])"
proof (rule entry_finishes [where call = "\<lambda>r. vcclAllReduce (send r) (recv r) cnt dt op (cp r) (t r)"])
  have n: "ready n c" "0 < n" using c by (auto simp: callable_def ready_def)
  have ok: "opOk dt op'" "premul \<longrightarrow> isFloatType dt" using resolveOp_ok [OF op dt] n(2) by blast+
  show "runs {..<n} (\<lambda>r. doAllReduce (send r) (recv r) cnt dt op' premul scalar) c (\<lambda>M.
      (\<forall>r<n. keeps (c r) (M r) (recv r) nb) \<and> holdsAll n recv nb (arValue e (\<lambda>r. fp (c r)) dt op' n cnt y) M)"
    unfolding y_def using b by (intro works_runs doAllReduce_works n ok nb) auto
qed (use b c dt op callable_args callable_checks in \<open>auto simp: vcclAllReduce_def runOp_outside holdsAll_def\<close>)

end
