(* ===== verification/Vccl_Codec.thy ===== *)
theory Vccl_Codec
  imports Vccl_Reduce_Spec
begin

text \<open>
  Words and their bytes in memory: loading inverts storing. Consequence: on byte strings the
  reductions of the six integer types are commutative and associative, which the interpretations
  of \<open>ac_reduction\<close> at the end record.
\<close>

unbundle bit_operations_syntax

subsection \<open>Words and bytes\<close>

lemma word_of_bytes_Cons:
  "(word_of_bytes (b # bs) :: 'a::len word) = ucast b OR push_bit 8 (word_of_bytes bs)"
  by (simp add: word_of_bytes_def)

lemma bit_word_of_bytes:
  "bit (word_of_bytes bs :: 'a::len word) k \<longleftrightarrow>
     k < LENGTH('a) \<and> k div 8 < length bs \<and> bit (bs ! (k div 8)) (k mod 8)"
proof (induction bs arbitrary: k)
  case Nil
  then show ?case by (simp add: word_of_bytes_def)
next
  case (Cons b bs)
  show ?case
  proof (cases "k < 8")
    case True
    then show ?thesis by (auto simp: word_of_bytes_Cons bit_simps)
  next
    case False
    then have nb: "\<not> bit b k" using bit_imp_le_length [of b k] by auto
    have eq: "k div 8 = Suc ((k - 8) div 8)" "k mod 8 = (k - 8) mod 8"
      using False by (simp_all add: le_div_geq le_mod_geq)
    have "bit (word_of_bytes (b # bs) :: 'a word) k \<longleftrightarrow>
        k < LENGTH('a) \<and> bit (word_of_bytes bs :: 'a word) (k - 8)"
      using False nb by (auto simp: word_of_bytes_Cons bit_simps)
    then show ?thesis using Cons.IH [of "k - 8"] False eq by auto
  qed
qed

lemma bit_bytes_of:
  "i < LENGTH('a::len) div 8 \<Longrightarrow> bit (bytes_of (w :: 'a word) ! i) j \<longleftrightarrow> j < 8 \<and> bit w (8 * i + j)"
  by (auto simp: bytes_of_def bit_simps)

lemma word_of_bytes_of [simp]:
  assumes "8 dvd LENGTH('a::len)"
  shows "word_of_bytes (bytes_of (w :: 'a word)) = w"
proof (rule bit_word_eqI)
  fix k assume k: "k < LENGTH('a)"
  have "k div 8 < LENGTH('a) div 8"
    using k assms by (metis div_less_mono dvd_div_mult_self less_mult_imp_div_less zero_less_numeral)
  moreover have "8 * (k div 8) + k mod 8 = k" by simp
  ultimately show "bit (word_of_bytes (bytes_of w) :: 'a word) k \<longleftrightarrow> bit w k"
    using k by (simp add: bit_word_of_bytes bit_bytes_of)
qed

lemma bytes_of_word_of_bytes:
  assumes "8 dvd LENGTH('a::len)" "length bs = LENGTH('a) div 8"
  shows "bytes_of (word_of_bytes bs :: 'a word) = bs"
proof (rule nth_equalityI)
  show "length (bytes_of (word_of_bytes bs :: 'a word)) = length bs" using assms by simp
  fix i assume "i < length (bytes_of (word_of_bytes bs :: 'a word))"
  then have i: "i < LENGTH('a) div 8" by simp
  then have "8 * i + 8 \<le> LENGTH('a)" by linarith
  then show "bytes_of (word_of_bytes bs :: 'a word) ! i = bs ! i"
    by (intro bit_word_eqI) (use i assms in \<open>auto simp: bit_bytes_of bit_word_of_bytes\<close>)
qed

subsection \<open>Integer reductions are commutative and associative\<close>

definition isIntType :: "vcclDataType_t \<Rightarrow> bool" where
  "isIntType dt \<longleftrightarrow> \<not> isFloatType dt \<and> dt \<noteq> vcclNumTypes"

lemma applyOpU_comm: "applyOpU op a b = applyOpU op b a"
  by (auto simp: applyOpU_def applyOp_def add.commute mult.commute)

lemma applyOpU_assoc: "applyOpU op (applyOpU op a b) c = applyOpU op a (applyOpU op b c)"
  by (auto simp: applyOpU_def applyOp_def add.assoc mult.assoc redop_defs)

lemma sint_eq: "sint (a :: 'a::len word) = sint b \<Longrightarrow> b = a"
  by (simp add: word_eq_iff_signed [where 'a = int])

lemma applyOpS_comm: "applyOpS op a b = applyOpS op b a"
  by (auto simp: applyOpS_def applyOp_def add.commute mult.commute sint_eq)

lemma applyOpS_assoc: "applyOpS op (applyOpS op a b) c = applyOpS op a (applyOpS op b c)"
  by (auto simp: applyOpS_def applyOp_def add.assoc mult.assoc redop_defs)

lemma lift2_comm: "(\<And>a b. f a b = f b a) \<Longrightarrow> lift2 f x y = lift2 f y x"
  unfolding lift2_def by (rule arg_cong [where f = bytes_of]) blast

lemma lift2_assoc:
  fixes f :: "'a::len word \<Rightarrow> 'a word \<Rightarrow> 'a word"
  assumes "8 dvd LENGTH('a)" "\<And>a b c. f (f a b) c = f a (f b c)"
  shows "lift2 f (lift2 f x y) z = lift2 f x (lift2 f y z)"
  by (simp add: lift2_def assms)

lemma elemFn_int_comm: "isIntType dt \<Longrightarrow> elemFn fp dt op n i x y = elemFn fp dt op n i y x"
  by (cases dt) (simp_all add: elemFn_def isIntType_def isFloatType_def
      lift2_comm [OF applyOpS_comm] lift2_comm [OF applyOpU_comm])

lemma elemFn_int_assoc:
  "isIntType dt \<Longrightarrow>
   elemFn fp dt op n i (elemFn fp dt op n i x y) z = elemFn fp dt op n i x (elemFn fp dt op n i y z)"
  by (cases dt) (simp_all add: elemFn_def isIntType_def isFloatType_def
      lift2_assoc [OF _ applyOpS_assoc] lift2_assoc [OF _ applyOpU_assoc])

lemma elem_of_concat:
  assumes "\<And>i. length (f i) = es" "i < n"
  shows "take es (drop (i * es) (concat (map f [0..<n]))) = f i"
proof -
  have "[0..<n] = [0..<i] @ i # [Suc i..<n]"
    using assms(2) upt_add_eq_append [of 0 i "n - i"] by (simp add: upt_rec [of i n])
  then have "concat (map f [0..<n]) = concat (map f [0..<i]) @ f i @ concat (map f [Suc i..<n])"
    by simp
  moreover have "length (concat (map f [0..<i])) = i * es"
    using assms(1) by (rule length_concat_const)
  ultimately show ?thesis using assms(1) [of i] by simp
qed

lemma elem_of_zipN:
  assumes "\<And>i x y. length (F i x y) = es" "i < n"
  shows "take es (drop (i * es) (zipN es F n xs ys)) =
    F i (take es (drop (i * es) xs)) (take es (drop (i * es) ys))"
  unfolding zipN_def by (rule elem_of_concat) (use assms in simp_all)

lemma vred_comm:
  assumes "\<And>i x y. elemFn fp dt op n i x y = elemFn fp dt op n i y x"
  shows "vred fp dt op n x y = vred fp dt op n y x"
  unfolding vred_def zipN_def using assms by presburger

lemma vred_int_assoc:
  assumes "isIntType dt"
  shows "vred fp dt op n (vred fp dt op n x y) z = vred fp dt op n x (vred fp dt op n y z)"
proof -
  have nt: "dt \<noteq> vcclNumTypes" using assms by (simp add: isIntType_def)
  note el = elem_of_zipN [of "elemFn fp dt op n" "vcclTypeSize dt", OF length_elemFn [OF nt]]
  show ?thesis
    unfolding vred_def
    by (subst (1 3) zipN_def, rule arg_cong [where f = concat], rule map_cong)
      (simp_all add: el elemFn_int_assoc [OF assms])
qed

text \<open>The carrier: byte strings of \<open>n\<close> elements.\<close>

definition bufs :: "vcclDataType_t \<Rightarrow> nat \<Rightarrow> byte list set" where
  "bufs dt n = {x. length x = n * vcclTypeSize dt}"

lemma vred_reduction: "dt \<noteq> vcclNumTypes \<Longrightarrow> reduction (vred fp dt op n) (bufs dt n)"
  by unfold_locales (simp add: bufs_def)

lemma vred_int_ac: "isIntType dt \<Longrightarrow> ac_reduction (vred fp dt op n) (bufs dt n)"
proof unfold_locales
  assume dt: "isIntType dt"
  show "vred fp dt op n x y \<in> bufs dt n" for x y
    using dt by (simp add: bufs_def isIntType_def)
  show "vred fp dt op n x y = vred fp dt op n y x" for x y
    using elemFn_int_comm [OF dt] by (rule vred_comm)
  show "vred fp dt op n (vred fp dt op n x y) z = vred fp dt op n x (vred fp dt op n y z)" for x y z
    using dt by (rule vred_int_assoc)
qed

interpretation int8: ac_reduction "vred fp vcclInt8 op n" "bufs vcclInt8 n" for fp op n
  by (rule vred_int_ac) (simp add: isIntType_def isFloatType_def)
interpretation uint8: ac_reduction "vred fp vcclUint8 op n" "bufs vcclUint8 n" for fp op n
  by (rule vred_int_ac) (simp add: isIntType_def isFloatType_def)
interpretation int32: ac_reduction "vred fp vcclInt32 op n" "bufs vcclInt32 n" for fp op n
  by (rule vred_int_ac) (simp add: isIntType_def isFloatType_def)
interpretation uint32: ac_reduction "vred fp vcclUint32 op n" "bufs vcclUint32 n" for fp op n
  by (rule vred_int_ac) (simp add: isIntType_def isFloatType_def)
interpretation int64: ac_reduction "vred fp vcclInt64 op n" "bufs vcclInt64 n" for fp op n
  by (rule vred_int_ac) (simp add: isIntType_def isFloatType_def)
interpretation uint64: ac_reduction "vred fp vcclUint64 op n" "bufs vcclUint64 n" for fp op n
  by (rule vred_int_ac) (simp add: isIntType_def isFloatType_def)

end
