(* ===== verification/Vccl_Reduced.thy ===== *)
theory Vccl_Reduced
  imports Vccl_AllReduce Vccl_Codec
begin

text \<open>
  What the value of a collective reduction is. \<open>bracketing R y A v\<close> says that \<open>v\<close> combines the
  contributions \<open>y r\<close> of the ranks in the multiset \<open>A\<close>, each exactly as often as it occurs there, with
  operations from \<open>R\<close> in some order and bracketing. All algorithms yield a bracketing of all ranks;
  with a commutative and associative operation it is the fold of the contributions.
\<close>

unbundle bit_operations_syntax

inductive bracketing ::
  "('a \<Rightarrow> 'a \<Rightarrow> 'a) set \<Rightarrow> (nat \<Rightarrow> 'a) \<Rightarrow> nat multiset \<Rightarrow> 'a \<Rightarrow> bool" for R y where
  leaf: "bracketing R y {#r#} (y r)"
| node: "bracketing R y A a \<Longrightarrow> bracketing R y B b \<Longrightarrow> f \<in> R \<Longrightarrow> bracketing R y (A + B) (f a b)"

lemma bracketing_subst:
  assumes "bracketing R w A v" "\<And>u. u \<in># A \<Longrightarrow> bracketing R y (S u) (w u)"
  shows "bracketing R y (\<Sum>u\<in>#A. S u) v"
  using assms by (induction rule: bracketing.induct) (auto intro: bracketing.intros)

lemma bracketing_map:
  assumes "bracketing R y A v" "\<And>f a b. f \<in> R \<Longrightarrow> \<exists>g\<in>S. h (f a b) = g (h a) (h b)"
  shows "bracketing S (\<lambda>r. h (y r)) A (h v)"
  using assms(1)
proof (induction rule: bracketing.induct)
  case (node A a B b f)
  obtain g where "g \<in> S" "h (f a b) = g (h a) (h b)" using assms(2) [OF node.hyps(3)] by blast
  then show ?case using bracketing.node [OF node.IH] by metis
qed (rule leaf)

lemma bracketing_ne: "bracketing R y A v \<Longrightarrow> A \<noteq> {#}"
  by (induction rule: bracketing.induct) auto

lemma bracketing_mono: "bracketing R y A v \<Longrightarrow> R \<subseteq> S \<Longrightarrow> bracketing S y A v"
  using bracketing_map [of R y A v S "\<lambda>x. x"] by blast

lemma bracketing_fold1:
  "xs \<noteq> [] \<Longrightarrow> bracketing {red} y (mset xs) (fold1 red (map y xs))"
proof (induction xs rule: rev_induct)
  case (snoc x xs)
  show ?case
  proof (cases "xs = []")
    case True
    then show ?thesis using leaf [of "{red}" y x] by simp
  next
    case False
    then obtain z zs where "xs = z # zs" by (cases xs) auto
    then have "fold1 red (map y (xs @ [x])) = red (fold1 red (map y xs)) (y x)" by simp
    then show ?thesis
      using bracketing.node [OF snoc.IH [OF False] leaf [of "{red}" y x], of red] by simp
  qed
qed simp

context ac_reduction
begin

lemma bracketing_fold:
  assumes "bracketing R y A v" "\<And>r. r \<in># A \<Longrightarrow> y r \<in> C"
    and "\<And>f a b. f \<in> R \<Longrightarrow> a \<in> C \<Longrightarrow> b \<in> C \<Longrightarrow> f a b = red a b"
  shows "mset xs = A \<Longrightarrow> v = fold1 red (map y xs)"
proof -
  have "v \<in> C \<and> (\<forall>xs. mset xs = A \<longrightarrow> v = fold1 red (map y xs))"
    using assms(1,2)
  proof (induction rule: bracketing.induct)
    case (leaf r)
    then show ?case by simp
  next
    case (node A a B b f)
    obtain as bs where ab: "mset as = A" "mset bs = B" by (metis ex_mset)
    have ne: "A \<noteq> {#}" "B \<noteq> {#}" by (rule bracketing_ne [OF node.hyps(1)], rule bracketing_ne [OF node.hyps(2)])
    have IH: "a \<in> C \<and> (\<forall>xs. mset xs = A \<longrightarrow> a = fold1 red (map y xs))" "b \<in> C \<and> (\<forall>xs. mset xs = B \<longrightarrow> b = fold1 red (map y xs))"
      by (rule node.IH, rule node.prems, simp)+
    have C: "a \<in> C" "b \<in> C" using IH by blast+
    have eq: "a = fold1 red (map y as)" "b = fold1 red (map y bs)" 
      using IH(1) [THEN conjunct2, rule_format, OF ab(1)] IH(2) [THEN conjunct2, rule_format, OF ab(2)] .
    have f: "f a b = red a b" using assms(3) node.hyps(3) C by blast
    have sub: "set (map y as) \<subseteq> C" "set (map y bs) \<subseteq> C"
      using node.prems unfolding ab [symmetric] by auto
    have main: "red a b = fold1 red (map y xs)" if "mset xs = A + B" for xs
    proof -
      have "fold1 red (map y (as @ bs)) = red a b"
        unfolding map_append eq by (rule fold1_append) (use ne ab sub in auto)
      moreover have "fold1 red (map y (as @ bs)) = fold1 red (map y xs)"
      proof (rule fold1_perm)
        have "mset (as @ bs) = mset xs" using that ab by simp
        then show "mset (map y (as @ bs)) = mset (map y xs)" by (metis mset_map)
      qed (use sub in auto)
      ultimately show ?thesis by simp
    qed
    show ?case unfolding f using closed [OF C] main by blast
  qed
  then show "mset xs = A \<Longrightarrow> v = fold1 red (map y xs)" by blast
qed

end

subsection \<open>The algorithms are bracketings\<close>

lemma mset_ring: "j < n \<Longrightarrow> mset (map (\<lambda>t. (j + t) mod n) [0..<n]) = mset [0..<n]"
proof -
  assume "j < n"
  have "map (\<lambda>t. (j + t) mod n) [0..<n] = rotate j [0..<n]"
    by (rule nth_equalityI) (auto simp: nth_rotate add.commute)
  moreover have "mset (rotate j xs) = mset xs" for xs :: "nat list"
    unfolding rotate_drop_take by (metis add.commute append_take_drop_id mset_append)
  ultimately show ?thesis by metis
qed

lemma ringPartial_bracketing:
  assumes "\<And>r. r < n \<Longrightarrow> red r \<in> R" "j < n" "s < n"
  shows "bracketing R y (mset (map (\<lambda>t. (j + t) mod n) [0..<Suc s])) (ringPartial red y n j s)"
  using assms(3)
proof (induction s)
  case 0
  then show ?case using leaf [of R y j] assms(2) by simp
next
  case (Suc s)
  have "bracketing R y ({#(j + Suc s) mod n#} + mset (map (\<lambda>t. (j + t) mod n) [0..<Suc s]))
      (ringPartial red y n j (Suc s))"
    unfolding ringPartial.simps using Suc assms(1,2) by (intro node leaf) auto
  moreover have "{#(j + Suc s) mod n#} + mset (map (\<lambda>t. (j + t) mod n) [0..<Suc s]) =
      mset (map (\<lambda>t. (j + t) mod n) [0..<Suc (Suc s)])"
    unfolding upt_Suc_append [of 0 "Suc s", simplified] by simp
  ultimately show ?case by metis
qed

lemma ringPartial_all:
  "(\<And>r. r < n \<Longrightarrow> red r \<in> R) \<Longrightarrow> j < n \<Longrightarrow> bracketing R y (mset [0..<n]) (ringPartial red y n j (n - 1))"
  using ringPartial_bracketing [of n red R j "n - 1" y] mset_ring [of j n] by simp

lemma rdPartial_bracketing:
  assumes "\<And>u. u < 2 ^ k \<Longrightarrow> red u \<in> R" "i \<le> k" "u < 2 ^ k"
  shows "bracketing R y (mset_set {v. v div 2 ^ i = u div 2 ^ i}) (rdPartial red y i u)"
  using assms(2,3)
proof (induction i arbitrary: u)
  case 0
  then show ?case using leaf [of R y u] by simp
next
  case (Suc i)
  let ?B = "\<lambda>u. {v. v div 2 ^ i = u div 2 ^ i} :: nat set"
  have "v < u div 2 ^ i * 2 ^ i + 2 ^ i" if "v div 2 ^ i = u div 2 ^ i" for u v :: nat
    using block_mem(2) [of v i] that by (simp add: blockOf_eq)
  then have fin: "finite (?B u)" for u
    by (auto intro: finite_subset [of _ "{..<u div 2 ^ i * 2 ^ i + 2 ^ i}"])
  have half: "v div 2 ^ Suc i = v div 2 ^ i div 2" for v :: nat
    by (metis div_mult2_eq power_Suc2)
  have "{v. v div 2 ^ Suc i = u div 2 ^ Suc i} = ?B u \<union> ?B (u XOR 2 ^ i)"
  proof (intro equalityI subsetI)
    fix v assume "v \<in> ?B u \<union> ?B (u XOR 2 ^ i)"
    then have "v div 2 ^ Suc i = u div 2 ^ Suc i \<or> v div 2 ^ Suc i = (u XOR 2 ^ i) div 2 ^ Suc i"
      unfolding half by auto
    then show "v \<in> {v. v div 2 ^ Suc i = u div 2 ^ Suc i}"
      unfolding xor_pow2_div_Suc [of u i] by simp
  next
    fix v assume "v \<in> {v. v div 2 ^ Suc i = u div 2 ^ Suc i}"
    then show "v \<in> ?B u \<union> ?B (u XOR 2 ^ i)" using block_merge [of v i u] by simp
  qed
  moreover have "?B u \<inter> ?B (u XOR 2 ^ i) = {}" using block_ne [of u i] by auto
  ultimately have "mset_set {v. v div 2 ^ Suc i = u div 2 ^ Suc i} = mset_set (?B u) + mset_set (?B (u XOR 2 ^ i))"
    using fin by (simp add: mset_set_Union)
  moreover have "bracketing R y (mset_set (?B u) + mset_set (?B (u XOR 2 ^ i))) (rdPartial red y (Suc i) u)"
    unfolding rdPartial.simps
  proof (rule node [where f = "red u"])
    show "bracketing R y (mset_set (?B u)) (rdPartial red y i u)" using Suc by simp
    show "bracketing R y (mset_set (?B (u XOR 2 ^ i))) (rdPartial red y i (u XOR 2 ^ i))"
      by (rule Suc.IH) (use Suc.prems xor_pow2_less [of u k i] in simp_all)
  qed (use Suc.prems assms(1) in simp)
  ultimately show ?case by simp
qed

lemma rdPartial_all:
  assumes "\<And>u. u < 2 ^ k \<Longrightarrow> red u \<in> R" "u < 2 ^ k"
  shows "bracketing R y (mset [0..<2 ^ k]) (rdPartial red y k u)"
proof -
  have "{v. v div 2 ^ k = u div 2 ^ k} = {0..<2 ^ k}"
    using assms(2) by (auto simp: div_eq_0_iff)
  then show ?thesis using rdPartial_bracketing [of k red R k u y] assms by (simp add: mset_upt)
qed

lemma pairs_mset: "(\<Sum>u\<in>#mset_set {..<e}. {#2 * u, Suc (2 * u)#}) = mset_set {..<2 * e}"
  by (induction e) (simp_all add: lessThan_Suc add.commute)

lemma elim_ranks:
  assumes "e \<le> 2 ^ k"
  shows "(\<Sum>u\<in>#mset [0..<2 ^ k]. if u < e then {#2 * u, Suc (2 * u)#} else {#u + e#}) = mset [0..<2 ^ k + e]"
proof -
  let ?S = "\<lambda>u. if u < e then {#2 * u, Suc (2 * u)#} else {#u + e#}"
  have "mset [0..<2 ^ k] = mset_set {..<e} + mset_set {e..<2 ^ k}"
    using assms mset_set_Union [of "{..<e}" "{e..<2 ^ k}"] ivl_disj_un(8) [of e "2 ^ k"]
    by (simp add: mset_upt atLeast0LessThan ivl_disj_int)
  moreover have "(\<Sum>u\<in>#mset_set {..<e}. ?S u) = mset_set {..<2 * e}"
    unfolding pairs_mset [symmetric] by (intro arg_cong [where f = sum_mset] image_mset_cong) auto
  moreover have "(\<Sum>u\<in>#mset_set {e..<2 ^ k}. ?S u) = mset_set {2 * e..<2 ^ k + e}"
  proof -
    have "(\<Sum>u\<in>#mset_set {e..<2 ^ k}. ?S u) = (\<Sum>u\<in>#mset_set {e..<2 ^ k}. {#u + e#})"
      by (intro arg_cong [where f = sum_mset] image_mset_cong) auto
    also have "\<dots> = image_mset (\<lambda>u. u + e) (mset_set {e..<2 ^ k})" by simp
    also have "\<dots> = mset_set ((\<lambda>u. u + e) ` {e..<2 ^ k})" by (rule image_mset_mset_set) simp
    finally show ?thesis by (simp add: mult_2)
  qed
  moreover have "mset_set {..<2 * e} + mset_set {2 * e..<2 ^ k + e} = mset [0..<2 ^ k + e]"
    using assms mset_set_Union [of "{..<2 * e}" "{2 * e..<2 ^ k + e}"] ivl_disj_un(8) [of "2 * e" "2 ^ k + e"]
    by (simp add: mset_upt atLeast0LessThan ivl_disj_int)
  ultimately show ?thesis by simp
qed

lemma elimResult_all:
  assumes "\<And>r. r < 2 ^ k + e \<Longrightarrow> red r \<in> R" "e \<le> 2 ^ k" "r < 2 ^ k + e"
  shows "bracketing R y (mset [0..<2 ^ k + e]) (elimResult red e k y r)"
proof -
  let ?S = "\<lambda>u. if u < e then {#2 * u, Suc (2 * u)#} else {#u + e#}"
  have w: "bracketing R y (?S u) (elimFold red e y (elimPeer e u))" if "u < 2 ^ k" for u
  proof (cases "u < e")
    case True
    then show ?thesis
      using bracketing.node [OF leaf [of R y "2 * u"] leaf [of R y "Suc (2 * u)"] assms(1) [of "2 * u"]] assms(2)
      by (simp add: elimFold_def elimPeer_def evenS_def mult.commute add_mset_commute)
  next
    case False
    then show ?thesis using leaf [of R y "u + e"] by (simp add: elimFold_def elimPeer_def evenS_def)
  qed
  have "bracketing R (\<lambda>u. elimFold red e y (elimPeer e u)) (mset [0..<2 ^ k]) (elimResult red e k y r)"
    unfolding elimResult_def
    by (rule rdPartial_all) (use assms elimPeer_less elimInv_less in auto)
  from bracketing_subst [OF this, of y ?S] w show ?thesis by (simp only: elim_ranks [OF assms(2)]) auto
qed

lemma logValue_all:
  assumes "r < n"
  shows "bracketing ((\<lambda>r. vred (F r) dt op cnt) ` {..<n}) y (mset [0..<n]) (logValue F dt op n cnt y r)"
proof (cases "isPow2 n")
  case True
  then obtain k where "n = 2 ^ k" by (auto simp: isPow2_iff)
  then show ?thesis
    using True assms rdPartial_all [of k "\<lambda>r. vred (F r) dt op cnt" "(\<lambda>r. vred (F r) dt op cnt) ` {..<n}" r y]
    by (simp add: logValue_def)
next
  case False
  obtain k e where k: "n = 2 ^ k + e" "e < 2 ^ k" "largestPow2 1 n = 2 ^ k"
    using largestPow2_split [of n] assms by auto
  then show ?thesis
    using False assms elimResult_all [of k e "\<lambda>r. vred (F r) dt op cnt" "(\<lambda>r. vred (F r) dt op cnt) ` {..<n}" r y]
    by (simp add: logValue_def)
qed

lemma chunkPartial_all:
  "j < n \<Longrightarrow> bracketing ((\<lambda>r. vred (F r) dt op (chunkLen chunks j div vcclTypeSize dt)) ` {..<n}) (\<lambda>r. Y r j) (mset [0..<n])
     (chunkPartial F dt op chunks Y n j (n - 1))"
  unfolding chunkPartial_def by (rule ringPartial_all) auto

subsection \<open>Element by element\<close>

definition elemAt :: "nat \<Rightarrow> nat \<Rightarrow> byte list \<Rightarrow> byte list" where
  "elemAt es i x = take es (drop (i * es) x)"

text \<open>The operations that may be applied to two elements: those of the ranks' units; a SIMD kernel may
  treat an element of its vector part and one of its tail differently.\<close>

definition elemOps :: "(nat \<Rightarrow> fpu) \<Rightarrow> nat \<Rightarrow> vcclDataType_t \<Rightarrow> vcclRedOp_t \<Rightarrow> (byte list \<Rightarrow> byte list \<Rightarrow> byte list) set" where
  "elemOps F n dt op = {elemFn (F r) dt op m i | r m i. r < n}"

lemma elemAt_vred:
  "dt \<noteq> vcclNumTypes \<Longrightarrow> i < n \<Longrightarrow> elemAt (vcclTypeSize dt) i (vred f dt op n x y) =
     elemFn f dt op n i (elemAt (vcclTypeSize dt) i x) (elemAt (vcclTypeSize dt) i y)"
  unfolding elemAt_def vred_def by (rule elem_of_zipN) (auto simp: length_elemFn)

lemma elemAt_vscale:
  assumes "isFloatType dt" "i < n"
  shows "elemAt (vcclTypeSize dt) i (vscale f dt k n x) = scaleFn f dt k (elemAt (vcclTypeSize dt) i x)"
proof -
  have "length (scaleFn f dt k z) = vcclTypeSize dt" for z
    using assms(1) by (auto elim!: isFloatType_cases simp: scaleFn_def lift1_def)
  then show ?thesis unfolding elemAt_def vscale_def mapN_def by (intro elem_of_concat assms(2)) auto
qed

lemma elements_of_vred:
  assumes "dt \<noteq> vcclNumTypes" "bracketing ((\<lambda>r. vred (F r) dt op m) ` {..<n}) y A v" "i < m"
  shows "bracketing (elemOps F n dt op) (\<lambda>r. elemAt (vcclTypeSize dt) i (y r)) A (elemAt (vcclTypeSize dt) i v)"
proof (rule bracketing_map [OF assms(2)])
  fix f a b assume "f \<in> (\<lambda>r. vred (F r) dt op m) ` {..<n}"
  then obtain r where "r < n" "f = vred (F r) dt op m" by auto
  then show "\<exists>g\<in>elemOps F n dt op. elemAt (vcclTypeSize dt) i (f a b) = g (elemAt (vcclTypeSize dt) i a) (elemAt (vcclTypeSize dt) i b)"
    using assms(1,3) by (intro bexI [of _ "elemFn (F r) dt op m i"]) (auto simp: elemAt_vred elemOps_def)
qed

text \<open>What is known of one element of a result.\<close>

definition reducedElem ::
  "(nat \<Rightarrow> fpu) \<Rightarrow> vcclDataType_t \<Rightarrow> vcclRedOp_t \<Rightarrow> nat \<Rightarrow> (nat \<Rightarrow> byte list) \<Rightarrow> byte list \<Rightarrow> bool" where
  "reducedElem F dt op n x v \<longleftrightarrow>
     (\<exists>w q. bracketing (elemOps F n dt op) x (mset [0..<n]) w \<and> q < n \<and>
        v = (if op = vcclAvg \<and> 1 < n then scaleFn (F q) dt (d_recip (F q) n) w else w))"

lemma reducedElem_avgScale:
  assumes op: "opOk dt op" and n: "1 < n" "q < n" and i: "i < m"
    and v: "bracketing ((\<lambda>r. vred (F r) dt op m) ` {..<n}) y (mset [0..<n]) v"
  shows "reducedElem F dt op n (\<lambda>r. elemAt (vcclTypeSize dt) i (y r)) (elemAt (vcclTypeSize dt) i (avgScale (F q) dt op n m v))"
proof -
  have "bracketing (elemOps F n dt op) (\<lambda>r. elemAt (vcclTypeSize dt) i (y r)) (mset [0..<n]) (elemAt (vcclTypeSize dt) i v)"
    using elements_of_vred [OF _ v i] op by (simp add: opOk_def)
  moreover have "elemAt (vcclTypeSize dt) i (avgScale (F q) dt op n m v) =
      (if op = vcclAvg \<and> 1 < n then scaleFn (F q) dt (d_recip (F q) n) (elemAt (vcclTypeSize dt) i v) else elemAt (vcclTypeSize dt) i v)"
    using op n i by (auto simp: avgScale_def elemAt_vscale opOk_def)
  ultimately show ?thesis unfolding reducedElem_def using n(2) by blast
qed

subsection \<open>The ring value, chunk by chunk\<close>

lemma chunk_exists: "i < cnt \<Longrightarrow> 0 < n \<Longrightarrow> \<exists>j<n. chunkBegin cnt n j \<le> i \<and> i < chunkBegin cnt n (Suc j)"
proof -
  assume i: "i < cnt" "0 < n"
  define k where "k = (LEAST k. i < chunkBegin cnt n k)"
  have "i < chunkBegin cnt n n" using i by (simp add: chunkBegin_n)
  then have k: "i < chunkBegin cnt n k" "k \<le> n" unfolding k_def by (auto intro: LeastI Least_le)
  then obtain j where j: "k = Suc j" by (cases k) auto
  then have "\<not> i < chunkBegin cnt n j" using not_less_Least [of j "\<lambda>k. i < chunkBegin cnt n k"] by (simp add: k_def)
  then show ?thesis using j k by (intro exI [of _ j]) auto
qed

lemma elemAt_chunkOf:
  assumes "j < n" "chunkBegin cnt n j \<le> i" "i < chunkBegin cnt n (Suc j)"
  shows "elemAt es (i - chunkBegin cnt n j) (chunkOf (makeChunks cnt n es) j x) = elemAt es i x"
proof -
  let ?b = "chunkBegin cnt n j" and ?l = "chunkBegin cnt n (Suc j) - chunkBegin cnt n j"
  have 1: "(i - ?b) * es + ?b * es = i * es" using assms by (simp flip: add_mult_distrib)
  have "Suc (i - ?b) * es \<le> ?l * es" using assms by (intro mult_le_mono1) auto
  then have 2: "es \<le> ?l * es - (i - ?b) * es" by simp
  show ?thesis
    using assms 1 2 by (simp add: elemAt_def chunkOf_def makeChunks_nth drop_take min_def)
qed

lemma chunkOf_concat:
  assumes "\<And>j. j < n \<Longrightarrow> length (X j) = chunkLen (makeChunks cnt n es) j" "j < n"
  shows "chunkOf (makeChunks cnt n es) j (concat (map X [0..<n])) = X j"
proof -
  have len: "length (concat (map X [0..<k])) = chunkBegin cnt n k * es" if "k \<le> n" for k
    using that
  proof (induction k)
    case (Suc k)
    then show ?case
      using assms(1) [of k] makeChunks_end [of k n cnt es] by (simp add: makeChunks_nth)
  qed simp
  have "[0..<n] = [0..<j] @ j # [Suc j..<n]"
    using assms(2) upt_add_eq_append [of 0 j "n - j"] by (simp add: upt_rec [of j n])
  then show ?thesis
    using len [of j] assms by (simp add: chunkOf_def makeChunks_nth)
qed

lemma length_chunkPartial:
  assumes "opOk dt op" "j < n" "1 < n" "chunks = makeChunks cnt n (vcclTypeSize dt)"
  shows "length (ringChunk F dt op n cnt y j) = chunkLen chunks j"
proof -
  have "length (chunkPartial F dt op chunks Y n j (n - 1)) = chunkLen chunks j" for Y
    using assms by (cases "n - 1") (auto simp: chunkPartial_def opOk_def makeChunks_nth)
  then show ?thesis
    using assms by (auto simp: ringChunk_def Let_def avgScale_def opOk_def makeChunks_nth)
qed

lemma ringValue_elem:
  assumes op: "opOk dt op" and n: "1 < n" and i: "i < cnt"
  shows "reducedElem F dt op n (\<lambda>r. elemAt (vcclTypeSize dt) i (y r)) (elemAt (vcclTypeSize dt) i (ringValue F dt op n cnt y))"
proof -
  let ?es = "vcclTypeSize dt"
  define chunks where "chunks = makeChunks cnt n ?es"
  obtain j where j: "j < n" "chunkBegin cnt n j \<le> i" "i < chunkBegin cnt n (Suc j)"
    using chunk_exists [OF i, of n] n by auto
  note at = elemAt_chunkOf [OF j, of ?es, folded chunks_def]
  have m: "chunkLen chunks j div ?es = chunkBegin cnt n (Suc j) - chunkBegin cnt n j"
    using makeChunks_count [OF j(1)] op by (simp add: chunks_def opOk_def vcclTypeSize_pos)
  have "elemAt ?es i (ringValue F dt op n cnt y) = elemAt ?es (i - chunkBegin cnt n j) (ringChunk F dt op n cnt y j)"
    using chunkOf_concat [of n "ringChunk F dt op n cnt y" cnt ?es j, folded chunks_def]
      length_chunkPartial [OF op _ n chunks_def] j(1)
    by (simp add: ringValue_def flip: at)
  moreover have "reducedElem F dt op n (\<lambda>r. elemAt ?es (i - chunkBegin cnt n j) (chunkOf chunks j (y r)))
      (elemAt ?es (i - chunkBegin cnt n j) (ringChunk F dt op n cnt y j))"
    unfolding ringChunk_def Let_def chunks_def [symmetric]
    by (rule reducedElem_avgScale [OF op n _ _ chunkPartial_all [OF j(1)]]) (use n j m in auto)
  ultimately show ?thesis by (simp add: at)
qed

lemma arValue_elem:
  assumes op: "opOk dt op" and r: "r < n" and i: "i < cnt"
  shows "reducedElem F dt op n (\<lambda>r. elemAt (vcclTypeSize dt) i (y r)) (elemAt (vcclTypeSize dt) i (arValue e F dt op n cnt y r))"
proof (cases "n = 1")
  case True
  then show ?thesis
    using leaf [of "elemOps F n dt op" "\<lambda>r. elemAt (vcclTypeSize dt) i (y r)" 0] r
    by (auto simp: reducedElem_def arValue_def intro!: exI [of _ "elemAt (vcclTypeSize dt) i (y r)"])
next
  case False
  then have n: "1 < n" using r by simp
  show ?thesis
    using False i reducedElem_avgScale [OF op n r i logValue_all [OF r]] ringValue_elem [OF op n i]
    by (simp add: arValue_def)
qed

subsection \<open>Integers: the fold of the contributions\<close>

lemma elems_eq:
  assumes "length x = cnt * es" "length y = cnt * es" "0 < es" "\<And>i. i < cnt \<Longrightarrow> elemAt es i x = elemAt es i y"
  shows "x = y"
proof (rule nth_equalityI)
  fix k assume "k < length x"
  then have i: "k div es < cnt" "k mod es < es" using assms by (simp_all add: less_mult_imp_div_less)
  have "z ! k = elemAt es (k div es) z ! (k mod es)" if "length z = cnt * es" for z :: "byte list"
    using i that elem_le [OF i(1), of es] by (simp add: elemAt_def)
  then show "x ! k = y ! k" using assms(1,2) assms(4) [OF i(1)] by metis
qed (use assms in simp)

lemma elemFn_int_indep: "isIntType dt \<Longrightarrow> elemFn f dt op m i = elemFn g dt op m' i'"
  by (cases dt) (simp_all add: elemFn_def isIntType_def isFloatType_def)

lemma int_elem_ac: "isIntType dt \<Longrightarrow> ac_reduction (elemFn f dt op m i) UNIV"
proof unfold_locales
  assume dt: "isIntType dt"
  show "elemFn f dt op m i x y = elemFn f dt op m i y x" for x y using dt by (rule elemFn_int_comm)
  show "elemFn f dt op m i (elemFn f dt op m i x y) z = elemFn f dt op m i x (elemFn f dt op m i y z)" for x y z
    using dt by (rule elemFn_int_assoc)
qed simp

lemma reducedElem_int:
  assumes "isIntType dt" "opOk dt op" "reducedElem F dt op n x v" "0 < n"
  shows "v = fold1 (elemFn f dt op 0 0) (map x [0..<n])"
proof -
  have avg: "op \<noteq> vcclAvg" using assms(1,2) by (auto simp: isIntType_def opOk_def)
  then have "bracketing (elemOps F n dt op) x (mset [0..<n]) v" using assms(3) by (auto simp: reducedElem_def)
  then show ?thesis
  proof (rule ac_reduction.bracketing_fold [OF int_elem_ac [OF assms(1)]])
    fix g a b assume "g \<in> elemOps F n dt op"
    then obtain r m i where "g = elemFn (F r) dt op m i" by (auto simp: elemOps_def)
    then show "g a b = elemFn f dt op 0 0 a b"
      using elemFn_int_indep [OF assms(1), of "F r" op m i f 0 0] by (rule trans [THEN fun_cong, THEN fun_cong])
  qed simp_all
qed

lemma fold1_vred_elem:
  assumes "isIntType dt" "i < cnt" "0 < n"
  shows "elemAt (vcclTypeSize dt) i (fold1 (vred f dt op cnt) (map y [0..<n])) =
    fold1 (elemFn f dt op 0 0) (map (\<lambda>r. elemAt (vcclTypeSize dt) i (y r)) [0..<n])"
proof -
  have nt: "dt \<noteq> vcclNumTypes" using assms(1) by (simp add: isIntType_def)
  have "bracketing {vred f dt op cnt} y (mset [0..<n]) (fold1 (vred f dt op cnt) (map y [0..<n]))"
    using bracketing_fold1 [of "[0..<n]"] assms(3) by simp
  then have "bracketing {elemFn f dt op 0 0} (\<lambda>r. elemAt (vcclTypeSize dt) i (y r)) (mset [0..<n])
      (elemAt (vcclTypeSize dt) i (fold1 (vred f dt op cnt) (map y [0..<n])))"
    by (rule bracketing_map) (use assms nt elemFn_int_indep [OF assms(1), of f op cnt i f 0 0] in \<open>simp add: elemAt_vred\<close>)
  then show ?thesis by (rule ac_reduction.bracketing_fold [OF int_elem_ac [OF assms(1)]]) auto
qed

lemma int_result:
  assumes int: "isIntType dt" "opOk dt op" and n: "0 < n" and y: "\<And>r. r < n \<Longrightarrow> length (y r) = cnt * vcclTypeSize dt"
    and v: "length v = cnt * vcclTypeSize dt"
      "\<And>i. i < cnt \<Longrightarrow> reducedElem F dt op n (\<lambda>r. elemAt (vcclTypeSize dt) i (y r)) (elemAt (vcclTypeSize dt) i v)"
  shows "v = fold1 (vred f dt op cnt) (map y [0..<n])"
proof (rule elems_eq [OF v(1)])
  have nt: "dt \<noteq> vcclNumTypes" using int(1) by (simp add: isIntType_def)
  then show "0 < vcclTypeSize dt" by (simp add: vcclTypeSize_pos)
  have "fold1 (vred f dt op cnt) (map y [0..<n]) \<in> bufs dt cnt"
    by (rule reduction.fold1_closed [OF vred_reduction [OF nt]]) (use n y in \<open>auto simp: bufs_def\<close>)
  then show "length (fold1 (vred f dt op cnt) (map y [0..<n])) = cnt * vcclTypeSize dt" by (simp add: bufs_def)
  show "elemAt (vcclTypeSize dt) i v = elemAt (vcclTypeSize dt) i (fold1 (vred f dt op cnt) (map y [0..<n]))" if "i < cnt" for i
    using reducedElem_int [OF int v(2) [OF that] n] fold1_vred_elem [OF int(1) that n] by metis
qed

subsection \<open>All ranks agree\<close>

text \<open>An operation that is commutative on a set of values it does not leave. For maximum and minimum on floats the
  set of all buffers is not one, since NaNs and zeros of different sign do not commute; the buffers without
  them are.\<close>

definition commutesOn :: "'a set \<Rightarrow> ('a \<Rightarrow> 'a \<Rightarrow> 'a) \<Rightarrow> bool" where
  "commutesOn D g \<longleftrightarrow> (\<forall>x\<in>D. \<forall>y\<in>D. g x y \<in> D \<and> g x y = g y x)"

lemma rdPartial_in:
  "commutesOn D red \<Longrightarrow> (\<And>u. u < 2 ^ k \<Longrightarrow> y u \<in> D) \<Longrightarrow> i \<le> k \<Longrightarrow> u < 2 ^ k \<Longrightarrow> rdPartial (\<lambda>_. red) y i u \<in> D"
  by (induction i arbitrary: u) (simp_all add: commutesOn_def xor_pow2_less)

lemma rdPartial_agree:
  assumes c: "commutesOn D red" and y: "\<And>u. u < 2 ^ k \<Longrightarrow> y u \<in> D"
  shows "u div 2 ^ i = v div 2 ^ i \<Longrightarrow> i \<le> k \<Longrightarrow> u < 2 ^ k \<Longrightarrow> v < 2 ^ k \<Longrightarrow>
    rdPartial (\<lambda>_. red) y i u = rdPartial (\<lambda>_. red) y i v"
proof (induction i arbitrary: u v)
  case (Suc i)
  let ?P = "rdPartial (\<lambda>_. red) y i"
  have flip: "(a XOR 2 ^ i) div 2 ^ i = (b XOR 2 ^ i) div 2 ^ i" if "a div 2 ^ i = b div 2 ^ i" for a b :: nat
    using that by (simp add: xor_pow2_div)
  have less: "a XOR 2 ^ i < 2 ^ k" if "a < 2 ^ k" for a :: nat using that Suc.prems by (simp add: xor_pow2_less)
  note IH = Suc.IH [OF _ Suc_leD [OF Suc.prems(2)]]
  consider "u div 2 ^ i = v div 2 ^ i" | "u div 2 ^ i = (v XOR 2 ^ i) div 2 ^ i"
    using block_merge [OF Suc.prems(1)] by blast
  then show ?case
  proof cases
    case 1
    then show ?thesis using IH [of u v] IH [OF flip, of u v] less Suc.prems by simp
  next
    case 2
    have "?P u = ?P (v XOR 2 ^ i)" using 2 by (rule IH) (use less Suc.prems in auto)
    moreover have "?P (u XOR 2 ^ i) = ?P v" using IH [OF flip [OF 2]] less Suc.prems by (simp add: xor.assoc)
    moreover have "?P w \<in> D" if "w < 2 ^ k" for w using rdPartial_in [OF c y _ that] Suc.prems by simp
    ultimately show ?thesis using c less Suc.prems by (simp add: commutesOn_def)
  qed
qed simp

lemma logValue_agree:
  assumes F: "\<And>r. r < n \<Longrightarrow> F r = f \<and> y r \<in> D" and c: "commutesOn D (vred f dt op cnt)" and r: "r < n" "s < n"
  shows "logValue F dt op n cnt y r = logValue F dt op n cnt y s"
proof (cases "isPow2 n")
  case True
  then obtain k where k: "n = 2 ^ k" by (auto simp: isPow2_iff)
  have "rdPartial (\<lambda>u. vred (F u) dt op cnt) y k u = rdPartial (\<lambda>_. vred f dt op cnt) y k u" if "u < n" for u
    by (rule rdPartial_cong [of k]) (use F k that in auto)
  then show ?thesis using True k r rdPartial_agree [OF c, of k y r k s] F by (simp add: logValue_def)
next
  case False
  obtain k e where k: "n = 2 ^ k + e" "e < 2 ^ k" "largestPow2 1 n = 2 ^ k"
    using largestPow2_split [of n] r by auto
  have "elimResult (\<lambda>u. vred (F u) dt op cnt) e k y u = elimResult (\<lambda>_. vred f dt op cnt) e k y u" if "u < n" for u
    by (rule elimResult_cong) (use F k that in auto)
  moreover have inv: "elimInv e u < 2 ^ k" if "u < n" for u using elimInv_less [of u k e] k that by simp
  have "elimResult (\<lambda>_. vred f dt op cnt) e k y r = elimResult (\<lambda>_. vred f dt op cnt) e k y s"
    unfolding elimResult_def
  proof (rule rdPartial_agree [OF c])
    show "elimFold (\<lambda>_. vred f dt op cnt) e y (elimPeer e u) \<in> D" if "u < 2 ^ k" for u
      using that F k c elimPeer_less [of u k e] by (auto simp: elimFold_def commutesOn_def evenS_def)
  qed (use inv r in simp_all)
  ultimately show ?thesis using False k r by (simp add: logValue_def)
qed

lemma vred_int_indep: "isIntType dt \<Longrightarrow> vred f dt op cnt = vred g dt op cnt"
proof -
  assume "isIntType dt"
  then have "elemFn f dt op cnt i = elemFn g dt op cnt i" for i by (rule elemFn_int_indep)
  then have "elemFn f dt op cnt = elemFn g dt op cnt" by (rule ext)
  then show ?thesis by (simp add: vred_def)
qed

text \<open>With a logarithmic algorithm the ranks agree on integers, and on floats when they compute with the same unit and the
  operation commutes on the values at hand.\<close>

lemma arValue_agree:
  assumes "isIntType dt \<and> op \<noteq> vcclAvg \<or> (\<forall>r<n. F r = f \<and> y r \<in> D) \<and> commutesOn D (vred f dt op cnt)"
    and r: "r < n" "s < n" and "cnt \<noteq> 0"
  shows "arValue e F dt op n cnt y r = arValue e F dt op n cnt y s"
  using assms(1)
proof
  assume int: "isIntType dt \<and> op \<noteq> vcclAvg"
  then have "commutesOn UNIV (vred f dt op cnt)" using vred_comm [OF elemFn_int_comm] by (simp add: commutesOn_def)
  then have "logValue (\<lambda>_. f) dt op n cnt y r = logValue (\<lambda>_. f) dt op n cnt y s" by (intro logValue_agree [OF _ _ r, where D = UNIV]) simp_all
  moreover have "vred (F u) dt op cnt = vred f dt op cnt" for u using int by (simp add: vred_int_indep)
  then have "logValue F dt op n cnt y = logValue (\<lambda>_. f) dt op n cnt y" by (intro ext) (simp add: logValue_def)
  ultimately show ?thesis using int r assms(4) by (auto simp: arValue_def avgScale_def)
next
  assume "(\<forall>r<n. F r = f \<and> y r \<in> D) \<and> commutesOn D (vred f dt op cnt)"
  then show ?thesis using logValue_agree [of n F f y D dt op cnt r s] r assms(4) by (auto simp: arValue_def)
qed

end
