(* ===== verification/Vccl_ReduceScatter.thy ===== *)
theory Vccl_ReduceScatter
  imports Vccl_Reduced
begin

text \<open>
  Reduce-scatter by a travelling partial. After \<open>s\<close> hops rank \<open>r\<close> holds at \<open>rsSendPtr\<close> the partial
  \<open>rsPartial s r\<close> of the block \<open>(r - 1 - s) mod n\<close>; the last hop brings the partial of its own block.
\<close>

text \<open>The rank's own data of block \<open>j\<close> as it starts a partial, and what a hop adds to one.\<close>

definition rsFirst :: "fpu \<Rightarrow> vcclDataType_t \<Rightarrow> bool \<Rightarrow> 64 word \<Rightarrow> nat \<Rightarrow> byte list \<Rightarrow> byte list" where
  "rsFirst f dt premul scalar cnt x = (if premul then vscaleCopy f dt scalar cnt x else x)"

definition rsAdd :: "fpu \<Rightarrow> vcclDataType_t \<Rightarrow> vcclRedOp_t \<Rightarrow> bool \<Rightarrow> 64 word \<Rightarrow> nat \<Rightarrow> byte list \<Rightarrow> byte list \<Rightarrow> byte list" where
  "rsAdd f dt op premul scalar cnt p x = (if premul then vacc f dt scalar cnt p x else vred f dt op cnt p x)"

primrec rsPartial ::
  "(nat \<Rightarrow> byte list \<Rightarrow> byte list) \<Rightarrow> (nat \<Rightarrow> byte list \<Rightarrow> byte list \<Rightarrow> byte list) \<Rightarrow> (nat \<Rightarrow> nat \<Rightarrow> byte list) \<Rightarrow> nat \<Rightarrow> nat \<Rightarrow> nat \<Rightarrow> byte list" where
  "rsPartial first add X n 0 r = first r (X r ((r + n - 1) mod n))"
| "rsPartial first add X n (Suc s) r =
     add r (rsPartial first add X n s ((r + n - 1) mod n)) (X r ((r + 2 * n - s - 2) mod n))"

definition rsSendPtr :: "addr \<Rightarrow> bool \<Rightarrow> nat \<Rightarrow> nat \<Rightarrow> addr \<Rightarrow> nat \<Rightarrow> nat \<Rightarrow> addr" where
  "rsSendPtr send premul n cb scr r s =
     (if s = 0 then if premul then scr + 2 * cb else send + ((r + n - 1) mod n) * cb
      else rsRecvPtr scr cb (s - 1))"

definition rsHop ::
  "addr \<Rightarrow> addr \<Rightarrow> nat \<Rightarrow> vcclDataType_t \<Rightarrow> vcclRedOp_t \<Rightarrow> bool \<Rightarrow> 64 word \<Rightarrow> nat \<Rightarrow> nat \<Rightarrow> addr \<Rightarrow> nat \<Rightarrow> cmd" where
  "rsHop send recv cnt dt op premul scalar n r scr s =
     (let cb = cnt * vcclTypeSize dt; rp = rsRecvPtr scr cb s; local = send + ((r + 2 * n - s - 2) mod n) * cb in
      if s = n - 2 then
        check (if premul then scaleCopyC dt recv local cnt scalar else cwhen (recv \<noteq> local) (memcpy recv local cb))
          (reduceC dt op recv rp cnt)
      else if premul then scaledAccumulateC dt rp local cnt scalar
      else reduceC dt op rp local cnt)"

definition rsCmd ::
  "addr \<Rightarrow> addr \<Rightarrow> nat \<Rightarrow> vcclDataType_t \<Rightarrow> vcclRedOp_t \<Rightarrow> bool \<Rightarrow> 64 word \<Rightarrow> nat \<Rightarrow> nat \<Rightarrow> addr \<Rightarrow> cmd" where
  "rsCmd send recv cnt dt op premul scalar n r scr =
     (let cb = cnt * vcclTypeSize dt in
      check (cwhen premul (scaleCopyC dt (scr + 2 * cb) (send + ((r + n - 1) mod n) * cb) cnt scalar))
        (check (loop (n - 1) (\<lambda>s. check (sendRecv ((r + 1) mod n) (rsSendPtr send premul n cb scr r s) cb
                   ((r + n - 1) mod n) (rsRecvPtr scr cb s) cb)
                 (rsHop send recv cnt dt op premul scalar n r scr s)))
          (cwhen (op = vcclAvg) (scaleC dt recv cnt (\<lambda>f. d_recip f n)))))"

lemma doReduceScatter_eq:
  assumes "rank (comm c) = r" "nranks (comm c) = n"
  shows "doReduceScatter send recv cnt dt op premul scalar c = scoped (check (regAdd send (n * (cnt * vcclTypeSize dt)))
     (if n = 1 \<or> cnt = 0 then
        check (cwhen (cnt > 0 \<and> send \<noteq> recv) (memcpy recv send (cnt * vcclTypeSize dt)))
          (cwhen premul (scaleC dt recv cnt (\<lambda>_. scalar)))
      else withScratch ((if premul then 3 else 2) * (cnt * vcclTypeSize dt)) (rsCmd send recv cnt dt op premul scalar n r))) c"
  unfolding doReduceScatter_def
proof (rule scoped_cong, goal_cases)
  case (1 c')
  show ?case
    unfolding Let_def vseq_Cons vseq_Nil check_ok rsCmd_def [abs_def] rsHop_def rsSendPtr_def
      next_rank_def prev_rank_def 1 assms
    by (simp add: if_distrib [of "\<lambda>p. check _ p"] cong: if_cong)
qed

subsection \<open>The hops\<close>

text \<open>Buffers: scratch space of \<open>k\<close> bytes apart from both user buffers; the receive buffer is the own
  block of the send buffer or apart from it.\<close>

definition rsOk ::
  "nat \<Rightarrow> (nat \<Rightarrow> ctx) \<Rightarrow> vcclDataType_t \<Rightarrow> vcclRedOp_t \<Rightarrow> bool \<Rightarrow> nat \<Rightarrow> (nat \<Rightarrow> addr) \<Rightarrow> (nat \<Rightarrow> addr) \<Rightarrow> (nat \<Rightarrow> addr) \<Rightarrow> bool" where
  "rsOk n c0 dt op premul cb send recv scr \<longleftrightarrow> world n c0 \<and> 2 \<le> n \<and> opOk dt op \<and> (premul \<longrightarrow> isFloatType dt) \<and>
     (\<forall>r<n. disj (scr r) ((if premul then 3 else 2) * cb) (send r) (n * cb) \<and>
        disj (scr r) ((if premul then 3 else 2) * cb) (recv r) cb \<and> slotOk (recv r) (send r + r * cb) cb)"

lemma rsOk_ptrs:
  assumes "rsOk n c0 dt op premul cb send recv scr" "r < n"
  shows "scr r \<le> rsRecvPtr (scr r) cb s" "rsRecvPtr (scr r) cb s + cb \<le> scr r + (if premul then 3 else 2) * cb"
    and "j < n \<Longrightarrow> disj (rsRecvPtr (scr r) cb s) cb (send r + j * cb) cb"
    and "disj (rsSendPtr (send r) premul n cb (scr r) r s) cb (rsRecvPtr (scr r) cb s) cb"
    and "disj (rsRecvPtr (scr r) cb s) cb (recv r) cb"
    and "premul \<Longrightarrow> j < n \<Longrightarrow> disj (scr r + 2 * cb) cb (send r + j * cb) cb"
proof -
  have d: "disj (scr r) ((if premul then 3 else 2) * cb) (send r) (n * cb)"
      "disj (scr r) ((if premul then 3 else 2) * cb) (recv r) cb" using assms by (auto simp: rsOk_def)
  show a: "scr r \<le> rsRecvPtr (scr r) cb s" "rsRecvPtr (scr r) cb s + cb \<le> scr r + (if premul then 3 else 2) * cb" for s
    by (auto simp: rsRecvPtr_def)
  show b: "disj (rsRecvPtr (scr r) cb s) cb (send r + j * cb) cb" if "j < n" for j s
    using disj_sub_both [OF d(1) a, of "send r + j * cb" cb s] elem_le [OF that, of cb] by simp
  show "disj (rsSendPtr (send r) premul n cb (scr r) r s) cb (rsRecvPtr (scr r) cb s) cb"
  proof (cases s)
    case 0
    have "(r + n - 1) mod n < n" using assms by auto
    then show ?thesis using 0 b [of "(r + n - 1) mod n" 0] by (auto simp: rsSendPtr_def rsRecvPtr_def disj_def)
  next
    case (Suc k)
    then show ?thesis by (cases "even k") (auto simp: rsSendPtr_def rsRecvPtr_def disj_def)
  qed
  show "disj (rsRecvPtr (scr r) cb s) cb (recv r) cb" using disj_sub [OF d(2) a] .
  show "disj (scr r + 2 * cb) cb (send r + j * cb) cb" if "premul" "j < n"
    using disj_sub_both [OF d(1), of "scr r + 2 * cb" cb "send r + j * cb" cb] elem_le [OF that(2), of cb] that(1) by simp
qed

definition rsHolds ::
  "nat \<Rightarrow> (nat \<Rightarrow> addr) \<Rightarrow> nat \<Rightarrow> (nat \<Rightarrow> byte list) \<Rightarrow> (nat \<Rightarrow> addr) \<Rightarrow> nat \<Rightarrow> (nat \<Rightarrow> mem) \<Rightarrow> (nat \<Rightarrow> mem) \<Rightarrow> bool" where
  "rsHolds n p cb V scr k M0 M \<longleftrightarrow> (\<forall>r<n. rd (M r) (p r) cb = V r) \<and> frame {..<n} scr k M0 M"

lemma rs_local:
  assumes "rsOk n c0 dt op premul cb send recv scr" "frame {..<n} scr ((if premul then 3 else 2) * cb) M0 M" "r < n" "j < n"
  shows "rd (M r) (send r + j * cb) cb = rd (M0 r) (send r + j * cb) cb"
proof (rule rd_cong)
  fix x assume "send r + j * cb \<le> x" "x < send r + j * cb + cb"
  then have "send r \<le> x" "x < send r + n * cb" using elem_le [OF assms(4), of cb] by auto
  then have "x < scr r \<or> scr r + (if premul then 3 else 2) * cb \<le> x"
    using assms(1,3) by (auto simp: rsOk_def disj_def)
  then show "M r x = M0 r x" using assms(2,3) by (auto simp: frame_def)
qed

text \<open>The value that rank \<open>r\<close> has to send at step \<open>s\<close>.\<close>

definition rsVal ::
  "nat \<Rightarrow> (nat \<Rightarrow> ctx) \<Rightarrow> vcclDataType_t \<Rightarrow> vcclRedOp_t \<Rightarrow> bool \<Rightarrow> 64 word \<Rightarrow> nat \<Rightarrow> (nat \<Rightarrow> addr) \<Rightarrow> (nat \<Rightarrow> mem) \<Rightarrow> nat \<Rightarrow> nat \<Rightarrow> byte list" where
  "rsVal n c0 dt op premul scalar cnt send M0 =
     rsPartial (\<lambda>r. rsFirst (fp (c0 r)) dt premul scalar cnt) (\<lambda>r. rsAdd (fp (c0 r)) dt op premul scalar cnt)
       (\<lambda>r j. rd (M0 r) (send r + j * (cnt * vcclTypeSize dt)) (cnt * vcclTypeSize dt)) n"

lemma rs_first_phase:
  assumes ok: "rsOk n c0 dt op premul cb send recv scr" and cb: "cb = cnt * vcclTypeSize dt"
  shows "phase {..<n} c0 (\<lambda>_. [])
    (\<lambda>r. cwhen premul (scaleCopyC dt (scr r + 2 * cb) (send r + ((r + n - 1) mod n) * cb) cnt scalar)) (\<lambda>_. [])
    (\<lambda>M. M = M0)
    (rsHolds n (\<lambda>r. rsSendPtr (send r) premul n cb (scr r) r 0) cb (rsVal n c0 dt op premul scalar cnt send M0 0) scr
       ((if premul then 3 else 2) * cb) M0)"
proof (rule phase_local [where F = "\<lambda>M r. if premul then wr (M r) (scr r + 2 * cb)
    (vscaleCopy (fp (c0 r)) dt scalar cnt (rd (M r) (send r + ((r + n - 1) mod n) * cb) cb)) else M r"], goal_cases)
  case (1 M r)
  then have "(r + n - 1) mod n < n" by auto
  then show ?case
    using 1 ok rsOk_ptrs(6) [OF ok, of r "(r + n - 1) mod n"]
    by (cases premul) (simp_all add: cwhen_def ok_def scaleCopyC_Ret [where n = cnt and dt = dt, folded cb] rsOk_def freeOf_def, simp_all add: upd_def)
next
  case (2 M)
  then show ?case
    using ok by (auto simp: rsHolds_def rsVal_def rsSendPtr_def rsFirst_def rd_wr_same frame_def wr_outside rsOk_def cb [symmetric])
qed

lemma rs_round_phase:
  assumes ok: "rsOk n c0 dt op premul cb send recv scr" and cb: "cb = cnt * vcclTypeSize dt"
  shows "phase {..<n} c0 (\<lambda>_. []) (\<lambda>r. sendRecv ((r + 1) mod n) (rsSendPtr (send r) premul n cb (scr r) r s) cb
      ((r + n - 1) mod n) (rsRecvPtr (scr r) cb s) cb) (\<lambda>_. [])
    (rsHolds n (\<lambda>r. rsSendPtr (send r) premul n cb (scr r) r s) cb V scr ((if premul then 3 else 2) * cb) M0)
    (rsHolds n (\<lambda>r. rsRecvPtr (scr r) cb s) cb (\<lambda>r. V ((r + n - 1) mod n)) scr ((if premul then 3 else 2) * cb) M0)"
proof (rule phase_shift [where s = 1])
  have n: "2 \<le> n" "world n c0" using ok by (auto simp: rsOk_def)
  show "roundOk {..<n} c0 (\<lambda>r. (r + 1) mod n) (\<lambda>r. (r + n - 1) mod n) (\<lambda>r. rsSendPtr (send r) premul n cb (scr r) r s)
      (\<lambda>_. cb) (\<lambda>r. rsRecvPtr (scr r) cb s) (\<lambda>_. cb) (\<lambda>_. []) (\<lambda>_. [])"
    using world_peers [OF n(2), of _ 1] n rsOk_ptrs(4) [OF ok] by (simp add: roundOk_def)
  show "rsHolds n (\<lambda>r. rsRecvPtr (scr r) cb s) cb (\<lambda>r. V ((r + n - 1) mod n)) scr ((if premul then 3 else 2) * cb) M0
      (roundMem (\<lambda>r. (r + n - 1) mod n) (\<lambda>r. rsSendPtr (send r) premul n cb (scr r) r s) (\<lambda>_. cb) (\<lambda>r. rsRecvPtr (scr r) cb s) M)"
    if M: "rsHolds n (\<lambda>r. rsSendPtr (send r) premul n cb (scr r) r s) cb V scr ((if premul then 3 else 2) * cb) M0 M" for M
    unfolding rsHolds_def roundMem_def
  proof (intro conjI allI impI frame_wr)
    fix r assume "r < n"
    moreover have "(r + n - 1) mod n < n" using n by simp
    ultimately show "rd (wr (M r) (rsRecvPtr (scr r) cb s) (rd (M ((r + n - 1) mod n))
        (rsSendPtr (send ((r + n - 1) mod n)) premul n cb (scr ((r + n - 1) mod n)) ((r + n - 1) mod n) s) cb))
        (rsRecvPtr (scr r) cb s) cb = V ((r + n - 1) mod n)"
      using M unfolding rd_wr_same [OF length_rd] by (simp add: rsHolds_def)
  next
    show "frame {..<n} scr ((if premul then 3 else 2) * cb) M0 M" using M by (simp add: rsHolds_def)
  qed (use rsOk_ptrs(1,2) [OF ok] in simp_all)
qed (use ok in \<open>auto simp: rsOk_def\<close>)

lemma rs_mid_phase:
  assumes ok: "rsOk n c0 dt op premul cb send recv scr" and cb: "cb = cnt * vcclTypeSize dt" and s: "s < n - 2"
  defines "k \<equiv> (if premul then 3 else 2) * cb"
  shows "phase {..<n} c0 (\<lambda>_. []) (\<lambda>r. rsHop (send r) (recv r) cnt dt op premul scalar n r (scr r) s) (\<lambda>_. [])
    (rsHolds n (\<lambda>r. rsRecvPtr (scr r) cb s) cb (\<lambda>r. rsVal n c0 dt op premul scalar cnt send M0 s ((r + n - 1) mod n)) scr k M0)
    (rsHolds n (\<lambda>r. rsSendPtr (send r) premul n cb (scr r) r (Suc s)) cb (rsVal n c0 dt op premul scalar cnt send M0 (Suc s)) scr k M0)"
proof (rule phase_local [where F = "\<lambda>M r. wr (M r) (rsRecvPtr (scr r) cb s) (rsAdd (fp (c0 r)) dt op premul scalar cnt
    (rd (M r) (rsRecvPtr (scr r) cb s) cb) (rd (M r) (send r + ((r + 2 * n - s - 2) mod n) * cb) cb))"], goal_cases)
  case (1 M r)
  then have j: "(r + 2 * n - s - 2) mod n < n" by auto
  have t: "dt \<noteq> vcclNumTypes" "0 \<le> op" "op < vcclNumOps" "premul \<Longrightarrow> isFloatType dt" using ok by (auto simp: rsOk_def opOk_def)
  show ?case
    using 1 s t rsOk_ptrs(3) [OF ok _ j, of r s]
    by (simp add: rsHop_def Let_def cb [symmetric] rsAdd_def reduceC_Ret [where n = cnt and dt = dt, folded cb] scaledAccumulateC_Ret [where n = cnt and dt = dt, folded cb] freeOf_def)
      (auto simp: upd_def)
next
  case (2 M)
  have len: "length (rsAdd f dt op premul scalar cnt x y) = cb" for f x y
    using ok by (auto simp: rsAdd_def rsOk_def opOk_def cb)
  have j: "(r + 2 * n - s - 2) mod n < n" for r using ok by (simp add: rsOk_def)
  have fr: "frame {..<n} scr k M0 M" using 2 by (simp add: rsHolds_def)
  show ?case
    unfolding rsHolds_def
  proof (intro conjI allI impI frame_wr [OF fr])
    fix r assume r: "r < n"
    show "rd (wr (M r) (rsRecvPtr (scr r) cb s) (rsAdd (fp (c0 r)) dt op premul scalar cnt
        (rd (M r) (rsRecvPtr (scr r) cb s) cb) (rd (M r) (send r + ((r + 2 * n - s - 2) mod n) * cb) cb)))
        (rsSendPtr (send r) premul n cb (scr r) r (Suc s)) cb = rsVal n c0 dt op premul scalar cnt send M0 (Suc s) r"
      using 2 r rs_local [OF ok fr [unfolded k_def] r j, of r]
      by (simp add: rsSendPtr_def rd_wr_same len rsVal_def rsHolds_def cb [symmetric])
  qed (use rsOk_ptrs(1,2) [OF ok] in \<open>auto simp: len k_def\<close>)
qed

text \<open>The last hop: the own block goes to the receive buffer and takes the arrived partial in.\<close>

lemma rs_last_index:
  fixes n r :: nat
  assumes "2 \<le> n" "r < n"
  shows "(r + 2 * n - (n - 2) - 2) mod n = r"
proof -
  have "r + 2 * n - (n - 2) - 2 = r + n" using assms by simp
  then show ?thesis using assms by simp
qed

definition rsEnd ::
  "nat \<Rightarrow> (nat \<Rightarrow> ctx) \<Rightarrow> vcclDataType_t \<Rightarrow> vcclRedOp_t \<Rightarrow> bool \<Rightarrow> 64 word \<Rightarrow> nat \<Rightarrow> (nat \<Rightarrow> addr) \<Rightarrow> (nat \<Rightarrow> mem) \<Rightarrow> nat \<Rightarrow> byte list" where
  "rsEnd n c0 dt op premul scalar cnt send M0 r = vred (fp (c0 r)) dt op cnt
     (rsFirst (fp (c0 r)) dt premul scalar cnt (rd (M0 r) (send r + r * (cnt * vcclTypeSize dt)) (cnt * vcclTypeSize dt)))
     (rsVal n c0 dt op premul scalar cnt send M0 (n - 2) ((r + n - 1) mod n))"

definition rsMid ::
  "nat \<Rightarrow> (nat \<Rightarrow> addr) \<Rightarrow> (nat \<Rightarrow> addr) \<Rightarrow> nat \<Rightarrow> (nat \<Rightarrow> byte list) \<Rightarrow> (nat \<Rightarrow> byte list) \<Rightarrow> (nat \<Rightarrow> addr) \<Rightarrow> nat
    \<Rightarrow> (nat \<Rightarrow> mem) \<Rightarrow> (nat \<Rightarrow> mem) \<Rightarrow> bool" where
  "rsMid n recv p cb x V scr k M0 M \<longleftrightarrow> (\<forall>r<n. rd (M r) (recv r) cb = x r \<and> rd (M r) (p r) cb = V r) \<and>
     frame2 {..<n} recv cb scr k M0 M"

lemma rs_copy_phase:
  assumes ok: "rsOk n c0 dt op premul cb send recv scr" and cb: "cb = cnt * vcclTypeSize dt"
  defines "k \<equiv> (if premul then 3 else 2) * cb"
  shows "phase {..<n} c0 (\<lambda>_. []) (\<lambda>r. if premul then scaleCopyC dt (recv r) (send r + r * cb) cnt scalar
      else cwhen (recv r \<noteq> send r + r * cb) (memcpy (recv r) (send r + r * cb) cb)) (\<lambda>_. [])
    (rsHolds n (\<lambda>r. rsRecvPtr (scr r) cb s) cb V scr k M0)
    (rsMid n recv (\<lambda>r. rsRecvPtr (scr r) cb s) cb
       (\<lambda>r. rsFirst (fp (c0 r)) dt premul scalar cnt (rd (M0 r) (send r + r * cb) cb)) V scr k M0)"
proof (rule phase_local [where F = "\<lambda>M r. wr (M r) (recv r) (rsFirst (fp (c0 r)) dt premul scalar cnt (rd (M r) (send r + r * cb) cb))"], goal_cases)
  case (1 M r)
  have "slotOk (recv r) (send r + r * cb) cb" "premul \<Longrightarrow> isFloatType dt" using ok 1 by (auto simp: rsOk_def)
  then show ?case
    by (cases premul; cases "recv r = send r + r * cb")
      (auto simp: slotOk_def rsFirst_def cwhen_def ok_def scaleCopyC_Ret [where n = cnt and dt = dt, folded cb] memcpy_Ret freeOf_def, simp_all add: upd_def)
next
  case (2 M)
  have fr: "frame {..<n} scr k M0 M" using 2 by (simp add: rsHolds_def)
  have "rd (M r) (send r + r * cb) cb = rd (M0 r) (send r + r * cb) cb" if "r < n" for r
    using rs_local [OF ok fr [unfolded k_def] that that] .
  moreover have "length (rsFirst f dt premul scalar cnt (rd m p cb)) = cb" for f m p
    using ok by (simp add: rsFirst_def rsOk_def cb)
  ultimately show ?case
    using 2 rsOk_ptrs(5) [OF ok] fr
    by (auto simp: rsMid_def rsHolds_def rd_wr_same rd_wr_disj disj_sym frame2_def frame_def wr_outside)
qed

lemma rs_final_phase:
  assumes ok: "rsOk n c0 dt op premul cb send recv scr" and cb: "cb = cnt * vcclTypeSize dt"
  shows "phase {..<n} c0 (\<lambda>_. []) (\<lambda>r. reduceC dt op (recv r) (rsRecvPtr (scr r) cb s) cnt) (\<lambda>_. [])
    (rsMid n recv (\<lambda>r. rsRecvPtr (scr r) cb s) cb x V scr k M0)
    (\<lambda>M. holdsAll n recv cb (\<lambda>r. vred (fp (c0 r)) dt op cnt (x r) (V r)) M \<and> frame2 {..<n} recv cb scr k M0 M)"
proof (rule phase_local [where F = "\<lambda>M r. wr (M r) (recv r) (vred (fp (c0 r)) dt op cnt (x r) (V r))"], goal_cases)
  case (1 M r)
  have "dt \<noteq> vcclNumTypes" "0 \<le> op" "op < vcclNumOps" using ok by (auto simp: rsOk_def opOk_def)
  then show ?case
    using 1 rsOk_ptrs(5) [OF ok, of r s]
    by (simp add: reduceC_Ret [where n = cnt and dt = dt, folded cb] freeOf_def disj_sym rsMid_def) (simp add: upd_def)
next
  case (2 M)
  have "length (vred f dt op cnt a b) = cb" for f a b using ok by (auto simp: rsOk_def opOk_def cb)
  with 2 show ?case by (auto simp: rsMid_def holdsAll_def rd_wr_same frame2_def wr_outside)
qed

lemma rs_scale_phase:
  assumes "op = vcclAvg \<Longrightarrow> isFloatType dt" and cb: "cb = cnt * vcclTypeSize dt"
  shows "phase {..<n} c0 (\<lambda>_. []) (\<lambda>r. cwhen (op = vcclAvg) (scaleC dt (recv r) cnt (\<lambda>f. d_recip f n))) (\<lambda>_. [])
    (\<lambda>M. holdsAll n recv cb x M \<and> frame2 {..<n} recv cb scr k M0 M)
    (\<lambda>M. holdsAll n recv cb (\<lambda>r. avgScale (fp (c0 r)) dt op n cnt (x r)) M \<and> frame2 {..<n} recv cb scr k M0 M)"
proof (cases "op = vcclAvg")
  case True
  show ?thesis
  proof (rule phase_local [where F = "\<lambda>M r. wr (M r) (recv r) (avgScale (fp (c0 r)) dt op n cnt (x r))"], goal_cases)
    case (1 M r)
    then show ?case using assms(1) True
      by (simp add: cwhen_def scaleC_Ret [where n = cnt and dt = dt, folded cb] freeOf_def avgScale_def holdsAll_def) (simp add: upd_def)
  next
    case (2 M)
    then show ?case using assms True by (auto simp: holdsAll_def rd_wr_same avgScale_def frame2_def wr_outside)
  qed
next
  case False
  then show ?thesis by (simp add: cwhen_def avgScale_def phase_ok)
qed

lemma rsHop_last:
  assumes "2 \<le> n" "r < n" "cb = cnt * vcclTypeSize dt"
  shows "rsHop send recv cnt dt op premul scalar n r scr (n - 2) =
    check (if premul then scaleCopyC dt recv (send + r * cb) cnt scalar
      else cwhen (recv \<noteq> send + r * cb) (memcpy recv (send + r * cb) cb)) (reduceC dt op recv (rsRecvPtr scr cb (n - 2)) cnt)"
  unfolding rsHop_def Let_def rs_last_index [OF assms(1,2)] assms(3) by simp

lemma rsCmd_phase:
  assumes ok: "rsOk n c0 dt op premul cb send recv scr" and cb: "cb = cnt * vcclTypeSize dt"
  defines "k \<equiv> (if premul then 3 else 2) * cb"
  shows "phase {..<n} c0 (\<lambda>_. []) (\<lambda>r. rsCmd (send r) (recv r) cnt dt op premul scalar n r (scr r)) (\<lambda>_. [])
    (\<lambda>M. M = M0)
    (\<lambda>M. holdsAll n recv cb (\<lambda>r. avgScale (fp (c0 r)) dt op n cnt (rsEnd n c0 dt op premul scalar cnt send M0 r)) M \<and>
       frame2 {..<n} recv cb scr k M0 M)"
proof -
  have n: "2 \<le> n" using ok by (simp add: rsOk_def)
  let ?V = "rsVal n c0 dt op premul scalar cnt send M0"
  let ?E = "\<lambda>M. holdsAll n recv cb (rsEnd n c0 dt op premul scalar cnt send M0) M \<and> frame2 {..<n} recv cb scr k M0 M"
  let ?J = "\<lambda>s. if s = n - 1 then ?E else rsHolds n (\<lambda>r. rsSendPtr (send r) premul n cb (scr r) r s) cb (?V s) scr k M0"
  let ?H = "\<lambda>s. rsHolds n (\<lambda>r. rsRecvPtr (scr r) cb s) cb (\<lambda>r. ?V s ((r + n - 1) mod n)) scr k M0"
  let ?x = "\<lambda>r s. sendRecv ((r + 1) mod n) (rsSendPtr (send r) premul n cb (scr r) r s) cb ((r + n - 1) mod n) (rsRecvPtr (scr r) cb s) cb"
  let ?hop = "\<lambda>r. rsHop (send r) (recv r) cnt dt op premul scalar n r (scr r)"
  have hop: "phase {..<n} c0 (\<lambda>_. []) (\<lambda>r. ?hop r s) (\<lambda>_. []) (?H s) (?J (Suc s))" if s: "s < n - 1" for s
  proof (cases "s = n - 2")
    case True
    have "phase {..<n} c0 (\<lambda>_. []) (\<lambda>r. check (if premul then scaleCopyC dt (recv r) (send r + r * cb) cnt scalar
        else cwhen (recv r \<noteq> send r + r * cb) (memcpy (recv r) (send r + r * cb) cb))
        (reduceC dt op (recv r) (rsRecvPtr (scr r) cb s) cnt)) (\<lambda>_. []) (?H s) ?E"
      unfolding k_def
      by (rule phase_check [OF rs_copy_phase [OF ok cb] phase_conseq [OF rs_final_phase [OF ok cb]]])
        (auto simp: holdsAll_def rsEnd_def cb True)
    then show ?thesis
      using True n by (subst phase_cong) (auto simp: rsHop_last [OF n _ cb])
  next
    case False
    then have "s < n - 2" "Suc s \<noteq> n - 1" using s by auto
    then show ?thesis using rs_mid_phase [OF ok cb, of s] by (simp add: k_def)
  qed
  have loop: "phase {..<n} c0 (\<lambda>_. []) (\<lambda>r. loop (n - 1) (\<lambda>s. check (?x r s) (?hop r s))) (\<lambda>_. []) (?J 0) (?J (n - 1))"
  proof (rule phase_loop [where q = "\<lambda>_ _. []" and J = ?J])
    fix s assume s: "s < n - 1"
    then have "?J s = rsHolds n (\<lambda>r. rsSendPtr (send r) premul n cb (scr r) r s) cb (?V s) scr k M0" by simp
    then show "phase {..<n} c0 (\<lambda>_. []) (\<lambda>r. check (?x r s) (?hop r s)) (\<lambda>_. []) (?J s) (?J (Suc s))"
      using phase_check [OF rs_round_phase [OF ok cb] hop [OF s, unfolded k_def]] by (simp only: k_def)
  qed
  have J: "?J 0 = rsHolds n (\<lambda>r. rsSendPtr (send r) premul n cb (scr r) r 0) cb (?V 0) scr k M0" "?J (n - 1) = ?E"
    using n by auto
  show ?thesis
    unfolding rsCmd_def Let_def cb [symmetric]
    by (rule phase_check [OF rs_first_phase [OF ok cb, folded k_def] phase_check [OF loop [unfolded J] rs_scale_phase [OF _ cb]]])
      (use ok in \<open>auto simp: rsOk_def opOk_def\<close>)
qed

subsection \<open>The collective\<close>

text \<open>Closed form: block \<open>j\<close> starts at rank \<open>j + 1\<close>, goes once around the ring and ends at rank \<open>j\<close>.\<close>

definition rsTour ::
  "(nat \<Rightarrow> byte list \<Rightarrow> byte list) \<Rightarrow> (nat \<Rightarrow> byte list \<Rightarrow> byte list \<Rightarrow> byte list) \<Rightarrow> (nat \<Rightarrow> byte list) \<Rightarrow> nat \<Rightarrow> nat \<Rightarrow> nat \<Rightarrow> byte list" where
  "rsTour first add x n j s =
     foldl (\<lambda>p r. add r p (x r)) (first ((j + 1) mod n) (x ((j + 1) mod n))) (map (\<lambda>t. (j + 2 + t) mod n) [0..<s])"

lemma behind_add: "t \<le> 2 * n \<Longrightarrow> behind n ((a + t) mod n) t = a mod n"
  by (simp add: behind_mod) (simp add: behind_def)

lemma rsPartial_tour:
  assumes "2 \<le> n" "j < n"
  shows "s < n - 1 \<Longrightarrow> rsPartial first add X n s ((j + 1 + s) mod n) = rsTour first add (\<lambda>r. X r j) n j s"
proof (induction s)
  case 0
  have "((j + 1) mod n + n - 1) mod n = j" using behind_add [of 1 n j] assms by (simp add: behind_one)
  then show ?case by (simp add: rsTour_def)
next
  case (Suc s)
  let ?r = "(j + 1 + Suc s) mod n"
  have prev: "(?r + n - 1) mod n = (j + 1 + s) mod n"
    using behind_add [of 1 n "j + 1 + s"] assms by (simp add: behind_one)
  have blk: "(?r + 2 * n - s - 2) mod n = j"
    using behind_add [of "s + 2" n j] Suc.prems assms by (simp add: behind_def)
  have "rsPartial first add X n (Suc s) ?r = add ?r (rsTour first add (\<lambda>r. X r j) n j s) (X ?r j)"
    unfolding rsPartial.simps prev blk using Suc by simp
  then show ?case by (simp add: rsTour_def)
qed

definition rsResult ::
  "(nat \<Rightarrow> fpu) \<Rightarrow> vcclDataType_t \<Rightarrow> vcclRedOp_t \<Rightarrow> bool \<Rightarrow> 64 word \<Rightarrow> nat \<Rightarrow> nat \<Rightarrow> (nat \<Rightarrow> byte list) \<Rightarrow> nat \<Rightarrow> byte list" where
  "rsResult F dt op premul scalar n cnt x r =
     (if n = 1 \<or> cnt = 0 then contrib (F r) dt premul scalar cnt (x r)
      else avgScale (F r) dt op n cnt (vred (F r) dt op cnt (rsFirst (F r) dt premul scalar cnt (x r))
        (rsTour (\<lambda>j. rsFirst (F j) dt premul scalar cnt) (\<lambda>j. rsAdd (F j) dt op premul scalar cnt) x n r (n - 2))))"

lemma rsEnd_tour:
  assumes "2 \<le> n" "r < n" "cb = cnt * vcclTypeSize dt"
  shows "rsEnd n c0 dt op premul scalar cnt send M0 r = vred (fp (c0 r)) dt op cnt
    (rsFirst (fp (c0 r)) dt premul scalar cnt (rd (M0 r) (send r + r * cb) cb))
    (rsTour (\<lambda>j. rsFirst (fp (c0 j)) dt premul scalar cnt) (\<lambda>j. rsAdd (fp (c0 j)) dt op premul scalar cnt)
       (\<lambda>j. rd (M0 j) (send j + r * cb) cb) n r (n - 2))"
proof -
  have "r + 1 + (n - 2) = r + n - 1" using assms(1) by simp
  then show ?thesis
    using rsPartial_tour [of n r "n - 2"] assms by (simp add: rsEnd_def rsVal_def)
qed

lemma rsTour_cong:
  assumes "0 < n" "\<And>r y. r < n \<Longrightarrow> first r y = first' r y \<and> x r = x' r" "\<And>r p y. r < n \<Longrightarrow> add r p y = add' r p y"
  shows "rsTour first add x n j s = rsTour first' add' x' n j s"
  unfolding rsTour_def using assms by (intro foldl_cong) auto

lemma rsResult_cong:
  "(\<And>r. r < n \<Longrightarrow> F r = F' r \<and> x r = x' r) \<Longrightarrow> r < n \<Longrightarrow>
   rsResult F dt op premul scalar n cnt x r = rsResult F' dt op premul scalar n cnt x' r"
  using rsTour_cong [of n "\<lambda>j. rsFirst (F j) dt premul scalar cnt" "\<lambda>j. rsFirst (F' j) dt premul scalar cnt" x x'
    "\<lambda>j. rsAdd (F j) dt op premul scalar cnt" "\<lambda>j. rsAdd (F' j) dt op premul scalar cnt" r "n - 2"]
  by (simp add: rsResult_def)

lemma rsCmd_works:
  assumes c: "ready n c" and n: "2 \<le> n" and op: "opOk dt op" "premul \<longrightarrow> isFloatType dt" and cb: "cb = cnt * vcclTypeSize dt"
    and b: "\<And>r. r < n \<Longrightarrow> scratchSafe (c r) (send r) (n * cb) \<and> scratchSafe (c r) (recv r) cb \<and> slotOk (recv r) (send r + r * cb) cb"
    and cnt: "cnt \<noteq> 0"
  shows "works n c (\<lambda>r. withScratch ((if premul then 3 else 2) * cb) (rsCmd (send r) (recv r) cnt dt op premul scalar n r)) recv cb
    (holdsAll n recv cb (\<lambda>r. rsResult (\<lambda>r. fp (c r)) dt op premul scalar n cnt (\<lambda>j. rd (mem (c j)) (send j + r * cb) cb) r))"
proof -
  define k where "k = (if premul then 3 else 2) * cb"
  let ?c = "\<lambda>r. scrCtx k (c r)" and ?M = "\<lambda>r. mem (scrCtx k (c r))" and ?s = "\<lambda>r. scrAddr k (c r)"
  have ok: "rsOk n ?c dt op premul cb send recv ?s"
    using n op b scrCtx_facts(4) [of "c _" _ _ k] ready_scrCtx [OF c, of k] by (auto simp: rsOk_def k_def)
  have eq: "avgScale (fp (c r)) dt op n cnt (rsEnd n ?c dt op premul scalar cnt send ?M r) =
      rsResult (\<lambda>r. fp (c r)) dt op premul scalar n cnt (\<lambda>j. rd (mem (c j)) (send j + r * cb) cb) r" if r: "r < n" for r
  proof -
    have "rd (?M j) (send j + r * cb) cb = rd (mem (c j)) (send j + r * cb) cb" if "j < n" for j
      using b [OF that] elem_le [OF r, of cb] by (intro scrCtx_rd [OF scratchSafe_sub [of "c j" "send j" "n * cb"]]) auto
    then have "rsResult (\<lambda>r. fp (c r)) dt op premul scalar n cnt (\<lambda>j. rd (mem (c j)) (send j + r * cb) cb) r =
        rsResult (\<lambda>r. fp (c r)) dt op premul scalar n cnt (\<lambda>j. rd (?M j) (send j + r * cb) cb) r"
      by (intro rsResult_cong r) simp
    also have "\<dots> = avgScale (fp (c r)) dt op n cnt (rsEnd n ?c dt op premul scalar cnt send ?M r)"
      unfolding rsEnd_tour [OF n r cb] using n cnt by (simp add: rsResult_def)
    finally show ?thesis ..
  qed
  show ?thesis
    unfolding k_def [symmetric]
    by (rule works_scratch_phase [where body = "\<lambda>r. rsCmd (send r) (recv r) cnt dt op premul scalar n r", OF c
          rsCmd_phase [OF ok cb, where scalar = scalar and ?M0.0 = ?M, folded k_def]])
      (auto simp: holdsAll_def eq)
qed

lemma doReduceScatter_works:
  assumes c: "ready n c" and op: "opOk dt op" "premul \<longrightarrow> isFloatType dt" and cb: "cb = cnt * vcclTypeSize dt"
    and b: "\<And>r. r < n \<Longrightarrow> scratchSafe (c r) (send r) (n * cb) \<and> scratchSafe (c r) (recv r) cb \<and> slotOk (recv r) (send r + r * cb) cb"
  shows "works n c (\<lambda>r. doReduceScatter (send r) (recv r) cnt dt op premul scalar) recv cb
    (holdsAll n recv cb (\<lambda>r. rsResult (\<lambda>r. fp (c r)) dt op premul scalar n cnt (\<lambda>j. rd (mem (c j)) (send j + r * cb) cb) r))"
    (is "works _ _ _ _ _ ?Q")
proof -
  let ?body = "\<lambda>r. if n = 1 \<or> cnt = 0 then
        check (cwhen (cnt > 0 \<and> send r \<noteq> recv r) (memcpy (recv r) (send r) cb)) (cwhen premul (scaleC dt (recv r) cnt (\<lambda>_. scalar)))
      else withScratch ((if premul then 3 else 2) * cb) (rsCmd (send r) (recv r) cnt dt op premul scalar n r)"
  have "works n c (\<lambda>r. scoped (check (regAdd (send r) (n * cb)) (?body r))) recv cb ?Q"
  proof (rule works_scoped [OF c], rule works_check [OF laterD(1)], assumption)
    fix c1 assume 1: "later n c c1 recv cb" and m1: "\<And>r. r < n \<Longrightarrow> mem (c1 r) = mem (c r)"
    show "works n c1 (\<lambda>r. regAdd (send r) (n * cb)) recv cb (\<lambda>M. \<forall>r<n. M r = mem (c r))"
      using 1 m1 by (intro works_regAdd) (auto simp: laterD)
    fix c2 assume 2: "later n c1 c2 recv cb" and m2: "\<forall>r<n. mem (c2 r) = mem (c r)"
    have f2: "fp (c2 r) = fp (c r)" if "r < n" for r using laterD(6) [OF 1 that] laterD(6) [OF 2 that] by simp
    show "works n c2 ?body recv cb ?Q"
    proof (cases "n = 1 \<or> cnt = 0")
      case True
      have "works n c2 (\<lambda>r. cwhen (cnt > 0 \<and> send r \<noteq> recv r) (memcpy (recv r) (send r) cb)) recv cb
          (\<lambda>M. \<forall>r<n. rd (M r) (recv r) cb = rd (mem (c r)) (send r + r * cb) cb)"
      proof (cases "cnt = 0")
        case True
        then show ?thesis using laterD(1) [OF 2] by (simp add: cwhen_def works_ok cb)
      next
        case False
        with True have "n = 1" by simp
        then show ?thesis
          using works_conseq [OF works_copy [OF laterD(1) [OF 2], of recv send cb recv "\<lambda>_. cb"]] b m2 False by auto
      qed
      then have "works n c2 (\<lambda>r. check (cwhen (cnt > 0 \<and> send r \<noteq> recv r) (memcpy (recv r) (send r) cb))
          (cwhen premul (scaleC dt (recv r) cnt (\<lambda>_. scalar)))) recv cb ?Q"
      proof (rule works_check [OF laterD(1) [OF 2]])
        fix c3 assume 3: "later n c2 c3 recv cb" and m3: "\<forall>r<n. rd (mem (c3 r)) (recv r) cb = rd (mem (c r)) (send r + r * cb) cb"
        show "works n c3 (\<lambda>r. cwhen premul (scaleC dt (recv r) cnt (\<lambda>_. scalar))) recv cb ?Q"
          by (rule works_conseq [OF works_scale [OF laterD(1) [OF 3]]])
            (use op m3 f2 laterD(6) [OF 3] True in \<open>auto simp: holdsAll_def Let_def cb rsResult_def contrib_def\<close>)
      qed
      with True show ?thesis by simp
    next
      case False
      then have n: "2 \<le> n" "cnt \<noteq> 0" using c by (auto simp: ready_def)
      have safe: "scratchSafe (c2 r) p l" if "r < n" "scratchSafe (c r) p l" for r p l
        using laterD(8) [OF 2 that(1)] laterD(8) [OF 1 that] by blast
      have "works n c2 (\<lambda>r. withScratch ((if premul then 3 else 2) * cb) (rsCmd (send r) (recv r) cnt dt op premul scalar n r)) recv cb
        (holdsAll n recv cb (\<lambda>r. rsResult (\<lambda>r. fp (c2 r)) dt op premul scalar n cnt (\<lambda>j. rd (mem (c2 j)) (send j + r * cb) cb) r))"
        using b safe by (intro rsCmd_works [OF laterD(1) [OF 2] n(1) op cb _ n(2)]) blast
      moreover have "rsResult (\<lambda>r. fp (c2 r)) dt op premul scalar n cnt (\<lambda>j. rd (mem (c2 j)) (send j + r * cb) cb) r =
          rsResult (\<lambda>r. fp (c r)) dt op premul scalar n cnt (\<lambda>j. rd (mem (c j)) (send j + r * cb) cb) r" if "r < n" for r
        using f2 m2 by (intro rsResult_cong that) simp
      ultimately show ?thesis using False by (auto elim!: works_conseq simp: holdsAll_def)
    qed
  qed
  moreover have "doReduceScatter (send r) (recv r) cnt dt op premul scalar (c r) =
      scoped (check (regAdd (send r) (n * cb)) (?body r)) (c r)" if "r < n" for r
    using ready_rank [OF c that] unfolding cb by (intro doReduceScatter_eq) simp_all
  ultimately show ?thesis by (subst works_cong)
qed

subsection \<open>Without a custom operator every contribution is combined once\<close>

lemma rsTour_bracketing:
  assumes "0 < n" "\<And>r. r < n \<Longrightarrow> red r \<in> R"
  shows "bracketing R x (mset (map (\<lambda>t. (j + 1 + t) mod n) [0..<Suc s])) (rsTour (\<lambda>_ y. y) red x n j s)"
proof (induction s)
  case 0
  then show ?case using leaf [of R x "(j + 1) mod n"] by (simp add: rsTour_def)
next
  case (Suc s)
  let ?r = "(j + 2 + s) mod n"
  have "bracketing R x (mset (map (\<lambda>t. (j + 1 + t) mod n) [0..<Suc s]) + {#?r#}) (red ?r (rsTour (\<lambda>_ y. y) red x n j s) (x ?r))"
    using assms by (intro node [where f = "red ?r"] Suc leaf) simp
  then show ?case by (simp add: rsTour_def add_mset_commute)
qed

lemma rsResult_elem:
  assumes op: "opOk dt op" and r: "r < n" and i: "i < cnt"
  shows "reducedElem F dt op n (\<lambda>j. elemAt (vcclTypeSize dt) i (x j)) (elemAt (vcclTypeSize dt) i (rsResult F dt op False scalar n cnt x r))"
proof (cases "n = 1")
  case True
  then show ?thesis
    using leaf [of "elemOps F n dt op" "\<lambda>j. elemAt (vcclTypeSize dt) i (x j)" 0] r
    by (auto simp: rsResult_def contrib_def reducedElem_def)
next
  case False
  then have n: "1 < n" using r by simp
  let ?red = "\<lambda>j. vred (F j) dt op cnt" and ?v = "rsTour (\<lambda>_ y. y) (\<lambda>j. vred (F j) dt op cnt) x n r (n - 2)"
  have "[0..<n] = 0 # map Suc [0..<Suc (n - 2)]" using n by (simp add: map_Suc_upt upt_conv_Cons Suc_diff_Suc numeral_2_eq_2 del: upt_Suc)
  then have "mset (map (\<lambda>t. (r + t) mod n) [0..<n]) = {#r#} + mset (map (\<lambda>t. (r + 1 + t) mod n) [0..<Suc (n - 2)])"
    using r by (simp only: list.map map_map comp_def mset.simps) simp
  then have m: "mset [0..<n] = {#r#} + mset (map (\<lambda>t. (r + 1 + t) mod n) [0..<Suc (n - 2)])"
    by (simp only: mset_ring [OF r])
  have "bracketing (?red ` {..<n}) x (mset (map (\<lambda>t. (r + 1 + t) mod n) [0..<Suc (n - 2)])) ?v"
    using n by (intro rsTour_bracketing) auto
  then have "bracketing (?red ` {..<n}) x (mset [0..<n]) (?red r (x r) ?v)"
    unfolding m using r by (intro node [where f = "?red r"] leaf) auto
  from reducedElem_avgScale [OF op n r i this] show ?thesis
    using n i by (simp add: rsResult_def rsFirst_def [abs_def] rsAdd_def [abs_def])
qed

subsection \<open>The entry point\<close>

lemma vcclReduceScatter_finishes:
  assumes c: "callable n c cp t" and dt: "dt \<noteq> vcclNumTypes" and cb: "cb = cnt * vcclTypeSize dt"
    and op: "\<And>r. r < n \<Longrightarrow> resolveOp (comm (c r)) dt op = Inr (op', premul, scalar)"
    and b: "\<And>r. r < n \<Longrightarrow> send r \<noteq> 0 \<and> recv r \<noteq> 0 \<and> scratchSafe (c r) (send r) (n * cb) \<and>
      scratchSafe (c r) (recv r) cb \<and> slotOk (recv r) (send r + r * cb) cb"
  shows "finishes n (\<lambda>r. snd (vcclReduceScatter (send r) (recv r) cnt dt op (cp r) (t r) (c r)))
    (\<lambda>r c'. rd (mem c') (recv r) cb = rsResult (\<lambda>r. fp (c r)) dt op' premul scalar n cnt (\<lambda>j. rd (mem (c j)) (send j + r * cb) cb) r \<and>
       keeps (c r) (mem c') (recv r) cb \<and> ctxFrame (c r) c' \<and> posted c' = [])"
proof (rule entry_finishes [where call = "\<lambda>r. vcclReduceScatter (send r) (recv r) cnt dt op (cp r) (t r)"])
  have n: "ready n c" "0 < n" using c by (auto simp: callable_def ready_def)
  have ok: "opOk dt op'" "premul \<longrightarrow> isFloatType dt" using resolveOp_ok [OF op dt] n(2) by blast+
  show "runs {..<n} (\<lambda>r. doReduceScatter (send r) (recv r) cnt dt op' premul scalar) c (\<lambda>M.
      (\<forall>r<n. keeps (c r) (M r) (recv r) cb) \<and> holdsAll n recv cb
        (\<lambda>r. rsResult (\<lambda>r. fp (c r)) dt op' premul scalar n cnt (\<lambda>j. rd (mem (c j)) (send j + r * cb) cb) r) M)"
    using b by (intro works_runs doReduceScatter_works n ok cb) auto
qed (use b c dt op callable_args callable_checks in \<open>auto simp: vcclReduceScatter_def runOp_outside holdsAll_def\<close>)

end
