(* ===== verification/Vccl_ReduceRoot.thy ===== *)
theory Vccl_ReduceRoot
  imports Vccl_Broadcast Vccl_ReduceScatter
begin

text \<open>
  Reduce to a root: each piece starts at the rank after the root, every rank on the way adds its own
  data to the partial in its scratch space, and the root combines the partial that arrives with its
  own data. For each piece this is the tour of \<open>Vccl_ReduceScatter\<close>.
\<close>

definition redWork ::
  "addr \<Rightarrow> addr \<Rightarrow> vcclDataType_t \<Rightarrow> vcclRedOp_t \<Rightarrow> bool \<Rightarrow> 64 word \<Rightarrow> nat \<Rightarrow> nat \<Rightarrow> nat \<Rightarrow> addr \<Rightarrow> nat \<Rightarrow> nat \<Rightarrow> cmd" where
  "redWork send recv dt op premul scalar n r root scr off m =
     (if r = (root + 1) mod n then cwhen premul (scaleCopyC dt scr (send + off) m scalar)
      else if r = root then
        check (if premul then scaleCopyC dt (recv + off) (send + off) m scalar
               else cwhen (recv + off \<noteq> send + off) (memcpy (recv + off) (send + off) (m * vcclTypeSize dt)))
          (check (reduceC dt op (recv + off) scr m) (cwhen (op = vcclAvg) (scaleC dt (recv + off) m (\<lambda>f. d_recip f n))))
      else if premul then scaledAccumulateC dt scr (send + off) m scalar
      else reduceC dt op scr (send + off) m)"

definition redSend :: "addr \<Rightarrow> bool \<Rightarrow> nat \<Rightarrow> nat \<Rightarrow> nat \<Rightarrow> addr \<Rightarrow> nat \<Rightarrow> addr" where
  "redSend send premul n r root scr off = (if r = (root + 1) mod n \<and> \<not> premul then send + off else scr)"

lemma ring_next_ne: "2 \<le> n \<Longrightarrow> root < n \<Longrightarrow> (root + 1) mod n \<noteq> root" for n root :: nat
  by (auto simp: mod_if)

lemma ring_next_inj: "r < n \<Longrightarrow> root < n \<Longrightarrow> (r + 1) mod n = (root + 1) mod n \<longleftrightarrow> r = root" for n root r :: nat
  by (auto simp: mod_if split: if_splits)

lemma reducePiece_chain:
  assumes "rank (comm c) = r" "nranks (comm c) = n" "2 \<le> n" "r < n" "root < n" "len = m * vcclTypeSize dt" "dt \<noteq> vcclNumTypes"
  shows "reducePiece send recv dt op premul scalar root scr (off, len) c =
    chainCmd ((root + 1) mod n) n r scr (redSend send premul n r root scr off) len
      (redWork send recv dt op premul scalar n r root scr off m) c"
proof -
  have m: "len div vcclTypeSize dt = m" using assms(6,7) vcclTypeSize_pos [of dt] by simp
  show ?thesis
    unfolding reducePiece_def chainCmd_def next_rank_def prev_rank_def redWork_def redSend_def Let_def prod.case assms(1,2) m
      ring_next_inj [OF assms(4,5)] vseq_Cons vseq_Nil check_ok
    using ring_next_ne [OF assms(3,5)] assms(6) by (simp add: cwhen_def)
qed

text \<open>Scratch space is apart from the user buffers; the root's buffers are one or apart.\<close>

definition redOk ::
  "nat \<Rightarrow> (nat \<Rightarrow> ctx) \<Rightarrow> vcclDataType_t \<Rightarrow> vcclRedOp_t \<Rightarrow> bool \<Rightarrow> nat \<Rightarrow> (nat \<Rightarrow> addr) \<Rightarrow> addr \<Rightarrow> (nat \<Rightarrow> addr) \<Rightarrow> nat \<Rightarrow> bool" where
  "redOk n c0 dt op premul nb send recv scr root \<longleftrightarrow> world n c0 \<and> 2 \<le> n \<and> root < n \<and> opOk dt op \<and> (premul \<longrightarrow> isFloatType dt) \<and>
     (\<forall>r<n. disj (scr r) kPipeBytes (send r) nb) \<and> disj (scr root) kPipeBytes recv nb \<and> slotOk recv (send root) nb"

text \<open>What the work of a rank does to its memory.\<close>

definition redMem ::
  "(nat \<Rightarrow> fpu) \<Rightarrow> (nat \<Rightarrow> addr) \<Rightarrow> addr \<Rightarrow> vcclDataType_t \<Rightarrow> vcclRedOp_t \<Rightarrow> bool \<Rightarrow> 64 word \<Rightarrow> nat \<Rightarrow> nat \<Rightarrow> (nat \<Rightarrow> addr) \<Rightarrow> nat \<Rightarrow> nat
    \<Rightarrow> nat \<Rightarrow> mem \<Rightarrow> mem" where
  "redMem F send recv dt op premul scalar n root scr off m r M =
     (let len = m * vcclTypeSize dt; x = rd M (send r + off) len in
      if r = (root + 1) mod n then if premul then wr M (scr r) (rsFirst (F r) dt premul scalar m x) else M
      else if r = root then wr M (recv + off) (avgScale (F r) dt op n m (vred (F r) dt op m (rsFirst (F r) dt premul scalar m x) (rd M (scr r) len)))
      else wr M (scr r) (rsAdd (F r) dt op premul scalar m (rd M (scr r) len) x))"

lemma length_rsFirst [simp]: "(premul \<longrightarrow> isFloatType dt) \<Longrightarrow> length x = m * vcclTypeSize dt \<Longrightarrow>
    length (rsFirst f dt premul scalar m x) = m * vcclTypeSize dt"
  by (simp add: rsFirst_def)

lemma length_rsAdd [simp]: "opOk dt op \<Longrightarrow> (premul \<longrightarrow> isFloatType dt) \<Longrightarrow>
    length (rsAdd f dt op premul scalar m x y) = m * vcclTypeSize dt"
  by (simp add: rsAdd_def opOk_def)

lemma length_avgScale [simp]: "opOk dt op \<Longrightarrow> length x = m * vcclTypeSize dt \<Longrightarrow> length (avgScale f dt op n m x) = m * vcclTypeSize dt"
  by (auto simp: avgScale_def opOk_def)

lemma wr_wr_same: "length a = length b \<Longrightarrow> wr (wr m p a) p b = wr m p b"
  by (rule ext) (auto simp: wr_def)

lemma redWork_Ret:
  assumes ok: "redOk n c0 dt op premul nb send recv scr root" and r: "r < n" and len: "len = m * vcclTypeSize dt" "len \<le> kPipeBytes" "off + len \<le> nb"
  shows "redWork (send r) recv dt op premul scalar n r root (scr r) off m (upd c0 M (\<lambda>_. []) r) =
    Ret vcclSuccess (upd c0 (M(r := redMem (\<lambda>r. fp (c0 r)) send recv dt op premul scalar n root scr off m r (M r))) (\<lambda>_. []) r)"
proof -
  have t: "dt \<noteq> vcclNumTypes" "0 \<le> op" "op < vcclNumOps" "premul \<Longrightarrow> isFloatType dt" "op = vcclAvg \<Longrightarrow> isFloatType dt"
    and n: "2 \<le> n" "root < n" and ok2: "opOk dt op" "premul \<longrightarrow> isFloatType dt"
    using ok by (auto simp: redOk_def opOk_def)
  have ss: "disj (scr r) len (send r + off) len"
    using ok r len disj_sub_both [of "scr r" kPipeBytes "send r" nb "scr r" len "send r + off" len] by (auto simp: redOk_def)
  have sr: "disj (recv + off) len (scr root) len" and so: "slotOk (recv + off) (send root + off) len"
    using ok len disj_sub_both [of "scr root" kPipeBytes recv nb "scr root" len "recv + off" len]
      disj_sub_both [of recv nb "send root" nb "recv + off" len "send root + off" len]
    by (auto simp: redOk_def disj_sym slotOk_def)
  consider "r = (root + 1) mod n" | "r \<noteq> (root + 1) mod n" "r = root" | "r \<noteq> (root + 1) mod n" "r \<noteq> root" by blast
  then show ?thesis
  proof cases
    case 1
    then show ?thesis
      using ss t(4)
      by (cases premul) (simp_all add: redWork_def redMem_def Let_def cwhen_def ok_def rsFirst_def freeOf_def
          scaleCopyC_Ret [where n = m and dt = dt, folded len(1)] len(1) [symmetric])
  next
    case 2
    let ?u = "\<lambda>v. upd c0 (M(r := wr (M r) (recv + off) v)) (\<lambda>_. []) r"
    let ?x = "rsFirst (fp (c0 r)) dt premul scalar m (rd (M r) (send r + off) len)"
    let ?y = "vred (fp (c0 r)) dt op m ?x (rd (M r) (scr r) len)"
    have lens: "length ?x = len" "length ?y = len" using ok2 t len(1) by simp_all
    have copy: "(if premul then scaleCopyC dt (recv + off) (send r + off) m scalar
        else cwhen (recv + off \<noteq> send r + off) (memcpy (recv + off) (send r + off) len)) (upd c0 M (\<lambda>_. []) r) = Ret vcclSuccess (?u ?x)"
      using so 2 t(4) by (cases premul; cases "recv + off = send r + off")
        (auto simp: slotOk_def cwhen_def ok_def rsFirst_def freeOf_def memcpy_Ret
          scaleCopyC_Ret [where n = m and dt = dt, folded len(1)] simp flip: len(1))
    have red: "reduceC dt op (recv + off) (scr r) m (?u ?x) = Ret vcclSuccess (?u ?y)"
      using sr 2 t lens by (subst reduceC_Ret) (auto simp: freeOf_def rd_wr_same rd_wr_disj wr_wr_same simp flip: len(1))
    have scale: "cwhen (op = vcclAvg) (scaleC dt (recv + off) m (\<lambda>f. d_recip f n)) (?u ?y) =
        Ret vcclSuccess (?u (avgScale (fp (c0 r)) dt op n m ?y))"
      using t(5) lens by (cases "op = vcclAvg") (auto simp: cwhen_def ok_def avgScale_def freeOf_def rd_wr_same wr_wr_same
          scaleC_Ret [where n = m and dt = dt, folded len(1)] simp flip: len(1))
    have "redWork (send r) recv dt op premul scalar n r root (scr r) off m =
        check (if premul then scaleCopyC dt (recv + off) (send r + off) m scalar
          else cwhen (recv + off \<noteq> send r + off) (memcpy (recv + off) (send r + off) len))
          (check (reduceC dt op (recv + off) (scr r) m) (cwhen (op = vcclAvg) (scaleC dt (recv + off) m (\<lambda>f. d_recip f n))))"
      using 2 by (simp add: redWork_def len(1))
    then show ?thesis
      using 2 copy red scale by (simp add: check_def redMem_def Let_def len(1))
  next
    case 3
    then show ?thesis
      using ss t
      by (cases premul) (simp_all add: redWork_def redMem_def Let_def rsAdd_def freeOf_def len(1) [symmetric]
          scaledAccumulateC_Ret [where n = m and dt = dt, folded len(1)] reduceC_Ret [where n = m and dt = dt, folded len(1)])
  qed
qed

subsection \<open>One piece\<close>

abbreviation redTour ::
  "(nat \<Rightarrow> fpu) \<Rightarrow> vcclDataType_t \<Rightarrow> vcclRedOp_t \<Rightarrow> bool \<Rightarrow> 64 word \<Rightarrow> nat \<Rightarrow> (nat \<Rightarrow> byte list) \<Rightarrow> nat \<Rightarrow> nat \<Rightarrow> nat \<Rightarrow> byte list" where
  "redTour F dt op premul scalar m \<equiv> rsTour (\<lambda>j. rsFirst (F j) dt premul scalar m) (\<lambda>j. rsAdd (F j) dt op premul scalar m)"

lemma length_redTour:
  "opOk dt op \<Longrightarrow> (premul \<longrightarrow> isFloatType dt) \<Longrightarrow> (\<And>r. length (x r) = m * vcclTypeSize dt) \<Longrightarrow>
   length (redTour F dt op premul scalar m x n root i) = m * vcclTypeSize dt"
  by (cases i) (simp_all add: rsTour_def)

lemma red_tour:
  fixes send scr :: "nat \<Rightarrow> addr" and M :: "nat \<Rightarrow> mem" and scalar :: "64 word"
  assumes ok: "redOk n c0 dt op premul nb send recv scr root" and len: "len = m * vcclTypeSize dt" "len \<le> kPipeBytes" "off + len \<le> nb"
  defines "F \<equiv> \<lambda>r. fp (c0 r)" and "x \<equiv> \<lambda>r. rd (M r) (send r + off) len" and "sb \<equiv> \<lambda>r. redSend (send r) premul n r root (scr r) off"
  defines "C \<equiv> chainMem ((root + 1) mod n) n scr sb len (redMem F send recv dt op premul scalar n root scr off m) M"
  shows "i < n - 1 \<Longrightarrow> rd (C i) (sb ((root + 1 + i) mod n)) len = redTour F dt op premul scalar m x n root i \<and>
      (\<forall>a. a < scr ((root + 1 + i) mod n) \<or> scr ((root + 1 + i) mod n) + kPipeBytes \<le> a \<longrightarrow> C i a = M ((root + 1 + i) mod n) a)"
    (is "_ \<Longrightarrow> ?I i")
    and "C (n - 1) = wr (wr (M root) (scr root) (redTour F dt op premul scalar m x n root (n - 2))) (recv + off)
      (avgScale (F root) dt op n m (vred (F root) dt op m (rsFirst (F root) dt premul scalar m (x root))
        (redTour F dt op premul scalar m x n root (n - 2))))"
proof -
  have n: "2 \<le> n" "root < n" and op: "opOk dt op" "premul \<longrightarrow> isFloatType dt" using ok by (auto simp: redOk_def)
  have es: "length (x r) = m * vcclTypeSize dt" for r by (simp add: x_def len)
  have ss: "disj (scr r) len (send r + off) len" if "r < n" for r
    using ok that len disj_sub_both [of "scr r" kPipeBytes "send r" nb "scr r" len "send r + off" len] by (auto simp: redOk_def)
  have tl: "length (redTour F dt op premul scalar m x n root i) = len" for i
    using op es by (simp add: length_redTour len(1))
  have pos: "((root + 1) mod n + i) mod n = (root + 1 + i) mod n" for i by (simp add: mod_simps)
  have idx: "i = j" if "(root + 1 + i) mod n = (root + 1 + j) mod n" "i < n" "j < n" for i j
    using ring_shift(1) [of i n "(root + 1) mod n"] ring_shift(1) [of j n "(root + 1) mod n"] that n pos [of i] pos [of j]
    by (simp add: add.commute less_imp_le)
  have head: "(root + 1 + i) mod n = (root + 1) mod n \<longleftrightarrow> i = 0" if "i < n" for i using idx [of i 0] that by auto
  have last: "(root + 1 + (n - 1)) mod n = root" using n by simp
  have lst: "(root + 1 + i) mod n = root \<longleftrightarrow> i = n - 1" if "i < n" for i using idx [of i "n - 1"] that last by auto
  show I: "?I i" if "i < n - 1" for i
    using that
  proof (induction i)
    case 0
    have "C 0 = (if premul then wr (M ((root + 1) mod n)) (scr ((root + 1) mod n)) (rsFirst (F ((root + 1) mod n)) dt premul scalar m (x ((root + 1) mod n)))
        else M ((root + 1) mod n))"
      by (simp add: C_def redMem_def x_def Let_def len(1))
    then show ?case
      using op es len(2) by (auto simp: rsTour_def sb_def redSend_def rd_wr_same wr_outside x_def rsFirst_def len(1))
  next
    case (Suc i)
    let ?r = "(root + 1 + Suc i) mod n"
    have r: "?r \<noteq> (root + 1) mod n" "?r \<noteq> root" "?r < n" using Suc.prems head [of "Suc i"] lst [of "Suc i"] n by auto
    have IH: "rd (C i) (sb ((root + 1 + i) mod n)) len = redTour F dt op premul scalar m x n root i" using Suc by simp
    have "C (Suc i) = redMem F send recv dt op premul scalar n root scr off m ?r
        (wr (M ?r) (scr ?r) (redTour F dt op premul scalar m x n root i))"
      using IH unfolding C_def chainMem.simps Let_def pos by simp
    also have "\<dots> = wr (M ?r) (scr ?r) (rsAdd (F ?r) dt op premul scalar m (redTour F dt op premul scalar m x n root i) (x ?r))"
      using r ss [OF r(3)] tl op by (simp add: redMem_def Let_def x_def rd_wr_same rd_wr_disj wr_wr_same len(1))
    finally show ?case
      using r op len(2) by (simp add: sb_def redSend_def rd_wr_same wr_outside rsTour_def len(1))
  qed
  obtain k where k: "n - 1 = Suc k" "n - 2 = k" using n by (cases "n - 1") auto
  have IH: "rd (C k) (sb ((root + 1 + k) mod n)) len = redTour F dt op premul scalar m x n root k" using I [of k] k by simp
  have "C (Suc k) = redMem F send recv dt op premul scalar n root scr off m root
      (wr (M root) (scr root) (redTour F dt op premul scalar m x n root k))"
    using IH last unfolding C_def chainMem.simps Let_def pos k by simp
  then show "C (n - 1) = wr (wr (M root) (scr root) (redTour F dt op premul scalar m x n root (n - 2))) (recv + off)
      (avgScale (F root) dt op n m (vred (F root) dt op m (rsFirst (F root) dt premul scalar m (x root))
        (redTour F dt op premul scalar m x n root (n - 2))))"
    using ring_next_ne [OF n] ss [OF n(2)] tl unfolding k
    by (simp add: redMem_def Let_def x_def rd_wr_same rd_wr_disj len(1))
qed

subsection \<open>All pieces\<close>

definition pieceLen :: "nat \<Rightarrow> nat \<Rightarrow> nat" where
  "pieceLen nb off = min kPipeBytes (nb - off)"

text \<open>What the root ends with in the piece at \<open>off\<close>, for the ranks' data \<open>x\<close>.\<close>

definition redPiece ::
  "(nat \<Rightarrow> fpu) \<Rightarrow> vcclDataType_t \<Rightarrow> vcclRedOp_t \<Rightarrow> bool \<Rightarrow> 64 word \<Rightarrow> nat \<Rightarrow> nat \<Rightarrow> nat \<Rightarrow> (nat \<Rightarrow> byte list) \<Rightarrow> nat \<Rightarrow> byte list" where
  "redPiece F dt op premul scalar n root nb x off =
     rsResult F dt op premul scalar n (pieceLen nb off div vcclTypeSize dt) (\<lambda>j. take (pieceLen nb off) (drop off (x j))) root"

definition redTo ::
  "nat \<Rightarrow> (nat \<Rightarrow> fpu) \<Rightarrow> vcclDataType_t \<Rightarrow> vcclRedOp_t \<Rightarrow> bool \<Rightarrow> 64 word \<Rightarrow> (nat \<Rightarrow> addr) \<Rightarrow> addr \<Rightarrow> (nat \<Rightarrow> addr) \<Rightarrow> nat \<Rightarrow> nat
    \<Rightarrow> (nat \<Rightarrow> mem) \<Rightarrow> nat \<Rightarrow> (nat \<Rightarrow> mem) \<Rightarrow> bool" where
  "redTo n F dt op premul scalar send recv scr root nb M0 off M \<longleftrightarrow>
     (\<forall>r<n. \<forall>a. (a < scr r \<or> scr r + kPipeBytes \<le> a) \<and> (r = root \<longrightarrow> a < recv \<or> recv + off \<le> a) \<longrightarrow> M r a = M0 r a) \<and>
     (\<forall>o'<off. kPipeBytes dvd o' \<longrightarrow> rd (M root) (recv + o') (pieceLen nb o') =
        redPiece F dt op premul scalar n root nb (\<lambda>j. rd (M0 j) (send j) nb) o')"

lemma es_dvd_pipe: "dt \<noteq> vcclNumTypes \<Longrightarrow> vcclTypeSize dt dvd kPipeBytes"
  by (cases dt) (simp_all add: kPipeBytes_def)

lemma pieceLen_count:
  assumes "dt \<noteq> vcclNumTypes" "nb = cnt * vcclTypeSize dt" "kPipeBytes dvd off"
  shows "pieceLen nb off = pieceLen nb off div vcclTypeSize dt * vcclTypeSize dt"
proof -
  have "vcclTypeSize dt dvd nb - off" using assms es_dvd_pipe [OF assms(1)] by (meson dvd_diff_nat dvd_trans dvd_triv_right)
  then have "vcclTypeSize dt dvd pieceLen nb off" using es_dvd_pipe [OF assms(1)] by (simp add: pieceLen_def min_def)
  then show ?thesis by simp
qed

lemma redTo_step:
  fixes scalar :: "64 word"
  assumes ok: "redOk n c0 dt op premul nb send recv scr root" and nb: "nb = cnt * vcclTypeSize dt" and off: "off < nb" "kPipeBytes dvd off"
    and M: "redTo n (\<lambda>r. fp (c0 r)) dt op premul scalar send recv scr root nb M0 off M"
  defines "len \<equiv> pieceLen nb off" and "m \<equiv> pieceLen nb off div vcclTypeSize dt"
  shows "redTo n (\<lambda>r. fp (c0 r)) dt op premul scalar send recv scr root nb M0 (min nb (off + kPipeBytes))
    (\<lambda>r. chainMem ((root + 1) mod n) n scr (\<lambda>r. redSend (send r) premul n r root (scr r) off) len
       (redMem (\<lambda>r. fp (c0 r)) send recv dt op premul scalar n root scr off m) M ((r + n - (root + 1) mod n) mod n))"
proof -
  have n: "2 \<le> n" "root < n" and dt: "dt \<noteq> vcclNumTypes" and op: "opOk dt op" "premul \<longrightarrow> isFloatType dt" using ok by (auto simp: redOk_def opOk_def)
  have l: "len = m * vcclTypeSize dt" "len \<le> kPipeBytes" "off + len \<le> nb" "0 < len"
    using pieceLen_count [OF dt nb off(2)] off by (auto simp: len_def m_def pieceLen_def kPipeBytes_def)
  let ?F = "\<lambda>r. fp (c0 r)" and ?x = "\<lambda>r. rd (M r) (send r + off) len"
  let ?C = "chainMem ((root + 1) mod n) n scr (\<lambda>r. redSend (send r) premul n r root (scr r) off) len
       (redMem ?F send recv dt op premul scalar n root scr off m) M"
  let ?i = "\<lambda>r. (r + n - (root + 1) mod n) mod n"
  note C = red_tour [OF ok l(1-3), where M = M and scalar = scalar]
  have x: "?x r = take len (drop off (rd (M0 r) (send r) nb))" if r: "r < n" for r
  proof -
    have "?x r = rd (M0 r) (send r + off) len"
    proof (rule rd_cong)
      fix a assume a: "send r + off \<le> a" "a < send r + off + len"
      then have "a < scr r \<or> scr r + kPipeBytes \<le> a" using ok r l(3) by (auto simp: redOk_def disj_def)
      moreover have "r = root \<longrightarrow> a < recv \<or> recv + off \<le> a" using ok a l(3) by (auto simp: redOk_def slotOk_def disj_def)
      ultimately show "M r a = M0 r a" using M r by (auto simp: redTo_def)
    qed
    then show ?thesis using l(3) by (simp add: rd_sub)
  qed
  have pos: "?i r < n" "(root + 1 + ?i r) mod n = r" if "r < n" for r
  proof -
    have "(root + 1 + ?i r) mod n = ((root + 1) mod n + ?i r) mod n" by (rule mod_add_left_eq [symmetric])
    then show "(root + 1 + ?i r) mod n = r"
      using that n ring_shift(2) [of r n "(root + 1) mod n"] by (simp only: add.commute [of "(root + 1) mod n"]) simp
  qed (use n in simp)
  have root: "?i root = n - 1" "r \<noteq> root \<Longrightarrow> r < n \<Longrightarrow> ?i r < n - 1" for r
  proof -
    show 1: "?i root = n - 1" using n by (cases "root + 1 = n") (auto simp: mod_if)
    have "?i r = n - 1 \<Longrightarrow> r < n \<Longrightarrow> r = root" using pos [of r] n by simp
    then show "r \<noteq> root \<Longrightarrow> r < n \<Longrightarrow> ?i r < n - 1" using pos(1) [of r] by linarith
  qed
  define T where "T = redTour ?F dt op premul scalar m ?x n root (n - 2)"
  define V where "V = avgScale (?F root) dt op n m (vred (?F root) dt op m (rsFirst (?F root) dt premul scalar m (?x root)) T)"
  have C2: "?C (?i root) = wr (wr (M root) (scr root) T) (recv + off) V" unfolding root(1) T_def V_def by (rule C(2))
  have lens: "length T = len" "length V = len" using op dt l(1) by (simp_all add: T_def V_def length_redTour)
  have V: "V = redPiece ?F dt op premul scalar n root nb (\<lambda>j. rd (M0 j) (send j) nb) off"
  proof -
    have "redPiece ?F dt op premul scalar n root nb (\<lambda>j. rd (M0 j) (send j) nb) off = rsResult ?F dt op premul scalar n m ?x root"
      unfolding redPiece_def m_def len_def [symmetric] using x n by (intro rsResult_cong) auto
    moreover have "m \<noteq> 0" using l(1,4) by auto
    ultimately show ?thesis using n by (simp add: rsResult_def V_def T_def)
  qed
  have e: "min nb (off + kPipeBytes) = off + len" using off by (simp add: len_def pieceLen_def)
  show ?thesis
    unfolding redTo_def e
  proof (intro conjI allI impI)
    fix r a assume r: "r < n" and a: "(a < scr r \<or> scr r + kPipeBytes \<le> a) \<and> (r = root \<longrightarrow> a < recv \<or> recv + (off + len) \<le> a)"
    have m: "M r a = M0 r a" using M r a by (auto simp: redTo_def)
    show "?C (?i r) a = M0 r a"
    proof (cases "r = root")
      case True
      then show ?thesis unfolding True C2 using a m lens l(2) True by (auto simp: wr_outside)
    next
      case False
      then show ?thesis using C(1) [OF root(2) [OF False r]] pos [OF r] a m by auto
    qed
  next
    fix o' assume o': "o' < off + len" "kPipeBytes dvd o'"
    show "rd (?C (?i root)) (recv + o') (pieceLen nb o') = redPiece ?F dt op premul scalar n root nb (\<lambda>j. rd (M0 j) (send j) nb) o'"
    proof (cases "o' < off")
      case True
      then have le: "o' + kPipeBytes \<le> off" using o'(2) off(2)
        by (metis add.commute add_le_cancel_left dvd_diff_nat dvd_imp_le le_add_diff_inverse less_imp_le zero_less_diff)
      then have "pieceLen nb o' = kPipeBytes" using off(1) by (simp add: pieceLen_def)
      moreover have "disj (recv + off) len (recv + o') kPipeBytes" using le by (auto simp: disj_def)
      moreover have "disj (scr root) len (recv + o') kPipeBytes"
        using ok l(2) le off(1) disj_sub_both [of "scr root" kPipeBytes recv nb "scr root" len "recv + o'" kPipeBytes] by (auto simp: redOk_def)
      moreover have "rd (M root) (recv + o') (pieceLen nb o') = redPiece ?F dt op premul scalar n root nb (\<lambda>j. rd (M0 j) (send j) nb) o'"
        using M True o'(2) unfolding redTo_def by blast
      ultimately show ?thesis unfolding C2 by (simp add: rd_wr_disj lens)
    next
      case False
      then have "kPipeBytes dvd o' - off" "o' - off < kPipeBytes" using o' off l(2) by auto
      then have "o' = off" using False by (auto dest: dvd_imp_le)
      then show ?thesis unfolding C2 using lens(2) V by (simp add: rd_wr_same len_def)
    qed
  qed
qed

lemma redPieces_phase:
  fixes scalar :: "64 word"
  assumes ok: "redOk n c0 dt op premul nb send recv scr root" and nb: "nb = cnt * vcclTypeSize dt" and rv: "rv root = recv"
  shows "phase {..<n} c0 (\<lambda>_. []) (\<lambda>r. vseq (map (reducePiece (send r) (rv r) dt op premul scalar root (scr r)) (pieces 0 nb))) (\<lambda>_. [])
    (redTo n (\<lambda>r. fp (c0 r)) dt op premul scalar send recv scr root nb M0 0)
    (redTo n (\<lambda>r. fp (c0 r)) dt op premul scalar send recv scr root nb M0 nb)"
proof -
  have n: "2 \<le> n" "root < n" "world n c0" and dt: "dt \<noteq> vcclNumTypes" using ok by (auto simp: redOk_def opOk_def)
  let ?F = "\<lambda>r. fp (c0 r)"
  have "phase {..<n} c0 (\<lambda>_. []) (\<lambda>r. reducePiece (send r) (rv r) dt op premul scalar root (scr r) (off, min kPipeBytes (nb - off))) (\<lambda>_. [])
      (redTo n ?F dt op premul scalar send recv scr root nb M0 off)
      (redTo n ?F dt op premul scalar send recv scr root nb M0 (min nb (off + kPipeBytes)))" if off: "off < nb" "kPipeBytes dvd off" for off
  proof -
    let ?m = "pieceLen nb off div vcclTypeSize dt"
    have len: "pieceLen nb off = ?m * vcclTypeSize dt" "pieceLen nb off \<le> kPipeBytes" "off + pieceLen nb off \<le> nb"
      using pieceLen_count [OF dt nb off(2)] off by (auto simp: pieceLen_def)
    have "phase {..<n} c0 (\<lambda>_. []) (\<lambda>r. chainCmd ((root + 1) mod n) n r (scr r) (redSend (send r) premul n r root (scr r) off) (pieceLen nb off)
        (redWork (send r) recv dt op premul scalar n r root (scr r) off ?m)) (\<lambda>_. [])
      (redTo n ?F dt op premul scalar send recv scr root nb M0 off)
      (redTo n ?F dt op premul scalar send recv scr root nb M0 (min nb (off + kPipeBytes)))"
      by (rule phase_chain [where rb = scr and sb = "\<lambda>r. redSend (send r) premul n r root (scr r) off" and len = "pieceLen nb off"
            and G = "redMem ?F send recv dt op premul scalar n root scr off ?m" and h = "(root + 1) mod n"
            and work = "\<lambda>r. redWork (send r) recv dt op premul scalar n r root (scr r) off ?m", OF n(3,1) _ refl])
        (use n redWork_Ret [OF ok _ len] redTo_step [OF ok nb off] in auto)
    moreover have "reducePiece (send r) (rv r) dt op premul scalar root (scr r) (off, min kPipeBytes (nb - off)) (upd c0 M (\<lambda>_. []) r) =
        chainCmd ((root + 1) mod n) n r (scr r) (redSend (send r) premul n r root (scr r) off) (pieceLen nb off)
          (redWork (send r) recv dt op premul scalar n r root (scr r) off ?m) (upd c0 M (\<lambda>_. []) r)" if r: "r < n" for r M
    proof -
      have "redWork (send r) (rv r) dt op premul scalar n r root (scr r) off ?m = redWork (send r) recv dt op premul scalar n r root (scr r) off ?m"
        using rv by (simp add: redWork_def)
      then show ?thesis
        using reducePiece_chain [of "upd c0 M (\<lambda>_. []) r" r n root "pieceLen nb off" ?m dt "send r" "rv r" op premul scalar "scr r" off]
          n r dt len(1) by (simp add: world_def pieceLen_def)
    qed
    ultimately show ?thesis by (subst phase_cong) auto
  qed
  from phase_pieces [where J = "redTo n ?F dt op premul scalar send recv scr root nb M0" and off = 0 and tot = nb, OF this]
  show ?thesis by simp
qed

subsection \<open>The collective\<close>

text \<open>The root's receive buffer at the end: on one rank its own contribution, otherwise piece by piece
  the tours. The other ranks keep all memory outside scratch space.\<close>

definition reduced ::
  "(nat \<Rightarrow> fpu) \<Rightarrow> vcclDataType_t \<Rightarrow> vcclRedOp_t \<Rightarrow> bool \<Rightarrow> 64 word \<Rightarrow> nat \<Rightarrow> nat \<Rightarrow> nat \<Rightarrow> (nat \<Rightarrow> byte list) \<Rightarrow> byte list \<Rightarrow> bool" where
  "reduced F dt op premul scalar n root cnt x y \<longleftrightarrow>
     (if n = 1 then y = contrib (F root) dt premul scalar cnt (x root)
      else \<forall>off<cnt * vcclTypeSize dt. kPipeBytes dvd off \<longrightarrow>
        take (pieceLen (cnt * vcclTypeSize dt) off) (drop off y) =
        redPiece F dt op premul scalar n root (cnt * vcclTypeSize dt) x off)"

lemma doReduce_eq:
  assumes "rank (comm c) = r" "nranks (comm c) = n" "nb = cnt * vcclTypeSize dt"
  shows "doReduce send recv cnt dt op premul scalar root c =
    (if n = 1 then check (cwhen (cnt > 0 \<and> send \<noteq> recv) (memcpy recv send nb)) (cwhen premul (scaleC dt recv cnt (\<lambda>_. scalar)))
     else if cnt = 0 then ok
     else withScratch kPipeBytes (\<lambda>scr. scoped (check (cwhen (r = (root + 1) mod n \<and> \<not> premul) (regAdd send nb))
       (vseq (map (reducePiece send recv dt op premul scalar root scr) (pieces 0 nb)))))) c"
  unfolding doReduce_def Let_def assms(1,2) assms(3) [symmetric] vseq_Cons vseq_Nil check_ok by simp

lemma doReduce_runs:
  fixes scalar :: "64 word"
  assumes c: "ready n c" and ok: "redOk n c dt op premul nb send (recv root) scr root" and nb: "nb = cnt * vcclTypeSize dt"
  shows "runs {..<n} (\<lambda>r. scoped (check (cwhen (b r) (regAdd (send r) nb))
      (vseq (map (reducePiece (send r) (recv r) dt op premul scalar root (scr r)) (pieces 0 nb))))) c
    (redTo n (\<lambda>r. fp (c r)) dt op premul scalar send (recv root) scr root nb (\<lambda>r. mem (c r)) nb)"
proof (rule runs_scoped, rule runs_check [OF runs_regAdd_if])
  fix c2
  let ?c1 = "\<lambda>r. (c r)\<lparr>comm := scopedCtor (comm (c r))\<rparr>"
  show "regAccepts (comm (?c1 r)) \<and> posted (?c1 r) = []" if "r \<in> {..<n}" for r
    using that c scoped_frame(1) [of "c r"] by (auto simp: ready_def ctxFrame_def commFrame_def)
  assume f: "\<And>r. r \<in> {..<n} \<Longrightarrow> ctxFrame (?c1 r) (c2 r) \<and> posted (c2 r) = []" and m: "\<forall>r\<in>{..<n}. mem (c2 r) = mem (?c1 r)"
  have f2: "ctxFrame (c r) (c2 r)" if "r < n" for r using f [of r] that scoped_frame(1) ctxFrame_trans by blast
  have "world n c2" using ready_frame [OF c, of c2] f f2 by (simp add: ready_def)
  moreover have fp: "fp (c2 r) = fp (c r)" if "r < n" for r using f2 [OF that] by (simp add: ctxFrame_def)
  ultimately have ok2: "redOk n c2 dt op premul nb send (recv root) scr root" using ok by (simp add: redOk_def)
  have eq: "redPiece (\<lambda>r. fp (c2 r)) dt op premul scalar n root nb x o' = redPiece (\<lambda>r. fp (c r)) dt op premul scalar n root nb x o'" for x o'
    unfolding redPiece_def using fp ok by (intro rsResult_cong) (auto simp: redOk_def)
  show "runs {..<n} (\<lambda>r. vseq (map (reducePiece (send r) (recv r) dt op premul scalar root (scr r)) (pieces 0 nb))) c2
      (redTo n (\<lambda>r. fp (c r)) dt op premul scalar send (recv root) scr root nb (\<lambda>r. mem (c r)) nb)"
    by (rule runs_conseq [OF runs_phase [OF redPieces_phase [where rv = recv and scalar = scalar and ?M0.0 = "\<lambda>r. mem (c r)", OF ok2 nb refl]]])
      (use f m eq in \<open>auto simp: redTo_def\<close>)
qed

lemma doReduce_works:
  fixes scalar :: "64 word"
  assumes c: "ready n c" and root: "root < n" and op: "opOk dt op" "premul \<longrightarrow> isFloatType dt" and nb: "nb = cnt * vcclTypeSize dt"
    and b: "\<And>r. r < n \<Longrightarrow> scratchSafe (c r) (send r) nb" "scratchSafe (c root) (recv root) nb" "slotOk (recv root) (send root) nb"
  shows "worksOn n c (\<lambda>r. doReduce (send r) (recv r) cnt dt op premul scalar root) recv (\<lambda>r. if r = root then nb else 0)
    (\<lambda>M. reduced (\<lambda>r. fp (c r)) dt op premul scalar n root cnt (\<lambda>j. rd (mem (c j)) (send j) nb) (rd (M root) (recv root) nb))"
    (is "worksOn _ _ _ _ ?k ?Q")
proof -
  have n: "0 < n" using root by simp
  let ?one = "\<lambda>r. check (cwhen (cnt > 0 \<and> send r \<noteq> recv r) (memcpy (recv r) (send r) nb)) (cwhen premul (scaleC dt (recv r) cnt (\<lambda>_. scalar)))"
  let ?many = "\<lambda>r. withScratch kPipeBytes (\<lambda>scr. scoped (check (cwhen (r = (root + 1) mod n \<and> \<not> premul) (regAdd (send r) nb))
       (vseq (map (reducePiece (send r) (recv r) dt op premul scalar root scr) (pieces 0 nb)))))"
  have "worksOn n c (\<lambda>r. if n = 1 then ?one r else if cnt = 0 then ok else ?many r) recv ?k ?Q"
  proof (cases "n = 1")
    case True
    have "worksOn n c (\<lambda>r. cwhen (cnt > 0 \<and> send r \<noteq> recv r) (memcpy (recv r) (send r) nb)) recv ?k
        (\<lambda>M. rd (M root) (recv root) nb = rd (mem (c root)) (send root) nb)"
      by (rule works_conseq [OF works_copy_if [OF c, where b = "\<lambda>_. 0 < cnt" and l = "\<lambda>_. nb"]])
        (use b True root nb in \<open>auto simp: rd_wr_same\<close>)
    then have "worksOn n c ?one recv ?k ?Q"
    proof (rule works_check [OF c])
      fix c1 assume 1: "laterOn n c c1 recv ?k" and m1: "rd (mem (c1 root)) (recv root) nb = rd (mem (c root)) (send root) nb"
      have k: "?k = (\<lambda>r. if r = root then nb else 0)" ..
      have "worksOn n c1 (\<lambda>r. cwhen premul (scaleC dt (recv r) cnt (\<lambda>_. scalar))) recv (\<lambda>_. nb) ?Q"
        by (rule works_conseq [OF works_scale [OF laterD(1) [OF 1]]])
          (use op m1 laterD(6) [OF 1] True root in \<open>auto simp: Let_def nb reduced_def contrib_def\<close>)
      then show "worksOn n c1 (\<lambda>r. cwhen premul (scaleC dt (recv r) cnt (\<lambda>_. scalar))) recv ?k ?Q"
        using True root by (auto simp: worksOn_def elim!: runs_conseq)
    qed
    with True show ?thesis by simp
  next
    case False
    then have n2: "2 \<le> n" using n by simp
    show ?thesis
    proof (cases "cnt = 0")
      case True
      then show ?thesis using False c by (auto intro!: works_ok simp: reduced_def nb)
    next
      case cnt: False
      let ?s = "\<lambda>r. scrAddr kPipeBytes (c r)" and ?c = "\<lambda>r. scrCtx kPipeBytes (c r)"
      have c1: "ready n ?c" using ready_frame [OF c, of ?c] scrCtx_facts(1,2) c by (auto simp: ready_def)
      have ok: "redOk n ?c dt op premul nb send (recv root) ?s root"
        using n2 root op b scrCtx_facts(4) [of "c _" _ _ kPipeBytes] c1 by (auto simp: redOk_def ready_def)
      have data: "rd (mem (?c r)) (send r) nb = rd (mem (c r)) (send r) nb" if "r < n" for r using scrCtx_rd b(1) [OF that] by blast
      have "worksOn n c ?many recv ?k ?Q"
      proof (rule worksI [OF runs_scratch [where sz = "\<lambda>_. kPipeBytes" and c = c and
          body = "\<lambda>r scr. scoped (check (cwhen (r = (root + 1) mod n \<and> \<not> premul) (regAdd (send r) nb))
            (vseq (map (reducePiece (send r) (recv r) dt op premul scalar root scr) (pieces 0 nb))))", OF doReduce_runs [where recv = recv and scalar = scalar, OF c1 ok nb]]])
        fix M assume M: "redTo n (\<lambda>r. fp (?c r)) dt op premul scalar send (recv root) ?s root nb (\<lambda>r. mem (?c r)) nb M"
        show "keeps (c r) (M r) (recv r) (?k r)" if "r < n" for r
          by (rule keeps_scratch [where k = kPipeBytes]) (use M that in \<open>auto simp: redTo_def split: if_splits\<close>)
        have "redPiece (\<lambda>r. fp (c r)) dt op premul scalar n root nb (\<lambda>j. rd (mem (?c j)) (send j) nb) off =
            redPiece (\<lambda>r. fp (c r)) dt op premul scalar n root nb (\<lambda>j. rd (mem (c j)) (send j) nb) off" for off
          unfolding redPiece_def using data root by (intro rsResult_cong) auto
        then show "?Q M" using M False by (auto simp: redTo_def reduced_def nb rd_sub pieceLen_def)
      qed
      with False cnt show ?thesis by simp
    qed
  qed
  then show ?thesis
    by (subst works_cong) (use ready_rank [OF c] nb in \<open>auto simp: doReduce_eq\<close>)
qed

text \<open>Without a custom operator every element of the result combines those of all ranks once.\<close>

lemma reduced_elem:
  assumes op: "opOk dt op" and n: "root < n" and i: "i < cnt" and len: "length y = cnt * vcclTypeSize dt"
    and y: "reduced F dt op False scalar n root cnt x y"
  shows "reducedElem F dt op n (\<lambda>j. elemAt (vcclTypeSize dt) i (x j)) (elemAt (vcclTypeSize dt) i y)"
proof (cases "n = 1")
  case True
  then show ?thesis
    using y n leaf [of "elemOps F n dt op" "\<lambda>j. elemAt (vcclTypeSize dt) i (x j)" 0]
    by (auto simp: reduced_def contrib_def reducedElem_def)
next
  case False
  let ?es = "vcclTypeSize dt" and ?nb = "cnt * vcclTypeSize dt"
  define off where "off = i * ?es div kPipeBytes * kPipeBytes"
  define l m k where "l = pieceLen ?nb off" and "m = l div ?es" and "k = i - off div ?es"
  have dt: "dt \<noteq> vcclNumTypes" and es: "0 < ?es" using op vcclTypeSize_pos [of dt] by (auto simp: opOk_def)
  obtain q where q: "kPipeBytes = ?es * q" using es_dvd_pipe [OF dt] by (auto elim: dvdE)
  have pipe: "0 < kPipeBytes" by (simp add: kPipeBytes_def)
  have o1: "off \<le> i * ?es" "i * ?es < off + kPipeBytes" "kPipeBytes dvd off"
    using pipe div_mult_mod_eq [of "i * ?es" kPipeBytes] mod_less_divisor [OF pipe, of "i * ?es"] unfolding off_def by (linarith, linarith, simp)
  have i_nb: "i * ?es + ?es \<le> ?nb" using elem_le [OF i, of ?es] .
  have dv: "?es dvd off" using o1(3) q by (metis dvd_trans dvd_triv_left)
  then obtain a where a: "off = a * ?es" by (metis dvdE mult.commute)
  have k: "i = a + k" "off div ?es = a" using o1(1) es by (auto simp: k_def a)
  have l: "l = m * ?es" using pieceLen_count [OF dt refl o1(3), of cnt] by (simp add: l_def m_def)
  have "k * ?es < l"
    using o1(2) i_nb es by (simp add: l_def pieceLen_def a k(1) algebra_simps)
  then have km: "k < m" using l es by simp
  have "reducedElem F dt op n (\<lambda>j. elemAt ?es k (take l (drop off (x j)))) (elemAt ?es k (rsResult F dt op False scalar n m (\<lambda>j. take l (drop off (x j))) root))"
    by (rule rsResult_elem [OF op n km])
  moreover have "rsResult F dt op False scalar n m (\<lambda>j. take l (drop off (x j))) root = take l (drop off y)"
    using y False o1 i_nb es by (simp add: reduced_def redPiece_def l_def m_def)
  moreover have "elemAt ?es k (take l (drop off z)) = elemAt ?es i z" for z
  proof -
    have "k * ?es + ?es \<le> l" using elem_le [OF km, of ?es] l by simp
    then show ?thesis by (simp add: elemAt_def drop_take min_absorb1 k(1) a algebra_simps)
  qed
  ultimately show ?thesis by simp
qed

lemma vcclReduce_finishes:
  fixes scalar :: "64 word"
  assumes c: "callable n c cp t" and dt: "dt \<noteq> vcclNumTypes" and root: "root < n" and nb: "nb = cnt * vcclTypeSize dt"
    and op: "\<And>r. r < n \<Longrightarrow> resolveOp (comm (c r)) dt op = Inr (op', premul, scalar)"
    and b: "\<And>r. r < n \<Longrightarrow> send r \<noteq> 0 \<and> scratchSafe (c r) (send r) nb"
      "recv root \<noteq> 0" "scratchSafe (c root) (recv root) nb" "slotOk (recv root) (send root) nb"
  shows "finishes n (\<lambda>r. snd (vcclReduce (send r) (recv r) cnt dt op (int root) (cp r) (t r) (c r)))
    (\<lambda>r c'. (r = root \<longrightarrow> reduced (\<lambda>r. fp (c r)) dt op' premul scalar n root cnt (\<lambda>j. rd (mem (c j)) (send j) nb) (rd (mem c') (recv root) nb)) \<and>
       keeps (c r) (mem c') (recv r) (if r = root then nb else 0) \<and> ctxFrame (c r) c' \<and> posted c' = [])"
proof (rule entry_finishes [where call = "\<lambda>r. vcclReduce (send r) (recv r) cnt dt op (int root) (cp r) (t r)"])
  have n: "ready n c" "0 < n" using c by (auto simp: callable_def ready_def)
  have ok: "opOk dt op'" "premul \<longrightarrow> isFloatType dt" using resolveOp_ok [OF op dt] n(2) by blast+
  show "runs {..<n} (\<lambda>r. doReduce (send r) (recv r) cnt dt op' premul scalar root) c (\<lambda>M.
      (\<forall>r<n. keeps (c r) (M r) (recv r) (if r = root then nb else 0)) \<and>
      reduced (\<lambda>r. fp (c r)) dt op' premul scalar n root cnt (\<lambda>j. rd (mem (c j)) (send j) nb) (rd (M root) (recv root) nb))"
    using b by (intro works_runs doReduce_works n root ok nb) auto
qed (use b c dt root op callable_rooted callable_checks in \<open>auto simp: vcclReduce_def runOp_outside\<close>)

end
