(* ===== verification/Vccl_AllToAll.thy ===== *)
theory Vccl_AllToAll
  imports Vccl_Entry
begin

text \<open>
  All-to-all with counts and displacements. In round \<open>s\<close> rank \<open>r\<close> sends to \<open>r + s + 1\<close> and receives from
  \<open>r - s - 1\<close>, so after \<open>s\<close> rounds it holds the messages of the ranks up to \<open>s\<close> places behind it.
\<close>

text \<open>The slot of rank \<open>p\<close> in a buffer: address and size in bytes.\<close>

definition slotAt :: "addr \<Rightarrow> nat list \<Rightarrow> nat \<Rightarrow> nat \<Rightarrow> addr" where
  "slotAt b displs es p = b + displs ! p * es"

definition slotLen :: "nat list \<Rightarrow> nat \<Rightarrow> nat \<Rightarrow> nat" where
  "slotLen counts es p = counts ! p * es"

text \<open>The tables of all ranks fit together: what \<open>j\<close> sends to \<open>r\<close> is what \<open>r\<close> expects from \<open>j\<close>; the
  receive slots of a rank are apart from each other and from its send slots, except that a rank's own
  slot may be in place.\<close>

definition a2aOk ::
  "nat \<Rightarrow> (nat \<Rightarrow> addr) \<Rightarrow> (nat \<Rightarrow> nat list) \<Rightarrow> (nat \<Rightarrow> nat list) \<Rightarrow> (nat \<Rightarrow> addr) \<Rightarrow> (nat \<Rightarrow> nat list) \<Rightarrow> (nat \<Rightarrow> nat list) \<Rightarrow> nat \<Rightarrow> bool" where
  "a2aOk n send sc sd recv rc rds es \<longleftrightarrow>
     (\<forall>r<n. \<forall>j<n. rc r ! j = sc j ! r \<and>
        (\<forall>k<n. (j \<noteq> k \<longrightarrow> disj (slotAt (recv r) (rds r) es j) (slotLen (rc r) es j) (slotAt (recv r) (rds r) es k) (slotLen (rc r) es k)) \<and>
           (j \<noteq> r \<or> k \<noteq> r \<longrightarrow>
             disj (slotAt (recv r) (rds r) es j) (slotLen (rc r) es j) (slotAt (send r) (sd r) es k) (slotLen (sc r) es k))) \<and>
        slotOk (slotAt (recv r) (rds r) es r) (slotAt (send r) (sd r) es r) (slotLen (rc r) es r))"

lemma fold_max_ge:
  fixes f :: "nat \<Rightarrow> nat"
  shows "e \<le> fold (\<lambda>p e. max e (f p)) xs e" and "p \<in> set xs \<Longrightarrow> f p \<le> fold (\<lambda>p e. max e (f p)) xs e"
proof -
  show mono: "e \<le> fold (\<lambda>p e. max e (f p)) xs e" for e xs
    by (induction xs arbitrary: e) (auto intro: order_trans [OF max.cobounded1])
  show "p \<in> set xs \<Longrightarrow> f p \<le> fold (\<lambda>p e. max e (f p)) xs e"
    by (induction xs arbitrary: e) (auto intro: order_trans [OF max.cobounded2 mono])
qed

lemma a2aEnd_ge: "p < n \<Longrightarrow> (displs ! p + counts ! p) * es \<le> a2aEnd n displs counts es"
  using fold_max_ge(2) [of p "[0..<n]" "\<lambda>p. (displs ! p + counts ! p) * es" 0] by (simp add: a2aEnd_def)

lemma slot_in: "p < n \<Longrightarrow> b \<le> slotAt b displs es p \<and> slotAt b displs es p + slotLen counts es p \<le> b + a2aEnd n displs counts es"
  using a2aEnd_ge [of p n displs counts es] by (simp add: slotAt_def slotLen_def algebra_simps)

text \<open>Rank \<open>r\<close> has received from the ranks of \<open>S r\<close>.\<close>

definition a2aGot ::
  "nat \<Rightarrow> (nat \<Rightarrow> nat set) \<Rightarrow> (nat \<Rightarrow> addr) \<Rightarrow> (nat \<Rightarrow> nat list) \<Rightarrow> (nat \<Rightarrow> addr) \<Rightarrow> (nat \<Rightarrow> nat list) \<Rightarrow> (nat \<Rightarrow> nat list) \<Rightarrow> nat
    \<Rightarrow> (nat \<Rightarrow> mem) \<Rightarrow> (nat \<Rightarrow> mem) \<Rightarrow> bool" where
  "a2aGot n S send sd recv rc rds es M0 M \<longleftrightarrow>
     (\<forall>r<n. \<forall>j\<in>S r. rd (M r) (slotAt (recv r) (rds r) es j) (slotLen (rc r) es j) =
        rd (M0 j) (slotAt (send j) (sd j) es r) (slotLen (rc r) es j)) \<and>
     (\<forall>r<n. \<forall>x. (\<forall>j\<in>S r. x < slotAt (recv r) (rds r) es j \<or> slotAt (recv r) (rds r) es j + slotLen (rc r) es j \<le> x) \<longrightarrow>
        M r x = M0 r x)"

lemma a2a_send:
  assumes ok: "a2aOk n send sc sd recv rc rds es" and g: "a2aGot n S send sd recv rc rds es M0 M"
    and "S r \<subseteq> {..<n}" "r < n" "k < n" "k \<noteq> r"
  shows "rd (M r) (slotAt (send r) (sd r) es k) (slotLen (sc r) es k) = rd (M0 r) (slotAt (send r) (sd r) es k) (slotLen (sc r) es k)"
proof (rule rd_cong)
  fix x assume x: "slotAt (send r) (sd r) es k \<le> x" "x < slotAt (send r) (sd r) es k + slotLen (sc r) es k"
  have "x < slotAt (recv r) (rds r) es j \<or> slotAt (recv r) (rds r) es j + slotLen (rc r) es j \<le> x" if "j \<in> S r" for j
  proof -
    have "j < n" using assms(3) that by auto
    then have "disj (slotAt (recv r) (rds r) es j) (slotLen (rc r) es j) (slotAt (send r) (sd r) es k) (slotLen (sc r) es k)"
      using ok assms(4-6) unfolding a2aOk_def by blast
    then show ?thesis using x by (auto simp: disj_def)
  qed
  then show "M r x = M0 r x" using g assms(4) by (auto simp: a2aGot_def)
qed

lemma a2a_round_phase:
  assumes ok: "a2aOk n send sc sd recv rc rds es" and w: "world n c0" and s: "Suc s < n"
  defines "to \<equiv> \<lambda>r. (r + Suc s) mod n" and "fr \<equiv> \<lambda>r. (r + n - Suc s) mod n"
  defines "S \<equiv> \<lambda>k r. (\<lambda>t. (r + n - t) mod n) ` {..<k}"
  shows "phase {..<n} c0 (\<lambda>_. []) (\<lambda>r. sendRecv (to r) (slotAt (send r) (sd r) es (to r)) (slotLen (sc r) es (to r))
      (fr r) (slotAt (recv r) (rds r) es (fr r)) (slotLen (rc r) es (fr r))) (\<lambda>_. [])
    (a2aGot n (S (Suc s)) send sd recv rc rds es M0) (a2aGot n (S (Suc (Suc s))) send sd recv rc rds es M0)"
  unfolding to_def fr_def
proof (rule phase_shift [where s = "Suc s"])
  have peers: "to r < n" "fr r < n" "to r \<noteq> r" "fr r \<noteq> r" "to (fr r) = r" if "r < n" for r
    using that s shift.to_ne [of r "Suc s" n] shift.fr_ne [of r "Suc s" n] shift.to_fr [of r "Suc s" n] by (auto simp: to_def fr_def)
  have "roundOk {..<n} c0 to fr (\<lambda>r. slotAt (send r) (sd r) es (to r)) (\<lambda>r. slotLen (sc r) es (to r))
      (\<lambda>r. slotAt (recv r) (rds r) es (fr r)) (\<lambda>r. slotLen (rc r) es (fr r)) (\<lambda>_. []) (\<lambda>_. [])"
    unfolding roundOk_def
  proof (intro ballI)
    fix r assume "r \<in> {..<n}"
    then have r: "r < n" by simp
    have "rc r ! fr r = sc (fr r) ! r" using ok r peers(2) [OF r] unfolding a2aOk_def by blast
    then have "slotLen (rc r) es (fr r) = slotLen (sc (fr r)) es (to (fr r))" using peers [OF r] by (simp add: slotLen_def)
    moreover have "disj (slotAt (recv r) (rds r) es (fr r)) (slotLen (rc r) es (fr r)) (slotAt (send r) (sd r) es (to r)) (slotLen (sc r) es (to r))"
      using ok r peers [OF r] unfolding a2aOk_def by blast
    ultimately show "transport (comm (c0 r)) \<noteq> None \<and>
        \<not> dropsCompletion ((c0 r)\<lparr>posted := []\<rparr>) (to r) (slotLen (sc r) es (to r)) (fr r) \<and> peerOk (comm (c0 r)) (to r) \<and> peerOk (comm (c0 r)) (fr r) \<and>
        slotLen (rc r) es (fr r) = slotLen (sc (fr r)) es (to (fr r)) \<and>
        disj (slotAt (send r) (sd r) es (to r)) (slotLen (sc r) es (to r)) (slotAt (recv r) (rds r) es (fr r)) (slotLen (rc r) es (fr r)) \<and>
        (if slotLen (rc r) es (fr r) = 0 then ([] :: RecvReq list) = []
         else consume (fr r) (slotAt (recv r) (rds r) es (fr r)) (slotLen (rc r) es (fr r)) [] = Some []) \<and>
        freeOf [] (slotAt (send r) (sd r) es (to r)) (slotLen (sc r) es (to r)) \<and>
        freeOf [] (slotAt (recv r) (rds r) es (fr r)) (slotLen (rc r) es (fr r))"
      using w r peers [OF r] by (simp add: world_def peerOk_def disj_sym)
  qed
  then show "roundOk {..<n} c0 (\<lambda>r. (r + Suc s) mod n) (\<lambda>r. (r + n - Suc s) mod n)
      (\<lambda>r. slotAt (send r) (sd r) es ((r + Suc s) mod n)) (\<lambda>r. slotLen (sc r) es ((r + Suc s) mod n))
      (\<lambda>r. slotAt (recv r) (rds r) es ((r + n - Suc s) mod n)) (\<lambda>r. slotLen (rc r) es ((r + n - Suc s) mod n)) (\<lambda>_. []) (\<lambda>_. [])"
    unfolding to_def fr_def .
  fix M assume g: "a2aGot n (S (Suc s)) send sd recv rc rds es M0 M"
  define N where "N = roundMem (\<lambda>r. (r + n - Suc s) mod n) (\<lambda>r. slotAt (send r) (sd r) es ((r + Suc s) mod n))
      (\<lambda>r. slotLen (sc r) es ((r + Suc s) mod n)) (\<lambda>r. slotAt (recv r) (rds r) es ((r + n - Suc s) mod n)) M"
  have sub: "S (Suc s) r \<subseteq> {..<n}" for r using s by (auto simp: S_def)
  have M': "N r = wr (M r) (slotAt (recv r) (rds r) es (fr r)) (rd (M0 (fr r)) (slotAt (send (fr r)) (sd (fr r)) es r) (slotLen (rc r) es (fr r)))"
    if r: "r < n" for r
  proof -
    have "rc r ! fr r = sc (fr r) ! r" using ok r peers(2) [OF r] unfolding a2aOk_def by blast
    then show ?thesis
      using a2a_send [OF ok g sub, of "fr r" r] peers [OF r] r
      unfolding N_def roundMem_def to_def fr_def by (auto simp: slotLen_def)
  qed
  have S: "S (Suc (Suc s)) r = insert (fr r) (S (Suc s) r)" for r by (auto simp: S_def fr_def lessThan_Suc)
  show "a2aGot n (S (Suc (Suc s))) send sd recv rc rds es M0 (roundMem (\<lambda>r. (r + n - Suc s) mod n)
      (\<lambda>r. slotAt (send r) (sd r) es ((r + Suc s) mod n)) (\<lambda>r. slotLen (sc r) es ((r + Suc s) mod n))
      (\<lambda>r. slotAt (recv r) (rds r) es ((r + n - Suc s) mod n)) M)"
    unfolding a2aGot_def S N_def [symmetric]
  proof (intro conjI allI impI ballI)
    fix r j assume r: "r < n" and j: "j \<in> insert (fr r) (S (Suc s) r)"
    show "rd (N r) (slotAt (recv r) (rds r) es j) (slotLen (rc r) es j) =
        rd (M0 j) (slotAt (send j) (sd j) es r) (slotLen (rc r) es j)"
    proof (cases "j = fr r")
      case True
      then show ?thesis by (simp add: M' [OF r] rd_wr_same)
    next
      case False
      then have "j \<in> S (Suc s) r" using j by simp
      moreover have "j < n" using j r peers [OF r] by (auto simp: S_def)
      then have "disj (slotAt (recv r) (rds r) es (fr r)) (slotLen (rc r) es (fr r)) (slotAt (recv r) (rds r) es j) (slotLen (rc r) es j)"
        using ok r peers(2) [OF r] False unfolding a2aOk_def by blast
      ultimately show ?thesis using g r by (simp add: M' [OF r] rd_wr_disj a2aGot_def)
    qed
  next
    fix r x assume r: "r < n" and "\<forall>j\<in>insert (fr r) (S (Suc s) r). x < slotAt (recv r) (rds r) es j \<or> slotAt (recv r) (rds r) es j + slotLen (rc r) es j \<le> x"
    then show "N r x = M0 r x" using g by (simp add: M' [OF r] wr_outside a2aGot_def)
  qed
qed (use s in auto)

lemma behind_image:
  fixes n r :: nat
  assumes "0 < n"
  shows "(\<lambda>t. (r + n - t) mod n) ` {..<n} = {..<n}"
proof -
  have "(\<lambda>t. (r + n - t) mod n) ` {..<n} = behind n r ` {..<n}" by (intro image_cong) (auto simp: behind_one)
  also have "\<dots> = {..<n}" using assms behind_surj [of _ n r] by fastforce
  finally show ?thesis .
qed

lemma a2aGot_outside:
  assumes "a2aGot n S send sd recv rc rds es M0 M" "S r \<subseteq> {..<n}" "r < n"
    and "x < recv r \<or> recv r + a2aEnd n (rds r) (rc r) es \<le> x"
  shows "M r x = M0 r x"
proof -
  have "x < slotAt (recv r) (rds r) es j \<or> slotAt (recv r) (rds r) es j + slotLen (rc r) es j \<le> x" if "j \<in> S r" for j
    using slot_in [of j n "recv r" "rds r" es "rc r"] assms(2,4) that by force
  then show ?thesis using assms(1,3) by (auto simp: a2aGot_def)
qed

lemma doAllToAllv_eq:
  assumes "rank (comm c) = r" "nranks (comm c) = n" "es = vcclTypeSize dt"
  shows "doAllToAllv send sc sd recv rc rds dt c = scoped (check (regAdd send (a2aEnd n sd sc es)) (check (regAdd recv (a2aEnd n rds rc es))
      (check (cwhen (sc ! r > 0 \<and> slotAt send sd es r \<noteq> slotAt recv rds es r)
          (memcpy (slotAt recv rds es r) (slotAt send sd es r) (slotLen sc es r)))
        (loop (n - 1) (\<lambda>s. sendRecv ((r + Suc s) mod n) (slotAt send sd es ((r + Suc s) mod n)) (slotLen sc es ((r + Suc s) mod n))
          ((r + n - Suc s) mod n) (slotAt recv rds es ((r + n - Suc s) mod n)) (slotLen rc es ((r + n - Suc s) mod n))))))) c"
  unfolding doAllToAllv_def
proof (rule scoped_cong, goal_cases)
  case (1 c')
  have "recv + rds ! r * es \<noteq> send + sd ! r * es \<longleftrightarrow> send + sd ! r * es \<noteq> recv + rds ! r * es" by auto
  then show ?case
    unfolding Let_def vseq_Cons vseq_Nil check_ok 1 assms(1,2) assms(3) [symmetric] slotAt_def slotLen_def by simp
qed

lemma doAllToAllv_works:
  assumes c: "ready n c" and es: "es = vcclTypeSize dt" and ok: "a2aOk n send sc sd recv rc rds es"
  shows "worksOn n c (\<lambda>r. doAllToAllv (send r) (sc r) (sd r) (recv r) (rc r) (rds r) dt) recv (\<lambda>r. a2aEnd n (rds r) (rc r) es)
    (a2aGot n (\<lambda>_. {..<n}) send sd recv rc rds es (\<lambda>r. mem (c r)))" (is "worksOn _ _ _ _ ?k ?Q")
proof -
  let ?S = "\<lambda>k r. (\<lambda>t. (r + n - t) mod n) ` {..<k}"
  let ?copy = "\<lambda>r. cwhen (sc r ! r > 0 \<and> slotAt (send r) (sd r) es r \<noteq> slotAt (recv r) (rds r) es r)
      (memcpy (slotAt (recv r) (rds r) es r) (slotAt (send r) (sd r) es r) (slotLen (sc r) es r))"
  let ?round = "\<lambda>r s. sendRecv ((r + Suc s) mod n) (slotAt (send r) (sd r) es ((r + Suc s) mod n)) (slotLen (sc r) es ((r + Suc s) mod n))
      ((r + n - Suc s) mod n) (slotAt (recv r) (rds r) es ((r + n - Suc s) mod n)) (slotLen (rc r) es ((r + n - Suc s) mod n))"
  have n: "0 < n" using c by (simp add: ready_def)
  have self: "slotOk (slotAt (recv r) (rds r) es r) (slotAt (send r) (sd r) es r) (slotLen (sc r) es r)" "rc r ! r = sc r ! r" if "r < n" for r
    using ok that unfolding a2aOk_def slotLen_def by metis+
  have inside: "recv r \<le> slotAt (recv r) (rds r) es r" "slotAt (recv r) (rds r) es r + sc r ! r * es \<le> recv r + ?k r" if "r < n" for r
    using slot_in [OF that, of "recv r" "rds r" es "rc r"] self(2) [OF that] by (simp_all add: slotLen_def)
  have "worksOn n c (\<lambda>r. scoped (check (regAdd (send r) (a2aEnd n (sd r) (sc r) es)) (check (regAdd (recv r) (a2aEnd n (rds r) (rc r) es))
      (check (?copy r) (loop (n - 1) (?round r)))))) recv ?k ?Q"
  proof (rule works_scoped [OF c], rule works_check [OF laterD(1)], assumption)
    fix c1 assume 1: "laterOn n c c1 recv ?k" and m1: "\<And>r. r < n \<Longrightarrow> mem (c1 r) = mem (c r)"
    show "worksOn n c1 (\<lambda>r. regAdd (send r) (a2aEnd n (sd r) (sc r) es)) recv ?k (\<lambda>M. \<forall>r<n. M r = mem (c r))"
      using 1 m1 by (intro works_regAdd) (auto simp: laterD)
    fix c2 assume 2: "laterOn n c1 c2 recv ?k" and m2: "\<forall>r<n. mem (c2 r) = mem (c r)"
    have "worksOn n c2 (\<lambda>r. regAdd (recv r) (a2aEnd n (rds r) (rc r) es)) recv ?k (\<lambda>M. \<forall>r<n. M r = mem (c r))"
      using 2 m2 by (intro works_regAdd) (auto simp: laterD)
    then show "worksOn n c2 (\<lambda>r. check (regAdd (recv r) (a2aEnd n (rds r) (rc r) es)) (check (?copy r) (loop (n - 1) (?round r)))) recv ?k ?Q"
    proof (rule works_check [OF laterD(1) [OF 2]])
      fix c3 assume 3: "laterOn n c2 c3 recv ?k" and m3: "\<forall>r<n. mem (c3 r) = mem (c r)"
      have "worksOn n c3 ?copy recv ?k (a2aGot n (?S (Suc 0)) send sd recv rc rds es (\<lambda>r. mem (c r)))"
        by (rule works_conseq [OF works_copy_if [OF laterD(1) [OF 3], where b = "\<lambda>r. 0 < sc r ! r" and l = "\<lambda>r. slotLen (sc r) es r"]])
          (use self m3 inside in \<open>auto simp: a2aGot_def rd_wr_same wr_outside slotLen_def\<close>)
      then show "worksOn n c3 (\<lambda>r. check (?copy r) (loop (n - 1) (?round r))) recv ?k ?Q"
      proof (rule works_check [OF laterD(1) [OF 3]])
        fix c4 assume 4: "laterOn n c3 c4 recv ?k"
          and g: "a2aGot n (?S (Suc 0)) send sd recv rc rds es (\<lambda>r. mem (c r)) (\<lambda>r. mem (c4 r))"
        have "phase {..<n} c4 (\<lambda>_. []) (\<lambda>r. loop (n - 1) (?round r)) (\<lambda>_. [])
            (a2aGot n (?S (Suc 0)) send sd recv rc rds es (\<lambda>r. mem (c r))) (a2aGot n (?S (Suc (n - 1))) send sd recv rc rds es (\<lambda>r. mem (c r)))"
          by (rule phase_loop [where q = "\<lambda>_ _. []" and J = "\<lambda>s. a2aGot n (?S (Suc s)) send sd recv rc rds es (\<lambda>r. mem (c r))"])
            (use a2a_round_phase [OF ok laterD(2) [OF 4]] in simp)
        then show "worksOn n c4 (\<lambda>r. loop (n - 1) (?round r)) recv ?k ?Q"
        proof (rule worksOn_phase [OF _ laterD(1) [OF 4]])
          show "a2aGot n (?S (Suc 0)) send sd recv rc rds es (\<lambda>r. mem (c r)) (\<lambda>r. mem (c4 r))" by (rule g)
          fix M assume M: "a2aGot n (?S (Suc (n - 1))) send sd recv rc rds es (\<lambda>r. mem (c r)) M"
          then show Q: "?Q M" using n by (simp add: behind_image a2aGot_def)
          show "M r x = mem (c4 r) x" if "r < n" "x < recv r \<or> recv r + ?k r \<le> x" for r x
            using a2aGot_outside [OF Q _ that] a2aGot_outside [OF g _ that] n by (simp add: image_subset_iff)
        qed
      qed
    qed
  qed
  then show ?thesis
    by (subst works_cong) (use ready_rank [OF c] es in \<open>auto simp: doAllToAllv_eq\<close>)
qed

subsection \<open>The entry point\<close>

lemma slot_take: "p < n \<Longrightarrow> slotAt b (take n displs) es p = slotAt b displs es p"
  "p < n \<Longrightarrow> slotLen (take n counts) es p = slotLen counts es p"
  by (simp_all add: slotAt_def slotLen_def)

lemma a2aEnd_take: "a2aEnd n (take n displs) (take n counts) es = a2aEnd n displs counts es"
  unfolding a2aEnd_def by (intro fold_cong) auto

lemma vcclAllToAllv_finishes:
  assumes c: "callable n c cp t" and es: "es = vcclTypeSize dt" "dt \<noteq> vcclNumTypes"
    and ok: "a2aOk n send sc sd recv rc rds es"
    and b: "\<And>r. r < n \<Longrightarrow> send r \<noteq> 0 \<and> recv r \<noteq> 0"
  shows "finishes n (\<lambda>r. snd (vcclAllToAllv (send r) (Some (sc r)) (Some (sd r)) (recv r) (Some (rc r)) (Some (rds r)) dt (cp r) (t r) (c r)))
    (\<lambda>r c'. (\<forall>j<n. rd (mem c') (slotAt (recv r) (rds r) es j) (slotLen (rc r) es j) =
         rd (mem (c j)) (slotAt (send j) (sd j) es r) (slotLen (rc r) es j)) \<and>
       keeps (c r) (mem c') (recv r) (a2aEnd n (rds r) (rc r) es) \<and> ctxFrame (c r) c' \<and> posted c' = [])"
proof (rule entry_finishes [where call = "\<lambda>r. vcclAllToAllv (send r) (Some (sc r)) (Some (sd r)) (recv r) (Some (rc r)) (Some (rds r)) dt (cp r) (t r)"])
  let ?t = "\<lambda>xs r. take n (xs r)"
  have "a2aOk n send (?t sc) (?t sd) recv (?t rc) (?t rds) es" using ok by (simp add: a2aOk_def slot_take)
  moreover have "ready n c" using c by (simp add: callable_def)
  ultimately show "runs {..<n} (\<lambda>r. doAllToAllv (send r) (?t sc r) (?t sd r) (recv r) (?t rc r) (?t rds r) dt) c (\<lambda>M.
      (\<forall>r<n. keeps (c r) (M r) (recv r) (a2aEnd n (?t rds r) (?t rc r) es)) \<and>
      a2aGot n (\<lambda>_. {..<n}) send (?t sd) recv (?t rc) (?t rds) es (\<lambda>r. mem (c r)) M)"
    by (intro works_runs doAllToAllv_works es)
qed (use b c es ready_rank callable_args callable_checks in
    \<open>auto simp: vcclAllToAllv_def runOp_outside a2aGot_def slot_take a2aEnd_take callable_def\<close>)

text \<open>The uniform all-to-all is the one with equal counts.\<close>

lemma vcclAllToAll_v:
  "n = nranks (comm c) \<Longrightarrow> vcclAllToAll send recv cnt dt cp t c =
     vcclAllToAllv send (Some (replicate n cnt)) (Some (map (\<lambda>i. i * cnt) [0..<n])) recv
       (Some (replicate n cnt)) (Some (map (\<lambda>i. i * cnt) [0..<n])) dt cp t c"
  by (simp add: vcclAllToAll_def vcclAllToAllv_def Let_def)

lemma slots_apart: "j \<noteq> k \<Longrightarrow> disj (p + j * l) l (p + k * l) l"
  using elem_le [of j k l] elem_le [of k j l] by (cases "j < k") (auto simp: disj_def)

lemma a2aOk_uniform:
  assumes "\<And>r. r < n \<Longrightarrow> disj (recv r) (n * (cnt * es)) (send r) (n * (cnt * es))"
  shows "a2aOk n send (\<lambda>_. replicate n cnt) (\<lambda>_. map (\<lambda>i. i * cnt) [0..<n]) recv (\<lambda>_. replicate n cnt) (\<lambda>_. map (\<lambda>i. i * cnt) [0..<n]) es"
proof -
  have "disj (recv r + j * cnt * es) (cnt * es) (recv r + k * cnt * es) (cnt * es)" if "j \<noteq> k" for r j k
    using that slots_apart [of j k "recv r" "cnt * es"] by (simp add: mult.assoc)
  moreover have "disj (recv r + j * cnt * es) (cnt * es) (send r + k * cnt * es) (cnt * es)" if "r < n" "j < n" "k < n" for r j k
    using disj_sub_both [OF assms [OF that(1)], of "recv r + j * cnt * es" "cnt * es" "send r + k * cnt * es" "cnt * es"]
      elem_le [OF that(2), of "cnt * es"] elem_le [OF that(3), of "cnt * es"] by (simp add: mult.assoc)
  ultimately show ?thesis by (simp add: a2aOk_def slotAt_def slotLen_def slotOk_def)
qed

end
