(* ===== verification/Vccl_Star.thy ===== *)
theory Vccl_Star
  imports Vccl_AllToAll Vccl_Broadcast
begin

text \<open>
  Gather and scatter: the root exchanges one message with every other rank, in the order of the ring.
\<close>

subsection \<open>A root and its peers\<close>

lemma star_peers:
  fixes n root :: nat
  assumes "root < n"
  shows "(\<lambda>t. (root + Suc t) mod n) ` {..<n - 1} = {..<n} - {root}"
proof (intro equalityI subsetI)
  fix j assume "j \<in> (\<lambda>t. (root + Suc t) mod n) ` {..<n - 1}"
  then obtain t where "t < n - 1" "j = (root + Suc t) mod n" by auto
  then show "j \<in> {..<n} - {root}" using assms ring_add [of root n "Suc t"] by (auto split: if_splits)
next
  fix j assume j: "j \<in> {..<n} - {root}"
  let ?s = "(j + n - root) mod n"
  have "?s \<noteq> 0" using j assms by (auto simp: ring_sub)
  then obtain s where s: "?s = Suc s" by (cases ?s) auto
  have "(root + Suc s) mod n = j" using ring_shift(2) [of j n root] j assms unfolding s [symmetric] by (simp add: add.commute [of root])
  moreover have "Suc s < n" using s [symmetric] assms by simp
  ultimately show "j \<in> (\<lambda>t. (root + Suc t) mod n) ` {..<n - 1}" by (intro image_eqI [of _ _ s]) auto
qed

lemma par_star:
  fixes n root :: nat
  assumes root: "root < n" and pos: "\<And>s. p s = (root + Suc s) mod n"
    and P: "P root = loop (n - 1) R" "\<And>r. r < n \<Longrightarrow> r \<noteq> root \<Longrightarrow> P r = Q r"
    and step: "\<And>s cfg Kr Kp. Suc s < n \<Longrightarrow> cfg root = bindp (R s (d s)) Kr \<Longrightarrow> cfg (p s) = bindp (Q (p s) (c (p s))) Kp \<Longrightarrow> p s \<noteq> root \<Longrightarrow>
      net_step\<^sup>*\<^sup>* cfg (cfg(root := Kr vcclSuccess (d (Suc s)), p s := Kp vcclSuccess (c' (p s))))"
    and d: "d 0 = c root" "d (n - 1) = c' root"
  shows "par {..<n} P c c'"
proof (rule parI)
  fix cfg K assume cfg: "\<And>r. r \<in> {..<n} \<Longrightarrow> cfg r = bindp (P r (c r)) (K r)"
  define at where "at k = (\<lambda>r. if r = root then bindp (vseq (map R [k..<n - 1]) (d k)) (K root)
      else if r \<in> p ` {..<k} then K r vcclSuccess (c' r) else cfg r)" for k
  have idx: "s = t" if "p s = p t" "Suc s < n" "Suc t < n" for s t
    using that ring_shift(1) [of "Suc s" n root] ring_shift(1) [of "Suc t" n root] root by (simp add: pos add.commute)
  have ne: "p s \<noteq> root" "p s < n" if "Suc s < n" for s
    using that root ring_shift(1) [of "Suc s" n root] by (auto simp: pos add.commute)
  have "net_step\<^sup>*\<^sup>* (at k) (at (Suc k))" if k: "Suc k < n" for k
  proof -
    have "[k..<n - 1] = k # [Suc k..<n - 1]" using k by (simp add: upt_conv_Cons)
    then have r: "at k root = bindp (R k (d k)) (\<lambda>e c'. if e = vcclSuccess then bindp (vseq (map R [Suc k..<n - 1]) c') (K root) else K root e c')"
      unfolding at_def by (simp del: One_nat_def)
    have "p k \<notin> p ` {..<k}" using idx [of k] k by fastforce
    then have q: "at k (p k) = bindp (Q (p k) (c (p k))) (K (p k))" using ne [OF k] cfg [of "p k"] P(2) [of "p k"] by (simp add: at_def)
    have "(at k)(root := bindp (vseq (map R [Suc k..<n - 1]) (d (Suc k))) (K root), p k := K (p k) vcclSuccess (c' (p k))) = at (Suc k)"
      using ne [OF k] by (auto simp: at_def lessThan_Suc fun_eq_iff)
    with step [OF k r q ne(1) [OF k]] show ?thesis by simp
  qed
  then have "net_step\<^sup>*\<^sup>* (at 0) (at k)" if "k \<le> n - 1" for k
    using that
  proof (induction k)
    case (Suc k)
    then have "net_step\<^sup>*\<^sup>* (at 0) (at k)" "net_step\<^sup>*\<^sup>* (at k) (at (Suc k))" by simp_all
    then show ?case by (rule rtranclp_trans)
  qed simp
  then have "net_step\<^sup>*\<^sup>* (at 0) (at (n - 1))" by simp
  moreover have "at 0 = cfg" using cfg [of root] P(1) d(1) root by (auto simp: at_def loop_def fun_eq_iff)
  moreover have "at (n - 1) = (\<lambda>r. if r \<in> {..<n} then K r vcclSuccess (c' r) else cfg r)"
  proof
    fix r
    have "r \<in> p ` {..<n - 1}" if "r < n" "r \<noteq> root" using star_peers [OF root] that pos by auto
    moreover have "p s < n" if "s < n - 1" for s using ne(2) [of s] that by simp
    ultimately show "at (n - 1) r = (if r \<in> {..<n} then K r vcclSuccess (c' r) else cfg r)"
      using root d(2) by (auto simp: at_def ok_def)
  qed
  ultimately show "net_step\<^sup>*\<^sup>* cfg (\<lambda>r. if r \<in> {..<n} then K r vcclSuccess (c' r) else cfg r)" by simp
qed

lemma star_peer:
  fixes n root :: nat
  assumes "world n c0" "root < n" "Suc s < n" "(root + Suc s) mod n \<noteq> root"
  shows "peerOk (comm (c0 root)) ((root + Suc s) mod n)" "peerOk (comm (c0 ((root + Suc s) mod n))) root"
    "transport (comm (c0 root)) \<noteq> None" "transport (comm (c0 ((root + Suc s) mod n))) \<noteq> None"
  using assms mod_less_divisor [of n "root + Suc s"] by (auto simp: world_def peerOk_def)

lemma mem_posted_swap: "c\<lparr>posted := q, mem := m\<rparr> = c\<lparr>mem := m, posted := q\<rparr>" for c :: ctx
  by simp

text \<open>The root receives from every peer, in its slot \<open>rb p\<close>.\<close>

primrec gatherMem :: "nat \<Rightarrow> nat \<Rightarrow> (nat \<Rightarrow> addr) \<Rightarrow> (nat \<Rightarrow> addr) \<Rightarrow> nat \<Rightarrow> (nat \<Rightarrow> mem) \<Rightarrow> nat \<Rightarrow> mem" where
  "gatherMem root n sb rb len M 0 = M root"
| "gatherMem root n sb rb len M (Suc s) =
     (let p = (root + Suc s) mod n in wr (gatherMem root n sb rb len M s) (rb p) (rd (M p) (sb p) len))"

lemma phase_gather:
  assumes w: "world n c0" and root: "root < n"
    and J: "\<And>M. J M \<Longrightarrow> J' (\<lambda>r. if r = root then gatherMem root n sb rb len M (n - 1) else M r)"
  shows "phase {..<n} c0 (\<lambda>_. []) (\<lambda>r. if r = root then loop (n - 1) (\<lambda>s. trecv ((root + Suc s) mod n) (rb ((root + Suc s) mod n)) len)
      else tsend root (sb r) len) (\<lambda>_. []) J J'"
proof (rule phaseI)
  fix M assume "J M"
  let ?d = "\<lambda>s. upd c0 (\<lambda>_. gatherMem root n sb rb len M s) (\<lambda>_. []) root"
  let ?M' = "\<lambda>r. if r = root then gatherMem root n sb rb len M (n - 1) else M r"
  have "par {..<n} (\<lambda>r. if r = root then loop (n - 1) (\<lambda>s. trecv ((root + Suc s) mod n) (rb ((root + Suc s) mod n)) len)
      else tsend root (sb r) len) (upd c0 M (\<lambda>_. [])) (upd c0 ?M' (\<lambda>_. []))"
  proof (rule par_star [OF root refl, where d = ?d and Q = "\<lambda>r. tsend root (sb r) len"])
    fix s cfg Kr Kp
    let ?p = "(root + Suc s) mod n"
    assume s: "Suc s < n" and r: "cfg root = bindp (trecv ?p (rb ?p) len (?d s)) Kr"
      and q: "cfg ?p = bindp (tsend root (sb ?p) len (upd c0 M (\<lambda>_. []) ?p)) Kp" and ne: "?p \<noteq> root"
    note peer = star_peer [OF w root s ne]
    have "sendOk (upd c0 M (\<lambda>_. []) ?p) root (sb ?p) len" using peer by (simp add: sendOk_def)
    moreover have "recvOk (?d s) ?p (rb ?p) len []" using peer by (simp add: recvOk_def consumes_def)
    ultimately have "net_step\<^sup>*\<^sup>* cfg (cfg(?p := Kp vcclSuccess (upd c0 M (\<lambda>_. []) ?p),
        root := Kr vcclSuccess ((?d s)\<lparr>posted := [], mem := wr (mem (?d s)) (rb ?p) (rd (mem (upd c0 M (\<lambda>_. []) ?p)) (sb ?p) len)\<rparr>)))"
      by (rule pair_run [OF ne q r])
    then show "net_step\<^sup>*\<^sup>* cfg (cfg(root := Kr vcclSuccess (?d (Suc s)), ?p := Kp vcclSuccess (upd c0 ?M' (\<lambda>_. []) ?p)))"
      using ne by (simp add: upd_def mem_posted_swap Let_def fun_upd_twist)
  qed (auto simp: upd_def)
  with J [OF \<open>J M\<close>] show "\<exists>M'. par {..<n} (\<lambda>r. if r = root then loop (n - 1) (\<lambda>s. trecv ((root + Suc s) mod n) (rb ((root + Suc s) mod n)) len)
      else tsend root (sb r) len) (upd c0 M (\<lambda>_. [])) (upd c0 M' (\<lambda>_. [])) \<and> J' M'" by blast
qed

text \<open>The root sends to every peer its slot \<open>sb p\<close>.\<close>

lemma phase_scatter:
  assumes w: "world n c0" and root: "root < n"
    and J: "\<And>M. J M \<Longrightarrow> J' (\<lambda>r. if r < n \<and> r \<noteq> root then wr (M r) (rb r) (rd (M root) (sb r) len) else M r)"
  shows "phase {..<n} c0 (\<lambda>_. []) (\<lambda>r. if r = root then loop (n - 1) (\<lambda>s. tsend ((root + Suc s) mod n) (sb ((root + Suc s) mod n)) len)
      else trecv root (rb r) len) (\<lambda>_. []) J J'"
proof (rule phaseI)
  fix M assume "J M"
  let ?M' = "\<lambda>r. if r < n \<and> r \<noteq> root then wr (M r) (rb r) (rd (M root) (sb r) len) else M r"
  have "par {..<n} (\<lambda>r. if r = root then loop (n - 1) (\<lambda>s. tsend ((root + Suc s) mod n) (sb ((root + Suc s) mod n)) len)
      else trecv root (rb r) len) (upd c0 M (\<lambda>_. [])) (upd c0 ?M' (\<lambda>_. []))"
  proof (rule par_star [OF root refl, where d = "\<lambda>_. upd c0 M (\<lambda>_. []) root" and Q = "\<lambda>r. trecv root (rb r) len"])
    fix s cfg Kr Kp
    let ?p = "(root + Suc s) mod n"
    assume s: "Suc s < n" and r: "cfg root = bindp (tsend ?p (sb ?p) len (upd c0 M (\<lambda>_. []) root)) Kr"
      and q: "cfg ?p = bindp (trecv root (rb ?p) len (upd c0 M (\<lambda>_. []) ?p)) Kp" and ne: "?p \<noteq> root"
    note peer = star_peer [OF w root s ne]
    have "sendOk (upd c0 M (\<lambda>_. []) root) ?p (sb ?p) len" using peer by (simp add: sendOk_def)
    moreover have "recvOk (upd c0 M (\<lambda>_. []) ?p) root (rb ?p) len []" using peer by (simp add: recvOk_def consumes_def)
    ultimately have "net_step\<^sup>*\<^sup>* cfg (cfg(root := Kr vcclSuccess (upd c0 M (\<lambda>_. []) root),
        ?p := Kp vcclSuccess ((upd c0 M (\<lambda>_. []) ?p)\<lparr>posted := [], mem := wr (mem (upd c0 M (\<lambda>_. []) ?p)) (rb ?p)
          (rd (mem (upd c0 M (\<lambda>_. []) root)) (sb ?p) len)\<rparr>)))"
      using ne by (intro pair_run [OF _ r q]) auto
    then show "net_step\<^sup>*\<^sup>* cfg (cfg(root := Kr vcclSuccess (upd c0 M (\<lambda>_. []) root), ?p := Kp vcclSuccess (upd c0 ?M' (\<lambda>_. []) ?p)))"
      using ne root mod_less_divisor [of n "root + Suc s"] by (simp add: upd_def mem_posted_swap)
  qed (auto simp: upd_def)
  with J [OF \<open>J M\<close>] show "\<exists>M'. par {..<n} (\<lambda>r. if r = root then loop (n - 1) (\<lambda>s. tsend ((root + Suc s) mod n) (sb ((root + Suc s) mod n)) len)
      else trecv root (rb r) len) (upd c0 M (\<lambda>_. [])) (upd c0 M' (\<lambda>_. [])) \<and> J' M'" by blast
qed

subsection \<open>Gather\<close>

lemma gatherMem_slots:
  assumes "root < n" "s < n"
  shows "j < n \<Longrightarrow> rd (gatherMem root n sb (\<lambda>p. b + p * l) l M s) (b + j * l) l =
      (if j \<in> (\<lambda>t. (root + Suc t) mod n) ` {..<s} then rd (M j) (sb j) l else rd (M root) (b + j * l) l)"
    and "x < b \<or> b + n * l \<le> x \<Longrightarrow> gatherMem root n sb (\<lambda>p. b + p * l) l M s x = M root x"
proof -
  have "(j < n \<longrightarrow> rd (gatherMem root n sb (\<lambda>p. b + p * l) l M s) (b + j * l) l =
      (if j \<in> (\<lambda>t. (root + Suc t) mod n) ` {..<s} then rd (M j) (sb j) l else rd (M root) (b + j * l) l)) \<and>
     (x < b \<or> b + n * l \<le> x \<longrightarrow> gatherMem root n sb (\<lambda>p. b + p * l) l M s x = M root x)"
    using assms(2)
  proof (induction s)
    case (Suc s)
    let ?p = "(root + Suc s) mod n"
    have p: "?p < n" using assms by simp
    have "?p * l + l \<le> n * l" using elem_le [OF p] .
    moreover have "j = ?p \<or> disj (b + ?p * l) l (b + j * l) l" using slots_apart [of ?p j b l] by auto
    ultimately show ?case
      using Suc by (auto simp: Let_def lessThan_Suc rd_wr_same rd_wr_disj wr_outside)
  qed simp
  then show "j < n \<Longrightarrow> rd (gatherMem root n sb (\<lambda>p. b + p * l) l M s) (b + j * l) l =
      (if j \<in> (\<lambda>t. (root + Suc t) mod n) ` {..<s} then rd (M j) (sb j) l else rd (M root) (b + j * l) l)"
    and "x < b \<or> b + n * l \<le> x \<Longrightarrow> gatherMem root n sb (\<lambda>p. b + p * l) l M s x = M root x" by blast+
qed

lemma doGather_eq:
  assumes "rank (comm c) = r" "nranks (comm c) = n" "cb = cnt * vcclTypeSize dt"
  shows "doGather send recv cnt dt root c =
    (if n = 1 \<or> cnt = 0 then cwhen (cnt > 0 \<and> send \<noteq> recv) (memcpy recv send cb)
     else scoped (check (regAdd (if r = root then recv else send) (if r = root then n * cb else cb))
       (check (cwhen (r = root \<and> send \<noteq> recv + root * cb) (memcpy (recv + root * cb) send cb))
         (if r = root then loop (n - 1) (\<lambda>s. trecv ((root + Suc s) mod n) (recv + (root + Suc s) mod n * cb) cb)
          else tsend root send cb)))) c"
  unfolding doGather_def Let_def assms(1,2) assms(3) [symmetric] vseq_Cons vseq_Nil check_ok by (simp add: cwhen_def)

lemma doGather_works:
  assumes c: "ready n c" and root: "root < n" and cb: "cb = cnt * vcclTypeSize dt"
    and b: "slotOk (recv root + root * cb) (send root) cb"
  shows "worksOn n c (\<lambda>r. doGather (send r) (recv r) cnt dt root) recv (\<lambda>r. if r = root then n * cb else 0)
    (\<lambda>M. \<forall>j<n. rd (M root) (recv root + j * cb) cb = rd (mem (c j)) (send j) cb)" (is "worksOn _ _ _ _ ?k ?Q")
proof -
  let ?copy = "\<lambda>r. cwhen (r = root \<and> send r \<noteq> recv r + root * cb) (memcpy (recv r + root * cb) (send r) cb)"
  let ?xfer = "\<lambda>r. if r = root then loop (n - 1) (\<lambda>s. trecv ((root + Suc s) mod n) (recv r + (root + Suc s) mod n * cb) cb)
      else tsend root (send r) cb"
  have "worksOn n c (\<lambda>r. if n = 1 \<or> cnt = 0 then cwhen (cnt > 0 \<and> send r \<noteq> recv r) (memcpy (recv r) (send r) cb)
      else scoped (check (regAdd (if r = root then recv r else send r) (if r = root then n * cb else cb)) (check (?copy r) (?xfer r)))) recv ?k ?Q"
  proof (cases "n = 1 \<or> cnt = 0")
    case True
    have "worksOn n c (\<lambda>r. cwhen (cnt > 0 \<and> send r \<noteq> recv r) (memcpy (recv r) (send r) cb)) recv ?k ?Q"
      by (rule works_conseq [OF works_copy_if [OF c, where b = "\<lambda>_. 0 < cnt" and l = "\<lambda>_. cb"]])
        (use b True root cb in \<open>auto simp: rd_wr_same\<close>)
    with True show ?thesis by simp
  next
    case False
    have "worksOn n c (\<lambda>r. scoped (check (regAdd (if r = root then recv r else send r) (if r = root then n * cb else cb)) (check (?copy r) (?xfer r)))) recv ?k ?Q"
    proof (rule works_scoped [OF c], rule works_check [OF laterD(1)], assumption)
      fix c1 assume 1: "laterOn n c c1 recv ?k" and m1: "\<And>r. r < n \<Longrightarrow> mem (c1 r) = mem (c r)"
      show "worksOn n c1 (\<lambda>r. regAdd (if r = root then recv r else send r) (if r = root then n * cb else cb)) recv ?k (\<lambda>M. \<forall>r<n. M r = mem (c r))"
        using 1 m1 by (intro works_regAdd) (auto simp: laterD)
      fix c2 assume 2: "laterOn n c1 c2 recv ?k" and m2: "\<forall>r<n. mem (c2 r) = mem (c r)"
      have "worksOn n c2 ?copy recv ?k (\<lambda>M. rd (M root) (recv root + root * cb) cb = rd (mem (c root)) (send root) cb \<and>
          (\<forall>r<n. r \<noteq> root \<longrightarrow> M r = mem (c r)))"
        by (rule works_conseq [OF works_copy_if [OF laterD(1) [OF 2], where b = "\<lambda>r. r = root" and l = "\<lambda>_. cb"]])
          (use b root m2 elem_le [OF root, of cb] in \<open>auto simp: rd_wr_same\<close>)
      then show "worksOn n c2 (\<lambda>r. check (?copy r) (?xfer r)) recv ?k ?Q"
      proof (rule works_check [OF laterD(1) [OF 2]])
        fix c3 assume 3: "laterOn n c2 c3 recv ?k" and m3: "rd (mem (c3 root)) (recv root + root * cb) cb = rd (mem (c root)) (send root) cb \<and>
          (\<forall>r<n. r \<noteq> root \<longrightarrow> mem (c3 r) = mem (c r))"
        let ?g = "gatherMem root n send (\<lambda>p. recv root + p * cb) cb (\<lambda>r. mem (c3 r)) (n - 1)"
        have "phase {..<n} c3 (\<lambda>_. []) (\<lambda>r. if r = root then loop (n - 1) (\<lambda>s. trecv ((root + Suc s) mod n) (recv root + (root + Suc s) mod n * cb) cb)
            else tsend root (send r) cb) (\<lambda>_. []) (\<lambda>M. M = (\<lambda>r. mem (c3 r))) (\<lambda>M. M = (\<lambda>r. if r = root then ?g else mem (c3 r)))"
          by (rule phase_gather [OF laterD(2) [OF 3] root]) simp
        then have "phase {..<n} c3 (\<lambda>_. []) ?xfer (\<lambda>_. []) (\<lambda>M. M = (\<lambda>r. mem (c3 r))) (\<lambda>M. M = (\<lambda>r. if r = root then ?g else mem (c3 r)))"
          by (rule phase_cong [THEN iffD1, rotated]) simp
        then show "worksOn n c3 ?xfer recv ?k ?Q"
          by (rule worksOn_phase [OF _ laterD(1) [OF 3]])
            (use m3 root gatherMem_slots [OF root, of "n - 1"] star_peers [OF root] in \<open>auto split: if_splits\<close>)
      qed
    qed
    with False show ?thesis by simp
  qed
  then show ?thesis
    by (subst works_cong) (use ready_rank [OF c] cb in \<open>auto simp: doGather_eq\<close>)
qed

subsection \<open>Scatter\<close>

lemma doScatter_eq:
  assumes "rank (comm c) = r" "nranks (comm c) = n" "cb = cnt * vcclTypeSize dt"
  shows "doScatter send recv cnt dt root c =
    (if n = 1 \<or> cnt = 0 then cwhen (cnt > 0 \<and> send \<noteq> recv) (memcpy recv send cb)
     else scoped (check (regAdd (if r = root then send else recv) (if r = root then n * cb else cb))
       (check (cwhen (r = root \<and> send + root * cb \<noteq> recv) (memcpy recv (send + root * cb) cb))
         (if r = root then loop (n - 1) (\<lambda>s. tsend ((root + Suc s) mod n) (send + (root + Suc s) mod n * cb) cb)
          else trecv root recv cb)))) c"
  unfolding doScatter_def Let_def assms(1,2) assms(3) [symmetric] vseq_Cons vseq_Nil check_ok by (auto simp: cwhen_def)

lemma doScatter_works:
  assumes c: "ready n c" and root: "root < n" and cb: "cb = cnt * vcclTypeSize dt"
    and b: "recv root = send root + root * cb \<or> disj (recv root) cb (send root) (n * cb)"
  shows "works n c (\<lambda>r. doScatter (send r) (recv r) cnt dt root) recv cb
    (\<lambda>M. \<forall>r<n. rd (M r) (recv r) cb = rd (mem (c root)) (send root + r * cb) cb)" (is "works _ _ _ _ _ ?Q")
proof -
  let ?copy = "\<lambda>r. cwhen (r = root \<and> send r + root * cb \<noteq> recv r) (memcpy (recv r) (send r + root * cb) cb)"
  let ?xfer = "\<lambda>r. if r = root then loop (n - 1) (\<lambda>s. tsend ((root + Suc s) mod n) (send r + (root + Suc s) mod n * cb) cb)
      else trecv root (recv r) cb"
  have slot: "slotOk (recv root) (send root + root * cb) cb"
    using b elem_le [OF root, of cb] disj_sub_both [of "recv root" cb "send root" "n * cb" "recv root" cb "send root + root * cb" cb]
    by (auto simp: slotOk_def)
  have "works n c (\<lambda>r. if n = 1 \<or> cnt = 0 then cwhen (cnt > 0 \<and> send r \<noteq> recv r) (memcpy (recv r) (send r) cb)
      else scoped (check (regAdd (if r = root then send r else recv r) (if r = root then n * cb else cb)) (check (?copy r) (?xfer r)))) recv cb ?Q"
  proof (cases "n = 1 \<or> cnt = 0")
    case True
    have "works n c (\<lambda>r. cwhen (cnt > 0 \<and> send r \<noteq> recv r) (memcpy (recv r) (send r) cb)) recv cb ?Q"
      by (rule works_conseq [OF works_copy_if [OF c, where b = "\<lambda>_. 0 < cnt" and l = "\<lambda>_. cb"]])
        (use slot True root cb in \<open>auto simp: rd_wr_same\<close>)
    with True show ?thesis by simp
  next
    case False
    have "works n c (\<lambda>r. scoped (check (regAdd (if r = root then send r else recv r) (if r = root then n * cb else cb)) (check (?copy r) (?xfer r)))) recv cb ?Q"
    proof (rule works_scoped [OF c], rule works_check [OF laterD(1)], assumption)
      fix c1 assume 1: "later n c c1 recv cb" and m1: "\<And>r. r < n \<Longrightarrow> mem (c1 r) = mem (c r)"
      show "works n c1 (\<lambda>r. regAdd (if r = root then send r else recv r) (if r = root then n * cb else cb)) recv cb (\<lambda>M. \<forall>r<n. M r = mem (c r))"
        using 1 m1 by (intro works_regAdd) (auto simp: laterD)
      fix c2 assume 2: "later n c1 c2 recv cb" and m2: "\<forall>r<n. mem (c2 r) = mem (c r)"
      have other: "disj (recv root) cb (send root + j * cb) cb" if "recv root \<noteq> send root + root * cb" "j < n" for j
        using b that elem_le [OF that(2), of cb] disj_sub_both [of "recv root" cb "send root" "n * cb" "recv root" cb "send root + j * cb" cb] by auto
      have "works n c2 ?copy recv cb (\<lambda>M. rd (M root) (recv root) cb = rd (mem (c root)) (send root + root * cb) cb \<and>
          (\<forall>j<n. rd (M root) (send root + j * cb) cb = rd (mem (c root)) (send root + j * cb) cb))"
        by (rule works_conseq [OF works_copy_if [OF laterD(1) [OF 2], where b = "\<lambda>r. r = root" and l = "\<lambda>_. cb"]])
          (use slot root m2 other in \<open>auto simp: rd_wr_same rd_wr_disj\<close>)
      then show "works n c2 (\<lambda>r. check (?copy r) (?xfer r)) recv cb ?Q"
      proof (rule works_check [OF laterD(1) [OF 2]])
        fix c3 assume 3: "later n c2 c3 recv cb" and m3: "rd (mem (c3 root)) (recv root) cb = rd (mem (c root)) (send root + root * cb) cb \<and>
          (\<forall>j<n. rd (mem (c3 root)) (send root + j * cb) cb = rd (mem (c root)) (send root + j * cb) cb)"
        let ?M = "\<lambda>r. if r < n \<and> r \<noteq> root then wr (mem (c3 r)) (recv r) (rd (mem (c3 root)) (send root + r * cb) cb) else mem (c3 r)"
        have "phase {..<n} c3 (\<lambda>_. []) (\<lambda>r. if r = root then loop (n - 1) (\<lambda>s. tsend ((root + Suc s) mod n) (send root + (root + Suc s) mod n * cb) cb)
            else trecv root (recv r) cb) (\<lambda>_. []) (\<lambda>M. M = (\<lambda>r. mem (c3 r))) (\<lambda>M. M = ?M)"
          by (rule phase_scatter [OF laterD(2) [OF 3] root]) simp
        then have "phase {..<n} c3 (\<lambda>_. []) ?xfer (\<lambda>_. []) (\<lambda>M. M = (\<lambda>r. mem (c3 r))) (\<lambda>M. M = ?M)"
          by (rule phase_cong [THEN iffD1, rotated]) simp
        then show "works n c3 ?xfer recv cb ?Q"
          by (rule worksOn_phase [OF _ laterD(1) [OF 3]]) (use m3 root in \<open>auto simp: rd_wr_same wr_outside\<close>)
      qed
    qed
    with False show ?thesis by simp
  qed
  then show ?thesis
    by (subst works_cong) (use ready_rank [OF c] cb in \<open>auto simp: doScatter_eq\<close>)
qed

end
