(* ===== verification/Vccl_Examples.thy ===== *)
theory Vccl_Examples
  imports Vccl_Entry
begin

text \<open>
  A concrete machine for the witnesses: \<open>n\<close> ranks over TCP, the user's buffers below address 1000,
  scratch space from 1000 on and a floating-point unit that computes on the bit patterns.
\<close>

definition exFpu :: fpu where
  "exFpu = \<lparr>f_add = (+), f_mul = (*), f_gt = (\<lambda>a b. a > b), f_lt = (\<lambda>a b. a < b),
     d_add = (+), d_mul = (*), d_gt = (\<lambda>a b. a > b), d_lt = (\<lambda>a b. a < b), d_recip = of_nat,
     d2f = ucast, cvtph_ps = ucast, cvtps_ph = ucast, hasAvx2 = True, hasF16C = True, vcclX86 = True\<rparr>"

definition exComm :: "nat \<Rightarrow> nat \<Rightarrow> vcclComm" where
  "exComm n r = \<lparr>rank = r, nranks = n, transport = Some \<lparr>impl = TcpTransport, taborted = False\<rparr>,
     registrations = [], customOps = [], asyncError = vcclSuccess, aborted = False, lastError = [],
     scratchBuf = 1000, scratchSize = 0, scratchRegHandle = 0, mrCache = [], mrClock = 0, scopedRegs = []\<rparr>"

text \<open>Byte \<open>x\<close> of rank \<open>r\<close> holds \<open>10 * r + x\<close>.\<close>

definition exCtx :: "nat \<Rightarrow> nat \<Rightarrow> ctx" where
  "exCtx n r = \<lparr>mem = (\<lambda>x. of_nat (10 * r + x)), comm = exComm n r, env = (\<lambda>_. None), fp = exFpu,
     alloc = (\<lambda>_. 1000), errText = [], posted = []\<rparr>"

definition exTls :: tls where
  "exTls = \<lparr>t_groupDepth = 0, t_groupOps = []\<rparr>"

lemma exCtx_sel [simp]:
  "env (exCtx n r) = (\<lambda>_. None)" "fp (exCtx n r) = exFpu" "posted (exCtx n r) = []"
  "comm (exCtx n r) = exComm n r" "mem (exCtx n r) = (\<lambda>x. of_nat (10 * r + x))"
  by (simp_all add: exCtx_def)

lemma exComm_sel [simp]:
  "rank (exComm n r) = r" "nranks (exComm n r) = n" "transport (exComm n r) \<noteq> None"
  "aborted (exComm n r) = False" "customOps (exComm n r) = []" "isVerbs (exComm n r) = False"
  by (simp_all add: exComm_def isVerbs_def verbsImpl_def)

lemma exCtx_ready: "0 < n \<Longrightarrow> ready n (exCtx n)"
  by (simp add: ready_def world_def exCtx_def regAccepts_def implAccepts_def exComm_def)

lemma exCtx_callable: "0 < n \<Longrightarrow> (\<And>r. cp r \<noteq> 0) \<Longrightarrow> callable n (exCtx n) cp (\<lambda>_. exTls)"
  by (simp add: callable_def exCtx_ready exTls_def)

lemma exCtx_scratch: "p + k \<le> 1000 \<Longrightarrow> scratchSafe (exCtx n r) p k"
  by (simp add: scratchSafe_def exCtx_def exComm_def disj_def)

end
