(* ===== verification/Vccl_Comm_Api.thy ===== *)
theory Vccl_Comm_Api
  imports Vccl_Comm Vccl_Reduce
begin

text \<open>
  The communicator management entry points of \<^verbatim>\<open>src/core/comm.cc\<close>. A communicator pointer is an
  option (\<open>None\<close> is null); an out-parameter is a flag that says whether the caller passed a non-null
  pointer and a component of the result. The operating system is the record \<open>os\<close>: the current
  mappings (address and length) and the table \<^verbatim>\<open>g_memAllocs\<close>; the address a successful \<^verbatim>\<open>mmap\<close>
  picks, the address \<^verbatim>\<open>new\<close> gives to a \<open>MemReg\<close> and to a staging buffer are arguments.
  \<open>vcclCommInitRank\<close> and the exchanges of \<open>vcclCommSplit\<close> belong to the bootstrap component; here
  \<open>splitMembers\<close> and \<open>splitRank\<close> are the membership computation between the two exchanges.
\<close>

unbundle bit_operations_syntax

record os =
  mappings :: "(addr \<times> nat) list"
  g_memAllocs :: "addr \<Rightarrow> nat option"

definition munmap :: "addr \<Rightarrow> nat \<Rightarrow> os \<Rightarrow> os" where
  "munmap p n s = s\<lparr>mappings := remove1 (p, n) (mappings s)\<rparr>"

text \<open>Only the member \<^verbatim>\<open>size\<close> of a configuration is looked at; \<^verbatim>\<open>sizeof(size_t)\<close> is 8.\<close>

definition validateConfig :: "nat option \<Rightarrow> vcclResult_t" where
  "validateConfig config =
     (case config of None \<Rightarrow> vcclSuccess
      | Some sz \<Rightarrow> if sz < 8 then vcclInvalidArgument else vcclSuccess)"

definition VCCL_VERSION_CODE :: int where
  "VCCL_VERSION_CODE = 0 * 10000 + 2 * 100 + 0"

definition vcclGetVersion :: "bool \<Rightarrow> vcclResult_t \<times> int option" where
  "vcclGetVersion version = (if \<not> version then (vcclInvalidArgument, None)
     else (vcclSuccess, Some VCCL_VERSION_CODE))"

definition vcclGetLastError :: "vcclComm option \<Rightarrow> string \<Rightarrow> string" where
  "vcclGetLastError comm threadText =
     (case comm of Some c \<Rightarrow> if lastError c \<noteq> [] then lastError c else threadText
      | None \<Rightarrow> threadText)"

definition vcclCommFinalize :: "vcclComm option \<Rightarrow> vcclResult_t" where
  "vcclCommFinalize comm = (if comm = None then vcclInvalidArgument else vcclSuccess)"

definition vcclCommAbort :: "string \<Rightarrow> vcclComm option \<Rightarrow> vcclResult_t \<times> vcclComm option" where
  "vcclCommAbort threadText comm =
     (case comm of
        None \<Rightarrow> (vcclInvalidArgument, None)
      | Some c \<Rightarrow>
          let c1 = noteError threadText vcclUnhandledError (c\<lparr>aborted := True\<rparr>)
          in (vcclSuccess, Some (c1\<lparr>transport := map_option abort (transport c1)\<rparr>)))"

definition vcclCommGetAsyncError ::
  "vcclComm option \<Rightarrow> bool \<Rightarrow> vcclResult_t \<times> vcclResult_t option" where
  "vcclCommGetAsyncError comm out =
     (case comm of
        None \<Rightarrow> (vcclInvalidArgument, None)
      | Some c \<Rightarrow> if \<not> out then (vcclInvalidArgument, None) else (vcclSuccess, Some (asyncError c)))"

text \<open>The mappings and transport after \<open>vcclCommDestroy\<close>, just before the members are destroyed.\<close>

definition destroyReg :: "MemReg \<Rightarrow> vcclComm \<times> os \<Rightarrow> vcclComm \<times> os" where
  "destroyReg reg cs =
     (case cs of (c, s) \<Rightarrow>
        (commDereg (transportHandle reg) c,
         if mapped reg \<noteq> 0 then munmap (mapped reg) (mbytes reg) s else s))"

definition vcclCommDestroy :: "vcclComm option \<Rightarrow> os \<Rightarrow> vcclResult_t \<times> vcclComm option \<times> os" where
  "vcclCommDestroy comm s =
     (case comm of
        None \<Rightarrow> (vcclSuccess, None, s)
      | Some c \<Rightarrow>
          (case fold destroyReg (registrations c) (flushMrCache c, s) of
             (c', s') \<Rightarrow> (vcclSuccess, Some c', s')))"

definition vcclCommRegister ::
  "vcclComm option \<Rightarrow> addr \<Rightarrow> nat \<Rightarrow> bool \<Rightarrow> addr \<Rightarrow> vcclResult_t \<times> addr \<times> vcclComm option" where
  "vcclCommRegister comm buff bytes out newPtr =
     (case comm of
        None \<Rightarrow> (vcclInvalidArgument, 0, None)
      | Some c \<Rightarrow>
          if buff = 0 \<or> bytes = 0 \<or> \<not> out then (vcclInvalidArgument, 0, Some c)
          else (case commReg buff bytes c of (res, h, c1) \<Rightarrow>
                  if res \<noteq> vcclSuccess then (res, 0, Some c1)
                  else (vcclSuccess, newPtr,
                        Some (c1\<lparr>registrations := registrations c1 @
                          [\<lparr>memPtr = newPtr, transportHandle = h, mapped = 0, mbytes = bytes\<rparr>]\<rparr>))))"

definition vcclCommRegisterDmaBuf ::
  "vcclComm option \<Rightarrow> int \<Rightarrow> nat \<Rightarrow> nat \<Rightarrow> bool \<Rightarrow> bool \<Rightarrow> addr option \<Rightarrow> addr \<Rightarrow> addr \<Rightarrow> os
    \<Rightarrow> vcclResult_t \<times> (addr \<times> addr) option \<times> vcclComm option \<times> os" where
  "vcclCommRegisterDmaBuf comm fd offset bytes ptrOut out mm newPtr stagingBuf s =
     (case comm of
        None \<Rightarrow> (vcclInvalidArgument, None, None, s)
      | Some c \<Rightarrow>
          if fd < 0 \<or> bytes = 0 \<or> \<not> ptrOut \<or> \<not> out then (vcclInvalidArgument, None, Some c, s)
          else (case mm of
              None \<Rightarrow> (vcclSystemError, None, Some c, s)
            | Some p \<Rightarrow>
                let s1 = s\<lparr>mappings := (p, bytes) # mappings s\<rparr>;
                    (res, h, c1) =
                      (case transport c of
                         None \<Rightarrow> (vcclSuccess, 0, c)
                       | Some t \<Rightarrow> (case regDmaBuf t fd offset p bytes stagingBuf of
                                     (e, h, t') \<Rightarrow> (e, h, c\<lparr>transport := Some t'\<rparr>)))
                in if res \<noteq> vcclSuccess then (res, None, Some c1, munmap p bytes s1)
                   else (vcclSuccess, Some (p, newPtr),
                         Some (c1\<lparr>registrations := registrations c1 @
                           [\<lparr>memPtr = newPtr, transportHandle = h, mapped = p, mbytes = bytes\<rparr>]\<rparr>), s1)))"

fun eraseReg :: "addr \<Rightarrow> MemReg list \<Rightarrow> (MemReg \<times> MemReg list) option" where
  "eraseReg h [] = None"
| "eraseReg h (r # rs) =
     (if memPtr r = h then Some (r, rs) else map_option (\<lambda>(x, xs). (x, r # xs)) (eraseReg h rs))"

definition vcclCommDeregister ::
  "vcclComm option \<Rightarrow> addr \<Rightarrow> os \<Rightarrow> vcclResult_t \<times> vcclComm option \<times> os" where
  "vcclCommDeregister comm handle s =
     (case comm of
        None \<Rightarrow> (vcclInvalidArgument, None, s)
      | Some c \<Rightarrow>
          if handle = 0 then (vcclInvalidArgument, Some c, s)
          else (case eraseReg handle (registrations c) of
              None \<Rightarrow> (vcclInvalidArgument, Some c, s)
            | Some (reg, rest) \<Rightarrow>
                let c1 = (flushMrCache c)\<lparr>registrations := rest\<rparr>;
                    c2 = commDereg (transportHandle reg) c1
                in (vcclSuccess, Some c2,
                    if mapped reg \<noteq> 0 then munmap (mapped reg) (mbytes reg) s else s)))"

definition vcclCommCount :: "vcclComm option \<Rightarrow> bool \<Rightarrow> vcclResult_t \<times> nat option" where
  "vcclCommCount comm out =
     (case comm of Some c \<Rightarrow> if out then (vcclSuccess, Some (nranks c)) else (vcclInvalidArgument, None)
      | None \<Rightarrow> (vcclInvalidArgument, None))"

definition vcclCommUserRank :: "vcclComm option \<Rightarrow> bool \<Rightarrow> vcclResult_t \<times> nat option" where
  "vcclCommUserRank comm out =
     (case comm of Some c \<Rightarrow> if out then (vcclSuccess, Some (rank c)) else (vcclInvalidArgument, None)
      | None \<Rightarrow> (vcclInvalidArgument, None))"

definition vcclCommDevice :: "vcclComm option \<Rightarrow> bool \<Rightarrow> vcclResult_t \<times> nat option" where
  "vcclCommDevice comm out =
     (case comm of Some c \<Rightarrow> if out then (vcclSuccess, Some 0) else (vcclInvalidArgument, None)
      | None \<Rightarrow> (vcclInvalidArgument, None))"

subsection \<open>Custom reduction operators\<close>

text \<open>The floating-point steps of the scalar decoding: \<open>f2d\<close> widens a float, \<open>half_scalar\<close> computes
  \<open>(-1)^s * ldexp(m / 1024, e)\<close> in float arithmetic from the sign, the integer \<open>m\<close> and the exponent.\<close>

record fpconv =
  f2d :: "32 word \<Rightarrow> 64 word"
  half_scalar :: "bool \<Rightarrow> nat \<Rightarrow> int \<Rightarrow> 32 word"

definition premulHalf :: "fpconv \<Rightarrow> 16 word \<Rightarrow> 32 word" where
  "premulHalf fc bits =
     (let ex = uint (drop_bit 10 bits AND 0x1f) - 15;
          mant = unat (bits AND 0x3ff);
          neg = (bits AND 0x8000 \<noteq> 0)
      in if ex = -15 then half_scalar fc neg mant (-14)
         else half_scalar fc neg (1024 + mant) ex)"

definition premulValue :: "fpconv \<Rightarrow> vcclDataType_t \<Rightarrow> mem \<Rightarrow> addr \<Rightarrow> (64 word) option" where
  "premulValue fc dt m p =
     (case dt of
        vcclFloat32 \<Rightarrow> Some (f2d fc (ldw m p 0))
      | vcclFloat64 \<Rightarrow> Some (ldw m p 0)
      | vcclFloat16 \<Rightarrow> Some (f2d fc (premulHalf fc (ldw m p 0)))
      | vcclBfloat16 \<Rightarrow> Some (f2d fc (push_bit 16 (ucast (ldw m p 0 :: 16 word))))
      | _ \<Rightarrow> None)"

fun freeSlot :: "nat \<Rightarrow> CustomOp list \<Rightarrow> nat option" where
  "freeSlot i [] = None"
| "freeSlot i (o' # os') = (if \<not> opActive o' then Some i else freeSlot (Suc i) os')"

definition vcclRedOpCreatePreMulSum ::
  "fpconv \<Rightarrow> mem \<Rightarrow> bool \<Rightarrow> addr \<Rightarrow> vcclDataType_t \<Rightarrow> bool \<Rightarrow> vcclComm option
    \<Rightarrow> vcclResult_t \<times> vcclRedOp_t option \<times> vcclComm option" where
  "vcclRedOpCreatePreMulSum fc m out scalar dt hostImmediate comm =
     (case comm of
        None \<Rightarrow> (vcclInvalidArgument, None, None)
      | Some c \<Rightarrow>
          if \<not> out \<or> scalar = 0 then (vcclInvalidArgument, None, Some c)
          else if \<not> hostImmediate then (vcclInvalidArgument, None, Some c)
          else (case premulValue fc dt m scalar of
              None \<Rightarrow> (vcclInvalidArgument, None, Some c)
            | Some v \<Rightarrow>
                let new = \<lparr>opScalar = v, opActive = True\<rparr> in
                (case freeSlot 0 (customOps c) of
                   Some i \<Rightarrow> (vcclSuccess, Some (vcclNumOps + int i),
                              Some (c\<lparr>customOps := (customOps c)[i := new]\<rparr>))
                 | None \<Rightarrow> let ops = customOps c @ [new] in
                     (vcclSuccess, Some (vcclNumOps + int (length ops) - 1),
                      Some (c\<lparr>customOps := ops\<rparr>)))))"

definition vcclRedOpDestroy :: "vcclRedOp_t \<Rightarrow> vcclComm option \<Rightarrow> vcclResult_t \<times> vcclComm option" where
  "vcclRedOpDestroy op comm =
     (case comm of
        None \<Rightarrow> (vcclInvalidArgument, None)
      | Some c \<Rightarrow>
          let idx = nat (op - vcclNumOps) in
          if op < vcclNumOps \<or> idx \<ge> length (customOps c) \<or> \<not> opActive (customOps c ! idx)
          then (vcclInvalidArgument, Some c)
          else (vcclSuccess, Some (c\<lparr>customOps :=
                 (customOps c)[idx := (customOps c ! idx)\<lparr>opActive := False\<rparr>]\<rparr>)))"

subsection \<open>Page-aligned memory\<close>

definition vcclMemAlloc :: "nat \<Rightarrow> bool \<Rightarrow> nat \<Rightarrow> addr option \<Rightarrow> os \<Rightarrow> vcclResult_t \<times> addr \<times> os" where
  "vcclMemAlloc page out sz mm s =
     (if \<not> out \<or> sz = 0 then (vcclInvalidArgument, 0, s)
      else let aligned = (sz + page - 1) div page * page in
           (case mm of
              None \<Rightarrow> (vcclSystemError, 0, s)
            | Some p \<Rightarrow> (vcclSuccess, p,
                         s\<lparr>mappings := (p, aligned) # mappings s,
                           g_memAllocs := (g_memAllocs s)(p \<mapsto> aligned)\<rparr>)))"

definition vcclMemFree :: "addr \<Rightarrow> os \<Rightarrow> vcclResult_t \<times> os" where
  "vcclMemFree ptr s =
     (if ptr = 0 then (vcclSuccess, s)
      else (case g_memAllocs s ptr of
              None \<Rightarrow> (vcclInvalidArgument, s)
            | Some sz \<Rightarrow>
                (vcclSuccess, munmap ptr sz (s\<lparr>g_memAllocs := (g_memAllocs s)(ptr := None)\<rparr>))))"

subsection \<open>Membership of a split\<close>

text \<open>\<open>info ! r\<close> is the \<open>(color, key)\<close> of parent rank \<open>r\<close> after the first exchange.\<close>

definition splitMembers :: "(int \<times> int) list \<Rightarrow> int \<Rightarrow> (int \<times> nat) list" where
  "splitMembers info color =
     (if color \<ge> 0
      then sort (map (\<lambda>r. (snd (info ! r), r)) (filter (\<lambda>r. fst (info ! r) = color) [0..<length info]))
      else [])"

definition splitRank :: "(int \<times> nat) list \<Rightarrow> nat \<Rightarrow> int" where
  "splitRank members r =
     fold (\<lambda>i newRank. if snd (members ! i) = r then int i else newRank) [0..<length members] (-1)"

end
