(* ===== verification/Vccl_Comm_Spec.thy ===== *)
theory Vccl_Comm_Spec
  imports Vccl_Comm_Api
begin

text \<open>
  What the management calls promise: custom operators behave like a table with fresh keys, allocations
  like a heap, and a split gives every member of a color a rank in the order of the keys.
\<close>

subsection \<open>Custom operators\<close>

lemma freeSlot_props:
  "freeSlot k xs = Some i \<Longrightarrow> k \<le> i \<and> i - k < length xs \<and> \<not> opActive (xs ! (i - k))"
proof (induction k xs rule: freeSlot.induct)
  case (2 k x xs)
  show ?case
  proof (cases "opActive x")
    case True
    then show ?thesis using 2 by (auto simp: nth_Cons' Suc_diff_le)
  qed (use 2 in auto)
qed simp

lemma premulScalar_eq:
  "premulScalar c op = (if vcclNumOps \<le> op \<and> nat (op - vcclNumOps) < length (customOps c) \<and>
      opActive (customOps c ! nat (op - vcclNumOps)) then Some (opScalar (customOps c ! nat (op - vcclNumOps))) else None)"
  by (auto simp: premulScalar_def Let_def)

text \<open>The state after a successful creation: one slot, not active before, holds the scalar.\<close>

lemma create_slot:
  assumes "vcclRedOpCreatePreMulSum fc m out p dt host (Some c) = (vcclSuccess, Some op, Some c')"
  shows "\<exists>v i ops. premulValue fc dt m p = Some v \<and> op = vcclNumOps + int i \<and> c' = c\<lparr>customOps := ops\<rparr> \<and>
    i < length ops \<and> ops ! i = \<lparr>opScalar = v, opActive = True\<rparr> \<and> length (customOps c) \<le> length ops \<and> length ops \<le> Suc (length (customOps c)) \<and>
    (\<forall>j<length (customOps c). j \<noteq> i \<longrightarrow> ops ! j = customOps c ! j) \<and>
    (i < length (customOps c) \<longrightarrow> \<not> opActive (customOps c ! i)) \<and> (\<forall>j<length ops. j \<noteq> i \<longrightarrow> j < length (customOps c))"
proof -
  obtain v where v: "premulValue fc dt m p = Some v"
    using assms by (auto simp: vcclRedOpCreatePreMulSum_def Let_def split: if_splits option.splits)
  show ?thesis
  proof (cases "freeSlot 0 (customOps c)")
    case None
    then have "op = vcclNumOps + int (length (customOps c))" "c' = c\<lparr>customOps := customOps c @ [\<lparr>opScalar = v, opActive = True\<rparr>]\<rparr>"
      using assms v by (auto simp: vcclRedOpCreatePreMulSum_def Let_def split: if_splits)
    then show ?thesis using v
      by (intro exI [of _ v] exI [of _ "length (customOps c)"] exI [of _ "customOps c @ [\<lparr>opScalar = v, opActive = True\<rparr>]"])
        (auto simp: nth_append)
  next
    case (Some i)
    then have "op = vcclNumOps + int i" "c' = c\<lparr>customOps := (customOps c)[i := \<lparr>opScalar = v, opActive = True\<rparr>]\<rparr>"
      using assms v by (auto simp: vcclRedOpCreatePreMulSum_def Let_def split: if_splits)
    then show ?thesis using v freeSlot_props [OF Some]
      by (intro exI [of _ v] exI [of _ i] exI [of _ "(customOps c)[i := \<lparr>opScalar = v, opActive = True\<rparr>]"]) auto
  qed
qed

lemma create_lookup:
  assumes "vcclRedOpCreatePreMulSum fc m out p dt host (Some c) = (vcclSuccess, Some op, Some c')"
  shows "premulScalar c op = None" "premulScalar c' op = premulValue fc dt m p" "premulValue fc dt m p \<noteq> None"
    "op' \<noteq> op \<Longrightarrow> premulScalar c' op' = premulScalar c op'"
proof -
  obtain v i ops where s: "premulValue fc dt m p = Some v" "op = vcclNumOps + int i" "c' = c\<lparr>customOps := ops\<rparr>"
    "i < length ops" "ops ! i = \<lparr>opScalar = v, opActive = True\<rparr>" "length (customOps c) \<le> length ops"
    "\<And>j. j < length (customOps c) \<Longrightarrow> j \<noteq> i \<Longrightarrow> ops ! j = customOps c ! j"
    "i < length (customOps c) \<Longrightarrow> \<not> opActive (customOps c ! i)" "\<And>j. j < length ops \<Longrightarrow> j \<noteq> i \<Longrightarrow> j < length (customOps c)"
    using create_slot [OF assms] by blast
  show "premulScalar c op = None" "premulScalar c' op = premulValue fc dt m p" "premulValue fc dt m p \<noteq> None"
    using s by (auto simp: premulScalar_eq)
  assume ne: "op' \<noteq> op"
  then have "vcclNumOps \<le> op' \<Longrightarrow> nat (op' - vcclNumOps) \<noteq> i" using s(2) by auto
  then show "premulScalar c' op' = premulScalar c op'" using s(3,6,7,9) by (auto simp: premulScalar_eq)
qed

lemma destroy_lookup:
  assumes "premulScalar c op \<noteq> None"
  shows "\<exists>c'. vcclRedOpDestroy op (Some c) = (vcclSuccess, Some c') \<and> c'\<lparr>customOps := customOps c\<rparr> = c \<and>
    (\<forall>op'. premulScalar c' op' = (if op' = op then None else premulScalar c op'))"
proof -
  have *: "vcclNumOps \<le> op" "nat (op - vcclNumOps) < length (customOps c)" "opActive (customOps c ! nat (op - vcclNumOps))"
    using assms by (auto simp: premulScalar_eq split: if_splits)
  let ?i = "nat (op - vcclNumOps)"
  let ?c = "c\<lparr>customOps := (customOps c)[?i := (customOps c ! ?i)\<lparr>opActive := False\<rparr>]\<rparr>"
  have "vcclRedOpDestroy op (Some c) = (vcclSuccess, Some ?c)"
    using * by (simp add: vcclRedOpDestroy_def Let_def not_less)
  moreover have "premulScalar ?c op' = (if op' = op then None else premulScalar c op')" for op'
  proof (cases "vcclNumOps \<le> op' \<and> op' \<noteq> op")
    case True
    then have "nat (op' - vcclNumOps) \<noteq> ?i" using *(1) by auto
    with True show ?thesis by (simp add: premulScalar_eq)
  next
    case False
    then consider "op' < vcclNumOps" | "op' = op" by linarith
    then show ?thesis using * by cases (simp_all add: premulScalar_eq)
  qed
  moreover have "?c\<lparr>customOps := customOps c\<rparr> = c" by simp
  ultimately show ?thesis by blast
qed

lemma destroy_unknown: "premulScalar c op = None \<Longrightarrow> vcclRedOpDestroy op (Some c) = (vcclInvalidArgument, Some c)"
  by (auto simp: premulScalar_def vcclRedOpDestroy_def Let_def split: if_splits)

subsection \<open>Memory\<close>

lemma align_bounds:
  "0 < page \<Longrightarrow> 0 < (sz::nat) \<Longrightarrow> sz \<le> (sz + page - 1) div page * page \<and> (sz + page - 1) div page * page < sz + page"
proof -
  assume p: "0 < page" and s: "0 < sz"
  have "(sz + page - 1) mod page < page" using p by simp
  with div_mult_mod_eq [of "sz + page - 1" page] p s show ?thesis by linarith
qed

subsection \<open>Membership of a split\<close>

lemma splitMembers_facts:
  assumes "0 \<le> color"
  shows "sorted (splitMembers info color)" "distinct (map snd (splitMembers info color))"
    "set (splitMembers info color) = {(snd (info ! r), r) | r. r < length info \<and> fst (info ! r) = color}"
proof -
  let ?xs = "map (\<lambda>r. (snd (info ! r), r)) (filter (\<lambda>r. fst (info ! r) = color) [0..<length info])"
  have m: "splitMembers info color = sort ?xs" using assms by (simp add: splitMembers_def)
  show "sorted (splitMembers info color)" by (simp add: m)
  have "distinct (map snd ?xs)" by (simp add: comp_def)
  then show "distinct (map snd (splitMembers info color))"
    unfolding m by (simp add: distinct_map inj_on_def)
  show "set (splitMembers info color) = {(snd (info ! r), r) | r. r < length info \<and> fst (info ! r) = color}"
    by (auto simp: m)
qed

lemma splitRank_miss:
  "(\<And>i. i < k \<Longrightarrow> snd (ms ! i) \<noteq> r) \<Longrightarrow> fold (\<lambda>i a. if snd (ms ! i) = r then int i else a) [0..<k] b = b"
  by (induction k) auto

lemma splitRank_none: "r \<notin> set (map snd ms) \<Longrightarrow> splitRank ms r = -1"
  unfolding splitRank_def by (rule splitRank_miss) force

lemma splitRank_index:
  assumes "distinct (map snd ms)" "i < length ms"
  shows "splitRank ms (snd (ms ! i)) = int i"
proof -
  let ?f = "\<lambda>k. fold (\<lambda>j a. if snd (ms ! j) = snd (ms ! i) then int j else a) [0..<k] (-1)"
  have "?f k = int i" if "i < k" "k \<le> length ms" for k
    using that
  proof (induction k)
    case (Suc k)
    have "snd (ms ! k) = snd (ms ! i) \<longleftrightarrow> k = i"
      using assms Suc.prems nth_eq_iff_index_eq [OF assms(1), of k i] by simp
    then show ?case using Suc by (auto simp: less_Suc_eq)
  qed simp
  then show ?thesis using assms(2) by (simp add: splitRank_def)
qed

text \<open>The position of a member in the sorted list.\<close>

lemma splitRank_member:
  assumes "0 \<le> color" "r < length info" "fst (info ! r) = color"
  shows "\<exists>i<length (splitMembers info color). splitRank (splitMembers info color) r = int i \<and>
    splitMembers info color ! i = (snd (info ! r), r)"
proof -
  have "(snd (info ! r), r) \<in> set (splitMembers info color)" using splitMembers_facts(3) [OF assms(1)] assms by auto
  then obtain i where "i < length (splitMembers info color)" "splitMembers info color ! i = (snd (info ! r), r)"
    by (auto simp: in_set_conv_nth)
  with splitRank_index [OF splitMembers_facts(2) [OF assms(1)], of i info] show ?thesis by auto
qed

lemma splitRank_order:
  assumes "0 \<le> color" "r < length info" "fst (info ! r) = color" "q < length info" "fst (info ! q) = color"
  shows "splitRank (splitMembers info color) r < splitRank (splitMembers info color) q \<longleftrightarrow>
    snd (info ! r) < snd (info ! q) \<or> snd (info ! r) = snd (info ! q) \<and> r < q"
proof -
  let ?ms = "splitMembers info color"
  obtain i j where i: "i < length ?ms" "splitRank ?ms r = int i" "?ms ! i = (snd (info ! r), r)"
    and j: "j < length ?ms" "splitRank ?ms q = int j" "?ms ! j = (snd (info ! q), q)"
    using splitRank_member assms by metis
  have s: "sorted ?ms" using splitMembers_facts(1) [OF assms(1)] .
  have "i < j \<longleftrightarrow> ?ms ! i < ?ms ! j"
  proof
    assume ij: "i < j"
    then have "?ms ! i \<le> ?ms ! j" using sorted_nth_mono [OF s, of i j] j(1) by simp
    moreover have "r \<noteq> q" using ij i(2) j(2) by auto
    ultimately show "?ms ! i < ?ms ! j" using i j by auto
  next
    assume "?ms ! i < ?ms ! j"
    then have "\<not> j \<le> i" using s i sorted_nth_mono [OF s, of j i] by auto
    then show "i < j" by simp
  qed
  then show ?thesis using i j by auto
qed

end
