(* ===== verification/Vccl_Float16.thy ===== *)
theory Vccl_Float16
  imports Vccl_Reduce
begin

text \<open>
  The 16-bit floating-point codecs of \<^verbatim>\<open>src/core/reduce.cc\<close>: widening a half or bfloat16 and
  narrowing it again returns the same bits, except that a NaN becomes quiet; the normalisation loop
  of subnormal halves ends within the ten rounds the model grants it; and the AVX2 bfloat16 lane
  rounds exactly like the scalar codec when the sum is not a NaN.
\<close>

unbundle bit_operations_syntax

subsection \<open>Bit-level facts\<close>


lemma bit_8000: "bit (0x8000 :: int) k \<longleftrightarrow> k = 15"
proof -
  have "(0x8000 :: int) = 2 ^ 15" by simp
  then show ?thesis by (simp only: bit_exp_iff) auto
qed

lemma bit_800000: "bit (0x800000 :: int) k \<longleftrightarrow> k = 23"
proof -
  have "(0x800000 :: int) = 2 ^ 23" by simp
  then show ?thesis by (simp only: bit_exp_iff) auto
qed

lemma word_masks:
  "(0xff :: 'a::len word) = mask 8" "(0x3ff :: 'a::len word) = mask 10" "(0x1f :: 'a::len word) = mask 5"
  "(0x7fffff :: 'a::len word) = mask 23" 
  "(0x7fff :: 'a::len word) = mask 15" "(0x7fffffff :: 'a::len word) = mask 31" "(0x1fff :: 'a::len word) = mask 13"
  by (simp_all add: mask_eq_exp_minus_1)

lemma bit16_less: "bit (w :: 16 word) k \<Longrightarrow> k < 16"
  using bit_imp_le_length [of w k] by simp

lemmas word_bits = bit_simps bit_8000 bit_800000

lemma bit_less_of_unat: "unat (w :: 'a::len word) < 2 ^ n \<Longrightarrow> bit w k \<Longrightarrow> k < n"
proof -
  assume "unat w < 2 ^ n" "bit w k"
  then have "take_bit n (unat w) = unat w" "bit (unat w) k"
    by (simp_all add: take_bit_nat_eq_self bit_unsigned_iff)
  then show "k < n" by (metis bit_take_bit_iff)
qed

lemma unat_and_mask: "unat ((w :: 'a::len word) AND mask n) < 2 ^ n"
  by (metis take_bit_eq_mask take_bit_nat_less_exp unsigned_take_bit_eq)

text \<open>Field extraction: sign, 8-bit exponent \<open>E\<close> and 10-bit mantissa \<open>M\<close> of a widened half.\<close>

lemma float_fields:
  fixes E M :: "32 word" and h :: "16 word"
  assumes E: "unat E < 256" and M: "unat M < 1024"
    and x: "x = push_bit 16 (ucast (h AND 0x8000)) OR push_bit 23 E OR push_bit 13 M"
  shows "drop_bit 23 x AND 0xff = E"
    and "x AND 0x7fffff = push_bit 13 M"
    and "ucast (drop_bit 16 x AND 0x8000) = h AND 0x8000"
proof -
  have *: "bit E k \<Longrightarrow> k < 8" "bit M k \<Longrightarrow> k < 10" for k
    using E M by (auto intro: bit_less_of_unat)
  show "drop_bit 23 x AND 0xff = E"
    unfolding x word_masks by (rule bit_word_eqI) (auto simp: word_bits dest: *)
  show "x AND 0x7fffff = push_bit 13 M"
    unfolding x word_masks by (rule bit_word_eqI) (auto simp: word_bits dest: *)
  show "ucast (drop_bit 16 x AND 0x8000) = h AND 0x8000"
    unfolding x word_masks by (rule bit_word_eqI) (auto simp: word_bits dest: *)
qed

lemma unat_mant: "unat (ucast (h AND 0x3ff) :: 32 word) < 1024" for h :: "16 word"
proof -
  have "unat (h AND 0x3ff) < 1024"
    unfolding word_masks using unat_and_mask [of h 10] by simp
  then show ?thesis by (simp add: unsigned_ucast_eq take_bit_nat_eq_self)
qed

lemma half_split: "h = (h AND 0x8000) OR push_bit 10 (drop_bit 10 h AND 0x1f) OR (h AND 0x3ff)" for h :: "16 word"
  unfolding word_masks by (rule bit_word_eqI) (auto simp: word_bits)

subsection \<open>bfloat16\<close>

lemma bf_and: "(push_bit 16 (ucast b) :: 32 word) AND 0x7fffffff = push_bit 16 (ucast (b AND 0x7fff))" for b :: "16 word"
  unfolding word_masks by (rule bit_word_eqI) (auto simp: word_bits)

lemma bf_drop: "drop_bit 16 (push_bit 16 (ucast b) :: 32 word) = ucast b" for b :: "16 word"
  by (rule bit_word_eqI) (auto simp: word_bits dest: bit16_less)

lemma unat_push16: "unat (push_bit 16 (ucast b) :: 32 word) = unat b * 65536" for b :: "16 word"
proof -
  have "unat b < 65536" using unsigned_less [of b] by simp
  then show ?thesis
    by (simp add: push_bit_eq_mult unat_word_ariths unsigned_ucast_eq take_bit_nat_eq_self mult.commute)
qed

lemma bf16_roundtrip:
  "floatToBf16 (bf16ToFloat b) = (if b AND 0x7fff > 0x7f80 then b OR 0x40 else b)"
proof -
  let ?x = "push_bit 16 (ucast b) :: 32 word"
  have nan: "?x AND 0x7fffffff > 0x7f800000 \<longleftrightarrow> b AND 0x7fff > 0x7f80"
    unfolding bf_and word_less_nat_alt unat_push16 by simp
  let ?r = "0x7fff + (drop_bit 16 ?x AND 1)"
  have "unat (drop_bit 16 ?x AND 1) \<le> 1"
    by (simp add: and_one_eq unat_mod)
  then have r: "unat ?r < 65536"
    by (simp add: unat_word_ariths)
  have "unat b < 65536" using unsigned_less [of b] by simp
  then have "unat (?x + ?r) = unat b * 65536 + unat ?r"
    using r unat_push16 [of b] by (simp add: unat_word_ariths(1)[of ?x])
  then have "unat (drop_bit 16 (?x + ?r)) = unat b"
    using r by (simp only: unat_drop_bit_eq drop_bit_nat_def) simp
  then have rnd: "ucast (drop_bit 16 (?x + ?r)) = b"
    by (intro unsigned_word_eqI [where 'a = nat])
      (use \<open>unat b < 65536\<close> in \<open>simp add: unsigned_ucast_eq take_bit_nat_eq_self\<close>)
  have "ucast (drop_bit 16 ?x OR 0x40) = b OR 0x40"
    unfolding bf_drop by (rule bit_word_eqI) (auto simp: word_bits)
  with nan rnd show ?thesis
    by (simp add: floatToBf16_def bf16ToFloat_def Let_def)
qed

subsection \<open>Half\<close>

lemma half_normal:
  assumes "e = drop_bit 10 h AND 0x1f" "e \<noteq> 0" "e \<noteq> 0x1f"
  shows "floatToHalf (halfToFloat h) = h"
proof -
  define e32 where "e32 = (ucast e :: 32 word)"
  define E where "E = e32 - 15 + 127"
  let ?m = "ucast (h AND 0x3ff) :: 32 word"
  have e: "unat e < 32" unfolding assms(1) word_masks using unat_and_mask [of "drop_bit 10 h" 5] by simp
  have ue: "unat e32 = unat e"
    unfolding e32_def using e by (simp add: unsigned_ucast_eq take_bit_nat_eq_self)
  have ne: "unat e \<noteq> 0" "unat e \<noteq> 31"
    using assms(2,3) unsigned_word_eqI [where 'a = nat, of e 0] unsigned_word_eqI [where 'a = nat, of e "0x1f"]
    by auto
  have ne32: "e32 \<noteq> 0" "e32 \<noteq> 0x1f" using ue ne by auto
  have E: "unat E = unat e + 112"
  proof -
    have "E = e32 + 112" by (simp add: E_def)
    then show ?thesis using ue e by (simp only: unat_word_ariths(1)) simp
  qed
  have x: "halfToFloat h =
      push_bit 16 (ucast (h AND 0x8000)) OR push_bit 23 E OR push_bit 13 ?m"
    using ne32 by (simp add: halfToFloat_def Let_def e32_def assms(1) E_def)
  have "unat E < 256" using E e by simp
  note f = float_fields [OF this unat_mant x]
  have uE: "uint E = int (unat e) + 112"
    using arg_cong [OF E, of int] by simp
  have nI: "E \<noteq> 0xff"
  proof
    assume "E = 0xff"
    then have "unat E = 255" by simp
    then show False using E e by simp
  qed
  have rem: "push_bit 13 ?m AND 0x1fff = 0"
    unfolding word_masks by (rule bit_word_eqI) (auto simp: word_bits)
  have mant: "ucast (drop_bit 13 (push_bit 13 ?m)) = h AND 0x3ff"
    unfolding word_masks by (rule bit_word_eqI) (auto simp: word_bits)
  have "of_int (uint E - 127 + 15) = (of_nat (unat e) :: 16 word)"
    unfolding uE by simp
  then have ex: "of_int (uint E - 127 + 15) = e" by simp
  have ue: "unat e \<ge> 1" "unat e \<le> 30" using e ne by auto
  have c: "\<not> uint E - 127 + 15 \<ge> 0x1f" "\<not> uint E - 127 + 15 \<le> 0"
    unfolding uE using ue by linarith+
  have z: "\<not> (0 :: 32 word) > 0x1000" "(0 :: 32 word) \<noteq> 0x1000" by simp_all
  show ?thesis
    unfolding floatToHalf_def Let_def f rem mant ex
    by (simp only: nI c z if_False simp_thms) (simp only: assms(1) half_split [symmetric])
qed

lemma half_zero:
  assumes "drop_bit 10 h AND 0x1f = 0" "h AND 0x3ff = 0"
  shows "floatToHalf (halfToFloat h) = h"
proof -
  have x: "halfToFloat h = push_bit 16 (ucast (h AND 0x8000)) OR push_bit 23 0 OR push_bit 13 0"
    using assms by (simp add: halfToFloat_def Let_def)
  have "unat (0 :: 32 word) < 256" "unat (0 :: 32 word) < 1024" by simp_all
  note f = float_fields [OF this x]
  have s: "h AND 0x8000 = h" using half_split [of h] assms by simp
  show ?thesis
    unfolding floatToHalf_def Let_def f by (simp add: s)
qed

lemma half_inf_nan:
  assumes "drop_bit 10 h AND 0x1f = 0x1f"
  shows "floatToHalf (halfToFloat h) = (if h AND 0x3ff = 0 then h else (h AND 0x8000) OR 0x7e00)"
proof -
  have *: "(0x7f800000 :: 32 word) = push_bit 23 0xff" by simp
  have x: "halfToFloat h = push_bit 16 (ucast (h AND 0x8000)) OR push_bit 23 0xff OR push_bit 13 (ucast (h AND 0x3ff))"
    using assms by (simp add: halfToFloat_def Let_def * del: push_bit_numeral)
  have "unat (0xff :: 32 word) < 256" by simp
  note f = float_fields [OF this unat_mant x]
  have z: "push_bit 13 (ucast (h AND 0x3ff) :: 32 word) = 0 \<longleftrightarrow> h AND 0x3ff = 0"
  proof
    assume "push_bit 13 (ucast (h AND 0x3ff) :: 32 word) = 0"
    then have "ucast (drop_bit 13 (push_bit 13 (ucast (h AND 0x3ff) :: 32 word))) = (0 :: 16 word)" by simp
    moreover have "ucast (drop_bit 13 (push_bit 13 (ucast (h AND 0x3ff) :: 32 word))) = h AND 0x3ff"
      unfolding word_masks by (rule bit_word_eqI) (auto simp: word_bits)
    ultimately show "h AND 0x3ff = 0" by simp
  qed simp
  show ?thesis
    unfolding floatToHalf_def Let_def f z using half_split [of h, symmetric] assms by (auto simp: or.assoc)
qed

text \<open>The normalisation loop stops after \<open>10 - p\<close> rounds, \<open>p\<close> the position of the top bit.\<close>

lemma and_400: "(w :: 32 word) AND 0x400 = 0 \<longleftrightarrow> \<not> bit w 10"
proof -
  have "(0x400 :: 32 word) = 2 ^ 10" by simp
  then show ?thesis
    by (simp only: and_exp_eq_0_iff_not_bit)
qed

lemma halfNormalize_top:
  "s \<le> 10 \<Longrightarrow> bit m (10 - s) \<Longrightarrow> unat m < 2 ^ (11 - s) \<Longrightarrow> s \<le> fuel \<Longrightarrow>
   halfNormalize fuel m k = Some (push_bit s m, k + s)"
proof (induction s arbitrary: fuel m k)
  case 0
  then show ?case by (subst halfNormalize.simps) (simp add: and_400)
next
  case (Suc s)
  then obtain f where f: "fuel = Suc f" by (cases fuel) auto
  have nb: "\<not> bit m 10"
    using bit_less_of_unat [of m "11 - Suc s" 10] Suc.prems by auto
  have "unat m < 2 ^ (10 - s)" using Suc.prems by simp
  moreover have "(2::nat) ^ (10 - s) \<le> 2 ^ 10" by (rule power_increasing) auto
  moreover have "(2::nat) ^ (11 - s) = 2 * 2 ^ (10 - s)" using Suc.prems by (simp flip: power_Suc add: Suc_diff_le)
  ultimately have u: "unat (push_bit 1 m) < 2 ^ (11 - s)"
    by (simp add: push_bit_eq_mult unat_word_ariths)
  have "10 - s = Suc (10 - Suc s)" using Suc.prems by simp
  then have b: "bit (push_bit 1 m) (10 - s)"
    using Suc.prems bit_imp_le_length [OF Suc.prems(2)] unfolding bit_push_bit_iff by auto
  show ?case
    using Suc.IH [OF _ b u, of f "Suc k"] Suc.prems nb
    by (subst halfNormalize.simps) (simp add: f and_400 push_bit_push_bit)
qed

lemma top_bit:
  assumes "(m :: 32 word) \<noteq> 0" "unat m < 1024"
  obtains s where "1 \<le> s" "s \<le> 10" "bit m (10 - s)" "unat m < 2 ^ (11 - s)"
proof -
  have "\<exists>k. bit m k" using assms(1) by (auto simp: bit_eq_iff)
  moreover have lt: "bit m k \<Longrightarrow> k < 10" for k using bit_less_of_unat [of m 10 k] assms by simp
  ultimately obtain p where p: "bit m p" "\<And>k. bit m k \<Longrightarrow> k \<le> p"
    using Greatest_le_nat [of "bit m" _ 10] GreatestI_nat [of "bit m" _ 10] by (metis less_imp_le)
  have "take_bit (Suc p) m = m"
    by (rule bit_word_eqI) (use p in \<open>auto simp: bit_take_bit_iff less_Suc_eq_le\<close>)
  then have "unat m < 2 ^ Suc p" by (metis take_bit_nat_less_exp unsigned_take_bit_eq)
  with p lt [OF p(1)] show ?thesis by (intro that [of "10 - p"]) auto
qed

lemma half_subnormal:
  assumes "drop_bit 10 h AND 0x1f = 0" "h AND 0x3ff \<noteq> 0"
  shows "floatToHalf (halfToFloat h) = h"
proof -
  define m where "m = (ucast (h AND 0x3ff) :: 32 word)"
  have m: "unat m < 1024" unfolding m_def by (rule unat_mant)
  have h0: "ucast m = h AND 0x3ff" unfolding m_def word_masks by (rule bit_word_eqI) (auto simp: word_bits)
  then have "m \<noteq> 0" using assms(2) by auto
  then obtain s where s: "1 \<le> s" "s \<le> 10" "bit m (10 - s)" "unat m < 2 ^ (11 - s)"
    using m by (rule top_bit)
  define E where "E = (127 - 15 - of_nat s + 1 :: 32 word)"
  let ?M = "push_bit s m AND 0x3ff"
  have x: "halfToFloat h = push_bit 16 (ucast (h AND 0x8000)) OR push_bit 23 E OR push_bit 13 ?M"
    using halfNormalize_top [OF s(2-4), of 10 0] assms s \<open>m \<noteq> 0\<close>
    by (simp add: halfToFloat_def Let_def m_def E_def)
  have "E = of_nat (113 - s)" using s by (simp add: of_nat_diff E_def)
  then have E: "unat E = 113 - s" using s by (simp only: unat_of_nat) simp
  have M: "unat ?M < 1024" unfolding word_masks using unat_and_mask [of "push_bit s m" 10] by simp
  have "unat E < 256" using E by simp
  note f = float_fields [OF this M x]
  have nI: "E \<noteq> 0xff"
  proof
    assume "E = 0xff"
    then have "unat E = 255" by simp
    then show False using E by simp
  qed
  have uE: "uint E = 113 - int s"
    using arg_cong [OF E, of int] s by simp
  have lt: "bit m k \<Longrightarrow> k \<le> 10 - s" for k
    using bit_less_of_unat [OF s(4), of k] s by simp
  have mant: "push_bit 13 ?M OR 0x800000 = push_bit (13 + s) m"
    unfolding word_masks
  proof (rule bit_word_eqI)
    fix n assume "n < LENGTH(32)"
    moreover have "n \<le> 23" if "13 + s \<le> n" "bit m (n - (13 + s))"
      using lt [OF that(2)] that(1) s by linarith
    ultimately show "bit (push_bit 13 (push_bit s m AND mask 10) OR 0x800000) n \<longleftrightarrow>
        bit (push_bit (13 + s) m) n"
      using s by (auto simp: word_bits)
  qed
  have half: "drop_bit (13 + s) (push_bit (13 + s) m) = m"
  proof (rule bit_word_eqI)
    fix k assume "k < LENGTH(32)"
    moreover have "bit m k \<Longrightarrow> 13 + s + k < 32" using lt [of k] s by linarith
    ultimately show "bit (drop_bit (13 + s) (push_bit (13 + s) m)) k \<longleftrightarrow> bit m k"
      by (auto simp: word_bits)
  qed
  have rem: "push_bit (13 + s) m AND (push_bit (13 + s) 1 - 1) = 0"
    unfolding push_bit_of_1 mask_eq_exp_minus_1 [symmetric]
    by (rule bit_word_eqI) (auto simp: word_bits)
  have sh: "nat (14 - (uint E - 127 + 15)) = 13 + s" unfolding uE by simp
  have hw: "(push_bit (13 + s - 1) 1 :: 32 word) \<noteq> 0"
    using s by (simp add: push_bit_of_1)
  show ?thesis
    unfolding floatToHalf_def Let_def f mant sh half rem h0
    using nI s half_split [of h] assms(1) hw by (simp add: uE h0)
qed

lemma half_roundtrip:
  "floatToHalf (halfToFloat h) =
     (if drop_bit 10 h AND 0x1f = 0x1f \<and> h AND 0x3ff \<noteq> 0 then (h AND 0x8000) OR 0x7e00 else h)"
  using half_normal [OF refl, of h] half_zero [of h] half_subnormal [of h] half_inf_nan [of h]
  by (cases "drop_bit 10 h AND 0x1f = 0"; cases "drop_bit 10 h AND 0x1f = 0x1f";
      cases "h AND 0x3ff = 0") simp_all

text \<open>The AVX2 lane rounds like the scalar codec whenever the sum is not a NaN.\<close>

lemma bf16Lane_scalar:
  assumes "\<not> f_add fp (bf16ToFloat a) (bf16ToFloat b) AND 0x7fffffff > 0x7f800000"
  shows "bf16Lane fp a b = floatToBf16 (f_add fp (bf16ToFloat a) (bf16ToFloat b))"
  using assms by (simp add: bf16Lane_def floatToBf16_def bf16ToFloat_def Let_def)

end
