(* ===== verification/Vccl_Owner.thy ===== *)
theory Vccl_Owner
  imports Vccl_Comm_Api "HOL-Library.Multiset"
begin

text \<open>
  Ownership of memory registrations. The handles a communicator holds (for its scratch buffer, its
  registration cache, the running collective and the application's registrations) are exactly the
  live registrations of its transport, each held once: nothing leaks and nothing is released twice.
  \<open>commInv\<close> adds the bounds of the cache. This theory shows that every operation of the communicator
  keeps the invariant; \<open>Vccl_Always\<close> lifts it to whole programs.
\<close>

definition commLive :: "vcclComm \<Rightarrow> addr set" where
  "commLive c = (case transport c of None \<Rightarrow> {} | Some t \<Rightarrow> liveRegs t)"

definition commWf :: "vcclComm \<Rightarrow> bool" where
  "commWf c = (case transport c of None \<Rightarrow> True | Some t \<Rightarrow> wfTransport t)"

definition owned :: "vcclComm \<Rightarrow> addr multiset" where
  "owned c = filter_mset (\<lambda>h. h \<noteq> 0)
     (add_mset (scratchRegHandle c)
       (mset (map ehandle (mrCache c)) + mset (scopedRegs c) + mset (map transportHandle (registrations c))))"

text \<open>The cache has at most as many entries as its capacity; its stamps are distinct and not after the
  clock, so that the least recently used entry is unique; it holds no null handle.\<close>

definition cacheOk :: "getenv \<Rightarrow> vcclComm \<Rightarrow> bool" where
  "cacheOk e c \<longleftrightarrow> int (length (mrCache c)) \<le> max 0 (mrCacheCap e) \<and> distinct (map eseq (mrCache c)) \<and>
     list_all (\<lambda>x. eseq x \<le> mrClock c \<and> ehandle x \<noteq> 0) (mrCache c)"

definition commInv :: "getenv \<Rightarrow> vcclComm \<Rightarrow> bool" where
  "commInv e c \<longleftrightarrow> commWf c \<and> owned c = mset_set (commLive c) \<and> cacheOk e c"

subsection \<open>Transport calls\<close>

lemma finite_commLive [simp]: "finite (commLive c)"
  by (simp add: commLive_def liveRegs_def split: option.split transport_impl.split)

lemma commLive_upd [simp]:
  "commLive (c\<lparr>scratchRegHandle := h\<rparr>) = commLive c" "commLive (c\<lparr>mrCache := es\<rparr>) = commLive c"
  "commLive (c\<lparr>scopedRegs := hs\<rparr>) = commLive c" "commLive (c\<lparr>registrations := rs\<rparr>) = commLive c"
  "commLive (c\<lparr>mrClock := n\<rparr>) = commLive c" "commLive (c\<lparr>scratchBuf := p\<rparr>) = commLive c"
  "commLive (c\<lparr>scratchSize := n\<rparr>) = commLive c" "commLive (c\<lparr>customOps := ops\<rparr>) = commLive c"
  "commLive (c\<lparr>asyncError := r\<rparr>) = commLive c" "commLive (c\<lparr>aborted := b\<rparr>) = commLive c"
  "commLive (c\<lparr>lastError := s\<rparr>) = commLive c"
  by (simp_all add: commLive_def)

lemma commWf_upd [simp]:
  "commWf (c\<lparr>scratchRegHandle := h\<rparr>) = commWf c" "commWf (c\<lparr>mrCache := es\<rparr>) = commWf c"
  "commWf (c\<lparr>scopedRegs := hs\<rparr>) = commWf c" "commWf (c\<lparr>registrations := rs\<rparr>) = commWf c"
  "commWf (c\<lparr>mrClock := n\<rparr>) = commWf c" "commWf (c\<lparr>scratchBuf := p\<rparr>) = commWf c"
  "commWf (c\<lparr>scratchSize := n\<rparr>) = commWf c" "commWf (c\<lparr>customOps := ops\<rparr>) = commWf c"
  "commWf (c\<lparr>asyncError := r\<rparr>) = commWf c" "commWf (c\<lparr>aborted := b\<rparr>) = commWf c"
  "commWf (c\<lparr>lastError := s\<rparr>) = commWf c"
  by (simp_all add: commWf_def)

lemma commDereg_more [simp]:
  "scratchRegHandle (commDereg h c) = scratchRegHandle c" "mrCache (commDereg h c) = mrCache c"
  "mrClock (commDereg h c) = mrClock c" "scopedRegs (commDereg h c) = scopedRegs c"
  "registrations (commDereg h c) = registrations c" "owned (commDereg h c) = owned c"
  "cacheOk e (commDereg h c) = cacheOk e c"
  by (simp_all add: commDereg_def owned_def cacheOk_def)

lemma commDereg_wf: "commWf c \<Longrightarrow> commWf (commDereg h c)"
  by (auto simp: commDereg_def commWf_def mr.dereg_wf split: option.split)

lemma finite_liveRegs [simp]: "finite (liveRegs t)"
  by (simp add: liveRegs_def split: transport_impl.split)

lemma commDereg_live: "commWf c \<Longrightarrow> mset_set (commLive (commDereg h c)) = mset_set (commLive c) - {#h#}"
proof -
  have "mset_set (A - {h}) = mset_set A - {#h#}" if "finite A" for A :: "addr set"
    using that by (cases "h \<in> A") (simp_all add: mset_set_Diff)
  then show "commWf c \<Longrightarrow> ?thesis"
    by (cases "transport c") (simp_all add: commDereg_def commLive_def commWf_def mr.dereg_live)
qed

lemma fold_commDereg:
  "commWf c \<Longrightarrow> commWf (fold commDereg hs c) \<and>
   mset_set (commLive (fold commDereg hs c)) = mset_set (commLive c) - mset hs"
  by (induction hs arbitrary: c) (simp_all add: commDereg_wf commDereg_live)

lemma fold_commDereg_more [simp]:
  "scratchRegHandle (fold commDereg hs c) = scratchRegHandle c" "mrCache (fold commDereg hs c) = mrCache c"
  "mrClock (fold commDereg hs c) = mrClock c" "scopedRegs (fold commDereg hs c) = scopedRegs c"
  "registrations (fold commDereg hs c) = registrations c"
  by (induction hs arbitrary: c) simp_all

lemma commReg_more:
  assumes "commReg b n c = (e, h, c')"
  shows "scratchRegHandle c' = scratchRegHandle c" "mrCache c' = mrCache c" "mrClock c' = mrClock c"
    "scopedRegs c' = scopedRegs c" "registrations c' = registrations c" "owned c' = owned c"
    "cacheOk ev c' = cacheOk ev c"
  using assms by (auto simp: commReg_def owned_def cacheOk_def split: option.splits prod.splits)

lemma commReg_live:
  assumes "commReg b n c = (e, h, c')" "commWf c"
  shows "commWf c'" "mset_set (commLive c') = mset_set (commLive c) + filter_mset (\<lambda>h. h \<noteq> 0) {#h#}"
    "e \<noteq> vcclSuccess \<Longrightarrow> h = 0"
proof -
  have "commWf c' \<and> mset_set (commLive c') = mset_set (commLive c) + filter_mset (\<lambda>h. h \<noteq> 0) {#h#} \<and>
    (e \<noteq> vcclSuccess \<longrightarrow> h = 0)"
  proof (cases "transport c")
    case (Some t)
    obtain t' where t': "regMr t b n = (e, h, t')" "c' = c\<lparr>transport := Some t'\<rparr>"
      using assms(1) Some by (auto simp: commReg_def split: prod.splits)
    have wf: "wfTransport t" using assms(2) Some by (simp add: commWf_def)
    show ?thesis
      using mr.reg_wf [OF wf, of b n] mr.reg_fail [OF t'(1)] mr.reg_live [OF t'(1) wf] mr.reg_fresh [OF t'(1) wf]
      by (auto simp: t' Some commWf_def commLive_def)
  qed (use assms in \<open>auto simp: commReg_def commWf_def commLive_def\<close>)
  then show "commWf c'" "mset_set (commLive c') = mset_set (commLive c) + filter_mset (\<lambda>h. h \<noteq> 0) {#h#}"
    "e \<noteq> vcclSuccess \<Longrightarrow> h = 0" by auto
qed

text \<open>Releasing \<open>X\<close> and then taking \<open>Y\<close>, on both sides.\<close>

lemma commInvI:
  assumes "commInv e c" "commWf c'" "mset_set (commLive c') = mset_set (commLive c) - X + Y"
    "owned c' = owned c - X + Y" "cacheOk e c'"
  shows "commInv e c'"
  using assms by (simp add: commInv_def)

lemmas commInvI_release = commInvI [where Y = "{#}", simplified]

subsection \<open>Operations of the communicator\<close>

lemma commInv_upd [simp]:
  "commInv e (c\<lparr>asyncError := r\<rparr>) = commInv e c" "commInv e (c\<lparr>aborted := b\<rparr>) = commInv e c"
  "commInv e (c\<lparr>lastError := s\<rparr>) = commInv e c" "commInv e (c\<lparr>customOps := ops\<rparr>) = commInv e c"
  "commInv e (c\<lparr>scratchBuf := p\<rparr>) = commInv e c" "commInv e (c\<lparr>scratchSize := n\<rparr>) = commInv e c"
  by (simp_all add: commInv_def owned_def cacheOk_def)

lemma noteError_inv [simp]: "commInv e (noteError msg res c) = commInv e c"
  by (simp add: noteError_def Let_def)

lemma scratchAt_inv:
  assumes "commInv e c" "scratchAt al n c m = (p, c', m')"
  shows "commInv e c' \<and> scopedRegs c' = scopedRegs c"
proof (cases "scratchSize c < n")
  case True
  let ?d = "if transport c \<noteq> None \<and> scratchRegHandle c \<noteq> 0
    then (commDereg (scratchRegHandle c) c)\<lparr>scratchRegHandle := 0\<rparr> else c"
  have tr: "transport c = None \<Longrightarrow> scratchRegHandle c = 0"
    using assms(1) by (auto simp: commInv_def owned_def commLive_def split: if_splits)
  have d1: "commInv e ?d"
  proof (cases "transport c \<noteq> None \<and> scratchRegHandle c \<noteq> 0")
    case True
    have "commWf c" "cacheOk e c" using assms(1) by (simp_all add: commInv_def)
    then have "commInv e ((commDereg (scratchRegHandle c) c)\<lparr>scratchRegHandle := 0\<rparr>)"
      using True by (intro commInvI_release [OF assms(1), where X = "{#scratchRegHandle c#}"])
        (simp_all add: commDereg_wf commDereg_live cacheOk_def owned_def)
    with True show ?thesis by simp
  qed (use assms(1) in \<open>simp only: if_False if_not_P\<close>)
  have d: "commInv e ?d" "scratchRegHandle ?d = 0" "scopedRegs ?d = scopedRegs c" using d1 tr by auto
  show ?thesis
  proof (cases "transport c")
    case None
    then show ?thesis using assms True by (auto simp: scratchAt_def Let_def)
  next
    case (Some t)
    let ?c2 = "?d\<lparr>scratchBuf := al n, scratchSize := n\<rparr>"
    obtain r h c3 where reg: "commReg (al n) n ?c2 = (r, h, c3)" by (metis prod_cases3)
    have "commInv e ?c2" using d(1) by simp
    then have "commInv e (c3\<lparr>scratchRegHandle := h\<rparr>)"
      using commReg_live [OF reg] commReg_more [OF reg] d(2)
      by (simp add: commInv_def owned_def cacheOk_def)
    moreover have "c' = c3\<lparr>scratchRegHandle := h\<rparr>"
      using assms(2) True Some reg by (auto simp: scratchAt_def Let_def)
    ultimately show ?thesis using commReg_more(4) [OF reg] d(3) by simp
  qed
qed (use assms in \<open>auto simp: scratchAt_def\<close>)

text \<open>The victim of an eviction is in range and has the smallest stamp.\<close>

lemma mrVictim_min:
  assumes "es \<noteq> []"
  shows "mrVictim es < length es \<and> (\<forall>j<length es. eseq (es ! mrVictim es) \<le> eseq (es ! j))"
proof -
  let ?f = "\<lambda>i v. if eseq (es ! i) < eseq (es ! v) then i else v"
  have "k < length es \<Longrightarrow> fold ?f [1..<Suc k] 0 \<le> k \<and> (\<forall>j\<le>k. eseq (es ! fold ?f [1..<Suc k] 0) \<le> eseq (es ! j))" for k
  proof (induction k)
    case (Suc k)
    then show ?case by (fastforce simp: le_Suc_eq)
  qed simp
  from this [of "length es - 1"] assms show ?thesis
    by (cases "length es") (auto simp: mrVictim_def less_Suc_eq_le)
qed

lemma mset_take_drop: "i < length xs \<Longrightarrow> mset (take i xs @ drop (Suc i) xs) = mset xs - {#xs ! i#}"
  by (metis add_mset_remove_trivial id_take_nth_drop mset.simps(2) mset_append union_mset_add_mset_right)

lemma distinct_del: "distinct xs \<Longrightarrow> distinct (take i xs @ drop (Suc i) xs)"
  using set_take_disj_set_drop_if_distinct [of xs i "Suc i"] by simp

lemma mrEvict_inv:
  assumes "commInv e c" "mrCache c \<noteq> []"
  shows "commInv e (mrEvict c)" "length (mrCache (mrEvict c)) = length (mrCache c) - 1"
    "mrClock (mrEvict c) = mrClock c" "scopedRegs (mrEvict c) = scopedRegs c"
proof -
  let ?v = "mrVictim (mrCache c)"
  let ?es = "take ?v (mrCache c) @ drop (Suc ?v) (mrCache c)"
  have v: "?v < length (mrCache c)" using mrVictim_min [OF assms(2)] by simp
  have sub: "set ?es \<subseteq> set (mrCache c)" by (auto dest: in_set_takeD in_set_dropD)
  have dist: "distinct (map eseq ?es)"
    using distinct_del [of "map eseq (mrCache c)"] assms(1) by (simp add: commInv_def cacheOk_def take_map drop_map)
  have h: "ehandle (mrCache c ! ?v) \<noteq> 0"
    using assms(1) v by (auto simp: commInv_def cacheOk_def list_all_iff)
  have eq: "mrEvict c = (commDereg (ehandle (mrCache c ! ?v)) c)\<lparr>mrCache := ?es\<rparr>"
    using h by (simp add: mrEvict_def Let_def)
  have del: "mset (map ehandle ?es) = mset (map ehandle (mrCache c)) - {#ehandle (mrCache c ! ?v)#}"
    using mset_take_drop [of ?v "map ehandle (mrCache c)"] v by (simp add: take_map drop_map)
  have mem: "ehandle (mrCache c ! ?v) \<in># mset (map ehandle (mrCache c))" using v by simp
  have "owned (mrEvict c) = owned c - {#ehandle (mrCache c ! ?v)#}"
    using h mem unfolding eq owned_def
    by (simp add: del del: mset_map map_append)
  moreover have "commWf c" using assms(1) by (simp add: commInv_def)
  moreover have "cacheOk e (mrEvict c)" using assms(1) dist sub v
    unfolding commInv_def cacheOk_def eq by (auto simp: list_all_iff)
  ultimately show "commInv e (mrEvict c)"
    by (intro commInvI_release [OF assms(1)]) (simp_all add: eq commDereg_wf commDereg_live)
  show "length (mrCache (mrEvict c)) = length (mrCache c) - 1" using v by (simp add: eq)
  show "mrClock (mrEvict c) = mrClock c" "scopedRegs (mrEvict c) = scopedRegs c" by (simp_all add: eq)
qed

lemma mrCachePut_inv:
  assumes "commWf c" "mset_set (commLive c) = owned c + filter_mset (\<lambda>h. h \<noteq> 0) {#h#}" "cacheOk e c" "mrCacheCap e > 0"
  shows "commInv e (mrCachePut e a n h c)" "scopedRegs (mrCachePut e a n h c) = scopedRegs c"
proof -
  let ?put = "\<lambda>c. c\<lparr>mrCache := mrCache c @ [\<lparr>eaddr = a, elen = n, ehandle = h, eseq = Suc (mrClock c)\<rparr>],
                 mrClock := Suc (mrClock c)\<rparr>"
  text \<open>The new registration is not in the cache yet: carry it as a scoped one.\<close>
  let ?c = "c\<lparr>scopedRegs := scopedRegs c @ [h]\<rparr>"
  have inv: "commInv e ?c" using assms by (simp add: commInv_def owned_def cacheOk_def)
  have ev: "mrEvict ?c = (mrEvict c)\<lparr>scopedRegs := scopedRegs c @ [h]\<rparr>"
    by (simp add: mrEvict_def commDereg_def Let_def)
  have put: "commInv e (?put c')" if "h \<noteq> 0" "commInv e (c'\<lparr>scopedRegs := scopedRegs c @ [h]\<rparr>)"
    "scopedRegs c' = scopedRegs c" "int (length (mrCache c')) < mrCacheCap e" for c'
    using that by (auto simp: commInv_def owned_def cacheOk_def list_all_iff)
  have "commInv e (mrCachePut e a n h c) \<and> scopedRegs (mrCachePut e a n h c) = scopedRegs c"
  proof (cases "h = 0")
    case True
    then show ?thesis using assms by (simp add: mrCachePut_def commInv_def)
  next
    case False
    show ?thesis
    proof (cases "int (length (mrCache c)) \<ge> mrCacheCap e")
      case True
      then have ne: "mrCache ?c \<noteq> []" using assms(4) by auto
      have len: "int (length (mrCache c)) \<le> mrCacheCap e" using assms(3,4) by (simp add: cacheOk_def)
      have "scopedRegs (mrEvict c) = scopedRegs c" by (simp add: mrEvict_def Let_def)
      moreover have "length (mrCache (mrEvict c)) = length (mrCache c) - 1"
        using mrEvict_inv(2) [OF inv ne] by (simp add: ev)
      ultimately show ?thesis
        using put [OF False, of "mrEvict c"] mrEvict_inv(1) [OF inv ne] False assms(4) len ne
        by (simp add: mrCachePut_def Let_def ev True of_nat_diff)
    qed (use put [OF False, of c] inv False assms(4) in \<open>simp add: mrCachePut_def Let_def\<close>)
  qed
  then show "commInv e (mrCachePut e a n h c)" "scopedRegs (mrCachePut e a n h c) = scopedRegs c" by auto
qed

lemma mrCacheGetL_same:
  "mrCacheGetL a n clk es = Some (h, es') \<Longrightarrow>
   \<exists>i<length es. es' = es[i := (es ! i)\<lparr>eseq := Suc clk\<rparr>] \<and> h = ehandle (es ! i) \<and> eaddr (es ! i) = a \<and> elen (es ! i) = n"
proof (induction a n clk es arbitrary: h es' rule: mrCacheGetL.induct)
  case (2 a n clk x es)
  show ?case
  proof (cases "eaddr x = a \<and> elen x = n")
    case False
    then obtain es1 where 1: "mrCacheGetL a n clk es = Some (h, es1)" "es' = x # es1" using 2 by auto
    with 2(1) [OF False 1(1)] obtain i where "i < length es" "es1 = es[i := (es ! i)\<lparr>eseq := Suc clk\<rparr>]"
      "h = ehandle (es ! i)" "eaddr (es ! i) = a" "elen (es ! i) = n" by blast
    with 1 show ?thesis by (intro exI [of _ "Suc i"]) simp
  qed (use 2 in auto)
qed simp

lemma mrCacheGet_inv:
  assumes "commInv e c" "mrCacheGet a n c = Some (h, c')"
  shows "commInv e c' \<and> scopedRegs c' = scopedRegs c"
proof -
  obtain i where i: "i < length (mrCache c)"
    and c': "c' = c\<lparr>mrCache := (mrCache c)[i := (mrCache c ! i)\<lparr>eseq := Suc (mrClock c)\<rparr>], mrClock := Suc (mrClock c)\<rparr>"
    using assms(2) by (auto simp: mrCacheGet_def dest!: mrCacheGetL_same)
  let ?es = "(mrCache c)[i := (mrCache c ! i)\<lparr>eseq := Suc (mrClock c)\<rparr>]"
  have "map ehandle ?es = map ehandle (mrCache c)" using i
    by (metis MrCacheEntry.select_convs(3) MrCacheEntry.surjective MrCacheEntry.update_convs(4) list_update_id map_update nth_map)
  moreover have "Suc (mrClock c) \<notin> set (map eseq (mrCache c))"
    using assms(1) by (fastforce simp: commInv_def cacheOk_def list_all_iff)
  then have "distinct (map eseq ?es)"
    using assms(1) by (simp add: commInv_def cacheOk_def map_update distinct_list_update)
  moreover have "list_all (\<lambda>x. eseq x \<le> Suc (mrClock c) \<and> ehandle x \<noteq> 0) ?es"
    using assms(1) i by (auto simp: commInv_def cacheOk_def list_all_iff dest!: set_update_subset_insert [THEN subsetD])
  ultimately show ?thesis
    using assms(1) by (simp add: c' commInv_def owned_def cacheOk_def del: map_update mset_map flip: mset_map)
qed

lemma scopedAdd_inv:
  assumes "commInv e c" "scopedAdd e p n c = (r, c')"
  shows "commInv e c'"
proof (cases "transport c = None \<or> p = 0 \<or> n = 0 \<or> covers (the (transport c)) p n")
  case False
  then obtain t where t: "transport c = Some t" by auto
  obtain res h c1 where reg: "commReg p n c = (res, h, c1)" by (metis prod_cases3)
  have wf: "commWf c" and own: "owned c = mset_set (commLive c)" and ok: "cacheOk e c"
    using assms(1) by (simp_all add: commInv_def)
  have c1: "commWf c1" "mset_set (commLive c1) = owned c1 + filter_mset (\<lambda>h. h \<noteq> 0) {#h#}" "cacheOk e c1"
    using commReg_live(1,2) [OF reg wf] commReg_more [OF reg] own ok by simp_all
  have fail: "commInv e c1" if "res \<noteq> vcclSuccess \<or> h = 0"
    using that c1 commReg_live(3) [OF reg wf] by (auto simp: commInv_def)
  have "commInv e (c1\<lparr>scopedRegs := scopedRegs c1 @ [h]\<rparr>)"
    using c1 by (simp add: commInv_def owned_def cacheOk_def)
  with False t assms reg mrCacheGet_inv [OF assms(1), of p n] mrCachePut_inv [OF c1] fail show ?thesis
    by (fastforce simp: scopedAdd_def split: if_splits option.splits prod.splits)
next
  case True
  then have "c' = c" using assms(2) by (cases "transport c") (auto simp: scopedAdd_def split: if_splits)
  then show ?thesis using assms(1) by simp
qed

lemma scopedDtor_inv: "commInv e c \<Longrightarrow> commInv e (scopedDtor c) \<and> scopedRegs (scopedDtor c) = []"
proof -
  assume inv: "commInv e c"
  let ?c = "fold commDereg (scopedRegs c) c"
  have wf: "commWf c" and ok: "cacheOk e c" using inv by (simp_all add: commInv_def)
  have nz: "0 \<notin># mset_set (commLive c)"
    using inv unfolding commInv_def owned_def by (metis (mono_tags, lifting) mem_Collect_eq set_mset_filter)
  have "mset_set (commLive c) - mset (scopedRegs c) = mset_set (commLive c) - filter_mset (\<lambda>h. h \<noteq> 0) (mset (scopedRegs c))"
    using nz by (simp add: multiset_eq_iff not_in_iff)
  then have "commInv e (?c\<lparr>scopedRegs := []\<rparr>)"
    using fold_commDereg [OF wf, of "scopedRegs c"] ok
    by (intro commInvI_release [OF inv, where X = "filter_mset (\<lambda>h. h \<noteq> 0) (mset (scopedRegs c))"])
      (simp_all add: owned_def cacheOk_def)
  then show ?thesis by (simp add: scopedDtor_def)
qed

lemma flush_fold: "fold (\<lambda>e c. if ehandle e \<noteq> 0 then commDereg (ehandle e) c else c) es c =
   fold commDereg (filter (\<lambda>h. h \<noteq> 0) (map ehandle es)) c"
  by (induction es arbitrary: c) simp_all

lemma flushMrCache_inv: "commInv e c \<Longrightarrow> commInv e (flushMrCache c) \<and> mrCache (flushMrCache c) = []"
proof -
  assume inv: "commInv e c"
  let ?hs = "filter (\<lambda>h. h \<noteq> 0) (map ehandle (mrCache c))"
  have wf: "commWf c" and ok: "cacheOk e c" using inv by (simp_all add: commInv_def)
  have "commInv e ((fold commDereg ?hs c)\<lparr>mrCache := []\<rparr>)"
    using fold_commDereg [OF wf, of ?hs] ok
    by (intro commInvI_release [OF inv, where X = "mset ?hs"]) (simp_all add: owned_def cacheOk_def)
  then show ?thesis unfolding flushMrCache_def flush_fold by simp
qed

lemma flushMrCache_regs [simp]: "registrations (flushMrCache c) = registrations c" "scopedRegs (flushMrCache c) = scopedRegs c"
  unfolding flushMrCache_def flush_fold by simp_all

subsection \<open>Entry points of communicator management\<close>

text \<open>Importing a dmabuf obeys the same contract as an ordinary registration, direct or staged.\<close>

interpretation dma: mr_table "\<lambda>t p n. regDmaBuf t fd off p n stg" deregMr covers liveRegs wfTransport
  for fd off stg
proof unfold_locales
  note defs = regDmaBuf_def regMr_def addRegion_def wfTransport_def liveRegs_def list_all_iff covers_def
  show "wfTransport t \<Longrightarrow> h \<in> liveRegs t \<Longrightarrow> h \<noteq> 0" for t h by (rule mr.live_nonnull)
  show "regDmaBuf t fd off p n stg = (e, h, t') \<Longrightarrow> e \<noteq> vcclSuccess \<Longrightarrow> h = 0 \<and> t' = t" for t p n e h t'
    by (auto simp: defs split: transport_impl.splits if_splits)
  show "regDmaBuf t fd off p n stg = (vcclSuccess, 0, t') \<Longrightarrow> wfTransport t \<Longrightarrow> t' = t" for t p n t'
    by (auto simp: defs split: transport_impl.splits if_splits)
  show "regDmaBuf t fd off p n stg = (vcclSuccess, h, t') \<Longrightarrow> wfTransport t \<Longrightarrow> h \<noteq> 0 \<Longrightarrow>
      h \<notin> liveRegs t \<and> liveRegs t' = insert h (liveRegs t) \<and> covers t' p n" for t p n h t'
    by (auto simp: defs split: transport_impl.splits if_splits)
  show "wfTransport t \<Longrightarrow> wfTransport (snd (snd (regDmaBuf t fd off p n stg)))" for t p n
    by (auto simp: regDmaBuf_def mr.reg_wf split: transport_impl.split)
  show "wfTransport t \<Longrightarrow> wfTransport (snd (deregMr t h))" for t h by (rule mr.dereg_wf)
  show "wfTransport t \<Longrightarrow> liveRegs (snd (deregMr t h)) = liveRegs t - {h}" for t h by (rule mr.dereg_live)
  show "wfTransport t \<Longrightarrow> h \<in> liveRegs t \<Longrightarrow> fst (deregMr t h) = vcclSuccess" for t h by (rule mr.dereg_ok)
qed

text \<open>A new application registration, whichever way the transport made it.\<close>

lemma owned_reg_add:
  "owned (c\<lparr>registrations := registrations c @ [r]\<rparr>) = owned c + filter_mset (\<lambda>h. h \<noteq> 0) {#transportHandle r#}"
  by (simp add: owned_def)

lemma owned_reg_del:
  "mset (registrations c) = add_mset r (mset rs) \<Longrightarrow>
   owned (c\<lparr>registrations := rs\<rparr>) = owned c - filter_mset (\<lambda>h. h \<noteq> 0) {#transportHandle r#}"
  by (simp add: owned_def)

lemma registered_inv:
  assumes "commInv e c" "commWf c1" "mset_set (commLive c1) = mset_set (commLive c) + filter_mset (\<lambda>h. h \<noteq> 0) {#h#}"
    "c1 = c\<lparr>transport := transport c1\<rparr>" "transportHandle r = h"
  shows "commInv e (c1\<lparr>registrations := registrations c1 @ [r]\<rparr>)" "h = 0 \<Longrightarrow> commInv e c1"
proof -
  have own: "owned c1 = owned c" "cacheOk e c1 = cacheOk e c" by (subst assms(4), simp add: owned_def cacheOk_def)+
  have "cacheOk e c" using assms(1) by (simp add: commInv_def)
  then show "commInv e (c1\<lparr>registrations := registrations c1 @ [r]\<rparr>)"
    using own assms by (intro commInvI [OF assms(1), where X = "{#}" and Y = "filter_mset (\<lambda>h. h \<noteq> 0) {#h#}"])
      (simp_all only: owned_reg_add cacheOk_def commWf_upd commLive_upd, simp_all)
  show "h = 0 \<Longrightarrow> commInv e c1" using own assms by (simp add: commInv_def)
qed

lemma commReg_transport: "commReg b n c = (e, h, c') \<Longrightarrow> c' = c\<lparr>transport := transport c'\<rparr>"
  by (auto simp: commReg_def split: option.splits prod.splits)

lemma vcclCommRegister_inv:
  assumes "commInv e c" "vcclCommRegister (Some c) b n out p = (r, h, Some c')"
  shows "commInv e c'"
proof -
  obtain res th c1 where reg: "commReg b n c = (res, th, c1)" by (metis prod_cases3)
  have wf: "commWf c" using assms(1) by (simp add: commInv_def)
  note r = registered_inv [OF assms(1) commReg_live(1,2) [OF reg wf] commReg_transport [OF reg], of "\<lparr>memPtr = p, transportHandle = th, mapped = 0, mbytes = n\<rparr>"]
  show ?thesis using assms reg r commReg_live(3) [OF reg wf]
    by (auto simp: vcclCommRegister_def split: if_splits)
qed

lemma vcclCommRegisterDmaBuf_inv:
  assumes "commInv e c" "vcclCommRegisterDmaBuf (Some c) fd off n po out mm p stg s = (r, h, Some c', s')"
  shows "commInv e c'"
proof (cases "transport c")
  case None
  then show ?thesis using assms registered_inv(1) [OF assms(1), of c 0]
    by (auto simp: vcclCommRegisterDmaBuf_def Let_def commInv_def split: if_splits option.splits)
next
  case (Some t)
  show ?thesis
  proof (cases mm)
    case (Some q)
    obtain res th t1 where reg: "regDmaBuf t fd off q n stg = (res, th, t1)" by (metis prod_cases3)
    let ?c = "c\<lparr>transport := Some t1\<rparr>"
    have wf: "wfTransport t" using assms(1) \<open>transport c = Some t\<close> by (simp add: commInv_def commWf_def)
    have "commWf ?c" "mset_set (commLive ?c) = mset_set (commLive c) + filter_mset (\<lambda>h. h \<noteq> 0) {#th#}"
      using dma.reg_wf [OF wf, of fd off q n stg] dma.reg_live [OF reg wf] dma.reg_fresh [OF reg wf]
      by (auto simp: reg commWf_def commLive_def \<open>transport c = Some t\<close>)
    note r = registered_inv [OF assms(1) this, of "\<lparr>memPtr = p, transportHandle = th, mapped = q, mbytes = n\<rparr>"]
    show ?thesis using assms reg r dma.reg_fail [OF reg] \<open>transport c = Some t\<close> Some
      by (auto simp: vcclCommRegisterDmaBuf_def Let_def split: if_splits)
  qed (use assms in \<open>auto simp: vcclCommRegisterDmaBuf_def split: if_splits\<close>)
qed

lemma eraseReg_mset: "eraseReg h rs = Some (r, rs') \<Longrightarrow> mset rs = add_mset r (mset rs') \<and> memPtr r = h"
  by (induction h rs arbitrary: r rs' rule: eraseReg.induct) (auto split: if_splits)

lemma vcclCommDeregister_inv:
  assumes "commInv e c" "vcclCommDeregister (Some c) h s = (r, Some c', s')"
  shows "commInv e c'"
proof (cases "eraseReg h (registrations c)")
  case (Some x)
  then obtain reg rest where x: "eraseReg h (registrations c) = Some (reg, rest)" by (cases x) auto
  let ?c = "flushMrCache c"
  have inv: "commInv e ?c" using flushMrCache_inv [OF assms(1)] by simp
  then have wf: "commWf ?c" and ok: "cacheOk e ?c" by (simp_all add: commInv_def)
  have nz: "0 \<notin># mset_set (commLive ?c)"
    using inv unfolding commInv_def owned_def by (metis (mono_tags, lifting) mem_Collect_eq set_mset_filter)
  have ms: "mset (registrations ?c) = add_mset reg (mset rest)" using eraseReg_mset [OF x] by simp
  let ?X = "filter_mset (\<lambda>h. h \<noteq> 0) {#transportHandle reg#}"
  have "mset_set (commLive (commDereg (transportHandle reg) ?c)) = mset_set (commLive ?c) - ?X"
    using commDereg_live [OF wf] nz by (cases "transportHandle reg = 0") (simp_all add: diff_single_trivial)
  moreover have "owned ((commDereg (transportHandle reg) ?c)\<lparr>registrations := rest\<rparr>) = owned ?c - ?X"
    using owned_reg_del [of "commDereg (transportHandle reg) ?c" reg rest] ms by simp
  ultimately have "commInv e ((commDereg (transportHandle reg) ?c)\<lparr>registrations := rest\<rparr>)"
    using wf ok by (intro commInvI_release [OF inv, where X = ?X]) (simp_all add: commDereg_wf cacheOk_def)
  moreover have "commDereg (transportHandle reg) (?c\<lparr>registrations := rest\<rparr>) =
      (commDereg (transportHandle reg) ?c)\<lparr>registrations := rest\<rparr>" by (simp add: commDereg_def)
  ultimately show ?thesis using assms x by (auto simp: vcclCommDeregister_def Let_def split: if_splits)
qed (use assms in \<open>auto simp: vcclCommDeregister_def split: if_splits\<close>)

lemma abort_regs [simp]: "liveRegs (abort t) = liveRegs t" "wfTransport (abort t) = wfTransport t"
  by (simp_all add: abort_def liveRegs_def wfTransport_def)

lemma vcclCommAbort_inv: "commInv e c \<Longrightarrow> vcclCommAbort msg (Some c) = (r, Some c') \<Longrightarrow> commInv e c'"
proof -
  assume inv: "commInv e c" and ab: "vcclCommAbort msg (Some c) = (r, Some c')"
  let ?c = "noteError msg vcclUnhandledError (c\<lparr>aborted := True\<rparr>)"
  have "commInv e ?c" using inv by simp
  then have "commInv e (?c\<lparr>transport := map_option abort (transport ?c)\<rparr>)"
    by (simp add: commInv_def owned_def cacheOk_def commWf_def commLive_def option.map_sel split: option.splits)
  then show ?thesis using ab by (simp add: vcclCommAbort_def Let_def)
qed

text \<open>Destroying a communicator between collectives releases everything but the scratch buffer, whose
  registration goes with the transport.\<close>

lemma fold_destroyReg: "fst (fold destroyReg rs (c, s)) = fold commDereg (map transportHandle rs) c"
  by (induction rs arbitrary: c s) (simp_all add: destroyReg_def)

lemma vcclCommDestroy_live:
  assumes "commInv e c" "scopedRegs c = []" "vcclCommDestroy (Some c) s = (r, Some c', s')"
  shows "commLive c' = {scratchRegHandle c} - {0}"
proof -
  let ?c = "flushMrCache c" and ?hs = "map transportHandle (registrations c)"
  have c': "c' = fold commDereg ?hs ?c"
    using assms(3) fold_destroyReg [of "registrations c" ?c s] by (auto simp: vcclCommDestroy_def split: prod.splits)
  have inv: "commInv e ?c" "mrCache ?c = []" using flushMrCache_inv [OF assms(1)] by auto
  then have wf: "commWf ?c" by (simp add: commInv_def)
  have "mset_set (commLive c') = owned ?c - mset ?hs"
    using fold_commDereg [OF wf, of ?hs] inv(1) by (simp add: c' commInv_def)
  also have "\<dots> = filter_mset (\<lambda>h. h \<noteq> 0) {#scratchRegHandle ?c#}"
    using inv(2) assms(2) by (simp add: owned_def multiset_eq_iff)
  also have "scratchRegHandle ?c = scratchRegHandle c" unfolding flushMrCache_def flush_fold by simp
  finally have "set_mset (mset_set (commLive c')) = set_mset (filter_mset (\<lambda>h. h \<noteq> 0) {#scratchRegHandle c#})" by simp
  then show ?thesis by (auto split: if_splits)
qed

end
