(* ===== verification/Vccl_Always.thy ===== *)
theory Vccl_Always
  imports Vccl_Owner Vccl_Api Vccl_Net
begin

text \<open>
  Invariants of running programs. \<open>always I Q p\<close> says of a program that \<open>I\<close> holds whenever it is
  blocked in a transport call, that \<open>Q\<close> holds when it returns, and that this is so whatever result the
  call returns and whatever it leaves in memory: the transport may deliver, fail or be aborted.
  \<open>run_step\<close> is the network of \<open>Vccl_Net\<close> with such failures added, and \<open>always\<close> is preserved by its
  steps. The invariant of \<open>Vccl_Owner\<close> then holds in every reachable state of every entry point.
\<close>

inductive always :: "(ctx \<Rightarrow> bool) \<Rightarrow> (ctx \<Rightarrow> bool) \<Rightarrow> proc \<Rightarrow> bool" for I Q where
  Ret: "Q c \<Longrightarrow> always I Q (Ret r c)"
| Undef: "always I Q Undef"
| Xfer: "I c \<Longrightarrow> (\<And>r m. always I Q (k r (c\<lparr>mem := m\<rparr>))) \<Longrightarrow> always I Q (Xfer ss c k)"

inductive_simps always_simps [simp]: "always I Q (Ret r c)" "always I Q Undef" "always I Q (Xfer ss c k)"

lemma always_bindp:
  "always I Q p \<Longrightarrow> (\<And>r c. Q c \<Longrightarrow> always I R (f r c)) \<Longrightarrow> always I R (bindp p f)"
  by (induction rule: always.induct) auto

lemma always_advance: "I c \<Longrightarrow> (\<And>r m. always I Q (k r (c\<lparr>mem := m\<rparr>))) \<Longrightarrow> always I Q (advance ss c k)"
  by (simp add: advance_def commit_def)

lemma lstep_always:
  assumes "lstep a p = Some p'" "always I Q p"
  shows "always I Q p'"
  using assms by (cases a; cases p; cases "the a") (auto intro!: always_advance split: option.splits if_splits)

text \<open>One step of the whole system: a message, or a blocked call of one rank that ends with any result.\<close>

inductive run_step :: "config \<Rightarrow> config \<Rightarrow> bool" where
  deliver: "net_step cfg cfg' \<Longrightarrow> run_step cfg cfg'"
| broken: "cfg i = Xfer ss c k \<Longrightarrow> run_step cfg (cfg(i := k r (c\<lparr>mem := m\<rparr>)))"

lemma run_step_always: "run_step cfg cfg' \<Longrightarrow> always I Q (cfg i) \<Longrightarrow> always I Q (cfg' i)"
proof (induction rule: run_step.induct)
  case (deliver cfg cfg')
  then show ?case by (auto elim!: net_stepE intro: lstep_always)
next
  case (broken cfg j ss c k r m)
  then show ?case by (cases "i = j") auto
qed

lemma reach_always: "run_step\<^sup>*\<^sup>* cfg cfg' \<Longrightarrow> always I Q (cfg i) \<Longrightarrow> always I Q (cfg' i)"
  by (induction rule: rtranclp_induct) (auto intro: run_step_always)

text \<open>The context a program is in: that of its return or of the call it is blocked in.\<close>

fun ctxOf :: "proc \<Rightarrow> ctx option" where
  "ctxOf (Ret r c) = Some c"
| "ctxOf Undef = None"
| "ctxOf (Xfer ss c k) = Some c"

lemma always_ctxOf: "always I Q p \<Longrightarrow> ctxOf p = Some c \<Longrightarrow> (\<And>c. Q c \<Longrightarrow> I c) \<Longrightarrow> I c"
  by (cases p) auto

subsection \<open>Commands\<close>

definition safe :: "(ctx \<Rightarrow> bool) \<Rightarrow> (ctx \<Rightarrow> bool) \<Rightarrow> cmd \<Rightarrow> (ctx \<Rightarrow> bool) \<Rightarrow> bool" where
  "safe I P p Q \<longleftrightarrow> (\<forall>c. P c \<longrightarrow> always I Q (p c))"

named_theorems safe_intros

lemma safeI: "(\<And>c. P c \<Longrightarrow> always I Q (p c)) \<Longrightarrow> safe I P p Q"
  by (simp add: safe_def)

lemma safeD: "safe I P p Q \<Longrightarrow> P c \<Longrightarrow> always I Q (p c)"
  by (simp add: safe_def)

lemma safe_check: "safe I P p Q \<Longrightarrow> safe I Q q R \<Longrightarrow> (\<And>c. Q c \<Longrightarrow> R c) \<Longrightarrow> safe I P (check p q) R"
  by (auto simp: safe_def check_def intro!: always_bindp)

lemma safe_ok [safe_intros]: "safe I P ok P"
  by (simp add: safe_def ok_def)

lemma safe_cwhen [safe_intros]: "(b \<Longrightarrow> safe I P p P) \<Longrightarrow> safe I P (cwhen b p) P"
  by (simp add: cwhen_def safe_ok)

lemma safe_if [safe_intros]: "(b \<Longrightarrow> safe I P p Q) \<Longrightarrow> (\<not> b \<Longrightarrow> safe I P q Q) \<Longrightarrow> safe I P (if b then p else q) Q"
  by simp

lemma safe_vseq: "list_all (\<lambda>p. safe I P p P) ps \<Longrightarrow> safe I P (vseq ps) P"
  by (induction ps) (auto simp: vseq_def safe_ok intro: safe_check)

lemma safe_loop [safe_intros]: "(\<And>s. safe I P (body s) P) \<Longrightarrow> safe I P (loop n body) P"
  by (simp add: loop_def safe_vseq list_all_iff)

lemma safe_vseq_list [safe_intros]: "(\<And>p. p \<in> set ps \<Longrightarrow> safe I P p P) \<Longrightarrow> safe I P (vseq ps) P"
  by (simp add: safe_vseq list_all_iff)

text \<open>A condition on the communicator and the environment only survives what changes neither.\<close>

locale comm_pred =
  fixes I P :: "ctx \<Rightarrow> bool"
  assumes pred_inv: "P c \<Longrightarrow> I c"
    and pred_mem: "P (c\<lparr>mem := m\<rparr>) = P c"
    and pred_posted: "P (c\<lparr>posted := q\<rparr>) = P c"
    and pred_scratch: "P c \<Longrightarrow> scratchAt (alloc c) n (comm c) (mem c) = (p, cm, m) \<Longrightarrow> P (c\<lparr>comm := cm, mem := m\<rparr>)"
begin

lemma memcpy_safe: "safe I P (memcpy d s n) P"
  by (simp add: safe_def memcpy_def pred_mem)

lemma kernel_safe: "safe I P (kernel d s n f) P"
  by (simp add: safe_def kernel_def pred_mem split: prod.split)

lemma transfers_safe: "safe I P (transfers ops) P"
proof (rule safeI)
  fix c assume P: "P c"
  then have "P (c\<lparr>posted := q\<rparr>)" "I (c\<lparr>posted := q\<rparr>)" for q using pred_inv by (simp_all add: pred_posted)
  then show "always I P (transfers ops c)"
    by (auto simp: transfers_def Let_def pred_mem intro!: always_advance split: option.split)
qed

lemma sendRecv_safe: "safe I P (sendRecv sp sb sn rp rb rn) P"
  using transfers_safe by (auto simp: safe_def sendRecv_def lostWait_def pred_inv pred_mem)

lemma batchWaves_safe: "safe I P (batchWaves ops) P"
proof (induction ops rule: batchWaves.induct)
  case (1 ops)
  then show ?case by (subst batchWaves.simps) (auto intro: safe_check safe_ok transfers_safe)
qed

lemma batch_safe: "safe I P (batch ops) P"
  using transfers_safe batchWaves_safe by (simp add: safe_def batch_def)

lemma postRecvs_safe: "safe I P (postRecvs qs) P"
  by (simp add: safe_def postRecvs_def Let_def pred_posted)

lemma scratch_safe: "(\<And>p. safe I P (body p) P) \<Longrightarrow> safe I P (withScratch n body) P"
  by (auto simp: safe_def withScratch_def pred_scratch split: prod.split)

end

subsection \<open>The ownership invariant\<close>

text \<open>During a collective; and between collectives, when no scoped registration exists.\<close>

definition owns :: "getenv \<Rightarrow> ctx \<Rightarrow> bool" where
  "owns e c \<longleftrightarrow> env c = e \<and> commInv e (comm c)"

definition idle :: "getenv \<Rightarrow> ctx \<Rightarrow> bool" where
  "idle e c \<longleftrightarrow> owns e c \<and> scopedRegs (comm c) = []"

interpretation owns: comm_pred "owns e" "owns e" for e
  by unfold_locales (auto simp: owns_def dest: scratchAt_inv)

interpretation idle: comm_pred "owns e" "idle e" for e
  by unfold_locales (auto simp: idle_def owns_def dest: scratchAt_inv)

lemmas basic_safe [safe_intros] =
  owns.memcpy_safe owns.kernel_safe owns.transfers_safe owns.sendRecv_safe owns.postRecvs_safe owns.scratch_safe
  idle.memcpy_safe idle.kernel_safe idle.transfers_safe idle.sendRecv_safe idle.postRecvs_safe idle.scratch_safe

lemma regAdd_safe [safe_intros]: "safe (owns e) (owns e) (regAdd p n) (owns e)"
  by (auto simp: safe_def regAdd_def owns_def dest: scopedAdd_inv split: prod.split)

lemma scoped_safe [safe_intros]: "safe (owns e) (owns e) body (owns e) \<Longrightarrow> safe (owns e) (idle e) (scoped body) (idle e)"
proof (rule safeI)
  fix c assume body: "safe (owns e) (owns e) body (owns e)" and c: "idle e c"
  have "scopedCtor (comm c) = comm c" using c by (simp add: idle_def scopedCtor_def)
  with c have "owns e (c\<lparr>comm := scopedCtor (comm c)\<rparr>)" by (simp add: idle_def owns_def)
  then show "always (owns e) (idle e) (scoped body c)" unfolding scoped_def
    by (intro always_bindp [OF safeD [OF body]]) (auto simp: idle_def owns_def dest: scopedDtor_inv)
qed

text \<open>The same rules for a command that has read its own context.\<close>

lemmas always_intros = safe_vseq_list [THEN safeD] safe_if [THEN safeD] scoped_safe [THEN safeD]
  owns.scratch_safe [THEN safeD] idle.scratch_safe [THEN safeD] safe_cwhen [THEN safeD] safe_ok [THEN safeD]

lemmas command_defs = Let_def reduceC_def scaledAccumulateC_def scaleCopyC_def scaleC_def tsend_def trecv_def

subsection \<open>Collectives\<close>

lemma ringReduceScatter_safe [safe_intros]: "safe (owns e) (owns e) (ringReduceScatter d ch dt op) (owns e)"
  by (rule safeI) (auto simp: ringReduceScatter_def command_defs intro!: safe_intros always_intros)

lemma ringAllGather_safe [safe_intros]: "safe (owns e) (owns e) (ringAllGather d ch s) (owns e)"
  by (rule safeI) (auto simp: ringAllGather_def command_defs intro!: safe_intros always_intros)

lemma recursiveDoublingAllGather_safe [safe_intros]:
  "safe (owns e) (owns e) (recursiveDoublingAllGather d n) (owns e)"
  by (rule safeI) (auto simp: recursiveDoublingAllGather_def command_defs intro!: safe_intros always_intros)

lemma bruckAllGather_safe [safe_intros]: "safe (owns e) (owns e) (bruckAllGather d n) (owns e)"
  by (rule safeI) (auto simp: bruckAllGather_def command_defs intro!: safe_intros always_intros)

lemma recursiveDoublingAllReduce_safe [safe_intros]:
  "safe (owns e) (owns e) (recursiveDoublingAllReduce d n dt op) (owns e)"
  by (rule safeI) (auto simp: recursiveDoublingAllReduce_def command_defs intro!: safe_intros always_intros)

lemma pow2ElimAllReduce_safe [safe_intros]: "safe (owns e) (owns e) (pow2ElimAllReduce d n dt op) (owns e)"
  by (rule safeI) (auto simp: pow2ElimAllReduce_def command_defs intro!: safe_intros always_intros split del: if_split)

lemma doAllGather_safe [safe_intros]: "safe (owns e) (idle e) (doAllGather s r n dt) (idle e)"
  unfolding doAllGather_def command_defs
  by (intro scoped_safe safeI) (auto intro!: safe_intros always_intros split del: if_split)

lemma doReduceScatter_safe [safe_intros]: "safe (owns e) (idle e) (doReduceScatter s r n dt op pm k) (idle e)"
  unfolding doReduceScatter_def command_defs
  by (intro scoped_safe safeI) (auto intro!: safe_intros always_intros split del: if_split)

lemma doAllReduce_safe [safe_intros]: "safe (owns e) (idle e) (doAllReduce s r n dt op pm k) (idle e)"
  unfolding doAllReduce_def command_defs
  by (intro scoped_safe safeI) (auto intro!: safe_intros always_intros split del: if_split)

lemma reducePiece_safe [safe_intros]: "safe (owns e) (owns e) (reducePiece s r dt op pm k root scr x) (owns e)"
  by (rule safeI, cases x) (auto simp: reducePiece_def command_defs intro!: safe_intros always_intros split del: if_split)

lemma doReduce_safe [safe_intros]: "safe (owns e) (idle e) (doReduce s r n dt op pm k root) (idle e)"
  by (rule safeI) (auto simp: doReduce_def command_defs intro!: safe_intros always_intros)

lemma broadcastPiece_safe [safe_intros]: "safe (owns e) (owns e) (broadcastPiece r root x) (owns e)"
  by (rule safeI, cases x) (auto simp: broadcastPiece_def command_defs intro!: safe_intros always_intros split del: if_split)

lemma doBroadcast_safe [safe_intros]: "safe (owns e) (idle e) (doBroadcast s r n dt root) (idle e)"
  by (rule safeI) (auto simp: doBroadcast_def command_defs intro!: safe_intros always_intros split del: if_split)

lemma doGather_safe [safe_intros]: "safe (owns e) (idle e) (doGather s r n dt root) (idle e)"
  by (rule safeI) (auto simp: doGather_def command_defs intro!: safe_intros always_intros)

lemma doScatter_safe [safe_intros]: "safe (owns e) (idle e) (doScatter s r n dt root) (idle e)"
  by (rule safeI) (auto simp: doScatter_def command_defs intro!: safe_intros always_intros)

lemma doAllToAllv_safe [safe_intros]: "safe (owns e) (idle e) (doAllToAllv s sc sd r rc rdp dt) (idle e)"
  unfolding doAllToAllv_def command_defs
  by (intro scoped_safe safeI) (auto intro!: safe_intros always_intros split del: if_split)

subsection \<open>Entry points and groups\<close>

text \<open>A queued operation is safe when it is a transfer or a safe closure.\<close>

fun opSafe :: "getenv \<Rightarrow> QueuedOp \<Rightarrow> bool" where
  "opSafe e (QFn cp f) = safe (owns e) (idle e) f (idle e)"
| "opSafe e (QP2p cp x) = True"

lemma noteErrorC_idle [simp]: "idle e (noteErrorC r c) = idle e c"
  by (simp add: idle_def owns_def noteErrorC_def noteError_def Let_def)

lemma noted_safe: "safe (owns e) (idle e) fn (idle e) \<Longrightarrow>
  safe (owns e) (idle e) (\<lambda>c. bindp (fn c) (\<lambda>res c'. Ret res (noteErrorC res c'))) (idle e)"
  by (auto simp: safe_def intro!: always_bindp)

lemma runOp_safe:
  assumes "safe (owns e) (idle e) fn (idle e)" "idle e c" "list_all (opSafe e) (t_groupOps t)"
  shows "always (owns e) (idle e) (snd (runOp cp fn t c))" "list_all (opSafe e) (t_groupOps (fst (runOp cp fn t c)))"
  using assms noted_safe [OF assms(1)] by (auto simp: runOp_def enqueueOrRun_def safe_def)

lemma enqueueOrRunP2p_safe:
  assumes "idle e c" "list_all (opSafe e) (t_groupOps t)"
  shows "always (owns e) (idle e) (snd (enqueueOrRunP2p cp x t c))"
    "list_all (opSafe e) (t_groupOps (fst (enqueueOrRunP2p cp x t c)))"
  using assms by (auto simp: enqueueOrRunP2p_def command_defs idle.transfers_safe [THEN safeD])

text \<open>An entry point keeps the invariant of the communicator and of the queue.\<close>

definition apiSafe :: "getenv \<Rightarrow> api \<Rightarrow> bool" where
  "apiSafe e f \<longleftrightarrow> (\<forall>t c. idle e c \<longrightarrow> list_all (opSafe e) (t_groupOps t) \<longrightarrow>
     always (owns e) (idle e) (snd (f t c)) \<and> list_all (opSafe e) (t_groupOps (fst (f t c))))"

lemma rooted_safe:
  "apiSafe e (vcclReduce s r n dt op root cp)" "apiSafe e (vcclBroadcast s r n dt root cp)"
  "apiSafe e (vcclGather s r n dt root cp)" "apiSafe e (vcclScatter s r n dt root cp)"
  unfolding apiSafe_def vcclReduce_def vcclBroadcast_def vcclGather_def vcclScatter_def Let_def
  by (auto simp: runOp_safe safe_intros split: sum.split)

lemma symmetric_safe:
  "apiSafe e (vcclAllGather s r n dt cp)" "apiSafe e (vcclReduceScatter s r n dt op cp)"
  "apiSafe e (vcclAllReduce s r n dt op cp)" "apiSafe e (vcclAllToAll s r n dt cp)"
  "apiSafe e (vcclAllToAllv s sc sd r rc rdp dt cp)"
  unfolding apiSafe_def vcclAllGather_def vcclReduceScatter_def vcclAllReduce_def vcclAllToAll_def vcclAllToAllv_def Let_def
  by (auto simp: runOp_safe safe_intros split: sum.split option.split)

lemma p2p_safe: "apiSafe e (vcclSend b n dt p cp)" "apiSafe e (vcclRecv b n dt p cp)"
  unfolding apiSafe_def vcclSend_def vcclRecv_def Let_def by (auto simp: enqueueOrRunP2p_safe)

lemma checkNote_safe: "safe (owns e) (idle e) p (idle e) \<Longrightarrow> safe (owns e) (idle e) q (idle e) \<Longrightarrow> safe (owns e) (idle e) (checkNote p q) (idle e)"
  by (auto simp: safe_def checkNote_def intro!: always_bindp)

lemma runCommOps_safe: "list_all (opSafe e) ops \<Longrightarrow> safe (owns e) (idle e) (runCommOps ops) (idle e)"
proof (induction ops rule: runCommOps.induct)
  case (2 q qs)
  show ?case
  proof (cases q)
    case (QFn cp f)
    then show ?thesis using 2 by (simp add: checkNote_safe)
  next
    case (QP2p cp x)
    have rest: "list_all (opSafe e) (dropWhile isP2p (q # qs))" using 2(3) by (auto simp: list_all_iff dest: set_dropWhileD)
    show ?thesis
    proof (rule safeI)
      fix c assume c: "idle e c"
      show "always (owns e) (idle e) (runCommOps (q # qs) c)"
      proof (cases "transport (comm c) = None")
        case False
        have "safe (owns e) (idle e) (runCommOps (dropWhile isP2p (q # qs))) (idle e)"
          using 2(1) [OF _ refl refl False] rest by (simp add: QP2p)
        then have rec: "safe (owns e) (idle e) (checkNote (batch ops) (runCommOps (dropWhile isP2p (q # qs)))) (idle e)" for ops
          by (intro checkNote_safe) (simp_all add: idle.batch_safe)
        from safeD [OF rec c] c show ?thesis by (simp add: QP2p Let_def)
      qed (use c in \<open>simp add: QP2p Let_def\<close>)
    qed
  qed
qed (simp add: safe_ok)

end
