(* ===== verification/Vccl_Client.thy ===== *)
theory Vccl_Client
  imports Vccl_Always
begin

text \<open>
  The most general client of one communicator: a thread that makes any sequence of calls of the public
  interface (\<^verbatim>\<open>include/vccl.h\<close>), grouped or not, and goes on whatever they return. Every reachable
  state of any number of such clients, under every schedule and every transport failure, satisfies
  the ownership invariant.
\<close>

datatype call =
  AllReduce addr addr nat vcclDataType_t vcclRedOp_t
| AllGather addr addr nat vcclDataType_t
| ReduceScatter addr addr nat vcclDataType_t vcclRedOp_t
| Reduce addr addr nat vcclDataType_t vcclRedOp_t int
| Broadcast addr addr nat vcclDataType_t int
| Gather addr addr nat vcclDataType_t int
| Scatter addr addr nat vcclDataType_t int
| AllToAll addr addr nat vcclDataType_t
| AllToAllv addr "nat list option" "nat list option" addr "nat list option" "nat list option" vcclDataType_t
| Send addr nat vcclDataType_t int
| Recv addr nat vcclDataType_t int
| GroupStart
| GroupEnd
| Register addr nat addr
| RegisterDmaBuf int nat nat "addr option" addr addr
| Deregister addr
| CreatePreMulSum fpconv addr vcclDataType_t bool
| RedOpDestroy vcclRedOp_t
| Abort

text \<open>The calls that run or queue a program.\<close>

fun issue :: "call \<Rightarrow> addr \<Rightarrow> api option" where
  "issue (AllReduce s r n dt op) cp = Some (vcclAllReduce s r n dt op cp)"
| "issue (AllGather s r n dt) cp = Some (vcclAllGather s r n dt cp)"
| "issue (ReduceScatter s r n dt op) cp = Some (vcclReduceScatter s r n dt op cp)"
| "issue (Reduce s r n dt op root) cp = Some (vcclReduce s r n dt op root cp)"
| "issue (Broadcast s r n dt root) cp = Some (vcclBroadcast s r n dt root cp)"
| "issue (Gather s r n dt root) cp = Some (vcclGather s r n dt root cp)"
| "issue (Scatter s r n dt root) cp = Some (vcclScatter s r n dt root cp)"
| "issue (AllToAll s r n dt) cp = Some (vcclAllToAll s r n dt cp)"
| "issue (AllToAllv s sc sd r rc rdp dt) cp = Some (vcclAllToAllv s sc sd r rc rdp dt cp)"
| "issue (Send b n dt p) cp = Some (vcclSend b n dt p cp)"
| "issue (Recv b n dt p) cp = Some (vcclRecv b n dt p cp)"
| "issue _ cp = None"

text \<open>The calls that change the communicator at once.\<close>

fun manage :: "call \<Rightarrow> os \<Rightarrow> ctx \<Rightarrow> vcclComm option \<times> os" where
  "manage (Register b n p) s c = (snd (snd (vcclCommRegister (Some (comm c)) b n True p)), s)"
| "manage (RegisterDmaBuf fd off n mm p stg) s c =
     snd (snd (vcclCommRegisterDmaBuf (Some (comm c)) fd off n True True mm p stg s))"
| "manage (Deregister h) s c = snd (vcclCommDeregister (Some (comm c)) h s)"
| "manage (CreatePreMulSum fc p dt host) s c =
     (snd (snd (vcclRedOpCreatePreMulSum fc (mem c) True p dt host (Some (comm c)))), s)"
| "manage (RedOpDestroy op) s c = (snd (vcclRedOpDestroy op (Some (comm c))), s)"
| "manage Abort s c = (snd (vcclCommAbort (errText c) (Some (comm c))), s)"
| "manage _ s c = (Some (comm c), s)"

fun client :: "call list \<Rightarrow> addr \<Rightarrow> tls \<Rightarrow> os \<Rightarrow> cmd" where
  "client [] cp t s c = Ret vcclSuccess c"
| "client (x # xs) cp t s c =
     (case issue x cp of
        Some f \<Rightarrow> (case f t c of (t', p) \<Rightarrow> bindp p (\<lambda>r c'. client xs cp t' s c'))
      | None \<Rightarrow>
          if x = GroupStart then client xs cp (snd (vcclGroupStart t)) s c
          else if x = GroupEnd then
            (case vcclGroupEnd t of
               (Return r, t') \<Rightarrow> client xs cp t' s c
             | (RunHere cp' f, t') \<Rightarrow> bindp (f c) (\<lambda>r c'. client xs cp t' s c')
             | (RunThreads fs, t') \<Rightarrow> Undef)
          else (case manage x s c of
                  (Some cm, s') \<Rightarrow> client xs cp t s' (c\<lparr>comm := cm\<rparr>)
                | (None, s') \<Rightarrow> Undef))"

lemma issue_safe: "issue x cp = Some f \<Longrightarrow> apiSafe e f"
  by (cases x) (auto simp: rooted_safe symmetric_safe p2p_safe)

subsection \<open>Groups\<close>

lemma partitionOps_ops:
  "set (snd (fold addByComm ops (ord, by)) cp) \<subseteq> set (by cp) \<union> set ops"
  by (induction ops arbitrary: ord "by") (fastforce simp: addByComm_def split: if_splits)+

lemma vcclGroupEnd_safe:
  assumes "vcclGroupEnd t = (RunHere cp f, t')" "list_all (opSafe e) (t_groupOps t)"
  shows "safe (owns e) (idle e) f (idle e)"
proof -
  obtain ord byc where p: "partitionOps (t_groupOps t) = (ord, byc)" by fastforce
  then have f: "f = runCommOps (byc cp)"
    using assms(1) by (auto simp: vcclGroupEnd_def Let_def split: if_splits list.splits)
  have "set (byc cp) \<subseteq> set (t_groupOps t)"
    using partitionOps_ops [of "t_groupOps t" "[]" "\<lambda>_. []" cp] p by (simp add: partitionOps_def)
  then show ?thesis using assms(2) unfolding f by (intro runCommOps_safe) (auto simp: list_all_iff)
qed

lemma vcclGroupEnd_queue: "list_all (opSafe e) (t_groupOps t) \<Longrightarrow> list_all (opSafe e) (t_groupOps (snd (vcclGroupEnd t)))"
  by (auto simp: vcclGroupEnd_def Let_def split: prod.split list.split)

subsection \<open>Management calls\<close>

lemma commReg_scoped: "scopedRegs (snd (snd (commReg b n c))) = scopedRegs c"
  by (simp add: commReg_def split: option.split prod.split)

lemma noteError_scoped [simp]: "scopedRegs (noteError msg r c) = scopedRegs c"
  by (simp add: noteError_def Let_def)

lemma register_idle:
  assumes "snd (snd (vcclCommRegister (Some c) b n out p)) = Some c'" "commInv e c"
  shows "commInv e c' \<and> scopedRegs c' = scopedRegs c"
proof -
  obtain r h where eq: "vcclCommRegister (Some c) b n out p = (r, h, Some c')" using assms(1) by (metis prod.collapse)
  then have "scopedRegs c' = scopedRegs c" using commReg_scoped [of b n c]
    by (auto simp: vcclCommRegister_def split: if_splits prod.splits)
  with vcclCommRegister_inv [OF assms(2) eq] show ?thesis by simp
qed

lemma registerDmaBuf_idle:
  assumes "snd (snd (vcclCommRegisterDmaBuf (Some c) fd off n po out mm p stg s)) = (Some c', s')" "commInv e c"
  shows "commInv e c' \<and> scopedRegs c' = scopedRegs c"
proof -
  obtain r h where eq: "vcclCommRegisterDmaBuf (Some c) fd off n po out mm p stg s = (r, h, Some c', s')"
    using assms(1) by (metis prod.collapse)
  then have "scopedRegs c' = scopedRegs c"
    by (auto simp: vcclCommRegisterDmaBuf_def Let_def split: if_splits option.splits prod.splits)
  with vcclCommRegisterDmaBuf_inv [OF assms(2) eq] show ?thesis by simp
qed

lemma deregister_idle:
  assumes "snd (vcclCommDeregister (Some c) h s) = (Some c', s')" "commInv e c"
  shows "commInv e c' \<and> scopedRegs c' = scopedRegs c"
proof -
  obtain r where eq: "vcclCommDeregister (Some c) h s = (r, Some c', s')" using assms(1) by (metis prod.collapse)
  then have "scopedRegs c' = scopedRegs c"
    by (auto simp: vcclCommDeregister_def Let_def split: if_splits option.splits)
  with vcclCommDeregister_inv [OF assms(2) eq] show ?thesis by simp
qed

lemma abort_idle:
  assumes "snd (vcclCommAbort msg (Some c)) = Some c'" "commInv e c"
  shows "commInv e c' \<and> scopedRegs c' = scopedRegs c"
proof -
  obtain r where eq: "vcclCommAbort msg (Some c) = (r, Some c')" using assms(1) by (metis prod.collapse)
  then have "scopedRegs c' = scopedRegs c" by (auto simp: vcclCommAbort_def Let_def)
  with vcclCommAbort_inv [OF assms(2) eq] show ?thesis by simp
qed

lemma redOps_idle:
  "snd (snd (vcclRedOpCreatePreMulSum fc m out p dt host (Some c))) = Some c' \<Longrightarrow> commInv e c \<Longrightarrow>
   commInv e c' \<and> scopedRegs c' = scopedRegs c"
  "snd (vcclRedOpDestroy op (Some c)) = Some c' \<Longrightarrow> commInv e c \<Longrightarrow> commInv e c' \<and> scopedRegs c' = scopedRegs c"
  by (auto simp: vcclRedOpCreatePreMulSum_def vcclRedOpDestroy_def Let_def split: if_splits option.splits)

lemma manage_inv:
  assumes "manage x s c = (Some cm, s')" "commInv e (comm c)"
  shows "commInv e cm \<and> scopedRegs cm = scopedRegs (comm c)"
proof (cases x)
  case (Register b n p) with assms register_idle [of "comm c"] show ?thesis by auto
next
  case (RegisterDmaBuf fd off n mm p stg) with assms registerDmaBuf_idle [of "comm c"] show ?thesis by auto
next
  case (Deregister h) with assms deregister_idle [of "comm c"] show ?thesis by auto
next
  case (CreatePreMulSum fc p dt host) with assms redOps_idle(1) [of fc "mem c" True p dt host "comm c"] show ?thesis by auto
next
  case (RedOpDestroy op) with assms redOps_idle(2) [of op "comm c"] show ?thesis by auto
next
  case Abort with assms abort_idle [of "errText c" "comm c"] show ?thesis by auto
qed (use assms in auto)

lemma manage_idle: "manage x s c = (Some cm, s') \<Longrightarrow> idle e c \<Longrightarrow> idle e (c\<lparr>comm := cm\<rparr>)"
  by (auto simp: idle_def owns_def dest: manage_inv)

lemma client_safe:
  "idle e c \<Longrightarrow> list_all (opSafe e) (t_groupOps t) \<Longrightarrow> always (owns e) (idle e) (client xs cp t s c)"
proof (induction xs arbitrary: t s c)
  case (Cons x xs)
  show ?case
  proof (cases "issue x cp")
    case (Some f)
    obtain t' p where f: "f t c = (t', p)" by fastforce
    then have "always (owns e) (idle e) p" "list_all (opSafe e) (t_groupOps t')"
      using issue_safe [OF Some, of e] Cons.prems unfolding apiSafe_def by (metis fst_conv snd_conv)+
    then show ?thesis using Cons.IH by (simp add: Some f always_bindp)
  next
    case None
    consider "x = GroupStart" | "x = GroupEnd" | "x \<noteq> GroupStart" "x \<noteq> GroupEnd" by blast
    then show ?thesis
    proof cases
      case 2
      obtain a t' where ge: "vcclGroupEnd t = (a, t')" by fastforce
      have q: "list_all (opSafe e) (t_groupOps t')" using vcclGroupEnd_queue [OF Cons.prems(2)] ge by simp
      have "always (owns e) (idle e) (bindp (f c) (\<lambda>r c'. client xs cp t' s c'))" if "a = RunHere cp' f" for cp' f
        using vcclGroupEnd_safe [OF _ Cons.prems(2)] ge that Cons.prems(1) Cons.IH [OF _ q]
        by (intro always_bindp [of _ "idle e"]) (auto intro: safeD)
      with q Cons show ?thesis by (auto simp: 2 ge split: groupAction.split)
    qed (use Cons None manage_idle in \<open>auto simp: vcclGroupStart_def split: option.split prod.split\<close>)
  qed
qed simp

end
