(* ===== verification/Vccl_Group_Spec.thy ===== *)
theory Vccl_Group_Spec
  imports Vccl_Client
begin

text \<open>
  What a group does, as a function of its queue: at the outermost \<open>vcclGroupEnd\<close> each communicator
  that was used runs its own operations in issue order, the communicators in order of first use. And
  the argument checks of all entry points: a rejected call changes nothing and queues nothing.
\<close>

subsection \<open>Partition of the queue\<close>

text \<open>The distinct elements of a list in order of first occurrence.\<close>

definition firsts :: "'a list \<Rightarrow> 'a list" where
  "firsts xs = rev (remdups (rev xs))"

lemma firsts_snoc: "firsts (xs @ [x]) = (if x \<in> set xs then firsts xs else firsts xs @ [x])"
  by (simp add: firsts_def)

lemma partitionOps_filter:
  "partitionOps ops = (firsts (map qcomm ops), \<lambda>cp. filter (\<lambda>x. qcomm x = cp) ops)"
proof (induction ops rule: rev_induct)
  case Nil
  then show ?case by (simp add: partitionOps_def firsts_def)
next
  case (snoc x ops)
  have "filter (\<lambda>y. qcomm y = qcomm x) ops = [] \<longleftrightarrow> qcomm x \<notin> set (map qcomm ops)"
    by (metis (mono_tags, lifting) filter_empty_conv imageE image_eqI set_map)
  with snoc show ?case by (auto simp: partitionOps_def addByComm_def firsts_snoc fun_eq_iff)
qed

definition groupRuns :: "QueuedOp list \<Rightarrow> (addr \<times> cmd) list" where
  "groupRuns ops = map (\<lambda>cp. (cp, runCommOps (filter (\<lambda>x. qcomm x = cp) ops))) (firsts (map qcomm ops))"

definition groupAct :: "(addr \<times> cmd) list \<Rightarrow> groupAction" where
  "groupAct rs = (case rs of [] \<Rightarrow> Return vcclSuccess | [(cp, f)] \<Rightarrow> RunHere cp f | _ \<Rightarrow> RunThreads rs)"

lemma vcclGroupEnd_spec:
  "vcclGroupEnd t =
     (if t_groupDepth t = 0 then (Return vcclInvalidUsage, t)
      else if t_groupDepth t > 1 then (Return vcclSuccess, t\<lparr>t_groupDepth := t_groupDepth t - 1\<rparr>)
      else (groupAct (groupRuns (t_groupOps t)), t\<lparr>t_groupDepth := 0, t_groupOps := []\<rparr>))"
  by (auto simp: vcclGroupEnd_def Let_def partitionOps_filter groupRuns_def groupAct_def split: list.split)

subsection \<open>Argument checks\<close>

text \<open>What each entry point demands of its arguments on a live communicator.\<close>

definition opArgOk :: "vcclComm \<Rightarrow> vcclDataType_t \<Rightarrow> vcclRedOp_t \<Rightarrow> bool" where
  "opArgOk cm dt op \<longleftrightarrow> 0 \<le> op \<and>
     (if op < vcclNumOps then op = vcclAvg \<longrightarrow> isFloatType dt else isFloatType dt \<and> premulScalar cm op \<noteq> None)"

definition rootOk :: "vcclComm \<Rightarrow> addr \<Rightarrow> addr \<Rightarrow> int \<Rightarrow> bool" where
  "rootOk cm b atRoot root \<longleftrightarrow> b \<noteq> 0 \<and> 0 \<le> root \<and> root < int (nranks cm) \<and> (int (rank cm) = root \<longrightarrow> atRoot \<noteq> 0)"

definition peerArgOk :: "vcclComm \<Rightarrow> int \<Rightarrow> bool" where
  "peerArgOk cm p \<longleftrightarrow> 0 \<le> p \<and> p < int (nranks cm) \<and> p \<noteq> int (rank cm)"

fun argsOk :: "call \<Rightarrow> vcclComm \<Rightarrow> bool" where
  "argsOk (AllReduce s r n dt op) cm \<longleftrightarrow> s \<noteq> 0 \<and> r \<noteq> 0 \<and> dt \<noteq> vcclNumTypes \<and> opArgOk cm dt op"
| "argsOk (AllGather s r n dt) cm \<longleftrightarrow> s \<noteq> 0 \<and> r \<noteq> 0 \<and> dt \<noteq> vcclNumTypes"
| "argsOk (ReduceScatter s r n dt op) cm \<longleftrightarrow> s \<noteq> 0 \<and> r \<noteq> 0 \<and> dt \<noteq> vcclNumTypes \<and> opArgOk cm dt op"
| "argsOk (Reduce s r n dt op root) cm \<longleftrightarrow> dt \<noteq> vcclNumTypes \<and> rootOk cm s r root \<and> opArgOk cm dt op"
| "argsOk (Broadcast s r n dt root) cm \<longleftrightarrow> dt \<noteq> vcclNumTypes \<and> rootOk cm r s root"
| "argsOk (Gather s r n dt root) cm \<longleftrightarrow> dt \<noteq> vcclNumTypes \<and> rootOk cm s r root"
| "argsOk (Scatter s r n dt root) cm \<longleftrightarrow> dt \<noteq> vcclNumTypes \<and> rootOk cm r s root"
| "argsOk (AllToAll s r n dt) cm \<longleftrightarrow> s \<noteq> 0 \<and> r \<noteq> 0 \<and> dt \<noteq> vcclNumTypes"
| "argsOk (AllToAllv s sc sd r rc rdp dt) cm \<longleftrightarrow> s \<noteq> 0 \<and> r \<noteq> 0 \<and> dt \<noteq> vcclNumTypes \<and>
     sc \<noteq> None \<and> sd \<noteq> None \<and> rc \<noteq> None \<and> rdp \<noteq> None"
| "argsOk (Send b n dt p) cm \<longleftrightarrow> b \<noteq> 0 \<and> dt \<noteq> vcclNumTypes \<and> peerArgOk cm p"
| "argsOk (Recv b n dt p) cm \<longleftrightarrow> b \<noteq> 0 \<and> dt \<noteq> vcclNumTypes \<and> peerArgOk cm p"
| "argsOk _ cm \<longleftrightarrow> True"

lemma typeSize_0 [simp]: "vcclTypeSize dt = 0 \<longleftrightarrow> dt = vcclNumTypes"
  by (cases dt) simp_all

lemma resolveOp_arg: "(case resolveOp cm dt op of Inl e \<Rightarrow> e = vcclInvalidArgument \<and> \<not> opArgOk cm dt op | Inr x \<Rightarrow> opArgOk cm dt op)"
  by (auto simp: resolveOp_def opArgOk_def split: option.split)

lemma issue_rejects:
  assumes "issue x cp = Some f" "cp \<noteq> 0" "\<not> aborted (comm c)" "\<not> argsOk x (comm c)"
  shows "f t c = (t, Ret vcclInvalidArgument c)"
proof -
  note defs = checkArgs_def checkRooted_def checkP2p_def checkComm_def rootOk_def peerArgOk_def Let_def
    vcclAllReduce_def vcclAllGather_def vcclReduceScatter_def vcclReduce_def vcclBroadcast_def vcclGather_def
    vcclScatter_def vcclAllToAll_def vcclAllToAllv_def vcclSend_def vcclRecv_def
  show ?thesis
  proof (cases x)
    case (AllReduce s r n dt op)
    then show ?thesis using assms resolveOp_arg [of "comm c" dt op] by (auto simp: defs split: sum.splits)
  next
    case (ReduceScatter s r n dt op)
    then show ?thesis using assms resolveOp_arg [of "comm c" dt op] by (auto simp: defs split: sum.splits)
  next
    case (Reduce s r n dt op root)
    then show ?thesis using assms resolveOp_arg [of "comm c" dt op] by (auto simp: defs split: sum.splits)
  qed (use assms in \<open>auto simp: defs split: option.splits\<close>)
qed

lemma issue_dead:
  assumes "issue x cp = Some f" "cp = 0 \<or> aborted (comm c)"
  shows "f t c = (t, Ret (if cp = 0 then vcclInvalidArgument else vcclInvalidUsage) c)"
  using assms by (cases x) (auto simp: checkArgs_def checkRooted_def checkP2p_def checkComm_def Let_def
    vcclAllReduce_def vcclAllGather_def vcclReduceScatter_def vcclReduce_def vcclBroadcast_def vcclGather_def
    vcclScatter_def vcclAllToAll_def vcclAllToAllv_def vcclSend_def vcclRecv_def)

subsection \<open>The error latch\<close>

lemma noteError_latch:
  "asyncError (noteError msg r c) = (if asyncError c = vcclSuccess then r else asyncError c)"
  "aborted (noteError msg r c) \<longleftrightarrow> aborted c \<or> isFatal r"
  "lastError (noteError msg r c) = (if r \<noteq> vcclSuccess \<and> msg \<noteq> [] then msg else lastError c)"
  by (auto simp: noteError_def Let_def isFatal_def)

end
