(* ===== verification/Vccl_Exchange.thy ===== *)
theory Vccl_Exchange
  imports Vccl_Group_Spec Vccl_Par
begin

text \<open>
  A group of sends and receives on all ranks. When for every pair of ranks the sizes sent one way are
  the sizes received at the other end, in order, then the group ends on every rank under every
  schedule, and the buffers received from a peer hold what that peer sent, in order. No ordering of
  the operations between different peers or directions can make it deadlock.
\<close>

subsection \<open>Pending transfers\<close>

fun pendSends :: "slot list \<Rightarrow> nat \<Rightarrow> byte list list" where
  "pendSends [] j = []"
| "pendSends (SSend p d b # ss) j = (if p = j \<and> \<not> b then d # pendSends ss j else pendSends ss j)"
| "pendSends (SRecv p a n x # ss) j = pendSends ss j"

fun pendRecvs :: "slot list \<Rightarrow> nat \<Rightarrow> nat list" where
  "pendRecvs [] i = []"
| "pendRecvs (SRecv p a n x # ss) i = (if p = i \<and> x = None then n # pendRecvs ss i else pendRecvs ss i)"
| "pendRecvs (SSend p d b # ss) i = pendRecvs ss i"

fun slotPeer :: "slot \<Rightarrow> nat" where
  "slotPeer (SSend p d b) = p"
| "slotPeer (SRecv p a n x) = p"

text \<open>All transfers done, the receives filled from one queue of messages per peer.\<close>

fun fillAll :: "(nat \<Rightarrow> byte list list) \<Rightarrow> slot list \<Rightarrow> slot list" where
  "fillAll D [] = []"
| "fillAll D (SSend p d b # ss) = SSend p d True # fillAll D ss"
| "fillAll D (SRecv p a n (Some d) # ss) = SRecv p a n (Some d) # fillAll D ss"
| "fillAll D (SRecv p a n None # ss) = SRecv p a n (Some (hd (D p))) # fillAll (D(p := tl (D p))) ss"

lemma takeSend_ex: "pendSends ss j = d # ds \<Longrightarrow> \<exists>ss'. takeSend j ss = Some (d, ss')"
  by (induction ss j rule: pendSends.induct) (auto split: if_splits)

lemma takeSend_pend:
  "takeSend j ss = Some (d, ss') \<Longrightarrow> pendSends ss j = d # pendSends ss' j \<and> (k \<noteq> j \<longrightarrow> pendSends ss' k = pendSends ss k)"
  by (induction j ss arbitrary: ss' rule: takeSend.induct) (auto split: if_splits)

lemma takeSend_keeps:
  "takeSend j ss = Some (d, ss') \<Longrightarrow> pendRecvs ss' k = pendRecvs ss k \<and> map slotPeer ss' = map slotPeer ss"
  by (induction j ss arbitrary: ss' rule: takeSend.induct) (auto split: if_splits)

lemma takeSend_fillAll: "takeSend j ss = Some (d, ss') \<Longrightarrow> fillAll D ss' = fillAll D ss"
proof (induction j ss arbitrary: ss' D rule: takeSend.induct)
  case (3 j p a n x ss)
  then show ?case by (cases x) (auto simp: fun_upd_def)
qed (auto split: if_splits)

lemma fillRecv_ex: "pendRecvs ss i = length d # ns \<Longrightarrow> \<exists>ss'. fillRecv i d ss = Some ss'"
  by (induction ss i rule: pendRecvs.induct) (auto split: if_splits)

lemma fillRecv_pend:
  "fillRecv i d ss = Some ss' \<Longrightarrow> pendRecvs ss i = length d # pendRecvs ss' i \<and> (k \<noteq> i \<longrightarrow> pendRecvs ss' k = pendRecvs ss k)"
  by (induction i d ss arbitrary: ss' rule: fillRecv.induct) (auto split: if_splits)

lemma fillRecv_keeps:
  "fillRecv i d ss = Some ss' \<Longrightarrow> pendSends ss' k = pendSends ss k \<and> map slotPeer ss' = map slotPeer ss"
  by (induction i d ss arbitrary: ss' rule: fillRecv.induct) (auto split: if_splits)

lemma fillRecv_fillAll:
  "fillRecv i d ss = Some ss' \<Longrightarrow> D i = d # ds \<Longrightarrow> fillAll (D(i := ds)) ss' = fillAll D ss"
proof (induction i d ss arbitrary: ss' D rule: fillRecv.induct)
  case (2 i d p a n x ss)
  show ?case
  proof (cases "p = i \<and> x = None")
    case False
    then obtain ss1 where s: "fillRecv i d ss = Some ss1" "ss' = SRecv p a n x # ss1" using 2 by auto
    show ?thesis
    proof (cases x)
      case None
      with False have "p \<noteq> i" by simp
      then have "(D(i := ds))(p := tl (D p)) = (D(p := tl (D p)))(i := ds)" by (simp add: fun_upd_twist)
      moreover have "fillAll ((D(p := tl (D p)))(i := ds)) ss1 = fillAll (D(p := tl (D p))) ss"
        by (rule 2(1) [OF False s(1)]) (use 2(3) \<open>p \<noteq> i\<close> in simp)
      moreover have "(D(i := ds)) p = D p" using \<open>p \<noteq> i\<close> by simp
      ultimately show ?thesis using None s by (simp only: fillAll.simps)
    qed (use 2 False s in auto)
  qed (use 2 in \<open>auto simp: fun_upd_def split: if_splits\<close>)
qed auto

lemma all_done:
  "(\<And>s. s \<in> set ss \<Longrightarrow> pendSends ss (slotPeer s) = [] \<and> pendRecvs ss (slotPeer s) = []) \<Longrightarrow>
   list_all slotDone ss \<and> fillAll D ss = ss"
proof (induction ss arbitrary: D)
  case (Cons s ss)
  have "pendSends ss (slotPeer s') = [] \<and> pendRecvs ss (slotPeer s') = []" if "s' \<in> set ss" for s'
    using Cons.prems [of s'] that by (cases s) (auto split: if_splits)
  then have ih: "list_all slotDone ss \<and> fillAll D ss = ss" for D using Cons.IH by blast
  show ?case
  proof (cases s)
    case (SSend p d b)
    then show ?thesis using ih Cons.prems [of s] by (auto split: if_splits)
  next
    case (SRecv p a n x)
    then show ?thesis using ih Cons.prems [of s] by (cases x) auto
  qed
qed simp

subsection \<open>The run\<close>

definition matched :: "nat \<Rightarrow> (nat \<Rightarrow> slot list) \<Rightarrow> bool" where
  "matched n S \<longleftrightarrow> (\<forall>i<n. \<forall>j<n. map length (pendSends (S i) j) = pendRecvs (S j) i) \<and>
     (\<forall>i<n. \<forall>s\<in>set (S i). slotPeer s < n \<and> slotPeer s \<noteq> i)"

definition pendingMsgs :: "nat \<Rightarrow> (nat \<Rightarrow> slot list) \<Rightarrow> nat" where
  "pendingMsgs n S = (\<Sum>i<n. \<Sum>j<n. length (pendSends (S i) j))"

definition filled :: "(nat \<Rightarrow> slot list) \<Rightarrow> nat \<Rightarrow> slot list" where
  "filled S j = fillAll (\<lambda>i. pendSends (S i) j) (S j)"

lemma pendingMsgs_less:
  assumes "i < n" "j < n" "length (pendSends (S i) j) < length (pendSends (T i) j)"
    "\<And>a b. length (pendSends (S a) b) \<le> length (pendSends (T a) b)"
  shows "pendingMsgs n S < pendingMsgs n T"
  unfolding pendingMsgs_def using assms
  by (intro sum_strict_mono_ex1 bexI [of _ i] bexI [of _ j] ballI sum_mono) auto

lemma takeSend_peer: "takeSend j ss = Some x \<Longrightarrow> \<exists>s\<in>set ss. slotPeer s = j"
  by (induction j ss arbitrary: x rule: takeSend.induct) (auto split: if_splits)

lemma fill_step:
  assumes "takeSend j (S i) = Some (d, si)" "fillRecv i d (S j) = Some sj" "i \<noteq> j" "pendSends (S i) j = d # ds"
  shows "filled (S(i := si, j := sj)) r = filled S r"
proof -
  let ?S = "S(i := si, j := sj)"
  have send: "pendSends (?S a) b = (if a = i \<and> b = j then ds else pendSends (S a) b)" for a b
    using takeSend_pend [OF assms(1), of b] fillRecv_keeps [OF assms(2), of b] assms(3,4) by auto
  consider "r = j" | "r = i" | "r \<noteq> i" "r \<noteq> j" by blast
  then show ?thesis
  proof cases
    case 1
    have "(\<lambda>a. pendSends (?S a) j) = (\<lambda>a. pendSends (S a) j)(i := ds)" using send by auto
    then show ?thesis using fillRecv_fillAll [OF assms(2), of "\<lambda>a. pendSends (S a) j" ds] assms(4) by (simp add: 1 filled_def)
  next
    case 2
    have "(\<lambda>a. pendSends (?S a) i) = (\<lambda>a. pendSends (S a) i)" using send assms(3) by auto
    then show ?thesis using takeSend_fillAll [OF assms(1)] assms(3) by (simp add: 2 filled_def)
  next
    case 3
    have "(\<lambda>a. pendSends (?S a) r) = (\<lambda>a. pendSends (S a) r)" using send 3 by auto
    then show ?thesis using 3 by (simp add: filled_def)
  qed
qed

lemma exchange_run:
  assumes "matched n S" "\<And>r. r < n \<Longrightarrow> cfg r = advance (S r) (c r) (K r)"
  shows "net_step\<^sup>*\<^sup>* cfg (\<lambda>r. if r < n then K r vcclSuccess (commit (filled S r) (c r)) else cfg r)"
  using assms
proof (induction "pendingMsgs n S" arbitrary: S cfg rule: less_induct)
  case less
  show ?case
  proof (cases "\<exists>i<n. \<exists>j<n. pendSends (S i) j \<noteq> []")
    case False
    have "list_all slotDone (S r) \<and> filled S r = S r" if "r < n" for r
      unfolding filled_def
    proof (rule all_done)
      fix s assume "s \<in> set (S r)"
      with less(2) that have "slotPeer s < n" "map length (pendSends (S (slotPeer s)) r) = pendRecvs (S r) (slotPeer s)"
        by (auto simp: matched_def)
      with False that show "pendSends (S r) (slotPeer s) = [] \<and> pendRecvs (S r) (slotPeer s) = []" by auto
    qed
    then have "(\<lambda>r. if r < n then K r vcclSuccess (commit (filled S r) (c r)) else cfg r) = cfg"
      using less(3) by (auto simp: fun_eq_iff advance_def)
    then show ?thesis by simp
  next
    case True
    then obtain i j d ds where ij: "i < n" "j < n" and d: "pendSends (S i) j = d # ds" by (meson list.exhaust)
    obtain si where si: "takeSend j (S i) = Some (d, si)" using takeSend_ex [OF d] by blast
    have "map length (pendSends (S i) j) = pendRecvs (S j) i" using less(2) ij by (auto simp: matched_def)
    then have "pendRecvs (S j) i = length d # map length ds" using d by simp
    then obtain sj where sj: "fillRecv i d (S j) = Some sj" using fillRecv_ex by blast
    have ne: "i \<noteq> j" using takeSend_peer [OF si] less(2) ij(1) by (auto simp: matched_def)
    let ?S = "S(i := si, j := sj)"
    let ?cfg = "cfg(i := advance si (c i) (K i), j := advance sj (c j) (K j))"
    have step: "net_step cfg ?cfg"
    proof (rule net_step.message [OF ne, of d])
      show "lstep (actAt i j d k) (cfg k) = Some (?cfg k)" for k
        using less(3) ij ne si sj by (auto simp: actAt_def advance_pending(1) [OF si] advance_pending(2) [OF sj])
    qed
    note ks = takeSend_pend [OF si] takeSend_keeps [OF si] and kr = fillRecv_pend [OF sj] fillRecv_keeps [OF sj]
    have send: "pendSends (?S a) b = (if a = i \<and> b = j then ds else pendSends (S a) b)" for a b
      using ks(1) [of b] kr(2) [of b] d ne by auto
    have recv: "pendRecvs (?S a) b = (if a = j \<and> b = i then tl (pendRecvs (S a) b) else pendRecvs (S a) b)" for a b
      using ks(2) [of b] kr(1) [of b] ne by auto
    have peers: "slotPeer ` set (?S a) = slotPeer ` set (S a)" for a
      using ks(2) kr(2) ne by (auto simp flip: set_map)
    have m: "matched n ?S" unfolding matched_def
    proof (intro conjI allI impI)
      show "map length (pendSends (?S a) b) = pendRecvs (?S b) a" if "a < n" "b < n" for a b
      proof -
        have "map length (pendSends (S a) b) = pendRecvs (S b) a" using less(2) that by (simp add: matched_def)
        then show ?thesis unfolding send recv using d by (cases "a = i \<and> b = j") (auto simp: map_tl dest: sym)
      qed
      show "\<forall>s\<in>set (?S a). slotPeer s < n \<and> slotPeer s \<noteq> a" if "a < n" for a
      proof
        fix s assume "s \<in> set (?S a)"
        then obtain s' where "s' \<in> set (S a)" "slotPeer s = slotPeer s'" using peers [of a] by (metis imageE image_eqI)
        then show "slotPeer s < n \<and> slotPeer s \<noteq> a" using less(2) that by (simp add: matched_def)
      qed
    qed
    have fill: "filled ?S r = filled S r" for r
      using fill_step [OF si sj ne d] .
    have "pendingMsgs n ?S < pendingMsgs n S"
      using ij d by (intro pendingMsgs_less [of i n j]) (simp_all only: send, auto)
    from less(1) [OF this m, of ?cfg] have "net_step\<^sup>*\<^sup>* ?cfg
        (\<lambda>r. if r < n then K r vcclSuccess (commit (filled ?S r) (c r)) else ?cfg r)"
      using less(3) ne by auto
    moreover have "(\<lambda>r. if r < n then K r vcclSuccess (commit (filled ?S r) (c r)) else ?cfg r) =
      (\<lambda>r. if r < n then K r vcclSuccess (commit (filled S r) (c r)) else cfg r)" using ij fill by auto
    ultimately have "net_step\<^sup>*\<^sup>* ?cfg (\<lambda>r. if r < n then K r vcclSuccess (commit (filled S r) (c r)) else cfg r)" by simp
    with step show ?thesis by (rule converse_rtranclp_into_rtranclp)
  qed
qed

subsection \<open>Batches of transfers\<close>

definition sendsTo :: "P2pOp list \<Rightarrow> nat \<Rightarrow> P2pOp list" where
  "sendsTo ops j = filter (\<lambda>x. isSend x \<and> peer x = j \<and> bytes x \<noteq> 0) ops"

definition recvsFrom :: "P2pOp list \<Rightarrow> nat \<Rightarrow> P2pOp list" where
  "recvsFrom ops i = filter (\<lambda>x. \<not> isSend x \<and> peer x = i \<and> bytes x \<noteq> 0) ops"

definition opData :: "ctx \<Rightarrow> P2pOp \<Rightarrow> byte list" where
  "opData c x = rd (mem c) (buf x) (bytes x)"

lemma pendSends_ops: "pendSends (map (opSlot c) ops) j = map (opData c) (sendsTo ops j)"
  by (induction ops) (auto simp: sendsTo_def opSlot_def sendSlot_def recvSlot_def opData_def)

lemma pendRecvs_ops: "pendRecvs (map (opSlot c) ops) i = map bytes (recvsFrom ops i)"
  by (induction ops) (auto simp: recvsFrom_def opSlot_def sendSlot_def recvSlot_def)

text \<open>What storing a batch leaves in memory: each receive buffer its message, the rest unchanged.\<close>

definition recvBufs :: "P2pOp list \<Rightarrow> addr set" where
  "recvBufs ops = (\<Union>x\<in>{x \<in> set ops. \<not> isSend x}. {buf x..<buf x + bytes x})"

lemma commit1_SRecv: "commit1 (SRecv p a n (Some d)) m = wr m a d"
  by (simp add: commit1_def)

lemma commit_outside:
  assumes "\<And>i. map bytes (recvsFrom ops i) = map length (D i)" "p \<notin> recvBufs ops"
  shows "fold commit1 (fillAll D (map (opSlot c) ops)) m p = m p"
  using assms
proof (induction ops arbitrary: D m)
  case (Cons x ops)
  have out: "p \<notin> recvBufs ops" using Cons.prems(2) by (auto simp: recvBufs_def)
  show ?case
  proof (cases "isSend x \<or> bytes x = 0")
    case True
    then have "map bytes (recvsFrom ops i) = map length (D i)" for i
      using Cons.prems(1) [of i] by (auto simp: recvsFrom_def)
    from Cons.IH [OF this out] True show ?thesis
      by (auto simp: opSlot_def sendSlot_def recvSlot_def commit1_def wr_def)
  next
    case False
    let ?D = "D(peer x := tl (D (peer x)))"
    have d: "D (peer x) = hd (D (peer x)) # tl (D (peer x))" "length (hd (D (peer x))) = bytes x"
      using Cons.prems(1) [of "peer x"] False by (cases "D (peer x)"; simp add: recvsFrom_def)+
    have "map bytes (recvsFrom ops i) = map length (?D i)" for i
      using Cons.prems(1) [of i] False d by (cases "i = peer x") (auto simp: recvsFrom_def map_tl)
    then have "fold commit1 (fillAll ?D (map (opSlot c) ops)) (wr m (buf x) (hd (D (peer x)))) p = wr m (buf x) (hd (D (peer x))) p"
      using Cons.IH [of ?D] out by blast
    also have "\<dots> = m p" using Cons.prems(2) False d(2) by (auto simp: recvBufs_def wr_def)
    finally have "fold commit1 (fillAll ?D (map (opSlot c) ops)) (wr m (buf x) (hd (D (peer x)))) p = m p" .
    moreover have "opSlot c x = SRecv (peer x) (buf x) (bytes x) None" using False by (simp add: opSlot_def recvSlot_def)
    ultimately show ?thesis by (simp add: commit1_SRecv del: fun_upd_apply)
  qed
qed simp

lemma commit_received:
  assumes "\<And>i. map bytes (recvsFrom ops i) = map length (D i)" "opsRaceFree ops"
  shows "map (\<lambda>x. rd (fold commit1 (fillAll D (map (opSlot c) ops)) m) (buf x) (bytes x)) (recvsFrom ops i) = D i"
  using assms
proof (induction ops arbitrary: D m)
  case Nil
  then show ?case by (simp add: recvsFrom_def)
next
  case (Cons x ops)
  have race: "opsRaceFree ops" using Cons.prems(2) by simp
  show ?case
  proof (cases "isSend x \<or> bytes x = 0")
    case True
    then have same: "recvsFrom (x # ops) i = recvsFrom ops i" for i by (auto simp: recvsFrom_def)
    then have "map bytes (recvsFrom ops i) = map length (D i)" for i using Cons.prems(1) [of i] by simp
    from Cons.IH [OF this race, of m] True show ?thesis
      by (auto simp: same opSlot_def sendSlot_def recvSlot_def commit1_def)
  next
    case False
    let ?d = "hd (D (peer x))" and ?D = "D(peer x := tl (D (peer x)))"
    let ?m = "fold commit1 (fillAll ?D (map (opSlot c) ops)) (wr m (buf x) ?d)"
    have d: "D (peer x) = ?d # tl (D (peer x))" "length ?d = bytes x"
      using Cons.prems(1) [of "peer x"] False by (cases "D (peer x)"; simp add: recvsFrom_def)+
    have rest: "map bytes (recvsFrom ops i) = map length (?D i)" for i
      using Cons.prems(1) [of i] False d by (cases "i = peer x") (auto simp: recvsFrom_def map_tl)
    have "rd ?m (buf x) (bytes x) = rd (wr m (buf x) ?d) (buf x) (bytes x)"
    proof (rule rd_cong)
      fix a assume a: "buf x \<le> a" "a < buf x + bytes x"
      have "a \<notin> recvBufs ops"
      proof
        assume "a \<in> recvBufs ops"
        then obtain y where y: "y \<in> set ops" "\<not> isSend y" "buf y \<le> a" "a < buf y + bytes y" by (auto simp: recvBufs_def)
        then have "disj (buf x) (bytes x) (buf y) (bytes y)" using Cons.prems(2) by (auto simp: list_all_iff)
        with a y show False by (auto simp: disj_def)
      qed
      from commit_outside [OF rest this] show "?m a = wr m (buf x) ?d a" .
    qed
    also have "\<dots> = ?d" using d(2) by (simp add: rd_wr_same)
    finally have hd: "rd ?m (buf x) (bytes x) = ?d" .
    have slot: "opSlot c x = SRecv (peer x) (buf x) (bytes x) None" using False by (simp add: opSlot_def recvSlot_def)
    have "recvsFrom (x # ops) i = (if peer x = i then [x] else []) @ recvsFrom ops i"
      using False by (simp add: recvsFrom_def)
    moreover have "map (\<lambda>y. rd ?m (buf y) (bytes y)) (recvsFrom ops i) = ?D i" by (rule Cons.IH [OF rest race])
    moreover have m: "fold commit1 (fillAll D (map (opSlot c) (x # ops))) m = ?m"
      by (simp add: slot commit1_SRecv del: fun_upd_apply)
    ultimately have "map (\<lambda>y. rd ?m (buf y) (bytes y)) (recvsFrom (x # ops) i) = (if peer x = i then [?d] else []) @ ?D i"
      using hd by (cases "peer x = i") (simp_all del: fun_upd_apply)
    then show ?thesis unfolding m using d(1) by (cases "i = peer x") simp_all
  qed
qed

text \<open>The ranks below \<open>n\<close> post their batches and the sizes agree pairwise.\<close>

definition batchOk :: "nat \<Rightarrow> (nat \<Rightarrow> ctx) \<Rightarrow> (nat \<Rightarrow> P2pOp list) \<Rightarrow> bool" where
  "batchOk n c ops \<longleftrightarrow> (\<forall>r<n. opsRaceFree (ops r) \<and> (\<forall>x\<in>set (ops r). peer x < n \<and> peer x \<noteq> r)) \<and>
     (\<forall>i<n. \<forall>j<n. map bytes (sendsTo (ops i) j) = map bytes (recvsFrom (ops j) i))"

definition exchanged :: "nat \<Rightarrow> (nat \<Rightarrow> ctx) \<Rightarrow> (nat \<Rightarrow> P2pOp list) \<Rightarrow> nat \<Rightarrow> mem \<Rightarrow> bool" where
  "exchanged n c ops j m \<longleftrightarrow>
     (\<forall>i<n. map (\<lambda>x. rd m (buf x) (bytes x)) (recvsFrom (ops j) i) = map (opData (c i)) (sendsTo (ops i) j)) \<and>
     (\<forall>p. p \<notin> recvBufs (ops j) \<longrightarrow> m p = mem (c j) p)"

lemma postOp_none: "fold postOp ops (Some []) = Some []"
  by (induction ops) (simp_all add: postOp_def)

lemma transfers_advance:
  assumes "posted c = []" "transport (comm c) \<noteq> None" "opsRaceFree ops" "\<And>x. x \<in> set ops \<Longrightarrow> peerOk (comm c) (peer x)"
  shows "transfers ops c = advance (map (opSlot c) ops) c Ret"
proof -
  have c: "c\<lparr>posted := []\<rparr> = c" using assms(1) by (cases c) simp
  have "\<not> opBusy c x" for x using assms(1) by (simp add: opBusy_def)
  then show ?thesis using assms by (simp add: transfers_def postOp_none list_all_iff Let_def c)
qed

text \<open>On verbs, a batch that the queues can take in one wave.\<close>

definition oneWave :: "P2pOp list \<Rightarrow> bool" where
  "oneWave ops \<longleftrightarrow> waveFit (\<lambda>_. 0) ops = length ops"

lemma batch_oneWave:
  assumes "isVerbs (comm c) \<Longrightarrow> oneWave ops" "posted c = []" "transport (comm c) \<noteq> None"
  shows "batch ops c = transfers ops c"
proof (cases "ops = []")
  case True
  have c: "c\<lparr>posted := []\<rparr> = c" using assms(2) by (cases c) simp
  then show ?thesis using True assms(2,3)
    by (simp add: batch_def batchWaves.simps [of "[]"] transfers_def advance_def commit_def ok_def)
next
  case False
  then have "batchWaves ops = transfers ops" if "oneWave ops"
    using that by (simp add: batchWaves.simps [of ops] batchWaves.simps [of "[]"] oneWave_def waveEnd_def)
  then show ?thesis using assms(1) by (simp add: batch_def)
qed

lemma par_batch:
  assumes "batchOk n c ops" "\<And>r. r < n \<Longrightarrow> posted (c r) = [] \<and> transport (comm (c r)) \<noteq> None \<and>
      rank (comm (c r)) = r \<and> nranks (comm (c r)) = n \<and> (isVerbs (comm (c r)) \<longrightarrow> oneWave (ops r))"
  shows "\<exists>M. par {..<n} (\<lambda>r. batch (ops r)) c (\<lambda>r. (c r)\<lparr>mem := M r\<rparr>) \<and> (\<forall>r<n. exchanged n c ops r (M r))"
proof -
  let ?S = "\<lambda>r. if r < n then map (opSlot (c r)) (ops r) else []"
  let ?M = "\<lambda>r. fold commit1 (filled ?S r) (mem (c r))"
  have len: "map length (map (opData (c i)) xs) = map bytes xs" for i xs by (simp add: opData_def)
  have peer: "slotPeer (opSlot (c r) x) = peer x" for r x by (simp add: opSlot_def sendSlot_def recvSlot_def)
  have m: "matched n ?S" unfolding matched_def
    using assms(1) peer by (auto simp: batchOk_def pendSends_ops pendRecvs_ops len comp_def opData_def)
  have "par {..<n} (\<lambda>r. batch (ops r)) c (\<lambda>r. (c r)\<lparr>mem := ?M r\<rparr>)"
  proof (rule parI)
    fix cfg K assume cfg: "\<And>r. r \<in> {..<n} \<Longrightarrow> cfg r = bindp (batch (ops r) (c r)) (K r)"
    have "cfg r = advance (?S r) (c r) (K r)" if "r < n" for r
      using cfg [of r] that assms transfers_advance [of "c r" "ops r"]
      by (auto simp: batch_oneWave batchOk_def peerOk_def)
    from exchange_run [OF m this] show "net_step\<^sup>*\<^sup>* cfg (\<lambda>r. if r \<in> {..<n} then K r vcclSuccess ((c r)\<lparr>mem := ?M r\<rparr>) else cfg r)"
      unfolding commit_def by (simp only: lessThan_iff)
  qed
  moreover have "exchanged n c ops r (?M r)" if r: "r < n" for r
  proof -
    let ?D = "\<lambda>i. if i < n then map (opData (c i)) (sendsTo (ops i) r) else []"
    have none: "recvsFrom (ops r) i = []" if "\<not> i < n" for i
      using assms(1) r that by (auto simp: batchOk_def recvsFrom_def filter_empty_conv)
    have D: "map bytes (recvsFrom (ops r) i) = map length (?D i)" for i
      using assms(1) r none [of i] by (auto simp: batchOk_def len comp_def opData_def)
    have "(\<lambda>i. pendSends (?S i) r) = ?D" by (auto simp: fun_eq_iff pendSends_ops)
    then have "filled ?S r = fillAll ?D (map (opSlot (c r)) (ops r))" unfolding filled_def using r by simp
    moreover have "opsRaceFree (ops r)" using assms(1) r by (simp add: batchOk_def)
    ultimately show ?thesis unfolding exchanged_def
      using commit_received [OF D] commit_outside [OF D] by auto
  qed
  ultimately show ?thesis by (intro exI [of _ ?M]) blast
qed

subsection \<open>A group of sends and receives\<close>

fun opOfCall :: "call \<Rightarrow> P2pOp" where
  "opOfCall (Send b n dt p) = \<lparr>isSend = True, peer = nat p, buf = b, bytes = n * vcclTypeSize dt\<rparr>"
| "opOfCall (Recv b n dt p) = \<lparr>isSend = False, peer = nat p, buf = b, bytes = n * vcclTypeSize dt\<rparr>"
| "opOfCall _ = \<lparr>isSend = False, peer = 0, buf = 0, bytes = 0\<rparr>"

fun p2pCall :: "call \<Rightarrow> bool" where
  "p2pCall (Send b n dt p) = True"
| "p2pCall (Recv b n dt p) = True"
| "p2pCall _ = False"

lemma issue_p2p:
  assumes "p2pCall x" "argsOk x (comm c)" "cp \<noteq> 0" "\<not> aborted (comm c)" "inGroup t"
  shows "\<exists>f. issue x cp = Some f \<and> f t c = (t\<lparr>t_groupOps := t_groupOps t @ [QP2p cp (opOfCall x)]\<rparr>, Ret vcclSuccess c)"
  using assms by (cases x)
    (auto simp: vcclSend_def vcclRecv_def checkP2p_def checkComm_def peerArgOk_def enqueueOrRunP2p_def Let_def)

lemma client_enqueue:
  assumes "list_all p2pCall xs" "list_all (\<lambda>x. argsOk x (comm c)) xs" "cp \<noteq> 0" "\<not> aborted (comm c)" "inGroup t"
  shows "client (xs @ ys) cp t s c =
    client ys cp (t\<lparr>t_groupOps := t_groupOps t @ map (\<lambda>x. QP2p cp (opOfCall x)) xs\<rparr>) s c"
  using assms
proof (induction xs arbitrary: t)
  case (Cons x xs)
  obtain f where "issue x cp = Some f" "f t c = (t\<lparr>t_groupOps := t_groupOps t @ [QP2p cp (opOfCall x)]\<rparr>, Ret vcclSuccess c)"
    using issue_p2p [of x c cp t] Cons.prems by auto
  then show ?case using Cons.IH [of "t\<lparr>t_groupOps := t_groupOps t @ [QP2p cp (opOfCall x)]\<rparr>"] Cons.prems
    by (simp add: inGroup_def)
qed simp

lemma firsts_const: "firsts (map (\<lambda>x. a) xs) = (if xs = [] then [] else [a])"
proof (induction xs rule: rev_induct)
  case (snoc x xs)
  then show ?case by (cases xs) (simp_all add: firsts_snoc firsts_def)
qed (simp add: firsts_def)

lemma group_client:
  assumes "list_all p2pCall xs" "list_all (\<lambda>x. argsOk x (comm c)) xs" "cp \<noteq> 0" "\<not> aborted (comm c)"
    "t = \<lparr>t_groupDepth = 0, t_groupOps = []\<rparr>" "transport (comm c) \<noteq> None" "posted c = []"
  shows "client (GroupStart # xs @ [GroupEnd]) cp t s c =
    bindp (batch (map opOfCall xs) c) (\<lambda>r c'. Ret vcclSuccess (if r = vcclSuccess then c' else noteErrorC r c'))"
proof -
  let ?q = "map (\<lambda>x. QP2p cp (opOfCall x)) xs"
  have tw: "takeWhile isP2p (map (\<lambda>x. QP2p cp (opOfCall x)) ys) = map (\<lambda>x. QP2p cp (opOfCall x)) ys"
    "dropWhile isP2p (map (\<lambda>x. QP2p cp (opOfCall x)) ys) = []" for ys by (simp_all add: takeWhile_eq_all_conv)
  have c: "c\<lparr>posted := []\<rparr> = c" using assms(7) by (cases c) simp
  have nil: "client [] cp t s = Ret vcclSuccess" for t by (simp add: fun_eq_iff)
  have ge: "vcclGroupEnd \<lparr>t_groupDepth = Suc 0, t_groupOps = ?q\<rparr> =
      (if xs = [] then Return vcclSuccess else RunHere cp (runCommOps ?q), t)"
    by (simp add: vcclGroupEnd_spec groupRuns_def groupAct_def comp_def firsts_const assms(5))
  have run: "runCommOps ?q c = bindp (batch (map opOfCall xs) c) (\<lambda>r c'. if r \<noteq> vcclSuccess then Ret r (noteErrorC r c') else ok c')"
    if "xs \<noteq> []"
  proof (cases xs)
    case (Cons x ys)
    then show ?thesis using assms(6) by (auto simp: Let_def checkNote_def comp_def tw)
  qed (use that in simp)
  have "client (GroupStart # xs @ [GroupEnd]) cp t s c = client [GroupEnd] cp \<lparr>t_groupDepth = 1, t_groupOps = ?q\<rparr> s c"
    using client_enqueue [OF assms(1-4), of "\<lparr>t_groupDepth = 1, t_groupOps = []\<rparr>" "[GroupEnd]" s] assms(5)
    by (simp add: inGroup_def vcclGroupStart_def)
  also have "\<dots> = bindp (batch (map opOfCall xs) c) (\<lambda>r c'. Ret vcclSuccess (if r = vcclSuccess then c' else noteErrorC r c'))"
  proof (cases "xs = []")
    case True
    moreover have "batch [] c = transfers [] c" using assms(6,7) by (intro batch_oneWave) (simp_all add: oneWave_def)
    ultimately show ?thesis using assms(6,7) ge c by (simp add: transfers_def advance_def commit_def)
  next
    case False
    then show ?thesis using run by (auto simp: ge nil ok_def fun_eq_iff intro!: arg_cong [where f = "bindp (batch (map opOfCall xs) c)"])
  qed
  finally show ?thesis .
qed

lemma group_exchange:
  assumes "\<And>r. r < n \<Longrightarrow> list_all p2pCall (xs r) \<and> list_all (\<lambda>x. argsOk x (comm (c r))) (xs r) \<and> cp r \<noteq> 0 \<and>
      \<not> aborted (comm (c r)) \<and> posted (c r) = [] \<and> transport (comm (c r)) \<noteq> None \<and> rank (comm (c r)) = r \<and> nranks (comm (c r)) = n \<and>
      (isVerbs (comm (c r)) \<longrightarrow> oneWave (map opOfCall (xs r)))"
    and "batchOk n c (\<lambda>r. map opOfCall (xs r))" "t = \<lparr>t_groupDepth = 0, t_groupOps = []\<rparr>"
  shows "finishes n (\<lambda>r. client (GroupStart # xs r @ [GroupEnd]) (cp r) t (s r) (c r))
    (\<lambda>r c'. exchanged n c (\<lambda>r. map opOfCall (xs r)) r (mem c') \<and> c' = (c r)\<lparr>mem := mem c'\<rparr>)"
proof -
  let ?ops = "\<lambda>r. map opOfCall (xs r)"
  obtain M where M: "par {..<n} (\<lambda>r. batch (?ops r)) c (\<lambda>r. (c r)\<lparr>mem := M r\<rparr>)" "\<And>r. r < n \<Longrightarrow> exchanged n c ?ops r (M r)"
    using par_batch [OF assms(2)] assms(1) by blast
  let ?K = "\<lambda>r e c'. Ret vcclSuccess (if e = vcclSuccess then c' else noteErrorC e c')"
  let ?ps = "\<lambda>r. client (GroupStart # xs r @ [GroupEnd]) (cp r) t (s r) (c r)"
  have "network n ?ps r = bindp (batch (?ops r) (c r)) (?K r)" if "r \<in> {..<n}" for r
    using group_client [of "xs r" "c r" "cp r" t "s r"] assms(1) [of r] assms(3) that by (simp add: network_def)
  from parD [OF M(1) this] have "net_step\<^sup>*\<^sup>* (network n ?ps) (network n (\<lambda>r. Ret vcclSuccess ((c r)\<lparr>mem := M r\<rparr>)))"
    by (simp add: network_def cong: if_cong)
  then show ?thesis by (rule finishesI) (use M(2) in auto)
qed

end
