(* ===== verification/Vccl_Components.thy ===== *)
theory Vccl_Components
  imports Vccl_Comm_Spec Vccl_Float16 Vccl_Exchange Vccl_Chunks Vccl_Codec Vccl_Examples
begin

text \<open>
  The properties of single components: the reduction kernels and number formats, communicator state and
  management, groups, argument checks and the error latch.
\<close>

section \<open>Reduction kernels\<close>

text \<open>C13: Widening a half to a float and rounding it back gives the same bits for every number,
  infinity and zero, subnormals included; a NaN becomes the quiet NaN with its sign.\<close>

theorem half_codec_roundtrip:
  "floatToHalf (halfToFloat h) =
     (if drop_bit 10 h AND 0x1f = 0x1f \<and> h AND 0x3ff \<noteq> 0 then (h AND 0x8000) OR 0x7e00 else h)"
  by (rule half_roundtrip)

text \<open>C14: Widening a bfloat16 and rounding it back gives the same bits; a NaN becomes quiet.\<close>

theorem bf16_codec_roundtrip:
  "floatToBf16 (bf16ToFloat b) = (if b AND 0x7fff > 0x7f80 then b OR 0x40 else b)"
  by (rule bf16_roundtrip)

section \<open>Reduction kernels as functions on elements\<close>

text \<open>C18: The reduction kernel of every built-in operator and type succeeds and does one operation per element,
  whatever kernel the processor's features select: element \<open>i\<close> of the destination becomes the operator applied
  to the two old elements, and memory outside the destination is unchanged.\<close>

theorem cpuReduce_elementwise:
  assumes "dt \<noteq> vcclNumTypes" "0 \<le> op" "op < vcclNumOps" "es = vcclTypeSize dt"
    and "disj dst (n * es) src (n * es)" "cpuReduce f dt op dst src n m = (res, m')"
  shows "res = vcclSuccess \<and>
    (\<forall>i<n. rd m' (dst + i * es) es = elemFn f dt op n i (rd m (dst + i * es) es) (rd m (src + i * es) es)) \<and>
    (\<forall>p. p < dst \<or> dst + n * es \<le> p \<longrightarrow> m' p = m p)"
proof -
  let ?v = "vred f dt op n (rd m dst (n * es)) (rd m src (n * es))"
  have m': "res = vcclSuccess" "m' = wr m dst ?v"
    using cpuReduce_wr [OF assms(1-3), of dst n src f m] assms(4-6) by auto
  have len: "length (elemFn f dt op n i x y) = es" for i x y using length_elemFn assms(1,4) by simp
  have "rd m' (dst + i * es) es = elemFn f dt op n i (rd m (dst + i * es) es) (rd m (src + i * es) es)" if "i < n" for i
  proof -
    have "rd m' (dst + i * es) es = take es (drop (i * es) ?v)"
      unfolding m' using that assms(1,4) elem_le [OF that, of es] by (simp add: rd_wr_part)
    also have "?v = concat (map (\<lambda>i. elemFn f dt op n i (rd m (dst + i * es) es) (rd m (src + i * es) es)) [0..<n])"
      unfolding vred_def using assms(4) by (simp add: zipN_rd)
    finally show ?thesis using that len by (simp add: elem_of_concat)
  qed
  moreover have "m' p = m p" if "p < dst \<or> dst + n * es \<le> p" for p
    unfolding m' using that assms(1,4) by (auto simp: wr_def)
  ultimately show ?thesis using m' by blast
qed

theorem cpuReduce_elementwise_witness:
  "fst (cpuReduce exFpu vcclInt32 vcclMax 0 8 2 of_nat) = vcclSuccess \<and>
   rd (snd (cpuReduce exFpu vcclInt32 vcclMax 0 8 2 of_nat)) 4 4 =
     elemFn exFpu vcclInt32 vcclMax 2 1 (rd of_nat 4 4) (rd of_nat 12 4) \<and>
   snd (cpuReduce exFpu vcclInt32 vcclMax 0 8 2 of_nat) 8 = 8"
proof -
  have "fst (cpuReduce exFpu vcclInt32 vcclMax 0 8 2 of_nat) = vcclSuccess \<and>
     (\<forall>i<2. rd (snd (cpuReduce exFpu vcclInt32 vcclMax 0 8 2 of_nat)) (0 + i * 4) 4 =
        elemFn exFpu vcclInt32 vcclMax 2 i (rd of_nat (0 + i * 4) 4) (rd of_nat (8 + i * 4) 4)) \<and>
     (\<forall>p. p < 0 \<or> 0 + 2 * 4 \<le> p \<longrightarrow> snd (cpuReduce exFpu vcclInt32 vcclMax 0 8 2 of_nat) p = of_nat p)"
    by (rule cpuReduce_elementwise) (simp_all add: redop_defs disj_def)
  then show ?thesis by (auto dest: spec [of _ 1] spec [of _ 8])
qed

text \<open>C19: The vector units make no difference to the result except on half-precision and bfloat16 sums, whose lanes
  round with the processor's own conversion: on every other type the kernels compute the same bytes with and
  without AVX2 and F16C, on every architecture.\<close>

theorem cpuReduce_portable:
  assumes "dt \<noteq> vcclFloat16" "dt \<noteq> vcclBfloat16" "disj dst (n * vcclTypeSize dt) src (n * vcclTypeSize dt)"
  shows "cpuReduce (f\<lparr>hasAvx2 := a, hasF16C := b, vcclX86 := x\<rparr>) dt op dst src n m = cpuReduce f dt op dst src n m"
proof (cases "0 \<le> op \<and> op < vcclNumOps \<and> dt \<noteq> vcclNumTypes")
  case True
  have "elemFn (f\<lparr>hasAvx2 := a, hasF16C := b, vcclX86 := x\<rparr>) dt op n = elemFn f dt op n"
    using assms(1,2) by (cases dt) (simp_all add: elemFn_def fun_eq_iff applyOpF_def applyOpD_def)
  then show ?thesis using True assms(3) by (simp add: cpuReduce_wr vred_def)
qed (auto simp: cpuReduce_error not_less)

theorem cpuReduce_portable_witness:
  "cpuReduce (exFpu\<lparr>hasAvx2 := False, hasF16C := False, vcclX86 := False\<rparr>) vcclFloat32 vcclSum 0 64 16 of_nat =
   cpuReduce exFpu vcclFloat32 vcclSum 0 64 16 of_nat"
  by (rule cpuReduce_portable) (simp_all add: disj_def)

text \<open>C25: A kernel called with an operator outside the built-in codes, or with a type it does not support, returns
  an argument error and leaves memory unchanged; the scaling kernels support exactly the floating-point types.\<close>

theorem kernels_reject:
  "(op < 0 \<or> op \<ge> vcclNumOps \<or> dt = vcclNumTypes \<longrightarrow> cpuReduce f dt op dst src n m = (vcclInvalidArgument, m)) \<and>
   (\<not> isFloatType dt \<longrightarrow>
      cpuScale f dt dst n k m = (vcclInvalidArgument, m) \<and>
      cpuScaleCopy f dt dst src n k m = (vcclInvalidArgument, m) \<and>
      cpuScaledAccumulate f dt dst src n k m = (vcclInvalidArgument, m))"
  by (auto simp: cpuReduce_error scale_error)

theorem kernels_reject_witness:
  "cpuReduce exFpu vcclInt8 7 0 8 2 of_nat = (vcclInvalidArgument, of_nat) \<and>
   cpuScale exFpu vcclInt8 0 2 0 of_nat = (vcclInvalidArgument, of_nat)"
  using kernels_reject [of 7 vcclInt8 exFpu 0 8 2 of_nat 0] by (simp add: redop_defs isFloatType_def)

section \<open>Chunks\<close>

text \<open>C23: The chunk table of the ring all-reduce has one entry per rank; the entries are consecutive, start at 0, end
  at the end of the buffer, hold whole elements, and none is longer than the first.\<close>

theorem makeChunks_partition:
  assumes "0 < n"
  shows "length (makeChunks cnt n es) = n \<and> coffset (makeChunks cnt n es ! 0) = 0 \<and>
    (\<forall>i<n. coffset (makeChunks cnt n es ! i) + cbytes (makeChunks cnt n es ! i) =
       (if Suc i < n then coffset (makeChunks cnt n es ! Suc i) else cnt * es) \<and>
       es dvd cbytes (makeChunks cnt n es ! i) \<and> cbytes (makeChunks cnt n es ! i) \<le> cbytes (makeChunks cnt n es ! 0))"
proof (intro conjI allI impI)
  show "coffset (makeChunks cnt n es ! 0) = 0" using assms by (simp add: makeChunks_nth)
  fix i assume i: "i < n"
  show "coffset (makeChunks cnt n es ! i) + cbytes (makeChunks cnt n es ! i) =
      (if Suc i < n then coffset (makeChunks cnt n es ! Suc i) else cnt * es)"
    using i makeChunks_end [OF i, of cnt es] chunkBegin_n [OF assms, of cnt] by (auto simp: makeChunks_nth dest: Suc_lessI)
  show "es dvd cbytes (makeChunks cnt n es ! i)" using i by (simp add: makeChunks_nth)
  have "chunkBegin cnt n (Suc i) - chunkBegin cnt n i \<le> chunkBegin cnt n 1"
    by (auto simp: chunkBegin_def min_def)
  then show "cbytes (makeChunks cnt n es ! i) \<le> cbytes (makeChunks cnt n es ! 0)"
    using i assms by (simp add: makeChunks_nth)
qed simp

theorem makeChunks_partition_witness:
  "length (makeChunks 5 3 4) = 3 \<and> coffset (makeChunks 5 3 4 ! 0) = 0 \<and>
    coffset (makeChunks 5 3 4 ! 1) + cbytes (makeChunks 5 3 4 ! 1) = coffset (makeChunks 5 3 4 ! 2) \<and>
    coffset (makeChunks 5 3 4 ! 2) + cbytes (makeChunks 5 3 4 ! 2) = 20"
  using makeChunks_partition [of 3 5 4] by (auto simp: numeral_2_eq_2 dest: spec [of _ 1] spec [of _ 2])

section \<open>Registrations\<close>

text \<open>A machine with a verbs transport whose driver accepts every registration.\<close>

definition exDevice :: Device where
  "exDevice = \<lparr>devCtx = 1, devPd = 1, devPort = 1, devLid = 0, devMtu = 5, devGidLen = 0, devGidIndex = 0, devGid = replicate 16 0,
     devRoce = True\<rparr>"

definition exVerbs :: Transport where
  "exVerbs = \<lparr>impl = Verbs \<lparr>regions = [], next_node = 1, ibv_reg_mr = (\<lambda>_ _. 1), ibv_reg_dmabuf_mr = (\<lambda>_ _ _. 1),
     dev = exDevice, cqs = [], qps = [], maxInline = [], prePostedRecv = [], recvSurplus = [], asyncFatal = False,
     pendingCopyback = [], tempMrs = []\<rparr>, taborted = False\<rparr>"

definition exVCtx :: "nat \<Rightarrow> nat \<Rightarrow> ctx" where
  "exVCtx n r = (exCtx n r)\<lparr>comm := (exComm n r)\<lparr>transport := Some exVerbs\<rparr>\<rparr>"

definition exOs :: os where
  "exOs = \<lparr>mappings = [], g_memAllocs = (\<lambda>_. None)\<rparr>"

lemma exVCtx_idle: "idle (\<lambda>_. None) (exVCtx n r)"
  by (simp add: idle_def owns_def exVCtx_def commInv_def commWf_def commLive_def owned_def cacheOk_def exComm_def
      exVerbs_def wfTransport_def liveRegs_def)

text \<open>C16: Whatever any number of clients do with their communicators, in any interleaving and under any transport
  failure: at every moment the handles a communicator holds are exactly the live registrations of its transport,
  each held once, the registration cache is within its capacity with distinct stamps, and between calls no
  collective's registration is left.\<close>

theorem client_owns_registrations:
  assumes "\<And>r. idle (e r) (c r)" "\<And>r. t_groupOps (t r) = []"
    and "run_step\<^sup>*\<^sup>* (\<lambda>r. client (prog r) (cp r) (t r) (s r) (c r)) cfg" "ctxOf (cfg r) = Some c'"
  shows "commInv (e r) (comm c') \<and> (\<forall>res. cfg r = Ret res c' \<longrightarrow> scopedRegs (comm c') = [])"
proof -
  have "always (owns (e r)) (idle (e r)) (cfg r)"
    by (rule reach_always [OF assms(3)]) (simp add: client_safe assms(1,2))
  moreover from this have "owns (e r) c'" using assms(4) by (rule always_ctxOf) (simp add: idle_def)
  ultimately show ?thesis by (auto simp: owns_def idle_def)
qed

theorem client_owns_registrations_witness:
  "let cm = (exComm 2 0)\<lparr>transport := Some (addRegion exVerbs (case impl exVerbs of Verbs v \<Rightarrow> v) 8 4 1 0),
       registrations := [\<lparr>memPtr = 77, transportHandle = 1, mapped = 0, mbytes = 4\<rparr>]\<rparr>
   in commInv (\<lambda>_. None) cm \<and>
     (\<forall>res. (Ret vcclSuccess ((exVCtx 2 0)\<lparr>comm := cm\<rparr>)) = Ret res ((exVCtx 2 0)\<lparr>comm := cm\<rparr>) \<longrightarrow> scopedRegs cm = [])"
proof -
  let ?cfg = "\<lambda>r. client [Register 8 4 77] 1 exTls exOs (exVCtx 2 r)"
  have "?cfg 0 = Ret vcclSuccess ((exVCtx 2 0)\<lparr>comm := (exComm 2 0)\<lparr>transport := Some (addRegion exVerbs (case impl exVerbs of Verbs v \<Rightarrow> v) 8 4 1 0),
       registrations := [\<lparr>memPtr = 77, transportHandle = 1, mapped = 0, mbytes = 4\<rparr>]\<rparr>\<rparr>)"
    by (simp add: vcclCommRegister_def commReg_def regMr_def exVCtx_def exVerbs_def exComm_def)
  with client_owns_registrations [of "\<lambda>_ _. None" "exVCtx 2" "\<lambda>_. exTls" "\<lambda>_. [Register 8 4 77]" "\<lambda>_. 1" "\<lambda>_. exOs" ?cfg 0]
  show ?thesis by (simp add: exVCtx_idle exTls_def)
qed

text \<open>C17: Destroying a communicator once its client has returned releases every registration the library or the
  application made on it; only that of the scratch buffer is left to the transport's own destructor.\<close>

theorem vcclCommDestroy_releases:
  assumes "\<And>r. idle (e r) (c r)" "\<And>r. t_groupOps (t r) = []"
    and "run_step\<^sup>*\<^sup>* (\<lambda>r. client (prog r) (cp r) (t r) (s r) (c r)) cfg" "cfg r = Ret res c'"
    and "vcclCommDestroy (Some (comm c')) s' = (res', cm, s'')"
  shows "res' = vcclSuccess \<and> (\<exists>c''. cm = Some c'' \<and> commLive c'' = {scratchRegHandle (comm c')} - {0})"
proof -
  have "always (owns (e r)) (idle (e r)) (cfg r)"
    by (rule reach_always [OF assms(3)]) (simp add: client_safe assms(1,2))
  then have "commInv (e r) (comm c')" "scopedRegs (comm c') = []" by (simp_all add: assms(4) idle_def owns_def)
  then show ?thesis using assms(5) vcclCommDestroy_live [of "e r" "comm c'" s' res' _ s'']
    by (auto simp: vcclCommDestroy_def split: prod.splits)
qed

theorem vcclCommDestroy_releases_witness:
  "fst (vcclCommDestroy (Some (comm (exVCtx 2 0))) exOs) = vcclSuccess \<and>
   (\<exists>c''. fst (snd (vcclCommDestroy (Some (comm (exVCtx 2 0))) exOs)) = Some c'' \<and>
      commLive c'' = {scratchRegHandle (comm (exVCtx 2 0))} - {0})"
  by (rule vcclCommDestroy_releases [of "\<lambda>_ _. None" "exVCtx 2" "\<lambda>_. exTls" "\<lambda>_. []" "\<lambda>_. 1" "\<lambda>_. exOs"
        "\<lambda>r. Ret vcclSuccess (exVCtx 2 r)" 0 _ _ exOs _ _
        "snd (snd (vcclCommDestroy (Some (comm (exVCtx 2 0))) exOs))"])
    (simp_all add: exVCtx_idle exTls_def)

subsection \<open>The registration cache on verbs\<close>
















section \<open>Calls, groups and errors\<close>

text \<open>C20: An entry point called on a null communicator returns an argument error, on an aborted one a usage error;
  called with arguments outside its contract it returns an argument error. In all three cases the memory, the
  communicator and the group queue are untouched.\<close>

theorem api_rejects:
  assumes "issue x cp = Some f"
  shows "(cp = 0 \<longrightarrow> f t c = (t, Ret vcclInvalidArgument c)) \<and>
    (cp \<noteq> 0 \<and> aborted (comm c) \<longrightarrow> f t c = (t, Ret vcclInvalidUsage c)) \<and>
    (cp \<noteq> 0 \<and> \<not> aborted (comm c) \<and> \<not> argsOk x (comm c) \<longrightarrow> f t c = (t, Ret vcclInvalidArgument c))"
  using issue_dead [OF assms] issue_rejects [OF assms] by simp

theorem api_rejects_witness:
  "vcclReduce 8 0 4 vcclInt8 vcclSum 0 1 exTls (exCtx 2 0) = (exTls, Ret vcclInvalidArgument (exCtx 2 0)) \<and>
   vcclSend 8 4 vcclInt8 0 0 exTls (exCtx 2 0) = (exTls, Ret vcclInvalidArgument (exCtx 2 0))"
  using api_rejects [of "Reduce 8 0 4 vcclInt8 vcclSum 0" 1 "vcclReduce 8 0 4 vcclInt8 vcclSum 0 1" exTls "exCtx 2 0"]
    api_rejects [of "Send 8 4 vcclInt8 0" 0 "vcclSend 8 4 vcclInt8 0 0" exTls "exCtx 2 0"]
  by (simp add: rootOk_def)





text \<open>C22: The end of a group. Without a group it is a usage error; an inner end only lowers the depth; the outermost
  end empties the queue and runs, for each communicator in order of first use, its own operations in issue
  order: in the calling thread when there is one communicator, on one thread each when there are several.\<close>

theorem vcclGroupEnd_dispatch:
  "vcclGroupEnd t =
     (if t_groupDepth t = 0 then (Return vcclInvalidUsage, t)
      else if t_groupDepth t > 1 then (Return vcclSuccess, t\<lparr>t_groupDepth := t_groupDepth t - 1\<rparr>)
      else (case map (\<lambda>cp. (cp, runCommOps (filter (\<lambda>x. qcomm x = cp) (t_groupOps t)))) (firsts (map qcomm (t_groupOps t))) of
              [] \<Rightarrow> Return vcclSuccess
            | [(cp, run)] \<Rightarrow> RunHere cp run
            | threads \<Rightarrow> RunThreads threads,
            t\<lparr>t_groupDepth := 0, t_groupOps := []\<rparr>))"
  unfolding vcclGroupEnd_spec groupAct_def groupRuns_def by (simp split: list.split)

text \<open>C15: A group of sends and receives on all ranks ends, under every schedule, whatever the order in which the calls
  were made, as soon as the sizes sent from one rank to another are the sizes received there, in order, and, on a rank
  with the verbs transport, the work requests of the group fit into the queues together (128 requests of at most 1 GiB
  per peer and direction), so that they are posted in one wave. Without the second condition the group need not end: a
  rank that issues 129 sends to a peer before its receives posts the sends only, and so may the peer. What is
  received from a peer is what that peer sent, message by message; no other memory changes.\<close>

theorem group_p2p_exchange:
  assumes "\<And>r. r < n \<Longrightarrow> list_all p2pCall (xs r) \<and> list_all (\<lambda>x. argsOk x (comm (c r))) (xs r) \<and> cp r \<noteq> 0 \<and>
      \<not> aborted (comm (c r)) \<and> posted (c r) = [] \<and> transport (comm (c r)) \<noteq> None \<and> rank (comm (c r)) = r \<and> nranks (comm (c r)) = n \<and>
      (isVerbs (comm (c r)) \<longrightarrow> oneWave (map opOfCall (xs r)))"
    and "\<And>r. r < n \<Longrightarrow> opsRaceFree (map opOfCall (xs r))"
    and "\<And>i j. i < n \<Longrightarrow> j < n \<Longrightarrow>
      map bytes (sendsTo (map opOfCall (xs i)) j) = map bytes (recvsFrom (map opOfCall (xs j)) i)"
  shows "finishes n (\<lambda>r. client (GroupStart # xs r @ [GroupEnd]) (cp r) \<lparr>t_groupDepth = 0, t_groupOps = []\<rparr> (s r) (c r))
    (\<lambda>r c'. (\<forall>i<n. map (\<lambda>x. rd (mem c') (buf x) (bytes x)) (recvsFrom (map opOfCall (xs r)) i) =
         map (\<lambda>x. rd (mem (c i)) (buf x) (bytes x)) (sendsTo (map opOfCall (xs i)) r)) \<and>
       (\<forall>p. p \<notin> recvBufs (map opOfCall (xs r)) \<longrightarrow> mem c' p = mem (c r) p) \<and> c' = (c r)\<lparr>mem := mem c'\<rparr>)"
proof -
  have "peer (opOfCall x) < n \<and> peer (opOfCall x) \<noteq> r" if "r < n" "x \<in> set (xs r)" for r x
    using assms(1) [OF that(1)] that(2) by (cases x) (auto simp: list_all_iff peerArgOk_def nat_less_iff dest!: bspec [OF _ that(2)])
  then have "batchOk n c (\<lambda>r. map opOfCall (xs r))" using assms(2,3) by (auto simp: batchOk_def)
  from group_exchange [OF assms(1) this refl] show ?thesis
    by (rule finishes_mono) (auto simp: exchanged_def opData_def)
qed

theorem group_p2p_exchange_witness:
  "finishes 2 (\<lambda>r. client (GroupStart # [Recv 16 4 vcclInt8 (1 - int r), Send 8 4 vcclInt8 (1 - int r)] @ [GroupEnd]) 1
       \<lparr>t_groupDepth = 0, t_groupOps = []\<rparr> exOs (exVCtx 2 r))
    (\<lambda>r c'. (\<forall>i<2. map (\<lambda>x. rd (mem c') (buf x) (bytes x))
          (recvsFrom (map opOfCall [Recv 16 4 vcclInt8 (1 - int r), Send 8 4 vcclInt8 (1 - int r)]) i) =
         map (\<lambda>x. rd (mem (exVCtx 2 i)) (buf x) (bytes x))
          (sendsTo (map opOfCall [Recv 16 4 vcclInt8 (1 - int i), Send 8 4 vcclInt8 (1 - int i)]) r)) \<and>
       (\<forall>p. p \<notin> recvBufs (map opOfCall [Recv 16 4 vcclInt8 (1 - int r), Send 8 4 vcclInt8 (1 - int r)]) \<longrightarrow>
          mem c' p = mem (exVCtx 2 r) p) \<and> c' = (exVCtx 2 r)\<lparr>mem := mem c'\<rparr>)"
  by (rule group_p2p_exchange [where cp = "\<lambda>_. 1" and s = "\<lambda>_. exOs"])
    (auto simp: less_2_cases_iff peerArgOk_def disj_def sendsTo_def recvsFrom_def exVCtx_def oneWave_def needed_def
      kMaxSegBytes_def kQueueDepth_def)

section \<open>Communicator management\<close>

text \<open>C26: Custom operators. A created operator is new, is looked up with the scalar it was created from and disturbs no
  other operator; destroying it gives back exactly the operators there were before.\<close>

theorem redop_roundtrip:
  assumes "vcclRedOpCreatePreMulSum fc m out p dt host (Some c) = (vcclSuccess, Some op, Some c')"
  shows "premulScalar c op = None \<and> premulScalar c' op = premulValue fc dt m p \<and> premulValue fc dt m p \<noteq> None \<and>
    (\<forall>op'. op' \<noteq> op \<longrightarrow> premulScalar c' op' = premulScalar c op') \<and>
    (\<exists>c''. vcclRedOpDestroy op (Some c') = (vcclSuccess, Some c'') \<and> (\<forall>op'. premulScalar c'' op' = premulScalar c op') \<and>
       vcclRedOpDestroy op (Some c'') = (vcclInvalidArgument, Some c''))"
proof -
  note l = create_lookup [OF assms]
  then obtain c'' where c'': "vcclRedOpDestroy op (Some c') = (vcclSuccess, Some c'')"
      "\<And>op'. premulScalar c'' op' = (if op' = op then None else premulScalar c' op')"
    using destroy_lookup [of c' op] by (metis)
  then have "vcclRedOpDestroy op (Some c'') = (vcclInvalidArgument, Some c'')" by (intro destroy_unknown) simp
  with l c'' show ?thesis by auto
qed

definition exFpconv :: fpconv where
  "exFpconv = \<lparr>f2d = ucast, half_scalar = (\<lambda>s m x. of_nat m)\<rparr>"

theorem redop_roundtrip_witness:
  "let c' = (exComm 2 0)\<lparr>customOps := [\<lparr>opScalar = word_of_bytes (rd of_nat 8 8), opActive = True\<rparr>]\<rparr> in
   premulScalar (exComm 2 0) 5 = None \<and> premulScalar c' 5 = premulValue exFpconv vcclFloat64 of_nat 8"
  using redop_roundtrip [of exFpconv of_nat True 8 vcclFloat64 True "exComm 2 0" 5
      "(exComm 2 0)\<lparr>customOps := [\<lparr>opScalar = word_of_bytes (rd of_nat 8 8), opActive = True\<rparr>]\<rparr>"]
  by (simp add: vcclRedOpCreatePreMulSum_def premulValue_def redop_defs ldw_def)

text \<open>Page-aligned memory. An allocation of a positive size at a fresh address gets whole pages, the fewest that
  hold it; freeing it restores the mappings and the table, and freeing it again is an argument error.\<close>

lemma vcclMem_roundtrip:
  assumes "0 < page" "0 < sz" "p \<noteq> 0" "g_memAllocs s p = None"
  shows "\<exists>pages s'. vcclMemAlloc page True sz (Some p) s = (vcclSuccess, p, s') \<and>
    sz \<le> pages * page \<and> pages * page < sz + page \<and> mappings s' = (p, pages * page) # mappings s \<and>
    vcclMemFree p s' = (vcclSuccess, s) \<and> vcclMemFree p s = (vcclInvalidArgument, s)"
proof -
  have "(g_memAllocs s)(p := None) = g_memAllocs s" using assms(4) by (auto simp: fun_eq_iff)
  then show ?thesis using assms align_bounds [OF assms(1,2)]
    by (intro exI [of _ "(sz + page - 1) div page"]) (simp add: vcclMemAlloc_def vcclMemFree_def munmap_def Let_def)
qed

text \<open>C27: A split. The members of a color are exactly the ranks that passed it. Their new ranks are a numbering of them
  from 0 on, in the order of their keys and, for equal keys, of their old ranks; a rank with another color gets none.\<close>

theorem split_ranks:
  assumes "0 \<le> color" "r < length info"
  shows "(if fst (info ! r) = color
     then \<exists>i<length (splitMembers info color). splitRank (splitMembers info color) r = int i \<and>
            splitMembers info color ! i = (snd (info ! r), r) \<and>
            (\<forall>q<length info. fst (info ! q) = color \<longrightarrow>
               (splitRank (splitMembers info color) r < splitRank (splitMembers info color) q \<longleftrightarrow>
                snd (info ! r) < snd (info ! q) \<or> snd (info ! r) = snd (info ! q) \<and> r < q))
     else splitRank (splitMembers info color) r = -1)"
proof (cases "fst (info ! r) = color")
  case True
  then show ?thesis using splitRank_member [OF assms True] splitRank_order [OF assms True] by auto
next
  case False
  then have "r \<notin> set (map snd (splitMembers info color))" by (auto simp: splitMembers_facts(3) [OF assms(1)])
  then show ?thesis using False by (simp add: splitRank_none)
qed

theorem split_ranks_witness:
  "\<exists>i<length (splitMembers [(0, 5), (1, 0), (0, 2)] 0). splitRank (splitMembers [(0, 5), (1, 0), (0, 2)] 0) 2 = int i \<and>
     splitMembers [(0, 5), (1, 0), (0, 2)] 0 ! i = (2, 2)"
  using split_ranks [of 0 2 "[(0, 5), (1, 0), (0, 2)]"] by auto

end
