(* ===== verification/Vccl_Loop.thy ===== *)
theory Vccl_Loop
  imports Vccl_Types
begin

text \<open>
  Loops that may not end. The body of a \<open>for (;;)\<close> or \<open>while\<close> loop is a function from the loop state to
  the next state (\<open>Inl\<close>) or to the value the loop is left with (\<open>Inr\<close>). \<open>iterO\<close> runs a body that may
  itself not return (\<open>None\<close>), \<open>iter\<close> one that always does; both are \<open>None\<close> when the loop never ends.
  \<open>iterO_inv\<close> and \<open>iter_inv\<close> are the invariant rules, \<open>iterO_total\<close> and \<open>iter_total\<close> the termination rules. \<open>parked b f\<close>
  is the body \<open>f\<close> with system calls that may block for ever: in a state with \<open>b\<close> one of them does.
\<close>

partial_function (option) iterO :: "('s \<Rightarrow> ('s + 'r) option) \<Rightarrow> 's \<Rightarrow> 'r option" where
  "iterO f s = (case f s of None \<Rightarrow> None | Some x \<Rightarrow> (case x of Inl s' \<Rightarrow> iterO f s' | Inr r \<Rightarrow> Some r))"

definition iter :: "('s \<Rightarrow> 's + 'r) \<Rightarrow> 's \<Rightarrow> 'r option" where
  "iter f = iterO (\<lambda>s. Some (f s))"

lemma iterO_Inl: "f s = Some (Inl s') \<Longrightarrow> iterO f s = iterO f s'"
  by (subst iterO.simps) simp

lemma iterO_Inr: "f s = Some (Inr r) \<Longrightarrow> iterO f s = Some r"
  by (subst iterO.simps) simp

lemma iterO_inv:
  assumes ret: "iterO f s = Some r" and start: "I s"
    and step: "\<And>s s'. I s \<Longrightarrow> f s = Some (Inl s') \<Longrightarrow> I s'" and stop: "\<And>s r. I s \<Longrightarrow> f s = Some (Inr r) \<Longrightarrow> Q r"
  shows "Q r"
proof -
  have "f = f \<longrightarrow> I s \<longrightarrow> Q r"
  proof (rule iterO.raw_induct [where P = "\<lambda>g s r. g = f \<longrightarrow> I s \<longrightarrow> Q r", OF _ ret], intro impI)
    fix it g s r
    assume IH: "\<And>g s r. it g s = Some r \<Longrightarrow> g = f \<longrightarrow> I s \<longrightarrow> Q r"
      and eq: "(case g s of None \<Rightarrow> None | Some x \<Rightarrow> (case x of Inl s' \<Rightarrow> it g s' | Inr r \<Rightarrow> Some r)) = Some r"
      and g: "g = f" and I: "I s"
    from eq g obtain x where x: "f s = Some x" "(case x of Inl s' \<Rightarrow> it g s' | Inr r \<Rightarrow> Some r) = Some r"
      by (auto split: option.splits)
    then show "Q r" using IH g step [OF I] stop [OF I] by (auto split: sum.splits)
  qed
  with start show ?thesis by simp
qed

lemma iterO_total:
  fixes \<mu> :: "'s \<Rightarrow> nat"
  assumes "I s" "\<And>s. I s \<Longrightarrow> f s \<noteq> None" "\<And>s s'. I s \<Longrightarrow> f s = Some (Inl s') \<Longrightarrow> I s' \<and> \<mu> s' < \<mu> s"
  shows "\<exists>r. iterO f s = Some r"
  using assms(1)
proof (induction "\<mu> s" arbitrary: s rule: less_induct)
  case less
  from assms(2) [OF less.prems] obtain x where x: "f s = Some x" by auto
  show ?case
  proof (cases x)
    case (Inl s')
    with assms(3) [OF less.prems] x less.hyps [of s'] show ?thesis by (simp add: iterO_Inl)
  qed (auto simp: x iterO_Inr)
qed

lemma iter_Inl: "f s = Inl s' \<Longrightarrow> iter f s = iter f s'"
  by (simp add: iter_def iterO_Inl)

lemma iter_Inr: "f s = Inr r \<Longrightarrow> iter f s = Some r"
  by (simp add: iter_def iterO_Inr)

lemma iter_inv:
  assumes "iter f s = Some r" "I s" "\<And>s s'. I s \<Longrightarrow> f s = Inl s' \<Longrightarrow> I s'" "\<And>s r. I s \<Longrightarrow> f s = Inr r \<Longrightarrow> Q r"
  shows "Q r"
  by (rule iterO_inv [OF assms(1) [unfolded iter_def], of I]) (use assms(2-4) in auto)

lemma iter_case:
  assumes "iter f s = Some r" "I s" "\<And>s. I s \<Longrightarrow> case f s of Inl s' \<Rightarrow> I s' | Inr r \<Rightarrow> Q r"
  shows "Q r"
  using assms(1,2) by (rule iter_inv) (use assms(3) in force)+

lemma iterO_case:
  assumes "iterO f s = Some r" "I s" "\<And>s x. I s \<Longrightarrow> f s = Some x \<Longrightarrow> case x of Inl s' \<Rightarrow> I s' | Inr r \<Rightarrow> Q r"
  shows "Q r"
  using assms(1,2) by (rule iterO_inv) (use assms(3) in force)+

lemma iter_total:
  fixes \<mu> :: "'s \<Rightarrow> nat"
  assumes "I s" "\<And>s s'. I s \<Longrightarrow> f s = Inl s' \<Longrightarrow> I s' \<and> \<mu> s' < \<mu> s"
  shows "\<exists>r. iter f s = Some r"
  unfolding iter_def by (rule iterO_total [of I _ _ \<mu>]) (use assms in auto)

subsection \<open>Calls that block for ever\<close>

definition parked :: "('s \<Rightarrow> bool) \<Rightarrow> ('s \<Rightarrow> 's + 'r) \<Rightarrow> 's \<Rightarrow> ('s + 'r) option" where
  "parked b f s = (if b s then None else Some (f s))"

lemma parked_iter:
  assumes "iterO (parked b f) s = Some r"
  shows "iter f s = Some r"
  by (rule iterO_inv [OF assms, where I = "\<lambda>s'. iter f s' = iter f s"])
    (auto simp: parked_def iter_Inl iter_Inr split: if_splits)

lemma parked_stuck: "b s \<Longrightarrow> iterO (parked b f) s = None"
  by (subst iterO.simps) (simp add: parked_def)

lemma parked_free: "(\<And>s. \<not> b s) \<Longrightarrow> iterO (parked b f) = iter f"
  by (simp add: iter_def parked_def [abs_def])

lemma parked_total:
  fixes \<mu> :: "'s \<Rightarrow> nat"
  assumes "I s" "\<And>s. I s \<Longrightarrow> \<not> b s" "\<And>s s'. I s \<Longrightarrow> f s = Inl s' \<Longrightarrow> I s' \<and> \<mu> s' < \<mu> s"
  shows "\<exists>r. iterO (parked b f) s = Some r"
  by (rule iterO_total [of I _ _ \<mu>]) (use assms in \<open>auto simp: parked_def split: if_splits\<close>)

end
