(* ===== verification/Vccl_Socket.thy ===== *)
theory Vccl_Socket
  imports Vccl_Loop Vccl_Comm "HOL-Library.Word"
begin

text \<open>
  Sockets and the watchdog: \<^verbatim>\<open>src/util/deadline.h\<close> and \<^verbatim>\<open>src/util/socket.cc\<close>.

  The operating system is a parameter: the record \<open>sys\<close> holds one function per system call the code
  makes. A call takes its arguments and the state \<open>'w\<close> of the outside world and gives its result
  and the new state. Nothing is assumed of these functions here. \<open>send\<close> gets the bytes it is offered
  and answers with a count, \<open>recv\<close> with the bytes received (none: the peer has closed), \<open>poll\<close> with a
  flag per descriptor that says whether any of the requested, error and hang-up events is set.
  The clock counts nanoseconds.

  A descriptor in blocking mode parks its caller until the peer acts: \<open>sys_blocks fd out w\<close> says that a \<open>send\<close>
  (\<open>out\<close>), or a \<open>recv\<close> or \<open>accept\<close>, made on the descriptor in state \<open>w\<close> never returns. The loops around these calls
  do not return either then. \<open>poll\<close>, \<open>connect\<close> and the other calls are taken to return.

  A socket address keeps the family, the port in network byte order and the IPv4 and IPv6 address
  bytes that \<^verbatim>\<open>sockaddr_in\<close> and \<^verbatim>\<open>sockaddr_in6\<close> overlay on the storage (their addresses lie at
  different offsets, the port at the same).
\<close>

unbundle bit_operations_syntax

subsection \<open>Addresses\<close>

definition AF_INET :: nat where "AF_INET = 2"
definition AF_INET6 :: nat where "AF_INET6 = 10"

record SocketAddr =
  ss_family :: nat
  ss_port :: "16 word"
  sin_addr :: "byte list"
  sin6_addr :: "byte list"
  slen :: nat

definition zeroAddr :: SocketAddr where
  "zeroAddr = \<lparr>ss_family = 0, ss_port = 0, sin_addr = replicate 4 0, sin6_addr = replicate 16 0, slen = 0\<rparr>"

text \<open>Byte order of a little-endian host.\<close>

definition htons :: "16 word \<Rightarrow> 16 word" where
  "htons w = push_bit 8 w OR drop_bit 8 w"

definition ntohs :: "16 word \<Rightarrow> 16 word" where
  "ntohs = htons"

definition sockPort :: "SocketAddr \<Rightarrow> 16 word" where
  "sockPort sa = (if ss_family sa = AF_INET then ntohs (ss_port sa)
                  else if ss_family sa = AF_INET6 then ntohs (ss_port sa) else 0)"

definition setPort :: "16 word \<Rightarrow> SocketAddr \<Rightarrow> SocketAddr" where
  "setPort p sa = (if ss_family sa = AF_INET then sa\<lparr>ss_port := htons p\<rparr>
                   else if ss_family sa = AF_INET6 then sa\<lparr>ss_port := htons p\<rparr> else sa)"

definition kWireFamilyIPv4 :: nat where "kWireFamilyIPv4 = 1"
definition kWireFamilyIPv6 :: nat where "kWireFamilyIPv6 = 2"

record WireAddr =
  wfamily :: nat
  wport :: "16 word"
  waddr :: "byte list"

definition toWire :: "SocketAddr \<Rightarrow> WireAddr" where
  "toWire sa =
     (if ss_family sa = AF_INET
      then \<lparr>wfamily = kWireFamilyIPv4, wport = ss_port sa, waddr = take 4 (sin_addr sa) @ replicate 12 0\<rparr>
      else \<lparr>wfamily = kWireFamilyIPv6, wport = ss_port sa, waddr = take 16 (sin6_addr sa)\<rparr>)"

definition fromWire :: "WireAddr \<Rightarrow> SocketAddr" where
  "fromWire w =
     (if wfamily w = kWireFamilyIPv4
      then zeroAddr\<lparr>ss_family := AF_INET, ss_port := wport w, sin_addr := take 4 (waddr w), slen := 16\<rparr>
      else zeroAddr\<lparr>ss_family := AF_INET6, ss_port := wport w, sin6_addr := take 16 (waddr w), slen := 28\<rparr>)"

subsection \<open>System calls\<close>

datatype errno = EINTR | EAGAIN | EOther

datatype sysret = Count nat | Fail errno
datatype recvret = Data "byte list" | RFail errno
datatype pollret = Revents "bool list" | PFail errno
datatype fdret = Fd int | FdFail errno

record ifaddr =
  ifa_name :: string
  ifa_addr :: "(nat \<times> byte list) option"    \<comment> \<open>family and address bytes\<close>

record 'w sys =
  sys_send :: "int \<Rightarrow> byte list \<Rightarrow> 'w \<Rightarrow> sysret \<times> 'w"
  sys_recv :: "int \<Rightarrow> nat \<Rightarrow> 'w \<Rightarrow> recvret \<times> 'w"
  sys_poll :: "(int \<times> bool) list \<Rightarrow> int \<Rightarrow> 'w \<Rightarrow> pollret \<times> 'w"    \<comment> \<open>\<open>True\<close>: \<^verbatim>\<open>POLLOUT\<close>, \<open>False\<close>: \<^verbatim>\<open>POLLIN\<close>\<close>
  sys_clock :: "'w \<Rightarrow> int \<times> 'w"
  sys_socket :: "nat \<Rightarrow> 'w \<Rightarrow> fdret \<times> 'w"
  sys_connect :: "int \<Rightarrow> SocketAddr \<Rightarrow> 'w \<Rightarrow> bool \<times> 'w"
  sys_bind :: "int \<Rightarrow> 16 word \<Rightarrow> 'w \<Rightarrow> bool \<times> 'w"
  sys_listen :: "int \<Rightarrow> 'w \<Rightarrow> bool \<times> 'w"
  sys_getsockname :: "int \<Rightarrow> 'w \<Rightarrow> 16 word option \<times> 'w"
  sys_accept :: "int \<Rightarrow> 'w \<Rightarrow> fdret \<times> 'w"
  sys_close :: "int \<Rightarrow> 'w \<Rightarrow> 'w"
  sys_shutdown :: "int \<Rightarrow> 'w \<Rightarrow> 'w"
  sys_sleep :: "nat \<Rightarrow> 'w \<Rightarrow> 'w"
  sys_getifaddrs :: "'w \<Rightarrow> ifaddr list option"
  sys_inet_pton4 :: "string \<Rightarrow> byte list option"
  sys_inet_pton6 :: "string \<Rightarrow> byte list option"
  sys_getenv :: getenv
  sys_blocks :: "int \<Rightarrow> bool \<Rightarrow> 'w \<Rightarrow> bool"
  sys_nonblock :: "int \<Rightarrow> 'w \<Rightarrow> 'w"    \<comment> \<open>\<^verbatim>\<open>fcntl(fd, F_SETFL, O_NONBLOCK)\<close>\<close>
  sys_random :: "'w \<Rightarrow> 32 word \<times> 'w"    \<comment> \<open>\<^verbatim>\<open>std::random_device\<close>\<close>

definition closeQuiet :: "'w sys \<Rightarrow> int \<Rightarrow> 'w \<Rightarrow> 'w" where
  "closeQuiet S fd w = (if fd \<ge> 0 then sys_close S fd w else w)"

subsection \<open>The watchdog\<close>

definition timeoutSeconds :: "getenv \<Rightarrow> int" where
  "timeoutSeconds e = (case e ''VCCL_TIMEOUT'' of None \<Rightarrow> 60 | Some v \<Rightarrow> atoi v)"

definition connectTimeoutMs :: "getenv \<Rightarrow> int" where
  "connectTimeoutMs e =
     (let secs = timeoutSeconds e in if secs \<le> 0 \<or> secs > 120 then 120000 else secs * 1000)"

record Deadline =
  dlEnabled :: bool
  dlEnd :: int

definition newDeadline :: "'w sys \<Rightarrow> 'w \<Rightarrow> Deadline \<times> 'w" where
  "newDeadline S w =
     (let secs = timeoutSeconds (sys_getenv S) in
      if secs > 0 then (case sys_clock S w of (now, w') \<Rightarrow>
        (\<lparr>dlEnabled = True, dlEnd = now + secs * 1000000000\<rparr>, w'))
      else (\<lparr>dlEnabled = False, dlEnd = 0\<rparr>, w))"

definition expired :: "'w sys \<Rightarrow> Deadline \<Rightarrow> 'w \<Rightarrow> bool \<times> 'w" where
  "expired S dl w =
     (if dlEnabled dl then (case sys_clock S w of (now, w') \<Rightarrow> (now \<ge> dlEnd dl, w')) else (False, w))"

definition pollMs :: "'w sys \<Rightarrow> Deadline \<Rightarrow> 'w \<Rightarrow> int \<times> 'w" where
  "pollMs S dl w =
     (if \<not> dlEnabled dl then (-1, w)
      else (case sys_clock S w of (now, w') \<Rightarrow>
        let left = (dlEnd dl - now) div 1000000
        in (if left \<le> 0 then 0 else if left > 60000 then 60000 else left, w')))"

text \<open>\<open>poll(pfds, n, deadline.pollMs())\<close>.\<close>

definition dlPoll :: "'w sys \<Rightarrow> Deadline \<Rightarrow> (int \<times> bool) list \<Rightarrow> 'w \<Rightarrow> pollret \<times> 'w" where
  "dlPoll S dl pfds w = (case pollMs S dl w of (ms, w1) \<Rightarrow> sys_poll S pfds ms w1)"

subsection \<open>Exact transfers\<close>

text \<open>The body of the loop of \<open>sendAll\<close>; its state is \<open>sent\<close> and the world.\<close>

definition sendStep :: "'w sys \<Rightarrow> Deadline \<Rightarrow> int \<Rightarrow> byte list \<Rightarrow> nat \<times> 'w \<Rightarrow> nat \<times> 'w + vcclResult_t \<times> 'w" where
  "sendStep S dl fd p = (\<lambda>(sent, w).
     if sent < length p then
       (case sys_send S fd (drop sent p) w of
          (Count n, w1) \<Rightarrow> if n > 0 then Inl (sent + n, w1) else Inr (vcclSystemError, w1)
        | (Fail EINTR, w1) \<Rightarrow> Inl (sent, w1)
        | (Fail EAGAIN, w1) \<Rightarrow>
            (case dlPoll S dl [(fd, True)] w1 of (_, w2) \<Rightarrow>
             case expired S dl w2 of (x, w3) \<Rightarrow> if x then Inr (vcclSystemError, w3) else Inl (sent, w3))
        | (Fail EOther, w1) \<Rightarrow> Inr (vcclSystemError, w1))
     else Inr (vcclSuccess, w))"

text \<open>The states in which the body makes a call that blocks for ever.\<close>

definition sendParked :: "'w sys \<Rightarrow> int \<Rightarrow> byte list \<Rightarrow> nat \<times> 'w \<Rightarrow> bool" where
  "sendParked S fd p = (\<lambda>(sent, w). sent < length p \<and> sys_blocks S fd True w)"

definition sendAll :: "'w sys \<Rightarrow> int \<Rightarrow> byte list \<Rightarrow> 'w \<Rightarrow> (vcclResult_t \<times> 'w) option" where
  "sendAll S fd p w =
     (case newDeadline S w of (dl, w0) \<Rightarrow> iterO (parked (sendParked S fd p) (sendStep S dl fd p)) (0, w0))"

text \<open>The received bytes are the prefix of the buffer filled so far.\<close>

definition recvStep ::
  "'w sys \<Rightarrow> Deadline \<Rightarrow> int \<Rightarrow> nat \<Rightarrow> byte list \<times> 'w \<Rightarrow> byte list \<times> 'w + vcclResult_t \<times> byte list \<times> 'w" where
  "recvStep S dl fd bytes = (\<lambda>(got, w).
     if length got < bytes then
       (case sys_recv S fd (bytes - length got) w of
          (Data d, w1) \<Rightarrow> if d \<noteq> [] then Inl (got @ d, w1) else Inr (vcclSystemError, got, w1)
        | (RFail EINTR, w1) \<Rightarrow> Inl (got, w1)
        | (RFail EAGAIN, w1) \<Rightarrow>
            (case dlPoll S dl [(fd, False)] w1 of (_, w2) \<Rightarrow>
             case expired S dl w2 of (x, w3) \<Rightarrow> if x then Inr (vcclSystemError, got, w3) else Inl (got, w3))
        | (RFail EOther, w1) \<Rightarrow> Inr (vcclSystemError, got, w1))
     else Inr (vcclSuccess, got, w))"

definition recvParked :: "'w sys \<Rightarrow> int \<Rightarrow> nat \<Rightarrow> byte list \<times> 'w \<Rightarrow> bool" where
  "recvParked S fd bytes = (\<lambda>(got, w). length got < bytes \<and> sys_blocks S fd False w)"

definition recvAll :: "'w sys \<Rightarrow> int \<Rightarrow> nat \<Rightarrow> 'w \<Rightarrow> (vcclResult_t \<times> byte list \<times> 'w) option" where
  "recvAll S fd bytes w =
     (case newDeadline S w of (dl, w0) \<Rightarrow> iterO (parked (recvParked S fd bytes) (recvStep S dl fd bytes)) ([], w0))"

text \<open>The two halves of one round of \<open>duplexTransfer\<close>, each run when \<open>poll\<close> flagged its descriptor: an
  error result, or the progress made.\<close>

definition duplexSend :: "'w sys \<Rightarrow> int \<Rightarrow> byte list \<Rightarrow> nat \<Rightarrow> 'w \<Rightarrow> vcclResult_t \<times> nat \<times> 'w" where
  "duplexSend S fd p sent w =
     (case sys_send S fd (drop sent p) w of
        (Count n, w1) \<Rightarrow> (vcclSuccess, sent + n, w1)
      | (Fail EOther, w1) \<Rightarrow> (vcclSystemError, sent, w1)
      | (Fail _, w1) \<Rightarrow> (vcclSuccess, sent, w1))"

definition duplexRecv :: "'w sys \<Rightarrow> int \<Rightarrow> nat \<Rightarrow> byte list \<Rightarrow> 'w \<Rightarrow> vcclResult_t \<times> byte list \<times> 'w" where
  "duplexRecv S fd bytes got w =
     (case sys_recv S fd (bytes - length got) w of
        (Data d, w1) \<Rightarrow> if d \<noteq> [] then (vcclSuccess, got @ d, w1) else (vcclSystemError, got, w1)
      | (RFail EOther, w1) \<Rightarrow> (vcclSystemError, got, w1)
      | (RFail _, w1) \<Rightarrow> (vcclSuccess, got, w1))"

definition flagOf :: "bool list \<Rightarrow> nat \<Rightarrow> bool" where
  "flagOf fs i = (i < length fs \<and> fs ! i)"

definition duplexStep ::
  "'w sys \<Rightarrow> Deadline \<Rightarrow> int \<Rightarrow> byte list \<Rightarrow> int \<Rightarrow> nat \<Rightarrow> nat \<times> byte list \<times> 'w
    \<Rightarrow> nat \<times> byte list \<times> 'w + vcclResult_t \<times> byte list \<times> 'w" where
  "duplexStep S dl sendFd sp recvFd rbytes = (\<lambda>(sent, got, w).
     if sent < length sp \<or> length got < rbytes then
       let s = sent < length sp; r = length got < rbytes;
           pfds = (if s then [(sendFd, True)] else []) @ (if r then [(recvFd, False)] else []);
           recvIdx = (if s then 1 else 0)
       in (case dlPoll S dl pfds w of
             (PFail EINTR, w1) \<Rightarrow> Inl (sent, got, w1)
           | (PFail _, w1) \<Rightarrow> Inr (vcclSystemError, got, w1)
           | (Revents fl, w1) \<Rightarrow>
               (case expired S dl w1 of (x, w2) \<Rightarrow>
                if x then Inr (vcclSystemError, got, w2)
                else (case (if s \<and> flagOf fl 0 then duplexSend S sendFd sp sent w2 else (vcclSuccess, sent, w2)) of
                        (res, sent', w3) \<Rightarrow>
                      if res \<noteq> vcclSuccess then Inr (res, got, w3)
                      else (case (if r \<and> flagOf fl recvIdx then duplexRecv S recvFd rbytes got w3
                                  else (vcclSuccess, got, w3)) of
                              (res', got', w4) \<Rightarrow>
                            if res' \<noteq> vcclSuccess then Inr (res', got', w4) else Inl (sent', got', w4)))))
     else Inr (vcclSuccess, got, w))"

text \<open>The same path through the body as far as the two calls.\<close>

definition duplexParked ::
  "'w sys \<Rightarrow> Deadline \<Rightarrow> int \<Rightarrow> byte list \<Rightarrow> int \<Rightarrow> nat \<Rightarrow> nat \<times> byte list \<times> 'w \<Rightarrow> bool" where
  "duplexParked S dl sendFd sp recvFd rbytes = (\<lambda>(sent, got, w).
     (sent < length sp \<or> length got < rbytes) \<and>
     (let s = sent < length sp; r = length got < rbytes;
          pfds = (if s then [(sendFd, True)] else []) @ (if r then [(recvFd, False)] else []);
          recvIdx = (if s then 1 else 0)
      in (case dlPoll S dl pfds w of
            (PFail _, w1) \<Rightarrow> False
          | (Revents fl, w1) \<Rightarrow>
              (case expired S dl w1 of (x, w2) \<Rightarrow>
               \<not> x \<and> (s \<and> flagOf fl 0 \<and> sys_blocks S sendFd True w2 \<or>
                 (case (if s \<and> flagOf fl 0 then duplexSend S sendFd sp sent w2 else (vcclSuccess, sent, w2)) of
                    (res, _, w3) \<Rightarrow> res = vcclSuccess \<and> r \<and> flagOf fl recvIdx \<and> sys_blocks S recvFd False w3))))))"

definition duplexTransfer ::
  "'w sys \<Rightarrow> int \<Rightarrow> byte list \<Rightarrow> int \<Rightarrow> nat \<Rightarrow> 'w \<Rightarrow> (vcclResult_t \<times> byte list \<times> 'w) option" where
  "duplexTransfer S sendFd sbuf recvFd rbytes w =
     (case newDeadline S w of (dl, w0) \<Rightarrow>
      iterO (parked (duplexParked S dl sendFd sbuf recvFd rbytes) (duplexStep S dl sendFd sbuf recvFd rbytes)) (0, [], w0))"

subsection \<open>Connections\<close>

text \<open>\<open>setSockOpts\<close> only sets options and ignores the results: it is left out. The loop state of \<open>connectTo\<close> is
  the delay before the next attempt.\<close>

definition connectStep ::
  "'w sys \<Rightarrow> SocketAddr \<Rightarrow> int \<Rightarrow> nat \<times> 'w \<Rightarrow> nat \<times> 'w + vcclResult_t \<times> int \<times> 'w" where
  "connectStep S addr deadline = (\<lambda>(delayMs, w).
     case sys_socket S (ss_family addr) w of
       (FdFail _, w1) \<Rightarrow> Inr (vcclSystemError, -1, w1)
     | (Fd s, w1) \<Rightarrow>
         (case sys_connect S s addr w1 of (ok, w2) \<Rightarrow>
          if ok then Inr (vcclSuccess, s, w2)
          else (case sys_clock S (closeQuiet S s w2) of (now, w3) \<Rightarrow>
                if now \<ge> deadline then Inr (vcclSystemError, -1, w3)
                else Inl (if delayMs < 500 then delayMs * 2 else delayMs, sys_sleep S delayMs w3))))"

definition connectTo :: "'w sys \<Rightarrow> SocketAddr \<Rightarrow> int \<Rightarrow> 'w \<Rightarrow> (vcclResult_t \<times> int \<times> 'w) option" where
  "connectTo S addr timeoutMs w =
     (case sys_clock S w of (now, w0) \<Rightarrow> iter (connectStep S addr (now + timeoutMs * 1000000)) (20, w0))"

definition acceptStep :: "'w sys \<Rightarrow> Deadline \<Rightarrow> int \<Rightarrow> 'w \<Rightarrow> 'w + vcclResult_t \<times> int \<times> 'w" where
  "acceptStep S dl listenFd w =
     (case dlPoll S dl [(listenFd, False)] w of (rc, w1) \<Rightarrow>
        if (case rc of PFail e \<Rightarrow> e \<noteq> EINTR | Revents _ \<Rightarrow> False) then Inr (vcclSystemError, -1, w1)
        else (case expired S dl w1 of (x, w2) \<Rightarrow>
              if x then Inr (vcclSystemError, -1, w2)
              else if (case rc of PFail _ \<Rightarrow> True | Revents fl \<Rightarrow> \<not> flagOf fl 0) then Inl w2
              else (case sys_accept S listenFd w2 of
                      (Fd s, w3) \<Rightarrow> Inr (vcclSuccess, s, w3)
                    | (FdFail EINTR, w3) \<Rightarrow> Inl w3
                    | (FdFail _, w3) \<Rightarrow> Inr (vcclSystemError, -1, w3))))"

definition acceptParked :: "'w sys \<Rightarrow> Deadline \<Rightarrow> int \<Rightarrow> 'w \<Rightarrow> bool" where
  "acceptParked S dl listenFd w =
     (case dlPoll S dl [(listenFd, False)] w of
        (PFail _, w1) \<Rightarrow> False
      | (Revents fl, w1) \<Rightarrow>
          (case expired S dl w1 of (x, w2) \<Rightarrow> \<not> x \<and> flagOf fl 0 \<and> sys_blocks S listenFd False w2))"

definition acceptOne :: "'w sys \<Rightarrow> int \<Rightarrow> 'w \<Rightarrow> (vcclResult_t \<times> int \<times> 'w) option" where
  "acceptOne S listenFd w =
     (case newDeadline S w of (dl, w0) \<Rightarrow> iterO (parked (acceptParked S dl listenFd) (acceptStep S dl listenFd)) w0)"

definition createListenSocket :: "'w sys \<Rightarrow> 16 word \<Rightarrow> 'w \<Rightarrow> vcclResult_t \<times> int \<times> 16 word \<times> 'w" where
  "createListenSocket S port w =
     (case sys_socket S AF_INET w of
        (FdFail _, w1) \<Rightarrow> (vcclSystemError, -1, 0, w1)
      | (Fd s, w1) \<Rightarrow>
          (case sys_bind S s (htons port) w1 of (bound, w2) \<Rightarrow>
           if \<not> bound then (vcclSystemError, -1, 0, closeQuiet S s w2)
           else (case sys_listen S s w2 of (listening, w3) \<Rightarrow>
                 if \<not> listening then (vcclSystemError, -1, 0, closeQuiet S s w3)
                 else (case sys_getsockname S s w3 of
                         (None, w4) \<Rightarrow> (vcclSystemError, -1, 0, closeQuiet S s w4)
                       | (Some p, w4) \<Rightarrow> (vcclSuccess, s, ntohs p, w4)))))"

subsection \<open>The advertised address\<close>

text \<open>The scan over the interfaces: the candidate and the first loopback address. \<open>ntohl(a) >> 24\<close> is the first
  byte of the address.\<close>

fun scanIfs :: "string option \<Rightarrow> ifaddr list \<Rightarrow> byte list option \<Rightarrow> byte list option \<Rightarrow> byte list option \<times> byte list option" where
  "scanIfs ifname [] candidate loopback = (candidate, loopback)"
| "scanIfs ifname (x # xs) candidate loopback =
     (case ifa_addr x of
        None \<Rightarrow> scanIfs ifname xs candidate loopback
      | Some (fam, a) \<Rightarrow>
          if fam \<noteq> AF_INET then scanIfs ifname xs candidate loopback
          else (case ifname of
                  Some n \<Rightarrow> if ifa_name x = n then (Some a, loopback) else scanIfs ifname xs candidate loopback
                | None \<Rightarrow>
                    if hd a = 127 then scanIfs ifname xs candidate (if loopback = None then Some a else loopback)
                    else scanIfs ifname xs (if candidate = None then Some a else candidate) loopback))"

definition getAdvertisedAddr :: "'w sys \<Rightarrow> 'w \<Rightarrow> vcclResult_t \<times> SocketAddr" where
  "getAdvertisedAddr S w =
     (case sys_getenv S ''VCCL_SOCKET_ADDR'' of
        Some env \<Rightarrow>
          (case sys_inet_pton4 S env of
             Some a \<Rightarrow> (vcclSuccess, zeroAddr\<lparr>sin_addr := a, ss_family := AF_INET, slen := 16\<rparr>)
           | None \<Rightarrow>
               (case sys_inet_pton6 S env of
                  Some a \<Rightarrow> (vcclSuccess, zeroAddr\<lparr>sin6_addr := a, ss_family := AF_INET6, slen := 28\<rparr>)
                | None \<Rightarrow> (vcclInvalidArgument, zeroAddr)))
      | None \<Rightarrow>
          (case sys_getifaddrs S w of
             None \<Rightarrow> (vcclSystemError, zeroAddr)
           | Some ifas \<Rightarrow>
               (case scanIfs (sys_getenv S ''VCCL_SOCKET_IFNAME'') ifas None None of (candidate, loopback) \<Rightarrow>
                case (if candidate = None then loopback else candidate) of
                  None \<Rightarrow> (vcclSystemError, zeroAddr)
                | Some a \<Rightarrow> (vcclSuccess, zeroAddr\<lparr>ss_family := AF_INET, sin_addr := a, slen := 16\<rparr>))))"

end
