(* ===== verification/Vccl_Tcp.thy ===== *)
theory Vccl_Tcp
  imports Vccl_Socket Vccl_Proc
begin

text \<open>
  The TCP transport's data path (\<^verbatim>\<open>src/transport/tcp.cc\<close>): point-to-point calls on the socket of a peer, and
  batches that make progress on one queue per peer and direction. The transport is its table \<^verbatim>\<open>fds_\<close>;
  memory is explicit because a batch reads and writes the operations' buffers piece by piece.

  \<open>errno\<close> is a variable of the loop: after a \<open>send\<close> that returns 0 the code looks at the value left by an
  earlier call. Whether another thread has called \<open>abort\<close> is a function of the world.
\<close>

definition tcpSend :: "'w sys \<Rightarrow> int list \<Rightarrow> nat \<Rightarrow> addr \<Rightarrow> nat \<Rightarrow> mem \<Rightarrow> 'w \<Rightarrow> (vcclResult_t \<times> 'w) option" where
  "tcpSend S fds p b n m w = sendAll S (fds ! p) (rd m b n) w"

text \<open>What a receive call leaves in memory: the bytes that arrived, also when it fails.\<close>

definition tcpRecv :: "'w sys \<Rightarrow> int list \<Rightarrow> nat \<Rightarrow> addr \<Rightarrow> nat \<Rightarrow> mem \<Rightarrow> 'w \<Rightarrow> (vcclResult_t \<times> mem \<times> 'w) option" where
  "tcpRecv S fds p b n m w =
     map_option (\<lambda>(res, got, w'). (res, wr m b got, w')) (recvAll S (fds ! p) n w)"

definition tcpSendRecv ::
  "'w sys \<Rightarrow> int list \<Rightarrow> nat \<Rightarrow> addr \<Rightarrow> nat \<Rightarrow> nat \<Rightarrow> addr \<Rightarrow> nat \<Rightarrow> mem \<Rightarrow> 'w \<Rightarrow> (vcclResult_t \<times> mem \<times> 'w) option" where
  "tcpSendRecv S fds sp sbuf sbytes rp rbuf rbytes m w =
     map_option (\<lambda>(res, got, w'). (res, wr m rbuf got, w'))
       (duplexTransfer S (fds ! sp) (rd m sbuf sbytes) (fds ! rp) rbytes w)"

subsection \<open>Batches\<close>

record Active =
  aop :: P2pOp
  adone :: nat

text \<open>The operations of one peer and direction in issue order, those of no bytes left out; the queues in the order
  the map iterates.\<close>

definition opsKey :: "P2pOp list \<Rightarrow> qkey \<Rightarrow> P2pOp list" where
  "opsKey ops k = filter (\<lambda>x. bytes x \<noteq> 0 \<and> opKey x = k) ops"

definition batchKeys :: "P2pOp list \<Rightarrow> qkey list" where
  "batchKeys ops = sort (remdups (map opKey (filter (\<lambda>x. bytes x \<noteq> 0) ops)))"

definition batchQueues :: "P2pOp list \<Rightarrow> qkey \<Rightarrow> Active list" where
  "batchQueues ops k = map (\<lambda>x. \<lparr>aop = x, adone = 0\<rparr>) (opsKey ops k)"

record 'w batchSt =
  queues :: "qkey \<Rightarrow> Active list"
  remaining :: nat
  progressed :: bool
  bmem :: mem
  berrno :: errno
  bworld :: 'w

text \<open>The two outcomes of a call on the head of a queue: progress of \<open>n\<close> bytes, which may finish the operation, and
  a call that moved nothing.\<close>

definition batchProgress :: "qkey \<Rightarrow> nat \<Rightarrow> 'w batchSt \<Rightarrow> 'w batchSt" where
  "batchProgress k n st =
     (let a = hd (queues st k); rest = tl (queues st k); done' = adone a + n
      in if done' = bytes (aop a)
         then st\<lparr>queues := (queues st)(k := rest), remaining := remaining st - 1, progressed := True\<rparr>
         else st\<lparr>queues := (queues st)(k := a\<lparr>adone := done'\<rparr> # rest), progressed := True\<rparr>)"

definition batchIdle :: "'w batchSt \<Rightarrow> 'w batchSt + 'w batchSt" where
  "batchIdle st = (if berrno st \<noteq> EAGAIN \<and> berrno st \<noteq> EINTR then Inl st else Inr st)"

text \<open>The body of the loop over the queues: \<open>Inl\<close> is a return with \<open>vcclSystemError\<close>.\<close>

definition batchQueue :: "'w sys \<Rightarrow> int list \<Rightarrow> qkey \<Rightarrow> 'w batchSt \<Rightarrow> 'w batchSt + 'w batchSt" where
  "batchQueue S fds k st =
     (case queues st k of
        [] \<Rightarrow> Inr st
      | a # _ \<Rightarrow>
          let fd = fds ! fst k; base = buf (aop a); left = bytes (aop a) - adone a
          in if isSend (aop a) then
               (case sys_send S fd (rd (bmem st) (base + adone a) left) (bworld st) of
                  (Count n, w1) \<Rightarrow>
                    if n > 0 then Inr (batchProgress k n (st\<lparr>bworld := w1\<rparr>)) else batchIdle (st\<lparr>bworld := w1\<rparr>)
                | (Fail e, w1) \<Rightarrow> batchIdle (st\<lparr>berrno := e, bworld := w1\<rparr>))
             else
               (case sys_recv S fd left (bworld st) of
                  (Data d, w1) \<Rightarrow>
                    if d = [] then Inl (st\<lparr>bworld := w1\<rparr>)
                    else Inr (batchProgress k (length d) (st\<lparr>bmem := wr (bmem st) (base + adone a) d, bworld := w1\<rparr>))
                | (RFail e, w1) \<Rightarrow> batchIdle (st\<lparr>berrno := e, bworld := w1\<rparr>)))"

fun batchRound :: "'w sys \<Rightarrow> int list \<Rightarrow> qkey list \<Rightarrow> 'w batchSt \<Rightarrow> 'w batchSt + 'w batchSt" where
  "batchRound S fds [] st = Inr st"
| "batchRound S fds (k # ks) st =
     (case batchQueue S fds k st of Inl e \<Rightarrow> Inl e | Inr st' \<Rightarrow> batchRound S fds ks st')"

definition batchStep ::
  "'w sys \<Rightarrow> ('w \<Rightarrow> bool) \<Rightarrow> Deadline \<Rightarrow> int list \<Rightarrow> qkey list \<Rightarrow> 'w batchSt \<Rightarrow> 'w batchSt + vcclResult_t \<times> mem \<times> 'w" where
  "batchStep S isAborted dl fds ks st =
     (if remaining st > 0 then
        (case batchRound S fds ks (st\<lparr>progressed := False\<rparr>) of
           Inl st1 \<Rightarrow> Inr (vcclSystemError, bmem st1, bworld st1)
         | Inr st1 \<Rightarrow>
             if isAborted (bworld st1) then Inr (vcclSystemError, bmem st1, bworld st1)
             else if progressed st1 then Inl st1
             else (case dlPoll S dl (map (\<lambda>k. (fds ! fst k, snd k)) (filter (\<lambda>k. queues st1 k \<noteq> []) ks)) (bworld st1) of
                     (r, w1) \<Rightarrow>
                   if (case r of PFail e \<Rightarrow> e \<noteq> EINTR | Revents _ \<Rightarrow> False) then Inr (vcclSystemError, bmem st1, w1)
                   else (case expired S dl w1 of (x, w2) \<Rightarrow>
                         if x then Inr (vcclSystemError, bmem st1, w2)
                         else Inl (st1\<lparr>bworld := w2, berrno := (case r of PFail e \<Rightarrow> e | Revents _ \<Rightarrow> berrno st1)\<rparr>))))
      else Inr (vcclSuccess, bmem st, bworld st))"

text \<open>The states in which the loop over the queues makes a call that blocks for ever.\<close>

definition queueParked :: "'w sys \<Rightarrow> int list \<Rightarrow> qkey \<Rightarrow> 'w batchSt \<Rightarrow> bool" where
  "queueParked S fds k st =
     (case queues st k of [] \<Rightarrow> False | a # _ \<Rightarrow> sys_blocks S (fds ! fst k) (isSend (aop a)) (bworld st))"

fun roundParked :: "'w sys \<Rightarrow> int list \<Rightarrow> qkey list \<Rightarrow> 'w batchSt \<Rightarrow> bool" where
  "roundParked S fds [] st = False"
| "roundParked S fds (k # ks) st =
     (queueParked S fds k st \<or>
      (case batchQueue S fds k st of Inl e \<Rightarrow> False | Inr st' \<Rightarrow> roundParked S fds ks st'))"

definition batchParked :: "'w sys \<Rightarrow> int list \<Rightarrow> qkey list \<Rightarrow> 'w batchSt \<Rightarrow> bool" where
  "batchParked S fds ks st \<longleftrightarrow> remaining st > 0 \<and> roundParked S fds ks (st\<lparr>progressed := False\<rparr>)"

definition tcpBatch ::
  "'w sys \<Rightarrow> ('w \<Rightarrow> bool) \<Rightarrow> int list \<Rightarrow> errno \<Rightarrow> P2pOp list \<Rightarrow> mem \<Rightarrow> 'w \<Rightarrow> (vcclResult_t \<times> mem \<times> 'w) option" where
  "tcpBatch S isAborted fds errno0 ops m w =
     (case newDeadline S w of (dl, w0) \<Rightarrow>
        iterO (parked (batchParked S fds (batchKeys ops)) (batchStep S isAborted dl fds (batchKeys ops)))
          \<lparr>queues = batchQueues ops, remaining = length (filter (\<lambda>x. bytes x \<noteq> 0) ops), progressed = False,
           bmem = m, berrno = errno0, bworld = w0\<rparr>)"

text \<open>\<open>abort\<close>: the flag, then a shutdown of every socket, to wake whoever is parked on it.\<close>

definition tcpAbort :: "'w sys \<Rightarrow> int list \<Rightarrow> Transport \<Rightarrow> 'w \<Rightarrow> Transport \<times> 'w" where
  "tcpAbort S fds t w = (abort t, fold (\<lambda>fd w. if fd \<ge> 0 then sys_shutdown S fd w else w) fds w)"

definition tcpClose :: "'w sys \<Rightarrow> int list \<Rightarrow> 'w \<Rightarrow> 'w" where
  "tcpClose S fds w = fold (closeQuiet S) fds w"

end
