(* ===== verification/Vccl_Socket_Spec.thy ===== *)
theory Vccl_Socket_Spec
  imports Vccl_Socket
begin

text \<open>
  What the transfer loops guarantee, from what POSIX documents of stream sockets.
  \<^item> \<open>streams S outs ins\<close>: \<open>outs w fd\<close> are the bytes the kernel has accepted on a descriptor so far and
    \<open>ins w fd\<close> those it has handed out; \<open>send\<close> accepts a prefix of what it is offered, \<open>recv\<close> hands out at
    most what is asked for, and nothing else touches either.
  \<^item> \<open>nonblocking S nb\<close>: \<open>nb w\<close> are descriptors that are in non-blocking mode or whose peers never stay silent: no
    call on one of them blocks for ever, and the calls of the transfer loops keep them so.
  \<^item> \<open>timed S time patience\<close>: time passes in every \<open>poll\<close> and never goes back, and a signal interrupts
    a call only finitely often.
\<close>

definition streams :: "'w sys \<Rightarrow> ('w \<Rightarrow> int \<Rightarrow> byte list) \<Rightarrow> ('w \<Rightarrow> int \<Rightarrow> byte list) \<Rightarrow> bool" where
  "streams S outs ins \<longleftrightarrow>
     (\<forall>fd d w n w'. sys_send S fd d w = (Count n, w') \<longrightarrow>
        n \<le> length d \<and> outs w' = (outs w)(fd := outs w fd @ take n d) \<and> ins w' = ins w) \<and>
     (\<forall>fd d w e w'. sys_send S fd d w = (Fail e, w') \<longrightarrow> outs w' = outs w \<and> ins w' = ins w) \<and>
     (\<forall>fd n w d w'. sys_recv S fd n w = (Data d, w') \<longrightarrow>
        length d \<le> n \<and> ins w' = (ins w)(fd := ins w fd @ d) \<and> outs w' = outs w) \<and>
     (\<forall>fd n w e w'. sys_recv S fd n w = (RFail e, w') \<longrightarrow> outs w' = outs w \<and> ins w' = ins w) \<and>
     (\<forall>ps ms w. outs (snd (sys_poll S ps ms w)) = outs w \<and> ins (snd (sys_poll S ps ms w)) = ins w) \<and>
     (\<forall>w. outs (snd (sys_clock S w)) = outs w \<and> ins (snd (sys_clock S w)) = ins w)"

definition timed :: "'w sys \<Rightarrow> ('w \<Rightarrow> int) \<Rightarrow> ('w \<Rightarrow> nat) \<Rightarrow> bool" where
  "timed S time patience \<longleftrightarrow>
     (\<forall>w t w'. sys_clock S w = (t, w') \<longrightarrow> time w \<le> t \<and> time w' = t \<and> patience w' \<le> patience w) \<and>
     (\<forall>ps ms w r w'. sys_poll S ps ms w = (r, w') \<longrightarrow> time w < time w' \<and> patience w' \<le> patience w \<and>
        (r = PFail EINTR \<longrightarrow> patience w' < patience w)) \<and>
     (\<forall>fd d w r w'. sys_send S fd d w = (r, w') \<longrightarrow> time w \<le> time w' \<and> patience w' \<le> patience w \<and>
        (r = Fail EINTR \<longrightarrow> patience w' < patience w)) \<and>
     (\<forall>fd n w r w'. sys_recv S fd n w = (r, w') \<longrightarrow> time w \<le> time w' \<and> patience w' \<le> patience w \<and>
        (r = RFail EINTR \<longrightarrow> patience w' < patience w))"

subsection \<open>The watchdog\<close>

lemma pollMs_bounds: "pollMs S dl w = (ms, w') \<Longrightarrow> (if dlEnabled dl then 0 \<le> ms \<and> ms \<le> 60000 else ms = -1)"
  by (auto simp: pollMs_def Let_def split: prod.splits if_splits)

lemma streams_clock:
  assumes "streams S outs ins"
  shows "newDeadline S w = (dl, w') \<Longrightarrow> outs w' = outs w \<and> ins w' = ins w"
    and "expired S dl w = (x, w') \<Longrightarrow> outs w' = outs w \<and> ins w' = ins w"
    and "dlPoll S dl ps w = (r, w') \<Longrightarrow> outs w' = outs w \<and> ins w' = ins w"
proof -
  have c: "outs (snd (sys_clock S w)) = outs w \<and> ins (snd (sys_clock S w)) = ins w"
    and p: "outs (snd (sys_poll S ps ms w)) = outs w \<and> ins (snd (sys_poll S ps ms w)) = ins w" for ps ms w
    using assms by (simp_all add: streams_def)
  note cc = c [of w] p [of ps]
  show "newDeadline S w = (dl, w') \<Longrightarrow> outs w' = outs w \<and> ins w' = ins w"
    using c [of w] by (auto simp: newDeadline_def Let_def split: prod.splits if_splits)
  show "expired S dl w = (x, w') \<Longrightarrow> outs w' = outs w \<and> ins w' = ins w"
    using c [of w] by (auto simp: expired_def split: prod.splits if_splits)
  assume "dlPoll S dl ps w = (r, w')"
  then obtain ms w1 where w1: "pollMs S dl w = (ms, w1)" "sys_poll S ps ms w1 = (r, w')"
    by (auto simp: dlPoll_def split: prod.splits)
  have "outs w1 = outs w \<and> ins w1 = ins w"
    using w1(1) c [of w] by (auto simp: pollMs_def Let_def split: prod.splits if_splits)
  then show "outs w' = outs w \<and> ins w' = ins w" using p [of ps ms w1] w1(2) by simp
qed

lemma streams_send:
  "streams S outs ins \<Longrightarrow> sys_send S fd d w = (Count n, w') \<Longrightarrow>
     n \<le> length d \<and> outs w' = (outs w)(fd := outs w fd @ take n d) \<and> ins w' = ins w"
  "streams S outs ins \<Longrightarrow> sys_send S fd d w = (Fail e, w') \<Longrightarrow> outs w' = outs w \<and> ins w' = ins w"
  by (simp_all add: streams_def)

lemma streams_recv:
  "streams S outs ins \<Longrightarrow> sys_recv S fd n w = (Data d, w') \<Longrightarrow>
     length d \<le> n \<and> ins w' = (ins w)(fd := ins w fd @ d) \<and> outs w' = outs w"
  "streams S outs ins \<Longrightarrow> sys_recv S fd n w = (RFail e, w') \<Longrightarrow> outs w' = outs w \<and> ins w' = ins w"
  by (simp_all add: streams_def)

subsection \<open>Exactness\<close>

lemma sendStep_exact:
  assumes "streams S outs ins" "sent \<le> length p"
  shows "case sendStep S dl fd p (sent, v) of
      Inl (sent', v') \<Rightarrow> sent \<le> sent' \<and> sent' \<le> length p \<and>
        outs v' = (outs v)(fd := outs v fd @ take (sent' - sent) (drop sent p)) \<and> ins v' = ins v
    | Inr (res, v') \<Rightarrow> outs v' = outs v \<and> ins v' = ins v \<and> res = (if sent = length p then vcclSuccess else vcclSystemError)"
proof (cases "sent < length p")
  case True
  obtain r w1 where r: "sys_send S fd (drop sent p) v = (r, w1)" by fastforce
  obtain pr w2 where w2: "dlPoll S dl [(fd, True)] w1 = (pr, w2)" by fastforce
  obtain x w3 where w3: "expired S dl w2 = (x, w3)" by fastforce
  note poll = streams_clock(3) [OF assms(1) w2] streams_clock(2) [OF assms(1) w3]
  show ?thesis
  proof (cases r)
    case (Count n)
    then show ?thesis using True r streams_send(1) [OF assms(1), of fd "drop sent p" v n w1]
      by (auto simp: sendStep_def)
  next
    case (Fail e)
    then show ?thesis using True r w2 w3 poll streams_send(2) [OF assms(1), of fd "drop sent p" v e w1]
      by (cases e) (auto simp: sendStep_def)
  qed
qed (use assms in \<open>auto simp: sendStep_def\<close>)

lemma take_step: "i \<le> j \<Longrightarrow> take i p @ take (j - i) (drop i p) = take j p"
  by (metis append_take_drop_id le_add_diff_inverse take_add)

lemma sendAll_exact:
  assumes "streams S outs ins" "sendAll S fd p w = Some (res, w')"
  shows "\<exists>k\<le>length p. outs w' = (outs w)(fd := outs w fd @ take k p) \<and> ins w' = ins w \<and>
    res = (if k = length p then vcclSuccess else vcclSystemError)"
proof -
  obtain dl w0 where dl: "newDeadline S w = (dl, w0)" by fastforce
  have w0: "outs w0 = outs w" "ins w0 = ins w" using streams_clock(1) [OF assms(1) dl] by auto
  let ?I = "\<lambda>(sent, v). sent \<le> length p \<and> outs v = (outs w)(fd := outs w fd @ take sent p) \<and> ins v = ins w"
  let ?Q = "\<lambda>(res, v). \<exists>k\<le>length p. outs v = (outs w)(fd := outs w fd @ take k p) \<and> ins v = ins w \<and>
    res = (if k = length p then vcclSuccess else vcclSystemError)"
  have "iter (sendStep S dl fd p) (0, w0) = Some (res, w')" using assms(2) by (auto simp: sendAll_def dl intro: parked_iter)
  then have "?Q (res, w')"
  proof (rule iter_inv [where I = ?I])
    show "?I (0, w0)" using w0 by simp
  next
    fix s s' assume I: "?I s" and step: "sendStep S dl fd p s = Inl s'"
    obtain sent v sent' v' where s: "s = (sent, v)" "s' = (sent', v')" by fastforce
    from sendStep_exact [OF assms(1), where sent = sent and p = p and dl = dl and fd = fd and v = v] I step s show "?I s'" by (auto simp: take_step)
  next
    fix s r assume I: "?I s" and step: "sendStep S dl fd p s = Inr r"
    obtain sent v res v' where s: "s = (sent, v)" "r = (res, v')" by fastforce
    from sendStep_exact [OF assms(1), where sent = sent and p = p and dl = dl and fd = fd and v = v] I step s show "?Q r" by auto
  qed
  then show ?thesis by simp
qed

lemma recvStep_exact:
  assumes "streams S outs ins" "length got \<le> bytes"
  shows "case recvStep S dl fd bytes (got, v) of
      Inl (got', v') \<Rightarrow> \<exists>d. got' = got @ d \<and> length got' \<le> bytes \<and> ins v' = (ins v)(fd := ins v fd @ d) \<and> outs v' = outs v
    | Inr (res, got', v') \<Rightarrow> outs v' = outs v \<and> ins v' = ins v \<and> got' = got \<and>
        res = (if length got = bytes then vcclSuccess else vcclSystemError)"
proof (cases "length got < bytes")
  case True
  obtain r w1 where r: "sys_recv S fd (bytes - length got) v = (r, w1)" by fastforce
  obtain pr w2 where w2: "dlPoll S dl [(fd, False)] w1 = (pr, w2)" by fastforce
  obtain x w3 where w3: "expired S dl w2 = (x, w3)" by fastforce
  note poll = streams_clock(3) [OF assms(1) w2] streams_clock(2) [OF assms(1) w3]
  show ?thesis
  proof (cases r)
    case (Data d)
    then show ?thesis using True r streams_recv(1) [OF assms(1), of fd "bytes - length got" v d w1]
      by (auto simp: recvStep_def)
  next
    case (RFail e)
    then show ?thesis using True r w2 w3 poll streams_recv(2) [OF assms(1), of fd "bytes - length got" v e w1]
      by (cases e) (auto simp: recvStep_def)
  qed
qed (use assms in \<open>auto simp: recvStep_def\<close>)

lemma recvAll_exact:
  assumes "streams S outs ins" "recvAll S fd bytes w = Some (res, got, w')"
  shows "length got \<le> bytes \<and> ins w' = (ins w)(fd := ins w fd @ got) \<and> outs w' = outs w \<and>
    res = (if length got = bytes then vcclSuccess else vcclSystemError)"
proof -
  obtain dl w0 where dl: "newDeadline S w = (dl, w0)" by fastforce
  have w0: "outs w0 = outs w" "ins w0 = ins w" using streams_clock(1) [OF assms(1) dl] by auto
  let ?I = "\<lambda>(got, v). length got \<le> bytes \<and> ins v = (ins w)(fd := ins w fd @ got) \<and> outs v = outs w"
  let ?Q = "\<lambda>(res, got, v). length got \<le> bytes \<and> ins v = (ins w)(fd := ins w fd @ got) \<and> outs v = outs w \<and>
    res = (if length got = bytes then vcclSuccess else vcclSystemError)"
  have "iter (recvStep S dl fd bytes) ([], w0) = Some (res, got, w')" using assms(2) by (auto simp: recvAll_def dl intro: parked_iter)
  then have "?Q (res, got, w')"
  proof (rule iter_inv [where I = ?I])
    show "?I ([], w0)" using w0 by simp
  next
    fix s s' assume I: "?I s" and step: "recvStep S dl fd bytes s = Inl s'"
    obtain got v got' v' where s: "s = (got, v)" "s' = (got', v')" by fastforce
    from recvStep_exact [OF assms(1), where got = got and bytes = bytes and dl = dl and fd = fd and v = v] I step s show "?I s'" by auto
  next
    fix s r assume I: "?I s" and step: "recvStep S dl fd bytes s = Inr r"
    obtain got v res got' v' where s: "s = (got, v)" "r = (res, got', v')" by (metis prod_cases3 surj_pair)
    from recvStep_exact [OF assms(1), where got = got and bytes = bytes and dl = dl and fd = fd and v = v] I step s show "?Q r" by auto
  qed
  then show ?thesis by simp
qed

text \<open>What both directions of a duplex transfer have moved since \<open>w\<close>.\<close>

definition moved ::
  "('w \<Rightarrow> int \<Rightarrow> byte list) \<Rightarrow> ('w \<Rightarrow> int \<Rightarrow> byte list) \<Rightarrow> 'w \<Rightarrow> int \<Rightarrow> byte list \<Rightarrow> int \<Rightarrow> nat \<Rightarrow> nat \<Rightarrow> byte list \<Rightarrow> 'w \<Rightarrow> bool" where
  "moved outs ins w sfd sp rfd rbytes sent got v \<longleftrightarrow> sent \<le> length sp \<and> length got \<le> rbytes \<and>
     outs v = (outs w)(sfd := outs w sfd @ take sent sp) \<and> ins v = (ins w)(rfd := ins w rfd @ got)"

lemma moved_cong: "outs v' = outs v \<Longrightarrow> ins v' = ins v \<Longrightarrow>
   moved outs ins w sfd sp rfd n sent got v' = moved outs ins w sfd sp rfd n sent got v"
  by (simp add: moved_def)

lemma duplexSend_moved:
  assumes "streams S outs ins" "moved outs ins w sfd sp rfd n sent got v" "duplexSend S sfd sp sent v = (res, sent', v')"
  shows "moved outs ins w sfd sp rfd n sent' got v' \<and> (res = vcclSuccess \<or> res = vcclSystemError \<and> sent' = sent)"
proof -
  obtain r v1 where r: "sys_send S sfd (drop sent sp) v = (r, v1)" by fastforce
  show ?thesis
  proof (cases r)
    case (Count k)
    have "take (sent + k) sp = take sent sp @ take k (drop sent sp)" by (rule take_add)
    then show ?thesis using assms r Count streams_send(1) [OF assms(1), of sfd "drop sent sp" v k v1]
      by (auto simp: duplexSend_def moved_def)
  next
    case (Fail e)
    then show ?thesis using assms r streams_send(2) [OF assms(1), of sfd "drop sent sp" v e v1]
      by (cases e) (auto simp: duplexSend_def moved_def)
  qed
qed

lemma duplexRecv_moved:
  assumes "streams S outs ins" "moved outs ins w sfd sp rfd n sent got v" "duplexRecv S rfd n got v = (res, got', v')"
  shows "moved outs ins w sfd sp rfd n sent got' v' \<and> (res = vcclSuccess \<or> res = vcclSystemError \<and> got' = got)"
proof -
  obtain r v1 where r: "sys_recv S rfd (n - length got) v = (r, v1)" by fastforce
  show ?thesis
  proof (cases r)
    case (Data d)
    then show ?thesis using assms r streams_recv(1) [OF assms(1), of rfd "n - length got" v d v1]
      by (auto simp: duplexRecv_def moved_def split: if_splits)
  next
    case (RFail e)
    then show ?thesis using assms r streams_recv(2) [OF assms(1), of rfd "n - length got" v e v1]
      by (cases e) (auto simp: duplexRecv_def moved_def)
  qed
qed

lemma duplexStep_moved:
  assumes "streams S outs ins" "moved outs ins w sfd sp rfd n sent got v"
  shows "case duplexStep S dl sfd sp rfd n (sent, got, v) of
      Inl (sent', got', v') \<Rightarrow> moved outs ins w sfd sp rfd n sent' got' v'
    | Inr (res, got', v') \<Rightarrow> \<exists>sent'. moved outs ins w sfd sp rfd n sent' got' v' \<and>
        res = (if sent' = length sp \<and> length got' = n then vcclSuccess else vcclSystemError)"
proof (cases "sent < length sp \<or> length got < n")
  case True
  let ?s = "sent < length sp" and ?r = "length got < n"
  let ?ps = "(if ?s then [(sfd, True)] else []) @ (if ?r then [(rfd, False)] else [])"
  obtain pr v1 where v1: "dlPoll S dl ?ps v = (pr, v1)" by fastforce
  obtain x v2 where v2: "expired S dl v1 = (x, v2)" by fastforce
  have m1: "moved outs ins w sfd sp rfd n sent got v1" and m2: "moved outs ins w sfd sp rfd n sent got v2"
    using assms(2) moved_cong streams_clock(3) [OF assms(1) v1] streams_clock(2) [OF assms(1) v2] by metis+
  show ?thesis
  proof (cases pr)
    case (PFail e)
    then show ?thesis using True v1 m1 by (cases e) (auto simp: duplexStep_def Let_def intro!: exI [of _ sent])
  next
    case (Revents fl)
    obtain res sent' v3 where v3: "(if ?s \<and> flagOf fl 0 then duplexSend S sfd sp sent v2 else (vcclSuccess, sent, v2)) = (res, sent', v3)"
      by (metis prod_cases3)
    have m3: "moved outs ins w sfd sp rfd n sent' got v3 \<and> (res = vcclSuccess \<or> res = vcclSystemError \<and> sent' < length sp)"
      using v3 m2 duplexSend_moved [OF assms(1) m2] by (auto split: if_splits)
    obtain res' got' v4 where v4: "(if ?r \<and> flagOf fl (if ?s then 1 else 0) then duplexRecv S rfd n got v3 else (vcclSuccess, got, v3)) = (res', got', v4)"
      by (metis prod_cases3)
    have m4: "moved outs ins w sfd sp rfd n sent' got' v4 \<and> (res' = vcclSuccess \<or> res' = vcclSystemError \<and> length got' < n)"
      using v4 m3 duplexRecv_moved [OF assms(1), of w sfd sp rfd n sent' got v3] by (auto split: if_splits)
    have "duplexStep S dl sfd sp rfd n (sent, got, v) =
        (if x then Inr (vcclSystemError, got, v2) else if res \<noteq> vcclSuccess then Inr (res, got, v3)
         else if res' \<noteq> vcclSuccess then Inr (res', got', v4) else Inl (sent', got', v4))"
      by (simp only: duplexStep_def Let_def prod.case v1 v2 v3 v4 Revents pollret.case True if_True)
    moreover have "sent \<noteq> length sp \<or> length got \<noteq> n" using True by auto
    ultimately consider "duplexStep S dl sfd sp rfd n (sent, got, v) = Inr (vcclSystemError, got, v2)" "sent \<noteq> length sp \<or> length got \<noteq> n"
      | "duplexStep S dl sfd sp rfd n (sent, got, v) = Inr (vcclSystemError, got, v3)" "sent' < length sp"
      | "duplexStep S dl sfd sp rfd n (sent, got, v) = Inr (vcclSystemError, got', v4)" "length got' < n"
      | "duplexStep S dl sfd sp rfd n (sent, got, v) = Inl (sent', got', v4)" using m3 m4 by metis
    then show ?thesis
    proof cases
      case 1
      then show ?thesis using m2 by (intro exI [of _ sent] | simp)+
    next
      case 2
      then show ?thesis using m3 by (intro exI [of _ sent'] | simp)+
    next
      case 3
      then show ?thesis using m4 by (intro exI [of _ sent'] | simp)+
    next
      case 4
      then show ?thesis using m4 by simp
    qed
  qed
qed (use assms in \<open>auto simp: duplexStep_def moved_def intro!: exI [of _ sent]\<close>)

lemma duplexTransfer_exact:
  assumes "streams S outs ins" "duplexTransfer S sfd sp rfd n w = Some (res, got, w')"
  shows "\<exists>sent. moved outs ins w sfd sp rfd n sent got w' \<and>
     res = (if sent = length sp \<and> length got = n then vcclSuccess else vcclSystemError)"
proof -
  obtain dl w0 where dl: "newDeadline S w = (dl, w0)" by fastforce
  let ?I = "\<lambda>(sent, got, v). moved outs ins w sfd sp rfd n sent got v"
  let ?Q = "\<lambda>(res, got, v). \<exists>sent. moved outs ins w sfd sp rfd n sent got v \<and>
     res = (if sent = length sp \<and> length got = n then vcclSuccess else vcclSystemError)"
  have "iter (duplexStep S dl sfd sp rfd n) (0, [], w0) = Some (res, got, w')" using assms(2) by (auto simp: duplexTransfer_def dl intro: parked_iter)
  then have "?Q (res, got, w')"
  proof (rule iter_inv [where I = ?I])
    show "?I (0, [], w0)" using streams_clock(1) [OF assms(1) dl] by (simp add: moved_def)
  next
    fix s s' assume I: "?I s" and step: "duplexStep S dl sfd sp rfd n s = Inl s'"
    obtain sent got v where s: "s = (sent, got, v)" by (metis prod_cases3)
    have "moved outs ins w sfd sp rfd n sent got v" using I s by simp
    from duplexStep_moved [OF assms(1) this, of dl] step s show "?I s'" by (auto split: prod.splits)
  next
    fix s r assume I: "?I s" and step: "duplexStep S dl sfd sp rfd n s = Inr r"
    obtain sent got v where s: "s = (sent, got, v)" by (metis prod_cases3)
    have "moved outs ins w sfd sp rfd n sent got v" using I s by simp
    from duplexStep_moved [OF assms(1) this, of dl] step s show "?Q r" by (auto split: prod.splits)
  qed
  then show ?thesis by simp
qed

subsection \<open>Relations that the calls preserve\<close>

text \<open>A reflexive and transitive relation between worlds that every single call respects holds across the
  transfer loops.\<close>

lemma deadline_rel:
  assumes "reflp R" "transp R" "\<And>w t w'. sys_clock S w = (t, w') \<Longrightarrow> R w w'" "\<And>ps ms w r w'. sys_poll S ps ms w = (r, w') \<Longrightarrow> R w w'"
  shows "newDeadline S w = (dl, w') \<Longrightarrow> R w w'" "expired S dl w = (x, w') \<Longrightarrow> R w w'" "dlPoll S dl ps w = (r, w') \<Longrightarrow> R w w'"
proof -
  have refl: "R v v" for v using assms(1) by (rule reflpD)
  have p: "pollMs S dl w = (ms, v) \<Longrightarrow> R w v" for ms v
    using assms(3) refl by (auto simp: pollMs_def Let_def split: prod.splits if_splits)
  show "newDeadline S w = (dl, w') \<Longrightarrow> R w w'"
    using assms(3) refl by (auto simp: newDeadline_def Let_def split: prod.splits if_splits)
  show "expired S dl w = (x, w') \<Longrightarrow> R w w'"
    using assms(3) refl by (auto simp: expired_def split: prod.splits if_splits)
  assume "dlPoll S dl ps w = (r, w')"
  then obtain ms v where "pollMs S dl w = (ms, v)" "sys_poll S ps ms v = (r, w')" by (auto simp: dlPoll_def split: prod.splits)
  with p assms(4) show "R w w'" using transpD [OF assms(2)] by blast
qed

definition quietly :: "'w sys \<Rightarrow> ('w \<Rightarrow> 'w \<Rightarrow> bool) \<Rightarrow> bool" where
  "quietly S R \<longleftrightarrow> reflp R \<and> transp R \<and> (\<forall>fd d w. R w (snd (sys_send S fd d w))) \<and> (\<forall>fd n w. R w (snd (sys_recv S fd n w))) \<and>
     (\<forall>ps ms w. R w (snd (sys_poll S ps ms w))) \<and> (\<forall>w. R w (snd (sys_clock S w)))"

lemma quietly_calls:
  assumes "quietly S R"
  shows "R w w" "R u v \<Longrightarrow> R v w \<Longrightarrow> R u w" "sys_send S fd d w = (q, w') \<Longrightarrow> R w w'" "sys_recv S fd n w = (u', w') \<Longrightarrow> R w w'"
    "newDeadline S w = (dl, w') \<Longrightarrow> R w w'" "expired S dl w = (x, w') \<Longrightarrow> R w w'" "dlPoll S dl ps w = (r, w') \<Longrightarrow> R w w'"
proof -
  have rt: "reflp R" "transp R" using assms by (simp_all add: quietly_def)
  have c: "sys_clock S w = (t, w') \<Longrightarrow> R w w'" and p: "sys_poll S ps ms w = (r, w') \<Longrightarrow> R w w'" for w w' t ps ms r
    using assms by (metis quietly_def snd_conv)+
  show "R w w" "R u v \<Longrightarrow> R v w \<Longrightarrow> R u w" using rt by (auto dest: reflpD transpD)
  show "sys_send S fd d w = (q, w') \<Longrightarrow> R w w'" "sys_recv S fd n w = (u', w') \<Longrightarrow> R w w'"
    using assms by (metis quietly_def snd_conv)+
  show "newDeadline S w = (dl, w') \<Longrightarrow> R w w'" "expired S dl w = (x, w') \<Longrightarrow> R w w'" "dlPoll S dl ps w = (r, w') \<Longrightarrow> R w w'"
    using deadline_rel [OF rt, of S] c p by blast+
qed

definition nonblocking :: "'w sys \<Rightarrow> ('w \<Rightarrow> int set) \<Rightarrow> bool" where
  "nonblocking S nb \<longleftrightarrow> (\<forall>w. \<forall>fd \<in> nb w. \<forall>out. \<not> sys_blocks S fd out w) \<and> quietly S (\<lambda>w w'. nb w \<subseteq> nb w')"

lemma nonblockingD:
  assumes "nonblocking S nb"
  shows "fd \<in> nb w \<Longrightarrow> \<not> sys_blocks S fd out w" and "quietly S (\<lambda>w w'. nb w \<subseteq> nb w')"
  using assms by (auto simp: nonblocking_def)

lemma nonblocking_UNIV: "(\<And>fd out w. \<not> sys_blocks S fd out w) \<Longrightarrow> nonblocking S (\<lambda>_. UNIV)"
  by (simp add: nonblocking_def quietly_def reflp_def transp_def)

lemma sendStep_quietly:
  assumes "quietly S R"
  shows "case sendStep S dl fd p (sent, v) of Inl (_, v') \<Rightarrow> R v v' | Inr (_, v') \<Rightarrow> R v v'"
proof -
  note q = quietly_calls [OF assms]
  obtain c v1 where c: "sys_send S fd (drop sent p) v = (c, v1)" by fastforce
  obtain r v2 where r: "dlPoll S dl [(fd, True)] v1 = (r, v2)" by fastforce
  obtain x v3 where x: "expired S dl v2 = (x, v3)" by fastforce
  have "R v v1" "R v v3" using q(3) [OF c] q(7) [OF r] q(6) [OF x] q(2) by blast+
  then show ?thesis using q(1) c r x by (auto simp: sendStep_def split: sysret.splits errno.splits)
qed

lemma recvStep_quietly:
  assumes "quietly S R"
  shows "case recvStep S dl fd n (got, v) of Inl (_, v') \<Rightarrow> R v v' | Inr (_, _, v') \<Rightarrow> R v v'"
proof -
  note q = quietly_calls [OF assms]
  obtain c v1 where c: "sys_recv S fd (n - length got) v = (c, v1)" by fastforce
  obtain r v2 where r: "dlPoll S dl [(fd, False)] v1 = (r, v2)" by fastforce
  obtain x v3 where x: "expired S dl v2 = (x, v3)" by fastforce
  have "R v v1" "R v v3" using q(4) [OF c] q(7) [OF r] q(6) [OF x] q(2) by blast+
  then show ?thesis using q(1) c r x by (auto simp: recvStep_def split: recvret.splits errno.splits)
qed

lemma sendAll_quietly:
  assumes "quietly S R" "sendAll S fd p w = Some (res, w')"
  shows "R w w'"
proof -
  note q = quietly_calls [OF assms(1)]
  obtain dl w0 where dl: "newDeadline S w = (dl, w0)" by fastforce
  have "iter (sendStep S dl fd p) (0, w0) = Some (res, w')" using assms(2) by (auto simp: sendAll_def dl intro: parked_iter)
  then have "R w (snd (res, w'))"
  proof (rule iter_case [where I = "\<lambda>s :: nat \<times> _. R w (snd s)"])
    fix s :: "nat \<times> 'a" assume "R w (snd s)"
    then show "case sendStep S dl fd p s of Inl s' \<Rightarrow> R w (snd s') | Inr r \<Rightarrow> R w (snd r)"
      using sendStep_quietly [OF assms(1), where dl = dl and fd = fd and p = p and sent = "fst s" and v = "snd s"] q(2)
      by (auto split: sum.splits)
  qed (use q(5) [OF dl] in simp)
  then show ?thesis by simp
qed

lemma recvAll_quietly:
  assumes "quietly S R" "recvAll S fd n w = Some (res, got, w')"
  shows "R w w'"
proof -
  note q = quietly_calls [OF assms(1)]
  obtain dl w0 where dl: "newDeadline S w = (dl, w0)" by fastforce
  have "iter (recvStep S dl fd n) ([], w0) = Some (res, got, w')" using assms(2) by (auto simp: recvAll_def dl intro: parked_iter)
  then have "R w (snd (snd (res, got, w')))"
  proof (rule iter_case [where I = "\<lambda>s :: byte list \<times> _. R w (snd s)"])
    fix s :: "byte list \<times> 'a" assume "R w (snd s)"
    then show "case recvStep S dl fd n s of Inl s' \<Rightarrow> R w (snd s') | Inr r \<Rightarrow> R w (snd (snd r))"
      using recvStep_quietly [OF assms(1), where dl = dl and fd = fd and n = n and got = "fst s" and v = "snd s"] q(2)
      by (auto split: sum.splits)
  qed (use q(5) [OF dl] in simp)
  then show ?thesis by simp
qed

subsection \<open>The watchdog ends every transfer\<close>

lemma timed_calls:
  assumes "timed S time patience"
  shows "sys_clock S w = (t, w') \<Longrightarrow> time w \<le> t \<and> time w' = t \<and> patience w' \<le> patience w"
    and "sys_poll S ps ms w = (r, w') \<Longrightarrow> time w < time w' \<and> patience w' \<le> patience w \<and> (r = PFail EINTR \<longrightarrow> patience w' < patience w)"
    and "sys_send S fd d w = (q, w') \<Longrightarrow> time w \<le> time w' \<and> patience w' \<le> patience w \<and> (q = Fail EINTR \<longrightarrow> patience w' < patience w)"
    and "sys_recv S fd n w = (u, w') \<Longrightarrow> time w \<le> time w' \<and> patience w' \<le> patience w \<and> (u = RFail EINTR \<longrightarrow> patience w' < patience w)"
  using assms unfolding timed_def by blast+

lemma dlPoll_timed:
  assumes "timed S time patience" "dlPoll S dl ps w = (r, w')"
  shows "time w < time w' \<and> patience w' \<le> patience w \<and> (r = PFail EINTR \<longrightarrow> patience w' < patience w)"
proof -
  obtain ms w1 where w1: "pollMs S dl w = (ms, w1)" "sys_poll S ps ms w1 = (r, w')"
    using assms(2) by (auto simp: dlPoll_def split: prod.splits)
  have "time w \<le> time w1 \<and> patience w1 \<le> patience w"
    using w1(1) timed_calls(1) [OF assms(1)] by (auto simp: pollMs_def Let_def split: prod.splits if_splits)
  with timed_calls(2) [OF assms(1) w1(2)] show ?thesis by auto
qed

lemma expired_timed:
  assumes "timed S time patience" "expired S dl w = (x, w')" "dlEnabled dl"
  shows "time w \<le> time w' \<and> patience w' \<le> patience w \<and> (\<not> x \<longrightarrow> time w' < dlEnd dl)"
  using assms timed_calls(1) [OF assms(1)] by (fastforce simp: expired_def split: prod.splits)

text \<open>What is left before the watchdog fires, and the retries a signal can still cause.\<close>

definition budget :: "Deadline \<Rightarrow> ('w \<Rightarrow> int) \<Rightarrow> ('w \<Rightarrow> nat) \<Rightarrow> 'w \<Rightarrow> nat" where
  "budget dl time patience w = patience w + nat (dlEnd dl - time w)"

lemma budget_le: "time w \<le> time w' \<Longrightarrow> patience w' \<le> patience w \<Longrightarrow> budget dl time patience w' \<le> budget dl time patience w"
  by (simp add: budget_def)

lemma budget_less: "time w \<le> time w' \<Longrightarrow> patience w' < patience w \<Longrightarrow> budget dl time patience w' < budget dl time patience w"
  by (simp add: budget_def)

lemma poll_budget:
  assumes "timed S time patience" "dlPoll S dl ps w = (r, w1)" "expired S dl w1 = (False, w2)" "dlEnabled dl"
  shows "budget dl time patience w2 < budget dl time patience w"
  using dlPoll_timed [OF assms(1,2)] expired_timed [OF assms(1,3,4)] by (auto simp: budget_def)

lemma newDeadline_enabled: "newDeadline S w = (dl, w') \<Longrightarrow> 0 < timeoutSeconds (sys_getenv S) \<Longrightarrow> dlEnabled dl"
  by (auto simp: newDeadline_def Let_def split: prod.splits)

lemma sendStep_budget:
  assumes "timed S time patience" "dlEnabled dl" "sendStep S dl fd p (sent, v) = Inl (sent', v')"
  shows "length p - sent' + budget dl time patience v' < length p - sent + budget dl time patience v"
proof -
  obtain r w1 where r: "sys_send S fd (drop sent p) v = (r, w1)" by fastforce
  obtain pr w2 where w2: "dlPoll S dl [(fd, True)] w1 = (pr, w2)" by fastforce
  obtain x w3 where w3: "expired S dl w2 = (x, w3)" by fastforce
  note t = timed_calls(3) [OF assms(1) r]
  have s: "sent < length p" using assms(3) by (auto simp: sendStep_def split: if_splits)
  show ?thesis
  proof (cases r)
    case (Count n)
    then have "n > 0" "sent' = sent + n" "v' = w1" using assms(3) s r by (auto simp: sendStep_def split: if_splits)
    moreover from this have "budget dl time patience v' \<le> budget dl time patience v" using t by (simp add: budget_le)
    ultimately show ?thesis using s by auto
  next
    case (Fail e)
    show ?thesis
    proof (cases e)
      case EINTR
      then show ?thesis using assms(3) s r Fail t budget_less [of time v v' patience dl] by (auto simp: sendStep_def)
    next
      case EAGAIN
      then have "\<not> x" "sent' = sent" "v' = w3" using assms(3) s r Fail w2 w3 by (auto simp: sendStep_def split: if_splits)
      then show ?thesis using poll_budget [OF assms(1) w2 _ assms(2)] w3 t budget_le [of time v w1 patience dl] by force
    qed (use assms(3) s r Fail in \<open>auto simp: sendStep_def\<close>)
  qed
qed

lemma sendAll_returns:
  assumes "timed S time patience" "0 < timeoutSeconds (sys_getenv S)" and nb: "nonblocking S nb" "fd \<in> nb w"
  shows "\<exists>r. sendAll S fd p w = Some r"
proof -
  obtain dl w0 where dl: "newDeadline S w = (dl, w0)" by fastforce
  have en: "dlEnabled dl" using newDeadline_enabled [OF dl assms(2)] .
  note q = nonblockingD [OF nb(1)]
  have "fd \<in> nb w0" using quietly_calls(5) [OF q(2) dl] nb(2) by blast
  then have "\<exists>r. iterO (parked (sendParked S fd p) (sendStep S dl fd p)) (0, w0) = Some r"
    by (intro parked_total [where I = "\<lambda>(sent, v). fd \<in> nb v" and \<mu> = "\<lambda>(sent, v). length p - sent + budget dl time patience v"])
      (use sendStep_budget [OF assms(1) en] sendStep_quietly [OF q(2), where dl = dl and fd = fd and p = p] q(1) in
        \<open>fastforce simp: sendParked_def split: sum.splits\<close>)+
  then show ?thesis by (simp add: sendAll_def dl)
qed

lemma recvStep_budget:
  assumes "timed S time patience" "dlEnabled dl" "recvStep S dl fd n (got, v) = Inl (got', v')"
  shows "n - length got' + budget dl time patience v' < n - length got + budget dl time patience v"
proof -
  obtain r w1 where r: "sys_recv S fd (n - length got) v = (r, w1)" by fastforce
  obtain pr w2 where w2: "dlPoll S dl [(fd, False)] w1 = (pr, w2)" by fastforce
  obtain x w3 where w3: "expired S dl w2 = (x, w3)" by fastforce
  note t = timed_calls(4) [OF assms(1) r]
  have s: "length got < n" using assms(3) by (auto simp: recvStep_def split: if_splits)
  show ?thesis
  proof (cases r)
    case (Data d)
    then have "d \<noteq> []" "got' = got @ d" "v' = w1" using assms(3) s r by (auto simp: recvStep_def split: if_splits)
    then show ?thesis using s t budget_le [of time v v' patience dl] by (cases d) auto
  next
    case (RFail e)
    show ?thesis
    proof (cases e)
      case EINTR
      then show ?thesis using assms(3) s r RFail t budget_less [of time v v' patience dl] by (auto simp: recvStep_def)
    next
      case EAGAIN
      then have "\<not> x" "got' = got" "v' = w3" using assms(3) s r RFail w2 w3 by (auto simp: recvStep_def split: if_splits)
      then show ?thesis using poll_budget [OF assms(1) w2 _ assms(2)] w3 t budget_le [of time v w1 patience dl] by force
    qed (use assms(3) s r RFail in \<open>auto simp: recvStep_def\<close>)
  qed
qed

lemma recvAll_returns:
  assumes "timed S time patience" "0 < timeoutSeconds (sys_getenv S)" and nb: "nonblocking S nb" "fd \<in> nb w"
  shows "\<exists>r. recvAll S fd n w = Some r"
proof -
  obtain dl w0 where dl: "newDeadline S w = (dl, w0)" by fastforce
  have en: "dlEnabled dl" using newDeadline_enabled [OF dl assms(2)] .
  note q = nonblockingD [OF nb(1)]
  have "fd \<in> nb w0" using quietly_calls(5) [OF q(2) dl] nb(2) by blast
  then have "\<exists>r. iterO (parked (recvParked S fd n) (recvStep S dl fd n)) ([], w0) = Some r"
    by (intro parked_total [where I = "\<lambda>(got, v). fd \<in> nb v" and \<mu> = "\<lambda>(got, v). n - length got + budget dl time patience v"])
      (use recvStep_budget [OF assms(1) en] recvStep_quietly [OF q(2), where dl = dl and fd = fd and n = n] q(1) in
        \<open>fastforce simp: recvParked_def split: sum.splits\<close>)+
  then show ?thesis by (simp add: recvAll_def dl)
qed

lemma recvAll_parked: "0 < n \<Longrightarrow> sys_blocks S fd False (snd (newDeadline S w)) \<Longrightarrow> recvAll S fd n w = None"
  by (auto simp: recvAll_def recvParked_def intro!: parked_stuck split: prod.splits)

lemma duplexStep_budget:
  assumes "timed S time patience" "dlEnabled dl" "duplexStep S dl sfd sp rfd n (sent, got, v) = Inl (sent', got', v')"
  shows "budget dl time patience v' < budget dl time patience v"
proof -
  let ?s = "sent < length sp" and ?r = "length got < n"
  let ?ps = "(if ?s then [(sfd, True)] else []) @ (if ?r then [(rfd, False)] else [])"
  have True: "(?s \<or> ?r) = True" using assms(3) by (auto simp: duplexStep_def split: if_splits)
  obtain pr v1 where v1: "dlPoll S dl ?ps v = (pr, v1)" by fastforce
  obtain x v2 where v2: "expired S dl v1 = (x, v2)" by fastforce
  show ?thesis
  proof (cases pr)
    case (PFail e)
    have "duplexStep S dl sfd sp rfd n (sent, got, v) = (case e of EINTR \<Rightarrow> Inl (sent, got, v1) | _ \<Rightarrow> Inr (vcclSystemError, got, v1))"
      by (simp only: duplexStep_def Let_def prod.case v1 PFail pollret.case True if_True)
    then have "e = EINTR" "v' = v1" using assms(3) by (auto split: errno.splits)
    then show ?thesis using dlPoll_timed [OF assms(1) v1] PFail budget_less [of time v v1 patience dl] by simp
  next
    case (Revents fl)
    obtain res s3 v3 where v3: "(if ?s \<and> flagOf fl 0 then duplexSend S sfd sp sent v2 else (vcclSuccess, sent, v2)) = (res, s3, v3)"
      by (metis prod_cases3)
    obtain res' g4 v4 where v4: "(if ?r \<and> flagOf fl (if ?s then 1 else 0) then duplexRecv S rfd n got v3 else (vcclSuccess, got, v3)) = (res', g4, v4)"
      by (metis prod_cases3)
    have "duplexStep S dl sfd sp rfd n (sent, got, v) =
        (if x then Inr (vcclSystemError, got, v2) else if res \<noteq> vcclSuccess then Inr (res, got, v3)
         else if res' \<noteq> vcclSuccess then Inr (res', g4, v4) else Inl (s3, g4, v4))"
      by (simp only: duplexStep_def Let_def prod.case v1 v2 v3 v4 Revents pollret.case True if_True)
    then have x: "\<not> x" "v' = v4" using assms(3) by (auto split: if_splits)
    have "time v2 \<le> time v3 \<and> patience v3 \<le> patience v2"
      using v3 timed_calls(3) [OF assms(1)] by (auto simp: duplexSend_def split: if_splits prod.splits sysret.splits errno.splits)
    moreover have "time v3 \<le> time v4 \<and> patience v4 \<le> patience v3"
      using v4 timed_calls(4) [OF assms(1)] by (auto simp: duplexRecv_def split: if_splits prod.splits recvret.splits errno.splits)
    ultimately have "budget dl time patience v4 \<le> budget dl time patience v2" by (intro budget_le) auto
    with poll_budget [OF assms(1) v1 _ assms(2)] v2 x show ?thesis by force
  qed
qed

lemma duplexStep_quietly:
  assumes "quietly S R" "duplexStep S dl sfd sp rfd n (sent, got, v) = Inl (sent', got', v')"
  shows "R v v'"
proof -
  note q = quietly_calls [OF assms(1)]
  let ?s = "sent < length sp" and ?r = "length got < n"
  let ?ps = "(if ?s then [(sfd, True)] else []) @ (if ?r then [(rfd, False)] else [])"
  have True: "(?s \<or> ?r) = True" using assms(2) by (auto simp: duplexStep_def split: if_splits)
  obtain pr v1 where v1: "dlPoll S dl ?ps v = (pr, v1)" by fastforce
  obtain x v2 where v2: "expired S dl v1 = (x, v2)" by fastforce
  note R2 = q(7) [OF v1] q(6) [OF v2]
  show ?thesis
  proof (cases pr)
    case (PFail e)
    have "duplexStep S dl sfd sp rfd n (sent, got, v) = (case e of EINTR \<Rightarrow> Inl (sent, got, v1) | _ \<Rightarrow> Inr (vcclSystemError, got, v1))"
      by (simp only: duplexStep_def Let_def prod.case v1 PFail pollret.case True if_True)
    then show ?thesis using assms(2) R2 by (auto split: errno.splits)
  next
    case (Revents fl)
    obtain res s3 v3 where v3: "(if ?s \<and> flagOf fl 0 then duplexSend S sfd sp sent v2 else (vcclSuccess, sent, v2)) = (res, s3, v3)"
      by (metis prod_cases3)
    obtain res' g4 v4 where v4: "(if ?r \<and> flagOf fl (if ?s then 1 else 0) then duplexRecv S rfd n got v3 else (vcclSuccess, got, v3)) = (res', g4, v4)"
      by (metis prod_cases3)
    have "duplexStep S dl sfd sp rfd n (sent, got, v) =
        (if x then Inr (vcclSystemError, got, v2) else if res \<noteq> vcclSuccess then Inr (res, got, v3)
         else if res' \<noteq> vcclSuccess then Inr (res', g4, v4) else Inl (s3, g4, v4))"
      by (simp only: duplexStep_def Let_def prod.case v1 v2 v3 v4 Revents pollret.case True if_True)
    then have "v' = v4" using assms(2) by (auto split: if_splits)
    moreover have "R v2 v3" using v3 q(1,3) by (auto simp: duplexSend_def split: if_splits prod.splits sysret.splits errno.splits)
    moreover have "R v3 v4" using v4 q(1,4) by (auto simp: duplexRecv_def split: if_splits prod.splits recvret.splits errno.splits)
    ultimately show ?thesis using R2 q(2) by blast
  qed
qed

lemma duplexParked_nb:
  assumes "nonblocking S nb" "sfd \<in> nb v" "rfd \<in> nb v"
  shows "\<not> duplexParked S dl sfd sp rfd n (sent, got, v)"
proof -
  note q = quietly_calls [OF nonblockingD(2) [OF assms(1)]] and b = nonblockingD(1) [OF assms(1)]
  let ?s = "sent < length sp" and ?r = "length got < n"
  let ?ps = "(if ?s then [(sfd, True)] else []) @ (if ?r then [(rfd, False)] else [])"
  obtain pr v1 where v1: "dlPoll S dl ?ps v = (pr, v1)" by fastforce
  obtain x v2 where v2: "expired S dl v1 = (x, v2)" by fastforce
  have k: "sfd \<in> nb v2" "rfd \<in> nb v2" using q(7) [OF v1] q(6) [OF v2] assms(2,3) by blast+
  show ?thesis
  proof (cases pr)
    case (PFail e)
    then show ?thesis by (simp only: duplexParked_def Let_def prod.case v1 pollret.case simp_thms)
  next
    case (Revents fl)
    obtain res s3 v3 where v3: "(if ?s \<and> flagOf fl 0 then duplexSend S sfd sp sent v2 else (vcclSuccess, sent, v2)) = (res, s3, v3)"
      by (metis prod_cases3)
    have "nb v2 \<subseteq> nb v3" using v3 q(3) [of sfd "drop sent sp" v2]
      by (auto simp: duplexSend_def split: if_splits prod.splits sysret.splits errno.splits)
    then show ?thesis using b k
      by (auto simp only: duplexParked_def Let_def prod.case v1 v2 v3 Revents pollret.case)
  qed
qed

lemma duplexTransfer_returns:
  assumes "timed S time patience" "0 < timeoutSeconds (sys_getenv S)" and nb: "nonblocking S nb" "sfd \<in> nb w" "rfd \<in> nb w"
  shows "\<exists>r. duplexTransfer S sfd sp rfd n w = Some r"
proof -
  obtain dl w0 where dl: "newDeadline S w = (dl, w0)" by fastforce
  have en: "dlEnabled dl" using newDeadline_enabled [OF dl assms(2)] .
  note q = nonblockingD(2) [OF nb(1)]
  have "sfd \<in> nb w0" "rfd \<in> nb w0" using quietly_calls(5) [OF q dl] nb(2,3) by blast+
  then have "\<exists>r. iterO (parked (duplexParked S dl sfd sp rfd n) (duplexStep S dl sfd sp rfd n)) (0, [], w0) = Some r"
    by (intro parked_total [where I = "\<lambda>(sent, got, v). sfd \<in> nb v \<and> rfd \<in> nb v" and \<mu> = "\<lambda>(sent, got, v). budget dl time patience v"])
      (use duplexStep_budget [OF assms(1) en] duplexStep_quietly [OF q] duplexParked_nb [OF nb(1)] in \<open>fastforce split: prod.splits\<close>)+
  then show ?thesis by (simp add: duplexTransfer_def dl)
qed

subsection \<open>Connecting and accepting\<close>

text \<open>Time passes while the process sleeps or connects; the back-off starts at 20 ms and is never below that
  nor above 640 ms.\<close>

definition timedConnect :: "'w sys \<Rightarrow> ('w \<Rightarrow> int) \<Rightarrow> bool" where
  "timedConnect S time \<longleftrightarrow>
     (\<forall>w t w'. sys_clock S w = (t, w') \<longrightarrow> time w \<le> t \<and> time w' = t) \<and>
     (\<forall>f w r w'. sys_socket S f w = (r, w') \<longrightarrow> time w \<le> time w') \<and>
     (\<forall>fd a w r w'. sys_connect S fd a w = (r, w') \<longrightarrow> time w \<le> time w') \<and>
     (\<forall>fd w. time w \<le> time (sys_close S fd w)) \<and>
     (\<forall>ms w. time w + int ms * 1000000 \<le> time (sys_sleep S ms w))"

lemma connectStep_delay:
  "connectStep S addr e (d, w) = Inl (d', w') \<Longrightarrow> d \<in> {20, 40, 80, 160, 320, 640} \<Longrightarrow> d' \<in> {20, 40, 80, 160, 320, 640}"
  by (auto simp: connectStep_def split: prod.splits fdret.splits if_splits)

lemma connectStep_time:
  assumes "timedConnect S time" "connectStep S addr e (d, w) = Inl (d', w')" "20 \<le> d"
  shows "20 \<le> d' \<and> nat (e - time w') < nat (e - time w)"
proof -
  obtain s w1 where w1: "sys_socket S (ss_family addr) w = (Fd s, w1)"
    using assms(2) by (auto simp: connectStep_def split: prod.splits fdret.splits)
  obtain ok w2 where w2: "sys_connect S s addr w1 = (ok, w2)" by fastforce
  obtain t w3 where w3: "sys_clock S (closeQuiet S s w2) = (t, w3)" by fastforce
  have step: "\<not> ok" "t < e" "d' = (if d < 500 then d * 2 else d)" "w' = sys_sleep S d w3"
    using assms(2) w1 w2 w3 by (auto simp: connectStep_def not_le split: if_splits)
  have "time w \<le> time w1" "time w1 \<le> time w2" "time w2 \<le> time (closeQuiet S s w2)" "time (closeQuiet S s w2) \<le> t" "time w3 = t"
    "time w3 + int d * 1000000 \<le> time w'"
    using assms(1) w1 w2 w3 step(4) unfolding timedConnect_def closeQuiet_def by (metis order_refl)+
  moreover have "0 < int d * 1000000" using assms(3) by simp
  ultimately have "time w < e" "time w < time w'" using step(2) by linarith+
  then show ?thesis using step(3) assms(3) by auto
qed

lemma connectTo_returns:
  assumes "timedConnect S time"
  shows "\<exists>r. connectTo S addr ms w = Some r"
proof -
  obtain t w0 where w0: "sys_clock S w = (t, w0)" by fastforce
  let ?e = "t + ms * 1000000"
  have "\<exists>r. iter (connectStep S addr ?e) (20, w0) = Some r"
    by (rule iter_total [where I = "\<lambda>(d, v). 20 \<le> d" and \<mu> = "\<lambda>(d, v). nat (?e - time v)"])
      (use connectStep_time [OF assms] in auto)
  then show ?thesis by (simp add: connectTo_def w0)
qed

lemma acceptStep_budget:
  assumes "timed S time patience" "dlEnabled dl"
    and acc: "\<And>fd w r w'. sys_accept S fd w = (r, w') \<Longrightarrow> time w \<le> time w' \<and> patience w' \<le> patience w"
    and step: "acceptStep S dl fd v = Inl v'"
  shows "budget dl time patience v' < budget dl time patience v"
proof -
  obtain rc w1 where w1: "dlPoll S dl [(fd, False)] v = (rc, w1)" by fastforce
  obtain x w2 where w2: "expired S dl w1 = (x, w2)" by fastforce
  obtain a w3 where w3: "sys_accept S fd w2 = (a, w3)" by fastforce
  have x: "\<not> x" and v': "v' = w2 \<or> v' = w3"
    using step w1 w2 w3 by (auto simp: acceptStep_def split: pollret.splits if_splits fdret.splits errno.splits)
  have "budget dl time patience w2 < budget dl time patience v" using poll_budget [OF assms(1) w1 _ assms(2)] w2 x by simp
  moreover have "budget dl time patience w3 \<le> budget dl time patience w2" using acc [OF w3] by (simp add: budget_le)
  ultimately show ?thesis using v' by auto
qed

lemma acceptOne_returns:
  assumes "timed S time patience" "0 < timeoutSeconds (sys_getenv S)"
    and "\<And>fd w r w'. sys_accept S fd w = (r, w') \<Longrightarrow> time w \<le> time w' \<and> patience w' \<le> patience w"
    and nb: "\<And>w. \<not> sys_blocks S fd False w"
  shows "\<exists>r. acceptOne S fd w = Some r"
proof -
  obtain dl w0 where dl: "newDeadline S w = (dl, w0)" by fastforce
  have en: "dlEnabled dl" using newDeadline_enabled [OF dl assms(2)] .
  have "\<exists>r. iterO (parked (acceptParked S dl fd) (acceptStep S dl fd)) w0 = Some r"
    by (rule parked_total [where I = "\<lambda>_. True" and \<mu> = "budget dl time patience"])
      (use acceptStep_budget [OF assms(1) en assms(3)] nb in \<open>auto simp: acceptParked_def split: prod.splits pollret.splits\<close>)
  then show ?thesis by (simp add: acceptOne_def dl)
qed

subsection \<open>Addresses\<close>

lemma bit_htons: "n < 16 \<Longrightarrow> bit (htons w) n = bit w (if 8 \<le> n then n - 8 else n + 8)"
  by (auto simp: htons_def bit_simps add.commute dest: bit_imp_le_length)

lemma htons_htons [simp]: "htons (htons w) = w"
proof (rule bit_word_eqI)
  fix n assume "n < LENGTH(16)"
  then show "bit (htons (htons w)) n = bit w n" by (cases "8 \<le> n") (auto simp: bit_htons)
qed

text \<open>Addresses as the code makes them: one family, the other family's bytes zero.\<close>

definition wfAddr :: "SocketAddr \<Rightarrow> bool" where
  "wfAddr sa \<longleftrightarrow>
     (ss_family sa = AF_INET \<and> length (sin_addr sa) = 4 \<and> sin6_addr sa = replicate 16 0 \<and> slen sa = 16) \<or>
     (ss_family sa = AF_INET6 \<and> length (sin6_addr sa) = 16 \<and> sin_addr sa = replicate 4 0 \<and> slen sa = 28)"

lemma wire_roundtrip: "wfAddr sa \<Longrightarrow> fromWire (toWire sa) = sa"
  by (cases sa) (auto simp: wfAddr_def toWire_def fromWire_def zeroAddr_def AF_INET_def AF_INET6_def
      kWireFamilyIPv4_def kWireFamilyIPv6_def)

lemma toWire_size: "wfAddr sa \<Longrightarrow> length (waddr (toWire sa)) = 16"
  by (auto simp: wfAddr_def toWire_def AF_INET_def AF_INET6_def)

lemma port_roundtrip: "wfAddr sa \<Longrightarrow> sockPort (setPort p sa) = p \<and> wfAddr (setPort p sa)"
  by (auto simp: wfAddr_def sockPort_def setPort_def ntohs_def)

text \<open>The interface the scan picks.\<close>

definition inetAddrs :: "ifaddr list \<Rightarrow> (string \<times> byte list) list" where
  "inetAddrs ifs = [(ifa_name x, snd (the (ifa_addr x))). x \<leftarrow> ifs, ifa_addr x \<noteq> None \<and> fst (the (ifa_addr x)) = AF_INET]"

lemma scanIfs_named:
  "scanIfs (Some n) ifs c l = (case filter (\<lambda>(m, a). m = n) (inetAddrs ifs) of [] \<Rightarrow> (c, l) | (m, a) # _ \<Rightarrow> (Some a, l))"
  by (induction ifs) (auto simp: inetAddrs_def split: option.splits)

definition firstOf :: "'a option \<Rightarrow> 'a list \<Rightarrow> 'a option" where
  "firstOf x xs = (case x of Some y \<Rightarrow> Some y | None \<Rightarrow> (case xs of [] \<Rightarrow> None | y # _ \<Rightarrow> Some y))"

lemma scanIfs_any:
  "scanIfs None ifs c l =
     (firstOf c (filter (\<lambda>a. hd a \<noteq> 127) (map snd (inetAddrs ifs))), firstOf l (filter (\<lambda>a. hd a = 127) (map snd (inetAddrs ifs))))"
  by (induction ifs arbitrary: c l) (auto simp: inetAddrs_def firstOf_def split: option.splits)

end
