(* ===== verification/Vccl_Tcp_Spec.thy ===== *)
theory Vccl_Tcp_Spec
  imports Vccl_Tcp Vccl_Socket_Spec Vccl_Exchange
begin

text \<open>
  The TCP transport implements the contract of \<^verbatim>\<open>transport.h\<close>. A batch that succeeds has written, on the socket of
  each peer, the send buffers of the operations for that peer in issue order and nothing else, and the receive
  buffers of its receives from that peer hold what was read from the socket, in issue order. A batch always returns
  while the watchdog is on. When the sockets of two ranks are connected, what a group of ranks exchange by batches is
  what \<open>exchanged\<close> says of the abstract transport.
\<close>

subsection \<open>Race-free buffers\<close>

lemma race_disj:
  "opsRaceFree ops \<Longrightarrow> x \<in> set ops \<Longrightarrow> y \<in> set ops \<Longrightarrow> x \<noteq> y \<Longrightarrow> \<not> (isSend x \<and> isSend y) \<Longrightarrow>
   disj (buf x) (bytes x) (buf y) (bytes y)"
  by (induction ops) (auto simp: list_all_iff disj_sym)

lemma race_distinct: "opsRaceFree ops \<Longrightarrow> distinct (opsKey ops (p, False))"
proof (induction ops)
  case (Cons x ops)
  have "x \<notin> set ops" if "\<not> isSend x" "bytes x \<noteq> 0"
    using Cons.prems that by (auto simp: list_all_iff disj_def)
  with Cons show ?case by (auto simp: opsKey_def opKey_def)
qed (simp add: opsKey_def)

subsection \<open>What a queue has moved\<close>

definition opBytes :: "mem \<Rightarrow> P2pOp \<Rightarrow> byte list" where
  "opBytes m x = rd m (buf x) (bytes x)"

definition headBytes :: "mem \<Rightarrow> Active list \<Rightarrow> byte list" where
  "headBytes m q = (case q of [] \<Rightarrow> [] | a # _ \<Rightarrow> rd m (buf (aop a)) (adone a))"

text \<open>The operations \<open>xs\<close> of a queue are those finished, \<open>fin\<close>, and those still in it.\<close>

definition queueOk :: "P2pOp list \<Rightarrow> P2pOp list \<Rightarrow> Active list \<Rightarrow> bool" where
  "queueOk xs fin q \<longleftrightarrow> xs = fin @ map aop q \<and> (\<forall>a\<in>set (tl q). adone a = 0) \<and>
     (q \<noteq> [] \<longrightarrow> adone (hd q) < bytes (aop (hd q)))"

definition strm :: "('w \<Rightarrow> int \<Rightarrow> byte list) \<Rightarrow> ('w \<Rightarrow> int \<Rightarrow> byte list) \<Rightarrow> int list \<Rightarrow> 'w \<Rightarrow> qkey \<Rightarrow> byte list" where
  "strm outs ins fds w k = (if snd k then outs w (fds ! fst k) else ins w (fds ! fst k))"

definition moved1 ::
  "('w \<Rightarrow> int \<Rightarrow> byte list) \<Rightarrow> ('w \<Rightarrow> int \<Rightarrow> byte list) \<Rightarrow> int list \<Rightarrow> P2pOp list \<Rightarrow> 'w \<Rightarrow> mem \<Rightarrow> 'w \<Rightarrow> (qkey \<Rightarrow> Active list) \<Rightarrow> qkey \<Rightarrow> bool" where
  "moved1 outs ins fds ops w0 m w qs k \<longleftrightarrow>
     (\<exists>fin. queueOk (opsKey ops k) fin (qs k) \<and>
        strm outs ins fds w k = strm outs ins fds w0 k @ concat (map (opBytes m) fin) @ headBytes m (qs k))"

definition batchInv ::
  "('w \<Rightarrow> int \<Rightarrow> byte list) \<Rightarrow> ('w \<Rightarrow> int \<Rightarrow> byte list) \<Rightarrow> int list \<Rightarrow> qkey list \<Rightarrow> P2pOp list \<Rightarrow> mem \<Rightarrow> 'w \<Rightarrow> 'w batchSt \<Rightarrow> bool" where
  "batchInv outs ins fds ks ops m0 w0 st \<longleftrightarrow>
     (\<forall>k\<in>set ks. moved1 outs ins fds ops w0 (bmem st) (bworld st) (queues st) k) \<and>
     remaining st = (\<Sum>k\<leftarrow>ks. length (queues st k)) \<and>
     (\<forall>p. p \<notin> recvBufs ops \<longrightarrow> bmem st p = m0 p)"

definition keysOk :: "int list \<Rightarrow> qkey list \<Rightarrow> bool" where
  "keysOk fds ks \<longleftrightarrow> distinct ks \<and> inj_on (\<lambda>p. fds ! p) (fst ` set ks)"

lemma strm_other:
  assumes "keysOk fds ks" "k \<in> set ks" "k' \<in> set ks" "k' \<noteq> k"
  shows "snd k \<Longrightarrow> outs w' = (outs w)(fds ! fst k := d) \<Longrightarrow> ins w' = ins w \<Longrightarrow> strm outs ins fds w' k' = strm outs ins fds w k'"
    and "\<not> snd k \<Longrightarrow> ins w' = (ins w)(fds ! fst k := d) \<Longrightarrow> outs w' = outs w \<Longrightarrow> strm outs ins fds w' k' = strm outs ins fds w k'"
proof -
  have "snd k' = snd k \<Longrightarrow> fds ! fst k' \<noteq> fds ! fst k"
    using assms inj_on_eq_iff [of "\<lambda>p. fds ! p" "fst ` set ks" "fst k'" "fst k"] by (auto simp: keysOk_def prod_eq_iff)
  then show "snd k \<Longrightarrow> outs w' = (outs w)(fds ! fst k := d) \<Longrightarrow> ins w' = ins w \<Longrightarrow> strm outs ins fds w' k' = strm outs ins fds w k'"
    and "\<not> snd k \<Longrightarrow> ins w' = (ins w)(fds ! fst k := d) \<Longrightarrow> outs w' = outs w \<Longrightarrow> strm outs ins fds w' k' = strm outs ins fds w k'"
    by (auto simp: strm_def)
qed

text \<open>Writing into the rest of the receive at the head of queue \<open>k\<close> changes nothing that was moved before.\<close>

lemma opsKey_sub: "x \<in> set (opsKey ops k) \<Longrightarrow> x \<in> set ops \<and> opKey x = k \<and> bytes x \<noteq> 0"
  by (auto simp: opsKey_def)

lemma recv_keeps:
  assumes "opsRaceFree ops" "x \<in> set ops" "\<not> isSend x" "o' + length d \<le> bytes x" "y \<in> set ops" "y \<noteq> x" "n \<le> bytes y"
  shows "rd (wr m (buf x + o') d) (buf y) n = rd m (buf y) n"
proof -
  have "disj (buf x) (bytes x) (buf y) (bytes y)" using race_disj [OF assms(1,2,5)] assms(3,6) by auto
  then have "disj (buf x + o') (length d) (buf y) n" using assms(4,7) by (auto simp: disj_def)
  then show ?thesis by (rule rd_wr_disj)
qed

lemma moved1_recv_other:
  assumes "opsRaceFree ops" "x \<in> set ops" "\<not> isSend x" "o' + length d \<le> bytes x" "opKey x \<noteq> k'"
    and "strm outs ins fds w' k' = strm outs ins fds w k'" "qs' k' = qs k'"
    and "moved1 outs ins fds ops w0 m w qs k'"
  shows "moved1 outs ins fds ops w0 (wr m (buf x + o') d) w' qs' k'"
proof -
  obtain fin where fin: "queueOk (opsKey ops k') fin (qs k')"
    "strm outs ins fds w k' = strm outs ins fds w0 k' @ concat (map (opBytes m) fin) @ headBytes m (qs k')"
    using assms(8) by (auto simp: moved1_def)
  have keep: "rd (wr m (buf x + o') d) (buf y) n = rd m (buf y) n" if "y \<in> set (opsKey ops k')" "n \<le> bytes y" for y n
    using recv_keeps [OF assms(1-4), of y n m] opsKey_sub [OF that(1)] that(2) assms(5) by auto
  have mem: "set fin \<subseteq> set (opsKey ops k')" "q \<in> set (qs k') \<Longrightarrow> aop q \<in> set (opsKey ops k')" for q
    using fin(1) by (auto simp: queueOk_def)
  have "map (opBytes (wr m (buf x + o') d)) fin = map (opBytes m) fin" using mem(1) keep by (auto simp: opBytes_def)
  moreover have "headBytes (wr m (buf x + o') d) (qs k') = headBytes m (qs k')"
    using fin(1) mem(2) keep by (cases "qs k'") (auto simp: headBytes_def queueOk_def)
  ultimately show ?thesis using fin assms(6,7) unfolding moved1_def by (intro exI [of _ fin]) (simp cong: map_cong)
qed

lemma moved1_send_other:
  assumes "strm outs ins fds w' k' = strm outs ins fds w k'" "qs' k' = qs k'" "moved1 outs ins fds ops w0 m w qs k'"
  shows "moved1 outs ins fds ops w0 m w' qs' k'"
  using assms by (simp add: moved1_def)

text \<open>The head of queue \<open>k\<close> moves \<open>n\<close> more bytes.\<close>

definition nextQueue :: "Active \<Rightarrow> Active list \<Rightarrow> nat \<Rightarrow> Active list" where
  "nextQueue a q n = (if adone a + n = bytes (aop a) then q else a\<lparr>adone := adone a + n\<rparr> # q)"

lemma batchProgress_next:
  assumes "queues st k = a # q"
  shows "queues (batchProgress k n st) = (queues st)(k := nextQueue a q n)"
    "remaining (batchProgress k n st) = (if adone a + n = bytes (aop a) then remaining st - 1 else remaining st)"
    "bmem (batchProgress k n st) = bmem st" "bworld (batchProgress k n st) = bworld st" "progressed (batchProgress k n st)"
  using assms by (simp_all add: batchProgress_def nextQueue_def Let_def)

lemma moved1_progress:
  assumes "queueOk (opsKey ops k) fin (a # q)" "adone a + n \<le> bytes (aop a)"
    and "strm outs ins fds w k = strm outs ins fds w0 k @ concat (map (opBytes m) fin) @ rd m (buf (aop a)) (adone a)"
    and "strm outs ins fds w' k = strm outs ins fds w k @ rd m' (buf (aop a) + adone a) n"
    and "map (opBytes m') fin = map (opBytes m) fin" "rd m' (buf (aop a)) (adone a) = rd m (buf (aop a)) (adone a)"
    and "qs k = nextQueue a q n"
  shows "moved1 outs ins fds ops w0 m' w' qs k"
proof -
  have s: "strm outs ins fds w' k = strm outs ins fds w0 k @ concat (map (opBytes m') fin) @ rd m' (buf (aop a)) (adone a + n)"
    unfolding assms(3-5) rd_add assms(6) by simp
  show ?thesis
  proof (cases "adone a + n = bytes (aop a)")
    case True
    have "headBytes m' q = []" using assms(1) by (cases q) (auto simp: headBytes_def queueOk_def)
    moreover have "bytes (aop b) > 0" if "b \<in> set q" for b
      using assms(1) that opsKey_sub [of "aop b" ops k] by (auto simp: queueOk_def)
    then have "queueOk (opsKey ops k) (fin @ [aop a]) q" using assms(1) by (cases q) (auto simp: queueOk_def)
    ultimately show ?thesis using s True assms(7) unfolding moved1_def
      by (intro exI [of _ "fin @ [aop a]"]) (simp add: nextQueue_def opBytes_def)
  next
    case False
    then show ?thesis using s assms(1,2,7) unfolding moved1_def
      by (intro exI [of _ fin]) (auto simp: nextQueue_def headBytes_def queueOk_def)
  qed
qed

lemma remaining_next:
  assumes "distinct ks" "k \<in> set ks" "qs k = a # q"
  shows "(\<Sum>j\<leftarrow>ks. length ((qs(k := nextQueue a q n)) j)) =
    (if adone a + n = bytes (aop a) then (\<Sum>j\<leftarrow>ks. length (qs j)) - 1 else (\<Sum>j\<leftarrow>ks. length (qs j)))"
proof -
  have "(\<Sum>j\<leftarrow>ks. length ((qs(k := x)) j)) + length (qs k) = (\<Sum>j\<leftarrow>ks. length (qs j)) + length x" for x
    using assms(1,2)
  proof (induction ks)
    case (Cons j ks)
    show ?case
    proof (cases "j = k")
      case True
      then have "map (\<lambda>j. length ((qs(k := x)) j)) ks = map (\<lambda>j. length (qs j)) ks" using Cons.prems(1) by auto
      then show ?thesis using True by (simp del: fun_upd_apply map_eq_conv) simp
    qed (use Cons in auto)
  qed simp
  from this [of "nextQueue a q n"] show ?thesis using assms(3)
    by (cases "adone a + n = bytes (aop a)") (simp_all add: nextQueue_def del: fun_upd_apply)
qed

lemma streams_none:
  "batchInv outs ins fds ks ops m0 w0 st \<Longrightarrow> outs w1 = outs (bworld st) \<Longrightarrow> ins w1 = ins (bworld st) \<Longrightarrow>
   batchInv outs ins fds ks ops m0 w0 (st\<lparr>bworld := w1\<rparr>) \<and> batchInv outs ins fds ks ops m0 w0 (st\<lparr>berrno := e, bworld := w1\<rparr>)"
  by (simp add: batchInv_def moved1_def strm_def [abs_def] cong: if_cong)

lemma batchQueue_inv:
  assumes "streams S outs ins" "keysOk fds ks" "k \<in> set ks" "opsRaceFree ops" "batchInv outs ins fds ks ops m0 w0 st"
  shows "case batchQueue S fds k st of Inl st' \<Rightarrow> batchInv outs ins fds ks ops m0 w0 st' | Inr st' \<Rightarrow> batchInv outs ins fds ks ops m0 w0 st'"
proof (cases "queues st k")
  case Nil
  then show ?thesis using assms(5) by (simp add: batchQueue_def)
next
  case (Cons a q)
  let ?fd = "fds ! fst k" and ?b = "buf (aop a)" and ?left = "bytes (aop a) - adone a"
  obtain fin where fin: "queueOk (opsKey ops k) fin (a # q)"
    "strm outs ins fds (bworld st) k = strm outs ins fds w0 k @ concat (map (opBytes (bmem st)) fin) @ rd (bmem st) ?b (adone a)"
    using assms(3,5) Cons by (auto simp: batchInv_def moved1_def headBytes_def)
  have a: "aop a \<in> set ops" "opKey (aop a) = k" "adone a < bytes (aop a)" "fin @ [aop a] @ map aop q = opsKey ops k"
    using fin(1) opsKey_sub [of "aop a" ops k] by (auto simp: queueOk_def)
  have other: "moved1 outs ins fds ops w0 (bmem st) (bworld st) (queues st) k'" if "k' \<in> set ks" for k'
    using assms(5) that by (simp add: batchInv_def)
  have rem: "remaining st = (\<Sum>j\<leftarrow>ks. length (queues st j))" and out: "\<And>p. p \<notin> recvBufs ops \<Longrightarrow> bmem st p = m0 p"
    using assms(5) by (simp_all add: batchInv_def)
  have dist: "distinct ks" using assms(2) by (simp add: keysOk_def)
  note rn = remaining_next [OF dist assms(3), of "queues st" a q, OF Cons]
  have prog: "batchInv outs ins fds ks ops m0 w0 (batchProgress k n (st\<lparr>bmem := m', bworld := w1\<rparr>))"
    if "moved1 outs ins fds ops w0 m' w1 ((queues st)(k := nextQueue a q n)) k"
      "\<And>k'. k' \<in> set ks \<Longrightarrow> k' \<noteq> k \<Longrightarrow> moved1 outs ins fds ops w0 m' w1 ((queues st)(k := nextQueue a q n)) k'"
      "\<And>p. p \<notin> recvBufs ops \<Longrightarrow> m' p = bmem st p" for n m' w1
    using that Cons rn [of n] rem out
    by (auto simp: batchInv_def batchProgress_next [of "st\<lparr>bmem := m', bworld := w1\<rparr>" k a q])
  show ?thesis
  proof (cases "isSend (aop a)")
    case True
    obtain r w1 where r: "sys_send S ?fd (rd (bmem st) (?b + adone a) ?left) (bworld st) = (r, w1)" by fastforce
    show ?thesis
    proof (cases r)
      case (Count n)
      have n: "n \<le> ?left" "outs w1 = (outs (bworld st))(?fd := outs (bworld st) ?fd @ rd (bmem st) (?b + adone a) n)" "ins w1 = ins (bworld st)"
        using streams_send(1) [OF assms(1) r [unfolded Count]] rd_sub [of 0 n ?left "bmem st" "?b + adone a"] by auto
      have k: "snd k" using True a(2) by (auto simp: opKey_def)
      have "moved1 outs ins fds ops w0 (bmem st) w1 ((queues st)(k := nextQueue a q n)) k"
        using n a(3) k by (intro moved1_progress [OF fin(1) _ fin(2), of n]) (auto simp: strm_def)
      moreover have "moved1 outs ins fds ops w0 (bmem st) w1 ((queues st)(k := nextQueue a q n)) k'" if "k' \<in> set ks" "k' \<noteq> k" for k'
        by (rule moved1_send_other [OF strm_other(1) [where d = "outs (bworld st) ?fd @ rd (bmem st) (?b + adone a) n", OF assms(2,3) that k n(2,3)] _ other [OF that(1)]])
          (use that in simp)
      ultimately have "batchInv outs ins fds ks ops m0 w0 (batchProgress k n (st\<lparr>bworld := w1\<rparr>))"
        using prog [of "bmem st" w1 n] by simp
      moreover have "batchInv outs ins fds ks ops m0 w0 (st\<lparr>bworld := w1\<rparr>)" if "n = 0"
        using streams_none [OF assms(5), of w1] n that by simp
      ultimately show ?thesis using Cons True r Count by (simp add: batchQueue_def batchIdle_def Let_def)
    next
      case (Fail e)
      then show ?thesis using Cons True r streams_none [OF assms(5), of w1 e] streams_send(2) [OF assms(1), of ?fd _ "bworld st" e w1]
        by (auto simp: batchQueue_def batchIdle_def Let_def)
    qed
  next
    case False
    obtain r w1 where r: "sys_recv S ?fd ?left (bworld st) = (r, w1)" by fastforce
    show ?thesis
    proof (cases r)
      case (Data d)
      let ?m = "wr (bmem st) (?b + adone a) d"
      have d: "length d \<le> ?left" "ins w1 = (ins (bworld st))(?fd := ins (bworld st) ?fd @ d)" "outs w1 = outs (bworld st)"
        using streams_recv(1) [OF assms(1) r [unfolded Data]] by auto
      have fits: "adone a + length d \<le> bytes (aop a)" using d(1) a(3) by simp
      have k: "\<not> snd k" using False a(2) by (auto simp: opKey_def)
      have "distinct (opsKey ops k)" using race_distinct [OF assms(4), of "fst k"] k by (metis prod.collapse)
      then have "aop a \<notin> set fin" using a(4) by (metis append_Cons distinct.simps(2) distinct_append disjoint_iff list.set_intros(1))
      moreover have "set fin \<subseteq> set ops" using a(4) opsKey_sub by (metis subsetI set_append UnI1)
      ultimately have keep: "map (opBytes ?m) fin = map (opBytes (bmem st)) fin"
        using recv_keeps [OF assms(4) a(1) False fits] by (fastforce simp: opBytes_def)
      have "rd ?m ?b (adone a) = rd (bmem st) ?b (adone a)" by (rule rd_wr_disj) (auto simp: disj_def)
      moreover have "rd ?m (?b + adone a) (length d) = d" by (simp add: rd_wr_same)
      ultimately have "moved1 outs ins fds ops w0 ?m w1 ((queues st)(k := nextQueue a q (length d))) k"
        using d a(3) k keep by (intro moved1_progress [OF fin(1) _ fin(2), of "length d"]) (auto simp: strm_def)
      moreover have "moved1 outs ins fds ops w0 ?m w1 ((queues st)(k := nextQueue a q (length d))) k'" if "k' \<in> set ks" "k' \<noteq> k" for k'
        by (rule moved1_recv_other [OF assms(4) a(1) False fits _
              strm_other(2) [where d = "ins (bworld st) ?fd @ d", OF assms(2,3) that k d(2,3)] _ other [OF that(1)]])
          (use that a(2) in auto)
      moreover have "?m p = bmem st p" if "p \<notin> recvBufs ops" for p
      proof -
        have "\<not> (?b \<le> p \<and> p < ?b + bytes (aop a))" using that a(1) False by (auto simp: recvBufs_def)
        then show ?thesis using fits by (auto simp: wr_def)
      qed
      ultimately have "batchInv outs ins fds ks ops m0 w0 (batchProgress k (length d) (st\<lparr>bmem := ?m, bworld := w1\<rparr>))"
        by (intro prog)
      moreover have "batchInv outs ins fds ks ops m0 w0 (st\<lparr>bworld := w1\<rparr>)" if "d = []"
        using streams_none [OF assms(5), of w1] d that by simp
      ultimately show ?thesis using Cons False r Data by (simp add: batchQueue_def Let_def)
    next
      case (RFail e)
      then show ?thesis using Cons False r streams_none [OF assms(5), of w1 e] streams_recv(2) [OF assms(1), of ?fd _ "bworld st" e w1]
        by (auto simp: batchQueue_def batchIdle_def Let_def)
    qed
  qed
qed

subsection \<open>The whole batch\<close>

lemma batchRound_inv:
  assumes "streams S outs ins" "keysOk fds ks" "opsRaceFree ops" "batchInv outs ins fds ks ops m0 w0 st" "set js \<subseteq> set ks"
  shows "case batchRound S fds js st of Inl st' \<Rightarrow> batchInv outs ins fds ks ops m0 w0 st' | Inr st' \<Rightarrow> batchInv outs ins fds ks ops m0 w0 st'"
  using assms(4,5)
proof (induction js arbitrary: st)
  case (Cons k js)
  then show ?case using batchQueue_inv [OF assms(1,2) _ assms(3) Cons.prems(1), of k]
    by (cases "batchQueue S fds k st") auto
qed simp

lemma batchInv_upd [simp]:
  "batchInv outs ins fds ks ops m0 w0 (st\<lparr>progressed := b\<rparr>) = batchInv outs ins fds ks ops m0 w0 st"
  by (simp add: batchInv_def)

definition batchResult ::
  "('w \<Rightarrow> int \<Rightarrow> byte list) \<Rightarrow> ('w \<Rightarrow> int \<Rightarrow> byte list) \<Rightarrow> int list \<Rightarrow> qkey list \<Rightarrow> P2pOp list \<Rightarrow> mem \<Rightarrow> 'w \<Rightarrow> vcclResult_t \<times> mem \<times> 'w \<Rightarrow> bool" where
  "batchResult outs ins fds ks ops m0 w0 = (\<lambda>(res, m, w).
     (\<forall>p. p \<notin> recvBufs ops \<longrightarrow> m p = m0 p) \<and>
     (res = vcclSystemError \<or> res = vcclSuccess \<and>
        (\<forall>k\<in>set ks. strm outs ins fds w k = strm outs ins fds w0 k @ concat (map (opBytes m) (opsKey ops k)))))"

lemma batchStep_inv:
  assumes "streams S outs ins" "keysOk fds ks" "opsRaceFree ops" "batchInv outs ins fds ks ops m0 w0 st" "set js \<subseteq> set ks"
  shows "case batchStep S ab dl fds js st of Inl st' \<Rightarrow> batchInv outs ins fds ks ops m0 w0 st' | Inr r \<Rightarrow> batchResult outs ins fds ks ops m0 w0 r"
proof (cases "remaining st > 0")
  case True
  have inv: "batchInv outs ins fds ks ops m0 w0 (st\<lparr>progressed := False\<rparr>)" using assms(4) by simp
  note round = batchRound_inv [OF assms(1-3) inv assms(5)]
  have err: "batchResult outs ins fds ks ops m0 w0 (vcclSystemError, bmem st', w)" if "batchInv outs ins fds ks ops m0 w0 st'" for st' w
    using that by (simp add: batchInv_def batchResult_def)
  show ?thesis
  proof (cases "batchRound S fds js (st\<lparr>progressed := False\<rparr>)")
    case (Inl st1)
    then show ?thesis using True round err by (simp add: batchStep_def)
  next
    case (Inr st1)
    then have i1: "batchInv outs ins fds ks ops m0 w0 st1" using round by simp
    let ?ps = "map (\<lambda>k. (fds ! fst k, snd k)) (filter (\<lambda>k. queues st1 k \<noteq> []) js)"
    obtain r w1 where w1: "dlPoll S dl ?ps (bworld st1) = (r, w1)" by fastforce
    obtain x w2 where w2: "expired S dl w1 = (x, w2)" by fastforce
    have "outs w2 = outs (bworld st1)" "ins w2 = ins (bworld st1)"
      using streams_clock(3) [OF assms(1) w1] streams_clock(2) [OF assms(1) w2] by auto
    then have "batchInv outs ins fds ks ops m0 w0 (st1\<lparr>bworld := w2, berrno := en\<rparr>)" for en
      using streams_none [OF i1, of w2 en] by (simp add: batchInv_def)
    then show ?thesis using True Inr w1 w2 i1 err [OF i1] by (auto simp: batchStep_def)
  qed
next
  case False
  then have "\<forall>k\<in>set ks. queues st k = []" using assms(4) by (auto simp: batchInv_def)
  then have "\<forall>k\<in>set ks. strm outs ins fds (bworld st) k = strm outs ins fds w0 k @ concat (map (opBytes (bmem st)) (opsKey ops k))"
    using assms(4) by (force simp: batchInv_def moved1_def queueOk_def headBytes_def)
  then show ?thesis using False assms(4) by (simp add: batchStep_def batchInv_def batchResult_def)
qed

definition allKeys :: "nat \<Rightarrow> qkey list" where
  "allKeys n = List.product [0..<n] [False, True]"

lemma allKeys_keysOk: "distinct fds \<Longrightarrow> keysOk fds (allKeys (length fds))"
  by (auto simp: keysOk_def allKeys_def distinct_product inj_on_def nth_eq_iff_index_eq)

lemma sum_opsKey:
  "distinct ks \<Longrightarrow> opKey ` set ops \<subseteq> set ks \<Longrightarrow> (\<Sum>k\<leftarrow>ks. length (opsKey ops k)) = length (filter (\<lambda>x. bytes x \<noteq> 0) ops)"
proof (induction ops)
  case (Cons x ops)
  have "(\<Sum>k\<leftarrow>ks. length (opsKey (x # ops) k)) = (\<Sum>k\<leftarrow>ks. (if k = opKey x then (if bytes x \<noteq> 0 then 1 else 0) else 0) + length (opsKey ops k))"
    by (rule arg_cong [where f = sum_list]) (auto simp: opsKey_def)
  also have "\<dots> = (\<Sum>k\<leftarrow>ks. if k = opKey x then (if bytes x \<noteq> 0 then 1 else 0) else 0) + (\<Sum>k\<leftarrow>ks. length (opsKey ops k))"
    by (rule sum_list_addf)
  also have "(\<Sum>k\<leftarrow>ks. if k = opKey x then (if bytes x \<noteq> 0 then 1 else 0) else (0::nat)) = (if bytes x \<noteq> 0 then 1 else 0)"
    using Cons.prems by (simp add: sum_list_distinct_conv_sum_set)
  finally show ?case using Cons by simp
qed (simp add: opsKey_def)

lemma batchInv_start:
  assumes "distinct fds" "\<And>x. x \<in> set ops \<Longrightarrow> peer x < length fds" "outs w1 = outs w0" "ins w1 = ins w0"
  shows "batchInv outs ins fds (allKeys (length fds)) ops m w0
    \<lparr>queues = batchQueues ops, remaining = length (filter (\<lambda>x. bytes x \<noteq> 0) ops), progressed = False, bmem = m, berrno = en, bworld = w1\<rparr>"
proof -
  have "opKey ` set ops \<subseteq> set (allKeys (length fds))" using assms(2) by (auto simp: allKeys_def opKey_def)
  moreover have "distinct (allKeys (length fds))" by (simp add: allKeys_def distinct_product)
  ultimately have "(\<Sum>k\<leftarrow>allKeys (length fds). length (batchQueues ops k)) = length (filter (\<lambda>x. bytes x \<noteq> 0) ops)"
    using sum_opsKey by (simp add: batchQueues_def)
  moreover have "queueOk (opsKey ops k) [] (batchQueues ops k) \<and> headBytes m (batchQueues ops k) = []" for k
    using opsKey_sub [of _ ops k] by (cases "opsKey ops k") (auto simp: queueOk_def batchQueues_def comp_def headBytes_def)
  ultimately show ?thesis using assms(3,4) unfolding batchInv_def moved1_def
    by (auto simp: strm_def intro!: exI [of _ "[]"])
qed

lemma batchKeys_sub: "(\<And>x. x \<in> set ops \<Longrightarrow> peer x < n) \<Longrightarrow> set (batchKeys ops) \<subseteq> set (allKeys n)"
  by (auto simp: batchKeys_def allKeys_def opKey_def)

lemma tcpBatch_result:
  assumes "streams S outs ins" "distinct fds" "opsRaceFree ops" "\<And>x. x \<in> set ops \<Longrightarrow> peer x < length fds"
    and "tcpBatch S ab fds en ops m w = Some r"
  shows "batchResult outs ins fds (allKeys (length fds)) ops m w r"
proof -
  obtain dl w0 where dl: "newDeadline S w = (dl, w0)" by fastforce
  let ?st = "\<lparr>queues = batchQueues ops, remaining = length (filter (\<lambda>x. bytes x \<noteq> 0) ops), progressed = False, bmem = m, berrno = en, bworld = w0\<rparr>"
  have sub: "set (batchKeys ops) \<subseteq> set (allKeys (length fds))" by (rule batchKeys_sub [OF assms(4)])
  have "iter (batchStep S ab dl fds (batchKeys ops)) ?st = Some r"
    using assms(5) by (auto simp: tcpBatch_def dl intro: parked_iter)
  then show ?thesis
  proof (rule iter_inv [where I = "batchInv outs ins fds (allKeys (length fds)) ops m w"])
    show "batchInv outs ins fds (allKeys (length fds)) ops m w ?st"
      using streams_clock(1) [OF assms(1) dl] assms(4) by (intro batchInv_start [OF assms(2)]) auto
  next
    fix st st' assume I: "batchInv outs ins fds (allKeys (length fds)) ops m w st" and step: "batchStep S ab dl fds (batchKeys ops) st = Inl st'"
    from step batchStep_inv [OF assms(1) allKeys_keysOk [OF assms(2)] assms(3) I sub, where ab = ab and dl = dl]
    show "batchInv outs ins fds (allKeys (length fds)) ops m w st'" by simp
  next
    fix st r assume I: "batchInv outs ins fds (allKeys (length fds)) ops m w st" and step: "batchStep S ab dl fds (batchKeys ops) st = Inr r"
    from step batchStep_inv [OF assms(1) allKeys_keysOk [OF assms(2)] assms(3) I sub, where ab = ab and dl = dl]
    show "batchResult outs ins fds (allKeys (length fds)) ops m w r" by simp
  qed
qed

text \<open>The send buffers are not written, so what was sent is what they held at the call.\<close>

lemma opsKey_dirs: "opsKey ops (p, True) = sendsTo ops p" "opsKey ops (p, False) = recvsFrom ops p"
  by (auto simp: opsKey_def opKey_def sendsTo_def recvsFrom_def intro!: filter_cong)

lemma send_unchanged:
  assumes "opsRaceFree ops" "x \<in> set ops" "isSend x" "\<And>p. p \<notin> recvBufs ops \<Longrightarrow> m' p = m p"
  shows "opBytes m' x = opBytes m x"
  unfolding opBytes_def
proof (rule rd_cong)
  fix a assume a: "buf x \<le> a" "a < buf x + bytes x"
  have "a \<notin> recvBufs ops"
  proof
    assume "a \<in> recvBufs ops"
    then obtain y where y: "y \<in> set ops" "\<not> isSend y" "buf y \<le> a" "a < buf y + bytes y" by (auto simp: recvBufs_def)
    then have "disj (buf x) (bytes x) (buf y) (bytes y)" using race_disj [OF assms(1,2), of y] assms(3) by auto
    with a y show False by (auto simp: disj_def)
  qed
  then show "m' a = m a" by (rule assms(4))
qed

lemma tcpBatch_exact:
  assumes "streams S outs ins" "distinct fds" "opsRaceFree ops" "\<And>x. x \<in> set ops \<Longrightarrow> peer x < length fds"
    and "tcpBatch S ab fds en ops m w = Some (res, m', w')"
  shows "(\<forall>p. p \<notin> recvBufs ops \<longrightarrow> m' p = m p) \<and> (res = vcclSystemError \<or> res = vcclSuccess \<and>
    (\<forall>p<length fds. outs w' (fds ! p) = outs w (fds ! p) @ concat (map (opBytes m) (sendsTo ops p)) \<and>
       ins w' (fds ! p) = ins w (fds ! p) @ concat (map (opBytes m') (recvsFrom ops p))))"
proof -
  have r: "batchResult outs ins fds (allKeys (length fds)) ops m w (res, m', w')" using tcpBatch_result [OF assms] .
  then have mem: "\<And>p. p \<notin> recvBufs ops \<Longrightarrow> m' p = m p" by (simp add: batchResult_def)
  have send: "map (opBytes m') (sendsTo ops p) = map (opBytes m) (sendsTo ops p)" for p
    using send_unchanged [OF assms(3) _ _ mem] by (auto simp: sendsTo_def)
  have keys: "(p, b) \<in> set (allKeys (length fds))" if "p < length fds" for p b using that by (cases b) (auto simp: allKeys_def)
  have "outs w' (fds ! p) = outs w (fds ! p) @ concat (map (opBytes m) (sendsTo ops p)) \<and>
       ins w' (fds ! p) = ins w (fds ! p) @ concat (map (opBytes m') (recvsFrom ops p))"
    if "res \<noteq> vcclSystemError" "p < length fds" for p
  proof -
    have k: "strm outs ins fds w' (p, b) = strm outs ins fds w (p, b) @ concat (map (opBytes m') (opsKey ops (p, b)))" for b
      using r that keys by (auto simp: batchResult_def)
    show ?thesis using k [of True] k [of False] by (simp add: strm_def opsKey_dirs send)
  qed
  with r mem show ?thesis by (auto simp: batchResult_def)
qed

subsection \<open>Refinement of the transport contract\<close>

text \<open>Ranks \<open>i\<close> and \<open>j\<close> are connected: what \<open>j\<close> has read from its socket to \<open>i\<close> is a prefix of what \<open>i\<close> has written to its
  socket to \<open>j\<close>. This is what a TCP connection provides.\<close>

definition connected ::
  "nat \<Rightarrow> (nat \<Rightarrow> int list) \<Rightarrow> (nat \<Rightarrow> 'w \<Rightarrow> int \<Rightarrow> byte list) \<Rightarrow> (nat \<Rightarrow> 'w \<Rightarrow> int \<Rightarrow> byte list) \<Rightarrow> (nat \<Rightarrow> 'w) \<Rightarrow> bool" where
  "connected n fds outs ins w \<longleftrightarrow>
     (\<forall>i<n. \<forall>j<n. i \<noteq> j \<longrightarrow> (\<exists>rest. outs i (w i) (fds i ! j) = ins j (w j) (fds j ! i) @ rest))"

lemma concat_inj:
  "concat xs @ r = concat ys @ r' \<Longrightarrow> map length xs = map length ys \<Longrightarrow> xs = ys"
proof (induction xs arbitrary: ys)
  case (Cons x xs)
  then obtain y ys' where ys: "ys = y # ys'" "length x = length y" "map length xs = map length ys'" by (cases ys) auto
  with Cons.prems have "x = y \<and> concat xs @ r = concat ys' @ r'" by simp
  with Cons.IH ys show ?case by auto
qed simp

lemma tcp_exchange:
  assumes "\<And>r. r < n \<Longrightarrow> streams (S r) (outs r) (ins r)" "\<And>r. r < n \<Longrightarrow> distinct (fds r) \<and> length (fds r) = n"
    and "batchOk n c ops" "\<And>r. r < n \<Longrightarrow> tcpBatch (S r) (ab r) (fds r) (en r) (ops r) (mem (c r)) (w r) = Some (vcclSuccess, m' r, w' r)"
    and "\<And>i j. i < n \<Longrightarrow> j < n \<Longrightarrow> i \<noteq> j \<Longrightarrow> outs i (w i) (fds i ! j) = ins j (w j) (fds j ! i)"
    and "connected n fds outs ins w'" "j < n"
  shows "exchanged n c ops j (m' j)"
proof -
  have ok: "opsRaceFree (ops r)" "\<And>x. x \<in> set (ops r) \<Longrightarrow> peer x < length (fds r)" if "r < n" for r
    using assms(2,3) that by (auto simp: batchOk_def)
  note ex = tcpBatch_exact [OF assms(1) _ ok(1) ok(2) assms(4)]
  have outside: "\<forall>p. p \<notin> recvBufs (ops j) \<longrightarrow> m' j p = mem (c j) p" using ex [of j] assms(2,7) by simp
  have "map (opBytes (m' j)) (recvsFrom (ops j) i) = map (opData (c i)) (sendsTo (ops i) j)" if i: "i < n" for i
  proof (cases "i = j")
    case True
    then have "recvsFrom (ops j) i = []" "sendsTo (ops i) j = []"
      using assms(3,7) by (auto simp: batchOk_def recvsFrom_def sendsTo_def filter_empty_conv)
    then show ?thesis by simp
  next
    case False
    have o: "outs i (w' i) (fds i ! j) = outs i (w i) (fds i ! j) @ concat (map (opBytes (mem (c i))) (sendsTo (ops i) j))"
      using ex [of i] assms(2,7) i by simp
    have r: "ins j (w' j) (fds j ! i) = ins j (w j) (fds j ! i) @ concat (map (opBytes (m' j)) (recvsFrom (ops j) i))"
      using ex [of j] assms(2,7) i by simp
    obtain rest where "outs i (w' i) (fds i ! j) = ins j (w' j) (fds j ! i) @ rest"
      using assms(6,7) i False by (auto simp: connected_def)
    then have eq: "concat (map (opBytes (mem (c i))) (sendsTo (ops i) j)) @ [] = concat (map (opBytes (m' j)) (recvsFrom (ops j) i)) @ rest"
      using o r assms(5) [OF i assms(7) False] by simp
    have len: "map length (map (opBytes m) xs) = map bytes xs" for m xs by (simp add: opBytes_def)
    have "map bytes (sendsTo (ops i) j) = map bytes (recvsFrom (ops j) i)"
      using assms(3,7) i by (simp add: batchOk_def)
    then have "map (opBytes (mem (c i))) (sendsTo (ops i) j) = map (opBytes (m' j)) (recvsFrom (ops j) i)"
      by (intro concat_inj [OF eq]) (simp only: len)
    moreover have "opData (c i) = opBytes (mem (c i))" by (simp add: opBytes_def opData_def fun_eq_iff)
    ultimately show ?thesis by simp
  qed
  with outside show ?thesis by (simp add: exchanged_def opBytes_def [abs_def])
qed

subsection \<open>Every batch returns\<close>

definition todo :: "qkey list \<Rightarrow> 'w batchSt \<Rightarrow> nat" where
  "todo ks st = (\<Sum>k\<leftarrow>ks. \<Sum>a\<leftarrow>queues st k. bytes (aop a) - adone a)"

definition advances :: "('w \<Rightarrow> int) \<Rightarrow> ('w \<Rightarrow> nat) \<Rightarrow> qkey list \<Rightarrow> 'w batchSt \<Rightarrow> 'w batchSt \<Rightarrow> bool" where
  "advances time patience ks st st' \<longleftrightarrow> time (bworld st) \<le> time (bworld st') \<and> patience (bworld st') \<le> patience (bworld st) \<and>
     todo ks st' \<le> todo ks st \<and> (progressed st' \<longrightarrow> progressed st \<or> todo ks st' < todo ks st)"

lemma advances_trans: "advances time patience ks a b \<Longrightarrow> advances time patience ks b c \<Longrightarrow> advances time patience ks a c"
  by (auto simp: advances_def)

lemma advances_idle:
  "time (bworld st) \<le> time w1 \<Longrightarrow> patience w1 \<le> patience (bworld st) \<Longrightarrow>
   advances time patience ks st (st\<lparr>bworld := w1\<rparr>) \<and> advances time patience ks st (st\<lparr>berrno := e, bworld := w1\<rparr>)"
  by (simp add: advances_def todo_def)

lemma todo_next:
  assumes "k \<in> set ks" "queues st k = a # q" "adone a < bytes (aop a)" "0 < n" "queues st' = (queues st)(k := nextQueue a q n)"
  shows "todo ks st' < todo ks st"
proof -
  let ?f = "\<lambda>a. bytes (aop a) - adone a"
  have lt: "(\<Sum>a\<leftarrow>nextQueue a q n. ?f a) < (\<Sum>a\<leftarrow>queues st k. ?f a)"
    using assms(2-4) by (auto simp: nextQueue_def)
  have le: "(\<Sum>a\<leftarrow>queues st' j. ?f a) \<le> (\<Sum>a\<leftarrow>queues st j. ?f a)" for j
    using lt assms(5) by (cases "j = k") auto
  have "(\<Sum>j\<leftarrow>ks. \<Sum>a\<leftarrow>queues st' j. ?f a) < (\<Sum>j\<leftarrow>ks. \<Sum>a\<leftarrow>queues st j. ?f a)"
    using assms(1)
  proof (induction ks)
    case (Cons j ks)
    have rest: "(\<Sum>j\<leftarrow>ks. \<Sum>a\<leftarrow>queues st' j. ?f a) \<le> (\<Sum>j\<leftarrow>ks. \<Sum>a\<leftarrow>queues st j. ?f a)"
      using le by (rule sum_list_mono)
    show ?case
    proof (cases "j = k")
      case True
      then have "(\<Sum>a\<leftarrow>queues st' j. ?f a) < (\<Sum>a\<leftarrow>queues st j. ?f a)" using lt assms(5) by simp
      then show ?thesis using rest by simp
    next
      case False
      then show ?thesis using Cons le [of j] by (simp add: add_le_less_mono)
    qed
  qed simp
  then show ?thesis by (simp add: todo_def)
qed

lemma batchQueue_advances:
  assumes "timed S time patience" "k \<in> set ks" "queues st k \<noteq> [] \<Longrightarrow> adone (hd (queues st k)) < bytes (aop (hd (queues st k)))"
    and step: "batchQueue S fds k st = Inr st'"
  shows "advances time patience ks st st'"
proof (cases "queues st k")
  case Nil
  then show ?thesis using step by (simp add: batchQueue_def advances_def)
next
  case (Cons a q)
  let ?fd = "fds ! fst k" and ?b = "buf (aop a)" and ?left = "bytes (aop a) - adone a"
  have lt: "adone a < bytes (aop a)" using assms(3) Cons by simp
  have prog: "advances time patience ks st (batchProgress k n (st\<lparr>bmem := m, bworld := w1\<rparr>))"
    if "0 < n" "time (bworld st) \<le> time w1" "patience w1 \<le> patience (bworld st)" for n m w1
    using todo_next [OF assms(2) Cons lt that(1), of "batchProgress k n (st\<lparr>bmem := m, bworld := w1\<rparr>)"]
      batchProgress_next [of "st\<lparr>bmem := m, bworld := w1\<rparr>" k a q n] Cons that by (simp add: advances_def)
  show ?thesis
  proof (cases "isSend (aop a)")
    case True
    obtain r w1 where r: "sys_send S ?fd (rd (bmem st) (?b + adone a) ?left) (bworld st) = (r, w1)" by fastforce
    note t = timed_calls(3) [OF assms(1) r]
    show ?thesis using step Cons True r t prog [of _ w1 "bmem st"] advances_idle [of time st w1 patience ks]
      by (cases r) (auto simp: batchQueue_def batchIdle_def Let_def split: if_splits)
  next
    case False
    obtain r w1 where r: "sys_recv S ?fd ?left (bworld st) = (r, w1)" by fastforce
    note t = timed_calls(4) [OF assms(1) r]
    show ?thesis using step Cons False r t prog [of _ w1] advances_idle [of time st w1 patience ks]
      by (cases r) (auto simp: batchQueue_def batchIdle_def Let_def split: if_splits)
  qed
qed

lemma batchInv_head: "batchInv outs ins fds ks ops m0 w0 st \<Longrightarrow> k \<in> set ks \<Longrightarrow> queues st k \<noteq> [] \<Longrightarrow>
   adone (hd (queues st k)) < bytes (aop (hd (queues st k)))"
  by (auto simp: batchInv_def moved1_def queueOk_def)

lemma batchRound_advances:
  assumes "timed S time patience" "streams S outs ins" "keysOk fds ks" "opsRaceFree ops"
    and "batchInv outs ins fds ks ops m0 w0 st" "set js \<subseteq> set ks" "batchRound S fds js st = Inr st'"
  shows "advances time patience ks st st'"
  using assms(5-7)
proof (induction js arbitrary: st)
  case Nil
  then show ?case by (simp add: advances_def)
next
  case (Cons k js)
  obtain st1 where st1: "batchQueue S fds k st = Inr st1" "batchRound S fds js st1 = Inr st'"
    using Cons.prems(3) by (cases "batchQueue S fds k st") auto
  have k: "k \<in> set ks" using Cons.prems(2) by simp
  have "advances time patience ks st st1"
    using batchQueue_advances [OF assms(1) k _ st1(1)] batchInv_head [OF Cons.prems(1) k] by blast
  moreover have "batchInv outs ins fds ks ops m0 w0 st1"
    using batchQueue_inv [OF assms(2,3) k assms(4) Cons.prems(1)] st1(1) by simp
  then have "advances time patience ks st1 st'" using Cons.IH Cons.prems(2) st1(2) by simp
  ultimately show ?case by (rule advances_trans)
qed

lemma batchStep_measure:
  assumes "timed S time patience" "streams S outs ins" "keysOk fds ks" "opsRaceFree ops" "dlEnabled dl"
    and "batchInv outs ins fds ks ops m0 w0 st" "set js \<subseteq> set ks" "batchStep S ab dl fds js st = Inl st'"
  shows "todo ks st' + budget dl time patience (bworld st') < todo ks st + budget dl time patience (bworld st)"
proof -
  let ?st0 = "st\<lparr>progressed := False\<rparr>"
  obtain st1 where st1: "batchRound S fds js ?st0 = Inr st1"
    using assms(8) by (auto simp: batchStep_def split: if_splits sum.splits)
  have adv: "advances time patience ks ?st0 st1"
    using batchRound_advances [OF assms(1-4) _ assms(7) st1] assms(6) by simp
  let ?ps = "map (\<lambda>k. (fds ! fst k, snd k)) (filter (\<lambda>k. queues st1 k \<noteq> []) js)"
  obtain r w1 where w1: "dlPoll S dl ?ps (bworld st1) = (r, w1)" by fastforce
  obtain x w2 where w2: "expired S dl w1 = (x, w2)" by fastforce
  have b1: "budget dl time patience (bworld st1) \<le> budget dl time patience (bworld st)" "todo ks st1 \<le> todo ks st"
    using adv by (auto simp: advances_def todo_def intro: budget_le)
  show ?thesis
  proof (cases "progressed st1")
    case True
    then have "st' = st1" using assms(8) st1 by (auto simp: batchStep_def split: if_splits)
    moreover have "todo ks st1 < todo ks st" using adv True by (simp add: advances_def todo_def)
    ultimately show ?thesis using b1 by simp
  next
    case False
    then have "\<not> x" "bworld st' = w2" "queues st' = queues st1"
      using assms(8) st1 w1 w2 by (auto simp: batchStep_def split: if_splits)
    moreover from this have "budget dl time patience w2 < budget dl time patience (bworld st1)"
      using poll_budget [OF assms(1) w1 _ assms(5)] w2 by simp
    ultimately show ?thesis using b1 by (simp add: todo_def)
  qed
qed

text \<open>On descriptors in non-blocking mode no call of a round blocks.\<close>

lemma batchQueue_quietly:
  assumes "quietly S R" "batchQueue S fds k st = Inr st'"
  shows "R (bworld st) (bworld st')"
proof (cases "queues st k")
  case Nil
  then show ?thesis using assms(2) quietly_calls(1) [OF assms(1)] by (simp add: batchQueue_def)
next
  case (Cons a q)
  then show ?thesis using assms(2) quietly_calls(3,4) [OF assms(1)]
    by (auto simp: batchQueue_def batchIdle_def batchProgress_def Let_def split: prod.splits sysret.splits recvret.splits if_splits)
qed

lemma batchRound_quietly:
  assumes "quietly S R" "batchRound S fds ks st = Inr st'"
  shows "R (bworld st) (bworld st')"
  using assms(2)
proof (induction ks arbitrary: st)
  case (Cons k ks)
  then obtain st1 where "batchQueue S fds k st = Inr st1" "batchRound S fds ks st1 = Inr st'" by (auto split: sum.splits)
  then show ?case using batchQueue_quietly [OF assms(1), of fds k st st1] Cons.IH [of st1] quietly_calls(2) [OF assms(1)] by blast
qed (simp add: quietly_calls(1) [OF assms(1)])

lemma batchStep_quietly:
  assumes "quietly S R" "batchStep S ab dl fds ks st = Inl st'"
  shows "R (bworld st) (bworld st')"
proof -
  note q = quietly_calls [OF assms(1)]
  obtain st1 where st1: "batchRound S fds ks (st\<lparr>progressed := False\<rparr>) = Inr st1"
    using assms(2) by (auto simp: batchStep_def split: if_splits sum.splits)
  have R1: "R (bworld st) (bworld st1)" using batchRound_quietly [OF assms(1) st1] by simp
  let ?ps = "map (\<lambda>k. (fds ! fst k, snd k)) (filter (\<lambda>k. queues st1 k \<noteq> []) ks)"
  obtain r w1 where w1: "dlPoll S dl ?ps (bworld st1) = (r, w1)" by fastforce
  obtain x w2 where w2: "expired S dl w1 = (x, w2)" by fastforce
  have "bworld st' = bworld st1 \<or> bworld st' = w2"
    using assms(2) st1 w1 w2 by (auto simp: batchStep_def split: if_splits)
  then show ?thesis using R1 q(7) [OF w1] q(6) [OF w2] q(2) by metis
qed

lemma roundParked_nb:
  assumes "nonblocking S nb" "\<And>k. k \<in> set ks \<Longrightarrow> fds ! fst k \<in> nb (bworld st)"
  shows "\<not> roundParked S fds ks st"
  using assms(2)
proof (induction ks arbitrary: st)
  case (Cons k ks)
  have "\<not> queueParked S fds k st"
    using nonblockingD(1) [OF assms(1)] Cons.prems [of k] by (simp add: queueParked_def split: list.splits)
  moreover have "\<not> roundParked S fds ks st'" if "batchQueue S fds k st = Inr st'" for st'
    using batchQueue_quietly [OF nonblockingD(2) [OF assms(1)] that] Cons.prems by (intro Cons.IH) auto
  ultimately show ?case by (simp split: sum.splits)
qed simp

lemma tcpBatch_returns:
  assumes "timed S time patience" "streams S outs ins" "0 < timeoutSeconds (sys_getenv S)"
    and "distinct fds" "opsRaceFree ops" "\<And>x. x \<in> set ops \<Longrightarrow> peer x < length fds"
    and nb: "nonblocking S nb" "\<And>x. x \<in> set ops \<Longrightarrow> fds ! peer x \<in> nb w"
  shows "\<exists>r. tcpBatch S ab fds en ops m w = Some r"
proof -
  obtain dl w0 where dl: "newDeadline S w = (dl, w0)" by fastforce
  have en: "dlEnabled dl" using newDeadline_enabled [OF dl assms(3)] .
  let ?ks = "allKeys (length fds)"
  let ?I = "batchInv outs ins fds ?ks ops m w"
  have sub: "set (batchKeys ops) \<subseteq> set ?ks" by (rule batchKeys_sub [OF assms(6)])
  note keys = allKeys_keysOk [OF assms(4)]
  let ?nb = "\<lambda>st. \<forall>k\<in>set (batchKeys ops). fds ! fst k \<in> nb (bworld st)"
  have w0: "fds ! fst k \<in> nb w0" if "k \<in> set (batchKeys ops)" for k
    using that nb(2) quietly_calls(5) [OF nonblockingD(2) [OF nb(1)] dl] by (auto simp: batchKeys_def opKey_def)
  have "\<exists>r. iterO (parked (batchParked S fds (batchKeys ops)) (batchStep S ab dl fds (batchKeys ops)))
      \<lparr>queues = batchQueues ops, remaining = length (filter (\<lambda>x. bytes x \<noteq> 0) ops), progressed = False, bmem = m, berrno = en, bworld = w0\<rparr> = Some r"
  proof (rule parked_total [where I = "\<lambda>st. ?I st \<and> ?nb st" and \<mu> = "\<lambda>st. todo ?ks st + budget dl time patience (bworld st)"])
    have "?I \<lparr>queues = batchQueues ops, remaining = length (filter (\<lambda>x. bytes x \<noteq> 0) ops), progressed = False, bmem = m, berrno = en, bworld = w0\<rparr>"
      using streams_clock(1) [OF assms(2) dl] assms(6) by (intro batchInv_start [OF assms(4)]) auto
    then show "?I \<lparr>queues = batchQueues ops, remaining = length (filter (\<lambda>x. bytes x \<noteq> 0) ops), progressed = False, bmem = m, berrno = en, bworld = w0\<rparr> \<and>
        ?nb \<lparr>queues = batchQueues ops, remaining = length (filter (\<lambda>x. bytes x \<noteq> 0) ops), progressed = False, bmem = m, berrno = en, bworld = w0\<rparr>"
      using w0 by simp
  next
    fix st assume "?I st \<and> ?nb st"
    then show "\<not> batchParked S fds (batchKeys ops) st" using roundParked_nb [OF nb(1)] by (simp add: batchParked_def)
  next
    fix st st' assume I': "?I st \<and> ?nb st" and step: "batchStep S ab dl fds (batchKeys ops) st = Inl st'"
    then have I: "?I st" and "?nb st'" using batchStep_quietly [OF nonblockingD(2) [OF nb(1)] step] by auto
    from batchStep_measure [OF assms(1,2) keys assms(5) en I sub step]
      batchStep_inv [OF assms(2) keys assms(5) I sub, where ab = ab and dl = dl] step
    show "(?I st' \<and> ?nb st') \<and> todo ?ks st' + budget dl time patience (bworld st') < todo ?ks st + budget dl time patience (bworld st)" using \<open>?nb st'\<close> by simp
  qed
  then show ?thesis by (simp add: tcpBatch_def dl)
qed

end
