(* ===== verification/Vccl_Bootstrap.thy ===== *)
theory Vccl_Bootstrap
  imports Vccl_Socket Vccl_Comm_Api "HOL-Library.Monad_Syntax"
begin

text \<open>
  The rendezvous of \<^verbatim>\<open>src/core/bootstrap.h\<close> and \<^verbatim>\<open>src/core/bootstrap.cc\<close>: unique ids, the registry of listening
  sockets, the handshake of \<open>Bootstrap::init\<close> and the gather through rank 0.

  A unique id is its 128 bytes; \<open>encodeId\<close> and \<open>decodeId\<close> are the overlay of \<open>UniqueIdInternal\<close> on them, on a
  little-endian host. A function that may block forever is an option (\<open>None\<close>: it never returns). The process-wide
  map \<^verbatim>\<open>g_listenRegistry\<close> is an argument and a component of the result. When \<open>Bootstrap::init\<close> fails, the object
  it was building is destroyed: \<open>bsDestroy\<close>.
\<close>

unbundle bit_operations_syntax

subsection \<open>Unique ids\<close>

record UniqueIdInternal =
  uidMagic :: "64 word"
  uidSalt :: "64 word"
  uidFamily :: nat
  uidPort :: "16 word"
  uidAddr :: "byte list"

definition VCCL_UNIQUE_ID_BYTES :: nat where "VCCL_UNIQUE_ID_BYTES = 128"

definition kVcclMagic :: "64 word" where "kVcclMagic = 0x7663636c30312e30"
definition kCommIdEnvSalt :: "64 word" where "kCommIdEnvSalt = 0x7663636c2d656e76"

definition encodeId :: "UniqueIdInternal \<Rightarrow> byte list" where
  "encodeId u = bytes_of (uidMagic u) @ bytes_of (uidSalt u) @ bytes_of (of_nat (uidFamily u) :: 16 word) @
     bytes_of (uidPort u) @ uidAddr u @ replicate (VCCL_UNIQUE_ID_BYTES - 36) 0"

definition decodeId :: "byte list \<Rightarrow> UniqueIdInternal" where
  "decodeId b = \<lparr>uidMagic = word_of_bytes (take 8 b), uidSalt = word_of_bytes (take 8 (drop 8 b)),
     uidFamily = unat (word_of_bytes (take 2 (drop 16 b)) :: 16 word), uidPort = word_of_bytes (take 2 (drop 18 b)),
     uidAddr = take 16 (drop 20 b)\<rparr>"

definition setAddr :: "SocketAddr \<Rightarrow> UniqueIdInternal \<Rightarrow> UniqueIdInternal" where
  "setAddr sa u =
     (if ss_family sa = AF_INET
      then u\<lparr>uidFamily := ss_family sa, uidPort := ss_port sa, uidAddr := take 4 (sin_addr sa) @ replicate 12 0\<rparr>
      else u\<lparr>uidFamily := ss_family sa, uidPort := ss_port sa, uidAddr := take 16 (sin6_addr sa)\<rparr>)"

definition getAddr :: "UniqueIdInternal \<Rightarrow> SocketAddr" where
  "getAddr u =
     (if uidFamily u = AF_INET
      then zeroAddr\<lparr>ss_family := AF_INET, ss_port := uidPort u, sin_addr := take 4 (uidAddr u), slen := 16\<rparr>
      else zeroAddr\<lparr>ss_family := AF_INET6, ss_port := uidPort u, sin6_addr := take 16 (uidAddr u), slen := 28\<rparr>)"

type_synonym registry = "byte list \<Rightarrow> int option"

text \<open>\<open>strrchr\<close>: the text before and after the last occurrence.\<close>

definition splitLast :: "char \<Rightarrow> string \<Rightarrow> (string \<times> string) option" where
  "splitLast c s =
     (case dropWhile (\<lambda>x. x \<noteq> c) (rev s) of
        [] \<Rightarrow> None
      | _ # before \<Rightarrow> Some (rev before, drop (Suc (length before)) s))"

text \<open>The id that \<^verbatim>\<open>VCCL_COMM_ID\<close> stands for, \<open>None\<close> when it is malformed.\<close>

definition envId :: "'w sys \<Rightarrow> string \<Rightarrow> UniqueIdInternal option" where
  "envId S env =
     (case splitLast CHR '':'' env of
        None \<Rightarrow> None
      | Some (host, rest) \<Rightarrow>
          if host = [] \<or> length host \<ge> 64 then None
          else let port = atoi rest in
               (case sys_inet_pton4 S host of
                  None \<Rightarrow> None
                | Some a \<Rightarrow>
                    if port \<le> 0 \<or> port > 65535 then None
                    else Some (setAddr (zeroAddr\<lparr>sin_addr := a, ss_family := AF_INET, ss_port := htons (word_of_int port), slen := 16\<rparr>)
                           \<lparr>uidMagic = kVcclMagic, uidSalt = kCommIdEnvSalt, uidFamily = 0, uidPort = 0, uidAddr = replicate 16 0\<rparr>)))"

definition uniqueIdCreate :: "'w sys \<Rightarrow> registry \<Rightarrow> 'w \<Rightarrow> vcclResult_t \<times> byte list \<times> registry \<times> 'w" where
  "uniqueIdCreate S reg w =
     (let zero = replicate VCCL_UNIQUE_ID_BYTES 0 in
      case sys_getenv S ''VCCL_COMM_ID'' of
        Some env \<Rightarrow>
          (case envId S env of
             None \<Rightarrow> (vcclInvalidArgument, zero, reg, w)
           | Some u \<Rightarrow> (vcclSuccess, encodeId u, reg, w))
      | None \<Rightarrow>
          (case getAdvertisedAddr S w of (res, addr) \<Rightarrow>
           if res \<noteq> vcclSuccess then (res, zero, reg, w)
           else (case createListenSocket S 0 w of (res', listenFd, port, w1) \<Rightarrow>
                 if res' \<noteq> vcclSuccess then (res', zero, reg, w1)
                 else let addr1 = setPort port addr;
                          addr2 = (if slen addr1 = 0 then addr1\<lparr>slen := 16\<rparr> else addr1);
                          (r1, w2) = sys_random S w1; (r2, w3) = sys_random S w2;
                          salt = push_bit 32 (ucast r1) XOR (ucast r2 :: 64 word);
                          out = encodeId (setAddr addr2 \<lparr>uidMagic = kVcclMagic, uidSalt = salt, uidFamily = 0, uidPort = 0,
                                                          uidAddr = replicate 16 0\<rparr>);
                          w4 = (case reg out of None \<Rightarrow> w3 | Some fd \<Rightarrow> closeQuiet S fd w3)
                      in (vcclSuccess, out, reg(out \<mapsto> listenFd), w4))))"

subsection \<open>The handshake\<close>

record Hello =
  hmagic :: "64 word"
  hsalt :: "64 word"
  hversion :: "32 word"
  hnranks :: "32 word"
  hrank :: "32 word"
  hpad :: "32 word"

definition encodeHello :: "Hello \<Rightarrow> byte list" where
  "encodeHello h = bytes_of (hmagic h) @ bytes_of (hsalt h) @ bytes_of (hversion h) @ bytes_of (hnranks h) @
     bytes_of (hrank h) @ bytes_of (hpad h)"

definition decodeHello :: "byte list \<Rightarrow> Hello" where
  "decodeHello b = \<lparr>hmagic = word_of_bytes (take 8 b), hsalt = word_of_bytes (take 8 (drop 8 b)),
     hversion = word_of_bytes (take 4 (drop 16 b)), hnranks = word_of_bytes (take 4 (drop 20 b)),
     hrank = word_of_bytes (take 4 (drop 24 b)), hpad = word_of_bytes (take 4 (drop 28 b))\<rparr>"

definition kWireLittleEndian :: "32 word" where "kWireLittleEndian = 1"

definition hostEndiannessMarker :: "32 word" where
  "hostEndiannessMarker = (if hd (bytes_of (1 :: 16 word)) = 1 then kWireLittleEndian else 0)"

text \<open>The message of a rank that connects, and the test of the root.\<close>

definition helloOf :: "UniqueIdInternal \<Rightarrow> nat \<Rightarrow> nat \<Rightarrow> Hello" where
  "helloOf u n r = \<lparr>hmagic = uidMagic u, hsalt = uidSalt u, hversion = word_of_int VCCL_VERSION_CODE,
     hnranks = of_nat n, hrank = of_nat r, hpad = hostEndiannessMarker\<rparr>"

definition helloOk :: "UniqueIdInternal \<Rightarrow> nat \<Rightarrow> int list \<Rightarrow> Hello \<Rightarrow> bool" where
  "helloOk u n peerFds h \<longleftrightarrow>
     hmagic h = uidMagic u \<and> hsalt h = uidSalt u \<and> hversion h = word_of_int VCCL_VERSION_CODE \<and>
     sint (hnranks h) = int n \<and> sint (hrank h) > 0 \<and> sint (hrank h) < int n \<and>
     peerFds ! nat (sint (hrank h)) = -1 \<and> hpad h = hostEndiannessMarker"

record Bootstrap =
  bsRank :: nat
  bsNranks :: nat
  rootFd :: int
  peerFds :: "int list"

definition bsDestroy :: "'w sys \<Rightarrow> Bootstrap \<Rightarrow> 'w \<Rightarrow> 'w" where
  "bsDestroy S bs w = fold (closeQuiet S) (peerFds bs) (closeQuiet S (rootFd bs) w)"

text \<open>One round of the accept loop of the root; the state is the table, the number of connected ranks and the world.\<close>

definition rootStep ::
  "'w sys \<Rightarrow> UniqueIdInternal \<Rightarrow> nat \<Rightarrow> int \<Rightarrow> int list \<times> nat \<times> 'w
    \<Rightarrow> (int list \<times> nat \<times> 'w + vcclResult_t \<times> int list \<times> 'w) option" where
  "rootStep S u n listenFd = (\<lambda>(fds, connected, w).
     if connected < n - 1 then
       do { (res, fd, w1) \<leftarrow> acceptOne S listenFd w;
            if res \<noteq> vcclSuccess then Some (Inr (res, fds, closeQuiet S listenFd w1))
            else do { (res', got, w2) \<leftarrow> recvAll S fd 32 w1;
                      let hello = decodeHello (got @ replicate (32 - length got) 0);
                          ok = (res' = vcclSuccess \<and> helloOk u n fds hello) in
                      do { (_, w3) \<leftarrow> sendAll S fd [if ok then 1 else 0] w2;
                           if \<not> ok then Some (Inl (fds, connected, closeQuiet S fd w3))
                           else Some (Inl (fds[nat (sint (hrank hello)) := fd], connected + 1, w3)) } } }
     else Some (Inr (vcclSuccess, fds, closeQuiet S listenFd w)))"

definition claimListen :: "byte list \<Rightarrow> registry \<Rightarrow> int \<times> registry" where
  "claimListen uid reg = (case reg uid of Some fd \<Rightarrow> (fd, reg(uid := None)) | None \<Rightarrow> (-1, reg))"

definition initRoot ::
  "'w sys \<Rightarrow> byte list \<Rightarrow> nat \<Rightarrow> registry \<Rightarrow> 'w \<Rightarrow> (vcclResult_t \<times> Bootstrap option \<times> registry \<times> 'w) option" where
  "initRoot S uid n reg w =
     (let u = decodeId uid; (fd0, reg1) = claimListen uid reg;
          (res0, listenFd, w1) =
            (if fd0 < 0 \<and> uidSalt u = kCommIdEnvSalt
             then (case createListenSocket S (sockPort (getAddr u)) w of (r, fd, _, w1) \<Rightarrow> (r, fd, w1))
             else (vcclSuccess, fd0, w))
      in if res0 \<noteq> vcclSuccess then Some (res0, None, reg1, w1)
         else if listenFd < 0 then Some (vcclInvalidUsage, None, reg1, w1)
         else do { (res, fds, w2) \<leftarrow> iterO (rootStep S u n listenFd) (replicate n (-1), 0, w1);
                   let bs = \<lparr>bsRank = 0, bsNranks = n, rootFd = -1, peerFds = fds\<rparr> in
                   if res \<noteq> vcclSuccess then Some (res, None, reg1, bsDestroy S bs w2)
                   else Some (vcclSuccess, Some bs, reg1, w2) })"

definition initPeer ::
  "'w sys \<Rightarrow> byte list \<Rightarrow> nat \<Rightarrow> nat \<Rightarrow> 'w \<Rightarrow> (vcclResult_t \<times> Bootstrap option \<times> 'w) option" where
  "initPeer S uid r n w =
     (let u = decodeId uid in
      do { (res, fd, w1) \<leftarrow> connectTo S (getAddr u) (connectTimeoutMs (sys_getenv S)) w;
           let bs = \<lparr>bsRank = r, bsNranks = n, rootFd = fd, peerFds = []\<rparr> in
           if res \<noteq> vcclSuccess then Some (res, None, bsDestroy S bs w1)
           else do { (res', w2) \<leftarrow> sendAll S fd (encodeHello (helloOf u n r)) w1;
                     if res' \<noteq> vcclSuccess then Some (res', None, bsDestroy S bs w2)
                     else do { (res'', got, w3) \<leftarrow> recvAll S fd 1 w2;
                               if res'' \<noteq> vcclSuccess then Some (res'', None, bsDestroy S bs w3)
                               else if got \<noteq> [1] then Some (vcclInvalidUsage, None, bsDestroy S bs w3)
                               else Some (vcclSuccess, Some bs, w3) } } })"

definition bootstrapInit ::
  "'w sys \<Rightarrow> byte list \<Rightarrow> nat \<Rightarrow> nat \<Rightarrow> registry \<Rightarrow> 'w \<Rightarrow> (vcclResult_t \<times> Bootstrap option \<times> registry \<times> 'w) option" where
  "bootstrapInit S uid r n reg w =
     (if uidMagic (decodeId uid) \<noteq> kVcclMagic then Some (vcclInvalidArgument, None, reg, w)
      else if r = 0 then initRoot S uid n reg w
      else do { (res, bs, w') \<leftarrow> initPeer S uid r n w; Some (res, bs, reg, w') })"

subsection \<open>The gather through the root\<close>

text \<open>The buffer is a byte list; received bytes overwrite it from an offset on.\<close>

definition patch :: "byte list \<Rightarrow> nat \<Rightarrow> byte list \<Rightarrow> byte list" where
  "patch b off d = take off b @ d @ drop (off + length d) b"

fun bsRecvs :: "'w sys \<Rightarrow> int list \<Rightarrow> nat \<Rightarrow> nat list \<Rightarrow> byte list \<Rightarrow> 'w \<Rightarrow> (vcclResult_t \<times> byte list \<times> 'w) option" where
  "bsRecvs S fds sl [] b w = Some (vcclSuccess, b, w)"
| "bsRecvs S fds sl (r # rs) b w =
     do { (res, got, w1) \<leftarrow> recvAll S (fds ! r) sl w;
          let b' = patch b (r * sl) got in
          if res \<noteq> vcclSuccess then Some (res, b', w1) else bsRecvs S fds sl rs b' w1 }"

fun bsSends :: "'w sys \<Rightarrow> int list \<Rightarrow> nat list \<Rightarrow> byte list \<Rightarrow> 'w \<Rightarrow> (vcclResult_t \<times> 'w) option" where
  "bsSends S fds [] b w = Some (vcclSuccess, w)"
| "bsSends S fds (r # rs) b w =
     do { (res, w1) \<leftarrow> sendAll S (fds ! r) b w;
          if res \<noteq> vcclSuccess then Some (res, w1) else bsSends S fds rs b w1 }"

definition bsAllGather ::
  "'w sys \<Rightarrow> Bootstrap \<Rightarrow> byte list \<Rightarrow> nat \<Rightarrow> 'w \<Rightarrow> (vcclResult_t \<times> byte list \<times> 'w) option" where
  "bsAllGather S bs b sl w =
     (if bsRank bs = 0 then
        do { (res, b1, w1) \<leftarrow> bsRecvs S (peerFds bs) sl [1..<bsNranks bs] b w;
             if res \<noteq> vcclSuccess then Some (res, b1, w1)
             else do { (res', w2) \<leftarrow> bsSends S (peerFds bs) [1..<bsNranks bs] (take (sl * bsNranks bs) b1) w1;
                       Some (res', b1, w2) } }
      else
        do { (res, w1) \<leftarrow> sendAll S (rootFd bs) (take sl (drop (bsRank bs * sl) b)) w;
             if res \<noteq> vcclSuccess then Some (res, b, w1)
             else do { (res', got, w2) \<leftarrow> recvAll S (rootFd bs) (sl * bsNranks bs) w1;
                       Some (res', patch b 0 got, w2) } })"

definition bsBarrier :: "'w sys \<Rightarrow> Bootstrap \<Rightarrow> 'w \<Rightarrow> (vcclResult_t \<times> 'w) option" where
  "bsBarrier S bs w =
     do { (res, _, w') \<leftarrow> bsAllGather S bs (replicate (bsNranks bs) 0) 1 w; Some (res, w') }"

end
