(* ===== verification/Vccl_Verbs.thy ===== *)
theory Vccl_Verbs
  imports Vccl_Tcp "HOL-Library.Monad_Syntax"
begin

text \<open>
  The data path of the verbs transport (\<^verbatim>\<open>src/transport/verbs.cc\<close>): posting work requests, waiting for
  completions, pre-posted receives, waves of a batch, and the resources an operation holds meanwhile.

  ibverbs is a parameter: the record \<open>ibv\<close> has one function per call, over the state \<open>'w\<close> of the outside world. Host
  memory is part of that world because the adapter reads and writes it while the program runs; the program's
  own accesses go through \<open>host_mem\<close> and \<open>host_put\<close>. Handles are numbers, 0 is null. The state of the transport is
  \<open>VerbsTransport\<close> of theory \<open>Vccl_Transport\<close>. A wait is an option, \<open>None\<close> when it never ends. Whether another thread
  has called \<open>abort\<close> is a function of the world. The timing counters of \<^verbatim>\<open>VCCL_PROF\<close> are left out.
\<close>

subsection \<open>The library\<close>

record ibv_sge =
  sgeAddr :: addr
  sgeLength :: nat
  sgeLkey :: nat

record ibv_wc =
  wcSuccess :: bool    \<comment> \<open>\<^verbatim>\<open>status == IBV_WC_SUCCESS\<close>\<close>
  wcRecv :: bool    \<comment> \<open>\<^verbatim>\<open>opcode & IBV_WC_RECV\<close>\<close>

datatype ibv_event_type =
  IBV_EVENT_QP_FATAL | IBV_EVENT_QP_ACCESS_ERR | IBV_EVENT_PORT_ERR | IBV_EVENT_DEVICE_FATAL | IBV_EVENT_OTHER

record 'w ibv =
  ibv_reg :: "nat \<Rightarrow> addr \<Rightarrow> nat \<Rightarrow> 'w \<Rightarrow> mr \<times> 'w"    \<comment> \<open>\<^verbatim>\<open>ibv_reg_mr\<close>\<close>
  ibv_dereg_mr :: "mr \<Rightarrow> 'w \<Rightarrow> 'w"
  ibv_lkey :: "mr \<Rightarrow> nat"
  ibv_post_send :: "nat \<Rightarrow> bool \<Rightarrow> ibv_sge \<Rightarrow> 'w \<Rightarrow> bool \<times> 'w"    \<comment> \<open>queue pair, \<^verbatim>\<open>IBV_SEND_INLINE\<close>, the buffer\<close>
  ibv_post_recv :: "nat \<Rightarrow> ibv_sge \<Rightarrow> 'w \<Rightarrow> bool \<times> 'w"
  ibv_poll_cq :: "nat \<Rightarrow> nat \<Rightarrow> 'w \<Rightarrow> ibv_wc list option \<times> 'w"    \<comment> \<open>\<open>None\<close>: a negative result\<close>
  ibv_async_ready :: "nat \<Rightarrow> 'w \<Rightarrow> bool \<times> 'w"    \<comment> \<open>\<^verbatim>\<open>poll\<close> on \<^verbatim>\<open>async_fd\<close> reports \<^verbatim>\<open>POLLIN\<close>\<close>
  ibv_get_async_event :: "nat \<Rightarrow> 'w \<Rightarrow> ibv_event_type option \<times> 'w"
  ibv_ack_async_event :: "'w \<Rightarrow> 'w"
  host_mem :: "'w \<Rightarrow> mem"
  host_put :: "addr \<Rightarrow> byte list \<Rightarrow> 'w \<Rightarrow> 'w"

definition hostCopy :: "'w ibv \<Rightarrow> addr \<Rightarrow> addr \<Rightarrow> nat \<Rightarrow> 'w \<Rightarrow> 'w" where
  "hostCopy B dst src n w = host_put B dst (rd (host_mem B w) src n) w"

definition u32 :: "nat \<Rightarrow> nat" where "u32 n = n mod 2 ^ 32"

subsection \<open>Work requests\<close>

record Resolved =
  resMr :: mr
  nicAddr :: addr
  bounced :: bool

definition resolve ::
  "'w ibv \<Rightarrow> addr \<Rightarrow> nat \<Rightarrow> VerbsTransport \<Rightarrow> 'w \<Rightarrow> vcclResult_t \<times> Resolved option \<times> VerbsTransport \<times> 'w" where
  "resolve B b n v w =
     (case find (\<lambda>r. rstart r \<le> b \<and> b + n \<le> rstart r + rlen r) (regions v) of
        Some r \<Rightarrow>
          (vcclSuccess,
           Some \<lparr>resMr = rmr r, nicAddr = (if rstaging r \<noteq> 0 then rstaging r + (b - rstart r) else b), bounced = (rstaging r \<noteq> 0)\<rparr>, v, w)
      | None \<Rightarrow>
          (case ibv_reg B (devPd (dev v)) b n w of (x, w1) \<Rightarrow>
           if x = 0 then (vcclSystemError, None, v, w1)
           else (vcclSuccess, Some \<lparr>resMr = x, nicAddr = b, bounced = False\<rparr>, v\<lparr>tempMrs := tempMrs v @ [x]\<rparr>, w1)))"

text \<open>The segments of a transfer: offset and length.\<close>

definition segments :: "nat \<Rightarrow> (nat \<times> nat) list" where
  "segments n = map (\<lambda>i. (i * kMaxSegBytes, min kMaxSegBytes (n - i * kMaxSegBytes))) [0..<(n + kMaxSegBytes - 1) div kMaxSegBytes]"

definition sgeOf :: "'w ibv \<Rightarrow> Resolved \<Rightarrow> nat \<times> nat \<Rightarrow> ibv_sge" where
  "sgeOf B r s = \<lparr>sgeAddr = nicAddr r + fst s, sgeLength = u32 (snd s), sgeLkey = ibv_lkey B (resMr r)\<rparr>"

text \<open>Posts requests one by one up to the first failure.\<close>

fun postSegs :: "(ibv_sge \<Rightarrow> 'w \<Rightarrow> bool \<times> 'w) \<Rightarrow> ibv_sge list \<Rightarrow> nat \<Rightarrow> 'w \<Rightarrow> vcclResult_t \<times> nat \<times> 'w" where
  "postSegs post [] wrs w = (vcclSuccess, wrs, w)"
| "postSegs post (s # ss) wrs w =
     (case post s w of (acc, w1) \<Rightarrow>
      if acc then postSegs post ss (Suc wrs) w1 else (vcclSystemError, wrs, w1))"

text \<open>The number of requests posted is the second component.\<close>

definition postSend ::
  "'w ibv \<Rightarrow> nat \<Rightarrow> addr \<Rightarrow> nat \<Rightarrow> VerbsTransport \<Rightarrow> 'w \<Rightarrow> vcclResult_t \<times> nat \<times> VerbsTransport \<times> 'w" where
  "postSend B p b n v w =
     (if n \<le> maxInline v ! p then
        (case ibv_post_send B (qps v ! p) True \<lparr>sgeAddr = b, sgeLength = u32 n, sgeLkey = 0\<rparr> w of (acc, w1) \<Rightarrow>
         if acc then (vcclSuccess, 1, v, w1) else (vcclSystemError, 0, v, w1))
      else (case resolve B b n v w of
          (e, None, v1, w1) \<Rightarrow> (e, 0, v1, w1)
        | (e, Some r, v1, w1) \<Rightarrow>
            let w2 = (if bounced r then hostCopy B (nicAddr r) b n w1 else w1) in
            (case postSegs (ibv_post_send B (qps v ! p) False) (map (sgeOf B r) (segments n)) 0 w2 of
               (e', k, w3) \<Rightarrow> (e', k, v1, w3))))"

definition postRecv ::
  "'w ibv \<Rightarrow> nat \<Rightarrow> addr \<Rightarrow> nat \<Rightarrow> VerbsTransport \<Rightarrow> 'w \<Rightarrow> vcclResult_t \<times> nat \<times> VerbsTransport \<times> 'w" where
  "postRecv B p b n v w =
     (case resolve B b n v w of
        (e, None, v1, w1) \<Rightarrow> (e, 0, v1, w1)
      | (e, Some r, v1, w1) \<Rightarrow>
          let v2 = (if bounced r
                    then v1\<lparr>pendingCopyback := pendingCopyback v1 @ [\<lparr>cbDst = b, cbSrc = nicAddr r, cbBytes = n\<rparr>]\<rparr> else v1) in
          (case postSegs (ibv_post_recv B (qps v ! p)) (map (sgeOf B r) (segments n)) 0 w1 of
             (e', k, w2) \<Rightarrow> (e', k, v2, w2)))"

subsection \<open>What an operation holds while it runs\<close>

definition releaseMrs :: "'w ibv \<Rightarrow> VerbsTransport \<Rightarrow> 'w \<Rightarrow> VerbsTransport \<times> 'w" where
  "releaseMrs B v w = (v\<lparr>pendingCopyback := [], tempMrs := []\<rparr>, fold (ibv_dereg_mr B) (tempMrs v) w)"

definition drainCompleted :: "'w ibv \<Rightarrow> VerbsTransport \<Rightarrow> 'w \<Rightarrow> VerbsTransport \<times> 'w" where
  "drainCompleted B v w =
     releaseMrs B v (fold (\<lambda>cb. hostCopy B (cbDst cb) (cbSrc cb) (cbBytes cb)) (pendingCopyback v) w)"

definition discardPending :: "'w ibv \<Rightarrow> VerbsTransport \<Rightarrow> 'w \<Rightarrow> VerbsTransport \<times> 'w" where
  "discardPending B v w =
     (case releaseMrs B v w of (v1, w1) \<Rightarrow>
      (v1\<lparr>prePostedRecv := map (\<lambda>_. []) (prePostedRecv v1), recvSurplus := map (\<lambda>_. 0) (recvSurplus v1)\<rparr>, w1))"

text \<open>The destructor of \<open>DrainGuard\<close>: every return but the successful one at the end leaves \<open>committed\<close> false.\<close>

definition guarded ::
  "'w ibv \<Rightarrow> (vcclResult_t \<times> VerbsTransport \<times> 'w) option \<Rightarrow> (vcclResult_t \<times> VerbsTransport \<times> 'w) option" where
  "guarded B = map_option (\<lambda>(e, v, w). if e = vcclSuccess then (e, v, w) else (e, discardPending B v w))"

subsection \<open>Completions\<close>

definition takeRecvSurplus :: "nat \<Rightarrow> nat \<Rightarrow> VerbsTransport \<Rightarrow> nat \<times> VerbsTransport" where
  "takeRecvSurplus p want v =
     (let use = min want (recvSurplus v ! p)
      in (want - use, v\<lparr>recvSurplus := (recvSurplus v)[p := recvSurplus v ! p - use]\<rparr>))"

definition creditSurplus :: "nat \<Rightarrow> nat \<Rightarrow> nat \<Rightarrow> VerbsTransport \<Rightarrow> VerbsTransport" where
  "creditSurplus p recvDone recvNeed v =
     (if recvDone > recvNeed
      then v\<lparr>recvSurplus := (recvSurplus v)[p := recvSurplus v ! p + (recvDone - recvNeed)]\<rparr> else v)"

text \<open>Counts the completions of sends and receives up to the first that failed.\<close>

fun countWcs :: "ibv_wc list \<Rightarrow> nat \<Rightarrow> nat \<Rightarrow> vcclResult_t \<times> nat \<times> nat" where
  "countWcs [] s r = (vcclSuccess, s, r)"
| "countWcs (x # xs) s r =
     (if \<not> wcSuccess x then (vcclRemoteError, s, r)
      else if wcRecv x then countWcs xs s (Suc r) else countWcs xs (Suc s) r)"

text \<open>Results: how many sends and receives the call adds to the counters; a caller that passes a null pointer ignores
  that number.\<close>

definition pollOnce :: "'w ibv \<Rightarrow> VerbsTransport \<Rightarrow> nat \<Rightarrow> 'w \<Rightarrow> vcclResult_t \<times> nat \<times> nat \<times> 'w" where
  "pollOnce B v p w =
     (case ibv_poll_cq B (cqs v ! p) 16 w of
        (None, w1) \<Rightarrow> (vcclSystemError, 0, 0, w1)
      | (Some wcs, w1) \<Rightarrow> (case countWcs wcs 0 0 of (e, s, r) \<Rightarrow> (e, s, r, w1)))"

definition isFatalEvent :: "ibv_event_type \<Rightarrow> bool" where
  "isFatalEvent t \<longleftrightarrow> t = IBV_EVENT_QP_FATAL \<or> t = IBV_EVENT_QP_ACCESS_ERR \<or> t = IBV_EVENT_PORT_ERR \<or> t = IBV_EVENT_DEVICE_FATAL"

definition asyncStep :: "'w ibv \<Rightarrow> VerbsTransport \<times> 'w \<Rightarrow> VerbsTransport \<times> 'w + VerbsTransport \<times> 'w" where
  "asyncStep B = (\<lambda>(v, w).
     case ibv_async_ready B (devCtx (dev v)) w of (ready, w1) \<Rightarrow>
     if \<not> ready then Inr (v, w1)
     else (case ibv_get_async_event B (devCtx (dev v)) w1 of
         (None, w2) \<Rightarrow> Inr (v, w2)
       | (Some t, w2) \<Rightarrow> Inl (if isFatalEvent t then v\<lparr>asyncFatal := True\<rparr> else v, ibv_ack_async_event B w2)))"

definition drainAsyncFatal :: "'w ibv \<Rightarrow> VerbsTransport \<Rightarrow> 'w \<Rightarrow> (bool \<times> VerbsTransport \<times> 'w) option" where
  "drainAsyncFatal B v w = map_option (\<lambda>(v', w'). (asyncFatal v', v', w')) (iter (asyncStep B) (v, w))"

text \<open>The tail of a round of a completion loop: abort (where the loop looks at it), fatal events, the watchdog (where
  the loop asks it). \<open>Inl\<close>: the loop goes on.\<close>

definition checkWait ::
  "'w sys \<Rightarrow> 'w ibv \<Rightarrow> ('w \<Rightarrow> bool) \<Rightarrow> bool \<Rightarrow> Deadline \<Rightarrow> VerbsTransport \<Rightarrow> 'w
    \<Rightarrow> (VerbsTransport \<times> 'w + vcclResult_t \<times> VerbsTransport \<times> 'w) option" where
  "checkWait S B isAborted timed dl v w =
     (if isAborted w then Some (Inr (vcclSystemError, v, w))
      else do { (fatal, v1, w1) \<leftarrow> drainAsyncFatal B v w;
                if fatal then Some (Inr (vcclRemoteError, v1, w1))
                else if timed then
                  (case expired S dl w1 of (x, w2) \<Rightarrow>
                   if x then Some (Inr (vcclSystemError, v1, w2)) else Some (Inl (v1, w2)))
                else Some (Inl (v1, w1)) })"

definition pollStep ::
  "'w sys \<Rightarrow> 'w ibv \<Rightarrow> ('w \<Rightarrow> bool) \<Rightarrow> Deadline \<Rightarrow> nat \<Rightarrow> nat \<Rightarrow> nat \<Rightarrow> nat \<times> nat \<times> VerbsTransport \<times> 'w
    \<Rightarrow> (nat \<times> nat \<times> VerbsTransport \<times> 'w + vcclResult_t \<times> nat \<times> VerbsTransport \<times> 'w) option" where
  "pollStep S B isAborted dl p sendWrs recvNeed = (\<lambda>(sendDone, recvDone, v, w).
     if sendDone < sendWrs \<or> recvDone < recvNeed then
       (case pollOnce B v p w of (e, s, r, w1) \<Rightarrow>
        if e \<noteq> vcclSuccess then Some (Inr (e, recvDone + r, v, w1))
        else do { x \<leftarrow> checkWait S B isAborted True dl v w1;
                  Some (case x of
                      Inl (v2, w2) \<Rightarrow> Inl (sendDone + s, recvDone + r, v2, w2)
                    | Inr (e', v2, w2) \<Rightarrow> Inr (e', recvDone + r, v2, w2)) })
     else Some (Inr (vcclSuccess, recvDone, v, w)))"

definition pollPeer ::
  "'w sys \<Rightarrow> 'w ibv \<Rightarrow> ('w \<Rightarrow> bool) \<Rightarrow> nat \<Rightarrow> nat \<Rightarrow> nat \<Rightarrow> VerbsTransport \<Rightarrow> 'w \<Rightarrow> (vcclResult_t \<times> VerbsTransport \<times> 'w) option" where
  "pollPeer S B isAborted p sendWrs recvWrs v w =
     (case newDeadline S w of (dl, w1) \<Rightarrow>
      case takeRecvSurplus p recvWrs v of (recvNeed, v1) \<Rightarrow>
      do { (e, recvDone, v2, w2) \<leftarrow> iterO (pollStep S B isAborted dl p sendWrs recvNeed) (0, 0, v1, w1);
           Some (e, if e = vcclSuccess then creditSurplus p recvDone recvNeed v2 else v2, w2) })"

text \<open>The completion loop of a \<open>sendRecv\<close> between two different peers. It does not look at \<open>isAborted\<close>, and what it reaps
  of the other direction is not counted.\<close>

definition splitStep ::
  "'w sys \<Rightarrow> 'w ibv \<Rightarrow> Deadline \<Rightarrow> nat \<Rightarrow> nat \<Rightarrow> nat \<Rightarrow> nat \<Rightarrow> nat \<times> nat \<times> VerbsTransport \<times> 'w
    \<Rightarrow> (nat \<times> nat \<times> VerbsTransport \<times> 'w + vcclResult_t \<times> nat \<times> VerbsTransport \<times> 'w) option" where
  "splitStep S B dl sp sendWrs rp recvNeed = (\<lambda>(sendDone, recvDone, v, w).
     if sendDone < sendWrs \<or> recvDone < recvNeed then
       (case (if sendDone < sendWrs then pollOnce B v sp w else (vcclSuccess, 0, 0, w)) of (e, s, _, w1) \<Rightarrow>
        if e \<noteq> vcclSuccess then Some (Inr (e, recvDone, v, w1))
        else (case (if recvDone < recvNeed then pollOnce B v rp w1 else (vcclSuccess, 0, 0, w1)) of (e', _, r, w2) \<Rightarrow>
          if e' \<noteq> vcclSuccess then Some (Inr (e', recvDone + r, v, w2))
          else do { x \<leftarrow> checkWait S B (\<lambda>_. False) True dl v w2;
                    Some (case x of
                        Inl (v3, w3) \<Rightarrow> Inl (sendDone + s, recvDone + r, v3, w3)
                      | Inr (e3, v3, w3) \<Rightarrow> Inr (e3, recvDone + r, v3, w3)) }))
     else Some (Inr (vcclSuccess, recvDone, v, w)))"

definition splitPoll ::
  "'w sys \<Rightarrow> 'w ibv \<Rightarrow> nat \<Rightarrow> nat \<Rightarrow> nat \<Rightarrow> nat \<Rightarrow> VerbsTransport \<Rightarrow> 'w \<Rightarrow> (vcclResult_t \<times> VerbsTransport \<times> 'w) option" where
  "splitPoll S B sp sendWrs rp recvWrs v w =
     (case takeRecvSurplus rp recvWrs v of (recvNeed, v1) \<Rightarrow>
      case newDeadline S w of (dl, w1) \<Rightarrow>
      do { (e, recvDone, v2, w2) \<leftarrow> iterO (splitStep S B dl sp sendWrs rp recvNeed) (0, 0, v1, w1);
           Some (e, if e = vcclSuccess then creditSurplus rp recvDone recvNeed v2 else v2, w2) })"

subsection \<open>Point-to-point calls\<close>

text \<open>The requests of a receive: those of the oldest pre-posted receive from the peer, or new ones.\<close>

definition recvWrsFor ::
  "'w ibv \<Rightarrow> nat \<Rightarrow> addr \<Rightarrow> nat \<Rightarrow> VerbsTransport \<Rightarrow> 'w \<Rightarrow> vcclResult_t \<times> nat \<times> VerbsTransport \<times> 'w" where
  "recvWrsFor B p b n v w =
     (case prePostedRecv v ! p of
        k # ks \<Rightarrow> (vcclSuccess, k, v\<lparr>prePostedRecv := (prePostedRecv v)[p := ks]\<rparr>, w)
      | [] \<Rightarrow> postRecv B p b n v w)"

definition drained :: "'w ibv \<Rightarrow> vcclResult_t \<times> VerbsTransport \<times> 'w \<Rightarrow> vcclResult_t \<times> VerbsTransport \<times> 'w" where
  "drained B = (\<lambda>(e, v, w). if e = vcclSuccess then (e, drainCompleted B v w) else (e, v, w))"

definition verbsSend ::
  "'w sys \<Rightarrow> 'w ibv \<Rightarrow> ('w \<Rightarrow> bool) \<Rightarrow> nat \<Rightarrow> addr \<Rightarrow> nat \<Rightarrow> VerbsTransport \<Rightarrow> 'w \<Rightarrow> (vcclResult_t \<times> VerbsTransport \<times> 'w) option" where
  "verbsSend S B isAborted p b n v w =
     (if n = 0 then Some (vcclSuccess, v, w)
      else guarded B (case postSend B p b n v w of (e, wrs, v1, w1) \<Rightarrow>
        if e \<noteq> vcclSuccess then Some (e, v1, w1)
        else map_option (drained B) (pollPeer S B isAborted p wrs 0 v1 w1)))"

definition verbsRecv ::
  "'w sys \<Rightarrow> 'w ibv \<Rightarrow> ('w \<Rightarrow> bool) \<Rightarrow> nat \<Rightarrow> addr \<Rightarrow> nat \<Rightarrow> VerbsTransport \<Rightarrow> 'w \<Rightarrow> (vcclResult_t \<times> VerbsTransport \<times> 'w) option" where
  "verbsRecv S B isAborted p b n v w =
     (if n = 0 then Some (vcclSuccess, v, w)
      else guarded B (case recvWrsFor B p b n v w of (e, wrs, v1, w1) \<Rightarrow>
        if e \<noteq> vcclSuccess then Some (e, v1, w1)
        else map_option (drained B) (pollPeer S B isAborted p 0 wrs v1 w1)))"

definition verbsSendRecv ::
  "'w sys \<Rightarrow> 'w ibv \<Rightarrow> ('w \<Rightarrow> bool) \<Rightarrow> nat \<Rightarrow> addr \<Rightarrow> nat \<Rightarrow> nat \<Rightarrow> addr \<Rightarrow> nat \<Rightarrow> VerbsTransport \<Rightarrow> 'w
    \<Rightarrow> (vcclResult_t \<times> VerbsTransport \<times> 'w) option" where
  "verbsSendRecv S B isAborted sp sbuf sbytes rp rbuf rbytes v w =
     guarded B (case (if rbytes > 0 then recvWrsFor B rp rbuf rbytes v w else (vcclSuccess, 0, v, w)) of (e, recvWrs, v1, w1) \<Rightarrow>
       if e \<noteq> vcclSuccess then Some (e, v1, w1)
       else (case (if sbytes > 0 then postSend B sp sbuf sbytes v1 w1 else (vcclSuccess, 0, v1, w1)) of (e', sendWrs, v2, w2) \<Rightarrow>
         if e' \<noteq> vcclSuccess then Some (e', v2, w2)
         else map_option (drained B)
           (if sp = rp then pollPeer S B isAborted sp sendWrs recvWrs v2 w2
            else splitPoll S B sp sendWrs rp recvWrs v2 w2)))"

fun postReqs :: "'w ibv \<Rightarrow> RecvReq list \<Rightarrow> VerbsTransport \<Rightarrow> 'w \<Rightarrow> vcclResult_t \<times> VerbsTransport \<times> 'w" where
  "postReqs B [] v w = (vcclSuccess, v, w)"
| "postReqs B (r # rs) v w =
     (if rqBytes r = 0 then postReqs B rs v w
      else (case postRecv B (rqPeer r) (rqBuf r) (rqBytes r) v w of (e, wrs, v1, w1) \<Rightarrow>
        if e \<noteq> vcclSuccess then (e, v1, w1)
        else postReqs B rs (v1\<lparr>prePostedRecv := (prePostedRecv v1)[rqPeer r := prePostedRecv v1 ! rqPeer r @ [wrs]]\<rparr>) w1))"

definition verbsPostRecvs ::
  "'w ibv \<Rightarrow> RecvReq list \<Rightarrow> VerbsTransport \<Rightarrow> 'w \<Rightarrow> (vcclResult_t \<times> VerbsTransport \<times> 'w) option" where
  "verbsPostRecvs B reqs v w = guarded B (Some (postReqs B reqs v w))"

subsection \<open>Batches\<close>

text \<open>A wave is the front of the batch that \<open>waveEnd\<close> cuts off.\<close>

fun postWave ::
  "'w ibv \<Rightarrow> P2pOp list \<Rightarrow> (qkey \<Rightarrow> nat) \<Rightarrow> VerbsTransport \<Rightarrow> 'w \<Rightarrow> vcclResult_t \<times> (qkey \<Rightarrow> nat) \<times> VerbsTransport \<times> 'w" where
  "postWave B [] pst v w = (vcclSuccess, pst, v, w)"
| "postWave B (x # xs) pst v w =
     (if bytes x = 0 then postWave B xs pst v w
      else (case (if isSend x then postSend else postRecv) B (peer x) (buf x) (bytes x) v w of (e, wrs, v1, w1) \<Rightarrow>
        if e \<noteq> vcclSuccess then (e, pst, v1, w1)
        else postWave B xs (pst(opKey x := pst (opKey x) + wrs)) v1 w1))"

text \<open>The peers of a wave, in the order the map \<open>posted\<close> iterates, and whether a peer has work left.\<close>

definition wavePeers :: "P2pOp list \<Rightarrow> nat list" where
  "wavePeers ops = sort (remdups (map peer (filter (\<lambda>x. bytes x \<noteq> 0) ops)))"

definition waiting :: "(qkey \<Rightarrow> nat) \<Rightarrow> (qkey \<Rightarrow> nat) \<Rightarrow> nat \<Rightarrow> bool" where
  "waiting pst dn p \<longleftrightarrow> dn (p, True) < pst (p, True) \<or> dn (p, False) < pst (p, False)"

fun pollPeers ::
  "'w ibv \<Rightarrow> VerbsTransport \<Rightarrow> (qkey \<Rightarrow> nat) \<Rightarrow> nat list \<Rightarrow> (qkey \<Rightarrow> nat) \<Rightarrow> bool \<Rightarrow> 'w \<Rightarrow> vcclResult_t \<times> (qkey \<Rightarrow> nat) \<times> bool \<times> 'w" where
  "pollPeers B v pst [] dn pending w = (vcclSuccess, dn, pending, w)"
| "pollPeers B v pst (p # ps) dn pending w =
     (if waiting pst dn p then
        (case pollOnce B v p w of (e, s, r, w1) \<Rightarrow>
         let dn1 = dn((p, True) := dn (p, True) + s, (p, False) := dn (p, False) + r) in
         if e \<noteq> vcclSuccess then (e, dn1, pending, w1)
         else pollPeers B v pst ps dn1 (pending \<or> waiting pst dn1 p) w1)
      else pollPeers B v pst ps dn pending w)"

definition waveStep ::
  "'w sys \<Rightarrow> 'w ibv \<Rightarrow> ('w \<Rightarrow> bool) \<Rightarrow> Deadline \<Rightarrow> (qkey \<Rightarrow> nat) \<Rightarrow> nat list \<Rightarrow> (qkey \<Rightarrow> nat) \<times> VerbsTransport \<times> 'w
    \<Rightarrow> ((qkey \<Rightarrow> nat) \<times> VerbsTransport \<times> 'w + vcclResult_t \<times> VerbsTransport \<times> 'w) option" where
  "waveStep S B isAborted dl pst ps = (\<lambda>(dn, v, w).
     case pollPeers B v pst ps dn False w of (e, dn1, pending, w1) \<Rightarrow>
     if e \<noteq> vcclSuccess then Some (Inr (e, v, w1))
     else do { x \<leftarrow> checkWait S B isAborted pending dl v w1;
               Some (case x of
                   Inl (v2, w2) \<Rightarrow> if pending then Inl (dn1, v2, w2) else Inr (vcclSuccess, v2, w2)
                 | Inr r \<Rightarrow> Inr r) })"

definition verbsWave ::
  "'w sys \<Rightarrow> 'w ibv \<Rightarrow> ('w \<Rightarrow> bool) \<Rightarrow> P2pOp list \<Rightarrow> VerbsTransport \<Rightarrow> 'w \<Rightarrow> (vcclResult_t \<times> VerbsTransport \<times> 'w) option" where
  "verbsWave S B isAborted ops v w =
     (case postWave B ops (\<lambda>_. 0) v w of (e, pst, v1, w1) \<Rightarrow>
      if e \<noteq> vcclSuccess then Some (e, v1, w1)
      else (case newDeadline S w1 of (dl, w2) \<Rightarrow>
        map_option (drained B) (iterO (waveStep S B isAborted dl pst (wavePeers ops)) (\<lambda>_. 0, v1, w2))))"

function verbsWaves ::
  "'w sys \<Rightarrow> 'w ibv \<Rightarrow> ('w \<Rightarrow> bool) \<Rightarrow> P2pOp list \<Rightarrow> VerbsTransport \<Rightarrow> 'w \<Rightarrow> (vcclResult_t \<times> VerbsTransport \<times> 'w) option" where
  "verbsWaves S B isAborted ops v w =
     (if ops = [] then Some (vcclSuccess, v, w)
      else do { (e, v1, w1) \<leftarrow> verbsWave S B isAborted (take (waveEnd ops) ops) v w;
                if e \<noteq> vcclSuccess then Some (e, v1, w1)
                else verbsWaves S B isAborted (drop (waveEnd ops) ops) v1 w1 })"
  by pat_completeness auto
termination
  by (relation "measure (\<lambda>(S, B, isAborted, ops, v, w). length ops)") (auto simp: waveEnd_def)

declare verbsWaves.simps [simp del]

definition verbsBatch ::
  "'w sys \<Rightarrow> 'w ibv \<Rightarrow> ('w \<Rightarrow> bool) \<Rightarrow> P2pOp list \<Rightarrow> VerbsTransport \<Rightarrow> 'w \<Rightarrow> (vcclResult_t \<times> VerbsTransport \<times> 'w) option" where
  "verbsBatch S B isAborted ops v w = guarded B (verbsWaves S B isAborted ops v w)"

end
