(* ===== verification/Vccl_Verbs_Setup.thy ===== *)
theory Vccl_Verbs_Setup
  imports Vccl_Verbs Vccl_Bootstrap "HOL-Library.Sublist"
begin

text \<open>
  How a verbs transport comes to be (\<^verbatim>\<open>src/transport/verbs.cc\<close>): choice of a device, a port and a GID, one queue pair per
  peer, the exchange of their parameters through the bootstrap, and the destructor.

  The control calls of ibverbs are the record \<open>ibdev\<close>, over the same world as the data calls. Handles are numbers, 0 is
  null. \<open>gid_type\<close> is the content of the file in sysfs, \<open>mt19937\<close> the generator of the C++ library (seed and index).
  \<open>user_reg\<close> and \<open>user_reg_dmabuf\<close> are the answers of the driver to later registrations by the user, which the state of
  the transport carries (theory \<open>Vccl_Transport\<close>).
\<close>

unbundle bit_operations_syntax

subsection \<open>The library\<close>

record ibv_port_attr =
  paActive :: bool    \<comment> \<open>\<^verbatim>\<open>state == IBV_PORT_ACTIVE\<close>\<close>
  paEthernet :: bool    \<comment> \<open>\<^verbatim>\<open>link_layer == IBV_LINK_LAYER_ETHERNET\<close>\<close>
  paLid :: "16 word"
  paMtu :: "8 word"
  paGidLen :: int

datatype ah_route =
    Grh "byte list" int nat    \<comment> \<open>destination GID, source GID index, hop limit\<close>
  | Dlid "16 word"

record rtr_attr =
  path_mtu :: "8 word"
  dest_qp_num :: "32 word"
  rq_psn :: "32 word"
  max_dest_rd_atomic :: nat
  min_rnr_timer :: "8 word"
  ah_port :: "8 word"
  ah_dest :: ah_route

record rts_attr =
  rts_timeout :: nat
  retry_cnt :: nat
  rnr_retry :: nat
  sq_psn :: "32 word"
  max_rd_atomic :: nat

datatype qp_attr = QpInit "8 word" | QpRtr rtr_attr | QpRts rts_attr

record 'w ibdev =
  ibv_get_device_list :: "'w \<Rightarrow> nat list option \<times> 'w"
  ibv_free_device_list :: "'w \<Rightarrow> 'w"
  ibv_get_device_name :: "nat \<Rightarrow> string"
  ibv_open_device :: "nat \<Rightarrow> 'w \<Rightarrow> nat \<times> 'w"
  ibv_close_device :: "nat \<Rightarrow> 'w \<Rightarrow> 'w"
  ibv_query_device :: "nat \<Rightarrow> 'w \<Rightarrow> 8 word option \<times> 'w"    \<comment> \<open>\<^verbatim>\<open>phys_port_cnt\<close>\<close>
  ibv_query_port :: "nat \<Rightarrow> 8 word \<Rightarrow> 'w \<Rightarrow> ibv_port_attr option \<times> 'w"
  ibv_query_gid :: "nat \<Rightarrow> 8 word \<Rightarrow> int \<Rightarrow> 'w \<Rightarrow> byte list option \<times> 'w"
  gid_type :: "string \<Rightarrow> 8 word \<Rightarrow> int \<Rightarrow> 'w \<Rightarrow> string option"
  ibv_alloc_pd :: "nat \<Rightarrow> 'w \<Rightarrow> nat \<times> 'w"
  ibv_dealloc_pd :: "nat \<Rightarrow> 'w \<Rightarrow> 'w"
  async_nonblock :: "nat \<Rightarrow> 'w \<Rightarrow> 'w"    \<comment> \<open>\<^verbatim>\<open>fcntl(async_fd, F_SETFL, O_NONBLOCK)\<close>\<close>
  ibv_create_cq :: "nat \<Rightarrow> nat \<Rightarrow> 'w \<Rightarrow> nat \<times> 'w"
  ibv_destroy_cq :: "nat \<Rightarrow> 'w \<Rightarrow> 'w"
  ibv_create_qp :: "nat \<Rightarrow> nat \<Rightarrow> nat \<Rightarrow> nat \<Rightarrow> 'w \<Rightarrow> (nat \<times> nat) \<times> 'w"
    \<comment> \<open>protection domain, completion queue, queue depth, inline size wanted; the inline size granted\<close>
  ibv_destroy_qp :: "nat \<Rightarrow> 'w \<Rightarrow> 'w"
  ibv_qp_num :: "nat \<Rightarrow> 32 word"
  ibv_modify_qp :: "nat \<Rightarrow> qp_attr \<Rightarrow> 'w \<Rightarrow> bool \<times> 'w"
  mt19937 :: "32 word \<Rightarrow> nat \<Rightarrow> 32 word"
  user_reg :: "addr \<Rightarrow> nat \<Rightarrow> mr"
  user_reg_dmabuf :: "int \<Rightarrow> nat \<Rightarrow> nat \<Rightarrow> mr"

subsection \<open>Choosing a GID\<close>

definition gidIsZero :: "byte list \<Rightarrow> bool" where
  "gidIsZero g = list_all (\<lambda>b. b = 0) g"

definition gidIsRoceV2 :: "'w ibdev \<Rightarrow> string \<Rightarrow> 8 word \<Rightarrow> int \<Rightarrow> 'w \<Rightarrow> bool" where
  "gidIsRoceV2 D name port i w =
     (case gid_type D name port i w of
        None \<Rightarrow> False
      | Some content \<Rightarrow> sublist ''RoCE v2'' (takeWhile (\<lambda>c. c \<noteq> CHR 0x00) (take 31 content)))"

definition gidIsIpv4Mapped :: "byte list \<Rightarrow> bool" where
  "gidIsIpv4Mapped g \<longleftrightarrow> list_all (\<lambda>i. g ! i = 0) [0..<10] \<and> g ! 10 = 0xff \<and> g ! 11 = 0xff"

definition gidIsLinkLocal :: "byte list \<Rightarrow> bool" where
  "gidIsLinkLocal g \<longleftrightarrow> g ! 0 = 0xfe \<and> (g ! 1 AND 0xc0) = 0x80"

definition gidScore :: "'w ibdev \<Rightarrow> string \<Rightarrow> 8 word \<Rightarrow> int \<Rightarrow> byte list \<Rightarrow> 'w \<Rightarrow> int" where
  "gidScore D name port i g w =
     (if gidIsRoceV2 D name port i w then if gidIsIpv4Mapped g then 3 else if gidIsLinkLocal g then 1 else 2 else 0)"

text \<open>The loop over the GID table; its state is the best index so far, its score and its GID.\<close>

fun gidLoop ::
  "'w ibdev \<Rightarrow> nat \<Rightarrow> string \<Rightarrow> 8 word \<Rightarrow> int list \<Rightarrow> int \<times> int \<times> byte list \<Rightarrow> 'w \<Rightarrow> (int \<times> int \<times> byte list) \<times> 'w" where
  "gidLoop D ctx name port [] b w = (b, w)"
| "gidLoop D ctx name port (i # is) (best, bestScore, bestGid) w =
     (case ibv_query_gid D ctx port i w of
        (None, w1) \<Rightarrow> gidLoop D ctx name port is (best, bestScore, bestGid) w1
      | (Some g, w1) \<Rightarrow>
          if gidIsZero g then gidLoop D ctx name port is (best, bestScore, bestGid) w1
          else let score = gidScore D name port i g w1 in
               gidLoop D ctx name port is (if score > bestScore then (i, score, g) else (best, bestScore, bestGid)) w1)"

definition pickGid :: "'w sys \<Rightarrow> 'w ibdev \<Rightarrow> string \<Rightarrow> Device \<Rightarrow> 'w \<Rightarrow> vcclResult_t \<times> Device \<times> 'w" where
  "pickGid S D name d w =
     (case sys_getenv S ''VCCL_GID_INDEX'' of
        Some ev \<Rightarrow>
          (case ibv_query_gid D (devCtx d) (devPort d) (atoi ev) w of
             (None, w1) \<Rightarrow> (vcclSystemError, d\<lparr>devGidIndex := atoi ev\<rparr>, w1)
           | (Some g, w1) \<Rightarrow> (vcclSuccess, d\<lparr>devGidIndex := atoi ev, devGid := g\<rparr>, w1))
      | None \<Rightarrow>
          (case gidLoop D (devCtx d) name (devPort d) (map int [0..<nat (devGidLen d)]) (-1, -1, replicate 16 0) w of
             ((best, _, g), w1) \<Rightarrow>
               if best < 0 then (vcclSystemError, d, w1)
               else (vcclSuccess, d\<lparr>devGidIndex := best, devGid := g\<rparr>, w1)))"

subsection \<open>Choosing a device\<close>

text \<open>The search for an active port. The counter has eight bits.\<close>

definition portStep ::
  "'w ibdev \<Rightarrow> nat \<Rightarrow> 8 word \<Rightarrow> 8 word \<times> 'w \<Rightarrow> 8 word \<times> 'w + (8 word \<times> ibv_port_attr) option \<times> 'w" where
  "portStep D ctx cnt = (\<lambda>(p, w).
     if p \<le> cnt then
       (case ibv_query_port D ctx p w of
          (None, w1) \<Rightarrow> Inl (p + 1, w1)
        | (Some pa, w1) \<Rightarrow> if \<not> paActive pa then Inl (p + 1, w1) else Inr (Some (p, pa), w1))
     else Inr (None, w))"

text \<open>A device with an active port: its GID and its protection domain. The first component says whether it is usable; the
  search goes on if not.\<close>

definition useDevice ::
  "'w sys \<Rightarrow> 'w ibdev \<Rightarrow> string \<Rightarrow> nat \<Rightarrow> 8 word \<Rightarrow> ibv_port_attr \<Rightarrow> Device \<Rightarrow> 'w \<Rightarrow> bool \<times> Device \<times> 'w" where
  "useDevice S D name ctx p pa d w =
     (let d1 = d\<lparr>devCtx := ctx, devPort := p, devLid := paLid pa, devMtu := paMtu pa, devGidLen := paGidLen pa, devRoce := paEthernet pa\<rparr> in
      case (if devRoce d1 then pickGid S D name d1 w else (vcclSuccess, d1, w)) of (res, d2, w1) \<Rightarrow>
      if res \<noteq> vcclSuccess then (False, d2\<lparr>devCtx := 0\<rparr>, ibv_close_device D ctx w1)
      else (case ibv_alloc_pd D ctx w1 of (pd, w2) \<Rightarrow>
        if pd = 0 then (False, d2\<lparr>devPd := 0, devCtx := 0\<rparr>, ibv_close_device D ctx w2)
        else (True, d2\<lparr>devPd := pd\<rparr>, async_nonblock D ctx w2)))"

definition tryDevice :: "'w sys \<Rightarrow> 'w ibdev \<Rightarrow> nat \<Rightarrow> Device \<Rightarrow> 'w \<Rightarrow> (bool \<times> Device \<times> 'w) option" where
  "tryDevice S D i d w =
     (let name = ibv_get_device_name D i; want = sys_getenv S ''VCCL_IB_HCA'' in
      if want \<noteq> None \<and> want \<noteq> Some name then Some (False, d, w)
      else (case ibv_open_device D i w of (ctx, w1) \<Rightarrow>
        if ctx = 0 then Some (False, d, w1)
        else (case ibv_query_device D ctx w1 of
            (None, w2) \<Rightarrow> Some (False, d, ibv_close_device D ctx w2)
          | (Some cnt, w2) \<Rightarrow>
              do { (found, w3) \<leftarrow> iter (portStep D ctx cnt) (1, w2);
                   Some (case found of
                       None \<Rightarrow> (False, d, ibv_close_device D ctx w3)
                     | Some (p, pa) \<Rightarrow> useDevice S D name ctx p pa d w3) })))"

fun deviceLoop :: "'w sys \<Rightarrow> 'w ibdev \<Rightarrow> nat list \<Rightarrow> Device \<Rightarrow> 'w \<Rightarrow> (vcclResult_t \<times> Device \<times> 'w) option" where
  "deviceLoop S D [] d w = Some (vcclSystemError, d, w)"
| "deviceLoop S D (i # is) d w =
     do { (done, d1, w1) \<leftarrow> tryDevice S D i d w;
          if done then Some (vcclSuccess, d1, w1) else deviceLoop S D is d1 w1 }"

definition openDevice :: "'w sys \<Rightarrow> 'w ibdev \<Rightarrow> Device \<Rightarrow> 'w \<Rightarrow> (vcclResult_t \<times> Device \<times> 'w) option" where
  "openDevice S D d w =
     (case ibv_get_device_list D w of
        (None, w1) \<Rightarrow> Some (vcclSystemError, d, w1)
      | (Some ds, w1) \<Rightarrow>
          if ds = [] then Some (vcclSystemError, d, ibv_free_device_list D w1)
          else do { (res, d1, w2) \<leftarrow> deviceLoop S D ds d w1; Some (res, d1, ibv_free_device_list D w2) })"

definition verbsAvailable :: "'w ibdev \<Rightarrow> 'w \<Rightarrow> bool \<times> 'w" where
  "verbsAvailable D w =
     (case ibv_get_device_list D w of
        (None, w1) \<Rightarrow> (False, w1)
      | (Some ds, w1) \<Rightarrow> (length ds > 0, ibv_free_device_list D w1))"

subsection \<open>Queue pairs\<close>

definition kWantInline :: nat where "kWantInline = 220"

record QpInfo =
  qpn :: "32 word"
  psn :: "32 word"
  lid :: "16 word"
  mtu :: "8 word"
  pad :: "8 word"
  gid :: "byte list"

definition zeroQp :: QpInfo where
  "zeroQp = \<lparr>qpn = 0, psn = 0, lid = 0, mtu = 0, pad = 0, gid = replicate 16 0\<rparr>"

definition htonl :: "32 word \<Rightarrow> 32 word" where
  "htonl w = word_of_bytes (rev (bytes_of w))"

definition qpInfoSwap :: "QpInfo \<Rightarrow> QpInfo" where
  "qpInfoSwap q = q\<lparr>qpn := htonl (qpn q), psn := htonl (psn q), lid := htons (lid q)\<rparr>"

definition encodeQp :: "QpInfo \<Rightarrow> byte list" where
  "encodeQp q = bytes_of (qpn q) @ bytes_of (psn q) @ bytes_of (lid q) @ [mtu q, pad q] @ gid q"

definition decodeQp :: "byte list \<Rightarrow> QpInfo" where
  "decodeQp b = \<lparr>qpn = word_of_bytes (take 4 b), psn = word_of_bytes (take 4 (drop 4 b)), lid = word_of_bytes (take 2 (drop 8 b)),
     mtu = b ! 10, pad = b ! 11, gid = take 16 (drop 12 b)\<rparr>"

definition createQp :: "'w ibdev \<Rightarrow> nat \<Rightarrow> VerbsTransport \<Rightarrow> 'w \<Rightarrow> vcclResult_t \<times> VerbsTransport \<times> 'w" where
  "createQp D p v w =
     (case ibv_create_cq D (devCtx (dev v)) (2 * kQueueDepth) w of (cq, w1) \<Rightarrow>
      if cq = 0 then (vcclSystemError, v, w1)
      else let v1 = v\<lparr>cqs := (cqs v)[p := cq]\<rparr> in
        (case ibv_create_qp D (devPd (dev v)) cq kQueueDepth kWantInline w1 of ((qp, inl), w2) \<Rightarrow>
         case (if qp = 0 then ibv_create_qp D (devPd (dev v)) cq kQueueDepth 0 w2 else ((qp, inl), w2)) of ((qp', inl'), w3) \<Rightarrow>
         if qp' = 0 then (vcclSystemError, v1, w3)
         else let v2 = v1\<lparr>qps := (qps v1)[p := qp'], maxInline := (maxInline v1)[p := inl']\<rparr> in
           (case ibv_modify_qp D qp' (QpInit (devPort (dev v))) w3 of (acc, w4) \<Rightarrow>
            (if acc then vcclSuccess else vcclSystemError, v2, w4))))"

definition rtrAttr :: "getenv \<Rightarrow> Device \<Rightarrow> QpInfo \<Rightarrow> QpInfo \<Rightarrow> rtr_attr" where
  "rtrAttr ev d mine theirs =
     \<lparr>path_mtu = min (mtu mine) (mtu theirs), dest_qp_num = qpn theirs, rq_psn = psn theirs, max_dest_rd_atomic = 1,
      min_rnr_timer = (case ev ''VCCL_MIN_RNR_TIMER'' of None \<Rightarrow> 1 | Some e \<Rightarrow> word_of_int (atoi e) AND 0x1f),
      ah_port = devPort d,
      ah_dest = (if devRoce d then Grh (gid theirs) (devGidIndex d) 64 else Dlid (lid theirs))\<rparr>"

definition rtsAttr :: "QpInfo \<Rightarrow> rts_attr" where
  "rtsAttr mine = \<lparr>rts_timeout = 14, retry_cnt = 7, rnr_retry = 7, sq_psn = psn mine, max_rd_atomic = 1\<rparr>"

definition connectQp :: "'w sys \<Rightarrow> 'w ibdev \<Rightarrow> nat \<Rightarrow> QpInfo \<Rightarrow> QpInfo \<Rightarrow> VerbsTransport \<Rightarrow> 'w \<Rightarrow> vcclResult_t \<times> 'w" where
  "connectQp S D p mine theirs v w =
     (case ibv_modify_qp D (qps v ! p) (QpRtr (rtrAttr (sys_getenv S) (dev v) mine theirs)) w of (acc, w1) \<Rightarrow>
      if \<not> acc then (vcclSystemError, w1)
      else (case ibv_modify_qp D (qps v ! p) (QpRts (rtsAttr mine)) w1 of (acc', w2) \<Rightarrow>
        (if acc' then vcclSuccess else vcclSystemError, w2)))"

subsection \<open>Creation and destruction\<close>

text \<open>The loop that creates the queue pairs; \<open>k\<close> counts the numbers drawn from the generator.\<close>

fun createQps ::
  "'w ibdev \<Rightarrow> 32 word \<Rightarrow> nat \<Rightarrow> nat list \<Rightarrow> nat \<Rightarrow> QpInfo list \<Rightarrow> VerbsTransport \<Rightarrow> 'w \<Rightarrow> vcclResult_t \<times> QpInfo list \<times> VerbsTransport \<times> 'w" where
  "createQps D seed r [] k infos v w = (vcclSuccess, infos, v, w)"
| "createQps D seed r (p # ps) k infos v w =
     (if p = r then createQps D seed r ps k infos v w
      else (case createQp D p v w of (res, v1, w1) \<Rightarrow>
        if res \<noteq> vcclSuccess then (res, infos, v1, w1)
        else let info = (infos ! p)\<lparr>qpn := ibv_qp_num D (qps v1 ! p), psn := mt19937 D seed k AND 0xffffff, lid := devLid (dev v1),
                          mtu := devMtu (dev v1), gid := devGid (dev v1)\<rparr>
             in createQps D seed r ps (Suc k) (infos[p := info]) v1 w1))"

fun connectQps :: "'w sys \<Rightarrow> 'w ibdev \<Rightarrow> nat \<Rightarrow> nat \<Rightarrow> QpInfo list \<Rightarrow> nat list \<Rightarrow> VerbsTransport \<Rightarrow> 'w \<Rightarrow> vcclResult_t \<times> 'w" where
  "connectQps S D r n alls [] v w = (vcclSuccess, w)"
| "connectQps S D r n alls (p # ps) v w =
     (if p = r then connectQps S D r n alls ps v w
      else (case connectQp S D p (alls ! (r * n + p)) (alls ! (p * n + r)) v w of (res, w1) \<Rightarrow>
        if res \<noteq> vcclSuccess then (res, w1) else connectQps S D r n alls ps v w1))"

text \<open>The rows of all ranks as they are exchanged: every rank fills its own row, in network byte order.\<close>

definition qpRow :: "nat \<Rightarrow> QpInfo list \<Rightarrow> byte list" where
  "qpRow r infos = concat (map (\<lambda>p. encodeQp (if p \<noteq> r then qpInfoSwap (infos ! p) else infos ! p)) [0..<length infos])"

definition qpTable :: "nat \<Rightarrow> byte list \<Rightarrow> QpInfo list" where
  "qpTable n b = map (\<lambda>i. qpInfoSwap (decodeQp (take 28 (drop (i * 28) b)))) [0..<n * n]"

definition nullDevice :: Device where
  "nullDevice = \<lparr>devCtx = 0, devPd = 0, devPort = 1, devLid = 0, devMtu = 0, devGidLen = 0, devGidIndex = 0, devGid = replicate 16 0,
     devRoce = False\<rparr>"

definition newVerbs :: "'w ibdev \<Rightarrow> nat \<Rightarrow> Device \<Rightarrow> VerbsTransport" where
  "newVerbs D n d = \<lparr>regions = [], next_node = 1, ibv_reg_mr = user_reg D, ibv_reg_dmabuf_mr = user_reg_dmabuf D, dev = d,
     cqs = replicate n 0, qps = replicate n 0, maxInline = replicate n 0, prePostedRecv = replicate n [],
     recvSurplus = replicate n 0, asyncFatal = False, pendingCopyback = [], tempMrs = []\<rparr>"

text \<open>The destructor. Staging buffers are ordinary heap memory, whose release is left out.\<close>

definition verbsDestroy :: "'w ibv \<Rightarrow> 'w ibdev \<Rightarrow> VerbsTransport \<Rightarrow> 'w \<Rightarrow> 'w" where
  "verbsDestroy B D v w =
     (let w1 = fold (\<lambda>r. ibv_dereg_mr B (rmr r)) (regions v) w;
          w2 = fold (\<lambda>q w. if q \<noteq> 0 then ibv_destroy_qp D q w else w) (qps v) w1;
          w3 = fold (\<lambda>c w. if c \<noteq> 0 then ibv_destroy_cq D c w else w) (cqs v) w2;
          w4 = (if devPd (dev v) \<noteq> 0 then ibv_dealloc_pd D (devPd (dev v)) w3 else w3)
      in if devCtx (dev v) \<noteq> 0 then ibv_close_device D (devCtx (dev v)) w4 else w4)"

text \<open>The object is destroyed when a step fails.\<close>

definition verbsTransportCreate ::
  "'w sys \<Rightarrow> 'w ibv \<Rightarrow> 'w ibdev \<Rightarrow> Bootstrap \<Rightarrow> 'w \<Rightarrow> (vcclResult_t \<times> VerbsTransport option \<times> 'w) option" where
  "verbsTransportCreate S B D bs w =
     do { (res, d, w1) \<leftarrow> openDevice S D nullDevice w;
          if res \<noteq> vcclSuccess then Some (res, None, verbsDestroy B D (newVerbs D 0 d) w1)
          else let r = bsRank bs; n = bsNranks bs in
            (case sys_random S w1 of (seed, w2) \<Rightarrow>
             case createQps D seed r [0..<n] 0 (replicate n zeroQp) (newVerbs D n d) w2 of (res1, infos, v, w3) \<Rightarrow>
             if res1 \<noteq> vcclSuccess then Some (res1, None, verbsDestroy B D v w3)
             else do { (res2, b, w4) \<leftarrow> bsAllGather S bs (patch (replicate (n * (28 * n)) 0) (r * (28 * n)) (qpRow r infos)) (28 * n) w3;
                  if res2 \<noteq> vcclSuccess then Some (res2, None, verbsDestroy B D v w4)
                  else (case connectQps S D r n (qpTable n b) [0..<n] v w4 of (res3, w5) \<Rightarrow>
                    if res3 \<noteq> vcclSuccess then Some (res3, None, verbsDestroy B D v w5)
                    else do { (res4, w6) \<leftarrow> bsBarrier S bs w5;
                         if res4 \<noteq> vcclSuccess then Some (res4, None, verbsDestroy B D v w6)
                         else Some (vcclSuccess, Some v, w6) }) }) }"

end
