(* ===== verification/Vccl_Init.thy ===== *)
theory Vccl_Init
  imports Vccl_Bootstrap Vccl_Tcp Vccl_Verbs_Setup
begin

text \<open>
  How a communicator comes to be: the mesh of the TCP transport (\<open>TcpTransport::create\<close>), the choice of a transport
  (\<open>transportCreate\<close>, \<^verbatim>\<open>src/transport/tcp.cc\<close>) and the entry points \<open>vcclGetUniqueId\<close>, \<open>vcclCommInitRank\<close>,
  \<open>vcclCommInitRankConfig\<close> and \<open>vcclCommSplit\<close> of \<^verbatim>\<open>src/core/comm.cc\<close>.

  The ibverbs library is an argument, \<open>None\<close> in a build without it. A new communicator keeps its bootstrap and, for TCP,
  the table of sockets beside the record \<open>vcclComm\<close> that the collectives work on. An object that was being built when
  a step fails is destroyed, which closes its descriptors.
\<close>

subsection \<open>The TCP mesh\<close>

definition encodeWire :: "WireAddr \<Rightarrow> byte list" where
  "encodeWire a = bytes_of (of_nat (wfamily a) :: 16 word) @ bytes_of (wport a) @ waddr a"

definition decodeWire :: "byte list \<Rightarrow> WireAddr" where
  "decodeWire b = \<lparr>wfamily = unat (word_of_bytes (take 2 b) :: 16 word), wport = word_of_bytes (take 2 (drop 2 b)),
     waddr = take 16 (drop 4 b)\<rparr>"

text \<open>Connections to the lower ranks, in rank order.\<close>

fun tcpConnects ::
  "'w sys \<Rightarrow> nat \<Rightarrow> SocketAddr list \<Rightarrow> nat list \<Rightarrow> int list \<Rightarrow> 'w \<Rightarrow> (vcclResult_t \<times> int list \<times> 'w) option" where
  "tcpConnects S r addrs [] fds w = Some (vcclSuccess, fds, w)"
| "tcpConnects S r addrs (p # ps) fds w =
     do { (res, fd, w1) \<leftarrow> connectTo S (addrs ! p) (connectTimeoutMs (sys_getenv S)) w;
          if res \<noteq> vcclSuccess then Some (res, fds, w1)
          else do { (res', w2) \<leftarrow> sendAll S fd (bytes_of (of_nat r :: 32 word)) w1;
                    if res' \<noteq> vcclSuccess then Some (res', fds, closeQuiet S fd w2)
                    else tcpConnects S r addrs ps (fds[p := fd]) w2 } }"

text \<open>Connections from the higher ranks, as many as there are, in the order they arrive. A rank that was not received
  completely is reported as it stands; the call fails then.\<close>

fun tcpAccepts ::
  "'w sys \<Rightarrow> int \<Rightarrow> nat \<Rightarrow> nat \<Rightarrow> nat \<Rightarrow> int list \<Rightarrow> 'w \<Rightarrow> (vcclResult_t \<times> int list \<times> 'w) option" where
  "tcpAccepts S listenFd r n 0 fds w = Some (vcclSuccess, fds, w)"
| "tcpAccepts S listenFd r n (Suc k) fds w =
     do { (res, fd, w1) \<leftarrow> acceptOne S listenFd w;
          if res \<noteq> vcclSuccess then Some (res, fds, w1)
          else do { (res', got, w2) \<leftarrow> recvAll S fd 4 w1;
                    let peerRank = sint (word_of_bytes got :: 32 word) in
                    if res' \<noteq> vcclSuccess \<or> peerRank \<le> int r \<or> peerRank \<ge> int n \<or> fds ! nat peerRank \<noteq> -1
                    then Some (if res' = vcclSuccess then vcclInternalError else res', fds, closeQuiet S fd w2)
                    else tcpAccepts S listenFd r n k (fds[nat peerRank := fd]) w2 } }"

text \<open>The connections to all peers; the listening socket is closed in every case.\<close>

definition tcpMesh ::
  "'w sys \<Rightarrow> nat \<Rightarrow> nat \<Rightarrow> int \<Rightarrow> SocketAddr list \<Rightarrow> 'w \<Rightarrow> (vcclResult_t \<times> int list \<times> 'w) option" where
  "tcpMesh S r n listenFd addrs w =
     do { (res, fds, w1) \<leftarrow> tcpConnects S r addrs [0..<r] (replicate n (-1)) w;
          (res', fds', w2) \<leftarrow> (if res = vcclSuccess
             then tcpAccepts S listenFd r n (n - (r + 1)) fds w1 else Some (res, fds, w1));
          Some (res', fds', closeQuiet S listenFd w2) }"

definition tcpTransportCreate :: "'w sys \<Rightarrow> Bootstrap \<Rightarrow> 'w \<Rightarrow> (vcclResult_t \<times> int list \<times> 'w) option" where
  "tcpTransportCreate S bs w =
     (let r = bsRank bs; n = bsNranks bs in
      case createListenSocket S 0 w of (res, listenFd, port, w1) \<Rightarrow>
      if res \<noteq> vcclSuccess then Some (res, [], w1)
      else (case getAdvertisedAddr S w1 of (res', myAddr) \<Rightarrow>
        if res' \<noteq> vcclSuccess then Some (res', [], w1)
        else let mine = encodeWire (toWire (setPort port myAddr));
                 wireAddrs = patch (replicate (n * 20) 0) (r * 20) mine in
             do { (res'', b, w2) \<leftarrow> bsAllGather S bs wireAddrs 20 w1;
                  if res'' \<noteq> vcclSuccess then Some (res'', [], closeQuiet S listenFd w2)
                  else let addrs = map (\<lambda>i. fromWire (decodeWire (take 20 (drop (i * 20) b)))) [0..<n] in
                       do { (res3, fds, w3) \<leftarrow> tcpMesh S r n listenFd addrs w2;
                            if res3 \<noteq> vcclSuccess then Some (res3, [], tcpClose S fds w3)
                            else Some (vcclSuccess, fds, fold (\<lambda>fd w. if fd \<ge> 0 then sys_nonblock S fd w else w) fds w3) } }))"

subsection \<open>The choice of a transport\<close>

type_synonym 'w ibverbs = "'w ibv \<times> 'w ibdev"

text \<open>The new transport: the part the communicator's operations look at, and the sockets of a TCP transport.\<close>

definition createTcp :: "'w sys \<Rightarrow> Bootstrap \<Rightarrow> 'w \<Rightarrow> (vcclResult_t \<times> (Transport \<times> int list) option \<times> 'w) option" where
  "createTcp S bs w =
     do { (res, fds, w') \<leftarrow> tcpTransportCreate S bs w;
          Some (res, if res = vcclSuccess then Some (\<lparr>impl = TcpTransport, taborted = False\<rparr>, fds) else None, w') }"

definition createVerbs ::
  "'w sys \<Rightarrow> 'w ibverbs \<Rightarrow> Bootstrap \<Rightarrow> 'w \<Rightarrow> (vcclResult_t \<times> (Transport \<times> int list) option \<times> 'w) option" where
  "createVerbs S V bs w =
     do { (res, v, w') \<leftarrow> verbsTransportCreate S (fst V) (snd V) bs w;
          Some (res, map_option (\<lambda>v. (\<lparr>impl = Verbs v, taborted = False\<rparr>, [])) v, w') }"

definition transportCreate ::
  "'w sys \<Rightarrow> 'w ibverbs option \<Rightarrow> Bootstrap \<Rightarrow> 'w \<Rightarrow> (vcclResult_t \<times> (Transport \<times> int list) option \<times> 'w) option" where
  "transportCreate S verbs bs w =
     (let env = sys_getenv S ''VCCL_TRANSPORT'' in
      case verbs of
        Some V \<Rightarrow>
          if env = None \<or> env = Some ''verbs'' then
            (case verbsAvailable (snd V) w of (avail, w1) \<Rightarrow>
             if avail then createVerbs S V bs w1
             else if env \<noteq> None then Some (vcclSystemError, None, w1)
             else createTcp S bs w1)
          else if env \<noteq> Some ''tcp'' then Some (vcclInvalidArgument, None, w)
          else createTcp S bs w
      | None \<Rightarrow>
          if env = Some ''verbs'' then Some (vcclInvalidUsage, None, w)
          else if env \<noteq> None \<and> env \<noteq> Some ''tcp'' then Some (vcclInvalidArgument, None, w)
          else createTcp S bs w)"

subsection \<open>Communicators\<close>

record newComm =
  ncComm :: vcclComm
  ncBootstrap :: Bootstrap
  ncFds :: "int list"

definition emptyComm :: "nat \<Rightarrow> nat \<Rightarrow> Transport option \<Rightarrow> vcclComm" where
  "emptyComm r n t = \<lparr>rank = r, nranks = n, transport = t, registrations = [], customOps = [], asyncError = vcclSuccess,
     aborted = False, lastError = [], scratchBuf = 0, scratchSize = 0, scratchRegHandle = 0, mrCache = [], mrClock = 0,
     scopedRegs = []\<rparr>"

definition vcclGetUniqueId :: "'w sys \<Rightarrow> bool \<Rightarrow> registry \<Rightarrow> 'w \<Rightarrow> vcclResult_t \<times> byte list \<times> registry \<times> 'w" where
  "vcclGetUniqueId S out reg w = (if \<not> out then (vcclInvalidArgument, [], reg, w) else uniqueIdCreate S reg w)"

definition vcclCommInitRank ::
  "'w sys \<Rightarrow> 'w ibverbs option \<Rightarrow> bool \<Rightarrow> int \<Rightarrow> byte list \<Rightarrow> int \<Rightarrow> registry \<Rightarrow> 'w
    \<Rightarrow> (vcclResult_t \<times> newComm option \<times> registry \<times> 'w) option" where
  "vcclCommInitRank S verbs out n commId r reg w =
     (if \<not> out \<or> n < 1 \<or> r < 0 \<or> r \<ge> n then Some (vcclInvalidArgument, None, reg, w)
      else do { (res, bs, reg1, w1) \<leftarrow> bootstrapInit S commId (nat r) (nat n) reg w;
           case bs of
             None \<Rightarrow> Some (res, None, reg1, w1)
           | Some b \<Rightarrow>
               if n > 1 then
                 do { (res', t, w2) \<leftarrow> transportCreate S verbs b w1;
                      case t of
                        None \<Rightarrow> Some (res', None, reg1, bsDestroy S b w2)
                      | Some (tr, fds) \<Rightarrow>
                          Some (vcclSuccess, Some \<lparr>ncComm = emptyComm (nat r) (nat n) (Some tr), ncBootstrap = b, ncFds = fds\<rparr>,
                                reg1, w2) }
               else Some (vcclSuccess, Some \<lparr>ncComm = emptyComm (nat r) (nat n) None, ncBootstrap = b, ncFds = []\<rparr>, reg1, w1) })"

definition vcclCommInitRankConfig ::
  "'w sys \<Rightarrow> 'w ibverbs option \<Rightarrow> bool \<Rightarrow> int \<Rightarrow> byte list \<Rightarrow> int \<Rightarrow> nat option \<Rightarrow> registry \<Rightarrow> 'w
    \<Rightarrow> (vcclResult_t \<times> newComm option \<times> registry \<times> 'w) option" where
  "vcclCommInitRankConfig S verbs out n commId r config reg w =
     (if validateConfig config \<noteq> vcclSuccess then Some (validateConfig config, None, reg, w)
      else vcclCommInitRank S verbs out n commId r reg w)"

text \<open>What \<open>vcclCommInitAll\<close> makes of the results of its threads.\<close>

fun initAllResult :: "vcclResult_t list \<Rightarrow> vcclResult_t" where
  "initAllResult [] = vcclSuccess"
| "initAllResult (r # rs) = (if r \<noteq> vcclSuccess then r else initAllResult rs)"

definition splitInfo :: "int \<Rightarrow> int \<Rightarrow> byte list" where
  "splitInfo color key = bytes_of (word_of_int color :: 32 word) @ bytes_of (word_of_int key :: 32 word)"

definition splitDecode :: "nat \<Rightarrow> byte list \<Rightarrow> (int \<times> int) list" where
  "splitDecode n b = map (\<lambda>r. (sint (word_of_bytes (take 4 (drop (r * 8) b)) :: 32 word),
                               sint (word_of_bytes (take 4 (drop (r * 8 + 4) b)) :: 32 word))) [0..<n]"

definition vcclCommSplit ::
  "'w sys \<Rightarrow> 'w ibverbs option \<Rightarrow> newComm option \<Rightarrow> int \<Rightarrow> int \<Rightarrow> bool \<Rightarrow> nat option \<Rightarrow> registry \<Rightarrow> 'w
    \<Rightarrow> (vcclResult_t \<times> newComm option \<times> registry \<times> 'w) option" where
  "vcclCommSplit S verbs cm color key out config reg w =
     (case cm of
        None \<Rightarrow> Some (vcclInvalidArgument, None, reg, w)
      | Some c \<Rightarrow>
          if \<not> out then Some (vcclInvalidArgument, None, reg, w)
          else if validateConfig config \<noteq> vcclSuccess then Some (validateConfig config, None, reg, w)
          else let r = rank (ncComm c); n = nranks (ncComm c) in
            do { (res, b, w1) \<leftarrow> bsAllGather S (ncBootstrap c) (patch (replicate (n * 8) 0) (r * 8) (splitInfo color key)) 8 w;
                 if res \<noteq> vcclSuccess then Some (res, None, reg, w1)
                 else let members = splitMembers (splitDecode n b) color; newRank = splitRank members r;
                          zero = replicate (n * VCCL_UNIQUE_ID_BYTES) 0;
                          (res1, ids, reg1, w2) =
                            (if newRank = 0
                             then (case vcclGetUniqueId S True reg w1 of
                                     (e, uid, reg1, w2) \<Rightarrow> (e, patch zero (r * VCCL_UNIQUE_ID_BYTES) uid, reg1, w2))
                             else (vcclSuccess, zero, reg, w1))
                      in if res1 \<noteq> vcclSuccess then Some (res1, None, reg1, w2)
                         else do { (res2, b2, w3) \<leftarrow> bsAllGather S (ncBootstrap c) ids VCCL_UNIQUE_ID_BYTES w2;
                              if res2 \<noteq> vcclSuccess then Some (res2, None, reg1, w3)
                              else if color < 0 then Some (vcclSuccess, None, reg1, w3)
                              else vcclCommInitRank S verbs True (int (length members))
                                     (take VCCL_UNIQUE_ID_BYTES (drop (snd (hd members) * VCCL_UNIQUE_ID_BYTES) b2))
                                     newRank reg1 w3 } })"

end
