(* ===== verification/Vccl_Descriptors.thy ===== *)
theory Vccl_Descriptors
  imports Vccl_Socket_Spec
begin

text \<open>
  Which descriptors a process holds. A \<open>netview\<close> of the world has the bytes each descriptor has accepted and handed
  out and the set of open descriptors; \<open>sockets S N\<close> states what POSIX documents of the calls that open and close
  them. From it follow the effects of \<open>connectTo\<close>, \<open>acceptOne\<close> and \<open>createListenSocket\<close>: they open the descriptor they
  return when they succeed, and none when they fail.
\<close>

record netview =
  nvOut :: "int \<Rightarrow> byte list"
  nvIn :: "int \<Rightarrow> byte list"
  nvOpen :: "int set"

definition opened :: "int \<Rightarrow> netview \<Rightarrow> netview \<Rightarrow> bool" where
  "opened fd v v' \<longleftrightarrow> 0 \<le> fd \<and> fd \<notin> nvOpen v \<and> nvOpen v' = insert fd (nvOpen v) \<and> nvOut v' fd = [] \<and> nvIn v' fd = [] \<and>
     (\<forall>x\<in>nvOpen v. nvOut v' x = nvOut v x \<and> nvIn v' x = nvIn v x)"

definition closed :: "int \<Rightarrow> netview \<Rightarrow> netview \<Rightarrow> bool" where
  "closed fd v v' \<longleftrightarrow> nvOpen v' = nvOpen v - {fd} \<and> (\<forall>x\<in>nvOpen v'. nvOut v' x = nvOut v x \<and> nvIn v' x = nvIn v x)"

text \<open>Nothing happens to the descriptors that are open.\<close>

definition framed :: "netview \<Rightarrow> netview \<Rightarrow> bool" where
  "framed v v' \<longleftrightarrow> nvOpen v' = nvOpen v \<and> (\<forall>x\<in>nvOpen v. nvOut v' x = nvOut v x \<and> nvIn v' x = nvIn v x)"

definition sockets :: "'w sys \<Rightarrow> ('w \<Rightarrow> netview) \<Rightarrow> bool" where
  "sockets S N \<longleftrightarrow>
     streams S (\<lambda>w. nvOut (N w)) (\<lambda>w. nvIn (N w)) \<and>
     (\<forall>fd d w. nvOpen (N (snd (sys_send S fd d w))) = nvOpen (N w)) \<and>
     (\<forall>fd n w. nvOpen (N (snd (sys_recv S fd n w))) = nvOpen (N w)) \<and>
     (\<forall>ps ms w. nvOpen (N (snd (sys_poll S ps ms w))) = nvOpen (N w)) \<and>
     (\<forall>w. nvOpen (N (snd (sys_clock S w))) = nvOpen (N w)) \<and>
     (\<forall>f w r w'. sys_socket S f w = (r, w') \<longrightarrow> (case r of Fd s \<Rightarrow> opened s (N w) (N w') | FdFail e \<Rightarrow> N w' = N w)) \<and>
     (\<forall>l w r w'. sys_accept S l w = (r, w') \<longrightarrow> (case r of Fd s \<Rightarrow> opened s (N w) (N w') | FdFail e \<Rightarrow> N w' = N w)) \<and>
     (\<forall>fd w. closed fd (N w) (N (sys_close S fd w))) \<and>
     (\<forall>fd a w. N (snd (sys_connect S fd a w)) = N w) \<and>
     (\<forall>fd p w. N (snd (sys_bind S fd p w)) = N w) \<and>
     (\<forall>fd w. N (snd (sys_listen S fd w)) = N w) \<and>
     (\<forall>fd w. N (snd (sys_getsockname S fd w)) = N w) \<and>
     (\<forall>ms w. N (sys_sleep S ms w) = N w) \<and>
     (\<forall>fd w. N (sys_nonblock S fd w) = N w) \<and>
     (\<forall>w. N (snd (sys_random S w)) = N w)"

lemma sockets_streams: "sockets S N \<Longrightarrow> streams S (\<lambda>w. nvOut (N w)) (\<lambda>w. nvIn (N w))"
  by (simp add: sockets_def)

lemma sockets_open:
  assumes "sockets S N"
  shows "sys_socket S f w = (Fd s, w') \<Longrightarrow> opened s (N w) (N w')" "sys_socket S f w = (FdFail e, w') \<Longrightarrow> N w' = N w"
    "sys_accept S l w = (Fd s, w') \<Longrightarrow> opened s (N w) (N w')" "sys_accept S l w = (FdFail e, w') \<Longrightarrow> N w' = N w"
proof -
  have s: "\<forall>f w r w'. sys_socket S f w = (r, w') \<longrightarrow> (case r of Fd s \<Rightarrow> opened s (N w) (N w') | FdFail e \<Rightarrow> N w' = N w)"
    and a: "\<forall>l w r w'. sys_accept S l w = (r, w') \<longrightarrow> (case r of Fd s \<Rightarrow> opened s (N w) (N w') | FdFail e \<Rightarrow> N w' = N w)"
    using assms by (simp_all add: sockets_def)
  show "sys_socket S f w = (Fd s, w') \<Longrightarrow> opened s (N w) (N w')" "sys_socket S f w = (FdFail e, w') \<Longrightarrow> N w' = N w"
    "sys_accept S l w = (Fd s, w') \<Longrightarrow> opened s (N w) (N w')" "sys_accept S l w = (FdFail e, w') \<Longrightarrow> N w' = N w"
    using s a by fastforce+
qed

lemma sockets_keep:
  assumes "sockets S N"
  shows "sys_connect S fd a w = (b, w') \<Longrightarrow> N w' = N w" "sys_bind S fd p w = (b, w') \<Longrightarrow> N w' = N w"
    "sys_listen S fd w = (b, w') \<Longrightarrow> N w' = N w" "sys_getsockname S fd w = (q, w') \<Longrightarrow> N w' = N w"
    "N (sys_sleep S ms w) = N w" "N (sys_nonblock S fd w) = N w" "sys_random S w = (x, w') \<Longrightarrow> N w' = N w"
  using assms unfolding sockets_def by (metis snd_conv)+

lemma sockets_close: "sockets S N \<Longrightarrow> closed fd (N w) (N (sys_close S fd w))"
  by (simp add: sockets_def)

lemma sockets_clock: "sockets S N \<Longrightarrow> sys_clock S w = (t, w') \<Longrightarrow> N w' = N w"
  unfolding sockets_def streams_def by (metis netview.equality old.unit.exhaust snd_conv)

lemma sockets_poll: "sockets S N \<Longrightarrow> sys_poll S ps ms w = (r, w') \<Longrightarrow> N w' = N w"
  unfolding sockets_def streams_def by (metis netview.equality old.unit.exhaust snd_conv)

lemma closed_closeQuiet: "sockets S N \<Longrightarrow> nvOpen (N w) \<subseteq> {0..} \<Longrightarrow> closed fd (N w) (N (closeQuiet S fd w))"
  using sockets_close [of S N fd w] by (auto simp: closeQuiet_def closed_def)

lemma framed_refl [simp]: "framed v v"
  by (simp add: framed_def)

lemma framed_trans: "framed u v \<Longrightarrow> framed v w \<Longrightarrow> framed u w"
  by (simp add: framed_def)

lemma framed_opened: "framed u v \<Longrightarrow> opened fd v w \<Longrightarrow> opened fd u w"
  by (simp add: framed_def opened_def)

lemma opened_closed: "opened fd u v \<Longrightarrow> closed fd v w \<Longrightarrow> framed u w"
  unfolding framed_def opened_def closed_def by (metis DiffI Diff_insert_absorb insertI2 singletonD)

subsection \<open>The watchdog and the transfers leave the descriptors alone\<close>

lemma deadline_keep:
  assumes "sockets S N"
  shows "newDeadline S w = (dl, w') \<Longrightarrow> N w' = N w" "expired S dl w = (x, w') \<Longrightarrow> N w' = N w"
    "dlPoll S dl ps w = (r, w') \<Longrightarrow> N w' = N w"
  by (rule deadline_rel [where R = "\<lambda>w w'. N w' = N w"];
      use sockets_clock [OF assms] sockets_poll [OF assms] in \<open>auto simp: reflp_def transp_def\<close>)+

lemma sockets_quietly: "sockets S N \<Longrightarrow> quietly S (\<lambda>w w'. nvOpen (N w') = nvOpen (N w))"
  by (auto simp: quietly_def sockets_def reflp_def transp_def)

lemma sendAll_open: "sockets S N \<Longrightarrow> sendAll S fd p w = Some (res, w') \<Longrightarrow> nvOpen (N w') = nvOpen (N w)"
  by (rule sendAll_quietly [OF sockets_quietly])

lemma recvAll_open: "sockets S N \<Longrightarrow> recvAll S fd n w = Some (res, got, w') \<Longrightarrow> nvOpen (N w') = nvOpen (N w)"
  by (rule recvAll_quietly [OF sockets_quietly])

text \<open>The two effects together: what a transfer on one descriptor does to the view.\<close>

lemma sendAll_view:
  assumes "sockets S N" "sendAll S fd p w = Some (res, w')"
  shows "\<exists>k\<le>length p. N w' = (N w)\<lparr>nvOut := (nvOut (N w))(fd := nvOut (N w) fd @ take k p)\<rparr> \<and>
    res = (if k = length p then vcclSuccess else vcclSystemError)"
proof -
  obtain k where "k \<le> length p" "nvOut (N w') = (nvOut (N w))(fd := nvOut (N w) fd @ take k p)" "nvIn (N w') = nvIn (N w)"
    "res = (if k = length p then vcclSuccess else vcclSystemError)"
    using sendAll_exact [OF sockets_streams [OF assms(1)] assms(2)] by auto
  then show ?thesis using sendAll_open [OF assms] by (intro exI [of _ k]) simp
qed

lemma recvAll_view:
  assumes "sockets S N" "recvAll S fd n w = Some (res, got, w')"
  shows "length got \<le> n \<and> N w' = (N w)\<lparr>nvIn := (nvIn (N w))(fd := nvIn (N w) fd @ got)\<rparr> \<and>
    res = (if length got = n then vcclSuccess else vcclSystemError)"
  using recvAll_exact [OF sockets_streams [OF assms(1)] assms(2)] recvAll_open [OF assms] by simp

subsection \<open>Calls that open a descriptor\<close>

text \<open>Success opens the returned descriptor, failure opens nothing.\<close>

definition gives :: "vcclResult_t \<Rightarrow> int \<Rightarrow> netview \<Rightarrow> netview \<Rightarrow> bool" where
  "gives res fd v v' \<longleftrightarrow> (if res = vcclSuccess then opened fd v v' else fd = -1 \<and> framed v v')"

lemma closeQuiet_opened:
  assumes "sockets S N" "opened fd (N u) (N v)"
  shows "framed (N u) (N (closeQuiet S fd v))"
  using assms opened_closed [OF assms(2) sockets_close [OF assms(1)]] by (simp add: closeQuiet_def opened_def)

lemma createListenSocket_gives:
  assumes "sockets S N" "createListenSocket S port w = (res, fd, p, w')"
  shows "gives res fd (N w) (N w')"
proof -
  note keep = sockets_keep [OF assms(1)] and op = sockets_open [OF assms(1)]
  obtain r w1 where r: "sys_socket S AF_INET w = (r, w1)" by fastforce
  show ?thesis
  proof (cases r)
    case (FdFail e)
    then show ?thesis using assms(2) r op(2) [of AF_INET w e w1] by (auto simp: createListenSocket_def gives_def)
  next
    case (Fd s)
    have o1: "opened s (N w) (N w1)" using op(1) r Fd by simp
    obtain b2 w2 where b2: "sys_bind S s (htons port) w1 = (b2, w2)" by fastforce
    obtain b3 w3 where b3: "sys_listen S s w2 = (b3, w3)" by fastforce
    obtain b4 w4 where b4: "sys_getsockname S s w3 = (b4, w4)" by fastforce
    have n: "N w2 = N w1" "N w3 = N w1" "N w4 = N w1" using keep(2) [OF b2] keep(3) [OF b3] keep(4) [OF b4] by simp_all
    have f: "framed (N w) (N (closeQuiet S s v))" if "N v = N w1" for v
      using closeQuiet_opened [OF assms(1), of s w v] o1 that by simp
    show ?thesis using assms(2) o1 n f r Fd b2 b3 b4
      by (auto simp: createListenSocket_def gives_def split: if_splits option.splits)
  qed
qed

lemma connectTo_gives:
  assumes "sockets S N" "connectTo S addr ms w = Some (res, fd, w')"
  shows "gives res fd (N w) (N w')"
proof -
  obtain now w0 where t: "sys_clock S w = (now, w0)" by fastforce
  let ?step = "connectStep S addr (now + ms * 1000000)"
  note op = sockets_open [OF assms(1)] and keep = sockets_keep [OF assms(1)] and clk = sockets_clock [OF assms(1)]
  have step: "case ?step (d, v) of Inl (_, v') \<Rightarrow> framed (N w) (N v') | Inr (res, fd, v') \<Rightarrow> gives res fd (N w) (N v')"
    if I: "framed (N w) (N v)" for d v
  proof -
    obtain r v1 where r: "sys_socket S (ss_family addr) v = (r, v1)" by fastforce
    show ?thesis
    proof (cases r)
      case (FdFail e)
      then show ?thesis using I r op(2) by (auto simp: connectStep_def gives_def)
    next
      case (Fd s)
      have o1: "opened s (N w) (N v1)" using framed_opened [OF I] op(1) r Fd by auto
      obtain b v2 where b: "sys_connect S s addr v1 = (b, v2)" by fastforce
      obtain t3 v3 where v3: "sys_clock S (closeQuiet S s v2) = (t3, v3)" by fastforce
      have n2: "N v2 = N v1" using keep(1) [OF b] .
      have "framed (N w) (N v3)" using clk [OF v3] closeQuiet_opened [OF assms(1), of s w v2] o1 n2 by simp
      then show ?thesis using r Fd b v3 o1 n2 keep(5) by (auto simp: connectStep_def gives_def)
    qed
  qed
  have "iter ?step (20, w0) = Some (res, fd, w')" using assms(2) by (simp add: connectTo_def t)
  then have "(\<lambda>(res, fd, v). gives res fd (N w) (N v)) (res, fd, w')"
  proof (rule iter_case [where I = "\<lambda>s :: nat \<times> _. framed (N w) (N (snd s))"])
    fix s :: "nat \<times> _" assume "framed (N w) (N (snd s))"
    from step [OF this, of "fst s"] show "case ?step s of Inl s' \<Rightarrow> framed (N w) (N (snd s')) | Inr r \<Rightarrow> (\<lambda>(res, fd, v). gives res fd (N w) (N v)) r"
      by (auto split: sum.splits)
  qed (use clk [OF t] in simp)
  then show ?thesis by simp
qed

lemma acceptOne_gives:
  assumes "sockets S N" "acceptOne S l w = Some (res, fd, w')"
  shows "gives res fd (N w) (N w')"
proof -
  obtain dl w0 where dl: "newDeadline S w = (dl, w0)" by fastforce
  note op = sockets_open [OF assms(1)] and dk = deadline_keep [OF assms(1)]
  have step: "case acceptStep S dl l v of Inl v' \<Rightarrow> N v' = N w | Inr (res, fd, v') \<Rightarrow> gives res fd (N w) (N v')"
    if I: "N v = N w" for v
  proof -
    obtain r v1 where v1: "dlPoll S dl [(l, False)] v = (r, v1)" by fastforce
    obtain x v2 where v2: "expired S dl v1 = (x, v2)" by fastforce
    obtain a v3 where v3: "sys_accept S l v2 = (a, v3)" by fastforce
    have n: "N v1 = N w" "N v2 = N w" using dk(3) [OF v1] dk(2) [OF v2] I by simp_all
    have "case a of Fd s \<Rightarrow> opened s (N w) (N v3) | FdFail e \<Rightarrow> N v3 = N w"
      using op(3) [of l v2 _ v3] op(4) [of l v2 _ v3] v3 n by (cases a) auto
    then show ?thesis using v1 v2 v3 n
      by (auto simp: acceptStep_def gives_def split: fdret.splits errno.splits)
  qed
  have "iter (acceptStep S dl l) w0 = Some (res, fd, w')" using assms(2) by (auto simp: acceptOne_def dl intro: parked_iter)
  then have "(\<lambda>(res, fd, v). gives res fd (N w) (N v)) (res, fd, w')"
    by (rule iter_case [where I = "\<lambda>v. N v = N w"]) (use step dk(1) [OF dl] in auto)
  then show ?thesis by simp
qed

end
