(* ===== verification/Vccl_Bootstrap_Spec.thy ===== *)
theory Vccl_Bootstrap_Spec
  imports Vccl_Bootstrap Vccl_Descriptors Vccl_Codec
begin

text \<open>
  The rendezvous. Ids and handshake messages survive their encoding, and the root accepts exactly the messages that
  ranks of the same job send (\<open>helloOk_iff\<close>). \<open>rootStep_inv\<close> is the invariant of the accept loop: the table of the
  root never holds a descriptor twice, each entry belongs to a client that sent the message of its rank, and
  every other descriptor that was opened has been closed again. \<open>gather_agrees\<close> says that the gather
  through the root leaves the same buffer on all ranks.
\<close>

subsection \<open>Encodings\<close>

lemma decode_encodeHello: "decodeHello (encodeHello h) = h"
  by (simp add: decodeHello_def encodeHello_def)

lemma encode_decodeHello:
  assumes "length b = 32"
  shows "encodeHello (decodeHello b) = b"
proof -
  have "b = take 8 b @ take 8 (drop 8 b) @ take 4 (drop 16 b) @ take 4 (drop 20 b) @ take 4 (drop 24 b) @ take 4 (drop 28 b)"
    using assms by (intro nth_equalityI) (auto simp: nth_append nth_take nth_drop)
  then show ?thesis using assms by (simp add: encodeHello_def decodeHello_def bytes_of_word_of_bytes)
qed

lemma length_encodeHello [simp]: "length (encodeHello h) = 32"
  by (simp add: encodeHello_def)

lemma sint_of_nat_small: "n < 2 ^ 31 \<Longrightarrow> sint (of_nat n :: 32 word) = int n"
  using signed_take_bit_int_eq_self [of 31 "int n"] by (simp add: signed_of_nat)

lemma helloOk_iff:
  assumes "n < 2 ^ 31"
  shows "helloOk u n fds h \<longleftrightarrow> (\<exists>r. 0 < r \<and> r < n \<and> h = helloOf u n r \<and> fds ! r = -1)"
proof
  assume ok: "helloOk u n fds h"
  then have r: "sint (hrank h) = int (nat (sint (hrank h)))" "sint (hnranks h) = int n" by (simp_all add: helloOk_def)
  have w: "x = of_nat k" if "sint x = int k" for x :: "32 word" and k
    using arg_cong [OF that, of "word_of_int :: int \<Rightarrow> 32 word"] by simp
  note w [OF r(1)] w [OF r(2)]
  then have "h = helloOf u n (nat (sint (hrank h)))"
    using ok by (cases h) (simp add: helloOk_def helloOf_def)
  then show "\<exists>r. 0 < r \<and> r < n \<and> h = helloOf u n r \<and> fds ! r = -1"
    using ok by (intro exI [of _ "nat (sint (hrank h))"]) (auto simp: helloOk_def)
next
  assume "\<exists>r. 0 < r \<and> r < n \<and> h = helloOf u n r \<and> fds ! r = -1"
  then show "helloOk u n fds h" using assms sint_of_nat_small by (auto simp: helloOk_def helloOf_def)
qed

definition wfId :: "UniqueIdInternal \<Rightarrow> bool" where
  "wfId u \<longleftrightarrow> uidFamily u < 2 ^ 16 \<and> length (uidAddr u) = 16"

lemma unat_family: "k < 2 ^ 16 \<Longrightarrow> unat (of_nat k :: 16 word) = k"
  by (simp add: unat_of_nat)

lemma decode_encodeId: "wfId u \<Longrightarrow> decodeId (encodeId u) = u"
  using unat_family [of "uidFamily u"] by (simp add: decodeId_def encodeId_def wfId_def)

lemma length_encodeId: "wfId u \<Longrightarrow> length (encodeId u) = VCCL_UNIQUE_ID_BYTES"
  by (simp add: encodeId_def wfId_def VCCL_UNIQUE_ID_BYTES_def)

lemma setAddr_wf: "wfAddr sa \<Longrightarrow> wfId (setAddr sa u)"
  by (auto simp: wfAddr_def wfId_def setAddr_def AF_INET_def AF_INET6_def)

lemma getAddr_setAddr: "wfAddr sa \<Longrightarrow> getAddr (setAddr sa u) = sa"
  by (auto simp: wfAddr_def getAddr_def setAddr_def zeroAddr_def AF_INET_def AF_INET6_def)

lemma splitLast_Some: "splitLast c s = Some (a, b) \<longleftrightarrow> s = a @ c # b \<and> c \<notin> set b"
proof
  assume split: "splitLast c s = Some (a, b)"
  then obtain x before where d: "dropWhile (\<lambda>x. x \<noteq> c) (rev s) = x # before" "a = rev before" "b = drop (Suc (length before)) s"
    by (auto simp: splitLast_def split: list.splits)
  have x: "x = c" using hd_dropWhile [of "\<lambda>x. x \<noteq> c" "rev s"] d(1) by auto
  have "rev s = takeWhile (\<lambda>x. x \<noteq> c) (rev s) @ c # before" using takeWhile_dropWhile_id [of "\<lambda>x. x \<noteq> c" "rev s"] d(1) x by simp
  then have "rev (rev s) = rev before @ c # rev (takeWhile (\<lambda>x. x \<noteq> c) (rev s))" by (metis append.assoc append_Cons append_Nil rev.simps(2) rev_append)
  moreover define t where "t = rev (takeWhile (\<lambda>x. x \<noteq> c) (rev s))"
  ultimately have s: "s = rev before @ c # t" by simp
  have "c \<notin> set t" unfolding t_def by (auto dest: set_takeWhileD)
  then show "s = a @ c # b \<and> c \<notin> set b" using d(2,3) s by simp
next
  assume "s = a @ c # b \<and> c \<notin> set b"
  then show "splitLast c s = Some (a, b)"
    by (auto simp: splitLast_def dropWhile_append split: list.splits)
qed

text \<open>The sizes of the addresses the C library hands out.\<close>

definition addrSizes :: "'w sys \<Rightarrow> 'w \<Rightarrow> bool" where
  "addrSizes S w \<longleftrightarrow> (\<forall>s a. sys_inet_pton4 S s = Some a \<longrightarrow> length a = 4) \<and> (\<forall>s a. sys_inet_pton6 S s = Some a \<longrightarrow> length a = 16) \<and>
     (\<forall>ifs x a. sys_getifaddrs S w = Some ifs \<longrightarrow> x \<in> set ifs \<longrightarrow> ifa_addr x = Some (AF_INET, a) \<longrightarrow> length a = 4)"

lemma envId_wf:
  assumes "envId S env = Some u" "addrSizes S w"
  shows "wfId u \<and> uidMagic u = kVcclMagic \<and> uidSalt u = kCommIdEnvSalt \<and> wfAddr (getAddr u) \<and>
    (\<exists>host port. env = host @ CHR '':'' # port \<and> CHR '':'' \<notin> set port \<and> sys_inet_pton4 S host = Some (sin_addr (getAddr u)) \<and>
       uint (sockPort (getAddr u)) = atoi port)"
proof -
  obtain host port a where e: "splitLast CHR '':'' env = Some (host, port)" "sys_inet_pton4 S host = Some a" "0 < atoi port" "atoi port \<le> 65535"
    and u: "u = setAddr (zeroAddr\<lparr>sin_addr := a, ss_family := AF_INET, ss_port := htons (word_of_int (atoi port)), slen := 16\<rparr>)
       \<lparr>uidMagic = kVcclMagic, uidSalt = kCommIdEnvSalt, uidFamily = 0, uidPort = 0, uidAddr = replicate 16 0\<rparr>"
    using assms(1) by (auto simp: envId_def Let_def split: option.splits if_splits)
  let ?sa = "zeroAddr\<lparr>sin_addr := a, ss_family := AF_INET, ss_port := htons (word_of_int (atoi port)), slen := 16\<rparr>"
  have wf: "wfAddr ?sa" using assms(2) e(2) by (simp add: addrSizes_def wfAddr_def zeroAddr_def)
  have g: "getAddr u = ?sa" unfolding u by (rule getAddr_setAddr [OF wf])
  have "uint (sockPort ?sa) = atoi port" using e(3,4) by (simp add: sockPort_def ntohs_def uint_word_of_int)
  moreover have "wfId u" unfolding u by (rule setAddr_wf [OF wf])
  moreover have "uidMagic u = kVcclMagic \<and> uidSalt u = kCommIdEnvSalt" by (simp add: u setAddr_def)
  moreover have "env = host @ CHR '':'' # port \<and> CHR '':'' \<notin> set port" using e(1) splitLast_Some by blast
  ultimately show ?thesis using e(2) wf unfolding g by auto
qed

lemma inetAddrs_mem: "(m, a) \<in> set (inetAddrs ifs) \<Longrightarrow> \<exists>x\<in>set ifs. ifa_addr x = Some (AF_INET, a)"
  by (auto simp: inetAddrs_def)

lemma scanIfs_mem:
  assumes "scanIfs n ifs None None = (c, l)" "(if c = None then l else c) = Some a"
  shows "\<exists>x\<in>set ifs. ifa_addr x = Some (AF_INET, a)"
proof -
  have hd: "\<exists>z. firstOf None xs = Some z \<Longrightarrow> the (firstOf None xs) \<in> set xs" for xs :: "byte list list"
    by (cases xs) (auto simp: firstOf_def)
  have "\<exists>m. (m, a) \<in> set (inetAddrs ifs)"
  proof (cases n)
    case None
    have "a \<in> set (map snd (inetAddrs ifs))"
      using assms hd [of "filter (\<lambda>a. hd a \<noteq> 127) (map snd (inetAddrs ifs))"] hd [of "filter (\<lambda>a. hd a = 127) (map snd (inetAddrs ifs))"]
      unfolding None scanIfs_any by (auto split: if_splits)
    then show ?thesis by auto
  next
    case (Some m)
    then show ?thesis using assms unfolding Some scanIfs_named
      by (cases "filter (\<lambda>(k, a). k = m) (inetAddrs ifs)") (auto simp: filter_eq_Cons_iff split: if_splits)
  qed
  then show ?thesis using inetAddrs_mem by blast
qed

lemma getAdvertisedAddr_wf:
  assumes "getAdvertisedAddr S w = (vcclSuccess, sa)" "addrSizes S w"
  shows "wfAddr sa"
proof (cases "sys_getenv S ''VCCL_SOCKET_ADDR''")
  case (Some env)
  then show ?thesis using assms by (auto simp: getAdvertisedAddr_def addrSizes_def wfAddr_def zeroAddr_def split: option.splits)
next
  case None
  obtain c l where cl: "scanIfs (sys_getenv S ''VCCL_SOCKET_IFNAME'') (the (sys_getifaddrs S w)) None None = (c, l)" by fastforce
  obtain ifs a where g: "sys_getifaddrs S w = Some ifs" "(if c = None then l else c) = Some a"
    "sa = zeroAddr\<lparr>ss_family := AF_INET, sin_addr := a, slen := 16\<rparr>"
    using assms(1) None cl by (cases "sys_getifaddrs S w"; cases "if c = None then l else c") (auto simp: getAdvertisedAddr_def)
  have "length a = 4" using scanIfs_mem [OF cl g(2)] g(1) assms(2) by (auto simp: addrSizes_def)
  then show ?thesis using g(3) by (simp add: wfAddr_def zeroAddr_def)
qed

lemma freshId_wf:
  assumes "uniqueIdCreate S reg w = (vcclSuccess, uid, reg', w')" "sys_getenv S ''VCCL_COMM_ID'' = None" "addrSizes S w"
  shows "length uid = VCCL_UNIQUE_ID_BYTES \<and> uidMagic (decodeId uid) = kVcclMagic \<and> wfAddr (getAddr (decodeId uid)) \<and>
    (\<exists>l w1. createListenSocket S 0 w = (vcclSuccess, l, sockPort (getAddr (decodeId uid)), w1) \<and> reg' = reg(uid \<mapsto> l))"
proof -
  obtain addr l port w1 salt where c: "getAdvertisedAddr S w = (vcclSuccess, addr)" "createListenSocket S 0 w = (vcclSuccess, l, port, w1)"
    and u: "uid = encodeId (setAddr (if slen (setPort port addr) = 0 then (setPort port addr)\<lparr>slen := 16\<rparr> else setPort port addr)
       \<lparr>uidMagic = kVcclMagic, uidSalt = salt, uidFamily = 0, uidPort = 0, uidAddr = replicate 16 0\<rparr>)" and reg: "reg' = reg(uid \<mapsto> l)"
    using assms(1,2) by (auto simp: uniqueIdCreate_def Let_def split: prod.splits if_splits)
  have wf: "wfAddr (setPort port addr)" and p: "sockPort (setPort port addr) = port"
    using port_roundtrip [OF getAdvertisedAddr_wf [OF c(1) assms(3)]] by auto
  have uid: "uid = encodeId (setAddr (setPort port addr) \<lparr>uidMagic = kVcclMagic, uidSalt = salt, uidFamily = 0, uidPort = 0, uidAddr = replicate 16 0\<rparr>)"
    using u wf by (auto simp: wfAddr_def)
  have "wfId (setAddr (setPort port addr) \<lparr>uidMagic = kVcclMagic, uidSalt = salt, uidFamily = 0, uidPort = 0, uidAddr = replicate 16 0\<rparr>)"
    by (rule setAddr_wf [OF wf])
  note d = decode_encodeId [OF this] length_encodeId [OF this]
  show ?thesis using c(2) reg p wf unfolding uid d(1) getAddr_setAddr [OF wf] d(2) by (auto simp: setAddr_def)
qed

subsection \<open>Tables of descriptors\<close>

text \<open>The entries of a table that are not the placeholder \<open>-1\<close>, the descriptors in it, and a table without
  duplicates whose descriptors are new with respect to a set.\<close>

definition filled :: "int list \<Rightarrow> nat set" where
  "filled fds = {i. i < length fds \<and> fds ! i \<noteq> -1}"

definition tableFds :: "int list \<Rightarrow> int set" where
  "tableFds fds = (\<lambda>i. fds ! i) ` filled fds"

definition tableOk :: "int set \<Rightarrow> int list \<Rightarrow> bool" where
  "tableOk A fds \<longleftrightarrow> (\<forall>i\<in>filled fds. 0 \<le> fds ! i \<and> fds ! i \<notin> A) \<and> inj_on (\<lambda>i. fds ! i) (filled fds)"

lemma filled_empty [simp]: "filled (replicate n (-1)) = {}"
  by (auto simp: filled_def)

lemma table_empty [simp]: "tableFds (replicate n (-1)) = {}" "tableOk A (replicate n (-1))"
  by (simp_all add: tableFds_def tableOk_def)

lemma filled_finite [simp]: "finite (filled fds)"
  by (simp add: filled_def)

lemma table_update:
  assumes "tableOk A fds" "i < length fds" "fds ! i = -1" "0 \<le> fd" "fd \<notin> A" "fd \<notin> tableFds fds"
  shows "filled (fds[i := fd]) = insert i (filled fds)" "i \<notin> filled fds" "tableFds (fds[i := fd]) = insert fd (tableFds fds)"
    "tableOk A (fds[i := fd])"
proof -
  show f: "filled (fds[i := fd]) = insert i (filled fds)" and i: "i \<notin> filled fds"
    using assms(2-4) by (auto simp: filled_def nth_list_update)
  have other: "fds[i := fd] ! j = fds ! j" if "j \<in> filled fds" for j using that i by (cases "j = i") simp_all
  show "tableFds (fds[i := fd]) = insert fd (tableFds fds)"
    unfolding tableFds_def f using assms(2) other by simp
  have "inj_on (\<lambda>j. fds[i := fd] ! j) (filled fds)"
    using assms(1) other by (auto simp: tableOk_def inj_on_def)
  moreover have "fd \<notin> (\<lambda>j. fds[i := fd] ! j) ` filled fds" using assms(6) other by (auto simp: tableFds_def)
  ultimately show "tableOk A (fds[i := fd])"
    using assms(1,2,4,5) i other by (auto simp: tableOk_def f)
qed

lemma tableFds_set: "tableOk A fds \<Longrightarrow> {x \<in> set fds. 0 \<le> x} = tableFds fds"
  by (force simp: tableFds_def tableOk_def filled_def set_conv_nth)

lemma fold_close:
  assumes "sockets S N"
  shows "nvOpen (N (fold (closeQuiet S) fds w)) = nvOpen (N w) - {x \<in> set fds. 0 \<le> x} \<and>
    (\<forall>x\<in>nvOpen (N w) - {x \<in> set fds. 0 \<le> x}. nvOut (N (fold (closeQuiet S) fds w)) x = nvOut (N w) x \<and>
       nvIn (N (fold (closeQuiet S) fds w)) x = nvIn (N w) x)"
proof (induction fds arbitrary: w)
  case (Cons fd fds)
  have c: "closed fd (N w) (N (closeQuiet S fd w)) \<or> fd < 0 \<and> closeQuiet S fd w = w"
    using sockets_close [OF assms, of fd w] by (auto simp: closeQuiet_def)
  show ?case
  proof (cases "0 \<le> fd")
    case True
    then show ?thesis using c Cons.IH [of "closeQuiet S fd w"] by (auto simp: closed_def)
  next
    case False
    then show ?thesis using Cons.IH [of w] by (auto simp: closeQuiet_def)
  qed
qed simp

subsection \<open>The root\<close>

text \<open>A conversation with a client: the descriptor was opened, some bytes were read from it and some written.\<close>

lemma served:
  assumes "sockets S N" "opened fd (N v) (N v1)" "recvAll S fd k v1 = Some (res, got, v2)" "sendAll S fd p v2 = Some (res', v3)"
  shows "nvOpen (N v3) = insert fd (nvOpen (N v))" "nvIn (N v3) fd = got" "res = vcclSuccess \<longleftrightarrow> length got = k"
    "x \<in> nvOpen (N v) \<Longrightarrow> nvOut (N v3) x = nvOut (N v) x \<and> nvIn (N v3) x = nvIn (N v) x" "0 \<le> fd" "fd \<notin> nvOpen (N v)"
    "framed (N v) (N (closeQuiet S fd v3))"
proof -
  obtain j where j: "N v3 = (N v2)\<lparr>nvOut := (nvOut (N v2))(fd := nvOut (N v2) fd @ take j p)\<rparr>"
    using sendAll_view [OF assms(1,4)] by auto
  have g: "N v2 = (N v1)\<lparr>nvIn := (nvIn (N v1))(fd := nvIn (N v1) fd @ got)\<rparr>" "res = vcclSuccess \<longleftrightarrow> length got = k"
    using recvAll_view [OF assms(1,3)] by auto
  show o3: "nvOpen (N v3) = insert fd (nvOpen (N v))" "nvIn (N v3) fd = got" "0 \<le> fd" "fd \<notin> nvOpen (N v)"
    using assms(2) by (simp_all add: j g opened_def)
  show "res = vcclSuccess \<longleftrightarrow> length got = k" by (fact g(2))
  have x: "nvOut (N v3) x = nvOut (N v) x \<and> nvIn (N v3) x = nvIn (N v) x" if "x \<in> nvOpen (N v)" for x
    using that assms(2) by (auto simp: j g opened_def)
  then show "x \<in> nvOpen (N v) \<Longrightarrow> nvOut (N v3) x = nvOut (N v) x \<and> nvIn (N v3) x = nvIn (N v) x" .
  have "closed fd (N v3) (N (closeQuiet S fd v3))" using sockets_close [OF assms(1)] o3 by (simp add: closeQuiet_def)
  then show "framed (N v) (N (closeQuiet S fd v3))" using o3 x by (auto simp: closed_def framed_def)
qed

definition rootInv :: "('w \<Rightarrow> netview) \<Rightarrow> UniqueIdInternal \<Rightarrow> nat \<Rightarrow> 'w \<Rightarrow> int list \<Rightarrow> 'w \<Rightarrow> bool" where
  "rootInv N u n w fds v \<longleftrightarrow> length fds = n \<and> tableOk (nvOpen (N w)) fds \<and> 0 \<notin> filled fds \<and>
     nvOpen (N v) = nvOpen (N w) \<union> tableFds fds \<and> (\<forall>i\<in>filled fds. nvIn (N v) (fds ! i) = encodeHello (helloOf u n i)) \<and>
     (\<forall>x\<in>nvOpen (N w). nvOut (N v) x = nvOut (N w) x \<and> nvIn (N v) x = nvIn (N w) x)"

lemma rootInv_framed:
  assumes "rootInv N u n w fds v" "framed (N v) (N v')"
  shows "rootInv N u n w fds v'"
  using assms by (auto simp: rootInv_def framed_def tableFds_def)

lemma rootInv_accept:
  assumes "rootInv N u n w fds v" "nvOpen (N v3) = insert fd (nvOpen (N v))" "nvIn (N v3) fd = encodeHello (helloOf u n r)"
    "0 \<le> fd" "fd \<notin> nvOpen (N v)" "0 < r" "r < n" "fds ! r = -1"
    "\<And>x. x \<in> nvOpen (N v) \<Longrightarrow> nvOut (N v3) x = nvOut (N v) x \<and> nvIn (N v3) x = nvIn (N v) x"
  shows "rootInv N u n w (fds[r := fd]) v3" "card (filled (fds[r := fd])) = Suc (card (filled fds))"
proof -
  have t: "tableOk (nvOpen (N w)) fds" "r < length fds" "fd \<notin> nvOpen (N w)" "fd \<notin> tableFds fds"
    using assms(1,5,7) by (auto simp: rootInv_def)
  note up = table_update [OF t(1,2) assms(8,4) t(3,4)]
  show "card (filled (fds[r := fd])) = Suc (card (filled fds))" using up(1,2) by simp
  have "nvIn (N v3) (fds[r := fd] ! i) = encodeHello (helloOf u n i)" if "i \<in> insert r (filled fds)" for i
  proof (cases "i = r")
    case True
    then show ?thesis using assms(3) t(2) by simp
  next
    case False
    then have "i \<in> filled fds" "fds ! i \<in> nvOpen (N v)" using that assms(1) by (auto simp: rootInv_def tableFds_def)
    then show ?thesis using False assms(1) assms(9) [of "fds ! i"] by (simp add: rootInv_def)
  qed
  then show "rootInv N u n w (fds[r := fd]) v3"
    using assms(1,2,6,9) up by (auto simp: rootInv_def)
qed

lemma rootStep_inv:
  assumes "sockets S N" "n < 2 ^ 31" "rootInv N u n w fds v" "card (filled fds) = c"
    "rootStep S u n l (fds, c, v) = Some x"
  shows "case x of Inl (fds', c', v') \<Rightarrow> rootInv N u n w fds' v' \<and> card (filled fds') = c'
    | Inr (res, fds', v') \<Rightarrow> \<exists>v1. rootInv N u n w fds' v1 \<and> v' = closeQuiet S l v1 \<and> (res = vcclSuccess \<longrightarrow> n - 1 \<le> card (filled fds'))"
proof (cases "c < n - 1")
  case True
  obtain res fd v1 where a: "acceptOne S l v = Some (res, fd, v1)"
    using assms(5) True by (auto simp: rootStep_def bind_eq_Some_conv)
  have g: "gives res fd (N v) (N v1)" by (rule acceptOne_gives [OF assms(1) a])
  show ?thesis
  proof (cases "res = vcclSuccess")
    case False
    then have "x = Inr (res, fds, closeQuiet S l v1)" using assms(5) True a by (simp add: rootStep_def)
    then show ?thesis using False g rootInv_framed [OF assms(3)] by (auto simp: gives_def)
  next
    case True': True
    then have o1: "opened fd (N v) (N v1)" using g by (simp add: gives_def)
    let ?h = "\<lambda>got. decodeHello (got @ replicate (32 - length got) 0)"
    let ?ok = "\<lambda>r got. r = vcclSuccess \<and> helloOk u n fds (?h got)"
    obtain r2 got v2 r3 v3 where c: "recvAll S fd 32 v1 = Some (r2, got, v2)" "sendAll S fd [if ?ok r2 got then 1 else 0] v2 = Some (r3, v3)"
      "x = Inl (if ?ok r2 got then (fds[nat (sint (hrank (?h got))) := fd], c + 1, v3) else (fds, c, closeQuiet S fd v3))"
      using assms(5) True True' a by (auto simp: rootStep_def bind_eq_Some_conv Let_def split: if_splits)
    note sv = served [OF assms(1) o1 c(1,2)]
    show ?thesis
    proof (cases "?ok r2 got")
      case False
      have x: "x = Inl (fds, c, closeQuiet S fd v3)" using c(3) False by presburger
      show ?thesis unfolding x using rootInv_framed [OF assms(3) sv(7)] assms(4) by simp
    next
      case ok: True
      then have len: "length got = 32" using sv(3) by simp
      then have h: "?h got = decodeHello got" by simp
      obtain r where r: "0 < r" "r < n" "decodeHello got = helloOf u n r" "fds ! r = -1"
        using ok h helloOk_iff [OF assms(2)] by metis
      have rr: "nat (sint (hrank (?h got))) = r" using r assms(2) unfolding h by (simp add: helloOf_def sint_of_nat_small)
      have got: "got = encodeHello (helloOf u n r)" using encode_decodeHello [OF len] r(3) by simp
      have x: "x = Inl (fds[r := fd], c + 1, v3)" using c(3) ok rr by presburger
      note acc = rootInv_accept [OF assms(3) sv(1) _ sv(5,6) r(1,2,4) sv(4)]
      show ?thesis unfolding x using acc sv(2) got assms(4) by simp
    qed
  qed
next
  case False
  then have "x = Inr (vcclSuccess, fds, closeQuiet S l v)" using assms(5) by (simp add: rootStep_def)
  then show ?thesis using False assms(3,4) by auto
qed

text \<open>The whole accept loop: the listening socket is closed, the table is complete when the loop succeeds.\<close>

definition rootDone :: "('w \<Rightarrow> netview) \<Rightarrow> UniqueIdInternal \<Rightarrow> nat \<Rightarrow> int \<Rightarrow> 'w \<Rightarrow> int list \<Rightarrow> 'w \<Rightarrow> bool" where
  "rootDone N u n l w fds v \<longleftrightarrow> length fds = n \<and> tableOk (nvOpen (N w)) fds \<and>
     nvOpen (N v) = nvOpen (N w) - {l} \<union> tableFds fds \<and> (\<forall>i\<in>filled fds. nvIn (N v) (fds ! i) = encodeHello (helloOf u n i)) \<and>
     (\<forall>x\<in>nvOpen (N w) - {l}. nvOut (N v) x = nvOut (N w) x \<and> nvIn (N v) x = nvIn (N w) x)"

lemma rootInv_done:
  assumes "sockets S N" "rootInv N u n w fds v" "l \<in> nvOpen (N w)" "0 \<le> l"
  shows "rootDone N u n l w fds (closeQuiet S l v)"
proof -
  have c: "closed l (N v) (N (closeQuiet S l v))" using sockets_close [OF assms(1)] assms(4) by (simp add: closeQuiet_def)
  have "l \<notin> tableFds fds" using assms(2,3) by (auto simp: rootInv_def tableOk_def tableFds_def)
  then have "fds ! i \<in> nvOpen (N v) - {l}" if "i \<in> filled fds" for i using assms(2) that by (auto simp: rootInv_def tableFds_def)
  then have "nvIn (N (closeQuiet S l v)) (fds ! i) = nvIn (N v) (fds ! i)" if "i \<in> filled fds" for i
    using c that by (simp add: closed_def)
  then show ?thesis using assms(2) c \<open>l \<notin> tableFds fds\<close> by (auto simp: rootInv_def rootDone_def closed_def)
qed

lemma filled_all:
  assumes "length fds = n" "0 \<notin> filled fds" "n - 1 \<le> card (filled fds)"
  shows "filled fds = {1..<n}"
proof (rule card_seteq)
  show "filled fds \<subseteq> {1..<n}" using assms(1,2) by (auto simp: filled_def Suc_le_eq intro: gr0I)
qed (use assms in auto)

lemma rootLoop:
  assumes "sockets S N" "n < 2 ^ 31" "iterO (rootStep S u n l) (replicate n (-1), 0, w) = Some (res, fds, w')"
    "l \<in> nvOpen (N w)" "0 \<le> l"
  shows "rootDone N u n l w fds w' \<and> (res = vcclSuccess \<longrightarrow> filled fds = {1..<n})"
proof -
  let ?I = "\<lambda>(fds, c, v). rootInv N u n w fds v \<and> card (filled fds) = c"
  let ?Q = "\<lambda>(res, fds, v). rootDone N u n l w fds v \<and> (res = vcclSuccess \<longrightarrow> filled fds = {1..<n})"
  have "?Q (res, fds, w')"
  proof (rule iterO_case [OF assms(3), of ?I])
    show "?I (replicate n (-1), 0, w)" by (simp add: rootInv_def)
  next
    fix s x assume I: "?I s" and x: "rootStep S u n l s = Some x"
    obtain fds c v where s: "s = (fds, c, v)" by (metis prod_cases3)
    have inv: "rootInv N u n w fds v" "card (filled fds) = c" using I s by simp_all
    note st = rootStep_inv [OF assms(1,2) inv x [unfolded s]]
    show "case x of Inl s' \<Rightarrow> ?I s' | Inr r \<Rightarrow> ?Q r"
      using st rootInv_done [OF assms(1) _ assms(4,5)] filled_all by (fastforce simp: rootInv_def split: sum.splits)
  qed
  then show ?thesis by simp
qed

text \<open>The descriptors a bootstrap owns, and one that is ready for use: the root has a descriptor per other rank, on which
  that rank's message arrived; another rank has one, on which it sent its message and was accepted.\<close>

definition bsFds :: "Bootstrap \<Rightarrow> int set" where
  "bsFds bs = {x \<in> insert (rootFd bs) (set (peerFds bs)). 0 \<le> x}"

definition bsReady :: "netview \<Rightarrow> UniqueIdInternal \<Rightarrow> Bootstrap \<Rightarrow> bool" where
  "bsReady v u bs \<longleftrightarrow>
     (if bsRank bs = 0
      then rootFd bs = -1 \<and> length (peerFds bs) = bsNranks bs \<and> filled (peerFds bs) = {1..<bsNranks bs} \<and>
        inj_on (\<lambda>i. peerFds bs ! i) {1..<bsNranks bs} \<and>
        (\<forall>i\<in>{1..<bsNranks bs}. 0 \<le> peerFds bs ! i \<and> nvIn v (peerFds bs ! i) = encodeHello (helloOf u (bsNranks bs) i))
      else peerFds bs = [] \<and> 0 \<le> rootFd bs \<and> nvIn v (rootFd bs) = [1] \<and>
        nvOut v (rootFd bs) = encodeHello (helloOf u (bsNranks bs) (bsRank bs)))"

text \<open>What \<open>Bootstrap::init\<close> leaves, from a view in which the set \<open>A\<close> of descriptors remains open.\<close>

definition bootDone :: "UniqueIdInternal \<Rightarrow> nat \<Rightarrow> nat \<Rightarrow> int set \<Rightarrow> netview \<Rightarrow> netview \<Rightarrow> vcclResult_t \<Rightarrow> Bootstrap option \<Rightarrow> bool" where
  "bootDone u r n A v v' res bs \<longleftrightarrow>
     (bs = None \<longleftrightarrow> res \<noteq> vcclSuccess) \<and>
     (\<forall>x\<in>A. nvOut v' x = nvOut v x \<and> nvIn v' x = nvIn v x) \<and>
     (case bs of
        None \<Rightarrow> nvOpen v' = A
      | Some b \<Rightarrow> bsRank b = r \<and> bsNranks b = n \<and> bsReady v' u b \<and> bsFds b \<inter> nvOpen v = {} \<and> nvOpen v' = A \<union> bsFds b)"

lemma bsDestroy_open:
  assumes "sockets S N"
  shows "nvOpen (N (bsDestroy S bs w)) = nvOpen (N w) - bsFds bs \<and>
    (\<forall>x\<in>nvOpen (N w) - bsFds bs. nvOut (N (bsDestroy S bs w)) x = nvOut (N w) x \<and> nvIn (N (bsDestroy S bs w)) x = nvIn (N w) x)"
proof -
  have "bsDestroy S bs w = fold (closeQuiet S) (rootFd bs # peerFds bs) w" by (simp add: bsDestroy_def)
  then show ?thesis using fold_close [OF assms, of "rootFd bs # peerFds bs" w] by (simp add: bsFds_def)
qed

lemma initPeer_done:
  assumes "sockets S N" "initPeer S uid r n w = Some (res, bs, w')" "0 < r"
  shows "bootDone (decodeId uid) r n (nvOpen (N w)) (N w) (N w') res bs"
proof -
  let ?u = "decodeId uid" and ?hello = "encodeHello (helloOf (decodeId uid) n r)"
  obtain r1 fd w1 where c: "connectTo S (getAddr ?u) (connectTimeoutMs (sys_getenv S)) w = Some (r1, fd, w1)"
    using assms(2) by (auto simp: initPeer_def Let_def bind_eq_Some_conv)
  note g = connectTo_gives [OF assms(1) c]
  let ?bs = "\<lparr>bsRank = r, bsNranks = n, rootFd = fd, peerFds = []\<rparr>"
  have none: "bsDestroy S ?bs v = closeQuiet S fd v" for v by (simp add: bsDestroy_def)
  show ?thesis
  proof (cases "r1 = vcclSuccess")
    case False
    then have "res = r1" "bs = None" "w' = w1" "framed (N w) (N w1)"
      using assms(2) c g by (auto simp: initPeer_def Let_def bind_eq_Some_conv none gives_def closeQuiet_def)
    then show ?thesis using False by (simp add: bootDone_def framed_def)
  next
    case True
    then have o1: "opened fd (N w) (N w1)" using g by (simp add: gives_def)
    obtain r2 w2 where s: "sendAll S fd ?hello w1 = Some (r2, w2)"
      using assms(2) c True by (auto simp: initPeer_def Let_def bind_eq_Some_conv)
    obtain k where k: "k \<le> 32" "N w2 = (N w1)\<lparr>nvOut := (nvOut (N w1))(fd := nvOut (N w1) fd @ take k ?hello)\<rparr>"
      "r2 = (if k = 32 then vcclSuccess else vcclSystemError)" using sendAll_view [OF assms(1) s] by auto
    have gone: "framed (N w) (N (closeQuiet S fd v))"
      if "nvOpen (N v) = nvOpen (N w1)" and others: "\<And>x. x \<noteq> fd \<Longrightarrow> nvOut (N v) x = nvOut (N w1) x \<and> nvIn (N v) x = nvIn (N w1) x" for v
    proof -
      have "closed fd (N v) (N (closeQuiet S fd v))" using sockets_close [OF assms(1)] o1 by (simp add: closeQuiet_def opened_def)
      moreover have "nvOut (N v) x = nvOut (N w) x \<and> nvIn (N v) x = nvIn (N w) x" if "x \<in> nvOpen (N w)" for x
      proof -
        have "x \<noteq> fd" using that o1 by (auto simp: opened_def)
        then show ?thesis using others [of x] that o1 by (simp add: opened_def)
      qed
      ultimately show ?thesis using o1 that(1) by (auto simp: closed_def framed_def opened_def)
    qed
    show ?thesis
    proof (cases "r2 = vcclSuccess")
      case False
      then have "res = r2" "bs = None" "w' = closeQuiet S fd w2"
        using assms(2) c True s by (auto simp: initPeer_def Let_def bind_eq_Some_conv none)
      moreover have "framed (N w) (N (closeQuiet S fd w2))" by (rule gone) (simp_all add: k)
      ultimately show ?thesis using False by (simp add: bootDone_def framed_def)
    next
      case True': True
      obtain r3 got w3 where rc: "recvAll S fd 1 w2 = Some (r3, got, w3)"
        using assms(2) c True s True' by (auto simp: initPeer_def Let_def bind_eq_Some_conv)
      have v: "N w3 = (N w2)\<lparr>nvIn := (nvIn (N w2))(fd := nvIn (N w2) fd @ got)\<rparr>" using recvAll_view [OF assms(1) rc] by simp
      have fr: "framed (N w) (N (closeQuiet S fd w3))" by (rule gone) (simp_all add: k v)
      show ?thesis
      proof (cases "r3 = vcclSuccess \<and> got = [1]")
        case False
        then have "res \<noteq> vcclSuccess" "bs = None" "w' = closeQuiet S fd w3"
          using assms(2) c True s True' rc by (auto simp: initPeer_def Let_def bind_eq_Some_conv none split: if_splits)
        then show ?thesis using fr by (simp add: bootDone_def framed_def)
      next
        case ok: True
        then have "res = vcclSuccess" "bs = Some ?bs" "w' = w3"
          using assms(2) c True s True' rc by (auto simp: initPeer_def Let_def bind_eq_Some_conv)
        moreover have "k = 32" using k(3) True' by (auto split: if_splits)
        ultimately show ?thesis using o1 ok assms(3) by (auto simp: bootDone_def bsReady_def bsFds_def opened_def k v)
      qed
    qed
  qed
qed

lemma initRoot_loop:
  fixes fds :: "int list" and n :: nat
  defines "b \<equiv> \<lparr>bsRank = 0, bsNranks = n, rootFd = -1, peerFds = fds\<rparr>"
  assumes "sockets S N" "n < 2 ^ 31" "iterO (rootStep S u n l) (replicate n (-1), 0, w1) = Some (res, fds, w2)"
    and w1: "nvOpen (N w1) - {l} = A" "l \<in> nvOpen (N w1)" "0 \<le> l" "nvOpen (N w) \<subseteq> nvOpen (N w1)" "A \<subseteq> nvOpen (N w)"
      "\<And>x. x \<in> nvOpen (N w) \<Longrightarrow> nvOut (N w1) x = nvOut (N w) x \<and> nvIn (N w1) x = nvIn (N w) x"
  shows "if res \<noteq> vcclSuccess then bootDone u 0 n A (N w) (N (bsDestroy S b w2)) res None
    else bootDone u 0 n A (N w) (N w2) res (Some b)"
proof -
  have d: "rootDone N u n l w1 fds w2" "res = vcclSuccess \<Longrightarrow> filled fds = {1..<n}"
    using rootLoop [OF assms(2-4) w1(2,3)] by auto
  have t: "tableOk (nvOpen (N w1)) fds" using d(1) by (simp add: rootDone_def)
  have fds: "bsFds b = tableFds fds" using tableFds_set [OF t] by (auto simp: bsFds_def b_def)
  have new: "tableFds fds \<inter> nvOpen (N w1) = {}" using t by (auto simp: tableOk_def tableFds_def)
  have op: "nvOpen (N w2) = A \<union> tableFds fds" using d(1) w1(1) by (simp add: rootDone_def)
  have fr: "nvOut (N w2) x = nvOut (N w) x \<and> nvIn (N w2) x = nvIn (N w) x" if "x \<in> A" for x
    using that d(1) w1(1,5,6) by (auto simp: rootDone_def)
  show ?thesis
  proof (cases "res = vcclSuccess")
    case True
    have "bsReady (N w2) u b" using True d t by (auto simp: bsReady_def rootDone_def tableOk_def b_def)
    then show ?thesis using True op fr fds new w1(4) by (auto simp: bootDone_def b_def)
  next
    case False
    have "A \<union> tableFds fds - tableFds fds = A" using new w1(4,5) by auto
    then show ?thesis using False op fr bsDestroy_open [OF assms(2), of b w2] by (simp add: bootDone_def fds)
  qed
qed

lemma initRoot_done:
  assumes "sockets S N" "n < 2 ^ 31" "initRoot S uid n reg w = Some (res, bs, reg', w')"
    and "\<And>l. reg uid = Some l \<Longrightarrow> l \<in> nvOpen (N w) \<and> 0 \<le> l"
  shows "bootDone (decodeId uid) 0 n (nvOpen (N w) - set_option (reg uid)) (N w) (N w') res bs \<and> reg' = reg(uid := None)"
proof (cases "reg uid")
  case (Some l)
  have l: "l \<in> nvOpen (N w)" "0 \<le> l" using assms(4) [OF Some] by auto
  obtain r fds w2 where it: "iterO (rootStep S (decodeId uid) n l) (replicate n (-1), 0, w) = Some (r, fds, w2)"
    using assms(3) Some l by (auto simp: initRoot_def claimListen_def Let_def bind_eq_Some_conv split: if_splits)
  show ?thesis using assms(3) Some l it initRoot_loop [OF assms(1,2) it, of "nvOpen (N w) - {l}" w]
    by (auto simp: initRoot_def claimListen_def Let_def split: if_splits)
next
  case None
  then have reg: "reg(uid := None) = reg" by auto
  show ?thesis
  proof (cases "uidSalt (decodeId uid) = kCommIdEnvSalt")
    case False
    then show ?thesis using assms(3) None reg
      by (auto simp: initRoot_def claimListen_def Let_def bootDone_def)
  next
    case True
    obtain r1 l p w1 where c: "createListenSocket S (sockPort (getAddr (decodeId uid))) w = (r1, l, p, w1)"
      by (metis prod_cases4)
    note g = createListenSocket_gives [OF assms(1) c]
    show ?thesis
    proof (cases "r1 = vcclSuccess")
      case False
      then show ?thesis using assms(3) None reg True c g
        by (auto simp: initRoot_def claimListen_def Let_def bootDone_def gives_def framed_def)
    next
      case r1: True
      then have o1: "opened l (N w) (N w1)" using g by (simp add: gives_def)
      obtain r fds w2 where it: "iterO (rootStep S (decodeId uid) n l) (replicate n (-1), 0, w1) = Some (r, fds, w2)"
        using assms(3) None True c r1 o1 by (auto simp: initRoot_def claimListen_def Let_def opened_def bind_eq_Some_conv split: if_splits)
      show ?thesis using assms(3) None reg True c r1 o1 it initRoot_loop [OF assms(1,2) it, of "nvOpen (N w)" w]
        by (auto simp: initRoot_def claimListen_def Let_def opened_def split: if_splits)
    qed
  qed
qed

lemma bootstrapInit_done:
  assumes "sockets S N" "n < 2 ^ 31" "bootstrapInit S uid r n reg w = Some (res, bs, reg', w')"
    and "\<And>l. reg uid = Some l \<Longrightarrow> l \<in> nvOpen (N w) \<and> 0 \<le> l"
    and A: "A = nvOpen (N w) - (if r = 0 \<and> uidMagic (decodeId uid) = kVcclMagic then set_option (reg uid) else {})"
  shows "bootDone (decodeId uid) r n A (N w) (N w') res bs"
proof (cases "uidMagic (decodeId uid) = kVcclMagic")
  case magic: True
  show ?thesis
  proof (cases "r = 0")
    case True
    then show ?thesis using assms(3) magic A initRoot_done [OF assms(1,2) _ assms(4)] by (auto simp: bootstrapInit_def)
  next
    case False
    then show ?thesis using assms(3) magic A initPeer_done [OF assms(1), of uid r n w]
      by (auto simp: bootstrapInit_def bind_eq_Some_conv)
  qed
qed (use assms(3) A in \<open>auto simp: bootstrapInit_def bootDone_def\<close>)

end
