(* ===== verification/Vccl_Gather_Spec.thy ===== *)
theory Vccl_Gather_Spec
  imports Vccl_Bootstrap_Spec
begin

text \<open>
  The gather through the root. Each rank runs in its own process with its own view; \<open>channel\<close> relates the two ends
  of a connection: what one end hands out was accepted by the other, in order.
\<close>

definition sliceAt :: "nat \<Rightarrow> byte list \<Rightarrow> nat \<Rightarrow> byte list" where
  "sliceAt k b i = take k (drop (i * k) b)"

lemma slices_concat: "length b = n * k \<Longrightarrow> concat (map (sliceAt k b) [0..<n]) = b"
proof (induction n arbitrary: b)
  case (Suc n)
  have "sliceAt k (take (n * k) b) i = sliceAt k b i" if "i < n" for i
  proof -
    have "i * k + k \<le> n * k" using that by (metis Suc_leI mult_Suc mult_le_mono1 add.commute)
    then show ?thesis by (simp add: sliceAt_def drop_take min_absorb1)
  qed
  then have "map (sliceAt k (take (n * k) b)) [0..<n] = map (sliceAt k b) [0..<n]" by simp
  moreover have "concat (map (sliceAt k (take (n * k) b)) [0..<n]) = take (n * k) b" using Suc.IH Suc.prems by simp
  ultimately have "concat (map (sliceAt k b) [0..<n]) = take (n * k) b" by (simp only:)
  moreover have "sliceAt k b n = drop (n * k) b" using Suc.prems by (simp add: sliceAt_def)
  ultimately show ?case by simp
qed simp

lemma length_slice: "length b = n * k \<Longrightarrow> i < n \<Longrightarrow> length (sliceAt k b i) = k"
proof -
  assume "length b = n * k" "i < n"
  then have "i * k + k \<le> length b" by (metis Suc_leI mult_Suc mult_le_mono1 add.commute)
  then show ?thesis by (simp add: sliceAt_def)
qed

lemma patch_slice:
  assumes "length b = n * k" "length d = k" "i < n" "j < n"
  shows "sliceAt k (patch b (i * k) d) j = (if j = i then d else sliceAt k b j)" "length (patch b (i * k) d) = n * k"
proof -
  have ik: "i * k + k \<le> n * k" "j * k + k \<le> n * k" using assms(3,4) by (metis Suc_leI mult_Suc mult_le_mono1 add.commute)+
  show "length (patch b (i * k) d) = n * k" using assms(1,2) ik by (simp add: patch_def)
  consider "j = i" | "j < i" "j * k + k \<le> i * k" | "i < j" "i * k + k \<le> j * k"
    by (metis Suc_leI add.commute linorder_neqE_nat mult_Suc mult_le_mono1)
  then show "sliceAt k (patch b (i * k) d) j = (if j = i then d else sliceAt k b j)"
  proof cases
    case 2
    then show ?thesis using assms ik by (simp add: sliceAt_def patch_def drop_take min_absorb1)
  next
    case 3
    then have "j * k - (i * k + k) + (i * k + k) = j * k" by simp
    then show ?thesis using assms ik 3 by (simp add: sliceAt_def patch_def)
  qed (use assms ik in \<open>simp add: sliceAt_def patch_def\<close>)
qed

subsection \<open>The two ends of the root\<close>

lemma bsRecvs_view:
  assumes "sockets S N" "bsRecvs S fds k rs b w = Some (vcclSuccess, b', w')" "length b = n * k" "set rs \<subseteq> {..<n}"
    "distinct rs" "inj_on (\<lambda>r. fds ! r) (set rs)"
  shows "length b' = n * k \<and> nvOut (N w') = nvOut (N w) \<and>
    (\<forall>r\<in>set rs. nvIn (N w') (fds ! r) = nvIn (N w) (fds ! r) @ sliceAt k b' r) \<and>
    (\<forall>x. x \<notin> (\<lambda>r. fds ! r) ` set rs \<longrightarrow> nvIn (N w') x = nvIn (N w) x) \<and> (\<forall>j<n. j \<notin> set rs \<longrightarrow> sliceAt k b' j = sliceAt k b j)"
  using assms(2-)
proof (induction rs arbitrary: b w)
  case (Cons r rs)
  obtain got w1 where c: "recvAll S (fds ! r) k w = Some (vcclSuccess, got, w1)"
    "bsRecvs S fds k rs (patch b (r * k) got) w1 = Some (vcclSuccess, b', w')"
    using Cons.prems(1) by (auto simp: bind_eq_Some_conv Let_def split: if_splits)
  have g: "length got = k" "N w1 = (N w)\<lparr>nvIn := (nvIn (N w))(fds ! r := nvIn (N w) (fds ! r) @ got)\<rparr>"
    using recvAll_view [OF assms(1) c(1)] by (auto split: if_splits)
  have r: "r < n" "r \<notin> set rs" and new: "fds ! r \<notin> (\<lambda>r. fds ! r) ` set rs" using Cons.prems(3-5) by auto
  note p = patch_slice [OF Cons.prems(2) g(1) r(1)]
  have IH: "length b' = n * k \<and> nvOut (N w') = nvOut (N w1) \<and>
    (\<forall>r\<in>set rs. nvIn (N w') (fds ! r) = nvIn (N w1) (fds ! r) @ sliceAt k b' r) \<and>
    (\<forall>x. x \<notin> (\<lambda>r. fds ! r) ` set rs \<longrightarrow> nvIn (N w') x = nvIn (N w1) x) \<and>
    (\<forall>j<n. j \<notin> set rs \<longrightarrow> sliceAt k b' j = sliceAt k (patch b (r * k) got) j)"
    by (rule Cons.IH) (use c(2) p(2) [OF r(1)] Cons.prems(3-5) in auto)
  have "sliceAt k b' r = got" using IH r p(1) by simp
  moreover have "nvIn (N w1) (fds ! j) = nvIn (N w) (fds ! j)" if "j \<in> set rs" for j
  proof -
    have "fds ! j \<noteq> fds ! r" using that new by (metis imageI)
    then show ?thesis using g(2) by simp
  qed
  ultimately show ?case using IH g(2) new p(1) by auto
qed simp

lemma bsSends_view:
  assumes "sockets S N" "bsSends S fds rs b w = Some (vcclSuccess, w')" "distinct rs" "inj_on (\<lambda>r. fds ! r) (set rs)"
  shows "nvIn (N w') = nvIn (N w) \<and> (\<forall>r\<in>set rs. nvOut (N w') (fds ! r) = nvOut (N w) (fds ! r) @ b) \<and>
    (\<forall>x. x \<notin> (\<lambda>r. fds ! r) ` set rs \<longrightarrow> nvOut (N w') x = nvOut (N w) x)"
  using assms(2-)
proof (induction rs arbitrary: w)
  case (Cons r rs)
  obtain w1 where c: "sendAll S (fds ! r) b w = Some (vcclSuccess, w1)" "bsSends S fds rs b w1 = Some (vcclSuccess, w')"
    using Cons.prems(1) by (auto simp: bind_eq_Some_conv split: if_splits)
  have g: "N w1 = (N w)\<lparr>nvOut := (nvOut (N w))(fds ! r := nvOut (N w) (fds ! r) @ b)\<rparr>"
    using sendAll_view [OF assms(1) c(1)] by (auto split: if_splits)
  have new: "fds ! r \<notin> (\<lambda>r. fds ! r) ` set rs" using Cons.prems(2,3) by auto
  have "nvOut (N w1) (fds ! j) = nvOut (N w) (fds ! j)" if "j \<in> set rs" for j
  proof -
    have "fds ! j \<noteq> fds ! r" using that new by (metis imageI)
    then show ?thesis using g by simp
  qed
  then show ?case using Cons.IH [OF c(2)] Cons.prems(2,3) g new by auto
qed simp

subsection \<open>All ranks\<close>

lemma bsAllGather_root:
  assumes "bsAllGather S bs b k w = Some (vcclSuccess, b', w')" "bsRank bs = 0"
  shows "\<exists>w1. bsRecvs S (peerFds bs) k [1..<bsNranks bs] b w = Some (vcclSuccess, b', w1) \<and>
    bsSends S (peerFds bs) [1..<bsNranks bs] (take (k * bsNranks bs) b') w1 = Some (vcclSuccess, w')"
  using assms by (auto simp: bsAllGather_def bind_eq_Some_conv split: if_splits)

lemma bsAllGather_peer:
  assumes "bsAllGather S bs b k w = Some (vcclSuccess, b', w')" "bsRank bs \<noteq> 0"
  shows "\<exists>w1 got. sendAll S (rootFd bs) (sliceAt k b (bsRank bs)) w = Some (vcclSuccess, w1) \<and>
    recvAll S (rootFd bs) (k * bsNranks bs) w1 = Some (vcclSuccess, got, w') \<and> b' = patch b 0 got"
  using assms by (auto simp: bsAllGather_def sliceAt_def bind_eq_Some_conv split: if_splits)

definition channel :: "netview \<Rightarrow> netview \<Rightarrow> int \<Rightarrow> netview \<Rightarrow> netview \<Rightarrow> int \<Rightarrow> bool" where
  "channel v v' fd u u' fd' \<longleftrightarrow>
     (\<exists>rest. drop (length (nvOut v fd)) (nvOut v' fd) = drop (length (nvIn u fd')) (nvIn u' fd') @ rest)"

lemma channel_eq:
  assumes "channel v v' fd u u' fd'" "nvOut v' fd = nvOut v fd @ x" "nvIn u' fd' = nvIn u fd' @ y" "length x = length y"
  shows "x = y"
  using assms by (auto simp: channel_def)

lemma gather_agrees:
  assumes sock: "\<And>r. r < n \<Longrightarrow> sockets (S r) (N r)"
    and bs: "\<And>r. r < n \<Longrightarrow> bsRank (bs r) = r \<and> bsNranks (bs r) = n" "inj_on (\<lambda>i. peerFds (bs 0) ! i) {1..<n}"
    and run: "\<And>r. r < n \<Longrightarrow> bsAllGather (S r) (bs r) (b r) k (w r) = Some (vcclSuccess, b' r, w' r)"
    and len: "\<And>r. r < n \<Longrightarrow> length (b r) = n * k"
    and up: "\<And>r. 0 < r \<Longrightarrow> r < n \<Longrightarrow> channel (N r (w r)) (N r (w' r)) (rootFd (bs r)) (N 0 (w 0)) (N 0 (w' 0)) (peerFds (bs 0) ! r)"
    and down: "\<And>r. 0 < r \<Longrightarrow> r < n \<Longrightarrow> channel (N 0 (w 0)) (N 0 (w' 0)) (peerFds (bs 0) ! r) (N r (w r)) (N r (w' r)) (rootFd (bs r))"
    and r: "r < n"
  shows "b' r = concat (map (\<lambda>j. sliceAt k (b j) j) [0..<n])"
proof -
  let ?fds = "peerFds (bs 0)"
  have n: "0 < n" using r by simp
  obtain b1 w1 where root: "bsRecvs (S 0) ?fds k [1..<n] (b 0) (w 0) = Some (vcclSuccess, b1, w1)"
    "bsSends (S 0) ?fds [1..<n] (take (k * n) b1) w1 = Some (vcclSuccess, w' 0)" "b' 0 = b1"
    using bsAllGather_root [OF run [OF n]] bs(1) [OF n] by auto
  have inj: "inj_on (\<lambda>i. ?fds ! i) (set [1..<n])" using bs(2) by simp
  have R: "length b1 = n * k \<and> nvOut (N 0 w1) = nvOut (N 0 (w 0)) \<and>
    (\<forall>r\<in>set [1..<n]. nvIn (N 0 w1) (?fds ! r) = nvIn (N 0 (w 0)) (?fds ! r) @ sliceAt k b1 r) \<and>
    (\<forall>x. x \<notin> (\<lambda>r. ?fds ! r) ` set [1..<n] \<longrightarrow> nvIn (N 0 w1) x = nvIn (N 0 (w 0)) x) \<and> (\<forall>j<n. j \<notin> set [1..<n] \<longrightarrow> sliceAt k b1 j = sliceAt k (b 0) j)"
    by (rule bsRecvs_view [OF sock [OF n] root(1) len [OF n] _ _ inj]) auto
  have T: "nvIn (N 0 (w' 0)) = nvIn (N 0 w1) \<and> (\<forall>r\<in>set [1..<n]. nvOut (N 0 (w' 0)) (?fds ! r) = nvOut (N 0 w1) (?fds ! r) @ take (k * n) b1)"
    using bsSends_view [OF sock [OF n] root(2) _ inj] by simp
  have b1: "take (k * n) b1 = b1" using R by (simp add: mult.commute)
  have other: "sliceAt k b1 i = sliceAt k (b i) i \<and> b' i = b1" if i: "0 < i" "i < n" for i
  proof -
    let ?me = "sliceAt k (b i) i"
    obtain v1 got where c: "sendAll (S i) (rootFd (bs i)) ?me (w i) = Some (vcclSuccess, v1)"
      "recvAll (S i) (rootFd (bs i)) (k * n) v1 = Some (vcclSuccess, got, w' i)" "b' i = patch (b i) 0 got"
      using bsAllGather_peer [OF run [OF i(2)]] bs(1) [OF i(2)] i(1) by fastforce
    have s: "N i v1 = (N i (w i))\<lparr>nvOut := (nvOut (N i (w i)))(rootFd (bs i) := nvOut (N i (w i)) (rootFd (bs i)) @ ?me)\<rparr>"
      using sendAll_view [OF sock [OF i(2)] c(1)] by (auto split: if_splits)
    have g: "length got = k * n" "N i (w' i) = (N i v1)\<lparr>nvIn := (nvIn (N i v1))(rootFd (bs i) := nvIn (N i v1) (rootFd (bs i)) @ got)\<rparr>"
      using recvAll_view [OF sock [OF i(2)] c(2)] by (auto split: if_splits)
    have "?me = sliceAt k b1 i"
      by (rule channel_eq [OF up [OF i]]) (use R T s g(2) i length_slice [OF len [OF i(2)] i(2)] length_slice [of b1 n k i] in auto)
    moreover have "b1 = got"
      by (rule channel_eq [OF down [OF i]]) (use R T s g i b1 in \<open>auto simp: mult.commute\<close>)
    moreover have "b' i = got" using c(3) g(1) len [OF i(2)] by (simp add: patch_def mult.commute)
    ultimately show ?thesis by simp
  qed
  have "sliceAt k b1 j = sliceAt k (b j) j" if "j < n" for j using other [of j] R that by (cases "j = 0") auto
  then have "map (\<lambda>j. sliceAt k (b j) j) [0..<n] = map (sliceAt k b1) [0..<n]" by simp
  then have "concat (map (\<lambda>j. sliceAt k (b j) j) [0..<n]) = b1" using slices_concat [of b1 n k] R by (simp only:)
  moreover have "b' r = b1" using other [of r] r root(3) by (cases "r = 0") auto
  ultimately show ?thesis by simp
qed

end
