(* ===== verification/Vccl_Init_Spec.thy ===== *)
theory Vccl_Init_Spec
  imports Vccl_Init Vccl_Gather_Spec
begin

text \<open>
  The descriptors of a communicator. \<open>meshInv\<close> is the invariant of the loops that build the TCP mesh: the descriptors
  open since the start are exactly those in the table, each once. From it follows that a created transport has one
  socket per other rank, and that \<open>vcclCommInitRank\<close> leaves no descriptor behind when it fails
  (\<open>commInit_fds\<close>). The one exception is a process with no address to advertise (\<open>tcpCreate_leak\<close>).
\<close>

subsection \<open>Wire addresses\<close>

lemma decode_encodeWire: "wfAddr a \<Longrightarrow> decodeWire (encodeWire (toWire a)) = toWire a"
  by (auto simp: decodeWire_def encodeWire_def toWire_def wfAddr_def AF_INET_def AF_INET6_def kWireFamilyIPv4_def kWireFamilyIPv6_def)

lemma length_encodeWire: "wfAddr a \<Longrightarrow> length (encodeWire (toWire a)) = 20"
  by (simp add: encodeWire_def toWire_size)

text \<open>After the gather every rank has the addresses that all ranks advertised.\<close>

lemma addresses_agree:
  assumes "\<And>r. r < n \<Longrightarrow> wfAddr (a r)" "i < n"
    and "b' = concat (map (\<lambda>j. sliceAt 20 (patch (replicate (n * 20) 0) (j * 20) (encodeWire (toWire (a j)))) j) [0..<n])"
  shows "fromWire (decodeWire (take 20 (drop (i * 20) b'))) = a i"
proof -
  let ?x = "\<lambda>j. if j < n then encodeWire (toWire (a j)) else replicate 20 0"
  have "sliceAt 20 (patch (replicate (n * 20) 0) (j * 20) (encodeWire (toWire (a j)))) j = ?x j" if "j < n" for j
    using patch_slice(1) [of "replicate (n * 20) 0" n 20 "?x j" j j] that assms(1) by (simp add: length_encodeWire)
  then have "map (\<lambda>j. sliceAt 20 (patch (replicate (n * 20) 0) (j * 20) (encodeWire (toWire (a j)))) j) [0..<n] = map ?x [0..<n]" by simp
  then have b': "b' = concat (map ?x [0..<n])" using assms(3) by (simp only:)
  have "take 20 (drop (i * 20) b') = ?x i"
    unfolding b' using assms(2) by (intro elem_of_concat) (auto simp: assms(1) length_encodeWire)
  then show ?thesis using assms(1,2) by (simp add: decode_encodeWire wire_roundtrip)
qed

subsection \<open>One more connection\<close>

text \<open>A descriptor that was opened and used for transfers.\<close>

definition touched :: "int \<Rightarrow> netview \<Rightarrow> netview \<Rightarrow> bool" where
  "touched fd v v' \<longleftrightarrow> 0 \<le> fd \<and> fd \<notin> nvOpen v \<and> nvOpen v' = insert fd (nvOpen v)"

lemma touched_opened: "opened fd v v' \<Longrightarrow> touched fd v v'"
  by (simp add: opened_def touched_def)

lemma touched_send: "sockets S N \<Longrightarrow> touched fd v (N u) \<Longrightarrow> sendAll S x p u = Some (res, u') \<Longrightarrow> touched fd v (N u')"
  using sendAll_open [of S N x p u res u'] by (simp add: touched_def)

lemma touched_recv: "sockets S N \<Longrightarrow> touched fd v (N u) \<Longrightarrow> recvAll S x k u = Some (res, got, u') \<Longrightarrow> touched fd v (N u')"
  using recvAll_open [of S N x k u res got u'] by (simp add: touched_def)

lemma touched_close: "sockets S N \<Longrightarrow> touched fd v (N u) \<Longrightarrow> nvOpen (N (closeQuiet S fd u)) = nvOpen v"
  using sockets_close [of S N fd u] by (auto simp: touched_def closeQuiet_def closed_def)

definition meshInv :: "nat \<Rightarrow> nat \<Rightarrow> int set \<Rightarrow> int list \<Rightarrow> netview \<Rightarrow> bool" where
  "meshInv n r A fds v \<longleftrightarrow> length fds = n \<and> filled fds \<subseteq> {..<n} - {r} \<and> tableOk A fds \<and> nvOpen v = A \<union> tableFds fds"

lemma meshInv_same: "meshInv n r A fds v \<Longrightarrow> nvOpen v' = nvOpen v \<Longrightarrow> meshInv n r A fds v'"
  by (simp add: meshInv_def)

lemma meshInv_add:
  assumes "meshInv n r A fds v" "touched fd v v'" "p < n" "p \<noteq> r" "fds ! p = -1"
  shows "meshInv n r A (fds[p := fd]) v'" "filled (fds[p := fd]) = insert p (filled fds)" "p \<notin> filled fds"
proof -
  have t: "tableOk A fds" "p < length fds" "fds ! p = -1" "0 \<le> fd" "fd \<notin> A" "fd \<notin> tableFds fds"
    using assms by (auto simp: meshInv_def touched_def)
  note up = table_update [OF t]
  show "meshInv n r A (fds[p := fd]) v'" using assms up by (auto simp: meshInv_def touched_def)
  show "filled (fds[p := fd]) = insert p (filled fds)" "p \<notin> filled fds" by (rule up)+
qed

lemma gives_touched: "gives vcclSuccess fd v v' \<Longrightarrow> touched fd v v'"
  by (simp add: gives_def touched_opened)

lemma gives_fail: "gives res fd v v' \<Longrightarrow> res \<noteq> vcclSuccess \<Longrightarrow> nvOpen v' = nvOpen v"
  by (simp add: gives_def framed_def)

subsection \<open>The loops\<close>

lemma tcpConnects_inv:
  assumes "sockets S N" "tcpConnects S r addrs ps fds w = Some (res, fds', w')" "meshInv n r A fds (N w)"
    and "set ps \<subseteq> {..<n} - {r}" "distinct ps" "\<And>p. p \<in> set ps \<Longrightarrow> fds ! p = -1"
  shows "meshInv n r A fds' (N w') \<and> (res = vcclSuccess \<longrightarrow> filled fds' = filled fds \<union> set ps)"
  using assms(2-)
proof (induction ps arbitrary: fds w)
  case (Cons p ps)
  obtain r1 fd w1 where c: "connectTo S (addrs ! p) (connectTimeoutMs (sys_getenv S)) w = Some (r1, fd, w1)"
    using Cons.prems(1) by (auto simp: bind_eq_Some_conv)
  note g = connectTo_gives [OF assms(1) c]
  show ?case
  proof (cases "r1 = vcclSuccess")
    case False
    then show ?thesis using Cons.prems(1) c meshInv_same [OF Cons.prems(2) gives_fail [OF g]] by auto
  next
    case True
    then have t1: "touched fd (N w) (N w1)" using g gives_touched by simp
    obtain r2 w2 where s: "sendAll S fd (bytes_of (of_nat r :: 32 word)) w1 = Some (r2, w2)"
      using Cons.prems(1) c True by (auto simp: bind_eq_Some_conv)
    note t2 = touched_send [OF assms(1) t1 s]
    show ?thesis
    proof (cases "r2 = vcclSuccess")
      case False
      then show ?thesis using Cons.prems(1) c True s meshInv_same [OF Cons.prems(2) touched_close [OF assms(1) t2]] by auto
    next
      case True': True
      have p: "p < n" "p \<noteq> r" "fds ! p = -1" using Cons.prems(3,5) by auto
      note add = meshInv_add [OF Cons.prems(2) t2 p]
      have "meshInv n r A fds' (N w') \<and> (res = vcclSuccess \<longrightarrow> filled fds' = filled (fds[p := fd]) \<union> set ps)"
      proof (rule Cons.IH [OF _ add(1)])
        show "fds[p := fd] ! q = -1" if "q \<in> set ps" for q
        proof -
          have "q \<noteq> p" using that Cons.prems(4) by auto
          then show ?thesis using that Cons.prems(5) [of q] by simp
        qed
      qed (use Cons.prems c True s True' in auto)
      then show ?thesis using add(2) by auto
    qed
  qed
qed simp

lemma tcpAccepts_inv:
  assumes "sockets S N" "tcpAccepts S l r n k fds w = Some (res, fds', w')" "meshInv n r A fds (N w)"
  shows "meshInv n r A fds' (N w') \<and> (res = vcclSuccess \<longrightarrow> card (filled fds') = card (filled fds) + k)"
  using assms(2-)
proof (induction k arbitrary: fds w)
  case (Suc k)
  obtain r1 fd w1 where c: "acceptOne S l w = Some (r1, fd, w1)"
    using Suc.prems(1) by (auto simp: bind_eq_Some_conv)
  note g = acceptOne_gives [OF assms(1) c]
  show ?case
  proof (cases "r1 = vcclSuccess")
    case False
    then show ?thesis using Suc.prems(1) c meshInv_same [OF Suc.prems(2) gives_fail [OF g]] by auto
  next
    case True
    then have t1: "touched fd (N w) (N w1)" using g gives_touched by simp
    obtain r2 got w2 where rc: "recvAll S fd 4 w1 = Some (r2, got, w2)"
      using Suc.prems(1) c True by (auto simp: bind_eq_Some_conv)
    note t2 = touched_recv [OF assms(1) t1 rc]
    let ?p = "sint (word_of_bytes got :: 32 word)"
    let ?bad = "r2 \<noteq> vcclSuccess \<or> ?p \<le> int r \<or> ?p \<ge> int n \<or> fds ! nat ?p \<noteq> -1"
    have step: "tcpAccepts S l r n (Suc k) fds w =
        (if ?bad then Some (if r2 = vcclSuccess then vcclInternalError else r2, fds, closeQuiet S fd w2)
         else tcpAccepts S l r n k (fds[nat ?p := fd]) w2)"
      using c True rc by (simp add: Let_def)
    show ?thesis
    proof (cases ?bad)
      case bad: True
      have "res \<noteq> vcclSuccess" "fds' = fds" "w' = closeQuiet S fd w2"
        using Suc.prems(1) bad unfolding step by (auto split: if_splits)
      then show ?thesis using meshInv_same [OF Suc.prems(2) touched_close [OF assms(1) t2]] by simp
    next
      case False
      then have p: "nat ?p < n" "nat ?p \<noteq> r" "fds ! nat ?p = -1" by linarith+
      note add = meshInv_add [OF Suc.prems(2) t2 p]
      have "tcpAccepts S l r n k (fds[nat ?p := fd]) w2 = Some (res, fds', w')"
        using Suc.prems(1) False unfolding step by presburger
      from Suc.IH [OF this add(1)] show ?thesis using add(2,3) by simp
    qed
  qed
qed simp

lemma tcpMesh_inv:
  assumes "sockets S N" "tcpMesh S r n l addrs w = Some (res, fds, w')" "r < n" "0 \<le> l" "l \<in> nvOpen (N w)"
  shows "length fds = n" "tableOk (nvOpen (N w)) fds" "nvOpen (N w') = nvOpen (N w) - {l} \<union> tableFds fds"
    "res = vcclSuccess \<longrightarrow> filled fds = {..<n} - {r}"
proof -
  obtain r1 fds1 w1 r2 w2 where c: "tcpConnects S r addrs [0..<r] (replicate n (-1)) w = Some (r1, fds1, w1)"
    "(if r1 = vcclSuccess then tcpAccepts S l r n (n - (r + 1)) fds1 w1 else Some (r1, fds1, w1)) = Some (res, fds, w2)" "w' = closeQuiet S l w2"
    using assms(2) by (auto simp: tcpMesh_def bind_eq_Some_conv)
  have start: "meshInv n r (nvOpen (N w)) (replicate n (-1)) (N w)" by (simp add: meshInv_def)
  have i1: "meshInv n r (nvOpen (N w)) fds1 (N w1)" "r1 = vcclSuccess \<Longrightarrow> filled fds1 = {..<r}"
  proof -
    have "set [0..<r] \<subseteq> {..<n} - {r}" using assms(3) by auto
    from tcpConnects_inv [OF assms(1) c(1) start this] show "meshInv n r (nvOpen (N w)) fds1 (N w1)"
      "r1 = vcclSuccess \<Longrightarrow> filled fds1 = {..<r}" using assms(3) by (auto simp: lessThan_atLeast0)
  qed
  have i2: "meshInv n r (nvOpen (N w)) fds (N w2)" "res = vcclSuccess \<Longrightarrow> card (filled fds) = r + (n - (r + 1))"
    using c(2) i1 tcpAccepts_inv [OF assms(1) _ i1(1)] by (auto split: if_splits)
  then show "length fds = n" and t: "tableOk (nvOpen (N w)) fds" by (simp_all add: meshInv_def)
  have "l \<notin> tableFds fds" using t assms(5) by (auto simp: tableOk_def tableFds_def)
  moreover have "nvOpen (N w') = nvOpen (N w2) - {l}"
    using sockets_close [OF assms(1), of l w2] c(3) assms(4) by (simp add: closeQuiet_def closed_def)
  ultimately show "nvOpen (N w') = nvOpen (N w) - {l} \<union> tableFds fds" using i2(1) by (auto simp: meshInv_def)
  show "res = vcclSuccess \<longrightarrow> filled fds = {..<n} - {r}"
  proof
    assume "res = vcclSuccess"
    then have "card (filled fds) = card ({..<n} - {r})" using i2(2) assms(3) by simp
    then show "filled fds = {..<n} - {r}" using i2(1) by (intro card_subset_eq) (auto simp: meshInv_def)
  qed
qed

subsection \<open>Transports\<close>

lemma bsRecvs_open:
  assumes "sockets S N"
  shows "bsRecvs S fds k rs b w = Some (res, b', w') \<Longrightarrow> nvOpen (N w') = nvOpen (N w)"
proof (induction rs arbitrary: b w)
  case (Cons r rs)
  obtain r1 got w1 where c: "recvAll S (fds ! r) k w = Some (r1, got, w1)" using Cons.prems by (auto simp: bind_eq_Some_conv)
  show ?case using Cons.prems c recvAll_open [OF assms c] Cons.IH [of "patch b (r * k) got" w1] by (simp add: Let_def split: if_splits)
qed simp

lemma bsSends_open:
  assumes "sockets S N"
  shows "bsSends S fds rs b w = Some (res, w') \<Longrightarrow> nvOpen (N w') = nvOpen (N w)"
proof (induction rs arbitrary: w)
  case (Cons r rs)
  obtain r1 w1 where c: "sendAll S (fds ! r) b w = Some (r1, w1)" using Cons.prems by (auto simp: bind_eq_Some_conv)
  show ?case using Cons.prems c sendAll_open [OF assms c] Cons.IH [of w1] by (simp split: if_splits)
qed simp

lemma bsAllGather_open:
  assumes "sockets S N" "bsAllGather S bs b k w = Some (res, b', w')"
  shows "nvOpen (N w') = nvOpen (N w)"
proof (cases "bsRank bs = 0")
  case True
  then show ?thesis using assms(2) bsRecvs_open [OF assms(1)] bsSends_open [OF assms(1)]
    by (auto simp: bsAllGather_def bind_eq_Some_conv split: if_splits)
next
  case False
  then show ?thesis using assms(2) sendAll_open [OF assms(1)] recvAll_open [OF assms(1)]
    by (auto simp: bsAllGather_def bind_eq_Some_conv split: if_splits)
qed

lemma fold_nonblock: "sockets S N \<Longrightarrow> N (fold (\<lambda>fd w. if fd \<ge> 0 then sys_nonblock S fd w else w) fds w) = N w"
  by (induction fds arbitrary: w) (simp_all add: sockets_keep(6))

text \<open>A new TCP transport, from a view in which the set \<open>A\<close> of descriptors is open.\<close>

definition tcpReady :: "nat \<Rightarrow> nat \<Rightarrow> int set \<Rightarrow> int list \<Rightarrow> netview \<Rightarrow> bool" where
  "tcpReady r n A fds v \<longleftrightarrow> length fds = n \<and> filled fds = {..<n} - {r} \<and> tableOk A fds \<and> nvOpen v = A \<union> tableFds fds"

text \<open>Without an address to advertise the listening socket stays open.\<close>

lemma tcpCreate_leak:
  assumes "sockets S N" "createListenSocket S 0 w = (vcclSuccess, l, port, w1)" "fst (getAdvertisedAddr S w1) \<noteq> vcclSuccess"
  shows "\<exists>res. tcpTransportCreate S bs w = Some (res, [], w1) \<and> res \<noteq> vcclSuccess \<and> nvOpen (N w1) = insert l (nvOpen (N w)) \<and>
    l \<notin> nvOpen (N w)"
proof -
  have "touched l (N w) (N w1)" using createListenSocket_gives [OF assms(1,2)] gives_touched by simp
  then show ?thesis using assms(2,3) by (cases "getAdvertisedAddr S w1") (auto simp: tcpTransportCreate_def Let_def touched_def)
qed

text \<open>What a failed creation leaves: the descriptors \<open>A\<close>, or \<open>A\<close> and that socket.\<close>

definition leftOpen :: "'w sys \<Rightarrow> int set \<Rightarrow> int set \<Rightarrow> bool" where
  "leftOpen S A B \<longleftrightarrow> B = A \<or> (\<exists>v l. fst (getAdvertisedAddr S v) \<noteq> vcclSuccess \<and> l \<notin> A \<and> B = insert l A)"

lemma leftOpen_refl [simp]: "leftOpen S A A"
  by (simp add: leftOpen_def)

lemma leftOpen_minus: "leftOpen S (A \<union> F) B \<Longrightarrow> A \<inter> F = {} \<Longrightarrow> leftOpen S A (B - F)"
  unfolding leftOpen_def by (elim disjE exE conjE) blast+

lemma tcpCreate_fds:
  assumes "sockets S N" "tcpTransportCreate S bs w = Some (res, fds, w')" "bsRank bs < bsNranks bs"
  shows "if res = vcclSuccess then tcpReady (bsRank bs) (bsNranks bs) (nvOpen (N w)) fds (N w')
    else leftOpen S (nvOpen (N w)) (nvOpen (N w'))"
proof -
  let ?r = "bsRank bs" and ?n = "bsNranks bs"
  obtain r1 l port w1 where c: "createListenSocket S 0 w = (r1, l, port, w1)" by (metis prod_cases4)
  note g = createListenSocket_gives [OF assms(1) c]
  consider "r1 \<noteq> vcclSuccess" | "r1 = vcclSuccess" "fst (getAdvertisedAddr S w1) \<noteq> vcclSuccess"
    | "r1 = vcclSuccess" "fst (getAdvertisedAddr S w1) = vcclSuccess" by blast
  then show ?thesis
  proof cases
    case 1
    then show ?thesis using assms(2) c gives_fail [OF g] by (auto simp: tcpTransportCreate_def leftOpen_def)
  next
    case 2
    then show ?thesis using assms(2) c tcpCreate_leak [OF assms(1), of w l port w1 bs] by (auto simp: leftOpen_def)
  next
    case 3
    then have True: "r1 = vcclSuccess" by simp
    obtain addr where a: "getAdvertisedAddr S w1 = (vcclSuccess, addr)" using 3(2) by (metis prod.collapse)
    have l: "touched l (N w) (N w1)" using True g gives_touched by simp
    obtain r2 b w2 where ag: "bsAllGather S bs (patch (replicate (?n * 20) 0) (?r * 20) (encodeWire (toWire (setPort port addr)))) 20 w1 = Some (r2, b, w2)"
      using assms(2) c True a by (auto simp: tcpTransportCreate_def Let_def bind_eq_Some_conv)
    have l2: "touched l (N w) (N w2)" using l bsAllGather_open [OF assms(1) ag] by (simp add: touched_def)
    show ?thesis
    proof (cases "r2 = vcclSuccess")
      case False
      then show ?thesis using assms(2) c True a ag touched_close [OF assms(1) l2]
        by (auto simp: tcpTransportCreate_def Let_def leftOpen_def)
    next
      case r2: True
      let ?addrs = "map (\<lambda>i. fromWire (decodeWire (take 20 (drop (i * 20) b)))) [0..<?n]"
      obtain r3 f3 w3 where m: "tcpMesh S ?r ?n l ?addrs w2 = Some (r3, f3, w3)"
        and ret: "(res, fds, w') = (if r3 \<noteq> vcclSuccess then (r3, [], tcpClose S f3 w3)
           else (vcclSuccess, f3, fold (\<lambda>fd w. if fd \<ge> 0 then sys_nonblock S fd w else w) f3 w3))"
        using assms(2) c True a ag r2 by (auto simp: tcpTransportCreate_def Let_def bind_eq_Some_conv split: if_splits)
      have "0 \<le> l" "l \<in> nvOpen (N w2)" using l2 by (simp_all add: touched_def)
      note mesh = tcpMesh_inv [OF assms(1) m assms(3) this]
      have A: "nvOpen (N w2) - {l} = nvOpen (N w)" using l2 by (auto simp: touched_def)
      have t: "tableOk (nvOpen (N w)) f3" using mesh(2) l2 by (auto simp: tableOk_def touched_def)
      have "tableFds f3 \<inter> nvOpen (N w) = {}" using t by (auto simp: tableOk_def tableFds_def)
      then have "nvOpen (N (tcpClose S f3 w3)) = nvOpen (N w)"
        using fold_close [OF assms(1), of f3 w3] mesh(3) A tableFds_set [OF t] by (auto simp: tcpClose_def)
      then show ?thesis using ret mesh(1,3,4) A t fold_nonblock [OF assms(1), of f3 w3] by (auto simp: tcpReady_def leftOpen_def split: if_splits)
    qed
  qed
qed

text \<open>The sockets of a new transport have been put into non-blocking mode.\<close>

lemma fold_nonblock_nb:
  assumes "\<And>fd w. insert fd (nb w) \<subseteq> nb (sys_nonblock S fd w)"
  shows "nb w \<union> {fd \<in> set fds. 0 \<le> fd} \<subseteq> nb (fold (\<lambda>fd w. if fd \<ge> 0 then sys_nonblock S fd w else w) fds w)"
proof (induction fds arbitrary: w)
  case (Cons fd fds)
  show ?case using Cons [of "sys_nonblock S fd w"] Cons [of w] assms [of fd w] by (cases "fd \<ge> 0") (simp; blast)+
qed simp

lemma tcpCreate_nonblocking:
  assumes "\<And>fd w. insert fd (nb w) \<subseteq> nb (sys_nonblock S fd w)" "tcpTransportCreate S bs w = Some (vcclSuccess, fds, w')"
  shows "{fd \<in> set fds. 0 \<le> fd} \<subseteq> nb w'"
  using assms(2) fold_nonblock_nb [of nb S _ fds, OF assms(1)]
  by (auto simp: tcpTransportCreate_def Let_def bind_eq_Some_conv split: prod.splits if_splits)

subsection \<open>Communicators\<close>

lemma transportCreate_fds:
  assumes "sockets S N" "transportCreate S None bs w = Some (res, t, w')" "bsRank bs < bsNranks bs"
  shows "case t of None \<Rightarrow> res \<noteq> vcclSuccess \<and> leftOpen S (nvOpen (N w)) (nvOpen (N w'))
    | Some (tr, fds) \<Rightarrow> tr = \<lparr>impl = TcpTransport, taborted = False\<rparr> \<and> tcpReady (bsRank bs) (bsNranks bs) (nvOpen (N w)) fds (N w')"
  using assms(2) tcpCreate_fds [OF assms(1) _ assms(3)]
  by (auto simp: transportCreate_def createTcp_def Let_def bind_eq_Some_conv split: if_splits)

lemma commInit_fds:
  assumes "sockets S N" "n < 2 ^ 31" "vcclCommInitRank S None True n uid r reg w = Some (res, c, reg', w')"
    and "\<And>l. reg uid = Some l \<Longrightarrow> l \<in> nvOpen (N w) \<and> 0 \<le> l"
  shows "\<exists>A. A \<subseteq> nvOpen (N w) \<and> nvOpen (N w) - set_option (reg uid) \<subseteq> A \<and>
    (case c of None \<Rightarrow> res \<noteq> vcclSuccess \<and> leftOpen S A (nvOpen (N w'))
     | Some nc \<Rightarrow> res = vcclSuccess \<and> rank (ncComm nc) = nat r \<and> nranks (ncComm nc) = nat n \<and>
         bsFds (ncBootstrap nc) \<inter> nvOpen (N w) = {} \<and>
         (if n = 1 then ncFds nc = [] \<and> transport (ncComm nc) = None \<and> nvOpen (N w') = A \<union> bsFds (ncBootstrap nc)
          else transport (ncComm nc) = Some \<lparr>impl = TcpTransport, taborted = False\<rparr> \<and>
            tcpReady (nat r) (nat n) (A \<union> bsFds (ncBootstrap nc)) (ncFds nc) (N w')))"
proof (cases "n < 1 \<or> r < 0 \<or> r \<ge> n")
  case True
  then show ?thesis using assms(3) by (intro exI [of _ "nvOpen (N w)"]) (auto simp: vcclCommInitRank_def leftOpen_def)
next
  case False
  obtain r1 bs reg1 w1 where b: "bootstrapInit S uid (nat r) (nat n) reg w = Some (r1, bs, reg1, w1)"
    using assms(3) False by (auto simp: vcclCommInitRank_def bind_eq_Some_conv)
  define A where "A = nvOpen (N w) - (if nat r = 0 \<and> uidMagic (decodeId uid) = kVcclMagic then set_option (reg uid) else {})"
  have "nat n < 2 ^ 31" using assms(2) False by simp
  from bootstrapInit_done [OF assms(1) this b assms(4) A_def]
  have d: "bootDone (decodeId uid) (nat r) (nat n) A (N w) (N w1) r1 bs" .
  have sub: "A \<subseteq> nvOpen (N w)" "nvOpen (N w) - set_option (reg uid) \<subseteq> A" by (auto simp: A_def)
  show ?thesis
  proof (cases bs)
    case None
    then have "c = None" "res = r1" "w' = w1" using assms(3) False b by (auto simp: vcclCommInitRank_def)
    then show ?thesis using d None sub by (intro exI [of _ A]) (simp add: bootDone_def leftOpen_def)
  next
    case (Some bt)
    have bt: "bsRank bt = nat r" "bsNranks bt = nat n" "bsFds bt \<inter> nvOpen (N w) = {}" "nvOpen (N w1) = A \<union> bsFds bt"
      using d Some by (simp_all add: bootDone_def)
    show ?thesis
    proof (cases "n = 1")
      case True
      then show ?thesis using assms(3) False b Some bt sub by (intro exI [of _ A]) (auto simp: vcclCommInitRank_def emptyComm_def)
    next
      case n: False
      obtain r2 t w2 where tc: "transportCreate S None bt w1 = Some (r2, t, w2)"
        using assms(3) False n b Some by (auto simp: vcclCommInitRank_def bind_eq_Some_conv)
      have lt: "bsRank bt < bsNranks bt" using False bt by simp
      note tf = transportCreate_fds [OF assms(1) tc lt]
      show ?thesis
      proof (cases t)
        case None
        have "A \<inter> bsFds bt = {}" using bt(3) sub by auto
        then have "leftOpen S A (nvOpen (N (bsDestroy S bt w2)))"
          using bsDestroy_open [OF assms(1), of bt w2] tf None bt(4) by (simp add: leftOpen_minus)
        then show ?thesis using assms(3) False n b Some tc None tf sub by (intro exI [of _ A]) (auto simp: vcclCommInitRank_def)
      next
        case t: (Some x)
        obtain tr fds where x: "x = (tr, fds)" by fastforce
        have "c = Some \<lparr>ncComm = emptyComm (nat r) (nat n) (Some tr), ncBootstrap = bt, ncFds = fds\<rparr>" "res = vcclSuccess" "w' = w2"
          using assms(3) False n b Some tc t x by (auto simp: vcclCommInitRank_def)
        then show ?thesis using tf t x n bt sub by (intro exI [of _ A]) (auto simp: emptyComm_def)
      qed
    qed
  qed
qed

end
