(* ===== verification/Vccl_Init_Live.thy ===== *)
theory Vccl_Init_Live
  imports Vccl_Init Vccl_Socket_Spec
begin

text \<open>
  Initialisation returns. \<open>clocked\<close> collects what the watchdog relies on: time passes in \<open>poll\<close> and \<open>sleep\<close>, never goes
  back, and signals interrupt finitely often. The accept loop of the root has no deadline of its own: it turns
  strangers away and keeps listening, so it ends when only finitely many clients come (\<open>visitors\<close>). The sockets of the
  rendezvous and of the transport's set-up are in blocking mode, which the watchdog does not cover: a client that
  connects to the root and sends nothing holds it for ever (\<open>silent_client\<close>), so the results assume that no peer stays
  silent (\<open>prompt\<close>).
\<close>

definition clocked :: "'w sys \<Rightarrow> ('w \<Rightarrow> int) \<Rightarrow> ('w \<Rightarrow> nat) \<Rightarrow> bool" where
  "clocked S time patience \<longleftrightarrow> timed S time patience \<and> timedConnect S time \<and> 0 < timeoutSeconds (sys_getenv S) \<and>
     (\<forall>fd w r w'. sys_accept S fd w = (r, w') \<longrightarrow> time w \<le> time w' \<and> patience w' \<le> patience w)"

text \<open>No call on a descriptor blocks for ever: a client that has connected sends what it has to, or closes.\<close>

definition prompt :: "'w sys \<Rightarrow> bool" where
  "prompt S \<longleftrightarrow> (\<forall>fd out w. \<not> sys_blocks S fd out w)"

definition visitors :: "'w sys \<Rightarrow> ('w \<Rightarrow> nat) \<Rightarrow> bool" where
  "visitors S arr \<longleftrightarrow> quietly S (\<lambda>w w'. arr w' \<le> arr w) \<and> (\<forall>fd w. arr (sys_close S fd w) \<le> arr w) \<and>
     (\<forall>l w r w'. sys_accept S l w = (r, w') \<longrightarrow> (case r of Fd s \<Rightarrow> arr w' < arr w | FdFail e \<Rightarrow> arr w' \<le> arr w))"

lemma clocked_returns:
  assumes "clocked S time patience" "prompt S"
  shows "sendAll S fd p w \<noteq> None" "recvAll S fd k w \<noteq> None" "acceptOne S l w \<noteq> None" "connectTo S a ms w \<noteq> None"
proof -
  have c: "timed S time patience" "timedConnect S time" "0 < timeoutSeconds (sys_getenv S)"
    "\<And>fd w r w'. sys_accept S fd w = (r, w') \<Longrightarrow> time w \<le> time w' \<and> patience w' \<le> patience w"
    "nonblocking S (\<lambda>_. UNIV)" "\<And>w. \<not> sys_blocks S l False w"
    using assms unfolding clocked_def prompt_def by (blast intro: nonblocking_UNIV)+
  show "sendAll S fd p w \<noteq> None" using sendAll_returns [OF c(1,3) c(5) UNIV_I, of fd p w] by auto
  show "recvAll S fd k w \<noteq> None" using recvAll_returns [OF c(1,3) c(5) UNIV_I, of fd k w] by auto
  show "acceptOne S l w \<noteq> None" using acceptOne_returns [OF c(1,3,4) c(6), where w = w] by auto
  show "connectTo S a ms w \<noteq> None" using connectTo_returns [OF c(2), of a ms w] by auto
qed

lemma acceptOne_visitors:
  assumes "visitors S arr" "acceptOne S l w = Some (res, fd, w')"
  shows "arr w' \<le> arr w \<and> (res = vcclSuccess \<longrightarrow> arr w' < arr w)"
proof -
  have q: "quietly S (\<lambda>w w'. arr w' \<le> arr w)" using assms(1) by (simp add: visitors_def)
  note qc = quietly_calls [OF q]
  have ac: "case r of Fd s \<Rightarrow> arr w' < arr w | FdFail e \<Rightarrow> arr w' \<le> arr w" if "sys_accept S l w = (r, w')" for r w w'
    using assms(1) that by (simp add: visitors_def)
  obtain dl w0 where dl: "newDeadline S w = (dl, w0)" by fastforce
  have "iter (acceptStep S dl l) w0 = Some (res, fd, w')" using assms(2) by (auto simp: acceptOne_def dl intro: parked_iter)
  then have "(\<lambda>(res, fd, v). arr v \<le> arr w \<and> (res = vcclSuccess \<longrightarrow> arr v < arr w)) (res, fd, w')"
  proof (rule iter_case [where I = "\<lambda>v. arr v \<le> arr w"])
    show "arr w0 \<le> arr w" using qc(5) [OF dl] .
    fix v assume I: "arr v \<le> arr w"
    obtain r v1 where v1: "dlPoll S dl [(l, False)] v = (r, v1)" by fastforce
    obtain x v2 where v2: "expired S dl v1 = (x, v2)" by fastforce
    obtain a v3 where v3: "sys_accept S l v2 = (a, v3)" by fastforce
    have le: "arr v1 \<le> arr w" "arr v2 \<le> arr w" using qc(7) [OF v1] qc(6) [OF v2] I by auto
    show "case acceptStep S dl l v of Inl v' \<Rightarrow> arr v' \<le> arr w
        | Inr r \<Rightarrow> (\<lambda>(res, fd, v). arr v \<le> arr w \<and> (res = vcclSuccess \<longrightarrow> arr v < arr w)) r"
      using v1 v2 v3 le ac [OF v3] by (auto simp: acceptStep_def split: fdret.splits errno.splits)
  qed
  then show ?thesis by simp
qed

lemma closeQuiet_visitors: "visitors S arr \<Longrightarrow> arr (closeQuiet S fd w) \<le> arr w"
  by (simp add: visitors_def closeQuiet_def)

lemma rootStep_visitors:
  assumes "clocked S time patience" "prompt S" "visitors S arr"
  shows "rootStep S u n l s \<noteq> None" "rootStep S u n l s = Some (Inl s') \<Longrightarrow> arr (snd (snd s')) < arr (snd (snd s))"
proof -
  have q: "quietly S (\<lambda>w w'. arr w' \<le> arr w)" using assms(3) by (simp add: visitors_def)
  note ret = clocked_returns [OF assms(1,2)]
  obtain fds c v where s: "s = (fds, c, v)" by (metis prod_cases3)
  obtain r1 fd v1 where a: "acceptOne S l v = Some (r1, fd, v1)" using ret(3) [of l v] by auto
  obtain r2 got v2 where g: "recvAll S fd 32 v1 = Some (r2, got, v2)" using ret(2) [of fd 32 v1] by auto
  let ?ok = "r2 = vcclSuccess \<and> helloOk u n fds (decodeHello (got @ replicate (32 - length got) 0))"
  obtain r3 v3 where t: "sendAll S fd [if ?ok then 1 else 0] v2 = Some (r3, v3)" using ret(1) [of fd _ v2] by fastforce
  have le: "arr v3 \<le> arr v1" using recvAll_quietly [OF q g] sendAll_quietly [OF q t] by linarith
  have acc: "r1 = vcclSuccess \<Longrightarrow> arr v1 < arr v" using acceptOne_visitors [OF assms(3) a] by simp
  have step: "rootStep S u n l s = (if c < n - 1 then
       if r1 \<noteq> vcclSuccess then Some (Inr (r1, fds, closeQuiet S l v1))
       else Some (Inl (if \<not> ?ok then (fds, c, closeQuiet S fd v3)
         else (fds[nat (sint (hrank (decodeHello (got @ replicate (32 - length got) 0)))) := fd], c + 1, v3)))
     else Some (Inr (vcclSuccess, fds, closeQuiet S l v)))"
    using a g t unfolding s by (simp add: rootStep_def Let_def)
  show "rootStep S u n l s \<noteq> None" by (simp add: step)
  assume "rootStep S u n l s = Some (Inl s')"
  then have "arr (snd (snd s')) \<le> arr v3 \<and> r1 = vcclSuccess"
    using closeQuiet_visitors [OF assms(3), of fd v3] unfolding step by (auto split: if_splits)
  then show "arr (snd (snd s')) < arr (snd (snd s))" using le acc s by simp
qed

lemma bootstrapInit_returns:
  assumes "clocked S time patience" "prompt S" "visitors S arr"
  shows "bootstrapInit S uid r n reg w \<noteq> None"
proof -
  note ret = clocked_returns [OF assms(1,2)]
  have "\<exists>x. iterO (rootStep S u n l) s = Some x" for u l s
    by (rule iterO_total [where I = "\<lambda>_. True" and \<mu> = "\<lambda>s. arr (snd (snd s))"]) (use rootStep_visitors [OF assms] in auto)
  then have loop: "iterO (rootStep S u n l) s \<noteq> None" for u l s by (metis option.distinct(1))
  have "initRoot S uid n reg w \<noteq> None"
    by (simp add: initRoot_def Let_def bind_eq_None_conv loop split: prod.splits del: not_None_eq)
  moreover have "initPeer S uid r n w \<noteq> None"
    by (simp add: initPeer_def Let_def bind_eq_None_conv ret split: prod.splits del: not_None_eq)
  ultimately show ?thesis by (simp add: bootstrapInit_def bind_eq_None_conv split: prod.splits del: not_None_eq)
qed

lemma silent_client:
  assumes "c < n - 1" "acceptOne S l v = Some (vcclSuccess, fd, v1)" "sys_blocks S fd False (snd (newDeadline S v1))"
  shows "iterO (rootStep S u n l) (fds, c, v) = None"
proof -
  have "recvAll S fd 32 v1 = None" using assms(3) by (simp add: recvAll_parked)
  then have "rootStep S u n l (fds, c, v) = None" using assms(1,2) by (simp add: rootStep_def)
  then show ?thesis by (subst iterO.simps) simp
qed

subsection \<open>Gathers, meshes and communicators\<close>

lemma bsAllGather_returns:
  assumes "clocked S time patience" "prompt S"
  shows "bsAllGather S bs b k w \<noteq> None"
proof -
  note ret = clocked_returns [OF assms(1,2)]
  have "bsRecvs S fds k rs b w \<noteq> None" for fds rs b w
    by (induction rs arbitrary: b w) (simp_all add: Let_def bind_eq_None_conv ret split: prod.splits del: not_None_eq)
  moreover have "bsSends S fds rs b w \<noteq> None" for fds rs b w
    by (induction rs arbitrary: w) (simp_all add: bind_eq_None_conv ret split: prod.splits del: not_None_eq)
  ultimately show ?thesis by (simp add: bsAllGather_def bind_eq_None_conv ret split: prod.splits del: not_None_eq)
qed

lemma tcpTransportCreate_returns:
  assumes "clocked S time patience" "prompt S"
  shows "tcpTransportCreate S bs w \<noteq> None"
proof -
  note ret = clocked_returns [OF assms(1,2)]
  have c: "tcpConnects S r addrs ps fds w \<noteq> None" for r addrs ps fds w
    by (induction ps arbitrary: fds w) (simp_all add: bind_eq_None_conv ret split: prod.splits del: not_None_eq)
  have a: "tcpAccepts S l r n k fds w \<noteq> None" for l r n k fds w
    by (induction k arbitrary: fds w) (simp_all add: Let_def bind_eq_None_conv ret split: prod.splits del: not_None_eq)
  have "tcpMesh S r n l addrs w \<noteq> None" for r n l addrs w
    by (simp add: tcpMesh_def bind_eq_None_conv c a split: prod.splits del: not_None_eq)
  then show ?thesis
    by (simp add: tcpTransportCreate_def Let_def bind_eq_None_conv bsAllGather_returns [OF assms] split: prod.splits del: not_None_eq)
qed

lemma commInit_returns:
  assumes "clocked S time patience" "prompt S" "visitors S arr"
  shows "vcclCommInitRank S None out n uid r reg w \<noteq> None"
proof -
  have "createTcp S bs v \<noteq> None" for bs v
    by (simp add: createTcp_def bind_eq_None_conv tcpTransportCreate_returns [OF assms(1,2)] split: prod.splits del: not_None_eq)
  then have "transportCreate S None bs v \<noteq> None" for bs v by (simp add: transportCreate_def Let_def del: not_None_eq)
  then show ?thesis
    by (simp add: vcclCommInitRank_def bind_eq_None_conv bootstrapInit_returns [OF assms] split: prod.splits option.splits del: not_None_eq)
qed

end
