(* ===== verification/Vccl_Network.thy ===== *)
theory Vccl_Network
  imports Vccl_Tcp_Spec Vccl_Init_Spec Vccl_Init_Live Vccl_Examples
begin

text \<open>
  Properties of the network side: the watchdog, exact transfers, the TCP transport as an implementation of the
  transport contract, the rendezvous and the creation of communicators. The witnesses run on \<open>exSys\<close>, an operating
  system whose sockets accept everything at once and hand out scripted bytes: those of \<open>xwPend\<close> on an open
  descriptor, and per new client those of \<open>xwArr\<close>.
\<close>

subsection \<open>A system for the witnesses\<close>

record exWorld =
  xwOpen :: "int list"
  xwOut :: "int \<Rightarrow> byte list"
  xwIn :: "int \<Rightarrow> byte list"
  xwPend :: "int \<Rightarrow> byte list"
  xwArr :: "byte list list"
  xwTime :: int

definition freshFd :: "'a exWorld_scheme \<Rightarrow> int" where
  "freshFd w = foldr max (xwOpen w) 0 + 1"

definition openFd :: "byte list \<Rightarrow> 'a exWorld_scheme \<Rightarrow> 'a exWorld_scheme" where
  "openFd d w = w\<lparr>xwOpen := freshFd w # xwOpen w, xwOut := (xwOut w)(freshFd w := []), xwIn := (xwIn w)(freshFd w := []),
     xwPend := (xwPend w)(freshFd w := d)\<rparr>"

definition exSys :: "'a exWorld_scheme sys" where
  "exSys = \<lparr>
     sys_send = (\<lambda>fd d w. (Count (length d), w\<lparr>xwOut := (xwOut w)(fd := xwOut w fd @ d)\<rparr>)),
     sys_recv = (\<lambda>fd n w. if xwPend w fd = [] then (RFail EAGAIN, w)
       else (Data (take n (xwPend w fd)), w\<lparr>xwIn := (xwIn w)(fd := xwIn w fd @ take n (xwPend w fd)),
               xwPend := (xwPend w)(fd := drop n (xwPend w fd))\<rparr>)),
     sys_poll = (\<lambda>ps ms w. (Revents (map (\<lambda>_. True) ps), w\<lparr>xwTime := xwTime w + 1000000000\<rparr>)),
     sys_clock = (\<lambda>w. (xwTime w, w)),
     sys_socket = (\<lambda>_ w. (Fd (freshFd w), openFd [1] w)),
     sys_connect = (\<lambda>_ _ w. (True, w)), sys_bind = (\<lambda>_ _ w. (True, w)), sys_listen = (\<lambda>_ w. (True, w)),
     sys_getsockname = (\<lambda>_ w. (Some 0x901F, w)),
     sys_accept = (\<lambda>_ w. case xwArr w of [] \<Rightarrow> (FdFail EOther, w) | d # ds \<Rightarrow> (Fd (freshFd w), openFd d (w\<lparr>xwArr := ds\<rparr>))),
     sys_close = (\<lambda>fd w. w\<lparr>xwOpen := filter (\<lambda>x. x \<noteq> fd) (xwOpen w)\<rparr>),
     sys_shutdown = (\<lambda>_ w. w), sys_sleep = (\<lambda>ms w. w\<lparr>xwTime := xwTime w + int ms * 1000000\<rparr>),
     sys_getifaddrs = (\<lambda>_. Some [\<lparr>ifa_name = ''eth0'', ifa_addr = Some (AF_INET, [10, 0, 0, 1])\<rparr>]),
     sys_inet_pton4 = (\<lambda>_. None), sys_inet_pton6 = (\<lambda>_. None), sys_getenv = (\<lambda>_. None),
     sys_blocks = (\<lambda>_ _ _. False), sys_nonblock = (\<lambda>_ w. w), sys_random = (\<lambda>w. (7, w))\<rparr>"

definition exView :: "'a exWorld_scheme \<Rightarrow> netview" where
  "exView w = \<lparr>nvOut = xwOut w, nvIn = xwIn w, nvOpen = set (xwOpen w)\<rparr>"

definition exWorld0 :: "(int \<Rightarrow> byte list) \<Rightarrow> byte list list \<Rightarrow> exWorld" where
  "exWorld0 pend arr = \<lparr>xwOpen = [3], xwOut = (\<lambda>_. []), xwIn = (\<lambda>_. []), xwPend = pend, xwArr = arr, xwTime = 0\<rparr>"

lemma max_foldr: "x \<in> set xs \<Longrightarrow> x \<le> foldr max xs (0 :: int)" "0 \<le> foldr max xs (0 :: int)"
  by (induction xs) auto

lemma freshFd_new: "freshFd w \<notin> set (xwOpen w)" "0 \<le> freshFd w"
  using max_foldr(1) [of "freshFd w" "xwOpen w"] max_foldr(2) [of "xwOpen w"] by (auto simp: freshFd_def)

lemma openFd_opened: "opened (freshFd w) (exView w) (exView (openFd d (w\<lparr>xwArr := ds\<rparr>)))" "opened (freshFd w) (exView w) (exView (openFd d w))"
  using freshFd_new [of w] by (auto simp: opened_def exView_def openFd_def freshFd_def)

lemma exSys_streams: "streams exSys xwOut xwIn"
  by (auto simp: streams_def exSys_def split: if_splits)

lemma exSys_sockets: "sockets exSys exView"
proof -
  have s: "streams exSys (\<lambda>w. nvOut (exView w)) (\<lambda>w. nvIn (exView w))" using exSys_streams by (simp add: exView_def)
  show ?thesis unfolding sockets_def using s
    by (auto simp: exSys_def exView_def [of "_\<lparr>xwOpen := _\<rparr>"] closed_def split: list.splits if_splits fdret.splits
        intro: openFd_opened) (auto simp: exView_def freshFd_def)
qed

lemma exSys_timed: "timed exSys xwTime (\<lambda>_. 0)"
  by (auto simp: timed_def exSys_def split: if_splits)

lemma exSys_clocked: "clocked exSys xwTime (\<lambda>_. 0)"
  using exSys_timed by (auto simp: clocked_def timedConnect_def exSys_def timeoutSeconds_def openFd_def split: list.splits)

lemma exSys_prompt: "prompt exSys"
  by (simp add: prompt_def exSys_def)

lemma exSys_visitors: "visitors exSys (\<lambda>w. length (xwArr w))"
  by (auto simp: visitors_def quietly_def reflp_def transp_def exSys_def openFd_def split: list.splits)

subsection \<open>Transfers\<close>

text \<open>C33: The watchdog. With a timeout set, no transfer on descriptors in non-blocking mode waits forever: \<open>sendAll\<close>,
  \<open>recvAll\<close>, \<open>duplexTransfer\<close> and the batches of the TCP transport return on every system whose clock advances while a
  process waits in \<open>poll\<close> and whose signals interrupt only finitely many calls, whatever the peers do. The sockets of
  every transport that \<open>tcpTransportCreate\<close> returns are such descriptors. On a descriptor in blocking mode, as the
  rendezvous and the set-up of the transport use them, the watchdog does not help: \<open>recvAll\<close> does not return when its
  first \<open>recv\<close> blocks for ever.\<close>

theorem transfers_return:
  assumes "timed S time patience" "streams S outs ins" "0 < timeoutSeconds (sys_getenv S)"
    and "nonblocking S nb" "\<And>fd w. insert fd (nb w) \<subseteq> nb (sys_nonblock S fd w)"
    and "distinct fds" "opsRaceFree ops" "\<And>x. x \<in> set ops \<Longrightarrow> peer x < length fds \<and> fds ! peer x \<in> nb w"
    and "fd \<in> nb w" "fd' \<in> nb w"
  shows "sendAll S fd p w \<noteq> None \<and> recvAll S fd k w \<noteq> None \<and> duplexTransfer S fd p fd' k w \<noteq> None \<and>
    tcpBatch S ab fds en ops m w \<noteq> None \<and>
    (\<forall>bs v tf v'. tcpTransportCreate S bs v = Some (vcclSuccess, tf, v') \<longrightarrow> {x \<in> set tf. 0 \<le> x} \<subseteq> nb v') \<and>
    (\<forall>x k v. 0 < k \<longrightarrow> sys_blocks S x False (snd (newDeadline S v)) \<longrightarrow> recvAll S x k v = None)"
proof (intro conjI allI impI)
  show "sendAll S fd p w \<noteq> None" "recvAll S fd k w \<noteq> None"
    using sendAll_returns [OF assms(1,3,4,9), of p] recvAll_returns [OF assms(1,3,4,9), of k] by auto
  show "duplexTransfer S fd p fd' k w \<noteq> None" using duplexTransfer_returns [OF assms(1,3,4,9,10), of p k] by auto
  show "tcpBatch S ab fds en ops m w \<noteq> None"
    using tcpBatch_returns [OF assms(1-3,6,7) _ assms(4), of w ab en m] assms(8) by auto
  show "{x \<in> set tf. 0 \<le> x} \<subseteq> nb v'" if "tcpTransportCreate S bs v = Some (vcclSuccess, tf, v')" for bs v tf v'
    using assms(5) that by (rule tcpCreate_nonblocking)
  show "recvAll S x k v = None" if "0 < k" "sys_blocks S x False (snd (newDeadline S v))" for x k v
    using that by (rule recvAll_parked)
qed

text \<open>A system with blocking descriptors: a \<open>recv\<close> on a descriptor that is not in \<open>xwNb\<close> and has no bytes waiting never returns.\<close>

record nbWorld = exWorld +
  xwNb :: "int list"

definition silentSys :: "'a nbWorld_scheme sys" where
  "silentSys = exSys\<lparr>sys_blocks := (\<lambda>fd out w. \<not> out \<and> fd \<notin> set (xwNb w) \<and> xwPend w fd = []),
     sys_nonblock := (\<lambda>fd w. w\<lparr>xwNb := fd # xwNb w\<rparr>)\<rparr>"

definition silentWorld :: nbWorld where
  "silentWorld = \<lparr>xwOpen = [3, 5], xwOut = (\<lambda>_. []), xwIn = (\<lambda>_. []), xwPend = (\<lambda>_. []), xwArr = [], xwTime = 0, xwNb = [3]\<rparr>"

lemma silentSys_laws:
  "timed silentSys xwTime (\<lambda>_. 0)" "streams silentSys xwOut xwIn" "nonblocking silentSys (\<lambda>w. set (xwNb w))"
  by (auto simp: timed_def streams_def nonblocking_def quietly_def reflp_def transp_def silentSys_def exSys_def split: if_splits)

theorem transfers_return_witness:
  "sendAll silentSys 3 [1, 2] silentWorld \<noteq> None \<and> recvAll silentSys 3 9 silentWorld \<noteq> None \<and>
   duplexTransfer silentSys 3 [1, 2] 3 9 silentWorld \<noteq> None \<and>
   tcpBatch silentSys (\<lambda>_. False) [-1, 3] EAGAIN [\<lparr>isSend = False, peer = 1, buf = 8, bytes = 4\<rparr>] of_nat silentWorld \<noteq> None \<and>
   recvAll silentSys 5 9 silentWorld = None"
proof -
  have b: "sys_blocks silentSys 5 False (snd (newDeadline silentSys silentWorld))"
    by (simp add: silentSys_def silentWorld_def exSys_def newDeadline_def timeoutSeconds_def)
  have "0 < timeoutSeconds (sys_getenv silentSys)" by (simp add: silentSys_def exSys_def timeoutSeconds_def)
  from transfers_return [OF silentSys_laws(1,2) this silentSys_laws(3), where fds = "[-1, 3]" and w = silentWorld and fd = 3 and fd' = 3
      and p = "[1, 2]" and k = 9 and ops = "[\<lparr>isSend = False, peer = 1, buf = 8, bytes = 4\<rparr>]" and ab = "\<lambda>_. False" and en = EAGAIN and m = of_nat]
  show ?thesis using b by (auto simp: silentSys_def silentWorld_def)
qed

text \<open>C38: Exact transfers. The socket loops move a prefix of what they are asked to move, in order and on the given
  descriptors only, and report success exactly when they moved all of it, in both directions for \<open>duplexTransfer\<close>.\<close>

theorem transfers_exact:
  assumes "streams S outs ins"
  shows "(case sendAll S fd p w of None \<Rightarrow> True | Some (res, w') \<Rightarrow>
      \<exists>k\<le>length p. outs w' = (outs w)(fd := outs w fd @ take k p) \<and> ins w' = ins w \<and>
        res = (if k = length p then vcclSuccess else vcclSystemError)) \<and>
    (case recvAll S fd n w of None \<Rightarrow> True | Some (res, got, w') \<Rightarrow>
      length got \<le> n \<and> ins w' = (ins w)(fd := ins w fd @ got) \<and> outs w' = outs w \<and>
        res = (if length got = n then vcclSuccess else vcclSystemError)) \<and>
    (case duplexTransfer S fd p fd' n w of None \<Rightarrow> True | Some (res, got, w') \<Rightarrow>
      \<exists>k\<le>length p. length got \<le> n \<and> outs w' = (outs w)(fd := outs w fd @ take k p) \<and> ins w' = (ins w)(fd' := ins w fd' @ got) \<and>
        res = (if k = length p \<and> length got = n then vcclSuccess else vcclSystemError))"
  using sendAll_exact [OF assms, of fd p w] recvAll_exact [OF assms, of fd n w] duplexTransfer_exact [OF assms, of fd p fd' n w]
  by (intro conjI) (auto simp: moved_def split: option.split split del: if_split)

lemma exTransfers_run:
  "\<exists>w1. sendAll exSys 3 [1, 2] (exWorld0 (\<lambda>_. [5, 6, 7]) []) = Some (vcclSuccess, w1)"
  "\<exists>w1. recvAll exSys 3 2 (exWorld0 (\<lambda>_. [5, 6, 7]) []) = Some (vcclSuccess, [5, 6], w1)"
  "\<exists>w1. duplexTransfer exSys 3 [1, 2] 3 2 (exWorld0 (\<lambda>_. [5, 6, 7]) []) = Some (vcclSuccess, [5, 6], w1)"
  by (simp_all add: sendAll_def recvAll_def duplexTransfer_def sendParked_def recvParked_def duplexParked_def exSys_def
      exWorld0_def newDeadline_def timeoutSeconds_def iterO.simps parked_def sendStep_def recvStep_def duplexStep_def duplexSend_def
      duplexRecv_def dlPoll_def pollMs_def expired_def flagOf_def Let_def)

theorem transfers_exact_witness:
  "let w = exWorld0 (\<lambda>_. [5, 6, 7]) [] in
   (\<exists>w1. sendAll exSys 3 [1, 2] w = Some (vcclSuccess, w1) \<and> xwOut w1 = (\<lambda>_. [])(3 := [1, 2]) \<and> xwIn w1 = (\<lambda>_. [])) \<and>
   (\<exists>w1. recvAll exSys 3 2 w = Some (vcclSuccess, [5, 6], w1) \<and> xwIn w1 = (\<lambda>_. [])(3 := [5, 6]) \<and> xwOut w1 = (\<lambda>_. [])) \<and>
   (\<exists>w1. duplexTransfer exSys 3 [1, 2] 3 2 w = Some (vcclSuccess, [5, 6], w1) \<and>
      xwOut w1 = (\<lambda>_. [])(3 := [1, 2]) \<and> xwIn w1 = (\<lambda>_. [])(3 := [5, 6]))"
proof -
  let ?w = "exWorld0 (\<lambda>_. [5, 6, 7]) []"
  obtain w1 where 1: "sendAll exSys 3 [1, 2] ?w = Some (vcclSuccess, w1)" using exTransfers_run(1) by blast
  obtain w2 where 2: "recvAll exSys 3 2 ?w = Some (vcclSuccess, [5, 6], w2)" using exTransfers_run(2) by blast
  obtain w3 where 3: "duplexTransfer exSys 3 [1, 2] 3 2 ?w = Some (vcclSuccess, [5, 6], w3)" using exTransfers_run(3) by blast
  have v: "xwOut ?w = (\<lambda>_. [])" "xwIn ?w = (\<lambda>_. [])" by (simp_all add: exWorld0_def)
  from transfers_exact [OF exSys_streams, where fd = 3 and fd' = 3 and p = "[1, 2]" and n = 2 and w = ?w]
  show ?thesis unfolding Let_def 1 2 3 by (auto simp: v split: if_splits)
qed

text \<open>C28: The TCP transport refines the transport contract. Ranks whose batches match, each on its own system, over
  connections that deliver what was accepted in order: when the batches return success, every receive buffer holds the
  message of the matching send in issue order and the rest of memory is unchanged, which is what the abstract
  transport guarantees for the same batches.\<close>

theorem tcp_refines_contract:
  assumes "\<And>r. r < n \<Longrightarrow> streams (S r) (outs r) (ins r)" "\<And>r. r < n \<Longrightarrow> distinct (fds r) \<and> length (fds r) = n"
    and "batchOk n c ops" "\<And>r. r < n \<Longrightarrow> tcpBatch (S r) (ab r) (fds r) (en r) (ops r) (mem (c r)) (w r) = Some (vcclSuccess, m' r, w' r)"
    and "\<And>i j. i < n \<Longrightarrow> j < n \<Longrightarrow> i \<noteq> j \<Longrightarrow> outs i (w i) (fds i ! j) = ins j (w j) (fds j ! i)"
    and "connected n fds outs ins w'" "j < n"
  shows "exchanged n c ops j (m' j)"
  by (rule tcp_exchange [OF assms])

definition exOps :: "nat \<Rightarrow> P2pOp list" where
  "exOps r = [\<lparr>isSend = True, peer = 1 - r, buf = 8, bytes = 2\<rparr>, \<lparr>isSend = False, peer = 1 - r, buf = 16, bytes = 2\<rparr>]"

definition exTcp :: "nat \<Rightarrow> exWorld" where
  "exTcp r = exWorld0 (\<lambda>_. rd (mem (exCtx 2 (1 - r))) 8 2) []"

definition exTcpDone :: "nat \<Rightarrow> mem \<times> exWorld" where
  "exTcpDone r = (wr (mem (exCtx 2 r)) 16 (rd (mem (exCtx 2 (1 - r))) 8 2),
     (exTcp r)\<lparr>xwOut := (\<lambda>_. [])(3 := rd (mem (exCtx 2 r)) 8 2), xwIn := (\<lambda>_. [])(3 := rd (mem (exCtx 2 (1 - r))) 8 2),
       xwPend := (xwPend (exTcp r))(3 := [])\<rparr>)"

lemma exTcp_run:
  assumes "r < 2"
  shows "tcpBatch exSys (\<lambda>_. False) (if r = 0 then [-1, 3] else [3, -1]) EAGAIN (exOps r) (mem (exCtx 2 r)) (exTcp r) =
    Some (vcclSuccess, exTcpDone r)"
proof -
  consider "r = 0" | "r = 1" using assms by linarith
  then show ?thesis
    by cases (simp_all add: tcpBatch_def parked_def batchParked_def queueParked_def newDeadline_def timeoutSeconds_def exSys_def exOps_def batchKeys_def batchQueues_def opsKey_def opKey_def
      iter_def iterO.simps batchStep_def batchQueue_def batchProgress_def Let_def exTcp_def exWorld0_def exTcpDone_def numeral_2_eq_2 rd_def wr_def)
qed

theorem tcp_refines_contract_witness:
  "exchanged 2 (exCtx 2) exOps 0 (fst (exTcpDone 0))"
proof (rule tcp_refines_contract [where S = "\<lambda>_. exSys" and outs = "\<lambda>_. xwOut" and ins = "\<lambda>_. xwIn" and w = exTcp and w' = "\<lambda>r. snd (exTcpDone r)"
      and m' = "\<lambda>r. fst (exTcpDone r)" and fds = "\<lambda>r. if r = 0 then [-1, 3] else [3, -1]" and ab = "\<lambda>_ _. False" and en = "\<lambda>_. EAGAIN"])
  show "batchOk 2 (exCtx 2) exOps"
    by (auto simp: batchOk_def exOps_def sendsTo_def recvsFrom_def disj_def less_2_cases_iff)
  show "connected 2 (\<lambda>r. if r = 0 then [-1, 3] else [3, -1]) (\<lambda>_. xwOut) (\<lambda>_. xwIn) (\<lambda>r. snd (exTcpDone r))"
    by (auto simp: connected_def exTcpDone_def less_2_cases_iff)
  show "tcpBatch exSys (\<lambda>_. False) (if r = 0 then [-1, 3] else [3, -1]) EAGAIN (exOps r) (mem (exCtx 2 r)) (exTcp r) =
      Some (vcclSuccess, fst (exTcpDone r), snd (exTcpDone r))" if "r < 2" for r
    using exTcp_run [OF that] by simp
qed (auto simp: exSys_streams exTcp_def exWorld0_def less_2_cases_iff)

subsection \<open>Rendezvous\<close>

text \<open>C40: Unique ids. A created id has 128 bytes, carries the magic number and a well-formed address. Derived from
  \<^verbatim>\<open>VCCL_COMM_ID\<close> it names the host and port of the variable and creation changes nothing else, so all ranks get the same
  id; otherwise its port is that of the listening socket just created, which is registered under the id.\<close>

theorem uniqueIdCreate_wf:
  assumes "uniqueIdCreate S reg w = (vcclSuccess, uid, reg', w')" "addrSizes S w"
  shows "length uid = VCCL_UNIQUE_ID_BYTES \<and> uidMagic (decodeId uid) = kVcclMagic \<and> wfAddr (getAddr (decodeId uid)) \<and>
    (case sys_getenv S ''VCCL_COMM_ID'' of
       Some v \<Rightarrow> reg' = reg \<and> w' = w \<and> uidSalt (decodeId uid) = kCommIdEnvSalt \<and>
         (\<exists>host port. v = host @ CHR '':'' # port \<and> CHR '':'' \<notin> set port \<and> sys_inet_pton4 S host = Some (sin_addr (getAddr (decodeId uid))) \<and>
            uint (sockPort (getAddr (decodeId uid))) = atoi port)
     | None \<Rightarrow> \<exists>l w1. createListenSocket S 0 w = (vcclSuccess, l, sockPort (getAddr (decodeId uid)), w1) \<and> reg' = reg(uid \<mapsto> l))"
proof (cases "sys_getenv S ''VCCL_COMM_ID''")
  case (Some v)
  then obtain u where u: "envId S v = Some u" "uid = encodeId u" "reg' = reg" "w' = w"
    using assms(1) by (auto simp: uniqueIdCreate_def Let_def split: option.splits)
  from envId_wf [OF u(1) assms(2)] show ?thesis using Some u by (auto simp: decode_encodeId length_encodeId)
next
  case None
  then show ?thesis using freshId_wf [OF assms(1) None assms(2)] by auto
qed

lemma exSys_addrSizes: "addrSizes exSys w"
  by (auto simp: addrSizes_def exSys_def)

theorem uniqueIdCreate_wf_witness:
  "\<exists>uid reg' w'. uniqueIdCreate exSys (\<lambda>_. None) (exWorld0 (\<lambda>_. []) []) = (vcclSuccess, uid, reg', w') \<and>
     length uid = VCCL_UNIQUE_ID_BYTES \<and> uidMagic (decodeId uid) = kVcclMagic \<and> wfAddr (getAddr (decodeId uid))"
proof -
  let ?r = "uniqueIdCreate exSys (\<lambda>_. None) (exWorld0 (\<lambda>_. []) [])"
  have ok: "fst ?r = vcclSuccess"
    by (simp add: uniqueIdCreate_def getAdvertisedAddr_def createListenSocket_def exSys_def Let_def)
  obtain uid reg' w' where r: "?r = (vcclSuccess, uid, reg', w')" using ok by (metis prod.collapse)
  show ?thesis using uniqueIdCreate_wf [OF r exSys_addrSizes] r by blast
qed

text \<open>C39: The handshake. Of all 32-byte messages a root accepts exactly those that a rank of the same job sends: the
  same id, version, size and byte order, and a rank between 1 and the size that has not connected before.\<close>

theorem helloOk_exact:
  assumes "n < 2 ^ 31" "length b = 32"
  shows "helloOk u n fds (decodeHello b) \<longleftrightarrow> (\<exists>r. 0 < r \<and> r < n \<and> b = encodeHello (helloOf u n r) \<and> fds ! r = -1)"
  using helloOk_iff [OF assms(1), of u fds "decodeHello b"] encode_decodeHello [OF assms(2)] decode_encodeHello by metis

definition exId :: UniqueIdInternal where
  "exId = setAddr (zeroAddr\<lparr>ss_family := AF_INET, ss_port := 0x901F, sin_addr := [10, 0, 0, 1], slen := 16\<rparr>)
     \<lparr>uidMagic = kVcclMagic, uidSalt = 7, uidFamily = 0, uidPort = 0, uidAddr = replicate 16 0\<rparr>"

lemma decode_exId: "decodeId (encodeId exId) = exId" "uidMagic exId = kVcclMagic"
proof -
  have "wfAddr (zeroAddr\<lparr>ss_family := AF_INET, ss_port := 0x901F, sin_addr := [10, 0, 0, 1], slen := 16\<rparr>)"
    by (simp add: wfAddr_def zeroAddr_def)
  then show "decodeId (encodeId exId) = exId" unfolding exId_def by (intro decode_encodeId setAddr_wf)
qed (simp add: exId_def setAddr_def)

theorem helloOk_exact_witness:
  "helloOk exId 2 [-1, -1] (decodeHello (encodeHello (helloOf exId 2 1)))"
  by (subst helloOk_exact) auto

text \<open>C34: The rendezvous of one process. When \<open>Bootstrap::init\<close> returns success, the root holds one descriptor per other rank,
  no two the same, each with exactly the message of its rank received on it, and another rank holds one descriptor,
  on which it has sent its message and has received the byte 1. All other descriptors it opened are closed again,
  the ones of rejected clients and the claimed listening socket included, and so are all when it fails;
  the streams of descriptors that were open before are untouched.\<close>

theorem bootstrap_owns_peers:
  assumes "sockets S N" "n < 2 ^ 31" "bootstrapInit S uid r n reg w = Some (res, bs, reg', w')"
    and "\<And>l. reg uid = Some l \<Longrightarrow> l \<in> nvOpen (N w) \<and> 0 \<le> l"
    and "A = nvOpen (N w) - (if r = 0 \<and> uidMagic (decodeId uid) = kVcclMagic then set_option (reg uid) else {})"
  shows "bootDone (decodeId uid) r n A (N w) (N w') res bs"
  by (rule bootstrapInit_done [OF assms])

theorem bootstrap_owns_peers_witness:
  "\<exists>res bs reg' w'. bootstrapInit exSys (encodeId exId) 0 2 [encodeId exId \<mapsto> 3]
       (exWorld0 (\<lambda>_. []) [replicate 32 9, encodeHello (helloOf exId 2 1)]) = Some (res, bs, reg', w') \<and>
     bootDone exId 0 2 {} (exView (exWorld0 (\<lambda>_. []) [replicate 32 9, encodeHello (helloOf exId 2 1)])) (exView w') res bs"
proof -
  let ?w = "exWorld0 (\<lambda>_. []) [replicate 32 9, encodeHello (helloOf exId 2 1)]"
  obtain res bs reg' w' where r: "bootstrapInit exSys (encodeId exId) 0 2 [encodeId exId \<mapsto> 3] ?w = Some (res, bs, reg', w')"
    using bootstrapInit_returns [OF exSys_clocked exSys_prompt exSys_visitors, of "encodeId exId" 0 2 "[encodeId exId \<mapsto> 3]" ?w] by auto
  have "bootDone (decodeId (encodeId exId)) 0 2 {} (exView ?w) (exView w') res bs"
    by (rule bootstrap_owns_peers [OF exSys_sockets _ r]) (auto simp: decode_exId exView_def exWorld0_def)
  then show ?thesis using r unfolding decode_exId by blast
qed

text \<open>C37: The gather of the bootstrap. When all ranks call it with buffers of the same size and it returns success everywhere,
  all buffers are equal and consist of the ranks' own slices in rank order.\<close>

theorem bootstrap_gather:
  assumes "\<And>r. r < n \<Longrightarrow> sockets (S r) (N r)" "\<And>r. r < n \<Longrightarrow> bsRank (bs r) = r \<and> bsNranks (bs r) = n"
    and "inj_on (\<lambda>i. peerFds (bs 0) ! i) {1..<n}"
    and "\<And>r. r < n \<Longrightarrow> bsAllGather (S r) (bs r) (b r) k (w r) = Some (vcclSuccess, b' r, w' r)" "\<And>r. r < n \<Longrightarrow> length (b r) = n * k"
    and "\<And>r. 0 < r \<Longrightarrow> r < n \<Longrightarrow> channel (N r (w r)) (N r (w' r)) (rootFd (bs r)) (N 0 (w 0)) (N 0 (w' 0)) (peerFds (bs 0) ! r)"
    and "\<And>r. 0 < r \<Longrightarrow> r < n \<Longrightarrow> channel (N 0 (w 0)) (N 0 (w' 0)) (peerFds (bs 0) ! r) (N r (w r)) (N r (w' r)) (rootFd (bs r))"
    and "r < n"
  shows "b' r = concat (map (\<lambda>j. sliceAt k (b j) j) [0..<n])"
  by (rule gather_agrees [OF assms])

definition exBs :: "nat \<Rightarrow> Bootstrap" where
  "exBs r = \<lparr>bsRank = r, bsNranks = 2, rootFd = (if r = 0 then -1 else 3), peerFds = (if r = 0 then [-1, 3] else [])\<rparr>"

definition exGather :: "nat \<Rightarrow> exWorld" where
  "exGather r = exWorld0 (\<lambda>_. if r = 0 then [7] else [9, 7]) []"

definition exGathered :: "nat \<Rightarrow> exWorld" where
  "exGathered r = (exGather r)\<lparr>xwOut := (\<lambda>_. [])(3 := if r = 0 then [9, 7] else [7]), xwIn := (\<lambda>_. [])(3 := if r = 0 then [7] else [9, 7]),
     xwPend := (xwPend (exGather r))(3 := [])\<rparr>"

lemma exGather_run:
  assumes "r < 2"
  shows "bsAllGather exSys (exBs r) (if r = 0 then [9, 0] else [0, 7]) 1 (exGather r) = Some (vcclSuccess, [9, 7], exGathered r)"
proof -
  consider "r = 0" | "r = 1" using assms by linarith
  then show ?thesis
    by cases (simp_all add: bsAllGather_def exBs_def exGather_def exGathered_def exWorld0_def recvAll_def sendAll_def parked_def recvParked_def sendParked_def newDeadline_def
      timeoutSeconds_def exSys_def iterO.simps recvStep_def sendStep_def patch_def Let_def upt_rec numeral_2_eq_2)
qed

theorem bootstrap_gather_witness:
  "[9, 7] = concat (map (\<lambda>j. sliceAt 1 (if j = 0 then [9, 0] else [0, 7 :: byte]) j) [0..<2])"
proof (rule bootstrap_gather [where S = "\<lambda>_. exSys" and N = "\<lambda>_. exView" and bs = exBs and w = exGather and w' = exGathered and b' = "\<lambda>_. [9, 7]" and r = 0])
  show "bsAllGather exSys (exBs r) (if r = 0 then [9, 0] else [0, 7]) 1 (exGather r) = Some (vcclSuccess, [9, 7], exGathered r)" if "r < 2" for r
    using that by (rule exGather_run)
  show "inj_on (\<lambda>i. peerFds (exBs 0) ! i) {1..<2}" by (rule inj_onI) auto
qed (auto simp: exSys_sockets exBs_def channel_def exView_def exGather_def exGathered_def exWorld0_def less_2_cases_iff)

subsection \<open>Communicators\<close>





end
