(* ===== verification/Vccl_Nic.thy ===== *)
theory Vccl_Nic
  imports Vccl_Verbs Vccl_Socket_Spec
begin

text \<open>
  An RDMA adapter with reliable connections, as its documentation describes it: a state with two queues of work
  requests per queue pair, and a step relation \<open>nicStep\<close> for what it does on its own. It takes the oldest send request
  of a queue pair and reads its message from memory, places an arriving message into the buffer of the oldest
  receive request, and may write into the buffer of a pending receive at any time before that. Between any two
  instants of the program it may take any number of steps.

  \<open>rdma S B att N\<close> says that the library \<open>B\<close> drives such an adapter, where \<open>N\<close> gives its state and \<open>att\<close> the queue
  pair of a completion queue: requests are appended when posted, \<open>ibv_poll_cq\<close> reports completed requests only,
  each once. \<open>nicInv\<close> is the invariant of an adapter that is used without races: what was sent is what memory held
  at the start, and a received message stays where it was placed.
\<close>

datatype sendReq = Inline "byte list" | Gather addr nat

record nic =
  nMem :: mem
  nSq :: "nat \<Rightarrow> sendReq list"
  nRq :: "nat \<Rightarrow> (addr \<times> nat) list"
  nSent :: "nat \<Rightarrow> byte list list"
  nGot :: "nat \<Rightarrow> byte list list"
  nSrep :: "nat \<Rightarrow> nat"    \<comment> \<open>send completions reported\<close>
  nRrep :: "nat \<Rightarrow> nat"    \<comment> \<open>receive completions reported\<close>

primrec reqData :: "mem \<Rightarrow> sendReq \<Rightarrow> byte list" where
  "reqData m (Inline d) = d"
| "reqData m (Gather a n) = rd m a n"

inductive nicStep :: "nic \<Rightarrow> nic \<Rightarrow> bool" where
  sent: "nSq x q = s # ss \<Longrightarrow>
    nicStep x (x\<lparr>nSq := (nSq x)(q := ss), nSent := (nSent x)(q := nSent x q @ [reqData (nMem x) s])\<rparr>)"
| got: "nRq x q = (a, n) # rs \<Longrightarrow> length d \<le> n \<Longrightarrow>
    nicStep x (x\<lparr>nRq := (nRq x)(q := rs), nMem := wr (nMem x) a d, nGot := (nGot x)(q := nGot x q @ [d])\<rparr>)"
| dma: "(a, n) \<in> set (nRq x q) \<Longrightarrow> a \<le> b \<Longrightarrow> b + length d \<le> a + n \<Longrightarrow> nicStep x (x\<lparr>nMem := wr (nMem x) b d\<rparr>)"

abbreviation nicRuns :: "nic \<Rightarrow> nic \<Rightarrow> bool" where
  "nicRuns \<equiv> nicStep\<^sup>*\<^sup>*"

text \<open>A call that changes the adapter by \<open>f\<close> at one instant.\<close>

definition acts :: "('w \<Rightarrow> nic) \<Rightarrow> (nic \<Rightarrow> nic) \<Rightarrow> 'w \<Rightarrow> 'w \<Rightarrow> bool" where
  "acts N f w w' \<longleftrightarrow> (\<exists>x. nicRuns (N w) x \<and> nicRuns (f x) (N w'))"

definition sendPost :: "nat \<Rightarrow> bool \<Rightarrow> addr \<Rightarrow> nat \<Rightarrow> nic \<Rightarrow> nic" where
  "sendPost q inl a n x =
     x\<lparr>nSq := (nSq x)(q := nSq x q @ [if inl then Inline (rd (nMem x) a n) else Gather a n])\<rparr>"

definition recvPost :: "nat \<Rightarrow> addr \<Rightarrow> nat \<Rightarrow> nic \<Rightarrow> nic" where
  "recvPost q a n x = x\<lparr>nRq := (nRq x)(q := nRq x q @ [(a, n)])\<rparr>"

definition report :: "nat \<Rightarrow> nat \<Rightarrow> nat \<Rightarrow> nic \<Rightarrow> nic" where
  "report q s r x = x\<lparr>nSrep := (nSrep x)(q := nSrep x q + s), nRrep := (nRrep x)(q := nRrep x q + r)\<rparr>"

definition recvWcs :: "ibv_wc list \<Rightarrow> nat" where "recvWcs ws = length (filter wcRecv ws)"
definition sendWcs :: "ibv_wc list \<Rightarrow> nat" where "sendWcs ws = length (filter (\<lambda>x. \<not> wcRecv x) ws)"

definition rdma :: "'w sys \<Rightarrow> 'w ibv \<Rightarrow> (nat \<Rightarrow> nat) \<Rightarrow> ('w \<Rightarrow> nic) \<Rightarrow> bool" where
  "rdma S B att N \<longleftrightarrow>
     (\<forall>q i e w w'. ibv_post_send B q i e w = (True, w') \<longrightarrow> acts N (sendPost q i (sgeAddr e) (sgeLength e)) w w') \<and>
     (\<forall>q e w w'. ibv_post_recv B q e w = (True, w') \<longrightarrow> acts N (recvPost q (sgeAddr e) (sgeLength e)) w w') \<and>
     (\<forall>c k ws w w'. ibv_poll_cq B c k w = (Some ws, w') \<longrightarrow> list_all wcSuccess ws \<longrightarrow>
        (\<exists>x. nicRuns (N w) x \<and> nSrep x (att c) + sendWcs ws \<le> length (nSent x (att c)) \<and>
           nRrep x (att c) + recvWcs ws \<le> length (nGot x (att c)) \<and> nicRuns (report (att c) (sendWcs ws) (recvWcs ws) x) (N w'))) \<and>
     (\<forall>p a n w. nicRuns (N w) (N (snd (ibv_reg B p a n w)))) \<and> (\<forall>x w. nicRuns (N w) (N (ibv_dereg_mr B x w))) \<and>
     (\<forall>c w. nicRuns (N w) (N (snd (ibv_async_ready B c w)))) \<and> (\<forall>c w. nicRuns (N w) (N (snd (ibv_get_async_event B c w)))) \<and>
     (\<forall>w. nicRuns (N w) (N (ibv_ack_async_event B w))) \<and> (\<forall>w. nicRuns (N w) (N (snd (sys_clock S w))))"

subsection \<open>The invariant\<close>

text \<open>Receive buffers that do not overlap, neither on one queue pair nor across them, all inside the set \<open>X\<close>.\<close>

definition segDisj :: "addr \<times> nat \<Rightarrow> addr \<times> nat \<Rightarrow> bool" where
  "segDisj s t = disj (fst s) (snd s) (fst t) (snd t)"

definition segSet :: "addr \<times> nat \<Rightarrow> addr set" where
  "segSet s = {fst s..<fst s + snd s}"

definition apart :: "(nat \<Rightarrow> (addr \<times> nat) list) \<Rightarrow> addr set \<Rightarrow> bool" where
  "apart RS X \<longleftrightarrow> (\<forall>q. sorted_wrt segDisj (RS q)) \<and> (\<forall>q q' s t. q \<noteq> q' \<longrightarrow> s \<in> set (RS q) \<longrightarrow> t \<in> set (RS q') \<longrightarrow> segDisj s t) \<and>
     (\<forall>q s. s \<in> set (RS q) \<longrightarrow> segSet s \<subseteq> X)"

definition placed :: "mem \<Rightarrow> byte list \<Rightarrow> addr \<times> nat \<Rightarrow> bool" where
  "placed m d s \<longleftrightarrow> length d \<le> snd s \<and> rd m (fst s) (length d) = d"

definition recvInv :: "nat \<Rightarrow> nic \<Rightarrow> (addr \<times> nat) list \<Rightarrow> nic \<Rightarrow> bool" where
  "recvInv q x0 rs x \<longleftrightarrow> (\<exists>ds. nGot x q = nGot x0 q @ ds \<and> length ds \<le> length rs \<and> nRq x q = drop (length ds) rs \<and>
     list_all2 (placed (nMem x)) ds (take (length ds) rs))"

definition sendInv :: "nat \<Rightarrow> nic \<Rightarrow> byte list list \<Rightarrow> addr set \<Rightarrow> nic \<Rightarrow> bool" where
  "sendInv q x0 ms X x \<longleftrightarrow> nSent x q @ map (reqData (nMem x0)) (nSq x q) = nSent x0 q @ ms \<and>
     (\<forall>a n. Gather a n \<in> set (nSq x q) \<longrightarrow> {a..<a + n} \<inter> X = {})"

definition nicInv :: "nic \<Rightarrow> (nat \<Rightarrow> byte list list) \<Rightarrow> (nat \<Rightarrow> (addr \<times> nat) list) \<Rightarrow> addr set \<Rightarrow> nic \<Rightarrow> bool" where
  "nicInv x0 SM RS X x \<longleftrightarrow> (\<forall>q. sendInv q x0 (SM q) X x) \<and> (\<forall>q. recvInv q x0 (RS q) x) \<and> (\<forall>a. a \<notin> X \<longrightarrow> nMem x a = nMem x0 a)"

lemma nicInv_rd:
  "nicInv x0 SM RS X x \<Longrightarrow> {a..<a + n} \<inter> X = {} \<Longrightarrow> rd (nMem x) a n = rd (nMem x0) a n"
  by (rule rd_cong) (auto simp: nicInv_def disjoint_iff)

lemma nicInv_recvE:
  assumes "nicInv x0 SM RS X x"
  obtains ds where "nGot x q = nGot x0 q @ ds" "length ds \<le> length (RS q)" "nRq x q = drop (length ds) (RS q)"
    "list_all2 (placed (nMem x)) ds (take (length ds) (RS q))"
  using assms unfolding nicInv_def recvInv_def by blast

lemma nicInv_sendD: "nicInv x0 SM RS X x \<Longrightarrow> sendInv q x0 (SM q) X x"
  by (simp add: nicInv_def)

lemma placed_wr:
  assumes "placed m d s" "disj b (length e) (fst s) (snd s)"
  shows "placed (wr m b e) d s"
  using assms disj_sub_both [of b "length e" "fst s" "snd s" b "length e" "fst s" "length d"]
  by (auto simp: placed_def disj_sym rd_wr_disj)

text \<open>A write into a pending buffer leaves everything else of the invariant.\<close>

lemma nicInv_wr:
  assumes inv: "nicInv x0 SM RS X x" and RS: "apart RS X" and s: "s \<in> set (nRq x q)" and b: "fst s \<le> b" "b + length d \<le> fst s + snd s"
  shows "nicInv x0 SM RS X (x\<lparr>nMem := wr (nMem x) b d\<rparr>)"
proof -
  obtain ds where ds: "nGot x q = nGot x0 q @ ds" "length ds \<le> length (RS q)" "nRq x q = drop (length ds) (RS q)"
    by (rule nicInv_recvE [OF inv])
  have sq: "s \<in> set (RS q)" using s ds(3) by (auto dest: in_set_dropD)
  have far: "disj b (length d) (fst t) (snd t)" if "segDisj s t" for t
    using that b unfolding segDisj_def disj_def by linarith
  have "recvInv q' x0 (RS q') (x\<lparr>nMem := wr (nMem x) b d\<rparr>)" for q'
  proof -
    obtain es where es: "nGot x q' = nGot x0 q' @ es" "length es \<le> length (RS q')" "nRq x q' = drop (length es) (RS q')"
      "list_all2 (placed (nMem x)) es (take (length es) (RS q'))"
      by (rule nicInv_recvE [OF inv])
    have "segDisj s t" if t: "t \<in> set (take (length es) (RS q'))" for t
    proof (cases "q' = q")
      case True
      then have "sorted_wrt segDisj (take (length es) (RS q') @ drop (length es) (RS q'))" "s \<in> set (drop (length es) (RS q'))"
        using RS s es(3) by (auto simp: apart_def)
      then have "segDisj t s" using t unfolding sorted_wrt_append by blast
      then show ?thesis by (simp add: segDisj_def disj_sym)
    next
      case False
      then show ?thesis using RS sq in_set_takeD [OF t] unfolding apart_def by metis
    qed
    then have "list_all2 (placed (wr (nMem x) b d)) es (take (length es) (RS q'))"
      using es(4) by (elim list.rel_mono_strong) (blast intro: placed_wr far)
    then show ?thesis using es by (auto simp: recvInv_def)
  qed
  moreover have "segSet s \<subseteq> X" using RS sq unfolding apart_def by blast
  then have "\<not> (fst s \<le> a \<and> a < fst s + snd s)" if "a \<notin> X" for a using that by (auto simp: segSet_def)
  then have "wr (nMem x) b d a = nMem x a" if "a \<notin> X" for a using that b by (intro wr_outside) force
  ultimately show ?thesis using inv by (auto simp: nicInv_def sendInv_def)
qed

lemma nicInv_got:
  assumes inv: "nicInv x0 SM RS X x" and RS: "apart RS X" and s: "nRq x q = (a, n) # rs" and d: "length d \<le> n"
  shows "nicInv x0 SM RS X (x\<lparr>nRq := (nRq x)(q := rs), nMem := wr (nMem x) a d, nGot := (nGot x)(q := nGot x q @ [d])\<rparr>)"
proof -
  let ?y = "x\<lparr>nMem := wr (nMem x) a d\<rparr>" and ?z = "x\<lparr>nRq := (nRq x)(q := rs), nMem := wr (nMem x) a d, nGot := (nGot x)(q := nGot x q @ [d])\<rparr>"
  have y: "nicInv x0 SM RS X ?y" by (rule nicInv_wr [OF inv RS, of "(a, n)" q]) (use s d in auto)
  obtain ds where ds: "nGot x q = nGot x0 q @ ds" "length ds \<le> length (RS q)" "nRq x q = drop (length ds) (RS q)"
      "list_all2 (placed (nMem ?y)) ds (take (length ds) (RS q))"
    using nicInv_recvE [OF y, of q] by simp blast
  have lt: "length ds < length (RS q)" using ds(3) s by (cases "length ds < length (RS q)") auto
  have "RS q ! length ds # drop (Suc (length ds)) (RS q) = (a, n) # rs"
    using ds(3) s Cons_nth_drop_Suc [OF lt] by (simp only:)
  then have hd: "RS q ! length ds = (a, n)" "rs = drop (Suc (length ds)) (RS q)" by auto
  have "placed (nMem ?y) d (a, n)" using d by (simp add: placed_def rd_wr_same)
  then have "list_all2 (placed (nMem ?y)) (ds @ [d]) (take (length ds) (RS q) @ [(a, n)])"
    using ds(4) by (intro list_all2_appendI) auto
  then have "list_all2 (placed (nMem ?y)) (ds @ [d]) (take (length (ds @ [d])) (RS q))"
    using lt hd(1) by (simp add: take_Suc_conv_app_nth)
  then have "recvInv q x0 (RS q) ?z" unfolding recvInv_def
    by (intro exI [of _ "ds @ [d]"]) (use ds lt hd(2) in auto)
  moreover have "recvInv q' x0 (RS q') ?z" if "q' \<noteq> q" for q'
    using y that by (auto simp: nicInv_def recvInv_def)
  ultimately have "recvInv q' x0 (RS q') ?z" for q' by (cases "q' = q") blast+
  then show ?thesis using y by (simp add: nicInv_def sendInv_def)
qed

lemma nicInv_sent:
  assumes inv: "nicInv x0 SM RS X x" and s: "nSq x q = s # ss"
  shows "nicInv x0 SM RS X (x\<lparr>nSq := (nSq x)(q := ss), nSent := (nSent x)(q := nSent x q @ [reqData (nMem x) s])\<rparr>)"
proof -
  have "reqData (nMem x) s = reqData (nMem x0) s"
    using nicInv_sendD [OF inv, of q] s by (cases s) (simp_all add: sendInv_def nicInv_rd [OF inv])
  moreover have "sendInv q x0 (SM q) X x" using inv by (rule nicInv_sendD)
  ultimately show ?thesis using inv s by (auto simp: nicInv_def sendInv_def recvInv_def)
qed

lemma nicStep_inv: "nicStep x y \<Longrightarrow> apart RS X \<Longrightarrow> nicInv x0 SM RS X x \<Longrightarrow> nicInv x0 SM RS X y"
  by (induction rule: nicStep.induct) (auto intro: nicInv_sent nicInv_got dest: nicInv_wr)

lemma nicRuns_inv: "nicRuns x y \<Longrightarrow> apart RS X \<Longrightarrow> nicInv x0 SM RS X x \<Longrightarrow> nicInv x0 SM RS X y"
  by (induction rule: rtranclp_induct) (auto intro: nicStep_inv)

text \<open>What never shrinks, and what the adapter leaves to the program.\<close>

definition grows :: "nic \<Rightarrow> nic \<Rightarrow> bool" where
  "grows x y \<longleftrightarrow> nSrep y = nSrep x \<and> nRrep y = nRrep x \<and>
     (\<forall>q. length (nSent x q) \<le> length (nSent y q) \<and> length (nGot x q) \<le> length (nGot y q))"

lemma grows_trans: "grows x y \<Longrightarrow> grows y z \<Longrightarrow> grows x z"
  unfolding grows_def by (metis le_trans)

lemma grows_post: "grows x (sendPost q i a n x)" "grows x (recvPost q a n x)"
  by (simp_all add: grows_def sendPost_def recvPost_def)

lemma nicRuns_grows: "nicRuns x y \<Longrightarrow> grows x y"
proof (induction rule: rtranclp_induct)
  case (step y z)
  from step(2) have "grows y z" by cases (auto simp: grows_def)
  with step(3) show ?case by (rule grows_trans)
qed (simp add: grows_def)

subsection \<open>Posting\<close>

lemma nicInv_sendPost:
  assumes "nicInv x0 SM RS X x" "{a..<a + n} \<inter> X = {}"
  shows "nicInv x0 (SM(q := SM q @ [rd (nMem x0) a n])) RS X (sendPost q i a n x)"
proof -
  have d: "reqData (nMem x0) (if i then Inline (rd (nMem x) a n) else Gather a n) = rd (nMem x0) a n"
    using nicInv_rd [OF assms] by simp
  have "sendInv q' x0 ((SM(q := SM q @ [rd (nMem x0) a n])) q') X (sendPost q i a n x)" for q'
    using assms d unfolding nicInv_def sendInv_def sendPost_def by (auto split: if_splits)
  then show ?thesis using assms(1) by (auto simp: nicInv_def recvInv_def sendPost_def)
qed

lemma nicInv_recvPost:
  assumes "nicInv x0 SM RS X x"
  shows "nicInv x0 SM (RS(q := RS q @ [(a, n)])) X (recvPost q a n x)"
proof -
  have "recvInv q' x0 ((RS(q := RS q @ [(a, n)])) q') (recvPost q a n x)" for q'
  proof -
    obtain ds where "nGot x q' = nGot x0 q' @ ds" "length ds \<le> length (RS q')" "nRq x q' = drop (length ds) (RS q')"
        "list_all2 (placed (nMem x)) ds (take (length ds) (RS q'))"
      by (rule nicInv_recvE [OF assms])
    then show ?thesis unfolding recvInv_def by (intro exI [of _ ds]) (auto simp: recvPost_def)
  qed
  then show ?thesis using assms by (auto simp: nicInv_def sendInv_def recvPost_def)
qed

lemma nicInv_report: "nicInv x0 SM RS X (report q s r x) = nicInv x0 SM RS X x"
  by (simp add: nicInv_def sendInv_def recvInv_def report_def)

end
