(* ===== verification/Vccl_Verbs_Spec.thy ===== *)
theory Vccl_Verbs_Spec
  imports Vccl_Nic Vccl_Tcp_Spec
begin

text \<open>
  The verbs transport implements the contract of \<^verbatim>\<open>transport.h\<close>. A batch that succeeds on an idle adapter has sent to each
  peer the segments of its send buffers in issue order, has received from each peer as many messages as its
  receives have segments, each in its place, and leaves the adapter idle. When the queue pairs of the ranks are
  connected, what they exchange by batches is what \<open>exchanged\<close> says of the abstract transport.

  The theorem covers regions that the adapter reaches directly (\<open>plain\<close>: no staging buffers).
\<close>

subsection \<open>Segments\<close>

lemma kMax_pos: "0 < kMaxSegBytes"
  by (simp add: kMaxSegBytes_def)

lemma segments_small: "0 < n \<Longrightarrow> n \<le> kMaxSegBytes \<Longrightarrow> segments n = [(0, n)]"
proof -
  assume n: "0 < n" "n \<le> kMaxSegBytes"
  have "(n + kMaxSegBytes - 1) div kMaxSegBytes = 1"
    using n kMax_pos by (simp add: div_nat_eqI)
  then show ?thesis using n by (simp add: segments_def)
qed

lemma segments_bound: "s \<in> set (segments n) \<Longrightarrow> fst s + snd s \<le> n \<and> u32 (snd s) = snd s"
proof -
  assume "s \<in> set (segments n)"
  then obtain i where i: "i < (n + kMaxSegBytes - 1) div kMaxSegBytes" "s = (i * kMaxSegBytes, min kMaxSegBytes (n - i * kMaxSegBytes))"
    by (auto simp: segments_def)
  have "Suc i * kMaxSegBytes \<le> n + kMaxSegBytes - 1"
    using i(1) less_eq_div_iff_mult_less_eq [OF kMax_pos, of "Suc i" "n + kMaxSegBytes - 1"] by simp
  then have "i * kMaxSegBytes < n" using kMax_pos by simp
  moreover have "snd s \<le> kMaxSegBytes" "kMaxSegBytes < 2 ^ 32" using i(2) by (simp_all add: kMaxSegBytes_def)
  then have "snd s < 2 ^ 32" by linarith
  ultimately show ?thesis using i(2) by (auto simp: u32_def)
qed

lemma tiles:
  "concat (map (\<lambda>i. rd m (b + i * k) (min k (n - i * k))) [0..<c]) = rd m b (min n (c * k))"
proof (induction c)
  case (Suc c)
  have "min n (Suc c * k) = min n (c * k) + min k (n - c * k)" by (auto simp: min_def)
  moreover have "rd m (b + min n (c * k)) (min k (n - c * k)) = rd m (b + c * k) (min k (n - c * k))"
    by (cases "n \<le> c * k") (auto simp: min_def)
  ultimately show ?case using Suc by (simp add: rd_add)
qed simp

lemma segments_concat: "concat (map (\<lambda>s. rd m (b + fst s) (snd s)) (segments n)) = rd m b n"
proof -
  have "n \<le> (n + kMaxSegBytes - 1) div kMaxSegBytes * kMaxSegBytes"
    using div_mult_mod_eq [of "n + kMaxSegBytes - 1" kMaxSegBytes] mod_less_divisor [OF kMax_pos, of "n + kMaxSegBytes - 1"]
    by linarith
  then show ?thesis using tiles [of m b kMaxSegBytes n "(n + kMaxSegBytes - 1) div kMaxSegBytes"]
    by (simp add: segments_def comp_def min_absorb1)
qed

lemma segments_sorted: "sorted_wrt (\<lambda>s t. fst s + snd s \<le> fst t) (segments n)"
proof -
  have "i * kMaxSegBytes + min kMaxSegBytes (n - i * kMaxSegBytes) \<le> j * kMaxSegBytes" if "i < j" for i j
  proof -
    have "Suc i * kMaxSegBytes \<le> j * kMaxSegBytes" using that by (intro mult_le_mono1) simp
    then show ?thesis by simp
  qed
  then show ?thesis by (simp add: segments_def sorted_wrt_map sorted_wrt_iff_nth_less)
qed

definition opSegs :: "P2pOp \<Rightarrow> (addr \<times> nat) list" where
  "opSegs x = map (\<lambda>s. (buf x + fst s, snd s)) (segments (bytes x))"

definition opMsgs :: "mem \<Rightarrow> P2pOp \<Rightarrow> byte list list" where
  "opMsgs m x = map (\<lambda>s. rd m (fst s) (snd s)) (opSegs x)"

lemma opMsgs_concat: "concat (opMsgs m x) = rd m (buf x) (bytes x)"
  using segments_concat [of m "buf x" "bytes x"] by (simp add: opMsgs_def opSegs_def comp_def)

lemma opSegs_sub: "s \<in> set (opSegs x) \<Longrightarrow> segSet s \<subseteq> {buf x..<buf x + bytes x}"
  using segments_bound by (fastforce simp: opSegs_def segSet_def)

lemma opSegs_sorted: "sorted_wrt segDisj (opSegs x)"
  unfolding opSegs_def sorted_wrt_map
  by (rule sorted_wrt_mono_rel [OF _ segments_sorted]) (auto simp: segDisj_def disj_def)

lemma opSegs_disj:
  assumes "disj (buf x) (bytes x) (buf y) (bytes y)" "s \<in> set (opSegs x)" "t \<in> set (opSegs y)"
  shows "segDisj s t"
proof -
  obtain i j where "i \<in> set (segments (bytes x))" "s = (buf x + fst i, snd i)" "j \<in> set (segments (bytes y))" "t = (buf y + fst j, snd j)"
    using assms(2,3) by (auto simp: opSegs_def)
  then show ?thesis using assms(1) segments_bound [of i "bytes x"] segments_bound [of j "bytes y"]
    unfolding segDisj_def disj_def by auto
qed

subsection \<open>Requests of a list of operations\<close>

definition sendsOn :: "VerbsTransport \<Rightarrow> P2pOp list \<Rightarrow> nat \<Rightarrow> P2pOp list" where
  "sendsOn v ops q = filter (\<lambda>x. isSend x \<and> bytes x \<noteq> 0 \<and> qps v ! peer x = q) ops"

definition recvsOn :: "VerbsTransport \<Rightarrow> P2pOp list \<Rightarrow> nat \<Rightarrow> P2pOp list" where
  "recvsOn v ops q = filter (\<lambda>x. \<not> isSend x \<and> bytes x \<noteq> 0 \<and> qps v ! peer x = q) ops"

definition msgsOn :: "VerbsTransport \<Rightarrow> mem \<Rightarrow> P2pOp list \<Rightarrow> nat \<Rightarrow> byte list list" where
  "msgsOn v m ops q = concat (map (opMsgs m) (sendsOn v ops q))"

definition segsOn :: "VerbsTransport \<Rightarrow> P2pOp list \<Rightarrow> nat \<Rightarrow> (addr \<times> nat) list" where
  "segsOn v ops q = concat (map opSegs (recvsOn v ops q))"

lemma sorted_wrt_concat:
  "\<forall>x\<in>set xs. sorted_wrt R (f x) \<Longrightarrow> sorted_wrt (\<lambda>x y. \<forall>s\<in>set (f x). \<forall>t\<in>set (f y). R s t) xs \<Longrightarrow> sorted_wrt R (concat (map f xs))"
  by (induction xs) (auto simp: sorted_wrt_append)

lemma race_sorted: "opsRaceFree ops \<Longrightarrow> sorted_wrt (\<lambda>x y. \<forall>s\<in>set (opSegs x). \<forall>t\<in>set (opSegs y). segDisj s t) (recvsOn v ops q)"
proof (induction ops)
  case (Cons x ops)
  have "segDisj s t" if "\<not> isSend x" "y \<in> set ops" "s \<in> set (opSegs x)" "t \<in> set (opSegs y)" for y s t
    using Cons.prems that opSegs_disj [of x y s t] by (auto simp: list_all_iff)
  with Cons show ?case by (auto simp: recvsOn_def)
qed (simp add: recvsOn_def)

lemma segsOn_apart:
  assumes "opsRaceFree ops" "recvBufs ops \<subseteq> X"
  shows "apart (segsOn v ops) X"
  unfolding apart_def
proof (intro conjI allI impI)
  show "sorted_wrt segDisj (segsOn v ops q)" for q
    unfolding segsOn_def by (rule sorted_wrt_concat) (simp_all add: opSegs_sorted race_sorted [OF assms(1)])
next
  fix q q' s t assume q: "q \<noteq> q'" and s: "s \<in> set (segsOn v ops q)" and t: "t \<in> set (segsOn v ops q')"
  obtain x y where xy: "x \<in> set (recvsOn v ops q)" "s \<in> set (opSegs x)" "y \<in> set (recvsOn v ops q')" "t \<in> set (opSegs y)"
    using s t by (auto simp: segsOn_def)
  then have "x \<noteq> y" "\<not> isSend x" "x \<in> set ops" "y \<in> set ops" using q by (auto simp: recvsOn_def)
  then show "segDisj s t" using opSegs_disj [OF race_disj [OF assms(1)] xy(2,4)] by simp
next
  fix q s assume "s \<in> set (segsOn v ops q)"
  then obtain x where "x \<in> set (recvsOn v ops q)" "s \<in> set (opSegs x)" by (auto simp: segsOn_def)
  then show "segSet s \<subseteq> X" using opSegs_sub [of s x] assms(2) by (fastforce simp: recvsOn_def recvBufs_def)
qed

lemma race_append: "opsRaceFree (xs @ ys) \<Longrightarrow> opsRaceFree xs"
  by (induction xs) auto

lemma race_send_out:
  "opsRaceFree ops \<Longrightarrow> x \<in> set ops \<Longrightarrow> isSend x \<Longrightarrow> {buf x..<buf x + bytes x} \<inter> recvBufs ops = {}"
  using race_disj [of ops x] by (fastforce simp: recvBufs_def disj_def)

subsection \<open>Single calls\<close>

text \<open>The adapter after \<open>SM\<close> was sent and \<open>RS\<close> posted since state \<open>x0\<close>, with \<open>sr\<close> and \<open>rr\<close> completions reported per
  queue pair.\<close>

definition nicAt ::
  "('w \<Rightarrow> nic) \<Rightarrow> nic \<Rightarrow> (nat \<Rightarrow> byte list list) \<Rightarrow> (nat \<Rightarrow> (addr \<times> nat) list) \<Rightarrow> addr set \<Rightarrow> (nat \<Rightarrow> nat) \<Rightarrow> (nat \<Rightarrow> nat) \<Rightarrow> 'w \<Rightarrow> bool" where
  "nicAt N x0 SM RS X sr rr w \<longleftrightarrow> apart RS X \<and> nicInv x0 SM RS X (N w) \<and> nSrep (N w) = sr \<and> nRrep (N w) = rr \<and>
     (\<forall>q. sr q \<le> length (nSent (N w) q) \<and> rr q \<le> length (nGot (N w) q))"

lemma nicAt_runs: "nicAt N x0 SM RS X sr rr w \<Longrightarrow> nicRuns (N w) (N w') \<Longrightarrow> nicAt N x0 SM RS X sr rr w'"
  using nicRuns_grows [of "N w" "N w'"] nicRuns_inv [of "N w" "N w'" RS X x0 SM]
  by (auto simp: nicAt_def grows_def intro: order_trans)

lemma nicAt_acts:
  assumes "acts N f w w'" "nicAt N x0 SM RS X sr rr w" "apart RS' X"
    and "\<And>x. nicInv x0 SM RS X x \<Longrightarrow> nicInv x0 SM' RS' X (f x)" "\<And>x. grows x (f x)"
  shows "nicAt N x0 SM' RS' X sr rr w'"
proof -
  obtain x where x: "nicRuns (N w) x" "nicRuns (f x) (N w')" using assms(1) by (auto simp: acts_def)
  have "nicInv x0 SM RS X x" using nicRuns_inv [OF x(1)] assms(2) by (simp add: nicAt_def)
  then have "nicInv x0 SM' RS' X (N w')" using nicRuns_inv [OF x(2) assms(3)] assms(4) by blast
  moreover have "grows (N w) (N w')"
    using nicRuns_grows [OF x(1)] assms(5) nicRuns_grows [OF x(2)] by (blast intro: grows_trans)
  ultimately show ?thesis using assms(2,3) by (auto simp: nicAt_def grows_def intro: order_trans)
qed

lemma nicAt_send:
  assumes "rdma S B att N" "ibv_post_send B q i e w = (True, w')" "nicAt N x0 SM RS X sr rr w"
    and "{sgeAddr e..<sgeAddr e + sgeLength e} \<inter> X = {}"
  shows "nicAt N x0 (SM(q := SM q @ [rd (nMem x0) (sgeAddr e) (sgeLength e)])) RS X sr rr w'"
proof (rule nicAt_acts [OF _ assms(3)])
  show "acts N (sendPost q i (sgeAddr e) (sgeLength e)) w w'" using assms(1,2) by (auto simp: rdma_def)
qed (use assms(3,4) in \<open>auto simp: nicAt_def intro: nicInv_sendPost grows_post\<close>)

lemma nicAt_recv:
  assumes "rdma S B att N" "ibv_post_recv B q e w = (True, w')" "nicAt N x0 SM RS X sr rr w"
    and "apart (RS(q := RS q @ [(sgeAddr e, sgeLength e)])) X"
  shows "nicAt N x0 SM (RS(q := RS q @ [(sgeAddr e, sgeLength e)])) X sr rr w'"
proof (rule nicAt_acts [OF _ assms(3,4)])
  show "acts N (recvPost q (sgeAddr e) (sgeLength e)) w w'" using assms(1,2) by (auto simp: rdma_def)
qed (auto intro: nicInv_recvPost grows_post)

lemma countWcs_success:
  "countWcs ws s r = (vcclSuccess, s', r') \<Longrightarrow> list_all wcSuccess ws \<and> s' = s + sendWcs ws \<and> r' = r + recvWcs ws"
  by (induction ws arbitrary: s r) (fastforce simp: sendWcs_def recvWcs_def split: if_splits)+

lemma nicAt_poll:
  assumes "rdma S B att N" "pollOnce B v p w = (vcclSuccess, s, r, w')" "nicAt N x0 SM RS X sr rr w"
  shows "nicAt N x0 SM RS X (sr(att (cqs v ! p) := sr (att (cqs v ! p)) + s)) (rr(att (cqs v ! p) := rr (att (cqs v ! p)) + r)) w'"
proof -
  let ?q = "att (cqs v ! p)"
  obtain ws where ws: "ibv_poll_cq B (cqs v ! p) 16 w = (Some ws, w')" "countWcs ws 0 0 = (vcclSuccess, s, r)"
    using assms(2) by (auto simp: pollOnce_def split: option.splits prod.splits)
  have ok: "list_all wcSuccess ws" "s = sendWcs ws" "r = recvWcs ws" using countWcs_success [OF ws(2)] by auto
  obtain x where x: "nicRuns (N w) x" "nSrep x ?q + s \<le> length (nSent x ?q)" "nRrep x ?q + r \<le> length (nGot x ?q)"
    "nicRuns (report ?q s r x) (N w')"
    using assms(1) ws(1) ok unfolding rdma_def by metis
  have "nicInv x0 SM RS X (report ?q s r x)" "apart RS X"
    using nicRuns_inv [OF x(1)] assms(3) by (simp_all add: nicAt_def nicInv_report)
  then have inv: "nicInv x0 SM RS X (N w')" by (intro nicRuns_inv [OF x(4)])
  note g = nicRuns_grows [OF x(1)] nicRuns_grows [OF x(4)]
  have reps: "sr(?q := sr ?q + s) = nSrep (N w')" "rr(?q := rr ?q + r) = nRrep (N w')"
    using g assms(3) by (auto simp: grows_def report_def nicAt_def)
  have "nSrep (N w') q' \<le> length (nSent (N w') q') \<and> nRrep (N w') q' \<le> length (nGot (N w') q')" for q'
  proof (cases "q' = ?q")
    case True
    then show ?thesis using g(2) x(2,3) unfolding grows_def report_def by (auto intro: order_trans)
  next
    case False
    then show ?thesis using g assms(3) unfolding grows_def report_def nicAt_def by simp (metis le_trans)
  qed
  then show ?thesis unfolding reps nicAt_def using inv assms(3) by (simp add: nicAt_def)
qed

subsection \<open>Posting\<close>

lemma apart_shrink: "apart (RS(q := xs @ ys)) X \<Longrightarrow> apart (RS(q := xs)) X"
  unfolding apart_def fun_upd_apply by (auto simp: sorted_wrt_append split: if_splits)

lemma upd_twice: "(f(q := f q @ xs))(q := (f(q := f q @ xs)) q @ ys) = f(q := f q @ xs @ ys)"
  by (simp add: fun_eq_iff)

lemma postSegs_recv:
  assumes "rdma S B att N"
  shows "postSegs (ibv_post_recv B q) (map (sgeOf B r) ss) k w = (vcclSuccess, k', w') \<Longrightarrow> nicAt N x0 SM RS X sr rr w \<Longrightarrow>
    \<forall>s\<in>set ss. u32 (snd s) = snd s \<Longrightarrow> apart (RS(q := RS q @ map (\<lambda>s. (nicAddr r + fst s, snd s)) ss)) X \<Longrightarrow>
    k' = k + length ss \<and> nicAt N x0 SM (RS(q := RS q @ map (\<lambda>s. (nicAddr r + fst s, snd s)) ss)) X sr rr w'"
proof (induction ss arbitrary: RS k w)
  case (Cons s ss)
  let ?e = "(nicAddr r + fst s, snd s)"
  obtain w1 where p: "ibv_post_recv B q (sgeOf B r s) w = (True, w1)"
      "postSegs (ibv_post_recv B q) (map (sgeOf B r) ss) (Suc k) w1 = (vcclSuccess, k', w')"
    using Cons.prems(1) by (auto split: prod.splits if_splits)
  have sge: "sgeAddr (sgeOf B r s) = nicAddr r + fst s" "sgeLength (sgeOf B r s) = snd s" using Cons.prems(3) by (simp_all add: sgeOf_def)
  have "apart (RS(q := (RS q @ [?e]) @ map (\<lambda>s. (nicAddr r + fst s, snd s)) ss)) X"
    using Cons.prems(4) by (simp only: list.map append_assoc append.simps)
  then have "nicAt N x0 SM (RS(q := RS q @ [?e])) X sr rr w1"
    using nicAt_recv [OF assms p(1) Cons.prems(2)] sge by (simp add: apart_shrink)
  from Cons.IH [OF p(2) this, unfolded upd_twice] Cons.prems(3,4) show ?case by simp
qed simp

lemma postSegs_send:
  assumes "rdma S B att N"
  shows "postSegs (ibv_post_send B q False) (map (sgeOf B r) ss) k w = (vcclSuccess, k', w') \<Longrightarrow> nicAt N x0 SM RS X sr rr w \<Longrightarrow>
    \<forall>s\<in>set ss. u32 (snd s) = snd s \<and> {nicAddr r + fst s..<nicAddr r + fst s + snd s} \<inter> X = {} \<Longrightarrow>
    k' = k + length ss \<and> nicAt N x0 (SM(q := SM q @ map (\<lambda>s. rd (nMem x0) (nicAddr r + fst s) (snd s)) ss)) RS X sr rr w'"
proof (induction ss arbitrary: SM k w)
  case (Cons s ss)
  obtain w1 where p: "ibv_post_send B q False (sgeOf B r s) w = (True, w1)"
      "postSegs (ibv_post_send B q False) (map (sgeOf B r) ss) (Suc k) w1 = (vcclSuccess, k', w')"
    using Cons.prems(1) by (auto split: prod.splits if_splits)
  have sge: "sgeAddr (sgeOf B r s) = nicAddr r + fst s" "sgeLength (sgeOf B r s) = snd s" using Cons.prems(3) by (simp_all add: sgeOf_def)
  have "nicAt N x0 (SM(q := SM q @ [rd (nMem x0) (nicAddr r + fst s) (snd s)])) RS X sr rr w1"
    using nicAt_send [OF assms p(1) Cons.prems(2)] sge Cons.prems(3) by simp
  from Cons.IH [OF p(2) this, unfolded upd_twice] Cons.prems(3) show ?case by simp
qed simp

definition plain :: "VerbsTransport \<Rightarrow> bool" where
  "plain v \<longleftrightarrow> (\<forall>r\<in>set (regions v). rstaging r = 0) \<and> pendingCopyback v = []"

definition keepsT :: "VerbsTransport \<Rightarrow> VerbsTransport \<Rightarrow> bool" where
  "keepsT v v' \<longleftrightarrow> regions v' = regions v \<and> qps v' = qps v \<and> cqs v' = cqs v \<and> maxInline v' = maxInline v \<and>
     pendingCopyback v' = pendingCopyback v"

lemma keepsT_plain: "keepsT v v' \<Longrightarrow> plain v' = plain v"
  by (simp add: keepsT_def plain_def)

lemma resolve_plain:
  assumes "rdma S B att N" "resolve B b n v w = (e, Some r, v1, w1)" "plain v"
  shows "nicAddr r = b \<and> \<not> bounced r \<and> keepsT v v1 \<and> nicRuns (N w) (N w1)"
proof (cases "find (\<lambda>r. rstart r \<le> b \<and> b + n \<le> rstart r + rlen r) (regions v)")
  case None
  have "nicRuns (N w) (N (snd (ibv_reg B (devPd (dev v)) b n w)))" using assms(1) by (simp add: rdma_def)
  then show ?thesis using None assms(2) by (auto simp: resolve_def keepsT_def split: prod.splits if_splits)
next
  case (Some x)
  then have "x \<in> set (regions v)" by (auto simp: find_Some_iff)
  then show ?thesis using Some assms(2,3) by (auto simp: resolve_def keepsT_def plain_def)
qed

lemma postRecv_at:
  assumes "rdma S B att N" "postRecv B p b n v w = (vcclSuccess, k, v', w')" "plain v" "nicAt N x0 SM RS X sr rr w"
    and "apart (RS(qps v ! p := RS (qps v ! p) @ map (\<lambda>s. (b + fst s, snd s)) (segments n))) X"
  shows "k = length (segments n) \<and> keepsT v v' \<and>
    nicAt N x0 SM (RS(qps v ! p := RS (qps v ! p) @ map (\<lambda>s. (b + fst s, snd s)) (segments n))) X sr rr w'"
proof -
  obtain e r v1 w1 where r: "resolve B b n v w = (e, Some r, v1, w1)"
    using assms(2) by (cases "resolve B b n v w") (auto simp: postRecv_def resolve_def split: option.splits prod.splits if_splits)
  note rp = resolve_plain [OF assms(1) r assms(3)]
  obtain e' k' w2 where ps: "postSegs (ibv_post_recv B (qps v ! p)) (map (sgeOf B r) (segments n)) 0 w1 = (e', k', w2)"
    by (metis prod_cases3)
  have eq: "e' = vcclSuccess" "k' = k" "v' = v1" "w2 = w'" using assms(2) r rp ps by (auto simp: postRecv_def)
  have at: "nicAt N x0 SM RS X sr rr w1" using nicAt_runs [OF assms(4)] rp by blast
  have seg: "\<forall>s\<in>set (segments n). u32 (snd s) = snd s" using segments_bound by blast
  have ap: "apart (RS(qps v ! p := RS (qps v ! p) @ map (\<lambda>s. (nicAddr r + fst s, snd s)) (segments n))) X" using assms(5) rp by simp
  show ?thesis using postSegs_recv [OF assms(1) ps [unfolded eq] at seg ap] rp eq by simp
qed

lemma postSend_at:
  assumes "rdma S B att N" "postSend B p b n v w = (vcclSuccess, k, v', w')" "plain v" "nicAt N x0 SM RS X sr rr w"
    and "{b..<b + n} \<inter> X = {}" "0 < n" "maxInline v ! p \<le> kMaxSegBytes"
  shows "k = length (segments n) \<and> keepsT v v' \<and>
    nicAt N x0 (SM(qps v ! p := SM (qps v ! p) @ map (\<lambda>s. rd (nMem x0) (b + fst s) (snd s)) (segments n))) RS X sr rr w'"
proof (cases "n \<le> maxInline v ! p")
  case True
  then have n: "n \<le> kMaxSegBytes" using assms(7) by simp
  have u: "u32 n = n" using segments_bound [of "(0, n)" n] segments_small [OF assms(6) n] by simp
  have p: "ibv_post_send B (qps v ! p) True \<lparr>sgeAddr = b, sgeLength = u32 n, sgeLkey = 0\<rparr> w = (True, w')" "k = 1" "v' = v"
    using assms(2) True by (auto simp: postSend_def split: prod.splits if_splits)
  show ?thesis using nicAt_send [OF assms(1) p(1) assms(4)] assms(5) u p segments_small [OF assms(6) n] by (simp add: keepsT_def)
next
  case False
  obtain e r v1 w1 where r: "resolve B b n v w = (e, Some r, v1, w1)"
    using assms(2) False by (cases "resolve B b n v w") (auto simp: postSend_def resolve_def split: option.splits prod.splits if_splits)
  note rp = resolve_plain [OF assms(1) r assms(3)]
  obtain e' k' w2 where ps: "postSegs (ibv_post_send B (qps v ! p) False) (map (sgeOf B r) (segments n)) 0 w1 = (e', k', w2)"
    by (metis prod_cases3)
  have eq: "e' = vcclSuccess" "k' = k" "v' = v1" "w2 = w'" using assms(2) False r rp ps by (auto simp: postSend_def)
  have at: "nicAt N x0 SM RS X sr rr w1" using nicAt_runs [OF assms(4)] rp by blast
  have seg: "\<forall>s\<in>set (segments n). u32 (snd s) = snd s \<and> {nicAddr r + fst s..<nicAddr r + fst s + snd s} \<inter> X = {}"
    using segments_bound [of _ n] assms(5) rp by (fastforce simp: disjoint_iff)
  show ?thesis using postSegs_send [OF assms(1) ps [unfolded eq] at seg] rp eq by simp
qed

definition wrsOf :: "P2pOp list \<Rightarrow> qkey \<Rightarrow> nat" where
  "wrsOf ops k = sum_list (map (\<lambda>x. length (opSegs x)) (opsKey ops k))"

lemma msgsOn_snoc:
  "isSend x \<Longrightarrow> bytes x \<noteq> 0 \<Longrightarrow> msgsOn v m (P @ [x]) = (msgsOn v m P)(qps v ! peer x := msgsOn v m P (qps v ! peer x) @ opMsgs m x)"
  "\<not> isSend x \<or> bytes x = 0 \<Longrightarrow> msgsOn v m (P @ [x]) = msgsOn v m P"
  by (auto simp: msgsOn_def sendsOn_def fun_eq_iff)

lemma segsOn_snoc:
  "\<not> isSend x \<Longrightarrow> bytes x \<noteq> 0 \<Longrightarrow> segsOn v (P @ [x]) = (segsOn v P)(qps v ! peer x := segsOn v P (qps v ! peer x) @ opSegs x)"
  "isSend x \<or> bytes x = 0 \<Longrightarrow> segsOn v (P @ [x]) = segsOn v P"
  by (auto simp: segsOn_def recvsOn_def fun_eq_iff)

lemma wrsOf_Cons: "wrsOf (x # xs) k = (if bytes x \<noteq> 0 \<and> opKey x = k then length (opSegs x) else 0) + wrsOf xs k"
  by (simp add: wrsOf_def opsKey_def)

text \<open>The operations of a batch and the transport they run on.\<close>

definition sound :: "VerbsTransport \<Rightarrow> P2pOp list \<Rightarrow> addr set \<Rightarrow> bool" where
  "sound v ops X \<longleftrightarrow> plain v \<and> opsRaceFree ops \<and> recvBufs ops \<subseteq> X \<and>
     (\<forall>x\<in>set ops. (isSend x \<longrightarrow> {buf x..<buf x + bytes x} \<inter> X = {}) \<and> maxInline v ! peer x \<le> kMaxSegBytes)"

lemma sound_prefix: "sound v (xs @ ys) X \<Longrightarrow> sound v xs X"
  by (auto simp: sound_def recvBufs_def dest: race_append)

lemma postOne:
  assumes "rdma S B att N" "(if isSend x then postSend else postRecv) B (peer x) (buf x) (bytes x) v w = (vcclSuccess, k, v', w')"
    and "sound v0 (P @ [x]) X" "keepsT v0 v" "bytes x \<noteq> 0" "nicAt N x0 (msgsOn v0 (nMem x0) P) (segsOn v0 P) X sr rr w"
  shows "k = length (opSegs x) \<and> keepsT v0 v' \<and> nicAt N x0 (msgsOn v0 (nMem x0) (P @ [x])) (segsOn v0 (P @ [x])) X sr rr w'"
proof -
  have v: "plain v" "qps v = qps v0" "maxInline v = maxInline v0" using assms(3,4) keepsT_plain [OF assms(4)] by (auto simp: keepsT_def sound_def)
  have tr: "keepsT v v' \<Longrightarrow> keepsT v0 v'" using assms(4) by (simp add: keepsT_def)
  show ?thesis
  proof (cases "isSend x")
    case True
    have out: "{buf x..<buf x + bytes x} \<inter> X = {}" "maxInline v ! peer x \<le> kMaxSegBytes" using assms(3) True v by (auto simp: sound_def)
    show ?thesis using postSend_at [OF assms(1) _ v(1) assms(6) out(1) _ out(2)] assms(2,5) True v tr
      by (simp add: msgsOn_snoc segsOn_snoc opSegs_def opMsgs_def comp_def)
  next
    case False
    have "apart (segsOn v0 (P @ [x])) X" using assms(3) by (intro segsOn_apart) (auto simp: sound_def)
    then show ?thesis using postRecv_at [OF assms(1) _ v(1) assms(6)] assms(2,5) False v tr
      by (simp add: msgsOn_snoc segsOn_snoc opSegs_def)
  qed
qed

lemma postWave_at:
  assumes "rdma S B att N"
  shows "postWave B ops pst v w = (vcclSuccess, pst', v', w') \<Longrightarrow> sound v0 (P @ ops) X \<Longrightarrow> keepsT v0 v \<Longrightarrow>
    nicAt N x0 (msgsOn v0 (nMem x0) P) (segsOn v0 P) X sr rr w \<Longrightarrow>
    keepsT v0 v' \<and> nicAt N x0 (msgsOn v0 (nMem x0) (P @ ops)) (segsOn v0 (P @ ops)) X sr rr w' \<and> (\<forall>k. pst' k = pst k + wrsOf ops k)"
proof (induction ops arbitrary: P pst v w)
  case Nil
  then show ?case by (simp add: wrsOf_def opsKey_def)
next
  case (Cons x xs)
  show ?case
  proof (cases "bytes x = 0")
    case True
    then have "postWave B xs pst v w = (vcclSuccess, pst', v', w')" "sound v0 ((P @ [x]) @ xs) X"
      "nicAt N x0 (msgsOn v0 (nMem x0) (P @ [x])) (segsOn v0 (P @ [x])) X sr rr w"
      using Cons.prems by (simp_all add: msgsOn_snoc segsOn_snoc)
    from Cons.IH [OF this(1,2) Cons.prems(3) this(3)] show ?thesis using True by (simp add: wrsOf_Cons)
  next
    case False
    obtain k v1 w1 where p: "(if isSend x then postSend else postRecv) B (peer x) (buf x) (bytes x) v w = (vcclSuccess, k, v1, w1)"
      "postWave B xs (pst(opKey x := pst (opKey x) + k)) v1 w1 = (vcclSuccess, pst', v', w')"
      using Cons.prems(1) False by (auto split: prod.splits if_splits)
    have s: "sound v0 ((P @ [x]) @ xs) X" using Cons.prems(2) by simp
    note one = postOne [OF assms p(1) sound_prefix [OF s] Cons.prems(3) False Cons.prems(4)]
    have "keepsT v0 v'" "nicAt N x0 (msgsOn v0 (nMem x0) (P @ x # xs)) (segsOn v0 (P @ x # xs)) X sr rr w'"
      "\<forall>j. pst' j = (pst(opKey x := pst (opKey x) + k)) j + wrsOf xs j"
      using Cons.IH [OF p(2) s] one by simp_all
    then show ?thesis using one False by (auto simp: wrsOf_Cons)
  qed
qed

subsection \<open>Waiting\<close>

definition still :: "('w \<Rightarrow> nic) \<Rightarrow> VerbsTransport \<times> 'w \<Rightarrow> VerbsTransport \<times> 'w \<Rightarrow> bool" where
  "still N a b \<longleftrightarrow> keepsT (fst a) (fst b) \<and> nicRuns (N (snd a)) (N (snd b))"

lemma still_refl [simp]: "still N a a"
  by (simp add: still_def keepsT_def)

lemma still_trans: "still N a b \<Longrightarrow> still N b c \<Longrightarrow> still N a c"
  by (auto simp: still_def keepsT_def)

lemma asyncStep_still:
  assumes "rdma S B att N"
  shows "case asyncStep B s of Inl s' \<Rightarrow> still N s s' | Inr r \<Rightarrow> still N s r"
proof -
  obtain v w where s: "s = (v, w)" by force
  obtain a w1 where a: "ibv_async_ready B (devCtx (dev v)) w = (a, w1)" by force
  obtain t w2 where t: "ibv_get_async_event B (devCtx (dev v)) w1 = (t, w2)" by force
  have "nicRuns (N w) (N w1)" "nicRuns (N w1) (N w2)" "nicRuns (N w2) (N (ibv_ack_async_event B w2))"
    using assms a t unfolding rdma_def by (metis snd_conv)+
  then show ?thesis using s a t by (auto simp: asyncStep_def still_def keepsT_def split: option.splits intro: rtranclp_trans)
qed

lemma drainAsync_still:
  assumes "rdma S B att N" "drainAsyncFatal B v w = Some (f, v', w')"
  shows "still N (v, w) (v', w')"
proof -
  have "iter (asyncStep B) (v, w) = Some (v', w')" using assms(2) by (auto simp: drainAsyncFatal_def)
  then show ?thesis
    by (rule iter_case [where I = "\<lambda>s. still N (v, w) s"])
      (simp, use asyncStep_still [OF assms(1)] in \<open>fastforce split: sum.splits intro: still_trans\<close>)
qed

lemma clock_still: "rdma S B att N \<Longrightarrow> sys_clock S w = (t, w') \<Longrightarrow> nicRuns (N w) (N w')"
  unfolding rdma_def by (metis snd_conv)

lemma expired_still: "rdma S B att N \<Longrightarrow> expired S dl w = (x, w') \<Longrightarrow> nicRuns (N w) (N w')"
  by (auto simp: expired_def dest: clock_still split: if_splits prod.splits)

lemma newDeadline_still: "rdma S B att N \<Longrightarrow> newDeadline S w = (dl, w') \<Longrightarrow> nicRuns (N w) (N w')"
  by (auto simp: newDeadline_def Let_def dest: clock_still split: if_splits prod.splits)

lemma checkWait_still:
  assumes "rdma S B att N" "checkWait S B ab t dl v w = Some x"
  shows "case x of Inl s \<Rightarrow> still N (v, w) s | Inr (e, s) \<Rightarrow> e \<noteq> vcclSuccess"
proof (cases "ab w")
  case False
  then obtain f v1 w1 where d: "drainAsyncFatal B v w = Some (f, v1, w1)"
    using assms(2) by (auto simp: checkWait_def bind_eq_Some_conv)
  have "still N (v, w) (v1, w1)" by (rule drainAsync_still [OF assms(1) d])
  moreover have "still N (v1, w1) (v1, w2)" if "expired S dl w1 = (y, w2)" for y w2
    using expired_still [OF assms(1) that] by (simp add: still_def keepsT_def)
  ultimately show ?thesis using assms(2) d False
    by (auto simp: checkWait_def split: if_splits prod.splits intro: still_trans)
qed (use assms(2) in \<open>auto simp: checkWait_def\<close>)

text \<open>Peers are polled in turn; \<open>dn\<close> counts what was reported for each since the start of the wave.\<close>

definition counted ::
  "('w \<Rightarrow> nic) \<Rightarrow> nic \<Rightarrow> (nat \<Rightarrow> byte list list) \<Rightarrow> (nat \<Rightarrow> (addr \<times> nat) list) \<Rightarrow> addr set \<Rightarrow> VerbsTransport \<Rightarrow> (nat \<Rightarrow> nat) \<Rightarrow> (nat \<Rightarrow> nat) \<Rightarrow> (qkey \<Rightarrow> nat) \<Rightarrow> 'w \<Rightarrow> bool" where
  "counted N x0 SM RS X v sr rr dn w \<longleftrightarrow> (\<exists>sr' rr'. nicAt N x0 SM RS X sr' rr' w \<and> (\<forall>q. sr q \<le> sr' q \<and> rr q \<le> rr' q) \<and>
     (\<forall>p<length (qps v). sr' (qps v ! p) = sr (qps v ! p) + dn (p, True) \<and> rr' (qps v ! p) = rr (qps v ! p) + dn (p, False)))"

definition wired :: "(nat \<Rightarrow> nat) \<Rightarrow> VerbsTransport \<Rightarrow> bool" where
  "wired att v \<longleftrightarrow> distinct (qps v) \<and> length (cqs v) = length (qps v) \<and> (\<forall>p<length (qps v). att (cqs v ! p) = qps v ! p)"

lemma counted_runs: "counted N x0 SM RS X v sr rr dn w \<Longrightarrow> nicRuns (N w) (N w') \<Longrightarrow> counted N x0 SM RS X v sr rr dn w'"
  unfolding counted_def using nicAt_runs by metis

lemma counted_poll:
  assumes "rdma S B att N" "wired att v" "p < length (qps v)" "pollOnce B v p w = (vcclSuccess, s, r, w')"
    and "counted N x0 SM RS X v sr rr dn w"
  shows "counted N x0 SM RS X v sr rr (dn((p, True) := dn (p, True) + s, (p, False) := dn (p, False) + r)) w'"
proof -
  obtain sr' rr' where c: "nicAt N x0 SM RS X sr' rr' w" "\<forall>q. sr q \<le> sr' q \<and> rr q \<le> rr' q"
    "\<forall>p<length (qps v). sr' (qps v ! p) = sr (qps v ! p) + dn (p, True) \<and> rr' (qps v ! p) = rr (qps v ! p) + dn (p, False)"
    using assms(5) by (auto simp: counted_def)
  have q: "att (cqs v ! p) = qps v ! p" "\<And>i. i < length (qps v) \<Longrightarrow> qps v ! i = qps v ! p \<longleftrightarrow> i = p"
    using assms(2,3) by (auto simp: wired_def nth_eq_iff_index_eq)
  show ?thesis unfolding counted_def
    by (intro exI conjI, rule nicAt_poll [OF assms(1,4) c(1)]) (use c(2,3) q in \<open>auto simp: trans_le_add1\<close>)
qed

lemma pollPeers_counted:
  assumes "rdma S B att N" "wired att v"
  shows "pollPeers B v pst ps dn pd w = (vcclSuccess, dn', pd', w') \<Longrightarrow> \<forall>p\<in>set ps. p < length (qps v) \<Longrightarrow> distinct ps \<Longrightarrow>
    counted N x0 SM RS X v sr rr dn w \<Longrightarrow>
    counted N x0 SM RS X v sr rr dn' w' \<and> (pd \<longrightarrow> pd') \<and> (\<not> pd' \<longrightarrow> (\<forall>p\<in>set ps. \<not> waiting pst dn' p)) \<and>
    (\<forall>p b. p \<notin> set ps \<longrightarrow> dn' (p, b) = dn (p, b))"
proof (induction ps arbitrary: dn pd w)
  case (Cons p ps)
  show ?case
  proof (cases "waiting pst dn p")
    case False
    from Cons.IH [of dn pd w] Cons.prems False show ?thesis by (auto simp: waiting_def)
  next
    case True
    define dn1 where "dn1 s r = dn((p, True) := dn (p, True) + s, (p, False) := dn (p, False) + r)" for s r
    obtain s r w1 where p: "pollOnce B v p w = (vcclSuccess, s, r, w1)"
      "pollPeers B v pst ps (dn1 s r) (pd \<or> waiting pst (dn1 s r) p) w1 = (vcclSuccess, dn', pd', w')"
      using Cons.prems(1) True by (auto simp: Let_def dn1_def split: prod.splits if_splits)
    have "counted N x0 SM RS X v sr rr (dn1 s r) w1"
      unfolding dn1_def using counted_poll [OF assms _ p(1) Cons.prems(4)] Cons.prems(2) by simp
    from Cons.IH [OF p(2) _ _ this] Cons.prems(2,3) show ?thesis by (auto simp: waiting_def) (auto simp: dn1_def)
  qed
qed simp

lemma waveStep_counted:
  assumes "rdma S B att N" "wired att v0" "\<forall>p\<in>set ps. p < length (qps v0)" "distinct ps"
    and "keepsT v0 v \<and> counted N x0 SM RS X v0 sr rr dn w" "waveStep S B ab dl pst ps (dn, v, w) = Some x"
  shows "case x of Inl (dn', v', w') \<Rightarrow> keepsT v0 v' \<and> counted N x0 SM RS X v0 sr rr dn' w'
    | Inr (e, v', w') \<Rightarrow> e = vcclSuccess \<longrightarrow> keepsT v0 v' \<and>
        (\<exists>dn'. counted N x0 SM RS X v0 sr rr dn' w' \<and> (\<forall>p\<in>set ps. \<not> waiting pst dn' p))"
proof -
  obtain e dn1 pd w1 where p: "pollPeers B v pst ps dn False w = (e, dn1, pd, w1)" by (metis prod_cases4)
  have v: "qps v = qps v0" "cqs v = cqs v0" using assms(5) by (auto simp: keepsT_def)
  then have cv: "counted N x0 SM RS X v sr rr = counted N x0 SM RS X v0 sr rr" "wired att v"
    using assms(2) by (auto simp: counted_def wired_def fun_eq_iff)
  show ?thesis
  proof (cases "e = vcclSuccess")
    case True
    have cnt: "counted N x0 SM RS X v sr rr dn w" using assms(5) cv(1) by simp
    have c: "counted N x0 SM RS X v0 sr rr dn1 w1" "\<not> pd \<Longrightarrow> \<forall>p\<in>set ps. \<not> waiting pst dn1 p"
      using pollPeers_counted [OF assms(1) cv(2) p [unfolded True] _ assms(4) cnt] assms(3) v cv(1) by simp_all
    obtain y where y: "checkWait S B ab pd dl v w1 = Some y" using assms(6) p True by (auto simp: waveStep_def bind_eq_Some_conv)
    have st: "still N (v, w1) (v2, w2)" if "y = Inl (v2, w2)" for v2 w2 using checkWait_still [OF assms(1) y] that by simp
    have nx: "keepsT v0 v2 \<and> counted N x0 SM RS X v0 sr rr dn1 w2" if "y = Inl (v2, w2)" for v2 w2
      using st [OF that] assms(5) counted_runs [OF c(1), of w2] by (simp add: still_def keepsT_def)
    show ?thesis using assms(6) p True y nx c(2) checkWait_still [OF assms(1) y]
      by (cases y) (auto simp: waveStep_def split: if_splits prod.splits)
  qed (use assms(6) p in \<open>auto simp: waveStep_def\<close>)
qed

subsection \<open>Waves\<close>

definition allDone :: "nic \<Rightarrow> (nat \<Rightarrow> byte list list) \<Rightarrow> (nat \<Rightarrow> (addr \<times> nat) list) \<Rightarrow> (nat \<Rightarrow> nat) \<Rightarrow> (nat \<Rightarrow> nat) \<Rightarrow> bool" where
  "allDone x0 SM RS sr rr \<longleftrightarrow>
     (\<forall>q. length (nSent x0 q) + length (SM q) \<le> sr q \<and> length (nGot x0 q) + length (RS q) \<le> rr q)"

definition waveInv :: "('w \<Rightarrow> nic) \<Rightarrow> nic \<Rightarrow> VerbsTransport \<Rightarrow> addr set \<Rightarrow> P2pOp list \<Rightarrow> VerbsTransport \<Rightarrow> 'w \<Rightarrow> bool" where
  "waveInv N x0 v0 X P v w \<longleftrightarrow> keepsT v0 v \<and>
     (\<exists>sr rr. nicAt N x0 (msgsOn v0 (nMem x0) P) (segsOn v0 P) X sr rr w \<and> allDone x0 (msgsOn v0 (nMem x0) P) (segsOn v0 P) sr rr)"

lemma msgsOn_append: "msgsOn v m (P @ ops) q = msgsOn v m P q @ msgsOn v m ops q"
  by (simp add: msgsOn_def sendsOn_def)

lemma segsOn_append: "segsOn v (P @ ops) q = segsOn v P q @ segsOn v ops q"
  by (simp add: segsOn_def recvsOn_def)

lemma peer_on: "distinct (qps v) \<Longrightarrow> p < length (qps v) \<Longrightarrow> peer x < length (qps v) \<Longrightarrow> qps v ! peer x = qps v ! p \<longleftrightarrow> peer x = p"
  by (simp add: nth_eq_iff_index_eq)

lemma on_peer:
  assumes "distinct (qps v)" "p < length (qps v)" "\<And>x. x \<in> set ops \<Longrightarrow> peer x < length (qps v)"
  shows "sendsOn v ops (qps v ! p) = sendsTo ops p" "recvsOn v ops (qps v ! p) = recvsFrom ops p"
  unfolding sendsOn_def sendsTo_def recvsOn_def recvsFrom_def
  by (rule filter_cong, simp, use peer_on [OF assms(1,2)] assms(3) in auto)+

lemma wrsOf_on:
  assumes "distinct (qps v)" "p < length (qps v)" "\<And>x. x \<in> set ops \<Longrightarrow> peer x < length (qps v)"
  shows "length (msgsOn v m ops (qps v ! p)) = wrsOf ops (p, True)" "length (segsOn v ops (qps v ! p)) = wrsOf ops (p, False)"
proof -
  have k: "opsKey ops (p, True) = sendsTo ops p" "opsKey ops (p, False) = recvsFrom ops p"
    by (auto simp: opsKey_def opKey_def sendsTo_def recvsFrom_def intro!: filter_cong)
  show "length (msgsOn v m ops (qps v ! p)) = wrsOf ops (p, True)" "length (segsOn v ops (qps v ! p)) = wrsOf ops (p, False)"
    using on_peer [OF assms] by (simp_all add: msgsOn_def segsOn_def wrsOf_def k length_concat comp_def opMsgs_def)
qed

lemma off_wave:
  assumes "\<not> (\<exists>p\<in>set (wavePeers ops). qps v ! p = q)"
  shows "msgsOn v m ops q = []" "segsOn v ops q = []"
  using assms by (auto simp: msgsOn_def segsOn_def sendsOn_def recvsOn_def wavePeers_def filter_empty_conv)

lemma wave_allDone:
  assumes "wired att v0" "\<And>x. x \<in> set ops \<Longrightarrow> peer x < length (qps v0)" "\<forall>k. pst k = wrsOf ops k"
    and "allDone x0 (msgsOn v0 (nMem x0) P) (segsOn v0 P) sr rr" "\<forall>p\<in>set (wavePeers ops). \<not> waiting pst dn p"
    and "\<forall>q. sr q \<le> sr' q \<and> rr q \<le> rr' q"
    and "\<forall>p<length (qps v0). sr' (qps v0 ! p) = sr (qps v0 ! p) + dn (p, True) \<and> rr' (qps v0 ! p) = rr (qps v0 ! p) + dn (p, False)"
  shows "allDone x0 (msgsOn v0 (nMem x0) (P @ ops)) (segsOn v0 (P @ ops)) sr' rr'"
  unfolding allDone_def
proof
  fix q
  let ?m = "msgsOn v0 (nMem x0)" and ?s = "segsOn v0"
  have P: "length (nSent x0 q) + length (?m P q) \<le> sr q" "length (nGot x0 q) + length (?s P q) \<le> rr q" using assms(4) by (simp_all add: allDone_def)
  have "length (?m ops q) \<le> sr' q - sr q \<and> length (?s ops q) \<le> rr' q - rr q"
  proof (cases "\<exists>p\<in>set (wavePeers ops). qps v0 ! p = q")
    case True
    then obtain p where p: "p \<in> set (wavePeers ops)" "qps v0 ! p = q" by auto
    then have lt: "p < length (qps v0)" using assms(2) by (auto simp: wavePeers_def)
    have "length (?m ops q) = wrsOf ops (p, True)" "length (?s ops q) = wrsOf ops (p, False)"
      using wrsOf_on [OF _ lt assms(2)] p(2) assms(1) by (auto simp: wired_def)
    moreover have "wrsOf ops (p, True) \<le> dn (p, True)" "wrsOf ops (p, False) \<le> dn (p, False)"
      using assms(3,5) p(1) by (auto simp: waiting_def not_less)
    ultimately show ?thesis using assms(7) lt p(2) by auto
  qed (simp add: off_wave)
  then show "length (nSent x0 q) + length (?m (P @ ops) q) \<le> sr' q \<and> length (nGot x0 q) + length (?s (P @ ops) q) \<le> rr' q"
    using P assms(6) [THEN spec, of q] unfolding msgsOn_append segsOn_append length_append by linarith
qed

lemma releaseMrs_still: "rdma S B att N \<Longrightarrow> nicRuns (N w) (N (fold (ibv_dereg_mr B) ms w))"
proof (induction ms arbitrary: w)
  case (Cons x ms)
  have "nicRuns (N w) (N (ibv_dereg_mr B x w))" using Cons.prems by (simp add: rdma_def)
  with Cons.IH [OF Cons.prems, of "ibv_dereg_mr B x w"] show ?case by simp
qed simp

lemma verbsWave_inv:
  assumes "rdma S B att N" "wired att v0" "verbsWave S B ab ops v w = Some (vcclSuccess, v', w')"
    and "waveInv N x0 v0 X P v w" "sound v0 (P @ ops) X" "\<And>x. x \<in> set ops \<Longrightarrow> peer x < length (qps v0)"
  shows "waveInv N x0 v0 X (P @ ops) v' w'"
proof -
  let ?m = "msgsOn v0 (nMem x0)" and ?s = "segsOn v0"
  obtain sr rr where at: "keepsT v0 v" "nicAt N x0 (?m P) (?s P) X sr rr w" "allDone x0 (?m P) (?s P) sr rr"
    using assms(4) by (auto simp: waveInv_def)
  obtain pst v1 w1 where pw: "postWave B ops (\<lambda>_. 0) v w = (vcclSuccess, pst, v1, w1)"
    using assms(3) by (auto simp: verbsWave_def split: prod.splits if_splits)
  obtain dl w2 where dl: "newDeadline S w1 = (dl, w2)" by force
  obtain v3 w3 where it: "iterO (waveStep S B ab dl pst (wavePeers ops)) (\<lambda>_. 0, v1, w2) = Some (vcclSuccess, v3, w3)"
      "drainCompleted B v3 w3 = (v', w')"
    using assms(3) pw dl by (auto simp: verbsWave_def drained_def split: if_splits)
  note post = postWave_at [OF assms(1) pw assms(5) at(1,2)]
  have "nicAt N x0 (?m (P @ ops)) (?s (P @ ops)) X sr rr w2"
    using nicAt_runs [where N = N and w = w1 and w' = w2] newDeadline_still [OF assms(1) dl] post by blast
  then have start: "counted N x0 (?m (P @ ops)) (?s (P @ ops)) X v0 sr rr (\<lambda>_. 0) w2" by (auto simp: counted_def)
  have peers: "\<forall>p\<in>set (wavePeers ops). p < length (qps v0)" "distinct (wavePeers ops)"
    using assms(6) by (auto simp: wavePeers_def)
  have "vcclSuccess = vcclSuccess \<longrightarrow> keepsT v0 v3 \<and>
      (\<exists>dn. counted N x0 (?m (P @ ops)) (?s (P @ ops)) X v0 sr rr dn w3 \<and> (\<forall>p\<in>set (wavePeers ops). \<not> waiting pst dn p))"
    using iterO_case [OF it(1), where I = "\<lambda>(dn, v, w). keepsT v0 v \<and> counted N x0 (?m (P @ ops)) (?s (P @ ops)) X v0 sr rr dn w" and
      Q = "\<lambda>(e, v, w). e = vcclSuccess \<longrightarrow> keepsT v0 v \<and>
        (\<exists>dn. counted N x0 (?m (P @ ops)) (?s (P @ ops)) X v0 sr rr dn w \<and> (\<forall>p\<in>set (wavePeers ops). \<not> waiting pst dn p))"]
      post start waveStep_counted [OF assms(1,2) peers] by (fastforce split: sum.splits)
  then obtain dn sr' rr' where c: "keepsT v0 v3" "\<forall>p\<in>set (wavePeers ops). \<not> waiting pst dn p"
      "nicAt N x0 (?m (P @ ops)) (?s (P @ ops)) X sr' rr' w3" "\<forall>q. sr q \<le> sr' q \<and> rr q \<le> rr' q"
      "\<forall>p<length (qps v0). sr' (qps v0 ! p) = sr (qps v0 ! p) + dn (p, True) \<and> rr' (qps v0 ! p) = rr (qps v0 ! p) + dn (p, False)"
    by (auto simp: counted_def)
  have "allDone x0 (?m (P @ ops)) (?s (P @ ops)) sr' rr'"
    by (rule wave_allDone [OF assms(2,6) _ at(3) c(2,4,5)]) (use post in auto)
  moreover have "pendingCopyback v3 = []" using c(1) assms(5) by (auto simp: keepsT_def sound_def plain_def)
  then have "keepsT v0 v' \<and> nicRuns (N w3) (N w')"
    using it(2) c(1) releaseMrs_still [OF assms(1), of w3 "tempMrs v3"] by (auto simp: drainCompleted_def releaseMrs_def keepsT_def)
  ultimately show ?thesis using nicAt_runs [OF c(3)] by (auto simp: waveInv_def)
qed

subsection \<open>Batches\<close>

lemma verbsWaves_inv:
  assumes "rdma S B att N" "wired att v0"
  shows "verbsWaves S B ab ops v w = Some (vcclSuccess, v', w') \<Longrightarrow> waveInv N x0 v0 X P v w \<Longrightarrow> sound v0 (P @ ops) X \<Longrightarrow>
    \<forall>x\<in>set ops. peer x < length (qps v0) \<Longrightarrow> waveInv N x0 v0 X (P @ ops) v' w'"
proof (induction "length ops" arbitrary: ops P v w rule: less_induct)
  case less
  show ?case
  proof (cases "ops = []")
    case True
    then show ?thesis using less.prems by (simp add: verbsWaves.simps)
  next
    case False
    let ?a = "take (waveEnd ops) ops" and ?b = "drop (waveEnd ops) ops"
    obtain v1 w1 where r: "verbsWave S B ab ?a v w = Some (vcclSuccess, v1, w1)" "verbsWaves S B ab ?b v1 w1 = Some (vcclSuccess, v', w')"
      using less.prems(1) False by (auto simp: verbsWaves.simps [of S B ab ops] bind_eq_Some_conv split: if_splits)
    have s: "sound v0 ((P @ ?a) @ ?b) X" using less.prems(3) by simp
    have "waveInv N x0 v0 X (P @ ?a) v1 w1"
      using verbsWave_inv [OF assms r(1) less.prems(2) sound_prefix [OF s]] less.prems(4) by (blast dest: in_set_takeD)
    moreover have "length ?b < length ops" using False by (simp add: waveEnd_def)
    ultimately show ?thesis using less.hyps [OF _ r(2) _ s] less.prems(4) by (auto dest: in_set_dropD)
  qed
qed

text \<open>An adapter with nothing left to do and nothing left to report.\<close>

definition settled :: "nic \<Rightarrow> bool" where
  "settled x \<longleftrightarrow> (\<forall>q. nSq x q = [] \<and> nRq x q = [] \<and> nSrep x q = length (nSent x q) \<and> nRrep x q = length (nGot x q))"

lemma waveInv_start: "settled (N w) \<Longrightarrow> waveInv N (N w) v X [] v w"
  by (auto simp: settled_def waveInv_def keepsT_def nicAt_def nicInv_def sendInv_def recvInv_def msgsOn_def segsOn_def
      sendsOn_def recvsOn_def allDone_def apart_def)

lemma waveInv_end:
  assumes "waveInv N x0 v0 X ops v w"
  shows "settled (N w)" "nSent (N w) q = nSent x0 q @ msgsOn v0 (nMem x0) ops q"
    "\<exists>ds. nGot (N w) q = nGot x0 q @ ds \<and> list_all2 (placed (nMem (N w))) ds (segsOn v0 ops q)"
    "a \<notin> X \<Longrightarrow> nMem (N w) a = nMem x0 a"
proof -
  obtain sr rr where at: "nicAt N x0 (msgsOn v0 (nMem x0) ops) (segsOn v0 ops) X sr rr w"
    "allDone x0 (msgsOn v0 (nMem x0) ops) (segsOn v0 ops) sr rr"
    using assms by (auto simp: waveInv_def)
  then have inv: "nicInv x0 (msgsOn v0 (nMem x0) ops) (segsOn v0 ops) X (N w)" by (simp add: nicAt_def)
  have rep: "length (nSent x0 q) + length (msgsOn v0 (nMem x0) ops q) \<le> nSrep (N w) q" "nSrep (N w) q \<le> length (nSent (N w) q)"
    "length (nGot x0 q) + length (segsOn v0 ops q) \<le> nRrep (N w) q" "nRrep (N w) q \<le> length (nGot (N w) q)" for q
    using at by (auto simp: nicAt_def allDone_def)
  have send: "nSq (N w) q = [] \<and> nSent (N w) q = nSent x0 q @ msgsOn v0 (nMem x0) ops q" for q
  proof -
    have "nSent (N w) q @ map (reqData (nMem x0)) (nSq (N w) q) = nSent x0 q @ msgsOn v0 (nMem x0) ops q"
      using nicInv_sendD [OF inv, of q] by (simp add: sendInv_def)
    moreover from arg_cong [OF this, of length] have "length (nSq (N w) q) = 0"
      using rep(1,2) [of q] unfolding length_append length_map by linarith
    ultimately show ?thesis by simp
  qed
  have recv: "nRq (N w) q = [] \<and> (\<exists>ds. nGot (N w) q = nGot x0 q @ ds \<and> list_all2 (placed (nMem (N w))) ds (segsOn v0 ops q))" for q
  proof -
    obtain ds where "nGot (N w) q = nGot x0 q @ ds" "length ds \<le> length (segsOn v0 ops q)" "nRq (N w) q = drop (length ds) (segsOn v0 ops q)"
      "list_all2 (placed (nMem (N w))) ds (take (length ds) (segsOn v0 ops q))" by (rule nicInv_recvE [OF inv])
    then show ?thesis using rep(3,4) [of q] by auto
  qed
  have "length (nGot (N w) q) = length (nGot x0 q) + length (segsOn v0 ops q)" for q
    using recv [of q] by (auto dest: list_all2_lengthD)
  then show "settled (N w)" using send recv rep by (simp add: settled_def le_antisym)
  show "nSent (N w) q = nSent x0 q @ msgsOn v0 (nMem x0) ops q"
    "\<exists>ds. nGot (N w) q = nGot x0 q @ ds \<and> list_all2 (placed (nMem (N w))) ds (segsOn v0 ops q)"
    "a \<notin> X \<Longrightarrow> nMem (N w) a = nMem x0 a"
    using send recv inv by (auto simp: nicInv_def)
qed

text \<open>What an rdma transport needs to run a batch.\<close>

definition rdmaReady :: "'w sys \<Rightarrow> 'w ibv \<Rightarrow> (nat \<Rightarrow> nat) \<Rightarrow> ('w \<Rightarrow> nic) \<Rightarrow> nat \<Rightarrow> VerbsTransport \<Rightarrow> bool" where
  "rdmaReady S B att N n v \<longleftrightarrow> rdma S B att N \<and> wired att v \<and> plain v \<and> length (qps v) = n \<and> (\<forall>p<n. maxInline v ! p \<le> kMaxSegBytes)"

lemma verbsBatch_exact:
  assumes "rdmaReady S B att N n v" "opsRaceFree ops" "\<And>x. x \<in> set ops \<Longrightarrow> peer x < n" "settled (N w)"
    and "verbsBatch S B ab ops v w = Some (vcclSuccess, v', w')"
  shows "settled (N w')" "p < n \<Longrightarrow> nSent (N w') (qps v ! p) = nSent (N w) (qps v ! p) @ concat (map (opMsgs (nMem (N w))) (sendsTo ops p))"
    "p < n \<Longrightarrow> \<exists>ds. nGot (N w') (qps v ! p) = nGot (N w) (qps v ! p) @ ds \<and>
       list_all2 (placed (nMem (N w'))) ds (concat (map opSegs (recvsFrom ops p)))"
    "a \<notin> recvBufs ops \<Longrightarrow> nMem (N w') a = nMem (N w) a"
proof -
  have r: "rdma S B att N" "wired att v" "length (qps v) = n" "distinct (qps v)" using assms(1) by (auto simp: rdmaReady_def wired_def)
  have "verbsWaves S B ab ops v w = Some (vcclSuccess, v', w')"
    using assms(5) by (auto simp: verbsBatch_def guarded_def split: if_splits prod.splits)
  moreover have "sound v ([] @ ops) (recvBufs ops)"
    using assms(1-3) race_send_out [OF assms(2)] by (auto simp: sound_def rdmaReady_def)
  ultimately have "waveInv N (N w) v (recvBufs ops) ([] @ ops) v' w'"
    using verbsWaves_inv [OF r(1,2) _ waveInv_start [where N = N and w = w, OF assms(4)]] assms(3) r(3) by blast
  note e = waveInv_end [OF this [simplified]]
  have on: "sendsOn v ops (qps v ! p) = sendsTo ops p" "recvsOn v ops (qps v ! p) = recvsFrom ops p" if "p < n" for p
    using on_peer [OF r(4)] that assms(3) r(3) by auto
  show "settled (N w')" by (rule e(1))
  show "nSent (N w') (qps v ! p) = nSent (N w) (qps v ! p) @ concat (map (opMsgs (nMem (N w))) (sendsTo ops p))" if "p < n"
    using e(2) [of "qps v ! p"] on [OF that] by (simp add: msgsOn_def)
  show "\<exists>ds. nGot (N w') (qps v ! p) = nGot (N w) (qps v ! p) @ ds \<and>
       list_all2 (placed (nMem (N w'))) ds (concat (map opSegs (recvsFrom ops p)))" if "p < n"
    using e(3) [of "qps v ! p"] on [OF that] by (simp add: segsOn_def)
  show "nMem (N w') a = nMem (N w) a" if "a \<notin> recvBufs ops" by (rule e(4) [OF that])
qed

subsection \<open>Connected ranks\<close>

lemma opMsgs_lengths: "map length (opMsgs m x) = map snd (opSegs x)"
  by (simp add: opMsgs_def comp_def)

lemma opSegs_lengths: "bytes x = bytes y \<Longrightarrow> map snd (opSegs x) = map snd (opSegs y)"
  by (simp add: opSegs_def comp_def)

lemma opSegs_concat_lengths:
  "map bytes xs = map bytes ys \<Longrightarrow> map snd (concat (map opSegs xs)) = map snd (concat (map opSegs ys))"
  by (induction xs ys rule: list_induct2') (auto dest: opSegs_lengths)

lemma placed_full:
  "list_all2 (placed m) ds ss \<Longrightarrow> map length ds = map snd ss \<Longrightarrow> ds = map (\<lambda>s. rd m (fst s) (snd s)) ss"
  by (induction ds ss rule: list_all2_induct) (auto simp: placed_def)

lemma msgs_inj:
  "concat (map (opMsgs m) xs) = concat (map (opMsgs m') ys) \<Longrightarrow> map bytes xs = map bytes ys \<Longrightarrow>
   map (opBytes m) xs = map (opBytes m') ys"
proof (induction xs ys rule: list_induct2')
  case (4 x xs y ys)
  have "length (opMsgs m x) = length (opMsgs m' y)" using 4(3) by (simp add: opMsgs_def opSegs_def)
  then have "opMsgs m x = opMsgs m' y \<and> concat (map (opMsgs m) xs) = concat (map (opMsgs m') ys)" using 4(2) by simp
  then show ?case using 4(1,3) opMsgs_concat [of m x] opMsgs_concat [of m' y] by (simp add: opBytes_def)
qed auto

lemma verbs_exchange:
  assumes "\<And>r. r < n \<Longrightarrow> rdmaReady (S r) (B r) (att r) (N r) n (v r)" "batchOk n c ops"
    and "\<And>r. r < n \<Longrightarrow> settled (N r (w r)) \<and> nMem (N r (w r)) = mem (c r)"
    and "\<And>r. r < n \<Longrightarrow> verbsBatch (S r) (B r) (ab r) (ops r) (v r) (w r) = Some (vcclSuccess, v' r, w' r)"
    and "\<And>i j. i < n \<Longrightarrow> j < n \<Longrightarrow> i \<noteq> j \<Longrightarrow> nGot (N j (w j)) (qps (v j) ! i) = nSent (N i (w i)) (qps (v i) ! j)"
    and "\<And>i j. i < n \<Longrightarrow> j < n \<Longrightarrow> i \<noteq> j \<Longrightarrow> \<exists>rest. nSent (N i (w' i)) (qps (v i) ! j) = nGot (N j (w' j)) (qps (v j) ! i) @ rest"
    and "j < n"
  shows "exchanged n c ops j (nMem (N j (w' j)))"
proof -
  have ok: "opsRaceFree (ops r)" "\<And>x. x \<in> set (ops r) \<Longrightarrow> peer x < n" if "r < n" for r
    using assms(2) that by (auto simp: batchOk_def)
  note ex = verbsBatch_exact [OF assms(1) ok(1) ok(2) _ assms(4)]
  have sent: "nSent (N r (w' r)) (qps (v r) ! p) = nSent (N r (w r)) (qps (v r) ! p) @ concat (map (opMsgs (mem (c r))) (sendsTo (ops r) p))"
    and got: "\<exists>ds. nGot (N r (w' r)) (qps (v r) ! p) = nGot (N r (w r)) (qps (v r) ! p) @ ds \<and>
      list_all2 (placed (nMem (N r (w' r)))) ds (concat (map opSegs (recvsFrom (ops r) p)))" if "r < n" "p < n" for r p
    using ex(2,3) that assms(3) by simp_all
  have outside: "\<forall>p. p \<notin> recvBufs (ops j) \<longrightarrow> nMem (N j (w' j)) p = mem (c j) p"
    using ex(4) assms(3,7) by simp
  have "map (opBytes (nMem (N j (w' j)))) (recvsFrom (ops j) i) = map (opData (c i)) (sendsTo (ops i) j)" if i: "i < n" for i
  proof (cases "i = j")
    case True
    then have "recvsFrom (ops j) i = []" "sendsTo (ops i) j = []"
      using assms(2,7) by (auto simp: batchOk_def recvsFrom_def sendsTo_def filter_empty_conv)
    then show ?thesis by simp
  next
    case False
    let ?s = "sendsTo (ops i) j" and ?r = "recvsFrom (ops j) i" and ?m = "nMem (N j (w' j))"
    have sizes: "map bytes ?s = map bytes ?r" using assms(2,7) i by (simp add: batchOk_def)
    obtain ds where ds: "nGot (N j (w' j)) (qps (v j) ! i) = nGot (N j (w j)) (qps (v j) ! i) @ ds"
        "list_all2 (placed ?m) ds (concat (map opSegs ?r))"
      using got [OF assms(7) i] by auto
    obtain rest where "nSent (N i (w' i)) (qps (v i) ! j) = nGot (N j (w' j)) (qps (v j) ! i) @ rest" using assms(6) [OF i assms(7) False] by auto
    then have eq: "concat (map (opMsgs (mem (c i))) ?s) = ds @ rest"
      using sent [OF i assms(7)] ds(1) assms(5) [OF i assms(7) False] by simp
    have len: "map length (concat (map (opMsgs (mem (c i))) ?s)) = map snd (concat (map opSegs ?r))"
      using opSegs_concat_lengths [OF sizes] by (simp add: map_concat comp_def opMsgs_lengths)
    have "length (ds @ rest) = length (concat (map opSegs ?r))" using arg_cong [OF len, of length] eq by (metis length_map)
    then have "rest = []" using list_all2_lengthD [OF ds(2)] by simp
    then have "ds = map (\<lambda>s. rd ?m (fst s) (snd s)) (concat (map opSegs ?r))" using placed_full [OF ds(2)] len eq by simp
    then have "concat (map (opMsgs (mem (c i))) ?s) = concat (map (opMsgs ?m) ?r)"
      using eq \<open>rest = []\<close> by (simp add: map_concat comp_def opMsgs_def [of ?m, abs_def])
    then have "map (opBytes (mem (c i))) ?s = map (opBytes ?m) ?r" by (rule msgs_inj [OF _ sizes])
    moreover have "opData (c i) = opBytes (mem (c i))" by (simp add: opBytes_def opData_def fun_eq_iff)
    ultimately show ?thesis by simp
  qed
  with outside show ?thesis by (simp add: exchanged_def opBytes_def [abs_def])
qed

end
