(* ===== verification/Vccl_Verbs_Safe.thy ===== *)
theory Vccl_Verbs_Safe
  imports Vccl_Verbs_Spec
begin

text \<open>
  The verbs transport gives back what it takes, and does not wait forever. \<open>mrLaws\<close> is what ibverbs documents of memory
  regions: a registration yields a new region, deregistration ends it. \<open>ibTimed\<close> is the passing of time: every look
  at a completion queue takes some, and only finitely many asynchronous events arrive. \<open>wave_depth\<close> is the bound on the
  work queues.
\<close>

subsection \<open>Memory regions\<close>

definition mrLaws :: "'w sys \<Rightarrow> 'w ibv \<Rightarrow> ('w \<Rightarrow> mr set) \<Rightarrow> bool" where
  "mrLaws S B live \<longleftrightarrow>
     (\<forall>p a n w x w'. ibv_reg B p a n w = (x, w') \<longrightarrow> (if x = 0 then live w' = live w else x \<notin> live w \<and> live w' = insert x (live w))) \<and>
     (\<forall>x w. live (ibv_dereg_mr B x w) = live w - {x}) \<and>
     (\<forall>q i e w. live (snd (ibv_post_send B q i e w)) = live w) \<and> (\<forall>q e w. live (snd (ibv_post_recv B q e w)) = live w) \<and>
     (\<forall>c k w. live (snd (ibv_poll_cq B c k w)) = live w) \<and> (\<forall>c w. live (snd (ibv_async_ready B c w)) = live w) \<and>
     (\<forall>c w. live (snd (ibv_get_async_event B c w)) = live w) \<and> (\<forall>w. live (ibv_ack_async_event B w) = live w) \<and>
     (\<forall>a d w. live (host_put B a d w) = live w) \<and> (\<forall>w. live (snd (sys_clock S w)) = live w)"

text \<open>The regions that are not temporary ones of the transport.\<close>

definition others :: "('w \<Rightarrow> mr set) \<Rightarrow> VerbsTransport \<times> 'w \<Rightarrow> mr set" where
  "others live s = live (snd s) - set (tempMrs (fst s))"

definition clean :: "VerbsTransport \<Rightarrow> bool" where
  "clean v \<longleftrightarrow> tempMrs v = [] \<and> pendingCopyback v = []"

lemma resolve_others:
  assumes "mrLaws S B live" "resolve B b n v w = (e, r, v', w')"
  shows "others live (v', w') = others live (v, w)"
proof (cases "find (\<lambda>r. rstart r \<le> b \<and> b + n \<le> rstart r + rlen r) (regions v)")
  case None
  obtain x w1 where x: "ibv_reg B (devPd (dev v)) b n w = (x, w1)" by force
  then have "if x = 0 then live w1 = live w else x \<notin> live w \<and> live w1 = insert x (live w)"
    using assms(1) unfolding mrLaws_def by metis
  then show ?thesis using None assms(2) x by (auto simp: resolve_def others_def split: if_splits)
qed (use assms(2) in \<open>auto simp: resolve_def\<close>)

lemma postSegs_live:
  "\<forall>s w. live (snd (post s w)) = live w \<Longrightarrow> postSegs post ss k w = (e, k', w') \<Longrightarrow> live w' = live w"
proof (induction ss arbitrary: k w)
  case (Cons s ss)
  obtain a w1 where "post s w = (a, w1)" by force
  moreover from this have "live w1 = live w" using Cons.prems(1) by (metis snd_conv)
  ultimately show ?case using Cons by (auto split: if_splits)
qed simp

lemma live_calls:
  assumes "mrLaws S B live"
  shows "\<forall>s w. live (snd (ibv_post_send B q i s w)) = live w" "\<forall>s w. live (snd (ibv_post_recv B q s w)) = live w"
    "live (hostCopy B d a n w) = live w" "pollOnce B v p w = (e, s, r, w') \<Longrightarrow> live w' = live w"
    "newDeadline S w = (dl, w') \<Longrightarrow> live w' = live w" "expired S dl w = (x, w') \<Longrightarrow> live w' = live w"
proof -
  show "\<forall>s w. live (snd (ibv_post_send B q i s w)) = live w" "\<forall>s w. live (snd (ibv_post_recv B q s w)) = live w"
    "live (hostCopy B d a n w) = live w" using assms by (simp_all add: mrLaws_def hostCopy_def)
  have c: "live w1 = live w" if "sys_clock S w = (t, w1)" for w w1 t using assms that unfolding mrLaws_def by (metis snd_conv)
  show "newDeadline S w = (dl, w') \<Longrightarrow> live w' = live w" "expired S dl w = (x, w') \<Longrightarrow> live w' = live w"
    by (auto simp: newDeadline_def expired_def Let_def dest: c split: prod.splits if_splits)
  have "live w1 = live w" if "ibv_poll_cq B (cqs v ! p) 16 w = (ws, w1)" for ws w1
    using assms that unfolding mrLaws_def by (metis snd_conv)
  then show "pollOnce B v p w = (e, s, r, w') \<Longrightarrow> live w' = live w"
    by (auto simp: pollOnce_def split: prod.splits option.splits)
qed

lemma postSend_others:
  assumes "mrLaws S B live" "postSend B p b n v w = (e, k, v', w')"
  shows "others live (v', w') = others live (v, w)"
proof (cases "n \<le> maxInline v ! p")
  case True
  obtain a w1 where a: "ibv_post_send B (qps v ! p) True \<lparr>sgeAddr = b, sgeLength = u32 n, sgeLkey = 0\<rparr> w = (a, w1)" by force
  then have "live w1 = live w" using live_calls(1) [OF assms(1)] by (metis snd_conv)
  then show ?thesis using assms(2) True a by (auto simp: postSend_def others_def split: if_splits)
next
  case False
  obtain e1 r v1 w1 where r: "resolve B b n v w = (e1, r, v1, w1)" by (metis prod_cases4)
  have o: "others live (v1, w1) = others live (v, w)" by (rule resolve_others [OF assms(1) r])
  show ?thesis
  proof (cases r)
    case (Some x)
    define w2 where "w2 = (if bounced x then hostCopy B (nicAddr x) b n w1 else w1)"
    have "postSegs (ibv_post_send B (qps v ! p) False) (map (sgeOf B x) (segments n)) 0 w2 = (e, k, w')" "v' = v1"
      using assms(2) False r Some by (auto simp: postSend_def w2_def Let_def split: prod.splits)
    then have "live w' = live w2" by (intro postSegs_live [OF live_calls(1) [OF assms(1)]])
    moreover have "live w2 = live w1" by (simp add: w2_def live_calls(3) [OF assms(1)])
    ultimately show ?thesis using o \<open>v' = v1\<close> by (simp add: others_def)
  qed (use assms(2) False r o in \<open>auto simp: postSend_def\<close>)
qed

lemma postRecv_others:
  assumes "mrLaws S B live" "postRecv B p b n v w = (e, k, v', w')"
  shows "others live (v', w') = others live (v, w)"
proof -
  obtain e1 r v1 w1 where r: "resolve B b n v w = (e1, r, v1, w1)" by (metis prod_cases4)
  have o: "others live (v1, w1) = others live (v, w)" by (rule resolve_others [OF assms(1) r])
  show ?thesis
  proof (cases r)
    case (Some x)
    have "postSegs (ibv_post_recv B (qps v ! p)) (map (sgeOf B x) (segments n)) 0 w1 = (e, k, w')" "tempMrs v' = tempMrs v1"
      using assms(2) r Some by (auto simp: postRecv_def Let_def split: prod.splits)
    moreover from this(1) have "live w' = live w1" by (intro postSegs_live [OF live_calls(2) [OF assms(1)]])
    ultimately show ?thesis using o by (simp add: others_def)
  qed (use assms(2) r o in \<open>auto simp: postRecv_def\<close>)
qed

lemma recvWrsFor_others: "mrLaws S B live \<Longrightarrow> recvWrsFor B p b n v w = (e, k, v', w') \<Longrightarrow> others live (v', w') = others live (v, w)"
  by (auto simp: recvWrsFor_def others_def [of _ "(_\<lparr>prePostedRecv := _\<rparr>, _)"] dest: postRecv_others split: list.splits)
    (auto simp: others_def)

text \<open>Waiting registers nothing and releases nothing.\<close>

definition idle :: "('w \<Rightarrow> mr set) \<Rightarrow> VerbsTransport \<times> 'w \<Rightarrow> VerbsTransport \<times> 'w \<Rightarrow> bool" where
  "idle live s s' \<longleftrightarrow> live (snd s') = live (snd s) \<and> tempMrs (fst s') = tempMrs (fst s)"

lemma idle_refl [simp]: "idle live s s"
  by (simp add: idle_def)

lemma idle_trans: "idle live a b \<Longrightarrow> idle live b c \<Longrightarrow> idle live a c"
  by (simp add: idle_def)

lemma idle_others: "idle live s s' \<Longrightarrow> others live s' = others live s"
  by (simp add: idle_def others_def)

lemma drainAsync_idle:
  assumes "mrLaws S B live" "drainAsyncFatal B v w = Some (f, v', w')"
  shows "idle live (v, w) (v', w')"
proof -
  have step: "case asyncStep B s of Inl s' \<Rightarrow> idle live s s' | Inr r \<Rightarrow> idle live s r" for s
  proof -
    obtain v w where s: "s = (v, w)" by force
    obtain a w1 where a: "ibv_async_ready B (devCtx (dev v)) w = (a, w1)" by force
    obtain t w2 where t: "ibv_get_async_event B (devCtx (dev v)) w1 = (t, w2)" by force
    have "live w1 = live w" "live w2 = live w1" "live (ibv_ack_async_event B w2) = live w2"
      using assms(1) a t unfolding mrLaws_def by (metis snd_conv)+
    then show ?thesis using s a t by (auto simp: asyncStep_def idle_def split: option.splits)
  qed
  have "iter (asyncStep B) (v, w) = Some (v', w')" using assms(2) by (auto simp: drainAsyncFatal_def)
  then show ?thesis
    by (rule iter_case [where I = "\<lambda>s. idle live (v, w) s"])
      (simp, use step in \<open>fastforce split: sum.splits intro: idle_trans\<close>)
qed

lemma checkWait_idle:
  assumes "mrLaws S B live" "checkWait S B ab t dl v w = Some x"
  shows "case x of Inl s \<Rightarrow> idle live (v, w) s | Inr (e, s) \<Rightarrow> idle live (v, w) s"
proof (cases "ab w")
  case False
  then obtain f v1 w1 where d: "drainAsyncFatal B v w = Some (f, v1, w1)"
    using assms(2) by (auto simp: checkWait_def bind_eq_Some_conv)
  have "idle live (v, w) (v1, w1)" by (rule drainAsync_idle [OF assms(1) d])
  moreover have "idle live (v1, w1) (v1, w2)" if "expired S dl w1 = (y, w2)" for y w2
    using live_calls(6) [OF assms(1) that] by (simp add: idle_def)
  ultimately show ?thesis using assms(2) d False
    by (auto simp: checkWait_def split: if_splits prod.splits intro: idle_trans)
qed (use assms(2) in \<open>auto simp: checkWait_def\<close>)

lemma poll_idle: "mrLaws S B live \<Longrightarrow> pollOnce B v p w = (e, s, r, w') \<Longrightarrow> idle live (v, w) (v, w')"
  using live_calls(4) by (simp add: idle_def)

lemma pollStep_idle:
  assumes "mrLaws S B live" "pollStep S B ab dl p k n (a, b, v, w) = Some x"
  shows "case x of Inl (a', b', s) \<Rightarrow> idle live (v, w) s | Inr (e, b', s) \<Rightarrow> idle live (v, w) s"
proof -
  obtain e s r w1 where p: "pollOnce B v p w = (e, s, r, w1)" by (metis prod_cases4)
  note poll_idle [OF assms(1) p]
  moreover have "case y of Inl s \<Rightarrow> idle live (v, w1) s | Inr (e, s) \<Rightarrow> idle live (v, w1) s" if "checkWait S B ab True dl v w1 = Some y" for y
    by (rule checkWait_idle [OF assms(1) that])
  ultimately show ?thesis using assms(2) p
    by (fastforce simp: pollStep_def bind_eq_Some_conv split: if_splits sum.splits intro: idle_trans)
qed

lemma splitStep_idle:
  assumes "mrLaws S B live" "splitStep S B dl sp k rp n (a, b, v, w) = Some x"
  shows "case x of Inl (a', b', s) \<Rightarrow> idle live (v, w) s | Inr (e, b', s) \<Rightarrow> idle live (v, w) s"
proof -
  obtain e s r w1 where p: "(if a < k then pollOnce B v sp w else (vcclSuccess, 0, 0, w)) = (e, s, r, w1)" by (metis prod_cases4)
  obtain e' s' r' w2 where p': "(if b < n then pollOnce B v rp w1 else (vcclSuccess, 0, 0, w1)) = (e', s', r', w2)" by (metis prod_cases4)
  have i: "idle live (v, w) (v, w1)" "idle live (v, w1) (v, w2)"
    using p p' poll_idle [OF assms(1)] by (auto split: if_splits)
  moreover have "case y of Inl s \<Rightarrow> idle live (v, w2) s | Inr (e, s) \<Rightarrow> idle live (v, w2) s"
    if "checkWait S B (\<lambda>_. False) True dl v w2 = Some y" for y
    by (rule checkWait_idle [OF assms(1) that])
  moreover have "idle live (v, w) (v, w2)" using i by (rule idle_trans)
  ultimately show ?thesis using assms(2) p p'
    by (fastforce simp: splitStep_def bind_eq_Some_conv split: if_splits sum.splits intro: idle_trans)
qed

lemma surplus_temp [simp]:
  "takeRecvSurplus p k v = (n, v') \<Longrightarrow> tempMrs v' = tempMrs v" "tempMrs (creditSurplus p d n v) = tempMrs v"
  by (auto simp: takeRecvSurplus_def creditSurplus_def Let_def)

lemma pollPeer_idle:
  assumes "mrLaws S B live" "pollPeer S B ab p k n v w = Some (e, v', w')"
  shows "idle live (v, w) (v', w')"
proof -
  obtain dl w1 where d: "newDeadline S w = (dl, w1)" by force
  obtain m v1 where t: "takeRecvSurplus p n v = (m, v1)" by force
  obtain rd v2 where it: "iterO (pollStep S B ab dl p k m) (0, 0, v1, w1) = Some (e, rd, v2, w')" "tempMrs v' = tempMrs v2"
    using assms(2) d t by (auto simp: pollPeer_def bind_eq_Some_conv)
  have "case (e, rd, v2, w') of (e, b, s) \<Rightarrow> idle live (v1, w1) s"
    by (rule iterO_case [OF it(1), where I = "\<lambda>(a, b, s). idle live (v1, w1) s"])
      (simp, use pollStep_idle [OF assms(1)] in \<open>fastforce split: sum.splits intro: idle_trans\<close>)
  then show ?thesis using it(2) t live_calls(5) [OF assms(1) d] by (simp add: idle_def)
qed

lemma splitPoll_idle:
  assumes "mrLaws S B live" "splitPoll S B sp k rp n v w = Some (e, v', w')"
  shows "idle live (v, w) (v', w')"
proof -
  obtain dl w1 where d: "newDeadline S w = (dl, w1)" by force
  obtain m v1 where t: "takeRecvSurplus rp n v = (m, v1)" by force
  obtain rd v2 where it: "iterO (splitStep S B dl sp k rp m) (0, 0, v1, w1) = Some (e, rd, v2, w')" "tempMrs v' = tempMrs v2"
    using assms(2) d t by (auto simp: splitPoll_def bind_eq_Some_conv)
  have "case (e, rd, v2, w') of (e, b, s) \<Rightarrow> idle live (v1, w1) s"
    by (rule iterO_case [OF it(1), where I = "\<lambda>(a, b, s). idle live (v1, w1) s"])
      (simp, use splitStep_idle [OF assms(1)] in \<open>fastforce split: sum.splits intro: idle_trans\<close>)
  then show ?thesis using it(2) t live_calls(5) [OF assms(1) d] by (simp add: idle_def)
qed

lemma pollPeers_idle:
  "mrLaws S B live \<Longrightarrow> pollPeers B v pst ps dn pd w = (e, dn', pd', w') \<Longrightarrow> idle live (v, w) (v, w')"
proof (induction ps arbitrary: dn pd w)
  case (Cons p ps)
  obtain e1 s r w1 where p: "pollOnce B v p w = (e1, s, r, w1)" by (metis prod_cases4)
  have "idle live (v, w) (v, w1)" by (rule poll_idle [OF Cons.prems(1) p])
  then show ?case using Cons p by (auto simp: Let_def split: if_splits intro: idle_trans)
qed simp

lemma waveStep_idle:
  assumes "mrLaws S B live" "waveStep S B ab dl pst ps (dn, v, w) = Some x"
  shows "case x of Inl (dn', s) \<Rightarrow> idle live (v, w) s | Inr (e, s) \<Rightarrow> idle live (v, w) s"
proof -
  obtain e dn1 pd w1 where p: "pollPeers B v pst ps dn False w = (e, dn1, pd, w1)" by (metis prod_cases4)
  note pollPeers_idle [OF assms(1) p]
  moreover have "case y of Inl s \<Rightarrow> idle live (v, w1) s | Inr (e, s) \<Rightarrow> idle live (v, w1) s" if "checkWait S B ab pd dl v w1 = Some y" for y
    by (rule checkWait_idle [OF assms(1) that])
  ultimately show ?thesis using assms(2) p
    by (fastforce simp: waveStep_def bind_eq_Some_conv split: if_splits sum.splits intro: idle_trans)
qed

subsection \<open>Every operation gives back its regions\<close>

lemma dereg_live: "mrLaws S B live \<Longrightarrow> live (fold (ibv_dereg_mr B) ms w) = live w - set ms"
proof (induction ms arbitrary: w)
  case (Cons x ms)
  have "live (ibv_dereg_mr B x w) = live w - {x}" using Cons.prems by (simp add: mrLaws_def)
  then show ?case using Cons by auto
qed simp

lemma copies_live: "mrLaws S B live \<Longrightarrow> live (fold (\<lambda>cb. hostCopy B (cbDst cb) (cbSrc cb) (cbBytes cb)) cbs w) = live w"
  by (induction cbs arbitrary: w) (simp_all add: live_calls(3))

lemma releaseMrs_others:
  "mrLaws S B live \<Longrightarrow> releaseMrs B v w = (v', w') \<Longrightarrow> others live (v', w') = others live (v, w) \<and> clean v'"
  by (auto simp: releaseMrs_def others_def clean_def dereg_live)

lemma drainCompleted_others:
  "mrLaws S B live \<Longrightarrow> drainCompleted B v w = (v', w') \<Longrightarrow> others live (v', w') = others live (v, w) \<and> clean v'"
  using releaseMrs_others by (fastforce simp: drainCompleted_def others_def copies_live)

lemma discardPending_others:
  "mrLaws S B live \<Longrightarrow> discardPending B v w = (v', w') \<Longrightarrow> others live (v', w') = others live (v, w) \<and> clean v'"
  using releaseMrs_others by (fastforce simp: discardPending_def others_def clean_def split: prod.splits)

text \<open>\<open>settles\<close>: the outcome of a body whose temporary regions are gone when it succeeds; \<open>guarded\<close> removes them
  otherwise.\<close>

definition settles :: "('w \<Rightarrow> mr set) \<Rightarrow> VerbsTransport \<times> 'w \<Rightarrow> (vcclResult_t \<times> VerbsTransport \<times> 'w) option \<Rightarrow> bool" where
  "settles live s r \<longleftrightarrow> (\<forall>e v' w'. r = Some (e, v', w') \<longrightarrow> others live (v', w') = others live s \<and> (e = vcclSuccess \<longrightarrow> clean v'))"

lemma settles_drained:
  assumes "mrLaws S B live" "\<And>e v' w'. r = Some (e, v', w') \<Longrightarrow> others live (v', w') = others live s"
  shows "settles live s (map_option (drained B) r)"
proof (cases r)
  case (Some x)
  obtain e v w where x: "x = (e, v, w)" by (cases x)
  obtain v1 w1 where d: "drainCompleted B v w = (v1, w1)" by force
  show ?thesis using Some x d drainCompleted_others [OF assms(1) d] assms(2) by (auto simp: settles_def drained_def)
qed (simp add: settles_def)

lemma guarded_clean:
  assumes "mrLaws S B live" "settles live s r" "guarded B r = Some (e, v', w')"
  shows "others live (v', w') = others live s \<and> clean v'"
proof -
  obtain v w where r: "r = Some (e, v, w)" "(v', w') = (if e = vcclSuccess then (v, w) else discardPending B v w)"
    using assms(3) by (auto simp: guarded_def split: if_splits)
  have "others live (v, w) = others live s" "e = vcclSuccess \<Longrightarrow> clean v" using assms(2) r(1) by (auto simp: settles_def)
  then show ?thesis using r(2) discardPending_others [OF assms(1), of v w v' w'] by (auto split: if_splits)
qed

lemma verbsSend_clean:
  assumes "mrLaws S B live" "verbsSend S B ab p b n v w = Some (e, v', w')" "0 < n"
  shows "others live (v', w') = others live (v, w) \<and> clean v'"
proof -
  obtain e1 k v1 w1 where p: "postSend B p b n v w = (e1, k, v1, w1)" by (metis prod_cases4)
  have o: "others live (v1, w1) = others live (v, w)" by (rule postSend_others [OF assms(1) p])
  have "settles live (v, w) (map_option (drained B) (pollPeer S B ab p k 0 v1 w1))"
    using pollPeer_idle [OF assms(1)] o by (intro settles_drained [OF assms(1)]) (metis idle_others)
  then show ?thesis using assms p o
    by (intro guarded_clean [OF assms(1), of "(v, w)"]) (auto simp: verbsSend_def settles_def)
qed

lemma verbsRecv_clean:
  assumes "mrLaws S B live" "verbsRecv S B ab p b n v w = Some (e, v', w')" "0 < n"
  shows "others live (v', w') = others live (v, w) \<and> clean v'"
proof -
  obtain e1 k v1 w1 where p: "recvWrsFor B p b n v w = (e1, k, v1, w1)" by (metis prod_cases4)
  have o: "others live (v1, w1) = others live (v, w)" by (rule recvWrsFor_others [OF assms(1) p])
  have "settles live (v, w) (map_option (drained B) (pollPeer S B ab p 0 k v1 w1))"
    using pollPeer_idle [OF assms(1)] o by (intro settles_drained [OF assms(1)]) (metis idle_others)
  then show ?thesis using assms p o
    by (intro guarded_clean [OF assms(1), of "(v, w)"]) (auto simp: verbsRecv_def settles_def)
qed

lemma verbsSendRecv_clean:
  assumes "mrLaws S B live" "verbsSendRecv S B ab sp sb sn rp rb rn v w = Some (e, v', w')"
  shows "others live (v', w') = others live (v, w) \<and> clean v'"
proof -
  obtain e1 k v1 w1 where p: "(if rn > 0 then recvWrsFor B rp rb rn v w else (vcclSuccess, 0, v, w)) = (e1, k, v1, w1)" by (metis prod_cases4)
  obtain e2 k' v2 w2 where p': "(if sn > 0 then postSend B sp sb sn v1 w1 else (vcclSuccess, 0, v1, w1)) = (e2, k', v2, w2)" by (metis prod_cases4)
  have o1: "others live (v1, w1) = others live (v, w)" using p recvWrsFor_others [OF assms(1)] by (auto split: if_splits)
  have "others live (v2, w2) = others live (v1, w1)" using p' postSend_others [OF assms(1)] by (auto split: if_splits)
  then have o2: "others live (v2, w2) = others live (v, w)" using o1 by simp
  have "settles live (v, w) (map_option (drained B)
      (if sp = rp then pollPeer S B ab sp k' k v2 w2 else splitPoll S B sp k' rp k v2 w2))"
    using pollPeer_idle [OF assms(1)] splitPoll_idle [OF assms(1)] o2
    by (intro settles_drained [OF assms(1)]) (metis idle_others)
  then show ?thesis using assms p p' o1 o2
    by (intro guarded_clean [OF assms(1), of "(v, w)"]) (auto simp: verbsSendRecv_def settles_def)
qed

lemma postReqs_others:
  "mrLaws S B live \<Longrightarrow> postReqs B rs v w = (e, v', w') \<Longrightarrow> others live (v', w') = others live (v, w)"
proof (induction rs arbitrary: v w)
  case (Cons r rs)
  obtain e1 k v1 w1 where p: "postRecv B (rqPeer r) (rqBuf r) (rqBytes r) v w = (e1, k, v1, w1)" by (metis prod_cases4)
  have "others live (v1, w1) = others live (v, w)" by (rule postRecv_others [OF Cons.prems(1) p])
  moreover have "others live (v1\<lparr>prePostedRecv := x\<rparr>, w1) = others live (v1, w1)" for x by (simp add: others_def)
  ultimately show ?case using Cons p by (auto split: if_splits)
qed simp

lemma verbsPostRecvs_others:
  assumes "mrLaws S B live" "verbsPostRecvs B reqs v w = Some (e, v', w')"
  shows "others live (v', w') = others live (v, w) \<and> (e \<noteq> vcclSuccess \<longrightarrow> clean v')"
proof -
  obtain e1 v1 w1 where p: "postReqs B reqs v w = (e1, v1, w1)" by (metis prod_cases3)
  have "others live (v1, w1) = others live (v, w)" by (rule postReqs_others [OF assms(1) p])
  then show ?thesis using assms(2) p discardPending_others [OF assms(1), of v1 w1 v' w']
    by (auto simp: verbsPostRecvs_def guarded_def split: if_splits)
qed

text \<open>A posted receive leaves its temporary region alive.\<close>

lemma postRecv_temps:
  assumes "mrLaws S B live" "postRecv B p b n v w = (e, k, v', w')" "set (tempMrs v) \<subseteq> live w"
  shows "set (tempMrs v') \<subseteq> live w'"
proof -
  obtain e1 r v1 w1 where r: "resolve B b n v w = (e1, r, v1, w1)" by (metis prod_cases4)
  have t: "set (tempMrs v1) \<subseteq> live w1"
  proof (cases "find (\<lambda>r. rstart r \<le> b \<and> b + n \<le> rstart r + rlen r) (regions v)")
    case None
    obtain x w2 where x: "ibv_reg B (devPd (dev v)) b n w = (x, w2)" by force
    then have "if x = 0 then live w2 = live w else x \<notin> live w \<and> live w2 = insert x (live w)"
      using assms(1) unfolding mrLaws_def by metis
    then show ?thesis using None r x assms(3) by (auto simp: resolve_def split: if_splits)
  qed (use r assms(3) in \<open>auto simp: resolve_def\<close>)
  show ?thesis
  proof (cases r)
    case (Some x)
    have "postSegs (ibv_post_recv B (qps v ! p)) (map (sgeOf B x) (segments n)) 0 w1 = (e, k, w')" "tempMrs v' = tempMrs v1"
      using assms(2) r Some by (auto simp: postRecv_def Let_def split: prod.splits)
    moreover from this(1) have "live w' = live w1" by (intro postSegs_live [OF live_calls(2) [OF assms(1)]])
    ultimately show ?thesis using t by simp
  qed (use assms(2) r t in \<open>auto simp: postRecv_def\<close>)
qed

lemma postReqs_temps:
  "mrLaws S B live \<Longrightarrow> postReqs B rs v w = (e, v', w') \<Longrightarrow> set (tempMrs v) \<subseteq> live w \<Longrightarrow> set (tempMrs v') \<subseteq> live w'"
proof (induction rs arbitrary: v w)
  case (Cons r rs)
  obtain e1 k v1 w1 where p: "postRecv B (rqPeer r) (rqBuf r) (rqBytes r) v w = (e1, k, v1, w1)" by (metis prod_cases4)
  show ?case using Cons.prems Cons.IH [OF Cons.prems(1)] p postRecv_temps [OF Cons.prems(1) p Cons.prems(3)] by (auto split: if_splits)
qed simp

lemma verbsPostRecvs_live:
  assumes "mrLaws S B live" "verbsPostRecvs B reqs v w = Some (e, v', w')" "clean v"
  shows "if e = vcclSuccess then live w' = live w \<union> set (tempMrs v') \<and> live w \<inter> set (tempMrs v') = {} else clean v' \<and> live w' = live w"
proof -
  note o = verbsPostRecvs_others [OF assms(1,2)]
  obtain e1 v1 w1 where p: "postReqs B reqs v w = (e1, v1, w1)" by (metis prod_cases3)
  have "set (tempMrs v1) \<subseteq> live w1" using postReqs_temps [OF assms(1) p] assms(3) by (simp add: clean_def)
  moreover have "v' = v1 \<and> w' = w1" if "e = vcclSuccess"
    using assms(2) that p by (auto simp: verbsPostRecvs_def guarded_def split: if_splits)
  ultimately have "set (tempMrs v') \<subseteq> live w'" if "e = vcclSuccess" using that by simp
  moreover have "live w' - set (tempMrs v') = live w" using o assms(3) by (simp add: others_def clean_def)
  moreover have "tempMrs v' = []" if "e \<noteq> vcclSuccess" using o that by (simp add: clean_def)
  ultimately show ?thesis using o by (cases "e = vcclSuccess") auto
qed

lemma postWave_others:
  "mrLaws S B live \<Longrightarrow> postWave B ops pst v w = (e, pst', v', w') \<Longrightarrow> others live (v', w') = others live (v, w)"
proof (induction ops arbitrary: pst v w)
  case (Cons x xs)
  obtain e1 k v1 w1 where p: "(if isSend x then postSend else postRecv) B (peer x) (buf x) (bytes x) v w = (e1, k, v1, w1)" by (metis prod_cases4)
  have "others live (v1, w1) = others live (v, w)"
    using p postSend_others [OF Cons.prems(1)] postRecv_others [OF Cons.prems(1)] by (auto split: if_splits)
  then show ?case using Cons p by (auto split: if_splits)
qed simp

lemma verbsWave_settles:
  assumes "mrLaws S B live"
  shows "settles live (v, w) (verbsWave S B ab ops v w)"
proof -
  obtain e pst v1 w1 where p: "postWave B ops (\<lambda>_. 0) v w = (e, pst, v1, w1)" by (metis prod_cases4)
  obtain dl w2 where d: "newDeadline S w1 = (dl, w2)" by force
  have o: "others live (v1, w1) = others live (v, w)" by (rule postWave_others [OF assms p])
  have "others live (v', w') = others live (v, w)"
    if it: "iterO (waveStep S B ab dl pst (wavePeers ops)) (\<lambda>_. 0, v1, w2) = Some (e', v', w')" for e' v' w'
  proof -
    have "case (e', v', w') of (e, s) \<Rightarrow> idle live (v1, w2) s"
      by (rule iterO_case [OF it, where I = "\<lambda>(dn, s). idle live (v1, w2) s"])
        (simp, use waveStep_idle [OF assms] in \<open>fastforce split: sum.splits intro: idle_trans\<close>)
    then show ?thesis using o live_calls(5) [OF assms d] by (simp add: idle_def others_def)
  qed
  then have "settles live (v, w) (map_option (drained B) (iterO (waveStep S B ab dl pst (wavePeers ops)) (\<lambda>_. 0, v1, w2)))"
    by (intro settles_drained [OF assms])
  then show ?thesis using p d o by (auto simp: verbsWave_def settles_def)
qed

lemma verbsWaves_settles:
  assumes "mrLaws S B live"
  shows "verbsWaves S B ab ops v w = Some (e, v', w') \<Longrightarrow>
    others live (v', w') = others live (v, w) \<and> (e = vcclSuccess \<longrightarrow> ops \<noteq> [] \<or> clean v \<longrightarrow> clean v')"
proof (induction "length ops" arbitrary: ops v w rule: less_induct)
  case less
  show ?case
  proof (cases "ops = []")
    case False
    obtain e1 v1 w1 where r: "verbsWave S B ab (take (waveEnd ops) ops) v w = Some (e1, v1, w1)"
      "if e1 \<noteq> vcclSuccess then (e, v', w') = (e1, v1, w1) else verbsWaves S B ab (drop (waveEnd ops) ops) v1 w1 = Some (e, v', w')"
      using less.prems False by (auto simp: verbsWaves.simps [of S B ab ops] bind_eq_Some_conv split: if_splits)
    have s: "others live (v1, w1) = others live (v, w)" "e1 = vcclSuccess \<Longrightarrow> clean v1"
      using verbsWave_settles [OF assms, of v w ab "take (waveEnd ops) ops"] r(1) by (auto simp: settles_def)
    have "length (drop (waveEnd ops) ops) < length ops" using False by (simp add: waveEnd_def)
    then show ?thesis using less.hyps [of "drop (waveEnd ops) ops" v1 w1] r(2) s by (auto split: if_splits)
  qed (use less.prems in \<open>auto simp: verbsWaves.simps\<close>)
qed

lemma verbsBatch_clean:
  assumes "mrLaws S B live" "verbsBatch S B ab ops v w = Some (e, v', w')" "ops \<noteq> []"
  shows "others live (v', w') = others live (v, w) \<and> clean v'"
proof (rule guarded_clean [OF assms(1)])
  show "settles live (v, w) (verbsWaves S B ab ops v w)"
    using verbsWaves_settles [OF assms(1)] assms(3) by (auto simp: settles_def)
  show "guarded B (verbsWaves S B ab ops v w) = Some (e, v', w')" using assms(2) by (simp add: verbsBatch_def)
qed

subsection \<open>The work queues\<close>

lemma needed_segs: "needed x = length (opSegs x)"
  by (simp add: needed_def opSegs_def segments_def)

lemma waveFit_depth:
  "\<forall>k. c k \<le> kQueueDepth \<Longrightarrow> c k + wrsOf (take (waveFit c ops) ops) k \<le> kQueueDepth"
proof (induction ops arbitrary: c)
  case (Cons x xs)
  consider "bytes x = 0" | "bytes x \<noteq> 0" "c (opKey x) + needed x > kQueueDepth" | "bytes x \<noteq> 0" "c (opKey x) + needed x \<le> kQueueDepth" by linarith
  then show ?case
  proof cases
    case 3
    define c' where "c' = c(opKey x := c (opKey x) + needed x)"
    have "\<forall>k. c' k \<le> kQueueDepth" using Cons.prems 3 by (simp add: c'_def)
    from Cons.IH [OF this] have "c' k + wrsOf (take (waveFit c' xs) xs) k \<le> kQueueDepth" .
    moreover have "waveFit c (x # xs) = Suc (waveFit c' xs)" using 3 by (simp add: c'_def)
    moreover have "c' k = c k + (if opKey x = k then length (opSegs x) else 0)" by (simp add: c'_def needed_segs)
    ultimately show ?thesis using 3 by (simp add: wrsOf_Cons)
  next
    case 1
    then show ?thesis using Cons.IH [OF Cons.prems] by (simp add: wrsOf_Cons)
  next
    case 2
    then show ?thesis using Cons.prems [THEN spec, of k] by (simp add: wrsOf_def opsKey_def)
  qed
qed (simp add: wrsOf_def opsKey_def del: split_paired_All)

text \<open>A wave fits into the queues of every peer, if each single operation does.\<close>

lemma wave_depth:
  assumes "\<And>x. x \<in> set ops \<Longrightarrow> bytes x \<le> kQueueDepth * kMaxSegBytes"
  shows "wrsOf (take (waveEnd ops) ops) k \<le> kQueueDepth"
proof (cases "waveFit (\<lambda>_. 0) ops = 0")
  case True
  have one: "needed x \<le> kQueueDepth" if "x \<in> set ops" for x
  proof -
    have "bytes x + kMaxSegBytes - 1 < Suc kQueueDepth * kMaxSegBytes" using assms [OF that] kMax_pos by simp
    then show ?thesis unfolding needed_def using div_less_iff_less_mult [OF kMax_pos] by (metis less_Suc_eq_le)
  qed
  show ?thesis using True one by (cases ops) (auto simp: waveEnd_def wrsOf_Cons needed_segs, simp_all add: wrsOf_def opsKey_def)
next
  case False
  then show ?thesis using waveFit_depth [of "\<lambda>_. 0" k ops] by (simp add: waveEnd_def)
qed

lemma postSegs_count: "postSegs post ss k w = (e, k', w') \<Longrightarrow> k' \<le> k + length ss"
  by (induction ss arbitrary: k w) (fastforce split: prod.splits if_splits)+

lemma post_count:
  assumes "(if isSend x then postSend else postRecv) B (peer x) (buf x) (bytes x) v w = (e, k, v', w')" "bytes x \<noteq> 0"
  shows "k \<le> length (opSegs x)"
proof -
  have "opSegs x \<noteq> []" using opMsgs_concat [of "\<lambda>_. 0" x] assms(2) by (auto simp: opMsgs_def dest: arg_cong [of _ _ length])
  then have "1 \<le> length (opSegs x)" by (simp add: Suc_le_eq)
  moreover have "length (map (sgeOf B r) (segments (bytes x))) = length (opSegs x)" for r by (simp add: opSegs_def)
  ultimately show ?thesis using assms(1) postSegs_count
    by (fastforce simp: postSend_def postRecv_def Let_def split: if_splits prod.splits option.splits)
qed

lemma postWave_count: "postWave B ops pst v w = (e, pst', v', w') \<Longrightarrow> pst' k \<le> pst k + wrsOf ops k"
proof (induction ops arbitrary: pst v w)
  case (Cons x xs)
  show ?case
  proof (cases "bytes x = 0")
    case False
    obtain e1 n v1 w1 where p: "(if isSend x then postSend else postRecv) B (peer x) (buf x) (bytes x) v w = (e1, n, v1, w1)" by (metis prod_cases4)
    show ?thesis
    proof (cases "e1 = vcclSuccess")
      case True
      then have "postWave B xs (pst(opKey x := pst (opKey x) + n)) v1 w1 = (e, pst', v', w')" using Cons.prems p False by simp
      from Cons.IH [OF this] post_count [OF p False] show ?thesis using False by (auto simp: wrsOf_Cons split: if_splits)
    qed (use Cons.prems p False in simp)
  qed (use Cons in \<open>auto simp: wrsOf_Cons\<close>)
qed simp

subsection \<open>Every wait ends\<close>

definition ibTimed :: "'w sys \<Rightarrow> 'w ibv \<Rightarrow> ('w \<Rightarrow> int) \<Rightarrow> ('w \<Rightarrow> nat) \<Rightarrow> bool" where
  "ibTimed S B time events \<longleftrightarrow>
     (\<forall>w t w'. sys_clock S w = (t, w') \<longrightarrow> time w \<le> t \<and> time w' = t \<and> events w' \<le> events w) \<and>
     (\<forall>c k w r w'. ibv_poll_cq B c k w = (r, w') \<longrightarrow> time w < time w' \<and> events w' \<le> events w) \<and>
     (\<forall>c w r w'. ibv_async_ready B c w = (r, w') \<longrightarrow> time w \<le> time w' \<and> events w' \<le> events w) \<and>
     (\<forall>c w r w'. ibv_get_async_event B c w = (r, w') \<longrightarrow> time w \<le> time w' \<and> events w' \<le> events w \<and> (r \<noteq> None \<longrightarrow> events w' < events w)) \<and>
     (\<forall>w. time w \<le> time (ibv_ack_async_event B w) \<and> events (ibv_ack_async_event B w) \<le> events w)"

lemma drainAsync_returns:
  assumes "ibTimed S B time events"
  obtains f v' w' where "drainAsyncFatal B v w = Some (f, v', w')" "time w \<le> time w'"
proof -
  have step: "case asyncStep B s of Inl s' \<Rightarrow> time (snd s) \<le> time (snd s') \<and> events (snd s') < events (snd s)
      | Inr r \<Rightarrow> time (snd s) \<le> time (snd r)" for s
  proof -
    obtain v w where s: "s = (v, w)" by force
    obtain a w1 where a: "ibv_async_ready B (devCtx (dev v)) w = (a, w1)" by force
    obtain t w2 where t: "ibv_get_async_event B (devCtx (dev v)) w1 = (t, w2)" by force
    have "time w \<le> time w1" "events w1 \<le> events w" "time w1 \<le> time w2" "t \<noteq> None \<Longrightarrow> events w2 < events w1"
      "time w2 \<le> time (ibv_ack_async_event B w2)" "events (ibv_ack_async_event B w2) \<le> events w2"
      using assms a t unfolding ibTimed_def by blast+
    then show ?thesis using s a t by (auto simp: asyncStep_def split: option.splits)
  qed
  have "\<exists>r. iter (asyncStep B) (v, w) = Some r"
    by (rule iter_total [where I = "\<lambda>_. True" and \<mu> = "\<lambda>s. events (snd s)"], simp) (use step in \<open>force split: sum.splits\<close>)
  then obtain v' w' where r: "iter (asyncStep B) (v, w) = Some (v', w')" by auto
  have "time w \<le> time (snd (v', w'))"
    by (rule iter_case [OF r, where I = "\<lambda>s. time w \<le> time (snd s)"]) (simp, use step in \<open>fastforce split: sum.splits\<close>)
  then show ?thesis using that r by (auto simp: drainAsyncFatal_def)
qed

lemma checkWait_returns:
  assumes "ibTimed S B time events" "dlEnabled dl"
  obtains x where "checkWait S B ab t dl v w = Some x"
    "\<And>v' w'. x = Inl (v', w') \<Longrightarrow> time w \<le> time w' \<and> (t \<longrightarrow> time w' < dlEnd dl)"
proof (cases "ab w")
  case False
  obtain f v1 w1 where d: "drainAsyncFatal B v w = Some (f, v1, w1)" "time w \<le> time w1" by (rule drainAsync_returns [OF assms(1)])
  obtain y w2 where e: "expired S dl w1 = (y, w2)" by force
  have "time w1 \<le> time w2 \<and> (\<not> y \<longrightarrow> time w2 < dlEnd dl)"
    using e assms unfolding ibTimed_def expired_def by (fastforce split: prod.splits)
  then show ?thesis using that d e False by (fastforce simp: checkWait_def split: if_splits)
qed (use that in \<open>simp add: checkWait_def\<close>)

lemma poll_time: "ibTimed S B time events \<Longrightarrow> pollOnce B v p w = (e, s, r, w') \<Longrightarrow> time w < time w'"
  unfolding ibTimed_def pollOnce_def by (auto split: prod.splits option.splits)

text \<open>A loop whose body returns and that comes nearer to the deadline \<open>t\<close> with every round.\<close>

lemma deadline_loop:
  assumes "\<And>s. \<exists>x. f s = Some x \<and> (\<forall>s'. x = Inl s' \<longrightarrow> clock s < clock s' \<and> clock s' < (t :: int))"
  shows "\<exists>r. iterO f s = Some r"
proof (rule iterO_total [where I = "\<lambda>_. True" and \<mu> = "\<lambda>s. nat (t - clock s)"])
  show "f s \<noteq> None" for s using assms [of s] by auto
  show "True \<and> nat (t - clock s') < nat (t - clock s)" if "f s = Some (Inl s')" for s s' using assms [of s] that by auto
qed simp

lemma pollPeer_returns:
  assumes "ibTimed S B time events" "0 < timeoutSeconds (sys_getenv S)"
  shows "pollPeer S B ab p k n v w \<noteq> None"
proof -
  obtain dl w1 where d: "newDeadline S w = (dl, w1)" by force
  have en: "dlEnabled dl" by (rule newDeadline_enabled [OF d assms(2)])
  obtain m v1 where t: "takeRecvSurplus p n v = (m, v1)" by force
  have "\<exists>r. iterO (pollStep S B ab dl p k m) (0, 0, v1, w1) = Some r"
  proof (rule deadline_loop [where clock = "\<lambda>(a, b, v, w). time w" and t = "dlEnd dl"])
    fix s :: "nat \<times> nat \<times> VerbsTransport \<times> 'a"
    obtain a b v w where s: "s = (a, b, v, w)" by (metis prod_cases4)
    obtain e x y w2 where p: "pollOnce B v p w = (e, x, y, w2)" by (metis prod_cases4)
    obtain z where z: "checkWait S B ab True dl v w2 = Some z" "\<And>v' w'. z = Inl (v', w') \<Longrightarrow> time w2 \<le> time w' \<and> time w' < dlEnd dl"
      using checkWait_returns [OF assms(1) en, of ab True v w2] by metis
    show "\<exists>x. pollStep S B ab dl p k m s = Some x \<and>
        (\<forall>s'. x = Inl s' \<longrightarrow> (case s of (a, b, v, w) \<Rightarrow> time w) < (case s' of (a, b, v, w) \<Rightarrow> time w) \<and>
          (case s' of (a, b, v, w) \<Rightarrow> time w) < dlEnd dl)"
      using s p z poll_time [OF assms(1) p] by (cases z) (force simp: pollStep_def)+
  qed
  then show ?thesis using d t by (auto simp: pollPeer_def)
qed

lemma splitPoll_returns:
  assumes "ibTimed S B time events" "0 < timeoutSeconds (sys_getenv S)"
  shows "splitPoll S B sp k rp n v w \<noteq> None"
proof -
  obtain dl w1 where d: "newDeadline S w = (dl, w1)" by force
  have en: "dlEnabled dl" by (rule newDeadline_enabled [OF d assms(2)])
  obtain m v1 where t: "takeRecvSurplus rp n v = (m, v1)" by force
  have "\<exists>r. iterO (splitStep S B dl sp k rp m) (0, 0, v1, w1) = Some r"
  proof (rule deadline_loop [where clock = "\<lambda>(a, b, v, w). time w" and t = "dlEnd dl"])
    fix s :: "nat \<times> nat \<times> VerbsTransport \<times> 'a"
    obtain a b v w where s: "s = (a, b, v, w)" by (metis prod_cases4)
    obtain e x y w2 where p: "(if a < k then pollOnce B v sp w else (vcclSuccess, 0, 0, w)) = (e, x, y, w2)" by (metis prod_cases4)
    obtain e' x' y' w3 where p': "(if b < m then pollOnce B v rp w2 else (vcclSuccess, 0, 0, w2)) = (e', x', y', w3)" by (metis prod_cases4)
    have "a < k \<Longrightarrow> time w < time w2" "\<not> a < k \<Longrightarrow> w2 = w" "b < m \<Longrightarrow> time w2 < time w3" "\<not> b < m \<Longrightarrow> w3 = w2"
      using p p' poll_time [OF assms(1)] by simp_all
    then have adv: "a < k \<or> b < m \<Longrightarrow> time w < time w3" by (cases "a < k"; cases "b < m") auto
    obtain z where z: "checkWait S B (\<lambda>_. False) True dl v w3 = Some z" "\<And>v' w'. z = Inl (v', w') \<Longrightarrow> time w3 \<le> time w' \<and> time w' < dlEnd dl"
      using checkWait_returns [OF assms(1) en, of "\<lambda>_. False" True v w3] by metis
    show "\<exists>x. splitStep S B dl sp k rp m s = Some x \<and>
        (\<forall>s'. x = Inl s' \<longrightarrow> (case s of (a, b, v, w) \<Rightarrow> time w) < (case s' of (a, b, v, w) \<Rightarrow> time w) \<and>
          (case s' of (a, b, v, w) \<Rightarrow> time w) < dlEnd dl)"
    proof (cases "a < k \<or> b < m")
      case True
      show ?thesis using s p p' z adv [OF True] True by (cases z) (force simp: splitStep_def)+
    qed (simp add: s splitStep_def)
  qed
  then show ?thesis using d t by (auto simp: splitPoll_def)
qed

lemma pollPeers_time:
  "ibTimed S B time events \<Longrightarrow> pollPeers B v pst ps dn pd w = (e, dn', pd', w') \<Longrightarrow> time w \<le> time w' \<and> (pd' \<longrightarrow> pd \<or> time w < time w')"
proof (induction ps arbitrary: dn pd w)
  case (Cons p ps)
  obtain e1 s r w1 where p: "pollOnce B v p w = (e1, s, r, w1)" by (metis prod_cases4)
  have "time w < time w1" by (rule poll_time [OF Cons.prems(1) p])
  then show ?case using Cons.IH [OF Cons.prems(1)] Cons.prems(2) p by (fastforce simp: Let_def split: if_splits)
qed simp

lemma verbsWave_returns:
  assumes "ibTimed S B time events" "0 < timeoutSeconds (sys_getenv S)"
  shows "verbsWave S B ab ops v w \<noteq> None"
proof -
  obtain e pst v1 w1 where p: "postWave B ops (\<lambda>_. 0) v w = (e, pst, v1, w1)" by (metis prod_cases4)
  obtain dl w2 where d: "newDeadline S w1 = (dl, w2)" by force
  have en: "dlEnabled dl" by (rule newDeadline_enabled [OF d assms(2)])
  have "\<exists>r. iterO (waveStep S B ab dl pst (wavePeers ops)) (\<lambda>_. 0, v1, w2) = Some r"
  proof (rule deadline_loop [where clock = "\<lambda>(dn, v, w). time w" and t = "dlEnd dl"])
    fix s :: "(qkey \<Rightarrow> nat) \<times> VerbsTransport \<times> 'a"
    obtain dn v w where s: "s = (dn, v, w)" by (metis prod_cases3)
    obtain e' dn1 pd w3 where p: "pollPeers B v pst (wavePeers ops) dn False w = (e', dn1, pd, w3)" by (metis prod_cases4)
    obtain z where z: "checkWait S B ab pd dl v w3 = Some z" "\<And>v' w'. z = Inl (v', w') \<Longrightarrow> time w3 \<le> time w' \<and> (pd \<longrightarrow> time w' < dlEnd dl)"
      using checkWait_returns [OF assms(1) en, of ab pd v w3] by metis
    show "\<exists>x. waveStep S B ab dl pst (wavePeers ops) s = Some x \<and>
        (\<forall>s'. x = Inl s' \<longrightarrow> (case s of (dn, v, w) \<Rightarrow> time w) < (case s' of (dn, v, w) \<Rightarrow> time w) \<and>
          (case s' of (dn, v, w) \<Rightarrow> time w) < dlEnd dl)"
      using s p z pollPeers_time [OF assms(1) p] by (cases z) (force simp: waveStep_def)+
  qed
  then show ?thesis using p d by (auto simp: verbsWave_def simp del: not_None_eq)
qed

lemma verbsWaves_returns:
  assumes "ibTimed S B time events" "0 < timeoutSeconds (sys_getenv S)"
  shows "verbsWaves S B ab ops v w \<noteq> None"
proof (induction "length ops" arbitrary: ops v w rule: less_induct)
  case less
  show ?case
  proof (cases "ops = []")
    case False
    obtain e1 v1 w1 where r: "verbsWave S B ab (take (waveEnd ops) ops) v w = Some (e1, v1, w1)"
      using verbsWave_returns [OF assms, of ab "take (waveEnd ops) ops" v w] by auto
    have "length (drop (waveEnd ops) ops) < length ops" using False by (simp add: waveEnd_def)
    from less.hyps [OF this, of v1 w1] show ?thesis using False r by (simp add: verbsWaves.simps [of S B ab ops])
  qed (simp add: verbsWaves.simps)
qed

lemma guarded_returns: "(guarded B r = None) = (r = None)"
  by (simp add: guarded_def)

lemma verbs_return:
  assumes "ibTimed S B time events" "0 < timeoutSeconds (sys_getenv S)"
  shows "verbsSend S B ab p b n v w \<noteq> None" "verbsRecv S B ab p b n v w \<noteq> None" "verbsBatch S B ab ops v w \<noteq> None"
    "verbsSendRecv S B ab sp sb sn rp rb rn v w \<noteq> None"
proof -
  note ret = pollPeer_returns [OF assms] splitPoll_returns [OF assms] verbsWaves_returns [OF assms]
  show "verbsSend S B ab p b n v w \<noteq> None" "verbsRecv S B ab p b n v w \<noteq> None" "verbsBatch S B ab ops v w \<noteq> None"
    "verbsSendRecv S B ab sp sb sn rp rb rn v w \<noteq> None"
    using ret by (auto simp: verbsSend_def verbsRecv_def verbsBatch_def verbsSendRecv_def guarded_returns simp del: not_None_eq split: prod.splits)
qed

end
