(* ===== verification/Vccl_Verbs_Setup_Spec.thy ===== *)
theory Vccl_Verbs_Setup_Spec
  imports Vccl_Verbs_Setup Vccl_Gather_Spec
begin

text \<open>
  The creation of a verbs transport: what the ranks exchange about their queue pairs arrives as it was sent, so that the
  two ends of a connection name each other (\<open>qps_paired\<close>).
\<close>

subsection \<open>Queue pair parameters on the wire\<close>

lemma htonl_htonl [simp]: "htonl (htonl w) = w"
proof -
  have "length (bytes_of w) = 4" for w :: "32 word" by (simp add: bytes_of_def)
  then have "bytes_of (htonl w) = rev (bytes_of w)" by (simp add: htonl_def bytes_of_word_of_bytes)
  then show ?thesis by (simp add: htonl_def [of "htonl w"])
qed

lemma qpInfoSwap_swap [simp]: "qpInfoSwap (qpInfoSwap q) = q"
  by (simp add: qpInfoSwap_def)

lemma length_encodeQp: "length (gid q) = 16 \<Longrightarrow> length (encodeQp q) = 28"
  by (simp add: encodeQp_def)

lemma decode_encodeQp: "length (gid q) = 16 \<Longrightarrow> decodeQp (encodeQp q) = q"
  by (simp add: encodeQp_def decodeQp_def nth_append)

text \<open>Every rank reads the parameters that every other rank wrote.\<close>

lemma qpTable_rows:
  assumes "\<And>r. r < n \<Longrightarrow> length (infos r) = n \<and> (\<forall>q\<in>set (infos r). length (gid q) = 16)" "r < n" "p < n" "p \<noteq> r"
  shows "qpTable n (concat (map (\<lambda>j. qpRow j (infos j)) [0..<n])) ! (r * n + p) = infos r ! p"
proof -
  define q where "q i = (let r = i div n; p = i mod n in if p \<noteq> r then qpInfoSwap (infos r ! p) else infos r ! p)" for i
  have n: "0 < n" using assms(2) by simp
  have "qpRow j (infos j) = concat (map (\<lambda>p. encodeQp (q (j * n + p))) [0..<n])" if "j < n" for j
    unfolding qpRow_def using assms(1) [OF that] by (intro arg_cong [of _ _ concat]) (auto simp: q_def Let_def)
  then have eq: "map (\<lambda>j. qpRow j (infos j)) [0..<n] = map (\<lambda>j. concat (map (\<lambda>p. encodeQp (q (j * n + p))) [0..<n])) [0..<n]" by simp
  have flat: "concat (map (\<lambda>j. concat (map (\<lambda>p. f (j * n + p)) [0..<n])) [0..<m]) = concat (map f [0..<m * n])" for f :: "nat \<Rightarrow> byte list" and m
  proof (induction m)
    case (Suc m)
    have "[0..<Suc m * n] = [0..<m * n] @ map (\<lambda>p. m * n + p) [0..<n]"
      using upt_add_eq_append [of 0 "m * n" n] map_add_upt [of "m * n" n] by (simp add: add.commute)
    then show ?case using Suc by (simp add: comp_def)
  qed simp
  have rows: "concat (map (\<lambda>j. qpRow j (infos j)) [0..<n]) = concat (map (\<lambda>i. encodeQp (q i)) [0..<n * n])"
    unfolding eq by (rule flat)
  define f where "f i = (if i < n * n then encodeQp (q i) else replicate 28 0)" for i
  have g: "length (gid (q i)) = 16" if "i < n * n" for i
  proof -
    have "i div n < n" "i mod n < n" using that n by (simp_all add: less_mult_imp_div_less)
    then show ?thesis using assms(1) [of "i div n"] by (auto simp: q_def Let_def qpInfoSwap_def)
  qed
  have i: "r * n + p < n * n" using assms(2,3) by (metis add.commute add_less_mono1 less_le_trans mult_Suc mult_le_mono1 Suc_leI)
  have "concat (map (\<lambda>i. encodeQp (q i)) [0..<n * n]) = concat (map f [0..<n * n])"
    by (intro arg_cong [of _ _ concat]) (simp add: f_def)
  moreover have "take 28 (drop ((r * n + p) * 28) (concat (map f [0..<n * n]))) = f (r * n + p)"
    using i by (intro elem_of_concat) (simp_all add: f_def length_encodeQp g)
  ultimately have "take 28 (drop ((r * n + p) * 28) (concat (map (\<lambda>j. qpRow j (infos j)) [0..<n]))) = f (r * n + p)"
    by (simp only: rows)
  then have "qpTable n (concat (map (\<lambda>j. qpRow j (infos j)) [0..<n])) ! (r * n + p) = qpInfoSwap (q (r * n + p))"
    using i g [OF i] by (simp add: qpTable_def f_def decode_encodeQp)
  then show ?thesis using assms(3,4) by (simp add: q_def Let_def)
qed

subsection \<open>The queue pairs of a rank\<close>

text \<open>What \<open>createQps\<close> leaves: for each peer the parameters of the queue pair that is in the table.\<close>

definition describes :: "'w ibdev \<Rightarrow> VerbsTransport \<Rightarrow> nat \<Rightarrow> QpInfo \<Rightarrow> bool" where
  "describes D v p q \<longleftrightarrow> qpn q = ibv_qp_num D (qps v ! p) \<and> lid q = devLid (dev v) \<and> mtu q = devMtu (dev v) \<and> gid q = devGid (dev v)"

lemma createQp_keeps:
  "createQp D p v w = (res, v', w') \<Longrightarrow> dev v' = dev v \<and> length (qps v') = length (qps v) \<and> length (cqs v') = length (cqs v) \<and>
     (\<forall>i. i \<noteq> p \<longrightarrow> qps v' ! i = qps v ! i \<and> cqs v' ! i = cqs v ! i)"
  by (auto simp: createQp_def Let_def split: prod.splits if_splits)

lemma createQps_infos:
  "createQps D seed r ps k infos v w = (vcclSuccess, infos', v', w') \<Longrightarrow> distinct ps \<Longrightarrow> \<forall>p\<in>set ps. p < length infos \<Longrightarrow>
   dev v' = dev v \<and> length infos' = length infos \<and> (\<forall>p\<in>set ps. p \<noteq> r \<longrightarrow> describes D v' p (infos' ! p)) \<and>
   (\<forall>i. i \<notin> set ps \<or> i = r \<longrightarrow> infos' ! i = infos ! i \<and> qps v' ! i = qps v ! i)"
proof (induction ps arbitrary: k infos v w)
  case (Cons p ps)
  show ?case
  proof (cases "p = r")
    case True
    then show ?thesis using Cons by auto
  next
    case False
    obtain v1 w1 where c: "createQp D p v w = (vcclSuccess, v1, w1)"
      using Cons.prems(1) False by (auto split: prod.splits if_splits)
    define info where "info = (infos ! p)\<lparr>qpn := ibv_qp_num D (qps v1 ! p), psn := mt19937 D seed k AND 0xffffff, lid := devLid (dev v1),
      mtu := devMtu (dev v1), gid := devGid (dev v1)\<rparr>"
    have rest: "createQps D seed r ps (Suc k) (infos[p := info]) v1 w1 = (vcclSuccess, infos', v', w')"
      using Cons.prems(1) False c by (simp add: Let_def info_def)
    have IH: "dev v' = dev v1 \<and> length infos' = length (infos[p := info]) \<and> (\<forall>p\<in>set ps. p \<noteq> r \<longrightarrow> describes D v' p (infos' ! p)) \<and>
      (\<forall>i. i \<notin> set ps \<or> i = r \<longrightarrow> infos' ! i = infos[p := info] ! i \<and> qps v' ! i = qps v1 ! i)"
      by (rule Cons.IH [OF rest]) (use Cons.prems(2,3) in auto)
    have "infos' ! p = info" "qps v' ! p = qps v1 ! p" using IH Cons.prems(2,3) by auto
    then have "describes D v' p (infos' ! p)" using IH by (simp add: describes_def info_def)
    then show ?thesis using IH createQp_keeps [OF c] False by (auto simp: nth_list_update)
  qed
qed simp

text \<open>A log of successful state changes per queue pair.\<close>

definition qpLog :: "'w ibdev \<Rightarrow> ('w \<Rightarrow> nat \<Rightarrow> qp_attr list) \<Rightarrow> bool" where
  "qpLog D log \<longleftrightarrow> (\<forall>q a w w'. ibv_modify_qp D q a w = (True, w') \<longrightarrow> log w' = (log w)(q := log w q @ [a]))"

text \<open>The two steps that connect the queue pair for peer \<open>p\<close>.\<close>

definition qpLinks :: "'w sys \<Rightarrow> VerbsTransport \<Rightarrow> QpInfo \<Rightarrow> QpInfo \<Rightarrow> qp_attr list" where
  "qpLinks S v mine theirs = [QpRtr (rtrAttr (sys_getenv S) (dev v) mine theirs), QpRts (rtsAttr mine)]"

lemma connectQp_log:
  assumes "qpLog D lg" "connectQp S D p mine theirs v w = (vcclSuccess, w')"
  shows "lg w' = (lg w)(qps v ! p := lg w (qps v ! p) @ qpLinks S v mine theirs)"
proof -
  obtain w1 where m: "ibv_modify_qp D (qps v ! p) (QpRtr (rtrAttr (sys_getenv S) (dev v) mine theirs)) w = (True, w1)"
      "ibv_modify_qp D (qps v ! p) (QpRts (rtsAttr mine)) w1 = (True, w')"
    using assms(2) by (auto simp: connectQp_def split: prod.splits if_splits)
  have "lg w1 = (lg w)(qps v ! p := lg w (qps v ! p) @ [QpRtr (rtrAttr (sys_getenv S) (dev v) mine theirs)])"
    "lg w' = (lg w1)(qps v ! p := lg w1 (qps v ! p) @ [QpRts (rtsAttr mine)])"
    using assms(1) m unfolding qpLog_def by blast+
  then show ?thesis by (simp add: qpLinks_def)
qed

lemma connectQps_log:
  assumes "qpLog D lg"
  shows "connectQps S D r n alls ps v w = (vcclSuccess, w') \<Longrightarrow> distinct ps \<Longrightarrow> inj_on (\<lambda>p. qps v ! p) (set ps - {r}) \<Longrightarrow>
    (\<forall>p\<in>set ps - {r}. lg w' (qps v ! p) = lg w (qps v ! p) @ qpLinks S v (alls ! (r * n + p)) (alls ! (p * n + r))) \<and>
    (\<forall>q. q \<notin> (\<lambda>p. qps v ! p) ` (set ps - {r}) \<longrightarrow> lg w' q = lg w q)"
proof (induction ps arbitrary: w)
  case (Cons p ps)
  have inj: "inj_on (\<lambda>p. qps v ! p) (set ps - {r})" using Cons.prems(3) by (rule inj_on_subset) auto
  show ?case
  proof (cases "p = r")
    case True
    then have "set (p # ps) - {r} = set ps - {r}" by auto
    then show ?thesis using Cons.IH [of w] Cons.prems True inj by simp
  next
    case False
    obtain w1 where m: "connectQp S D p (alls ! (r * n + p)) (alls ! (p * n + r)) v w = (vcclSuccess, w1)"
        "connectQps S D r n alls ps v w1 = (vcclSuccess, w')"
      using Cons.prems(1) False by (auto split: prod.splits if_splits)
    note one = connectQp_log [OF assms m(1)]
    have new: "qps v ! p \<notin> (\<lambda>p. qps v ! p) ` (set ps - {r})"
    proof
      assume "qps v ! p \<in> (\<lambda>p. qps v ! p) ` (set ps - {r})"
      then obtain i where i: "qps v ! p = qps v ! i" "i \<in> set ps - {r}" by (rule imageE)
      have "p = i" by (rule inj_onD [OF Cons.prems(3) i(1)]) (use False i(2) in auto)
      then show False using Cons.prems(2) i(2) by simp
    qed
    have IH: "(\<forall>p\<in>set ps - {r}. lg w' (qps v ! p) = lg w1 (qps v ! p) @ qpLinks S v (alls ! (r * n + p)) (alls ! (p * n + r))) \<and>
      (\<forall>q. q \<notin> (\<lambda>p. qps v ! p) ` (set ps - {r}) \<longrightarrow> lg w' q = lg w1 q)"
      using Cons.IH [OF m(2) _ inj] Cons.prems(2) by simp
    have other: "lg w1 (qps v ! i) = lg w (qps v ! i)" if "i \<in> set ps - {r}" for i
    proof -
      have "qps v ! i \<noteq> qps v ! p" using new imageI [OF that, of "\<lambda>p. qps v ! p"] by metis
      then show ?thesis using one by simp
    qed
    have s: "set (p # ps) - {r} = insert p (set ps - {r})" using False by auto
    show ?thesis unfolding s using IH other new one by simp
  qed
qed simp

text \<open>The queue pairs of two ranks name each other: numbers and initial sequence numbers cross over, the path MTU is the
  smaller of the two, and the route leads to the other rank's port.\<close>

lemma qps_paired:
  assumes "\<And>r. r < n \<Longrightarrow> sockets (S r) (N r)" "\<And>r. r < n \<Longrightarrow> bsRank (bs r) = r \<and> bsNranks (bs r) = n"
    and "inj_on (\<lambda>i. peerFds (bs 0) ! i) {1..<n}"
    and "\<And>r. r < n \<Longrightarrow> createQps (D r) (seed r) r [0..<n] 0 (replicate n zeroQp) (newVerbs (D r) n (d r)) (w0 r) = (vcclSuccess, infos r, v r, w r)"
    and "\<And>r. r < n \<Longrightarrow> bsAllGather (S r) (bs r) (patch (replicate (n * (28 * n)) 0) (r * (28 * n)) (qpRow r (infos r))) (28 * n) (w r) =
       Some (vcclSuccess, b r, w' r)"
    and "\<And>r. r < n \<Longrightarrow> connectQps (S r) (D r) r n (qpTable n (b r)) [0..<n] (v r) (w' r) = (vcclSuccess, w'' r)"
    and "\<And>r. 0 < r \<Longrightarrow> r < n \<Longrightarrow> channel (N r (w r)) (N r (w' r)) (rootFd (bs r)) (N 0 (w 0)) (N 0 (w' 0)) (peerFds (bs 0) ! r)"
    and "\<And>r. 0 < r \<Longrightarrow> r < n \<Longrightarrow> channel (N 0 (w 0)) (N 0 (w' 0)) (peerFds (bs 0) ! r) (N r (w r)) (N r (w' r)) (rootFd (bs r))"
    and "\<And>r. r < n \<Longrightarrow> qpLog (D r) (lg r) \<and> inj_on (\<lambda>p. qps (v r) ! p) ({0..<n} - {r}) \<and> length (devGid (d r)) = 16"
    and "r < n" "p < n" "r \<noteq> p"
  shows "\<exists>mine theirs. lg r (w'' r) (qps (v r) ! p) = lg r (w' r) (qps (v r) ! p) @ qpLinks (S r) (v r) mine theirs \<and>
    lg p (w'' p) (qps (v p) ! r) = lg p (w' p) (qps (v p) ! r) @ qpLinks (S p) (v p) theirs mine \<and>
    describes (D r) (v r) p mine \<and> describes (D p) (v p) r theirs"
proof -
  have info: "dev (v r) = d r" "length (infos r) = n" "p < n \<Longrightarrow> p \<noteq> r \<Longrightarrow> describes (D r) (v r) p (infos r ! p)" "infos r ! r = zeroQp"
    if "r < n" for r p
    using createQps_infos [OF assms(4) [OF that]] that by (auto simp: newVerbs_def)
  have gid16: "length (infos r) = n \<and> (\<forall>q\<in>set (infos r). length (gid q) = 16)" if "r < n" for r
  proof -
    have "length (gid (infos r ! i)) = 16" if "i < n" for i
      using info(3) [OF \<open>r < n\<close>, of i] info(1,4) [OF \<open>r < n\<close>] assms(9) [OF \<open>r < n\<close>] that by (cases "i = r") (auto simp: describes_def zeroQp_def)
    then show ?thesis using info(2) [OF that] by (auto simp: in_set_conv_nth)
  qed
  have row: "length (qpRow r (infos r)) = 28 * n" if "r < n" for r
  proof -
    have "length (encodeQp (if i \<noteq> r then qpInfoSwap (infos r ! i) else infos r ! i)) = 28" if "i < n" for i
      using gid16 [OF \<open>r < n\<close>] that by (auto simp: length_encodeQp qpInfoSwap_def)
    then have eq: "map (\<lambda>i. length (encodeQp (if i \<noteq> r then qpInfoSwap (infos r ! i) else infos r ! i))) [0..<n] = map (\<lambda>_. 28) [0..<n]" by simp
    show ?thesis unfolding qpRow_def length_concat map_map comp_def info(2) [OF that] eq by (simp add: sum_list_triv)
  qed
  let ?mk = "\<lambda>r. patch (replicate (n * (28 * n)) 0) (r * (28 * n)) (qpRow r (infos r))"
  have slice: "sliceAt (28 * n) (?mk j) j = qpRow j (infos j)" "length (?mk j) = n * (28 * n)" if "j < n" for j
    using patch_slice [of "replicate (n * (28 * n)) 0" n "28 * n" "qpRow j (infos j)" j j] that row [OF that] by simp_all
  have b: "b r = concat (map (\<lambda>j. qpRow j (infos j)) [0..<n])" if "r < n" for r
  proof -
    have "b r = concat (map (\<lambda>j. sliceAt (28 * n) (?mk j) j) [0..<n])"
      by (rule gather_agrees [OF assms(1-3) assms(5) slice(2) assms(7,8) that])
    also have "\<dots> = concat (map (\<lambda>j. qpRow j (infos j)) [0..<n])" by (intro arg_cong [of _ _ concat]) (simp add: slice(1))
    finally show ?thesis .
  qed
  have tab: "qpTable n (b i) ! (r * n + p) = infos r ! p" if "i < n" "r < n" "p < n" "p \<noteq> r" for i r p
    unfolding b [OF that(1)] by (rule qpTable_rows [OF gid16 that(2-4)])
  have link: "lg r (w'' r) (qps (v r) ! p) = lg r (w' r) (qps (v r) ! p) @ qpLinks (S r) (v r) (infos r ! p) (infos p ! r)"
    if "r < n" "p < n" "r \<noteq> p" for r p
    using connectQps_log [OF _ assms(6) [OF that(1)], where lg = "lg r"] assms(9) [OF that(1)] that tab by simp
  show ?thesis
    using link [OF assms(10-12)] link [OF assms(11,10)] info(3) [OF assms(10), of p] info(3) [OF assms(11), of r] assms(10-12) by auto
qed

end
