(* ===== verification/Vccl_Verbs_Owner.thy ===== *)
theory Vccl_Verbs_Owner
  imports Vccl_Verbs_Setup_Spec
begin

text \<open>
  Device handles, protection domains, completion queues and queue pairs. \<open>ibOwns\<close> is what ibverbs documents of them. The
  library's objects are those of \<open>ibHeld\<close>, and \<open>ibUses\<close> says which object uses which: a protection domain and a completion queue
  use the device they were made from, a queue pair its protection domain and its completion queue. A call that creates an
  object adds it and its uses; the matching call removes it, but fails and changes nothing while another object uses
  it (\<^verbatim>\<open>EBUSY\<close>); no other call changes the objects. While a transport is being created it holds what its tables say, and its
  destructor, which must destroy users before what they use, gives all of it back.
\<close>

datatype ibres = RCtx nat | RPd nat | RCq nat | RQp nat

record ibobjs =
  ibHeld :: "ibres set"
  ibUses :: "(ibres \<times> ibres) set"    \<comment> \<open>user and used\<close>

text \<open>\<open>makes ib R deps r w\<close>: a call in world \<open>w\<close> with result and new world \<open>r\<close> creates the object \<open>R\<close>, which uses \<open>deps\<close>, or
  nothing and returns null.\<close>

definition makes :: "('w \<Rightarrow> ibobjs) \<Rightarrow> (nat \<Rightarrow> ibres) \<Rightarrow> ibres set \<Rightarrow> nat \<times> 'w \<Rightarrow> 'w \<Rightarrow> bool" where
  "makes ib R deps r w \<longleftrightarrow>
     (if fst r = 0 then ib (snd r) = ib w
      else R (fst r) \<notin> ibHeld (ib w) \<and> (\<forall>u. (u, R (fst r)) \<notin> ibUses (ib w)) \<and>
        ib (snd r) = \<lparr>ibHeld = insert (R (fst r)) (ibHeld (ib w)), ibUses = ibUses (ib w) \<union> {R (fst r)} \<times> deps\<rparr>)"

text \<open>\<open>ends ib x w w'\<close>: a call that takes the world from \<open>w\<close> to \<open>w'\<close> destroys the object \<open>x\<close>, unless it is in use.\<close>

definition ends :: "('w \<Rightarrow> ibobjs) \<Rightarrow> ibres \<Rightarrow> 'w \<Rightarrow> 'w \<Rightarrow> bool" where
  "ends ib x w w' \<longleftrightarrow>
     (if x \<in> ibHeld (ib w) \<and> (\<forall>u\<in>ibHeld (ib w). (u, x) \<notin> ibUses (ib w))
      then ib w' = \<lparr>ibHeld = ibHeld (ib w) - {x}, ibUses = {p \<in> ibUses (ib w). fst p \<noteq> x}\<rparr> else ib w' = ib w)"

definition ibOwns :: "'w sys \<Rightarrow> 'w ibdev \<Rightarrow> ('w \<Rightarrow> ibobjs) \<Rightarrow> bool" where
  "ibOwns S D ib \<longleftrightarrow>
     quietly S (\<lambda>w w'. ib w' = ib w) \<and> (\<forall>w. ib (snd (sys_random S w)) = ib w) \<and>
     (\<forall>w. ib (snd (ibv_get_device_list D w)) = ib w) \<and> (\<forall>w. ib (ibv_free_device_list D w) = ib w) \<and>
     (\<forall>c w. ib (snd (ibv_query_device D c w)) = ib w) \<and> (\<forall>c p w. ib (snd (ibv_query_port D c p w)) = ib w) \<and>
     (\<forall>c p i w. ib (snd (ibv_query_gid D c p i w)) = ib w) \<and> (\<forall>c w. ib (async_nonblock D c w) = ib w) \<and>
     (\<forall>q a w. ib (snd (ibv_modify_qp D q a w)) = ib w) \<and>
     (\<forall>i w. makes ib RCtx {} (ibv_open_device D i w) w) \<and> (\<forall>i w. makes ib RPd {RCtx i} (ibv_alloc_pd D i w) w) \<and>
     (\<forall>i k w. makes ib RCq {RCtx i} (ibv_create_cq D i k w) w) \<and>
     (\<forall>p c k i w. makes ib RQp {RPd p, RCq c} (map_prod fst id (ibv_create_qp D p c k i w)) w) \<and>
     (\<forall>c w. ends ib (RCtx c) w (ibv_close_device D c w)) \<and> (\<forall>c w. ends ib (RPd c) w (ibv_dealloc_pd D c w)) \<and>
     (\<forall>c w. ends ib (RCq c) w (ibv_destroy_cq D c w)) \<and> (\<forall>c w. ends ib (RQp c) w (ibv_destroy_qp D c w))"

definition devHeld :: "Device \<Rightarrow> ibres set" where
  "devHeld d = (if devCtx d \<noteq> 0 then {RCtx (devCtx d)} else {}) \<union> (if devPd d \<noteq> 0 then {RPd (devPd d)} else {})"

definition verbsHeld :: "VerbsTransport \<Rightarrow> ibres set" where
  "verbsHeld v = devHeld (dev v) \<union> RCq ` (set (cqs v) - {0}) \<union> RQp ` (set (qps v) - {0})"

text \<open>An object uses only objects of lower level.\<close>

definition level :: "ibres \<Rightarrow> nat" where
  "level x = (case x of RCtx _ \<Rightarrow> 0 | RPd _ \<Rightarrow> 1 | RCq _ \<Rightarrow> 1 | RQp _ \<Rightarrow> 2)"

text \<open>\<open>owns ib L A w\<close>: besides what was held at the start, \<open>L\<close>, exactly \<open>A\<close> is held, and only objects of \<open>A\<close> use objects of \<open>A\<close>.\<close>

definition owns :: "('w \<Rightarrow> ibobjs) \<Rightarrow> ibres set \<Rightarrow> ibres set \<Rightarrow> 'w \<Rightarrow> bool" where
  "owns ib L A w \<longleftrightarrow> ibHeld (ib w) = L \<union> A \<and> L \<inter> A = {} \<and>
     (\<forall>(u, x) \<in> ibUses (ib w). x \<in> A \<longrightarrow> u \<in> A \<and> level x < level u)"

lemma owns_cong: "ib w' = ib w \<Longrightarrow> owns ib L A w \<Longrightarrow> owns ib L A w'"
  by (simp add: owns_def)

lemma owns_start: "owns ib (ibHeld (ib w)) {} w"
  by (simp add: owns_def split_beta)

lemma owns_drop:
  assumes "owns ib L A w" "x \<in> A" "\<And>y. y \<in> A \<Longrightarrow> level y \<le> level x" "ends ib x w w'"
  shows "owns ib L (A - {x}) w'"
proof -
  have free: "(u, x) \<notin> ibUses (ib w)" for u
    using assms(1-3) unfolding owns_def by (metis (no_types, lifting) case_prodD leD)
  moreover have "x \<in> ibHeld (ib w)" using assms(1,2) by (simp add: owns_def)
  ultimately have "ib w' = \<lparr>ibHeld = ibHeld (ib w) - {x}, ibUses = {p \<in> ibUses (ib w). fst p \<noteq> x}\<rparr>"
    using assms(4) by (simp add: ends_def)
  then show ?thesis using assms(1,2) by (auto simp: owns_def)
qed

lemma owns_unheld: "x \<notin> L \<Longrightarrow> x \<notin> A \<Longrightarrow> owns ib L A w \<Longrightarrow> ends ib x w w' \<Longrightarrow> owns ib L A w'"
  by (simp add: owns_def ends_def)

lemma ib_calls:
  assumes "ibOwns S D ib"
  shows "ibv_query_device D c w = (a, w') \<Longrightarrow> ib w' = ib w" "ibv_query_gid D c p i w = (g, w') \<Longrightarrow> ib w' = ib w"
    "ibv_query_port D c p w = (t, w') \<Longrightarrow> ib w' = ib w" "ibv_modify_qp D q x w = (y, w') \<Longrightarrow> ib w' = ib w"
    "ibv_get_device_list D w = (l, w') \<Longrightarrow> ib w' = ib w" "sys_random S w = (u, w') \<Longrightarrow> ib w' = ib w"
proof -
  have h: "ib (snd (ibv_query_device D c w)) = ib w" "ib (snd (ibv_query_gid D c p i w)) = ib w"
    "ib (snd (ibv_query_port D c p w)) = ib w" "ib (snd (ibv_modify_qp D q x w)) = ib w"
    "ib (snd (ibv_get_device_list D w)) = ib w" "ib (snd (sys_random S w)) = ib w"
    using assms by (simp_all add: ibOwns_def)
  show "ibv_query_device D c w = (a, w') \<Longrightarrow> ib w' = ib w" using h(1) by simp
  show "ibv_query_gid D c p i w = (g, w') \<Longrightarrow> ib w' = ib w" using h(2) by simp
  show "ibv_query_port D c p w = (t, w') \<Longrightarrow> ib w' = ib w" using h(3) by simp
  show "ibv_modify_qp D q x w = (y, w') \<Longrightarrow> ib w' = ib w" using h(4) by simp
  show "ibv_get_device_list D w = (l, w') \<Longrightarrow> ib w' = ib w" using h(5) by simp
  show "sys_random S w = (u, w') \<Longrightarrow> ib w' = ib w" using h(6) by simp
qed

lemma ib_news:
  assumes "ibOwns S D ib"
  shows "ibv_open_device D i w = (c, w') \<Longrightarrow> makes ib RCtx {} (c, w') w" "ibv_alloc_pd D i w = (c, w') \<Longrightarrow> makes ib RPd {RCtx i} (c, w') w"
    "ibv_create_cq D i k w = (c, w') \<Longrightarrow> makes ib RCq {RCtx i} (c, w') w"
    "ibv_create_qp D p j k i w = ((c, n), w') \<Longrightarrow> makes ib RQp {RPd p, RCq j} (c, w') w"
proof -
  have h: "makes ib RCtx {} (ibv_open_device D i w) w" "makes ib RPd {RCtx i} (ibv_alloc_pd D i w) w"
    "makes ib RCq {RCtx i} (ibv_create_cq D i k w) w" "makes ib RQp {RPd p, RCq j} (map_prod fst id (ibv_create_qp D p j k i w)) w"
    using assms by (simp_all add: ibOwns_def)
  show "ibv_open_device D i w = (c, w') \<Longrightarrow> makes ib RCtx {} (c, w') w" using h(1) by simp
  show "ibv_alloc_pd D i w = (c, w') \<Longrightarrow> makes ib RPd {RCtx i} (c, w') w" using h(2) by simp
  show "ibv_create_cq D i k w = (c, w') \<Longrightarrow> makes ib RCq {RCtx i} (c, w') w" using h(3) by simp
  show "ibv_create_qp D p j k i w = ((c, n), w') \<Longrightarrow> makes ib RQp {RPd p, RCq j} (c, w') w" using h(4) by simp
qed

lemma owns_makes:
  assumes "makes ib R deps (c, w') w" "owns ib L A w" "\<And>d. d \<in> deps \<Longrightarrow> level d < level (R c)"
  shows "owns ib L (if c = 0 then A else insert (R c) A) w'"
proof (cases "c = 0")
  case False
  then have "R c \<notin> ibHeld (ib w)" "\<And>u. (u, R c) \<notin> ibUses (ib w)"
      "ib w' = \<lparr>ibHeld = insert (R c) (ibHeld (ib w)), ibUses = ibUses (ib w) \<union> {R c} \<times> deps\<rparr>"
    using assms(1) by (simp_all add: makes_def)
  then show ?thesis using False assms(2,3) by (auto simp: owns_def)
qed (use assms owns_cong in \<open>auto simp: makes_def\<close>)

lemma ib_ends:
  assumes "ibOwns S D ib"
  shows "ends ib (RCtx c) w (ibv_close_device D c w)" "ends ib (RPd c) w (ibv_dealloc_pd D c w)"
    "ends ib (RCq c) w (ibv_destroy_cq D c w)" "ends ib (RQp c) w (ibv_destroy_qp D c w)"
    "ib (ibv_free_device_list D w) = ib w" "ib (async_nonblock D c w) = ib w"
  using assms by (simp_all add: ibOwns_def)

lemma owns_close: "ibOwns S D ib \<Longrightarrow> owns ib L {RCtx c} w \<Longrightarrow> ibHeld (ib (ibv_close_device D c w)) = L"
  using owns_drop [of ib L "{RCtx c}" w "RCtx c" "ibv_close_device D c w"] ib_ends(1) [of S D ib c w] by (simp add: owns_def)

subsection \<open>Opening a device\<close>

lemma gidLoop_held: "ibOwns S D ib \<Longrightarrow> gidLoop D ctx name port is b w = (b', w') \<Longrightarrow> ib w' = ib w"
proof (induction "is" arbitrary: b w)
  case (Cons i "is")
  obtain x y z where b: "b = (x, y, z)" by (cases b)
  obtain g w1 where g: "ibv_query_gid D ctx port i w = (g, w1)" by force
  show ?case using Cons.IH [OF Cons.prems(1)] Cons.prems(2) b g ib_calls(2) [OF Cons.prems(1) g]
    by (auto simp: Let_def split: option.splits if_splits)
qed simp

lemma pickGid_held:
  assumes "ibOwns S D ib" "pickGid S D name d w = (res, d', w')"
  shows "ib w' = ib w \<and> devCtx d' = devCtx d \<and> devPd d' = devPd d"
proof (cases "sys_getenv S ''VCCL_GID_INDEX''")
  case None
  obtain b w1 where l: "gidLoop D (devCtx d) name (devPort d) (map int [0..<nat (devGidLen d)]) (-1, -1, replicate 16 0) w = (b, w1)" by (rule prod.exhaust)
  show ?thesis using assms(2) None l gidLoop_held [OF assms(1) l] by (auto simp: pickGid_def split: prod.splits if_splits)
next
  case (Some e)
  obtain g w1 where g: "ibv_query_gid D (devCtx d) (devPort d) (atoi e) w = (g, w1)" by force
  show ?thesis using assms(2) Some g ib_calls(2) [OF assms(1) g] by (auto simp: pickGid_def split: option.splits)
qed

lemma ports_held:
  assumes "ibOwns S D ib" "iter (portStep D ctx cnt) (p, w) = Some (f, w')"
  shows "ib w' = ib w"
proof -
  have step: "case portStep D ctx cnt s of Inl s' \<Rightarrow> ib (snd s') = ib (snd s) | Inr r \<Rightarrow> ib (snd r) = ib (snd s)" for s
  proof -
    obtain p w where s: "s = (p, w)" by (rule prod.exhaust)
    obtain x w1 where x: "ibv_query_port D ctx p w = (x, w1)" by (rule prod.exhaust)
    show ?thesis using s x ib_calls(3) [OF assms(1) x] by (auto simp: portStep_def split: option.splits)
  qed
  have "ib (snd (f, w')) = ib w"
    by (rule iter_case [OF assms(2), where I = "\<lambda>s. ib (snd s) = ib w"]) (simp, use step in \<open>fastforce split: sum.splits\<close>)
  then show ?thesis by simp
qed

lemma useDevice_owned:
  assumes "ibOwns S D ib" "useDevice S D name ctx p pa d w = (dn, d', w')" "owns ib L {RCtx ctx} w" "ctx \<noteq> 0" "devPd d = 0"
  shows "if dn then owns ib L (devHeld d') w' else ibHeld (ib w') = L \<and> devCtx d' = 0 \<and> devPd d' = 0"
proof -
  define d1 where "d1 = d\<lparr>devCtx := ctx, devPort := p, devLid := paLid pa, devMtu := paMtu pa, devGidLen := paGidLen pa, devRoce := paEthernet pa\<rparr>"
  obtain res d2 w1 where g: "(if devRoce d1 then pickGid S D name d1 w else (vcclSuccess, d1, w)) = (res, d2, w1)" by (metis prod_cases3)
  have h: "ib w1 = ib w" "devCtx d2 = ctx" "devPd d2 = 0"
    using g pickGid_held [OF assms(1), of name d1 w] assms(5) by (auto simp: d1_def split: if_splits)
  have own1: "owns ib L {RCtx ctx} w1" by (rule owns_cong [OF h(1) assms(3)])
  obtain pd w2 where al: "ibv_alloc_pd D ctx w1 = (pd, w2)" by (rule prod.exhaust)
  note close = owns_close [OF assms(1)]
  have run: "(dn, d', w') = (if res \<noteq> vcclSuccess then (False, d2\<lparr>devCtx := 0\<rparr>, ibv_close_device D ctx w1)
      else if pd = 0 then (False, d2\<lparr>devPd := 0, devCtx := 0\<rparr>, ibv_close_device D ctx w2)
      else (True, d2\<lparr>devPd := pd\<rparr>, async_nonblock D ctx w2))"
    using assms(2) g al by (auto simp: useDevice_def Let_def d1_def [symmetric] split: if_splits)
  consider "res \<noteq> vcclSuccess" | "res = vcclSuccess" "pd = 0" | "res = vcclSuccess" "pd \<noteq> 0" by blast
  then show ?thesis
  proof cases
    case 1
    then show ?thesis using run close [OF own1] h by simp
  next
    case 2
    then have "owns ib L {RCtx ctx} w2" using owns_makes [OF ib_news(2) [OF assms(1) al] own1] by (simp add: level_def)
    then show ?thesis using 2 run close by simp
  next
    case 3
    then have "owns ib L (insert (RPd pd) {RCtx ctx}) w2" using owns_makes [OF ib_news(2) [OF assms(1) al] own1] by (simp add: level_def)
    then have "owns ib L (insert (RPd pd) {RCtx ctx}) (async_nonblock D ctx w2)" by (simp add: owns_def ib_ends(6) [OF assms(1)])
    then show ?thesis using run 3 h assms(4) by (simp add: devHeld_def insert_commute)
  qed
qed

lemma tryDevice_owned:
  assumes "ibOwns S D ib" "tryDevice S D i d w = Some (dn, d', w')" "devCtx d = 0" "devPd d = 0"
  shows "if dn then owns ib (ibHeld (ib w)) (devHeld d') w' else ibHeld (ib w') = ibHeld (ib w) \<and> devCtx d' = 0 \<and> devPd d' = 0"
proof (cases "sys_getenv S ''VCCL_IB_HCA'' \<noteq> None \<and> sys_getenv S ''VCCL_IB_HCA'' \<noteq> Some (ibv_get_device_name D i)")
  case True
  then have "(dn, d', w') = (False, d, w)" using assms(2) unfolding tryDevice_def Let_def if_P [OF True] by simp
  then show ?thesis using assms(3,4) by simp
next
  case False
  note run = assms(2) [unfolded tryDevice_def Let_def if_not_P [OF False]]
  obtain ctx w1 where o: "ibv_open_device D i w = (ctx, w1)" by (rule prod.exhaust)
  obtain a w2 where q: "ibv_query_device D ctx w1 = (a, w2)" by (rule prod.exhaust)
  show ?thesis
  proof (cases "ctx = 0")
    case True
    then show ?thesis using run o ib_news(1) [OF assms(1) o] assms(3,4) by (simp add: makes_def)
  next
    case False
    have own1: "owns ib (ibHeld (ib w)) {RCtx ctx} w1" using owns_makes [OF ib_news(1) [OF assms(1) o] owns_start] False by simp
    have own2: "owns ib (ibHeld (ib w)) {RCtx ctx} w2" by (rule owns_cong [OF ib_calls(1) [OF assms(1) q] own1])
    note close = owns_close [OF assms(1)]
    show ?thesis
    proof (cases a)
      case None
      then show ?thesis using run o q False close [OF own2] assms(3,4) by simp
    next
      case (Some cnt)
      obtain f w3 where it: "iter (portStep D ctx cnt) (1, w2) = Some (f, w3)"
        "(dn, d', w') = (case f of None \<Rightarrow> (False, d, ibv_close_device D ctx w3)
           | Some (p, pa) \<Rightarrow> useDevice S D (ibv_get_device_name D i) ctx p pa d w3)"
        using run o q Some False by (auto simp: bind_eq_Some_conv)
      have own3: "owns ib (ibHeld (ib w)) {RCtx ctx} w3" by (rule owns_cong [OF ports_held [OF assms(1) it(1)] own2])
      show ?thesis
      proof (cases f)
        case None
        then show ?thesis using it(2) close [OF own3] assms(3,4) by simp
      next
        case (Some x)
        obtain p pa where x: "x = (p, pa)" by (rule prod.exhaust)
        show ?thesis using useDevice_owned [OF assms(1) _ own3 False assms(4)] it(2) Some x by (metis option.simps(5) case_prod_conv)
      qed
    qed
  qed
qed

lemma openDevice_owned:
  assumes "ibOwns S D ib" "openDevice S D nullDevice w = Some (res, d, w')"
  shows "owns ib (ibHeld (ib w)) (devHeld d) w' \<and> (res \<noteq> vcclSuccess \<longrightarrow> devHeld d = {})"
proof -
  have loop: "owns ib (ibHeld (ib u)) (devHeld d') u' \<and> (res \<noteq> vcclSuccess \<longrightarrow> devHeld d' = {})"
    if "deviceLoop S D is d u = Some (res, d', u')" "devCtx d = 0" "devPd d = 0" for "is" d u res d' u'
    using that
  proof (induction "is" arbitrary: d u)
    case (Cons i "is")
    obtain dn d1 u1 where t: "tryDevice S D i d u = Some (dn, d1, u1)" using Cons.prems(1) by (auto simp: bind_eq_Some_conv)
    note tr = tryDevice_owned [OF assms(1) t Cons.prems(2,3)]
    show ?case
    proof (cases dn)
      case False
      with tr Cons.prems(1) t Cons.IH [of d1 u1] show ?thesis by simp
    qed (use tr Cons.prems(1) t in auto)
  qed (simp add: owns_def devHeld_def)
  obtain l w1 where l: "ibv_get_device_list D w = (l, w1)" by force
  have "ib w1 = ib w" by (rule ib_calls(5) [OF assms(1) l])
  moreover have "devHeld nullDevice = {}" by (simp add: devHeld_def nullDevice_def)
  ultimately show ?thesis using assms(2) l loop [of _ nullDevice w1] ib_ends(5) [OF assms(1)]
    by (fastforce simp: openDevice_def owns_def nullDevice_def bind_eq_Some_conv split: option.splits if_splits)
qed

subsection \<open>Creating the queue pairs\<close>

lemma set_update_0: "p < length xs \<Longrightarrow> xs ! p = 0 \<Longrightarrow> x \<noteq> 0 \<Longrightarrow> set (xs[p := x]) - {0} = insert x (set xs - {0 :: nat})"
proof -
  assume a: "p < length xs" "xs ! p = 0" "x \<noteq> 0"
  then have "xs = take p xs @ 0 # drop (Suc p) xs" by (metis id_take_nth_drop)
  then have "set xs = insert 0 (set (take p xs) \<union> set (drop (Suc p) xs))" by (metis list.set(2) set_append Un_insert_right)
  moreover have "set (xs[p := x]) = insert x (set (take p xs) \<union> set (drop (Suc p) xs))" using a(1) by (simp add: upd_conv_take_nth_drop)
  ultimately show ?thesis using a(3) by auto
qed

text \<open>A transport whose entries for the peers \<open>ps\<close> are still empty.\<close>

definition fresh :: "nat list \<Rightarrow> VerbsTransport \<Rightarrow> bool" where
  "fresh ps v \<longleftrightarrow> (\<forall>p\<in>set ps. p < length (cqs v) \<and> p < length (qps v) \<and> cqs v ! p = 0 \<and> qps v ! p = 0)"

lemma createQp_owned:
  assumes "ibOwns S D ib" "createQp D p v w = (res, v', w')" "owns ib L (verbsHeld v) w" "fresh (p # ps) v" "p \<notin> set ps"
  shows "owns ib L (verbsHeld v') w' \<and> fresh ps v'"
proof -
  obtain cq w1 where c: "ibv_create_cq D (devCtx (dev v)) (2 * kQueueDepth) w = (cq, w1)" by (rule prod.exhaust)
  have own1: "owns ib L (if cq = 0 then verbsHeld v else insert (RCq cq) (verbsHeld v)) w1"
    by (rule owns_makes [OF ib_news(3) [OF assms(1) c] assms(3)]) (simp add: level_def)
  have fr: "p < length (cqs v)" "p < length (qps v)" "cqs v ! p = 0" "qps v ! p = 0" using assms(4) by (auto simp: fresh_def)
  show ?thesis
  proof (cases "cq = 0")
    case True
    then show ?thesis using assms(2,4) c own1 by (auto simp: createQp_def fresh_def)
  next
    case False
    define v1 where "v1 = v\<lparr>cqs := (cqs v)[p := cq]\<rparr>"
    have h1: "verbsHeld v1 = insert (RCq cq) (verbsHeld v)"
      using set_update_0 [OF fr(1,3) False] by (simp add: verbsHeld_def v1_def)
    obtain qp i w2 where q: "ibv_create_qp D (devPd (dev v)) cq kQueueDepth kWantInline w1 = ((qp, i), w2)" by (metis prod.exhaust)
    obtain qp' i' w3 where q': "(if qp = 0 then ibv_create_qp D (devPd (dev v)) cq kQueueDepth 0 w2 else ((qp, i), w2)) = ((qp', i'), w3)"
      by (metis prod.exhaust)
    have own2: "owns ib L (if qp = 0 then verbsHeld v1 else insert (RQp qp) (verbsHeld v1)) w2"
      by (rule owns_makes [OF ib_news(4) [OF assms(1) q]]) (use own1 False h1 in \<open>auto simp: level_def\<close>)
    have own3: "owns ib L (if qp' = 0 then verbsHeld v1 else insert (RQp qp') (verbsHeld v1)) w3"
    proof (cases "qp = 0")
      case True
      then have "ibv_create_qp D (devPd (dev v)) cq kQueueDepth 0 w2 = ((qp', i'), w3)" using q' by simp
      then show ?thesis by (rule owns_makes [OF ib_news(4) [OF assms(1)]]) (use own2 True in \<open>auto simp: level_def\<close>)
    qed (use own2 q' in auto)
    show ?thesis
    proof (cases "qp' = 0")
      case True
      then have "v' = v1" "w' = w3" using assms(2) c False q q' by (auto simp: createQp_def v1_def)
      then show ?thesis using own3 True assms(4,5) by (auto simp: fresh_def v1_def nth_list_update)
    next
      case nz: False
      define v2 where "v2 = v1\<lparr>qps := (qps v1)[p := qp'], maxInline := (maxInline v1)[p := i']\<rparr>"
      obtain acc w4 where m: "ibv_modify_qp D qp' (QpInit (devPort (dev v))) w3 = (acc, w4)" by (rule prod.exhaust)
      have "v' = v2" "w' = w4" using assms(2) c False q q' nz m by (auto simp: createQp_def v1_def v2_def)
      moreover have "verbsHeld v2 = insert (RQp qp') (verbsHeld v1)"
        using set_update_0 [of p "qps v" qp'] fr nz by (simp add: verbsHeld_def v1_def v2_def)
      moreover have "ib w4 = ib w3" by (rule ib_calls(4) [OF assms(1) m])
      ultimately show ?thesis using own3 nz assms(4,5) by (auto simp: owns_def fresh_def v1_def v2_def nth_list_update)
    qed
  qed
qed

lemma createQps_owned:
  "ibOwns S D ib \<Longrightarrow> createQps D seed r ps k infos v w = (res, infos', v', w') \<Longrightarrow> owns ib L (verbsHeld v) w \<Longrightarrow> fresh ps v \<Longrightarrow>
   distinct ps \<Longrightarrow> owns ib L (verbsHeld v') w'"
proof (induction ps arbitrary: k infos v w)
  case (Cons p ps)
  show ?case
  proof (cases "p = r")
    case True
    moreover have "fresh ps v" using Cons.prems(4) by (simp add: fresh_def)
    ultimately show ?thesis using Cons by simp
  next
    case False
    obtain res1 v1 w1 where c: "createQp D p v w = (res1, v1, w1)" by (metis prod_cases3)
    have "owns ib L (verbsHeld v1) w1 \<and> fresh ps v1"
      by (rule createQp_owned [OF Cons.prems(1) c Cons.prems(3,4)]) (use Cons.prems(5) in simp)
    then show ?thesis using Cons.IH [OF Cons.prems(1)] Cons.prems(2,5) False c by (auto simp: Let_def split: if_splits)
  qed
qed simp

lemma connectQps_held:
  "ibOwns S D ib \<Longrightarrow> connectQps S' D r n alls ps v w = (res, w') \<Longrightarrow> ib w' = ib w"
proof (induction ps arbitrary: w)
  case (Cons p ps)
  obtain e w1 where c: "connectQp S' D p (alls ! (r * n + p)) (alls ! (p * n + r)) v w = (e, w1)" by (rule prod.exhaust)
  have "ib w1 = ib w"
    using c ib_calls(4) [OF Cons.prems(1)] by (auto simp: connectQp_def split: prod.splits if_splits)
  then show ?case using Cons c by (auto split: if_splits)
qed simp

subsection \<open>The destructor\<close>

text \<open>Destroying the objects of a table when nothing of a higher level is held any more.\<close>

lemma destroy_fold:
  assumes f: "\<And>c w. ends ib (R c) w (f c w)" and k: "\<And>c. level (R c) = k"
  shows "owns ib L A w \<Longrightarrow> A \<subseteq> R ` (set xs - {0}) \<union> B \<Longrightarrow> B \<subseteq> A \<Longrightarrow> B \<inter> range R = {} \<Longrightarrow> R ` (set xs - {0}) \<inter> L = {} \<Longrightarrow>
    (\<And>y. y \<in> A \<Longrightarrow> level y \<le> k) \<Longrightarrow> owns ib L B (fold (\<lambda>c w. if c \<noteq> (0 :: nat) then f c w else w) xs w)"
proof (induction xs arbitrary: A w)
  case (Cons c xs)
  show ?case
  proof (cases "c = 0")
    case True
    then show ?thesis using Cons by auto
  next
    case False
    have "owns ib L (A - {R c}) (f c w)"
    proof (cases "R c \<in> A")
      case True
      then show ?thesis using owns_drop [OF Cons.prems(1) True _ f] Cons.prems(6) k by simp
    next
      case out: False
      then show ?thesis using owns_unheld [OF _ out Cons.prems(1) f] Cons.prems(5) False by auto
    qed
    then have "owns ib L B (fold (\<lambda>c w. if c \<noteq> 0 then f c w else w) xs (f c w))"
      by (rule Cons.IH) (use Cons.prems False in auto)
    then show ?thesis using False by simp
  qed
qed auto

lemma verbsDestroy_held:
  assumes "ibOwns S D ib" "owns ib L (verbsHeld v) w" "regions v = []"
  shows "ibHeld (ib (verbsDestroy B D v w)) = L"
proof -
  let ?w2 = "fold (\<lambda>q w. if q \<noteq> 0 then ibv_destroy_qp D q w else w) (qps v) w"
  let ?w3 = "fold (\<lambda>c w. if c \<noteq> 0 then ibv_destroy_cq D c w else w) (cqs v) ?w2"
  let ?w4 = "if devPd (dev v) \<noteq> 0 then ibv_dealloc_pd D (devPd (dev v)) ?w3 else ?w3"
  let ?ctx = "if devCtx (dev v) \<noteq> 0 then {RCtx (devCtx (dev v))} else {}"
  have L: "L \<inter> verbsHeld v = {}" using assms(2) by (simp add: owns_def)
  have dev: "\<And>y. y \<in> devHeld (dev v) \<Longrightarrow> level y \<le> 1" "devHeld (dev v) \<inter> range RQp = {}" "devHeld (dev v) \<inter> range RCq = {}"
    by (auto simp: devHeld_def level_def split: if_splits)
  have Lq: "RQp ` (set (qps v) - {0}) \<inter> L = {}" and Lc: "RCq ` (set (cqs v) - {0}) \<inter> L = {}" using L by (auto simp: verbsHeld_def)
  have 2: "owns ib L (devHeld (dev v) \<union> RCq ` (set (cqs v) - {0})) ?w2"
  proof (rule destroy_fold [where R = RQp and f = "ibv_destroy_qp D" and k = 2, OF ib_ends(4) [OF assms(1)] _ assms(2) _ _ _ Lq])
    show "level (RQp c) = 2" for c by (simp add: level_def)
    show "y \<in> verbsHeld v \<Longrightarrow> level y \<le> 2" for y by (simp add: level_def split: ibres.splits)
    show "(devHeld (dev v) \<union> RCq ` (set (cqs v) - {0})) \<inter> range RQp = {}" using dev(2) by auto
  qed (auto simp: verbsHeld_def)
  have 3: "owns ib L (devHeld (dev v)) ?w3"
  proof (rule destroy_fold [where R = RCq and f = "ibv_destroy_cq D" and k = 1, OF ib_ends(3) [OF assms(1)] _ 2 _ _ dev(3) Lc])
    show "level (RCq c) = 1" for c by (simp add: level_def)
    show "level y \<le> 1" if "y \<in> devHeld (dev v) \<union> RCq ` (set (cqs v) - {0})" for y
      using that dev(1) by (auto simp: level_def)
  qed auto
  have 4: "owns ib L ?ctx ?w4"
  proof (cases "devPd (dev v) = 0")
    case False
    then have "devHeld (dev v) - {RPd (devPd (dev v))} = ?ctx" by (auto simp: devHeld_def)
    moreover have "owns ib L (devHeld (dev v) - {RPd (devPd (dev v))}) (ibv_dealloc_pd D (devPd (dev v)) ?w3)"
      by (rule owns_drop [OF 3 _ _ ib_ends(2) [OF assms(1)]]) (use False dev(1) in \<open>auto simp: devHeld_def level_def split: if_splits\<close>)
    ultimately show ?thesis using False by simp
  next
    case True
    then have "devHeld (dev v) = ?ctx" by (simp add: devHeld_def)
    then show ?thesis using 3 True by simp
  qed
  have "ibHeld (ib (if devCtx (dev v) \<noteq> 0 then ibv_close_device D (devCtx (dev v)) ?w4 else ?w4)) = L"
    using 4 owns_close [OF assms(1), of L "devCtx (dev v)" ?w4] by (cases "devCtx (dev v) = 0") (simp_all add: owns_def)
  then show ?thesis by (simp only: verbsDestroy_def Let_def assms(3) fold_simps)
qed

subsection \<open>Creation\<close>

lemma recvs_quietly:
  assumes "quietly S R"
  shows "bsRecvs S fds k rs b w = Some (e, b', w') \<Longrightarrow> R w w'"
proof (induction rs arbitrary: b w)
  case (Cons r rs)
  obtain e1 g w1 where c: "recvAll S (fds ! r) k w = Some (e1, g, w1)" using Cons.prems by (auto simp: bind_eq_Some_conv)
  then show ?case using Cons recvAll_quietly [OF assms c] quietly_calls(2) [OF assms] by (auto simp: Let_def split: if_splits)
qed (simp add: quietly_calls(1) [OF assms])

lemma sends_quietly:
  assumes "quietly S R"
  shows "bsSends S fds rs b w = Some (e, w') \<Longrightarrow> R w w'"
proof (induction rs arbitrary: w)
  case (Cons r rs)
  obtain e1 w1 where c: "sendAll S (fds ! r) b w = Some (e1, w1)" using Cons.prems by (auto simp: bind_eq_Some_conv)
  then show ?case using Cons sendAll_quietly [OF assms c] quietly_calls(2) [OF assms] by (auto split: if_splits)
qed (simp add: quietly_calls(1) [OF assms])

lemma gather_quietly:
  assumes "quietly S R" "bsAllGather S bs b k w = Some (e, b', w')"
  shows "R w w'"
proof (cases "bsRank bs = 0")
  case True
  then obtain e1 b1 w1 where r: "bsRecvs S (peerFds bs) k [1..<bsNranks bs] b w = Some (e1, b1, w1)"
    "w' = w1 \<or> (\<exists>e2. bsSends S (peerFds bs) [1..<bsNranks bs] (take (k * bsNranks bs) b1) w1 = Some (e2, w'))"
    using assms(2) by (auto simp: bsAllGather_def bind_eq_Some_conv split: if_splits)
  have "R w1 w'" using r(2) sends_quietly [OF assms(1)] quietly_calls(1) [OF assms(1)] by metis
  then show ?thesis by (rule quietly_calls(2) [OF assms(1) recvs_quietly [OF assms(1) r(1)]])
next
  case False
  then obtain e1 w1 where r: "sendAll S (rootFd bs) (take k (drop (bsRank bs * k) b)) w = Some (e1, w1)"
    "w' = w1 \<or> (\<exists>e2 g. recvAll S (rootFd bs) (k * bsNranks bs) w1 = Some (e2, g, w'))"
    using assms(2) by (auto simp: bsAllGather_def bind_eq_Some_conv split: if_splits)
  have "R w1 w'" using r(2) recvAll_quietly [OF assms(1)] quietly_calls(1) [OF assms(1)] by metis
  then show ?thesis by (rule quietly_calls(2) [OF assms(1) sendAll_quietly [OF assms(1) r(1)]])
qed

lemma createQps_regions: "createQps D seed r ps k infos v w = (res, infos', v', w') \<Longrightarrow> regions v' = regions v"
proof (induction ps arbitrary: k infos v w)
  case (Cons p ps)
  obtain res1 v1 w1 where c: "createQp D p v w = (res1, v1, w1)" by (metis prod_cases3)
  then have "regions v1 = regions v" by (auto simp: createQp_def Let_def split: prod.splits if_splits)
  then show ?case using Cons c by (auto simp: Let_def split: if_splits)
qed simp

text \<open>An attempt that fails leaves nothing behind; one that succeeds holds exactly what the tables of the new transport
  say.\<close>

lemma verbsCreate_owned:
  assumes "ibOwns S D ib" "verbsTransportCreate S B D bs w = Some (res, vo, w')"
  shows "case vo of None \<Rightarrow> res \<noteq> vcclSuccess \<and> ibHeld (ib w') = ibHeld (ib w)
    | Some v \<Rightarrow> res = vcclSuccess \<and> ibHeld (ib w') = ibHeld (ib w) \<union> verbsHeld v \<and> ibHeld (ib w) \<inter> verbsHeld v = {}"
proof -
  let ?r = "bsRank bs" and ?n = "bsNranks bs"
  have quiet: "quietly S (\<lambda>w w'. ib w' = ib w)" using assms(1) by (simp add: ibOwns_def)
  have gone: "ibHeld (ib (verbsDestroy B D v x)) = ibHeld (ib w)" if "owns ib (ibHeld (ib w)) (verbsHeld v) x" "regions v = []" for v x
    using verbsDestroy_held [OF assms(1) that] .
  have new: "verbsHeld (newVerbs D k d) = devHeld d" "regions (newVerbs D k d) = []" for k d
    by (auto simp: verbsHeld_def newVerbs_def)
  obtain e1 d w1 where o: "openDevice S D nullDevice w = Some (e1, d, w1)" using assms(2) by (auto simp: verbsTransportCreate_def bind_eq_Some_conv)
  note own1 = openDevice_owned [OF assms(1) o]
  show ?thesis
  proof (cases "e1 = vcclSuccess")
    case False
    then show ?thesis using assms(2) o gone [of "newVerbs D 0 d" w1] own1 new by (auto simp: verbsTransportCreate_def)
  next
    case True
    obtain seed w2 where s: "sys_random S w1 = (seed, w2)" by (rule prod.exhaust)
    obtain e2 infos v w3 where c: "createQps D seed ?r [0..<?n] 0 (replicate ?n zeroQp) (newVerbs D ?n d) w2 = (e2, infos, v, w3)"
      by (metis prod_cases4)
    have own3: "owns ib (ibHeld (ib w)) (verbsHeld v) w3"
      by (rule createQps_owned [OF assms(1) c])
        (use own1 ib_calls(6) [OF assms(1) s] new(1) in \<open>auto simp: owns_def fresh_def newVerbs_def\<close>)
    have rg: "regions v = []" using createQps_regions [OF c] new(2) by simp
    let ?b = "patch (replicate (?n * (28 * ?n)) 0) (?r * (28 * ?n)) (qpRow ?r infos)"
    note run = assms(2) o True s c
    show ?thesis
    proof (cases "e2 = vcclSuccess")
      case False
      then show ?thesis using run gone [OF own3 rg] by (auto simp: verbsTransportCreate_def Let_def)
    next
      case e2: True
      obtain e3 b w4 where g: "bsAllGather S bs ?b (28 * ?n) w3 = Some (e3, b, w4)"
        using run e2 by (auto simp: verbsTransportCreate_def Let_def bind_eq_Some_conv)
      have own4: "owns ib (ibHeld (ib w)) (verbsHeld v) w4" using own3 gather_quietly [OF quiet g] by (simp add: owns_def)
      obtain e4 w5 where k: "connectQps S D ?r ?n (qpTable ?n b) [0..<?n] v w4 = (e4, w5)" by (rule prod.exhaust)
      have own5: "owns ib (ibHeld (ib w)) (verbsHeld v) w5" using own4 connectQps_held [OF assms(1) k] by (simp add: owns_def)
      show ?thesis
      proof (cases "e3 = vcclSuccess \<and> e4 = vcclSuccess")
        case False
        then show ?thesis using run e2 g k gone [OF own4 rg] gone [OF own5 rg]
          by (auto simp: verbsTransportCreate_def Let_def split: if_splits)
      next
        case True
        obtain e5 w6 where z: "bsBarrier S bs w5 = Some (e5, w6)"
          using run e2 g k True by (auto simp: verbsTransportCreate_def Let_def bind_eq_Some_conv)
        have "ib w6 = ib w5" using z gather_quietly [OF quiet] by (auto simp: bsBarrier_def bind_eq_Some_conv)
        then have own6: "owns ib (ibHeld (ib w)) (verbsHeld v) w6" using own5 by (simp add: owns_def)
        show ?thesis
        proof (cases "e5 = vcclSuccess")
          case ok: True
          have "vo = Some v \<and> res = vcclSuccess \<and> w' = w6" using run e2 g k True z ok by (simp add: verbsTransportCreate_def Let_def)
          then show ?thesis using own6 by (simp add: owns_def)
        next
          case bad: False
          have "vo = None \<and> res = e5 \<and> w' = verbsDestroy B D v w6" using run e2 g k True z bad by (simp add: verbsTransportCreate_def Let_def)
          then show ?thesis using gone [OF own6 rg] bad by simp
        qed
      qed
    qed
  qed
qed

end
