(* ===== verification/Vccl_Rdma.thy ===== *)
theory Vccl_Rdma
  imports Vccl_Verbs_Spec Vccl_Verbs_Safe Vccl_Verbs_Owner Vccl_Network
begin

text \<open>
  Properties of the verbs transport. The witnesses run on \<open>rIbv\<close> and \<open>rDev\<close>, an adapter that works when a completion queue
  is polled: it then sends what was posted, delivers one scripted message, and reports everything completed.
\<close>

subsection \<open>An adapter for the witnesses\<close>

record rWorld =
  rNic :: nic
  rIn :: "nat \<Rightarrow> byte list list"
  rMrs :: "nat list"
  rHeld :: "ibres list"
  rUses :: "(ibres \<times> ibres) list"
  rTime :: int

definition freshMr :: "rWorld \<Rightarrow> nat" where
  "freshMr w = Suc (foldr max (rMrs w) 0)"

definition flushSend :: "nat \<Rightarrow> nic \<Rightarrow> nic" where
  "flushSend q x = x\<lparr>nSq := (nSq x)(q := []), nSent := (nSent x)(q := nSent x q @ map (reqData (nMem x)) (nSq x q))\<rparr>"

definition deliver :: "nat \<Rightarrow> byte list list \<Rightarrow> nic \<Rightarrow> nic" where
  "deliver q ds x =
     (case (nRq x q, ds) of
        ((a, n) # rs, d # _) \<Rightarrow>
          if length d \<le> n then x\<lparr>nRq := (nRq x)(q := rs), nMem := wr (nMem x) a d, nGot := (nGot x)(q := nGot x q @ [d])\<rparr> else x
      | _ \<Rightarrow> x)"

definition rPoll :: "nat \<Rightarrow> nat \<Rightarrow> rWorld \<Rightarrow> ibv_wc list option \<times> rWorld" where
  "rPoll q k w =
     (let x = deliver q (rIn w q) (flushSend q (rNic w)); s = length (nSent x q) - nSrep x q; r = length (nGot x q) - nRrep x q;
          w' = w\<lparr>rIn := (rIn w)(q := tl (rIn w q)), rTime := rTime w + 1\<rparr> in
      if nSrep x q > length (nSent x q) \<or> nRrep x q > length (nGot x q) then (None, w')
      else (Some (replicate s \<lparr>wcSuccess = True, wcRecv = False\<rparr> @ replicate r \<lparr>wcSuccess = True, wcRecv = True\<rparr>),
            w'\<lparr>rNic := report q s r x\<rparr>))"

definition rIbv :: "rWorld ibv" where
  "rIbv = \<lparr>
     ibv_reg = (\<lambda>_ _ _ w. (freshMr w, w\<lparr>rMrs := freshMr w # rMrs w\<rparr>)),
     ibv_dereg_mr = (\<lambda>x w. w\<lparr>rMrs := filter (\<lambda>y. y \<noteq> x) (rMrs w)\<rparr>), ibv_lkey = (\<lambda>x. x),
     ibv_post_send = (\<lambda>q i e w. (True, w\<lparr>rNic := sendPost q i (sgeAddr e) (sgeLength e) (rNic w)\<rparr>)),
     ibv_post_recv = (\<lambda>q e w. (True, w\<lparr>rNic := recvPost q (sgeAddr e) (sgeLength e) (rNic w)\<rparr>)),
     ibv_poll_cq = rPoll, ibv_async_ready = (\<lambda>_ w. (False, w)), ibv_get_async_event = (\<lambda>_ w. (None, w)), ibv_ack_async_event = (\<lambda>w. w),
     host_mem = (\<lambda>w. nMem (rNic w)), host_put = (\<lambda>a d w. w\<lparr>rNic := (rNic w)\<lparr>nMem := wr (nMem (rNic w)) a d\<rparr>\<rparr>)\<rparr>"

definition rSys :: "rWorld sys" where
  "rSys = \<lparr>
     sys_send = (\<lambda>_ _ w. (Fail EOther, w)), sys_recv = (\<lambda>_ _ w. (RFail EOther, w)), sys_poll = (\<lambda>_ _ w. (PFail EOther, w)),
     sys_clock = (\<lambda>w. (rTime w, w)), sys_socket = (\<lambda>_ w. (FdFail EOther, w)), sys_connect = (\<lambda>_ _ w. (False, w)),
     sys_bind = (\<lambda>_ _ w. (False, w)), sys_listen = (\<lambda>_ w. (False, w)), sys_getsockname = (\<lambda>_ w. (None, w)),
     sys_accept = (\<lambda>_ w. (FdFail EOther, w)), sys_close = (\<lambda>_ w. w), sys_shutdown = (\<lambda>_ w. w), sys_sleep = (\<lambda>_ w. w),
     sys_getifaddrs = (\<lambda>_. None), sys_inet_pton4 = (\<lambda>_. None), sys_inet_pton6 = (\<lambda>_. None), sys_getenv = (\<lambda>_. None),
     sys_blocks = (\<lambda>_ _ _. False), sys_nonblock = (\<lambda>_ w. w), sys_random = (\<lambda>w. (7, w))\<rparr>"

lemma nicRuns_flush: "nicRuns x (flushSend q x)"
proof (induction "nSq x q" arbitrary: x)
  case Nil
  then have "flushSend q x = x" by (cases x) (auto simp: flushSend_def)
  then show ?case by simp
next
  case (Cons s ss)
  let ?y = "x\<lparr>nSq := (nSq x)(q := ss), nSent := (nSent x)(q := nSent x q @ [reqData (nMem x) s])\<rparr>"
  have "nicStep x ?y" by (rule nicStep.sent) (simp add: Cons(2) [symmetric])
  moreover have "nicRuns ?y (flushSend q ?y)" by (rule Cons(1)) simp
  moreover have "flushSend q ?y = flushSend q x" by (simp add: flushSend_def Cons(2) [symmetric])
  ultimately show ?case by (simp add: converse_rtranclp_into_rtranclp)
qed

lemma nicRuns_deliver: "nicRuns x (deliver q ds x)"
  by (auto simp: deliver_def intro: nicStep.got split: list.splits)

lemma rPoll_ok:
  assumes "rPoll q k w = (Some ws, w')"
  shows "\<exists>x. nicRuns (rNic w) x \<and> nSrep x q + sendWcs ws \<le> length (nSent x q) \<and> nRrep x q + recvWcs ws \<le> length (nGot x q) \<and>
    nicRuns (report q (sendWcs ws) (recvWcs ws) x) (rNic w')"
proof -
  let ?x = "deliver q (rIn w q) (flushSend q (rNic w))"
  have "nicRuns (rNic w) ?x" using nicRuns_flush nicRuns_deliver by (rule rtranclp_trans)
  moreover have "sendWcs ws = length (nSent ?x q) - nSrep ?x q" "recvWcs ws = length (nGot ?x q) - nRrep ?x q"
      "nSrep ?x q \<le> length (nSent ?x q)" "nRrep ?x q \<le> length (nGot ?x q)" "rNic w' = report q (sendWcs ws) (recvWcs ws) ?x"
    using assms by (auto simp: rPoll_def Let_def sendWcs_def recvWcs_def split: if_splits)
  ultimately show ?thesis by (intro exI [of _ ?x]) simp
qed

lemma rIbv_rdma: "rdma rSys rIbv (\<lambda>c. c) rNic"
  unfolding rdma_def using rPoll_ok by (auto simp: rIbv_def rSys_def acts_def)

lemma freshMr_new: "freshMr w \<notin> set (rMrs w)"
proof -
  have "x \<le> foldr max xs 0" if "x \<in> set xs" for x :: nat and xs using that by (induction xs) auto
  then show ?thesis by (fastforce simp: freshMr_def)
qed

lemma rIbv_mrs: "mrLaws rSys rIbv (\<lambda>w. set (rMrs w))"
  using freshMr_new by (auto simp: mrLaws_def rIbv_def rSys_def rPoll_def Let_def) (simp_all add: freshMr_def)

lemma rIbv_timed: "ibTimed rSys rIbv rTime (\<lambda>_. 0)"
  by (auto simp: ibTimed_def rIbv_def rSys_def rPoll_def Let_def split: if_splits)

definition rNic0 :: "mem \<Rightarrow> nic" where
  "rNic0 m = \<lparr>nMem = m, nSq = (\<lambda>_. []), nRq = (\<lambda>_. []), nSent = (\<lambda>_. []), nGot = (\<lambda>_. []), nSrep = (\<lambda>_. 0), nRrep = (\<lambda>_. 0)\<rparr>"

definition rWorld0 :: "mem \<Rightarrow> byte list list \<Rightarrow> rWorld" where
  "rWorld0 m ds = \<lparr>rNic = rNic0 m, rIn = (\<lambda>_. ds), rMrs = [], rHeld = [], rUses = [], rTime = 0\<rparr>"

definition rDevice :: Device where
  "rDevice = \<lparr>devCtx = 1, devPd = 1, devPort = 1, devLid = 0, devMtu = 5, devGidLen = 0, devGidIndex = 0, devGid = replicate 16 0, devRoce = True\<rparr>"

definition rVerbs :: "nat \<Rightarrow> VerbsTransport" where
  "rVerbs r = \<lparr>regions = [], next_node = 1, ibv_reg_mr = (\<lambda>_ _. 1), ibv_reg_dmabuf_mr = (\<lambda>_ _ _. 1), dev = rDevice,
     cqs = (if r = 0 then [0, 5] else [5, 0]), qps = (if r = 0 then [0, 5] else [5, 0]), maxInline = [0, 0], prePostedRecv = [[], []],
     recvSurplus = [0, 0], asyncFatal = False, pendingCopyback = [], tempMrs = []\<rparr>"

subsection \<open>The data path\<close>

text \<open>C29: The verbs transport refines the transport contract. Ranks whose batches match, each with its own adapter, over reliable
  connections between their queue pairs (a queue pair receives a prefix of what the other end has sent), without staging
  buffers and pre-posted receives and with inline sends of at most one segment: when the batches return success,
  every receive buffer holds the message of the matching send in issue order
  and the rest of memory is unchanged, however the adapters interleave their work with that of the program and however
  large the messages are, so however many segments and waves they take.\<close>

theorem verbs_refines_contract:
  assumes "\<And>r. r < n \<Longrightarrow> rdmaReady (S r) (B r) (att r) (N r) n (v r)" "batchOk n c ops"
    and "\<And>r. r < n \<Longrightarrow> settled (N r (w r)) \<and> nMem (N r (w r)) = mem (c r)"
    and "\<And>r. r < n \<Longrightarrow> verbsBatch (S r) (B r) (ab r) (ops r) (v r) (w r) = Some (vcclSuccess, v' r, w' r)"
    and "\<And>i j. i < n \<Longrightarrow> j < n \<Longrightarrow> i \<noteq> j \<Longrightarrow> nGot (N j (w j)) (qps (v j) ! i) = nSent (N i (w i)) (qps (v i) ! j)"
    and "\<And>i j. i < n \<Longrightarrow> j < n \<Longrightarrow> i \<noteq> j \<Longrightarrow> \<exists>rest. nSent (N i (w' i)) (qps (v i) ! j) = nGot (N j (w' j)) (qps (v j) ! i) @ rest"
    and "j < n"
  shows "exchanged n c ops j (nMem (N j (w' j)))"
  by (rule verbs_exchange [OF assms])

definition rOps :: "nat \<Rightarrow> P2pOp list" where
  "rOps r = [\<lparr>isSend = True, peer = 1 - r, buf = 8, bytes = 2\<rparr>, \<lparr>isSend = False, peer = 1 - r, buf = 16, bytes = 2\<rparr>]"

definition rStart :: "nat \<Rightarrow> rWorld" where
  "rStart r = rWorld0 (mem (exCtx 2 r)) [rd (mem (exCtx 2 (1 - r))) 8 2]"

definition rDone :: "nat \<Rightarrow> rWorld" where
  "rDone r = (rStart r)\<lparr>rNic := \<lparr>nMem = wr (mem (exCtx 2 r)) 16 (rd (mem (exCtx 2 (1 - r))) 8 2), nSq = \<lambda>_. [], nRq = \<lambda>_. [],
       nSent = (\<lambda>_. [])(5 := [rd (mem (exCtx 2 r)) 8 2]), nGot = (\<lambda>_. [])(5 := [rd (mem (exCtx 2 (1 - r))) 8 2]),
       nSrep = (\<lambda>_. 0)(5 := 1), nRrep = (\<lambda>_. 0)(5 := 1)\<rparr>, rIn := (rIn (rStart r))(5 := []), rTime := 1\<rparr>"

lemma segments_one: "0 < n \<Longrightarrow> n \<le> kMaxSegBytes \<Longrightarrow> segments n = [(0, n)]"
proof -
  assume n: "0 < n" "n \<le> kMaxSegBytes"
  then have "(n + kMaxSegBytes - 1) div kMaxSegBytes = 1" by (intro div_nat_eqI) auto
  then show ?thesis using n by (simp add: segments_def)
qed

lemma rOps_posted:
  assumes "r < 2"
  shows "postWave rIbv (rOps r) (\<lambda>_. 0) (rVerbs r) (rStart r) =
    (vcclSuccess, (\<lambda>_. 0)((1 - r, True) := 1, (1 - r, False) := 1), (rVerbs r)\<lparr>tempMrs := [1, 2]\<rparr>,
     (rStart r)\<lparr>rMrs := [2, 1], rNic := recvPost 5 16 2 (sendPost 5 False 8 2 (rNic (rStart r)))\<rparr>)"
proof -
  have seg: "segments 2 = [(0, 2)]" by (rule segments_one) (simp_all add: kMaxSegBytes_def)
  consider "r = 0" | "r = 1" using assms by linarith
  then show ?thesis
    by cases (simp_all add: rOps_def postSend_def postRecv_def resolve_def rVerbs_def rIbv_def seg sgeOf_def u32_def opKey_def
      rStart_def rWorld0_def freshMr_def)
qed

lemma rOps_polled:
  assumes "r < 2"
  shows "pollOnce rIbv ((rVerbs r)\<lparr>tempMrs := [1, 2]\<rparr>) (1 - r)
      ((rStart r)\<lparr>rMrs := [2, 1], rNic := recvPost 5 16 2 (sendPost 5 False 8 2 (rNic (rStart r)))\<rparr>) =
    (vcclSuccess, 1, 1, (rDone r)\<lparr>rMrs := [2, 1]\<rparr>)"
proof -
  have q: "cqs (rVerbs r) ! (Suc 0 - r) = 5" using assms by (auto simp: rVerbs_def less_2_cases_iff)
  have triv: "(\<lambda>_. x)(k := x) = (\<lambda>_. x)" for x :: "'b list" and k :: nat by auto
  show ?thesis
    by (simp add: pollOnce_def q triv rIbv_def rPoll_def Let_def flushSend_def deliver_def report_def sendPost_def recvPost_def rStart_def
        rDone_def rWorld0_def rNic0_def reqData_def)
qed

lemma rIbv_run:
  assumes "r < 2"
  shows "verbsBatch rSys rIbv (\<lambda>_. False) (rOps r) (rVerbs r) (rStart r) = Some (vcclSuccess, rVerbs r, rDone r)"
proof -
  have all: "waveEnd (rOps r) = 2" "wavePeers (rOps r) = [1 - r]" "length (rOps r) = 2" "rOps r \<noteq> []"
    by (simp_all add: waveEnd_def wavePeers_def rOps_def needed_def kMaxSegBytes_def kQueueDepth_def opKey_def)
  have calls: "sys_getenv rSys = (\<lambda>_. None)" "sys_clock rSys = (\<lambda>w. (rTime w, w))" "ibv_async_ready rIbv = (\<lambda>_ w. (False, w))"
    "ibv_dereg_mr rIbv = (\<lambda>x w. w\<lparr>rMrs := filter (\<lambda>y. y \<noteq> x) (rMrs w)\<rparr>)" by (simp_all add: rSys_def rIbv_def)
  have idle: "(rVerbs r)\<lparr>tempMrs := []\<rparr> = rVerbs r" "(rVerbs r)\<lparr>pendingCopyback := [], tempMrs := []\<rparr> = rVerbs r" "pendingCopyback (rVerbs r) = []"
    "asyncFatal (rVerbs r) = False" "(rDone r)\<lparr>rMrs := []\<rparr> = rDone r"
    by (simp_all add: rVerbs_def rDone_def rStart_def rWorld0_def)
  have "verbsWave rSys rIbv (\<lambda>_. False) (rOps r) (rVerbs r) (rStart r) = Some (vcclSuccess, rVerbs r, rDone r)"
    by (simp add: verbsWave_def rOps_posted [OF assms] newDeadline_def timeoutSeconds_def calls iterO.simps waveStep_def all idle
      waiting_def rOps_polled [OF assms, simplified] Let_def checkWait_def drainAsyncFatal_def iter_def asyncStep_def drained_def
      drainCompleted_def releaseMrs_def)
  then show ?thesis by (simp add: verbsBatch_def guarded_def verbsWaves.simps all)
qed

theorem verbs_refines_contract_witness:
  "exchanged 2 (exCtx 2) rOps 0 (nMem (rNic (rDone 0)))"
proof (rule verbs_refines_contract [where S = "\<lambda>_. rSys" and B = "\<lambda>_. rIbv" and att = "\<lambda>_ c. c" and N = "\<lambda>_. rNic" and v = rVerbs and v' = rVerbs
      and w = rStart and w' = rDone and ab = "\<lambda>_ _. False"])
  show "rdmaReady rSys rIbv (\<lambda>c. c) rNic 2 (rVerbs r)" if "r < 2" for r
    using rIbv_rdma that by (auto simp: rdmaReady_def wired_def plain_def rVerbs_def less_2_cases_iff)
  show "batchOk 2 (exCtx 2) rOps"
    by (auto simp: batchOk_def rOps_def sendsTo_def recvsFrom_def disj_def less_2_cases_iff)
  show "verbsBatch rSys rIbv (\<lambda>_. False) (rOps r) (rVerbs r) (rStart r) = Some (vcclSuccess, rVerbs r, rDone r)" if "r < 2" for r
    using that by (rule rIbv_run)
qed (auto simp: rStart_def rDone_def rWorld0_def rNic0_def settled_def rVerbs_def less_2_cases_iff)

text \<open>The call returned, nothing is pending in the transport, and the memory regions are those there were.\<close>

definition ended :: "('w \<Rightarrow> mr set) \<Rightarrow> 'w \<Rightarrow> (vcclResult_t \<times> VerbsTransport \<times> 'w) option \<Rightarrow> bool" where
  "ended live w r \<longleftrightarrow> (\<exists>e v' w'. r = Some (e, v', w') \<and> clean v' \<and> live w' = live w)"

lemma endedI:
  assumes "r \<noteq> None" "clean v" "\<And>e v' w'. r = Some (e, v', w') \<Longrightarrow> others live (v', w') = others live (v, w) \<and> clean v'"
  shows "ended live w r"
  using assms by (auto simp: ended_def others_def clean_def)

text \<open>C30: Verbs operations end and release what they took. With the watchdog on and an adapter that reports finitely many
  asynchronous events, on a transport with no receive pending, every send, receive, \<open>sendRecv\<close> and batch, of whatever size,
  returns in all cases (abort, posting errors, failed completions and timeouts included), and afterwards exactly the memory
  regions are alive that were before and no copy out of a staging buffer is pending. \<open>postRecvs\<close> returns too: when it
  fails it has released everything it took, and when it succeeds the regions alive in addition are exactly the
  temporary ones of the announced receives, which the transport keeps for them.\<close>

theorem verbs_operations_end:
  assumes "mrLaws S B live" "ibTimed S B time events" "0 < timeoutSeconds (sys_getenv S)" "clean v"
  shows "ended live w (verbsSend S B ab p b n v w) \<and> ended live w (verbsRecv S B ab p b n v w) \<and>
    ended live w (verbsSendRecv S B ab sp sb sn rp rb rn v w) \<and> ended live w (verbsBatch S B ab ops v w) \<and>
    (\<exists>e v' w'. verbsPostRecvs B reqs v w = Some (e, v', w') \<and>
       (if e = vcclSuccess then live w' = live w \<union> set (tempMrs v') \<and> live w \<inter> set (tempMrs v') = {}
        else clean v' \<and> live w' = live w))"
proof (intro conjI)
  note ret = verbs_return [OF assms(2,3)]
  have zero: "ended live w (Some (e, v, w))" for e using assms(4) by (simp add: ended_def)
  show "ended live w (verbsSend S B ab p b n v w)"
  proof (cases "n = 0")
    case False
    then show ?thesis by (intro endedI [OF ret(1) assms(4) verbsSend_clean [OF assms(1)]]) auto
  qed (simp add: verbsSend_def zero)
  show "ended live w (verbsRecv S B ab p b n v w)"
  proof (cases "n = 0")
    case False
    then show ?thesis by (intro endedI [OF ret(2) assms(4) verbsRecv_clean [OF assms(1)]]) auto
  qed (simp add: verbsRecv_def zero)
  show "ended live w (verbsSendRecv S B ab sp sb sn rp rb rn v w)" by (rule endedI [OF ret(4) assms(4) verbsSendRecv_clean [OF assms(1)]])
  show "ended live w (verbsBatch S B ab ops v w)"
  proof (cases "ops = []")
    case False
    then show ?thesis by (intro endedI [OF ret(3) assms(4) verbsBatch_clean [OF assms(1)]]) auto
  qed (simp add: verbsBatch_def guarded_def verbsWaves.simps [of S B ab "[]"] zero)
  have "verbsPostRecvs B reqs v w \<noteq> None" by (simp add: verbsPostRecvs_def guarded_def del: not_None_eq)
  then obtain e v' w' where post: "verbsPostRecvs B reqs v w = Some (e, v', w')" by (metis not_None_eq prod_cases3)
  with verbsPostRecvs_live [OF assms(1) post assms(4)] show "\<exists>e v' w'. verbsPostRecvs B reqs v w = Some (e, v', w') \<and>
       (if e = vcclSuccess then live w' = live w \<union> set (tempMrs v') \<and> live w \<inter> set (tempMrs v') = {}
        else clean v' \<and> live w' = live w)" by blast
qed

theorem verbs_operations_end_witness:
  "ended (\<lambda>w. set (rMrs w)) (rStart 0) (verbsSend rSys rIbv (\<lambda>_. False) 1 8 2 (rVerbs 0) (rStart 0)) \<and>
   ended (\<lambda>w. set (rMrs w)) (rStart 0) (verbsRecv rSys rIbv (\<lambda>_. False) 1 8 2 (rVerbs 0) (rStart 0)) \<and>
   ended (\<lambda>w. set (rMrs w)) (rStart 0) (verbsSendRecv rSys rIbv (\<lambda>_. False) 1 8 2 0 16 2 (rVerbs 0) (rStart 0)) \<and>
   ended (\<lambda>w. set (rMrs w)) (rStart 0) (verbsBatch rSys rIbv (\<lambda>_. False) (rOps 0) (rVerbs 0) (rStart 0)) \<and>
   (\<exists>e v' w'. verbsPostRecvs rIbv [\<lparr>rqPeer = 1, rqBuf = 16, rqBytes = 2\<rparr>] (rVerbs 0) (rStart 0) = Some (e, v', w') \<and>
      (if e = vcclSuccess then set (rMrs w') = set (rMrs (rStart 0)) \<union> set (tempMrs v') \<and> set (rMrs (rStart 0)) \<inter> set (tempMrs v') = {}
       else clean v' \<and> set (rMrs w') = set (rMrs (rStart 0))))"
  by (rule verbs_operations_end [OF rIbv_mrs rIbv_timed]) (simp_all add: rSys_def timeoutSeconds_def clean_def rVerbs_def)

text \<open>One operation of more than \<open>kQueueDepth\<close> segments is a wave of its own and exceeds the depth of the queue pair.\<close>

lemma oversized_wave:
  "waveEnd [\<lparr>isSend = True, peer = 1, buf = 0, bytes = 129 * 2 ^ 30\<rparr>] = 1 \<and>
   kQueueDepth < length (segments (129 * 2 ^ 30))"
  by (simp add: waveEnd_def needed_def segments_def kMaxSegBytes_def kQueueDepth_def)

subsection \<open>Creation\<close>

text \<open>C31: Creating a verbs transport loses nothing. When it fails, at whatever step, every device, protection domain, completion
  queue and queue pair it had made is destroyed again; when it succeeds, the new ones are exactly those in the tables of
  the transport. The library refuses to destroy an object that another one uses, so this rests on the order in which the
  destructor works: queue pairs, completion queues, the protection domain, the device.\<close>

theorem verbs_create_no_leak:
  assumes "ibOwns S D ib" "verbsTransportCreate S B D bs w = Some (res, vo, w')"
  shows "case vo of None \<Rightarrow> res \<noteq> vcclSuccess \<and> ibHeld (ib w') = ibHeld (ib w)
    | Some v \<Rightarrow> res = vcclSuccess \<and> ibHeld (ib w') = ibHeld (ib w) \<union> verbsHeld v \<and> ibHeld (ib w) \<inter> verbsHeld v = {}"
  by (rule verbsCreate_owned [OF assms])

text \<open>A device with one active port. New objects get numbers not in use.\<close>

definition resNum :: "ibres \<Rightarrow> nat" where
  "resNum x = (case x of RCtx n \<Rightarrow> n | RPd n \<Rightarrow> n | RCq n \<Rightarrow> n | RQp n \<Rightarrow> n)"

definition rNums :: "rWorld \<Rightarrow> nat list" where
  "rNums w = map resNum (rHeld w) @ map (resNum \<circ> snd) (rUses w)"

definition rNew :: "(nat \<Rightarrow> ibres) \<Rightarrow> ibres list \<Rightarrow> rWorld \<Rightarrow> nat \<times> rWorld" where
  "rNew R deps w =
     (let k = Suc (foldr max (rNums w) 0) in (k, w\<lparr>rHeld := R k # rHeld w, rUses := rUses w @ map (Pair (R k)) deps\<rparr>))"

definition rDrop :: "ibres \<Rightarrow> rWorld \<Rightarrow> rWorld" where
  "rDrop x w =
     (if x \<in> set (rHeld w) \<and> list_all (\<lambda>u. (u, x) \<notin> set (rUses w)) (rHeld w)
      then w\<lparr>rHeld := filter (\<lambda>y. y \<noteq> x) (rHeld w), rUses := filter (\<lambda>p. fst p \<noteq> x) (rUses w)\<rparr> else w)"

definition rObjs :: "rWorld \<Rightarrow> ibobjs" where
  "rObjs w = \<lparr>ibHeld = set (rHeld w), ibUses = set (rUses w)\<rparr>"

definition rDev :: "rWorld ibdev" where
  "rDev = \<lparr>
     ibv_get_device_list = (\<lambda>w. (Some [1], w)), ibv_free_device_list = (\<lambda>w. w), ibv_get_device_name = (\<lambda>_. ''mlx5_0''),
     ibv_open_device = (\<lambda>_. rNew RCtx []), ibv_close_device = (\<lambda>c. rDrop (RCtx c)), ibv_query_device = (\<lambda>_ w. (Some 1, w)),
     ibv_query_port = (\<lambda>_ _ w. (Some \<lparr>paActive = True, paEthernet = False, paLid = 3, paMtu = 5, paGidLen = 0\<rparr>, w)),
     ibv_query_gid = (\<lambda>_ _ _ w. (None, w)), gid_type = (\<lambda>_ _ _ _. None),
     ibv_alloc_pd = (\<lambda>c. rNew RPd [RCtx c]), ibv_dealloc_pd = (\<lambda>c. rDrop (RPd c)), async_nonblock = (\<lambda>_ w. w),
     ibv_create_cq = (\<lambda>c _. rNew RCq [RCtx c]), ibv_destroy_cq = (\<lambda>c. rDrop (RCq c)),
     ibv_create_qp = (\<lambda>p c _ i w. case rNew RQp [RPd p, RCq c] w of (k, w') \<Rightarrow> ((k, i), w')), ibv_destroy_qp = (\<lambda>c. rDrop (RQp c)),
     ibv_qp_num = word_of_nat, ibv_modify_qp = (\<lambda>_ _ w. (True, w)), mt19937 = (\<lambda>s k. s + word_of_nat k),
     user_reg = (\<lambda>_ _. 1), user_reg_dmabuf = (\<lambda>_ _ _. 1)\<rparr>"

lemma rNew_makes: "(\<And>k. resNum (R k) = k) \<Longrightarrow> makes rObjs R (set deps) (rNew R deps w) w"
proof -
  assume R: "\<And>k. resNum (R k) = k"
  have max: "n \<in> set ns \<Longrightarrow> n \<le> foldr max ns (0 :: nat)" for n ns by (induction ns) auto
  let ?k = "Suc (foldr max (rNums w) 0)"
  have "?k \<notin> set (rNums w)" using max [of ?k "rNums w"] by auto
  then have "R ?k \<notin> set (rHeld w)" "\<And>u. (u, R ?k) \<notin> set (rUses w)" using R [of ?k] by (force simp: rNums_def)+
  then show ?thesis by (auto simp: makes_def rNew_def rObjs_def Let_def)
qed

lemma rDrop_ends: "ends rObjs x w (rDrop x w)"
  by (auto simp: ends_def rDrop_def rObjs_def list_all_iff)

lemma rDev_owns: "ibOwns rSys rDev rObjs"
proof -
  have q: "quietly rSys (\<lambda>w w'. rObjs w' = rObjs w)"
    by (auto simp: quietly_def reflp_def transp_def rSys_def)
  have qp: "map_prod fst id (case rNew RQp d w of (k, w') \<Rightarrow> ((k, i), w')) = rNew RQp d w" for d w and i :: nat
    by (simp add: rNew_def Let_def)
  have new: "makes rObjs RCtx {} (rNew RCtx [] w) w" "makes rObjs RPd {RCtx i} (rNew RPd [RCtx i] w) w"
    "makes rObjs RCq {RCtx i} (rNew RCq [RCtx i] w) w" "makes rObjs RQp {RPd i, RCq c} (rNew RQp [RPd i, RCq c] w) w" for i c w
    using rNew_makes [of RCtx "[]" w] rNew_makes [of RPd "[RCtx i]" w] rNew_makes [of RCq "[RCtx i]" w] rNew_makes [of RQp "[RPd i, RCq c]" w]
    by (simp_all add: resNum_def)
  show ?thesis unfolding ibOwns_def by (intro conjI allI) (simp_all add: q rDev_def new rDrop_ends qp, simp add: rSys_def)
qed

theorem verbs_create_no_leak_witness:
  "\<exists>res vo w'. verbsTransportCreate rSys rIbv rDev \<lparr>bsRank = 1, bsNranks = 2, rootFd = 3, peerFds = []\<rparr> (rStart 1) = Some (res, vo, w') \<and>
     (case vo of None \<Rightarrow> res \<noteq> vcclSuccess \<and> set (rHeld w') = {} | Some v \<Rightarrow> res = vcclSuccess \<and> set (rHeld w') = verbsHeld v)"
proof -
  let ?bs = "\<lparr>bsRank = 1, bsNranks = 2, rootFd = 3, peerFds = []\<rparr>"
  have gather: "bsAllGather rSys ?bs b k w \<noteq> None" for b k w
    by (simp add: bsAllGather_def sendAll_def recvAll_def parked_def sendParked_def recvParked_def newDeadline_def timeoutSeconds_def rSys_def iterO.simps sendStep_def recvStep_def
      Let_def)
  then have barrier: "bsBarrier rSys ?bs w \<noteq> None" for w
    by (simp add: bsBarrier_def bind_eq_None_conv split: prod.splits del: not_None_eq)
  have "openDevice rSys rDev nullDevice w \<noteq> None" for w
    by (simp add: openDevice_def rDev_def tryDevice_def rSys_def Let_def iter_def iterO.simps portStep_def split: prod.splits del: not_None_eq)
  then have "verbsTransportCreate rSys rIbv rDev ?bs (rStart 1) \<noteq> None" using gather barrier
    by (auto simp: verbsTransportCreate_def bind_eq_None_conv Let_def split: prod.splits simp del: not_None_eq)
  then obtain res vo w' where r: "verbsTransportCreate rSys rIbv rDev ?bs (rStart 1) = Some (res, vo, w')" by auto
  from verbs_create_no_leak [OF rDev_owns r] show ?thesis using r by (auto simp: rStart_def rWorld0_def rObjs_def split: option.splits)
qed

text \<open>C32: The queue pairs of two ranks name each other. Every rank creates its queue pairs, the rows go through the gather of the
  bootstrap, and each rank connects its queue pairs. Then for any two ranks the pair that one holds for the other was
  moved to ready-to-receive with the number, first sequence number and address of the pair that the other holds for it,
  and with the smaller of the two MTUs, and to ready-to-send with the sequence number the other expects.\<close>

theorem verbs_qps_paired:
  assumes "\<And>r. r < n \<Longrightarrow> sockets (S r) (N r)" "\<And>r. r < n \<Longrightarrow> bsRank (bs r) = r \<and> bsNranks (bs r) = n"
    and "inj_on (\<lambda>i. peerFds (bs 0) ! i) {1..<n}"
    and "\<And>r. r < n \<Longrightarrow> createQps (D r) (seed r) r [0..<n] 0 (replicate n zeroQp) (newVerbs (D r) n (d r)) (u r) = (vcclSuccess, infos r, v r, w r)"
    and "\<And>r. r < n \<Longrightarrow> bsAllGather (S r) (bs r) (patch (replicate (n * (28 * n)) 0) (r * (28 * n)) (qpRow r (infos r))) (28 * n) (w r) =
       Some (vcclSuccess, b r, w' r)"
    and "\<And>r. r < n \<Longrightarrow> connectQps (S r) (D r) r n (qpTable n (b r)) [0..<n] (v r) (w' r) = (vcclSuccess, w'' r)"
    and "\<And>r. 0 < r \<Longrightarrow> r < n \<Longrightarrow> channel (N r (w r)) (N r (w' r)) (rootFd (bs r)) (N 0 (w 0)) (N 0 (w' 0)) (peerFds (bs 0) ! r)"
    and "\<And>r. 0 < r \<Longrightarrow> r < n \<Longrightarrow> channel (N 0 (w 0)) (N 0 (w' 0)) (peerFds (bs 0) ! r) (N r (w r)) (N r (w' r)) (rootFd (bs r))"
    and "\<And>r. r < n \<Longrightarrow> qpLog (D r) (lg r) \<and> inj_on (\<lambda>p. qps (v r) ! p) ({0..<n} - {r}) \<and> length (devGid (d r)) = 16"
    and "r < n" "p < n" "r \<noteq> p"
  shows "\<exists>mine theirs. lg r (w'' r) (qps (v r) ! p) = lg r (w' r) (qps (v r) ! p) @ qpLinks (S r) (v r) mine theirs \<and>
    lg p (w'' p) (qps (v p) ! r) = lg p (w' p) (qps (v p) ! r) @ qpLinks (S p) (v p) theirs mine \<and>
    describes (D r) (v r) p mine \<and> describes (D p) (v p) r theirs"
  by (rule qps_paired [OF assms])

record qpWorld = exWorld +
  qwLog :: "nat \<Rightarrow> qp_attr list"

definition pDev :: "nat \<Rightarrow> qpWorld ibdev" where
  "pDev r = \<lparr>
     ibv_get_device_list = (\<lambda>w. (Some [1], w)), ibv_free_device_list = (\<lambda>w. w), ibv_get_device_name = (\<lambda>_. ''mlx5_0''),
     ibv_open_device = (\<lambda>_ w. (1, w)), ibv_close_device = (\<lambda>_ w. w), ibv_query_device = (\<lambda>_ w. (Some 1, w)),
     ibv_query_port = (\<lambda>_ _ w. (None, w)), ibv_query_gid = (\<lambda>_ _ _ w. (None, w)), gid_type = (\<lambda>_ _ _ _. None),
     ibv_alloc_pd = (\<lambda>_ w. (1, w)), ibv_dealloc_pd = (\<lambda>_ w. w), async_nonblock = (\<lambda>_ w. w),
     ibv_create_cq = (\<lambda>_ _ w. (5, w)), ibv_destroy_cq = (\<lambda>_ w. w), ibv_create_qp = (\<lambda>_ _ _ i w. ((5, i), w)), ibv_destroy_qp = (\<lambda>_ w. w),
     ibv_qp_num = (\<lambda>q. word_of_nat (q + 100 * r)), ibv_modify_qp = (\<lambda>q a w. (True, w\<lparr>qwLog := (qwLog w)(q := qwLog w q @ [a])\<rparr>)),
     mt19937 = (\<lambda>s k. s + word_of_nat k), user_reg = (\<lambda>_ _. 1), user_reg_dmabuf = (\<lambda>_ _ _. 1)\<rparr>"

definition pInfo :: "nat \<Rightarrow> QpInfo" where
  "pInfo r = \<lparr>qpn = word_of_nat (5 + 100 * r), psn = 7, lid = 0, mtu = 5, pad = 0, gid = replicate 16 0\<rparr>"

definition pInfos :: "nat \<Rightarrow> QpInfo list" where
  "pInfos r = (replicate 2 zeroQp)[1 - r := pInfo r]"

definition pVerbs :: "nat \<Rightarrow> VerbsTransport" where
  "pVerbs r = (newVerbs (pDev r) 2 rDevice)\<lparr>cqs := (replicate 2 0)[1 - r := 5], qps := (replicate 2 0)[1 - r := 5],
     maxInline := (replicate 2 0)[1 - r := kWantInline]\<rparr>"

definition pStart :: "nat \<Rightarrow> qpWorld" where
  "pStart r = \<lparr>xwOpen = [3], xwOut = (\<lambda>_. []), xwIn = (\<lambda>_. []),
     xwPend = (\<lambda>_. if r = 0 then qpRow 1 (pInfos 1) else qpRow 0 (pInfos 0) @ qpRow 1 (pInfos 1)), xwArr = [], xwTime = 0, qwLog = (\<lambda>_. [])\<rparr>"

definition pMade :: "nat \<Rightarrow> qpWorld" where
  "pMade r = (pStart r)\<lparr>qwLog := (\<lambda>_. [])(5 := [QpInit 1])\<rparr>"

lemma pMade_run:
  assumes "r < 2"
  shows "createQps (pDev r) 7 r [0..<2] 0 (replicate 2 zeroQp) (newVerbs (pDev r) 2 rDevice) (pStart r) = (vcclSuccess, pInfos r, pVerbs r, pMade r)"
proof -
  consider "r = 0" | "r = 1" using assms by linarith
  then show ?thesis
    by cases (simp_all add: upt_rec numeral_2_eq_2 createQp_def pDev_def newVerbs_def pStart_def pMade_def pVerbs_def pInfos_def pInfo_def
      rDevice_def zeroQp_def kWantInline_def Let_def)
qed

definition pRow :: "nat \<Rightarrow> byte list" where
  "pRow r = qpRow r (pInfos r)"

definition pGathered :: "nat \<Rightarrow> qpWorld" where
  "pGathered r = (pMade r)\<lparr>xwOut := (\<lambda>_. [])(3 := if r = 0 then pRow 0 @ pRow 1 else pRow 1),
     xwIn := (\<lambda>_. [])(3 := if r = 0 then pRow 1 else pRow 0 @ pRow 1), xwPend := (xwPend (pStart r))(3 := [])\<rparr>"

lemma pRow_length: "r < 2 \<Longrightarrow> length (pRow r) = 56"
proof -
  assume r: "r < 2"
  have g: "length (gid (pInfos r ! i)) = 16" if "i < 2" for i
    using that by (auto simp: pInfos_def pInfo_def zeroQp_def nth_list_update)
  have len: "length (encodeQp (if i \<noteq> r then qpInfoSwap (pInfos r ! i) else pInfos r ! i)) = 28" if "i < 2" for i
    using g [OF that] by (auto simp: length_encodeQp qpInfoSwap_def)
  have "length (pInfos r) = 2" "[0..<2] = [0, 1 :: nat]" by (simp_all add: pInfos_def upt_rec)
  then show ?thesis using len [of 0] len [of "Suc 0"] by (simp add: pRow_def qpRow_def)
qed

lemma pGather_run:
  assumes "r < 2"
  shows "bsAllGather exSys (exBs r) (patch (replicate (2 * (28 * 2)) 0) (r * (28 * 2)) (qpRow r (pInfos r))) (28 * 2) (pMade r) =
    Some (vcclSuccess, pRow 0 @ pRow 1, pGathered r)"
proof -
  have ne: "pRow 0 \<noteq> []" "pRow (Suc 0) \<noteq> []" "length (pRow 0) = 56" "length (pRow (Suc 0)) = 56" using pRow_length [of 0] pRow_length [of 1] by auto
  consider "r = 0" | "r = 1" using assms by linarith
  then show ?thesis
    by cases (simp_all add: bsAllGather_def exBs_def pStart_def pMade_def pGathered_def pRow_def [symmetric] recvAll_def sendAll_def parked_def recvParked_def sendParked_def newDeadline_def
      timeoutSeconds_def exSys_def iterO.simps recvStep_def sendStep_def patch_def Let_def upt_rec [of "Suc 0" 2] ne)
qed

definition pLinked :: "nat \<Rightarrow> qpWorld" where
  "pLinked r = (pGathered r)\<lparr>qwLog := (\<lambda>_. [])(5 := QpInit 1 # qpLinks (exSys :: qpWorld sys) (pVerbs r) (pInfo r) (pInfo (1 - r)))\<rparr>"

lemma pLink_run:
  assumes "r < 2"
  shows "connectQps exSys (pDev r) r 2 (qpTable 2 (pRow 0 @ pRow 1)) [0..<2] (pVerbs r) (pGathered r) = (vcclSuccess, pLinked r)"
proof -
  have inf: "length (pInfos j) = 2 \<and> (\<forall>q\<in>set (pInfos j). length (gid q) = 16)" for j
    by (auto simp: pInfos_def pInfo_def zeroQp_def dest!: in_set_conv_nth [THEN iffD1] split: if_splits) (auto simp: nth_list_update)
  have up: "[0..<2] = [0, 1 :: nat]" by (simp add: upt_rec)
  have tab: "qpTable 2 (pRow 0 @ pRow 1) ! (i * 2 + p) = pInfos i ! p" if "i < 2" "p < 2" "p \<noteq> i" for i p
    using qpTable_rows [of 2 pInfos i p, OF inf that] by (simp add: up pRow_def)
  have t: "qpTable 2 (pRow 0 @ pRow (Suc 0)) ! Suc 0 = pInfo 0" "qpTable 2 (pRow 0 @ pRow (Suc 0)) ! 2 = pInfo (Suc 0)"
    using tab [of 0 1] tab [of 1 0] by (simp_all add: pInfos_def)
  have m: "ibv_modify_qp (pDev i) = (\<lambda>q a w. (True, w\<lparr>qwLog := (qwLog w)(q := qwLog w q @ [a])\<rparr>))" for i by (simp add: pDev_def)
  consider "r = 0" | "r = 1" using assms by linarith
  then show ?thesis
    by cases (simp_all add: up connectQp_def t m pLinked_def pGathered_def pMade_def pStart_def qpLinks_def pVerbs_def)
qed

theorem verbs_qps_paired_witness:
  "\<exists>mine theirs. qwLog (pLinked 0) 5 = [QpInit 1] @ qpLinks (exSys :: qpWorld sys) (pVerbs 0) mine theirs \<and>
     qwLog (pLinked 1) 5 = [QpInit 1] @ qpLinks (exSys :: qpWorld sys) (pVerbs 1) theirs mine \<and>
     qpn mine = 5 \<and> qpn theirs = 105"
proof -
  have ends: "qps (pVerbs 0) ! 1 = 5" "qps (pVerbs 1) ! 0 = 5" "qwLog (pGathered r) 5 = [QpInit 1]" for r
    by (simp_all add: pVerbs_def pGathered_def pMade_def)
  have "\<exists>mine theirs. qwLog (pLinked 0) (qps (pVerbs 0) ! 1) = qwLog (pGathered 0) (qps (pVerbs 0) ! 1) @ qpLinks (exSys :: qpWorld sys) (pVerbs 0) mine theirs \<and>
    qwLog (pLinked 1) (qps (pVerbs 1) ! 0) = qwLog (pGathered 1) (qps (pVerbs 1) ! 0) @ qpLinks (exSys :: qpWorld sys) (pVerbs 1) theirs mine \<and>
    describes (pDev 0) (pVerbs 0) 1 mine \<and> describes (pDev 1) (pVerbs 1) 0 theirs"
  proof (rule verbs_qps_paired [where S = "\<lambda>_. exSys" and N = "\<lambda>_. exView" and bs = exBs and D = pDev and seed = "\<lambda>_. 7" and d = "\<lambda>_. rDevice"
        and u = pStart and infos = pInfos and v = pVerbs and w = pMade and b = "\<lambda>_. pRow 0 @ pRow 1" and w' = pGathered and w'' = pLinked
        and lg = "\<lambda>_. qwLog" and n = 2 and r = 0 and p = 1])
    show "createQps (pDev r) 7 r [0..<2] 0 (replicate 2 zeroQp) (newVerbs (pDev r) 2 rDevice) (pStart r) = (vcclSuccess, pInfos r, pVerbs r, pMade r)"
      if "r < 2" for r using that by (rule pMade_run)
    show "bsAllGather exSys (exBs r) (patch (replicate (2 * (28 * 2)) 0) (r * (28 * 2)) (qpRow r (pInfos r))) (28 * 2) (pMade r) =
      Some (vcclSuccess, pRow 0 @ pRow 1, pGathered r)" if "r < 2" for r using that by (rule pGather_run)
    show "connectQps exSys (pDev r) r 2 (qpTable 2 (pRow 0 @ pRow 1)) [0..<2] (pVerbs r) (pGathered r) = (vcclSuccess, pLinked r)" if "r < 2" for r
      using that by (rule pLink_run)
    show "inj_on (\<lambda>i. peerFds (exBs 0) ! i) {1..<2}" by (rule inj_onI) auto
    show "qpLog (pDev r) qwLog \<and> inj_on (\<lambda>p. qps (pVerbs r) ! p) ({0..<2} - {r}) \<and> length (devGid rDevice) = 16" if "r < 2" for r
      using that by (auto simp: qpLog_def pDev_def rDevice_def inj_on_def less_2_cases_iff)
  qed (auto simp: exSys_sockets exBs_def channel_def exView_def pMade_def pStart_def pGathered_def less_2_cases_iff)
  then show ?thesis unfolding ends describes_def by (elim exE conjE) (intro exI conjI, assumption+, simp_all add: pDev_def)
qed

end
