(* ===== verification/Spec2Isabelle.thy ===== *)
theory Spec2Isabelle
  imports Vccl_AllGather Vccl_ReduceRoot Vccl_Star Vccl_Examples Vccl_Components Vccl_Network Vccl_Rdma
begin

text \<open>
  \<^bold>\<open>vccl\<close>, a library of collective operations for machines connected by Ethernet or RDMA, modelled and verified.

  \<^bold>\<open>The program.\<close> Each process calls the C interface of \<^verbatim>\<open>include/vccl.h\<close>. \<^verbatim>\<open>core/bootstrap.cc\<close> brings the ranks of a job
  together over TCP, \<^verbatim>\<open>core/comm.cc\<close> makes, splits and destroys communicators, \<^verbatim>\<open>core/comm.h\<close> is the communicator with its
  scratch buffer, cache of memory registrations, custom operators and error latch. \<^verbatim>\<open>core/collectives.cc\<close> holds the
  collective algorithms, which call the kernels of \<^verbatim>\<open>core/reduce.cc\<close> and exchange data through the interface
  \<^verbatim>\<open>transport/transport.h\<close>; \<^verbatim>\<open>core/group.cc\<close> queues operations between group calls. The transports are \<^verbatim>\<open>transport/tcp.cc\<close>
  on top of \<^verbatim>\<open>util/socket.cc\<close> and \<^verbatim>\<open>util/deadline.h\<close>, and \<^verbatim>\<open>transport/verbs.cc\<close> on top of ibverbs.

  \<^bold>\<open>Theories.\<close> All paths are under \<^verbatim>\<open>src/src\<close>.
  \<^item> Shared: \<open>Vccl_Prelude\<close> (byte memory, index arithmetic of rings, number parsers of the C library), \<open>Vccl_Algebra\<close>
    (the interfaces \<open>reduction\<close>, \<open>comm_reduction\<close>, \<open>ac_reduction\<close> and a confluence rule for schedules), \<open>Vccl_Types\<close>
    (enumerations of \<^verbatim>\<open>vccl.h\<close>, \<^verbatim>\<open>core/types.cc\<close>), \<open>Vccl_Loop\<close> (loops that may not end).
  \<^item> Kernels: \<open>Vccl_Reduce\<close> (\<^verbatim>\<open>core/reduce.cc\<close>), \<open>Vccl_Reduce_Spec\<close>, \<open>Vccl_Float16\<close>, \<open>Vccl_Codec\<close>.
  \<^item> Communicators: \<open>Vccl_Transport\<close> (memory registration of both transports, the interface \<open>mr_table\<close>), \<open>Vccl_Comm\<close>
    (\<^verbatim>\<open>core/comm.h\<close>), \<open>Vccl_Comm_Api\<close>, \<open>Vccl_Comm_Spec\<close> (\<^verbatim>\<open>core/comm.cc\<close>), \<open>Vccl_Owner\<close> (who owns which registration).
  \<^item> Programs: \<open>Vccl_Proc\<close> (the program of one rank and the blocking calls of \<^verbatim>\<open>transport.h\<close>), \<open>Vccl_Net\<close> (all ranks as a
    transition system whose steps are messages), \<open>Vccl_Par\<close>, \<open>Vccl_Phase\<close>, \<open>Vccl_Runs\<close>, \<open>Vccl_Entry\<close> (a calculus for ranks that
    run the same phase), \<open>Vccl_Always\<close> (invariants of running programs), \<open>Vccl_Client\<close> (the most general client).
  \<^item> Collectives: \<open>Vccl_Collectives\<close> and \<open>Vccl_Api\<close> (\<^verbatim>\<open>core/collectives.cc\<close>, one definition per function) and the proofs per
    algorithm: \<open>Vccl_Ring\<close>, \<open>Vccl_Chunks\<close>, \<open>Vccl_Masks\<close>, \<open>Vccl_Doubling\<close>, \<open>Vccl_Elim\<close>, \<open>Vccl_Bruck\<close>, \<open>Vccl_Chain\<close>, \<open>Vccl_AllGather\<close>,
    \<open>Vccl_AllReduce\<close>, \<open>Vccl_Reduced\<close>, \<open>Vccl_ReduceScatter\<close>, \<open>Vccl_ReduceRoot\<close>, \<open>Vccl_Broadcast\<close>, \<open>Vccl_AllToAll\<close>, \<open>Vccl_Star\<close>.
  \<^item> Groups: \<open>Vccl_Group\<close> (\<^verbatim>\<open>core/group.cc\<close>), \<open>Vccl_Group_Spec\<close>, \<open>Vccl_Exchange\<close>.
  \<^item> Network: \<open>Vccl_Socket\<close> (\<^verbatim>\<open>util/socket.cc\<close>, \<^verbatim>\<open>util/deadline.h\<close>), \<open>Vccl_Socket_Spec\<close>, \<open>Vccl_Descriptors\<close>; \<open>Vccl_Tcp\<close>
    (data path of \<^verbatim>\<open>transport/tcp.cc\<close>), \<open>Vccl_Tcp_Spec\<close>; \<open>Vccl_Bootstrap\<close> (\<^verbatim>\<open>core/bootstrap.cc\<close>), \<open>Vccl_Bootstrap_Spec\<close>,
    \<open>Vccl_Gather_Spec\<close>; \<open>Vccl_Init\<close> (creation of transports and communicators), \<open>Vccl_Init_Spec\<close>, \<open>Vccl_Init_Live\<close>.
  \<^item> RDMA: \<open>Vccl_Verbs\<close> (data path of \<^verbatim>\<open>transport/verbs.cc\<close>), \<open>Vccl_Nic\<close> (the adapter as a transition system that works
    through posted requests while the program runs), \<open>Vccl_Verbs_Spec\<close> (batches), \<open>Vccl_Verbs_Safe\<close> (memory regions, queue
    depth, waits); \<open>Vccl_Verbs_Setup\<close> (device, GID, queue pairs, creation, destructor), \<open>Vccl_Verbs_Setup_Spec\<close> (pairing of
    queue pairs), \<open>Vccl_Verbs_Owner\<close> (who owns which ibverbs object).
  \<^item> Properties: this theory (collectives), \<open>Vccl_Components\<close> (single components), \<open>Vccl_Network\<close> (sockets, TCP,
    rendezvous), \<open>Vccl_Rdma\<close> (verbs), with their witnesses on the machines of \<open>Vccl_Examples\<close> and \<open>Vccl_Network\<close>.

  \<^bold>\<open>The model.\<close> Memory is a function from addresses to bytes, per rank. Element values are words of their width, so
  integer reductions wrap as in the code; floating-point arithmetic of the processor is a parameter (\<open>fpu\<close>), and what is
  proved of reductions on floats is which operands are combined, how often and in which brackets, not their
  rounding. A collective is a command: a function from the rank's context to a \<open>proc\<close>, which has returned, is
  undefined (a data race, an overlapping copy) or waits for transfers. \<open>net_step\<close> lets any matching pair of transfers
  happen; \<open>finishes\<close> says that every schedule ends, on every rank, with success and the stated result, so
  the theorems on collectives exclude deadlock, undefined behaviour and dependence on timing at once. Outside
  the collectives the operating system is a record of functions (\<open>sys\<close>), one per system call, over an arbitrary
  world; ibverbs and the clock are parameters likewise. Functions that may block forever are options, and that they
  return is a theorem of its own.

  \<^bold>\<open>What is shown.\<close>
  \<^item> Collectives: each entry point delivers its result for every number of ranks, size, type, operator, algorithm
    choice and schedule; all ranks of an all-reduce agree bit for bit, also on floats.
  \<^item> Kernels: element-wise results, independence of the vector units, round trips of the 16-bit formats.
  \<^item> Communicators: at every moment of every run of the most general client, transport failures included, the
    registrations held are exactly the live ones, each once; the error latch; custom operators; splits.
  \<^item> Groups: dispatch in issue order, and exchanges that cannot deadlock.
  \<^item> Network: exact transfers, the watchdog ends every wait, TCP batches refine the contract that the collectives use,
    the handshake accepts exactly the ranks of the job, no descriptor leaks, initialisation returns.
  \<^item> RDMA: verbs batches refine the same contract, for all message sizes and adapter schedules; every operation returns
    and releases its temporary memory regions; the queue pairs of two ranks name each other; a failed creation leaves no
    ibverbs object behind.

  \<^bold>\<open>Hypotheses.\<close> \<open>callable\<close>, \<open>scratchSafe\<close> and \<open>slotOk\<close> are the caller's side of the interface (a live communicator on all ranks,
  buffers apart from scratch space, send and receive buffers equal or apart). \<open>streams\<close>, \<open>timed\<close>, \<open>timedConnect\<close>, \<open>sockets\<close>,
  \<open>clocked\<close>, \<open>visitors\<close> and \<open>addrSizes\<close> state what POSIX documents of sockets, clocks and address parsers; \<open>connected\<close> and \<open>channel\<close>
  that a TCP connection delivers in order what it accepted. \<open>exSys\<close> satisfies all of them. \<open>rdma\<close>, \<open>mrLaws\<close>, \<open>ibTimed\<close>,
  \<open>ibOwns\<close> and \<open>qpLog\<close> state what ibverbs documents of adapters: work requests of a queue pair complete in order and a
  completion is reported after the work is done, memory regions, devices and queues live from creation to release, time
  passes while a process polls. They hold of \<open>rIbv\<close>, \<open>rDev\<close> and \<open>pDev\<close>.

  \<^bold>\<open>Bounds and fuel.\<close> Loops over indices are folds over lists. \<open>halfNormalize\<close> is the only function with fuel: ten rounds,
  which \<open>Vccl_Float16\<close> proves enough for a 10-bit mantissa. Counts and offsets are natural numbers where the code has
  64 bits, ranks are below \<open>2 ^ 31\<close> where they travel in messages.

  \<^bold>\<open>Not modelled.\<close>
  \<^item> Formatted log messages (\<^verbatim>\<open>util/log.cc\<close>, \<open>SocketAddr::str\<close>): output only; the text of the last error is an argument where it
    is stored. Socket options, whose results the code ignores.
  \<^item> The threads of \<open>vcclCommInitAll\<close> (its result rule is \<open>initAllResult\<close>) and locks: a group's communicators run as
    a list of independent programs.
  \<^item> The timing counters of \<^verbatim>\<open>VCCL_PROF\<close>. Staging buffers of the verbs transport are modelled, but the refinement theorem is
    about transports without them; pre-posted receives are modelled and shown to end and to release their regions.
  \<^item> The programs under \<^verbatim>\<open>bench\<close> and \<^verbatim>\<open>tests\<close> and the scripts, which call the library.
\<close>

section \<open>Collectives\<close>

text \<open>C4: All-gather. When all ranks call it, every schedule of the transport ends with success on
  every rank, whichever of the three algorithms the environment and the sizes select, but for one case
  that \<open>agLossy\<close> describes: on the verbs transport Bruck's algorithm drops completions when the number
  of ranks is the sum of two different powers of two, and the property excludes it. In all others each
  rank's receive buffer holds the send buffers of all ranks in rank order, memory outside it and
  scratch space is unchanged, no announced receive is left over, and of the communicator only
  scratch space and registrations have changed.\<close>

theorem vcclAllGather_correct:
  assumes "callable n c cp t" "dt \<noteq> vcclNumTypes" "cb = cnt * vcclTypeSize dt"
    and "\<And>r. r < n \<Longrightarrow> send r \<noteq> 0 \<and> recv r \<noteq> 0 \<and> env (c r) = e \<and>
      scratchSafe (c r) (recv r) (n * cb) \<and> slotOk (recv r + r * cb) (send r) cb \<and>
      (isVerbs (comm (c r)) \<longrightarrow> \<not> agLossy e n cb)"
  shows "finishes n (\<lambda>r. snd (vcclAllGather (send r) (recv r) cnt dt (cp r) (t r) (c r)))
    (\<lambda>r c'. (\<forall>j<n. rd (mem c') (recv r + j * cb) cb = rd (mem (c j)) (send j) cb) \<and>
       keeps (c r) (mem c') (recv r) (n * cb) \<and> ctxFrame (c r) c' \<and> posted c' = [])"
proof (rule entry_finishes [where call = "\<lambda>r. vcclAllGather (send r) (recv r) cnt dt (cp r) (t r)"])
  show "runs {..<n} (\<lambda>r. doAllGather (send r) (recv r) cnt dt) c (\<lambda>M. (\<forall>r<n. keeps (c r) (M r) (recv r) (n * cb)) \<and>
      allGathered n recv cb (\<lambda>r. rd (mem (c r)) (send r) cb) M)"
    using assms by (intro works_runs doAllGather_works) (auto simp: callable_def)
qed (use assms callable_args callable_checks in \<open>auto simp: vcclAllGather_def runOp_outside allGathered_def\<close>)

theorem vcclAllGather_correct_witness:
  "finishes 3 (\<lambda>r. snd (vcclAllGather 8 16 4 vcclInt8 1 exTls (exCtx 3 r)))
    (\<lambda>r c'. (\<forall>j<3. rd (mem c') (16 + j * 4) 4 = rd (mem (exCtx 3 j)) 8 4) \<and>
       keeps (exCtx 3 r) (mem c') 16 (3 * 4) \<and> ctxFrame (exCtx 3 r) c' \<and> posted c' = [])"
  by (rule vcclAllGather_correct [where cp = "\<lambda>_. 1" and t = "\<lambda>_. exTls"])
    (simp_all add: exCtx_callable exCtx_scratch slotOk_def disj_def)

text \<open>C1: All-reduce on integers. When all ranks call it, every schedule ends with success and each
  rank's receive buffer holds the fold of all contributions under the wrapping sum, product, maximum
  or minimum: the recursive-doubling, elimination and ring algorithms compute the same value.\<close>

theorem vcclAllReduce_integer:
  assumes "callable n c cp t" "isIntType dt" "0 \<le> op" "op < vcclNumOps" "op \<noteq> vcclAvg" "nb = cnt * vcclTypeSize dt"
    and "\<And>r. r < n \<Longrightarrow> send r \<noteq> 0 \<and> recv r \<noteq> 0 \<and> env (c r) = e \<and> scratchSafe (c r) (recv r) nb \<and>
      slotOk (recv r) (send r) nb"
  shows "finishes n (\<lambda>r. snd (vcclAllReduce (send r) (recv r) cnt dt op (cp r) (t r) (c r)))
    (\<lambda>r c'. rd (mem c') (recv r) nb = fold1 (vred f dt op cnt) (map (\<lambda>j. rd (mem (c j)) (send j) nb) [0..<n]) \<and>
       keeps (c r) (mem c') (recv r) nb \<and> ctxFrame (c r) c' \<and> posted c' = [])"
proof -
  let ?y = "\<lambda>r. contrib (fp (c r)) dt False double_one cnt (rd (mem (c r)) (send r) nb)"
  have dt: "dt \<noteq> vcclNumTypes" using assms(2) by (simp add: isIntType_def)
  have op: "opOk dt op" using assms dt by (simp add: opOk_def)
  note run = vcclAllReduce_finishes [OF assms(1) dt assms(6) resolveOp_int [OF assms(3-5)] assms(7)]
  show ?thesis
  proof (rule finishes_mono [OF run], simp)
    fix r c' assume r: "r < n"
    assume v: "rd (mem c') (recv r) nb = arValue e (\<lambda>r. fp (c r)) dt op n cnt ?y r \<and>
      keeps (c r) (mem c') (recv r) nb \<and> ctxFrame (c r) c' \<and> posted c' = []"
    have "rd (mem c') (recv r) nb = fold1 (vred f dt op cnt) (map ?y [0..<n])"
    proof (rule int_result [OF assms(2) op])
      show "reducedElem (\<lambda>r. fp (c r)) dt op n (\<lambda>r. elemAt (vcclTypeSize dt) i (?y r))
          (elemAt (vcclTypeSize dt) i (rd (mem c') (recv r) nb))" if "i < cnt" for i
        using arValue_elem [OF op r that] v by simp
    qed (use assms(6) r in \<open>auto simp: contrib_def\<close>)
    with v show "rd (mem c') (recv r) nb = fold1 (vred f dt op cnt) (map (\<lambda>j. rd (mem (c j)) (send j) nb) [0..<n]) \<and>
       keeps (c r) (mem c') (recv r) nb \<and> ctxFrame (c r) c' \<and> posted c' = []"
      by (simp add: contrib_def)
  qed
qed

theorem vcclAllReduce_integer_witness:
  "finishes 3 (\<lambda>r. snd (vcclAllReduce 8 16 2 vcclInt32 vcclMax 1 exTls (exCtx 3 r)))
    (\<lambda>r c'. rd (mem c') 16 8 = fold1 (vred exFpu vcclInt32 vcclMax 2) (map (\<lambda>j. rd (mem (exCtx 3 j)) 8 8) [0..<3]) \<and>
       keeps (exCtx 3 r) (mem c') 16 8 \<and> ctxFrame (exCtx 3 r) c' \<and> posted c' = [])"
  by (rule vcclAllReduce_integer [where cp = "\<lambda>_. 1" and t = "\<lambda>_. exTls"])
    (simp_all add: exCtx_callable exCtx_scratch slotOk_def disj_def redop_defs isIntType_def isFloatType_def)

text \<open>C2: All-reduce on every type and operator, averages and custom pre-multiplied sums included. Each
  element of the result combines the corresponding elements of all ranks, each rank's contribution
  exactly once, in some order and bracketing; an average is that value scaled by the reciprocal of
  the number of ranks.\<close>

theorem vcclAllReduce_elements:
  fixes scalar :: "64 word"
  assumes "callable n c cp t" "dt \<noteq> vcclNumTypes" "nb = cnt * vcclTypeSize dt"
    and "\<And>r. r < n \<Longrightarrow> resolveOp (comm (c r)) dt op = Inr (op', premul, scalar)"
    and "\<And>r. r < n \<Longrightarrow> send r \<noteq> 0 \<and> recv r \<noteq> 0 \<and> env (c r) = e \<and> scratchSafe (c r) (recv r) nb \<and>
      slotOk (recv r) (send r) nb"
  shows "finishes n (\<lambda>r. snd (vcclAllReduce (send r) (recv r) cnt dt op (cp r) (t r) (c r)))
    (\<lambda>r c'. \<forall>i<cnt. reducedElem (\<lambda>r. fp (c r)) dt op' n
       (\<lambda>j. elemAt (vcclTypeSize dt) i (contrib (fp (c j)) dt premul scalar cnt (rd (mem (c j)) (send j) nb)))
       (elemAt (vcclTypeSize dt) i (rd (mem c') (recv r) nb)))"
proof (rule finishes_mono [OF vcclAllReduce_finishes [OF assms]])
  have "opOk dt op'" using resolveOp_ok [OF assms(4) assms(2)] assms(1) by (auto simp: callable_def ready_def)
  then show "\<forall>i<cnt. reducedElem (\<lambda>r. fp (c r)) dt op' n
       (\<lambda>j. elemAt (vcclTypeSize dt) i (contrib (fp (c j)) dt premul scalar cnt (rd (mem (c j)) (send j) nb)))
       (elemAt (vcclTypeSize dt) i (rd (mem c') (recv r) nb))"
    if "r < n" "rd (mem c') (recv r) nb = arValue e (\<lambda>r. fp (c r)) dt op' n cnt
        (\<lambda>r. contrib (fp (c r)) dt premul scalar cnt (rd (mem (c r)) (send r) nb)) r \<and>
      keeps (c r) (mem c') (recv r) nb \<and> ctxFrame (c r) c' \<and> posted c' = []" for r c'
    using that arValue_elem by simp
qed

theorem vcclAllReduce_elements_witness:
  "finishes 5 (\<lambda>r. snd (vcclAllReduce 8 48 10 vcclFloat16 vcclAvg 1 exTls (exCtx 5 r)))
    (\<lambda>r c'. \<forall>i<10. reducedElem (\<lambda>r. fp (exCtx 5 r)) vcclFloat16 vcclAvg 5
       (\<lambda>j. elemAt (vcclTypeSize vcclFloat16) i (contrib (fp (exCtx 5 j)) vcclFloat16 False double_one 10 (rd (mem (exCtx 5 j)) 8 20)))
       (elemAt (vcclTypeSize vcclFloat16) i (rd (mem c') 48 20)))"
  by (rule vcclAllReduce_elements [where cp = "\<lambda>_. 1" and t = "\<lambda>_. exTls"])
    (simp_all add: exCtx_callable exCtx_scratch slotOk_def disj_def resolveOp_def redop_defs isFloatType_def)

text \<open>C3: All ranks end an all-reduce with the same bytes: with the ring algorithm always, with the two
  logarithmic algorithms on integers, and there on floats when all ranks compute with the same unit and the
  operation, bit for bit, commutes on a set of buffers that holds all contributions and that it does not leave. Maximum and minimum of
  floats do not commute on NaNs and on zeros of different sign, so for these data nothing is claimed.\<close>

theorem vcclAllReduce_agree:
  fixes scalar :: "64 word"
  assumes "callable n c cp t" "dt \<noteq> vcclNumTypes" "nb = cnt * vcclTypeSize dt"
    and "\<And>r. r < n \<Longrightarrow> resolveOp (comm (c r)) dt op = Inr (op', premul, scalar)"
    and "\<And>r. r < n \<Longrightarrow> send r \<noteq> 0 \<and> recv r \<noteq> 0 \<and> env (c r) = e \<and> scratchSafe (c r) (recv r) nb \<and>
      slotOk (recv r) (send r) nb"
    and "arLog e nb \<Longrightarrow> isFloatType dt \<Longrightarrow> commutesOn D (vred f dt op' cnt) \<and>
      (\<forall>r<n. fp (c r) = f \<and> contrib f dt premul scalar cnt (rd (mem (c r)) (send r) nb) \<in> D)"
  shows "\<exists>v. finishes n (\<lambda>r. snd (vcclAllReduce (send r) (recv r) cnt dt op (cp r) (t r) (c r)))
    (\<lambda>r c'. rd (mem c') (recv r) nb = v)"
proof -
  let ?v = "arValue e (\<lambda>r. fp (c r)) dt op' n cnt (\<lambda>r. contrib (fp (c r)) dt premul scalar cnt (rd (mem (c r)) (send r) nb))"
  have agree: "?v r = ?v 0" if r: "r < n" for r
  proof (cases "n = 1 \<or> cnt = 0 \<or> \<not> arLog e nb")
    case True
    then consider "r = 0" | "cnt = 0" | "1 < n" "0 < cnt" "\<not> arLog e nb" using r by fastforce
    then show ?thesis using assms(3) by cases (simp_all add: arValue_def contrib_def)
  next
    case False
    then have n: "0 < n" "arLog e nb" "cnt \<noteq> 0" using r by auto
    have "isIntType dt \<and> op' \<noteq> vcclAvg \<or> isFloatType dt"
      using assms(2) assms(4) [OF r] by (auto simp: isIntType_def resolveOp_def redop_defs split: if_splits option.splits)
    with assms(6) [OF n(2)] show ?thesis by (intro arValue_agree [OF _ r n(1,3), where f = f and D = D]) auto
  qed
  show ?thesis
  proof (rule exI [of _ "?v 0"], rule finishes_mono [OF vcclAllReduce_finishes [OF assms(1-5)]])
    show "rd (mem c') (recv r) nb = ?v 0"
      if "r < n" "rd (mem c') (recv r) nb = ?v r \<and> keeps (c r) (mem c') (recv r) nb \<and> ctxFrame (c r) c' \<and> posted c' = []" for r c'
      using agree [OF that(1)] that(2) by simp
  qed
qed

theorem vcclAllReduce_agree_witness:
  "\<exists>v. finishes 6 (\<lambda>r. snd (vcclAllReduce 8 48 3 vcclFloat32 vcclSum 1 exTls (exCtx 6 r)))
    (\<lambda>r c'. rd (mem c') 48 12 = v)"
proof -
  have "vred exFpu vcclFloat32 vcclSum 3 x y = vred exFpu vcclFloat32 vcclSum 3 y x" for x y
    by (rule vred_comm) (simp add: elemFn_def lift2_def applyOpF_def applyOp_def redop_defs exFpu_def add.commute)
  then have comm: "commutesOn UNIV (vred exFpu vcclFloat32 vcclSum 3)" by (simp add: commutesOn_def)
  show ?thesis
    by (rule vcclAllReduce_agree [where cp = "\<lambda>_. 1" and t = "\<lambda>_. exTls" and f = exFpu and D = UNIV and dt = vcclFloat32
          and op' = vcclSum and premul = False and scalar = double_one])
      (simp_all add: exCtx_callable exCtx_scratch slotOk_def disj_def resolveOp_def redop_defs isFloatType_def comm [unfolded redop_defs])
qed

text \<open>C5: Reduce-scatter on integers. When all ranks call it, every schedule ends with success and rank
  \<open>r\<close>'s receive buffer holds the fold of the \<open>r\<close>-th blocks of all ranks.\<close>

theorem vcclReduceScatter_integer:
  assumes "callable n c cp t" "isIntType dt" "0 \<le> op" "op < vcclNumOps" "op \<noteq> vcclAvg" "cb = cnt * vcclTypeSize dt"
    and "\<And>r. r < n \<Longrightarrow> send r \<noteq> 0 \<and> recv r \<noteq> 0 \<and> scratchSafe (c r) (send r) (n * cb) \<and>
      scratchSafe (c r) (recv r) cb \<and> slotOk (recv r) (send r + r * cb) cb"
  shows "finishes n (\<lambda>r. snd (vcclReduceScatter (send r) (recv r) cnt dt op (cp r) (t r) (c r)))
    (\<lambda>r c'. rd (mem c') (recv r) cb =
         fold1 (vred f dt op cnt) (map (\<lambda>j. rd (mem (c j)) (send j + r * cb) cb) [0..<n]) \<and>
       keeps (c r) (mem c') (recv r) cb \<and> ctxFrame (c r) c' \<and> posted c' = [])"
proof -
  have dt: "dt \<noteq> vcclNumTypes" using assms(2) by (simp add: isIntType_def)
  have op: "opOk dt op" using assms dt by (simp add: opOk_def)
  note run = vcclReduceScatter_finishes [OF assms(1) dt assms(6) resolveOp_int [OF assms(3-5)] assms(7)]
  show ?thesis
  proof (rule finishes_mono [OF run], simp)
    fix r c' assume r: "r < n"
    assume v: "rd (mem c') (recv r) cb = rsResult (\<lambda>r. fp (c r)) dt op False double_one n cnt
        (\<lambda>j. rd (mem (c j)) (send j + r * cb) cb) r \<and> keeps (c r) (mem c') (recv r) cb \<and> ctxFrame (c r) c' \<and> posted c' = []"
    have "rd (mem c') (recv r) cb = fold1 (vred f dt op cnt) (map (\<lambda>j. rd (mem (c j)) (send j + r * cb) cb) [0..<n])"
    proof (rule int_result [OF assms(2) op, where F = "\<lambda>r. fp (c r)"])
      show "reducedElem (\<lambda>r. fp (c r)) dt op n (\<lambda>j. elemAt (vcclTypeSize dt) i (rd (mem (c j)) (send j + r * cb) cb))
          (elemAt (vcclTypeSize dt) i (rd (mem c') (recv r) cb))" if "i < cnt" for i
        using rsResult_elem [OF op r that] v by simp
    qed (use assms(6) r in auto)
    with v show "rd (mem c') (recv r) cb = fold1 (vred f dt op cnt) (map (\<lambda>j. rd (mem (c j)) (send j + r * cb) cb) [0..<n]) \<and>
       keeps (c r) (mem c') (recv r) cb \<and> ctxFrame (c r) c' \<and> posted c' = []" by simp
  qed
qed

theorem vcclReduceScatter_integer_witness:
  "finishes 3 (\<lambda>r. snd (vcclReduceScatter 8 48 4 vcclUint8 vcclProd 1 exTls (exCtx 3 r)))
    (\<lambda>r c'. rd (mem c') 48 4 =
         fold1 (vred exFpu vcclUint8 vcclProd 4) (map (\<lambda>j. rd (mem (exCtx 3 j)) (8 + r * 4) 4) [0..<3]) \<and>
       keeps (exCtx 3 r) (mem c') 48 4 \<and> ctxFrame (exCtx 3 r) c' \<and> posted c' = [])"
  by (rule vcclReduceScatter_integer [where cp = "\<lambda>_. 1" and t = "\<lambda>_. exTls"])
    (simp_all add: exCtx_callable exCtx_scratch slotOk_def disj_def redop_defs isIntType_def isFloatType_def)

text \<open>C6: Reduce-scatter on every type and operator. Rank \<open>r\<close> ends with the value of its block's tour: the
  partial starts at rank \<open>r + 1\<close> with that rank's (scaled) block, each further rank on the ring adds its
  own, and rank \<open>r\<close> combines its (scaled) block with the partial that arrives; an average is scaled by the
  reciprocal of the number of ranks. Without a custom operator each element so combines the elements
  of all ranks exactly once.\<close>

theorem vcclReduceScatter_tour:
  assumes "callable n c cp t" "dt \<noteq> vcclNumTypes" "cb = cnt * vcclTypeSize dt"
    and "\<And>r. r < n \<Longrightarrow> resolveOp (comm (c r)) dt op = Inr (op', premul, scalar)"
    and "\<And>r. r < n \<Longrightarrow> send r \<noteq> 0 \<and> recv r \<noteq> 0 \<and> scratchSafe (c r) (send r) (n * cb) \<and>
      scratchSafe (c r) (recv r) cb \<and> slotOk (recv r) (send r + r * cb) cb"
  shows "finishes n (\<lambda>r. snd (vcclReduceScatter (send r) (recv r) cnt dt op (cp r) (t r) (c r)))
    (\<lambda>r c'. let x = (\<lambda>j. rd (mem (c j)) (send j + r * cb) cb) in
       rd (mem c') (recv r) cb = rsResult (\<lambda>r. fp (c r)) dt op' premul scalar n cnt x r \<and>
       (\<not> premul \<longrightarrow> (\<forall>i<cnt. reducedElem (\<lambda>r. fp (c r)) dt op' n (\<lambda>j. elemAt (vcclTypeSize dt) i (x j))
          (elemAt (vcclTypeSize dt) i (rd (mem c') (recv r) cb)))))"
proof (rule finishes_mono [OF vcclReduceScatter_finishes [OF assms]])
  have "opOk dt op'" using resolveOp_ok [OF assms(4) assms(2)] assms(1) by (auto simp: callable_def ready_def)
  then show "let x = (\<lambda>j. rd (mem (c j)) (send j + r * cb) cb) in
       rd (mem c') (recv r) cb = rsResult (\<lambda>r. fp (c r)) dt op' premul scalar n cnt x r \<and>
       (\<not> premul \<longrightarrow> (\<forall>i<cnt. reducedElem (\<lambda>r. fp (c r)) dt op' n (\<lambda>j. elemAt (vcclTypeSize dt) i (x j))
          (elemAt (vcclTypeSize dt) i (rd (mem c') (recv r) cb))))"
    if "r < n" "rd (mem c') (recv r) cb = rsResult (\<lambda>r. fp (c r)) dt op' premul scalar n cnt (\<lambda>j. rd (mem (c j)) (send j + r * cb) cb) r \<and>
      keeps (c r) (mem c') (recv r) cb \<and> ctxFrame (c r) c' \<and> posted c' = []" for r c'
    using that rsResult_elem by (auto simp: Let_def)
qed

theorem vcclReduceScatter_tour_witness:
  "finishes 4 (\<lambda>r. snd (vcclReduceScatter 8 48 2 vcclFloat32 vcclAvg 1 exTls (exCtx 4 r)))
    (\<lambda>r c'. let x = (\<lambda>j. rd (mem (exCtx 4 j)) (8 + r * 8) 8) in
       rd (mem c') 48 8 = rsResult (\<lambda>r. fp (exCtx 4 r)) vcclFloat32 vcclAvg False double_one 4 2 x r \<and>
       (\<not> False \<longrightarrow> (\<forall>i<2. reducedElem (\<lambda>r. fp (exCtx 4 r)) vcclFloat32 vcclAvg 4 (\<lambda>j. elemAt (vcclTypeSize vcclFloat32) i (x j))
          (elemAt (vcclTypeSize vcclFloat32) i (rd (mem c') 48 8)))))"
  by (rule vcclReduceScatter_tour [where cp = "\<lambda>_. 1" and t = "\<lambda>_. exTls"])
    (simp_all add: exCtx_callable exCtx_scratch slotOk_def disj_def resolveOp_def redop_defs isFloatType_def)

text \<open>C8: Broadcast. When all ranks call it, every schedule ends with success and every rank's receive buffer
  holds the root's send buffer, however many pieces the data takes.\<close>

theorem vcclBroadcast_correct:
  assumes c: "callable n c cp t" and dt: "dt \<noteq> vcclNumTypes" and root: "root < n" and nb: "nb = cnt * vcclTypeSize dt"
    and b: "\<And>r. r < n \<Longrightarrow> recv r \<noteq> 0" "send root \<noteq> 0" "slotOk (recv root) (send root) nb"
  shows "finishes n (\<lambda>r. snd (vcclBroadcast (send r) (recv r) cnt dt (int root) (cp r) (t r) (c r)))
    (\<lambda>r c'. rd (mem c') (recv r) nb = rd (mem (c root)) (send root) nb \<and>
       keeps (c r) (mem c') (recv r) nb \<and> ctxFrame (c r) c' \<and> posted c' = [])"
proof (rule entry_finishes [where call = "\<lambda>r. vcclBroadcast (send r) (recv r) cnt dt (int root) (cp r) (t r)"])
  show "runs {..<n} (\<lambda>r. doBroadcast (send r) (recv r) cnt dt root) c (\<lambda>M. (\<forall>r<n. keeps (c r) (M r) (recv r) nb) \<and>
      (\<forall>r<n. rd (M r) (recv r) nb = rd (mem (c root)) (send root) nb))"
    using c b by (intro works_runs doBroadcast_works root nb) (auto simp: callable_def)
qed (use b c dt root callable_rooted callable_checks in \<open>auto simp: vcclBroadcast_def runOp_outside\<close>)

theorem vcclBroadcast_correct_witness:
  "finishes 3 (\<lambda>r. snd (vcclBroadcast 8 16 4 vcclInt8 (int 1) 1 exTls (exCtx 3 r)))
    (\<lambda>r c'. rd (mem c') 16 4 = rd (mem (exCtx 3 1)) 8 4 \<and>
       keeps (exCtx 3 r) (mem c') 16 4 \<and> ctxFrame (exCtx 3 r) c' \<and> posted c' = [])"
  by (rule vcclBroadcast_correct [where cp = "\<lambda>_. 1" and t = "\<lambda>_. exTls"])
    (simp_all add: exCtx_callable exCtx_scratch slotOk_def disj_def)

text \<open>C11: Gather. Every schedule ends with success, the root's receive buffer holds the send buffers of all
  ranks in rank order, and the other ranks' memory is unchanged but for scratch space.\<close>

theorem vcclGather_correct:
  assumes c: "callable n c cp t" and dt: "dt \<noteq> vcclNumTypes" and root: "root < n" and cb: "cb = cnt * vcclTypeSize dt"
    and b: "\<And>r. r < n \<Longrightarrow> send r \<noteq> 0" "recv root \<noteq> 0" "slotOk (recv root + root * cb) (send root) cb"
  shows "finishes n (\<lambda>r. snd (vcclGather (send r) (recv r) cnt dt (int root) (cp r) (t r) (c r)))
    (\<lambda>r c'. (r = root \<longrightarrow> (\<forall>j<n. rd (mem c') (recv root + j * cb) cb = rd (mem (c j)) (send j) cb)) \<and>
       keeps (c r) (mem c') (recv r) (if r = root then n * cb else 0) \<and> ctxFrame (c r) c' \<and> posted c' = [])"
proof (rule entry_finishes [where call = "\<lambda>r. vcclGather (send r) (recv r) cnt dt (int root) (cp r) (t r)"])
  show "runs {..<n} (\<lambda>r. doGather (send r) (recv r) cnt dt root) c (\<lambda>M. (\<forall>r<n. keeps (c r) (M r) (recv r) (if r = root then n * cb else 0)) \<and>
      (\<forall>j<n. rd (M root) (recv root + j * cb) cb = rd (mem (c j)) (send j) cb))"
    using c b by (intro works_runs doGather_works root cb) (auto simp: callable_def)
qed (use b c dt root callable_rooted callable_checks in \<open>auto simp: vcclGather_def runOp_outside\<close>)

theorem vcclGather_correct_witness:
  "finishes 3 (\<lambda>r. snd (vcclGather 8 16 4 vcclInt8 (int 2) 1 exTls (exCtx 3 r)))
    (\<lambda>r c'. (r = 2 \<longrightarrow> (\<forall>j<3. rd (mem c') (16 + j * 4) 4 = rd (mem (exCtx 3 j)) 8 4)) \<and>
       keeps (exCtx 3 r) (mem c') 16 (if r = 2 then 3 * 4 else 0) \<and> ctxFrame (exCtx 3 r) c' \<and> posted c' = [])"
  by (rule vcclGather_correct [where cp = "\<lambda>_. 1" and t = "\<lambda>_. exTls"])
    (simp_all add: exCtx_callable exCtx_scratch slotOk_def disj_def)

text \<open>C12: Scatter. Every schedule ends with success and rank \<open>r\<close>'s receive buffer holds the \<open>r\<close>-th block of
  the root's send buffer.\<close>

theorem vcclScatter_correct:
  assumes c: "callable n c cp t" and dt: "dt \<noteq> vcclNumTypes" and root: "root < n" and cb: "cb = cnt * vcclTypeSize dt"
    and b: "\<And>r. r < n \<Longrightarrow> recv r \<noteq> 0" "send root \<noteq> 0" "recv root = send root + root * cb \<or> disj (recv root) cb (send root) (n * cb)"
  shows "finishes n (\<lambda>r. snd (vcclScatter (send r) (recv r) cnt dt (int root) (cp r) (t r) (c r)))
    (\<lambda>r c'. rd (mem c') (recv r) cb = rd (mem (c root)) (send root + r * cb) cb \<and>
       keeps (c r) (mem c') (recv r) cb \<and> ctxFrame (c r) c' \<and> posted c' = [])"
proof (rule entry_finishes [where call = "\<lambda>r. vcclScatter (send r) (recv r) cnt dt (int root) (cp r) (t r)"])
  show "runs {..<n} (\<lambda>r. doScatter (send r) (recv r) cnt dt root) c (\<lambda>M. (\<forall>r<n. keeps (c r) (M r) (recv r) cb) \<and>
      (\<forall>r<n. rd (M r) (recv r) cb = rd (mem (c root)) (send root + r * cb) cb))"
    using c b by (intro works_runs doScatter_works root cb) (auto simp: callable_def)
qed (use b c dt root callable_rooted callable_checks in \<open>auto simp: vcclScatter_def runOp_outside\<close>)

theorem vcclScatter_correct_witness:
  "finishes 3 (\<lambda>r. snd (vcclScatter 8 48 4 vcclInt8 (int 0) 1 exTls (exCtx 3 r)))
    (\<lambda>r c'. rd (mem c') 48 4 = rd (mem (exCtx 3 0)) (8 + r * 4) 4 \<and>
       keeps (exCtx 3 r) (mem c') 48 4 \<and> ctxFrame (exCtx 3 r) c' \<and> posted c' = [])"
  by (rule vcclScatter_correct [where cp = "\<lambda>_. 1" and t = "\<lambda>_. exTls"])
    (simp_all add: exCtx_callable exCtx_scratch slotOk_def disj_def)

text \<open>C9: All-to-all with counts and displacements. When the tables of all ranks fit together, every schedule
  ends with success and slot \<open>j\<close> of rank \<open>r\<close>'s receive buffer holds what rank \<open>j\<close> sends to \<open>r\<close>; zero
  counts are allowed.\<close>

theorem vcclAllToAllv_correct:
  assumes "callable n c cp t" "es = vcclTypeSize dt" "dt \<noteq> vcclNumTypes" "a2aOk n send sc sd recv rc rds es"
    and "\<And>r. r < n \<Longrightarrow> send r \<noteq> 0 \<and> recv r \<noteq> 0"
  shows "finishes n (\<lambda>r. snd (vcclAllToAllv (send r) (Some (sc r)) (Some (sd r)) (recv r) (Some (rc r)) (Some (rds r)) dt (cp r) (t r) (c r)))
    (\<lambda>r c'. (\<forall>j<n. rd (mem c') (recv r + rds r ! j * es) (rc r ! j * es) = rd (mem (c j)) (send j + sd j ! r * es) (rc r ! j * es)) \<and>
       keeps (c r) (mem c') (recv r) (a2aEnd n (rds r) (rc r) es) \<and> ctxFrame (c r) c' \<and> posted c' = [])"
  using vcclAllToAllv_finishes [OF assms] by (simp add: slotAt_def slotLen_def)

theorem vcclAllToAllv_correct_witness:
  "finishes 2 (\<lambda>r. snd (vcclAllToAllv 8 (Some [1, 2]) (Some [0, 1]) 48 (Some (if r = 0 then [1, 1] else [2, 2])) (Some (if r = 0 then [1, 0] else [0, 2])) vcclInt8 1 exTls (exCtx 2 r)))
    (\<lambda>r c'. (\<forall>j<2. rd (mem c') (48 + (if r = 0 then [1, 0] else [0, 2]) ! j * 1) ((if r = 0 then [1, 1] else [2, 2]) ! j * 1) =
         rd (mem (exCtx 2 j)) (8 + [0, 1] ! r * 1) ((if r = 0 then [1, 1] else [2, 2]) ! j * 1)) \<and>
       keeps (exCtx 2 r) (mem c') 48 (a2aEnd 2 (if r = 0 then [1, 0] else [0, 2]) (if r = 0 then [1, 1] else [2, 2]) 1) \<and>
       ctxFrame (exCtx 2 r) c' \<and> posted c' = [])"
  by (rule vcclAllToAllv_correct [where cp = "\<lambda>_. 1" and t = "\<lambda>_. exTls" and sc = "\<lambda>_. [1, 2]" and sd = "\<lambda>_. [0, 1]"
        and rc = "\<lambda>r. if r = 0 then [1, 1] else [2, 2]" and rds = "\<lambda>r. if r = 0 then [1, 0] else [0, 2]"])
    (auto simp: exCtx_callable a2aOk_def slotAt_def slotLen_def slotOk_def disj_def less_2_cases_iff)

text \<open>C10: The uniform all-to-all is the transposition of blocks: block \<open>j\<close> of rank \<open>r\<close>'s receive buffer is block \<open>r\<close>
  of rank \<open>j\<close>'s send buffer.\<close>

theorem vcclAllToAll_transpose:
  assumes "callable n c cp t" "dt \<noteq> vcclNumTypes" "cb = cnt * vcclTypeSize dt"
    and "\<And>r. r < n \<Longrightarrow> send r \<noteq> 0 \<and> recv r \<noteq> 0 \<and> disj (recv r) (n * cb) (send r) (n * cb)"
  shows "finishes n (\<lambda>r. snd (vcclAllToAll (send r) (recv r) cnt dt (cp r) (t r) (c r)))
    (\<lambda>r c'. (\<forall>j<n. rd (mem c') (recv r + j * cb) cb = rd (mem (c j)) (send j + r * cb) cb) \<and> ctxFrame (c r) c' \<and> posted c' = [])"
proof -
  let ?c = "\<lambda>_. replicate n cnt" and ?d = "\<lambda>_. map (\<lambda>i. i * cnt) [0..<n]"
  have ok: "a2aOk n send ?c ?d recv ?c ?d (vcclTypeSize dt)" using assms by (intro a2aOk_uniform) auto
  have "finishes n (\<lambda>r. snd (vcclAllToAllv (send r) (Some (?c r)) (Some (?d r)) (recv r) (Some (?c r)) (Some (?d r)) dt (cp r) (t r) (c r)))
    (\<lambda>r c'. (\<forall>j<n. rd (mem c') (recv r + j * cb) cb = rd (mem (c j)) (send j + r * cb) cb) \<and> ctxFrame (c r) c' \<and> posted c' = [])"
    by (rule finishes_mono [OF vcclAllToAllv_finishes [OF assms(1) refl assms(2) ok]])
      (use assms in \<open>auto simp: slotAt_def slotLen_def mult.assoc\<close>)
  moreover have "finishes n (\<lambda>r. snd (vcclAllToAll (send r) (recv r) cnt dt (cp r) (t r) (c r))) Q \<longleftrightarrow>
      finishes n (\<lambda>r. snd (vcclAllToAllv (send r) (Some (?c r)) (Some (?d r)) (recv r) (Some (?c r)) (Some (?d r)) dt (cp r) (t r) (c r))) Q" for Q
    by (intro finishes_cong arg_cong [where f = snd] vcclAllToAll_v) (use assms(1) ready_rank in \<open>auto simp: callable_def\<close>)
  ultimately show ?thesis by simp
qed

theorem vcclAllToAll_transpose_witness:
  "finishes 3 (\<lambda>r. snd (vcclAllToAll 8 48 4 vcclInt8 1 exTls (exCtx 3 r)))
    (\<lambda>r c'. (\<forall>j<3. rd (mem c') (48 + j * 4) 4 = rd (mem (exCtx 3 j)) (8 + r * 4) 4) \<and> ctxFrame (exCtx 3 r) c' \<and> posted c' = [])"
  by (rule vcclAllToAll_transpose [where cp = "\<lambda>_. 1" and t = "\<lambda>_. exTls"])
    (simp_all add: exCtx_callable exCtx_scratch slotOk_def disj_def)

text \<open>C7: Reduce to a root. Every schedule ends with success; on integers the root's receive buffer holds the fold
  of all send buffers, on every type each element combines the elements of all ranks exactly once (no
  custom operator), and the other ranks' memory is unchanged but for scratch space.\<close>

theorem vcclReduce_elements:
  assumes "callable n c cp t" "dt \<noteq> vcclNumTypes" "root < n" "nb = cnt * vcclTypeSize dt" "0 \<le> op" "op < vcclNumOps" "op = vcclAvg \<Longrightarrow> isFloatType dt"
    and "\<And>r. r < n \<Longrightarrow> send r \<noteq> 0 \<and> scratchSafe (c r) (send r) nb"
    and "recv root \<noteq> 0" "scratchSafe (c root) (recv root) nb" "slotOk (recv root) (send root) nb"
  shows "finishes n (\<lambda>r. snd (vcclReduce (send r) (recv r) cnt dt op (int root) (cp r) (t r) (c r)))
    (\<lambda>r c'. (r = root \<longrightarrow>
         (\<forall>i<cnt. reducedElem (\<lambda>r. fp (c r)) dt op n (\<lambda>j. elemAt (vcclTypeSize dt) i (rd (mem (c j)) (send j) nb))
            (elemAt (vcclTypeSize dt) i (rd (mem c') (recv root) nb))) \<and>
         (isIntType dt \<longrightarrow> rd (mem c') (recv root) nb = fold1 (vred f dt op cnt) (map (\<lambda>j. rd (mem (c j)) (send j) nb) [0..<n]))) \<and>
       keeps (c r) (mem c') (recv r) (if r = root then nb else 0) \<and> ctxFrame (c r) c' \<and> posted c' = [])"
proof -
  have op: "opOk dt op" using assms by (simp add: opOk_def)
  have res: "resolveOp cm dt op = Inr (op, False, double_one)" for cm using assms(5-7) by (auto simp: resolveOp_def)
  have el: "reducedElem (\<lambda>r. fp (c r)) dt op n (\<lambda>j. elemAt (vcclTypeSize dt) i (rd (mem (c j)) (send j) nb)) (elemAt (vcclTypeSize dt) i y)"
    if "reduced (\<lambda>r. fp (c r)) dt op False double_one n root cnt (\<lambda>j. rd (mem (c j)) (send j) nb) y" "i < cnt" "length y = nb" for i y
    using reduced_elem [OF op assms(3) that(2)] that assms(4) by simp
  have int: "y = fold1 (vred f dt op cnt) (map (\<lambda>j. rd (mem (c j)) (send j) nb) [0..<n])"
    if "reduced (\<lambda>r. fp (c r)) dt op False double_one n root cnt (\<lambda>j. rd (mem (c j)) (send j) nb) y" "isIntType dt" "length y = nb" for y
    by (rule int_result [OF that(2) op]) (use assms(3,4) el that in auto)
  show ?thesis
    by (rule finishes_mono [OF vcclReduce_finishes [where send = send and recv = recv, OF assms(1-4) res assms(8-11)]]) (auto intro: el int)
qed

theorem vcclReduce_elements_witness:
  "finishes 3 (\<lambda>r. snd (vcclReduce 8 48 4 vcclInt32 vcclMin (int 1) 1 exTls (exCtx 3 r)))
    (\<lambda>r c'. (r = 1 \<longrightarrow>
         (\<forall>i<4. reducedElem (\<lambda>r. fp (exCtx 3 r)) vcclInt32 vcclMin 3 (\<lambda>j. elemAt (vcclTypeSize vcclInt32) i (rd (mem (exCtx 3 j)) 8 16))
            (elemAt (vcclTypeSize vcclInt32) i (rd (mem c') 48 16))) \<and>
         (isIntType vcclInt32 \<longrightarrow> rd (mem c') 48 16 = fold1 (vred exFpu vcclInt32 vcclMin 4) (map (\<lambda>j. rd (mem (exCtx 3 j)) 8 16) [0..<3]))) \<and>
       keeps (exCtx 3 r) (mem c') 48 (if r = 1 then 16 else 0) \<and> ctxFrame (exCtx 3 r) c' \<and> posted c' = [])"
  by (rule vcclReduce_elements [where cp = "\<lambda>_. 1" and t = "\<lambda>_. exTls"])
    (simp_all add: exCtx_callable exCtx_scratch slotOk_def disj_def redop_defs)

end
